(* ===== verification/Xv6_Prelude.thy ===== *)
theory Xv6_Prelude
  imports Main "HOL-Library.Word"
begin

text \<open>
  Shared vocabulary of the development: machine integer types, the result type of
  kernel code (a value, a kernel panic, or a computation that never comes back), the
  sequencing operator on it, table scans, and the little-endian encodings through
  which the kernel views raw bytes as integers.
\<close>

unbundle bit_operations_syntax

named_theorems res_simps \<open>simplification rules for sequenced kernel code\<close>
named_theorems enc_simps \<open>encoding and decoding of little-endian integers\<close>

type_synonym byte = "8 word"
type_synonym u16 = "16 word"
type_synonym u32 = "32 word"

section \<open>Results of kernel code\<close>

text \<open>
  \<open>Ok v\<close>: the C function returned. \<open>Panic msg\<close>: it called \<open>panic(msg)\<close>, after which
  the machine is frozen. \<open>Stuck\<close>: it waits for an event that never happens (a spin
  lock held by another CPU that never releases it, a sleep that is never woken).
\<close>

datatype 'a res = Ok 'a | Panic string | Stuck

fun bnd :: "'a res \<Rightarrow> ('a \<Rightarrow> 'b res) \<Rightarrow> 'b res" where
  "bnd (Ok v) f = f v"
| "bnd (Panic e) f = Panic e"
| "bnd Stuck f = Stuck"

lemma bnd_cong [fundef_cong]:
  "m = m' \<Longrightarrow> (\<And>v. m' = Ok v \<Longrightarrow> f v = f' v) \<Longrightarrow> bnd m f = bnd m' f'"
  by (cases m') auto

lemma bnd_eq_Ok [res_simps]: "bnd m f = Ok r \<longleftrightarrow> (\<exists>v. m = Ok v \<and> f v = Ok r)"
  by (cases m) auto

lemma bnd_eq_Panic [res_simps]:
  "bnd m f = Panic e \<longleftrightarrow> m = Panic e \<or> (\<exists>v. m = Ok v \<and> f v = Panic e)"
  by (cases m) auto

lemma bnd_eq_Stuck [res_simps]: "bnd m f = Stuck \<longleftrightarrow> m = Stuck \<or> (\<exists>v. m = Ok v \<and> f v = Stuck)"
  by (cases m) auto

lemma bnd_assoc: "bnd (bnd m f) g = bnd m (\<lambda>v. bnd (f v) g)"
  by (cases m) auto

lemma bnd_if: "bnd (if c then a else b) f = (if c then bnd a f else bnd b f)"
  by simp

text \<open>
  \<open>returns m Q\<close>: the computation returns, and its result satisfies \<open>Q\<close> (total
  correctness). \<open>ensures m Q\<close>: if it returns, its result satisfies \<open>Q\<close>.
\<close>

definition returns :: "'a res \<Rightarrow> ('a \<Rightarrow> bool) \<Rightarrow> bool" where
  "returns m Q \<longleftrightarrow> (case m of Ok v \<Rightarrow> Q v | Panic _ \<Rightarrow> False | Stuck \<Rightarrow> False)"

definition ensures :: "'a res \<Rightarrow> ('a \<Rightarrow> bool) \<Rightarrow> bool" where
  "ensures m Q \<longleftrightarrow> (case m of Ok v \<Rightarrow> Q v | Panic _ \<Rightarrow> True | Stuck \<Rightarrow> True)"

lemma returns_simps [simp]:
  "returns (Ok v) Q = Q v" "returns (Panic e) Q = False" "returns Stuck Q = False"
  by (simp_all add: returns_def)

lemma ensures_simps [simp]:
  "ensures (Ok v) Q = Q v" "ensures (Panic e) Q = True" "ensures Stuck Q = True"
  by (simp_all add: ensures_def)

lemma returns_iff: "returns m Q \<longleftrightarrow> (\<exists>v. m = Ok v \<and> Q v)"
  by (cases m) auto

lemma ensures_iff: "ensures m Q \<longleftrightarrow> (\<forall>v. m = Ok v \<longrightarrow> Q v)"
  by (cases m) auto

lemma returns_bndI [intro?]:
  "returns m P \<Longrightarrow> (\<And>v. P v \<Longrightarrow> returns (f v) Q) \<Longrightarrow> returns (bnd m f) Q"
  by (cases m) auto

lemma ensures_bndI [intro?]:
  "ensures m P \<Longrightarrow> (\<And>v. P v \<Longrightarrow> ensures (f v) Q) \<Longrightarrow> ensures (bnd m f) Q"
  by (cases m) auto

lemma returns_mono: "returns m P \<Longrightarrow> (\<And>v. P v \<Longrightarrow> Q v) \<Longrightarrow> returns m Q"
  by (cases m) auto

lemma ensures_mono: "ensures m P \<Longrightarrow> (\<And>v. P v \<Longrightarrow> Q v) \<Longrightarrow> ensures m Q"
  by (cases m) auto

section \<open>Table scans\<close>

text \<open>
  \<open>for(p = tab; p < &tab[N]; p++) if(P(p)) goto found;\<close> finds the first entry of a
  table with a property.
\<close>

fun first_idx :: "('a \<Rightarrow> bool) \<Rightarrow> 'a list \<Rightarrow> nat option" where
  "first_idx P [] = None"
| "first_idx P (x # xs) = (if P x then Some 0 else map_option Suc (first_idx P xs))"

lemma first_idx_None [simp]: "first_idx P xs = None \<longleftrightarrow> (\<forall>x\<in>set xs. \<not> P x)"
  by (induction xs) auto

lemma first_idx_Some:
  "first_idx P xs = Some i \<longleftrightarrow> i < length xs \<and> P (xs ! i) \<and> (\<forall>j<i. \<not> P (xs ! j))"
proof (induction xs arbitrary: i)
  case Nil
  then show ?case by simp
next
  case (Cons x xs)
  show ?case
    by (cases i) (auto simp: Cons.IH less_Suc_eq_0_disj)
qed

lemma first_idx_SomeD:
  "first_idx P xs = Some i \<Longrightarrow> i < length xs" "first_idx P xs = Some i \<Longrightarrow> P (xs ! i)"
  "first_idx P xs = Some i \<Longrightarrow> j < i \<Longrightarrow> \<not> P (xs ! j)"
  by (auto simp: first_idx_Some)

lemma first_idx_cong: "(\<And>x. x \<in> set xs \<Longrightarrow> P x = Q x) \<Longrightarrow> first_idx P xs = first_idx Q xs"
  by (induction xs) auto

section \<open>32-bit words as numbers\<close>

lemma unat_word_less32: "unat (w :: u32) < 2 ^ 32"
  using unsigned_less [of w, where ?'a = nat] by simp

lemma unat_of_nat32: "n < 2 ^ 32 \<Longrightarrow> unat (of_nat n :: u32) = n"
  by (simp add: unat_of_nat)

lemma unat_eq_of_nat32: "n < 2 ^ 32 \<Longrightarrow> unat (w :: u32) = n \<longleftrightarrow> w = of_nat n"
  using unat_of_nat32 [of n] by auto

lemma unat_4 [simp]: "unat (4 :: u32) = 4"
  by simp

text \<open>The value of a C \<open>int\<close> after an addition: 32 bits, two's complement.\<close>

definition c_int :: "int \<Rightarrow> int" where
  "c_int n = sint (of_int n :: u32)"

lemma c_int_id: "- (2 ^ 31) \<le> n \<Longrightarrow> n < 2 ^ 31 \<Longrightarrow> c_int n = n"
  by (simp add: c_int_def sint_sbintrunc' signed_take_bit_int_eq_self)

lemma c_int_Suc: "n < 2 ^ 31 \<Longrightarrow> 0 < n \<Longrightarrow> c_int (n + 1) \<noteq> n"
proof (cases "n + 1 < 2 ^ 31")
  case False
  moreover assume "n < 2 ^ 31"
  ultimately have "n = 2147483647" by simp
  then show ?thesis by (simp add: c_int_def)
qed (simp add: c_int_id)

section \<open>Little-endian integers\<close>

text \<open>Byte \<open>k\<close> of an integer, and the integer made of given bytes, lowest first.\<close>

definition byte_of :: "u32 \<Rightarrow> nat \<Rightarrow> byte" where
  "byte_of w k = ucast (drop_bit (8 * k) w)"

definition mk32 :: "byte \<Rightarrow> byte \<Rightarrow> byte \<Rightarrow> byte \<Rightarrow> u32" where
  "mk32 b0 b1 b2 b3 =
     ucast b0 OR push_bit 8 (ucast b1) OR push_bit 16 (ucast b2) OR push_bit 24 (ucast b3)"

definition mk16 :: "byte \<Rightarrow> byte \<Rightarrow> u16" where
  "mk16 b0 b1 = ucast b0 OR push_bit 8 (ucast b1)"

lemma mk32_byte_of [enc_simps, simp]:
  "mk32 (byte_of w 0) (byte_of w (Suc 0)) (byte_of w 2) (byte_of w 3) = w"
proof (rule bit_eqI)
  fix n assume "possible_bit TYPE(32 word) n"
  then consider "n < 8" | "8 \<le> n" "n < 16" | "16 \<le> n" "n < 24" | "24 \<le> n" "n < 32"
    by fastforce
  then show "bit (mk32 (byte_of w 0) (byte_of w (Suc 0)) (byte_of w 2) (byte_of w 3)) n = bit w n"
    by cases (auto simp: mk32_def byte_of_def bit_simps)
qed

lemma byte_of_mk32 [enc_simps, simp]:
  "byte_of (mk32 b0 b1 b2 b3) 0 = b0" "byte_of (mk32 b0 b1 b2 b3) (Suc 0) = b1"
  "byte_of (mk32 b0 b1 b2 b3) 2 = b2" "byte_of (mk32 b0 b1 b2 b3) 3 = b3"
  by (rule bit_eqI; auto simp: mk32_def byte_of_def bit_simps dest: bit_imp_le_length)+

lemma mk16_bytes [enc_simps, simp]: "mk16 (ucast w) (ucast (drop_bit 8 w)) = w"
  by (rule bit_eqI) (auto simp: mk16_def bit_simps)

text \<open>Integer fields of a byte array (a disk block) at a given offset.\<close>

definition rd16 :: "byte list \<Rightarrow> nat \<Rightarrow> u16" where
  "rd16 bs i = mk16 (bs ! i) (bs ! (i + 1))"

definition rd32 :: "byte list \<Rightarrow> nat \<Rightarrow> u32" where
  "rd32 bs i = mk32 (bs ! i) (bs ! (i + 1)) (bs ! (i + 2)) (bs ! (i + 3))"

definition wr16 :: "byte list \<Rightarrow> nat \<Rightarrow> u16 \<Rightarrow> byte list" where
  "wr16 bs i w = bs[i := ucast w, i + 1 := ucast (drop_bit 8 w)]"

definition wr32 :: "byte list \<Rightarrow> nat \<Rightarrow> u32 \<Rightarrow> byte list" where
  "wr32 bs i w = bs[i := byte_of w 0, i + 1 := byte_of w 1, i + 2 := byte_of w 2, i + 3 := byte_of w 3]"

lemma length_wr [simp]: "length (wr16 bs i h) = length bs" "length (wr32 bs i w) = length bs"
  by (simp_all add: wr16_def wr32_def)

lemma rd32_wr32 [enc_simps, simp]: "i + 3 < length bs \<Longrightarrow> rd32 (wr32 bs i w) i = w"
  by (simp add: rd32_def wr32_def)

lemma rd16_wr16 [enc_simps, simp]: "i + 1 < length bs \<Longrightarrow> rd16 (wr16 bs i w) i = w"
  by (simp add: rd16_def wr16_def)

lemma rd32_wr32_other [enc_simps]: "j + 4 \<le> i \<or> i + 4 \<le> j \<Longrightarrow> rd32 (wr32 bs i w) j = rd32 bs j"
  by (auto simp: rd32_def wr32_def)

lemma rd32_wr16_other [enc_simps]: "j + 4 \<le> i \<or> i + 2 \<le> j \<Longrightarrow> rd32 (wr16 bs i w) j = rd32 bs j"
  by (auto simp: rd32_def wr16_def)

lemma rd16_wr32_other [enc_simps]: "j + 2 \<le> i \<or> i + 4 \<le> j \<Longrightarrow> rd16 (wr32 bs i w) j = rd16 bs j"
  by (auto simp: rd16_def wr32_def)

lemma rd16_wr16_other [enc_simps]: "j + 2 \<le> i \<or> i + 2 \<le> j \<Longrightarrow> rd16 (wr16 bs i w) j = rd16 bs j"
  by (auto simp: rd16_def wr16_def)

text \<open>Overwriting part of a byte array, as \<open>memmove(dst + off, src, n)\<close> does.\<close>

definition patch :: "byte list \<Rightarrow> nat \<Rightarrow> byte list \<Rightarrow> byte list" where
  "patch bs off src = take off bs @ src @ drop (off + length src) bs"

lemma length_patch [simp]: "off + length src \<le> length bs \<Longrightarrow> length (patch bs off src) = length bs"
  by (simp add: patch_def)

lemma patch_nth:
  "off + length src \<le> length bs \<Longrightarrow> i < length bs \<Longrightarrow>
   patch bs off src ! i = (if off \<le> i \<and> i < off + length src then src ! (i - off) else bs ! i)"
  by (auto simp: patch_def nth_append min_def)

lemma take_drop_patch:
  "off + length src \<le> length bs \<Longrightarrow> take (length src) (drop off (patch bs off src)) = src"
  by (simp add: patch_def)

end
