(* ===== verification/Spinlock.thy ===== *)
theory Spinlock
  imports Xv6_Prelude
begin

text \<open>
  \<open>spinlock.c\<close>: the spin lock and the per-CPU interrupt nesting counter, run by any
  number of CPUs. The first part models the C functions on the lock and CPU structures;
  the second interleaves the machine steps of several CPUs and proves mutual
  exclusion; the third gives the view one CPU has of its own locks, the list of the
  locks it holds, which the other components use, and proves that the C functions
  implement it.
\<close>

section \<open>Locks and CPUs\<close>

text \<open>The spin locks of the kernel; each pipe page carries a lock of its own.\<close>

datatype lockid = L_ptable | L_kmem | L_bcache | L_ide | L_log | L_icache | L_ftable
  | L_cons | L_input | L_ticks | L_pipe u32

record spinlock =
  locked :: u32
  lname :: string
  lcpu :: "nat option"
  lpcs :: "u32 list"

text \<open>Per-CPU fields used by the locks, and the CPU's interrupt flag \<open>FL_IF\<close>.\<close>

record cpu =
  ncli :: int
  intena :: bool
  eflags_if :: bool

record machine =
  locks :: "lockid \<Rightarrow> spinlock"
  cpus :: "nat \<Rightarrow> cpu"

definition initlock :: "string \<Rightarrow> spinlock \<Rightarrow> spinlock" where
  "initlock name lk = lk\<lparr>lname := name, locked := 0, lcpu := None\<rparr>"

definition holding :: "nat \<Rightarrow> spinlock \<Rightarrow> bool" where
  "holding c lk \<longleftrightarrow> locked lk \<noteq> 0 \<and> lcpu lk = Some c"

definition pushcli :: "cpu \<Rightarrow> cpu" where
  "pushcli c = (let eflags = eflags_if c; c = c\<lparr>eflags_if := False\<rparr> in
     (if ncli c = 0 then c\<lparr>ncli := ncli c + 1, intena := eflags\<rparr> else c\<lparr>ncli := ncli c + 1\<rparr>))"

definition popcli :: "cpu \<Rightarrow> cpu res" where
  "popcli c = (if eflags_if c then Panic ''popcli - interruptible'' else
     let c = c\<lparr>ncli := ncli c - 1\<rparr> in
     if ncli c < 0 then Panic ''popcli''
     else if ncli c = 0 \<and> intena c then Ok (c\<lparr>eflags_if := True\<rparr>) else Ok c)"

text \<open>
  \<open>getcallerpcs\<close> follows the chain of saved frame pointers: at most ten frames, and
  stops below \<open>KERNBASE\<close>; the rest of the array is zeroed. \<open>rd\<close> reads a word of kernel
  memory.
\<close>

definition KERNBASE :: u32 where "KERNBASE = 0x80000000"

fun pcs_loop :: "nat \<Rightarrow> (u32 \<Rightarrow> u32) \<Rightarrow> u32 \<Rightarrow> u32 list" where
  "pcs_loop 0 rd ebp = []"
| "pcs_loop (Suc k) rd ebp =
     (if ebp = 0 \<or> ebp < KERNBASE \<or> ebp = 0xffffffff then replicate (Suc k) 0
      else rd (ebp + 4) # pcs_loop k rd (rd ebp))"

definition getcallerpcs :: "(u32 \<Rightarrow> u32) \<Rightarrow> u32 \<Rightarrow> u32 list" where
  "getcallerpcs rd v = pcs_loop 10 rd (v - 8)"

text \<open>
  \<open>acquire\<close> and \<open>release\<close> as one CPU runs them when no other CPU interferes; spinning on
  a lock that stays taken never returns. \<open>pcs\<close> is what \<open>getcallerpcs\<close> records.
\<close>

definition acquire :: "u32 list \<Rightarrow> nat \<Rightarrow> lockid \<Rightarrow> machine \<Rightarrow> machine res" where
  "acquire pcs c l m =
     (let m = m\<lparr>cpus := (cpus m)(c := pushcli (cpus m c))\<rparr> in
      if holding c (locks m l) then Panic ''acquire''
      else if locked (locks m l) \<noteq> 0 then Stuck
      else Ok (m\<lparr>locks := (locks m)(l := (locks m l)\<lparr>locked := 1, lcpu := Some c, lpcs := pcs\<rparr>)\<rparr>))"

definition release :: "nat \<Rightarrow> lockid \<Rightarrow> machine \<Rightarrow> machine res" where
  "release c l m =
     (if \<not> holding c (locks m l) then Panic ''release'' else
      let m = m\<lparr>locks := (locks m)(l := (locks m l)\<lparr>lpcs := (lpcs (locks m l))[0 := 0],
                 lcpu := None, locked := 0\<rparr>)\<rparr> in
      bnd (popcli (cpus m c)) (\<lambda>c'. Ok (m\<lparr>cpus := (cpus m)(c := c')\<rparr>)))"

lemma length_pcs_loop: "length (pcs_loop k rd ebp) = k"
  by (induction k arbitrary: ebp) auto

lemma pushcli_popcli:
  "0 \<le> ncli c \<Longrightarrow> (0 < ncli c \<Longrightarrow> \<not> eflags_if c) \<Longrightarrow>
   popcli (pushcli c) = Ok (c\<lparr>intena := (if ncli c = 0 then eflags_if c else intena c)\<rparr>)"
  by (cases c) (auto simp: pushcli_def popcli_def Let_def)

section \<open>Several CPUs\<close>

text \<open>
  The machine steps of \<open>acquire\<close> and \<open>release\<close>, interleaved between CPUs. \<open>Spinning l\<close>:
  inside the \<open>while(xchg(...))\<close> loop. \<open>Taken l\<close>: the \<open>xchg\<close> returned 0, \<open>lk->cpu\<close> is not
  written yet. \<open>Dropping l\<close>: \<open>lk->cpu\<close> is cleared, the final \<open>xchg\<close> is still to come.
  \<open>crit c\<close> is the set of locks inside whose critical section CPU \<open>c\<close> is.
\<close>

datatype pc = Running | Spinning lockid | Taken lockid | Dropping lockid

record smp = machine +
  pc_of :: "nat \<Rightarrow> pc"
  crit :: "nat \<Rightarrow> lockid set"

definition set_lock :: "lockid \<Rightarrow> (spinlock \<Rightarrow> spinlock) \<Rightarrow> smp \<Rightarrow> smp" where
  "set_lock l f m = m\<lparr>locks := (locks m)(l := f (locks m l))\<rparr>"

inductive smp_step :: "smp \<Rightarrow> smp \<Rightarrow> bool" where
  acq_enter: "pc_of m c = Running \<Longrightarrow> \<not> holding c (locks m l) \<Longrightarrow>
     smp_step m (m\<lparr>cpus := (cpus m)(c := pushcli (cpus m c)), pc_of := (pc_of m)(c := Spinning l)\<rparr>)"
| acq_spin: "pc_of m c = Spinning l \<Longrightarrow> locked (locks m l) \<noteq> 0 \<Longrightarrow> smp_step m m"
| acq_xchg: "pc_of m c = Spinning l \<Longrightarrow> locked (locks m l) = 0 \<Longrightarrow>
     smp_step m ((set_lock l (\<lambda>lk. lk\<lparr>locked := 1\<rparr>) m)\<lparr>pc_of := (pc_of m)(c := Taken l)\<rparr>)"
| acq_record: "pc_of m c = Taken l \<Longrightarrow>
     smp_step m ((set_lock l (\<lambda>lk. lk\<lparr>lcpu := Some c, lpcs := pcs\<rparr>) m)
       \<lparr>pc_of := (pc_of m)(c := Running), crit := (crit m)(c := insert l (crit m c))\<rparr>)"
| rel_enter: "pc_of m c = Running \<Longrightarrow> holding c (locks m l) \<Longrightarrow>
     smp_step m ((set_lock l (\<lambda>lk. lk\<lparr>lpcs := (lpcs lk)[0 := 0], lcpu := None\<rparr>) m)
       \<lparr>pc_of := (pc_of m)(c := Dropping l), crit := (crit m)(c := crit m c - {l})\<rparr>)"
| rel_xchg: "pc_of m c = Dropping l \<Longrightarrow> popcli (cpus m c) = Ok c' \<Longrightarrow>
     smp_step m ((set_lock l (\<lambda>lk. lk\<lparr>locked := 0\<rparr>) m)
       \<lparr>cpus := (cpus m)(c := c'), pc_of := (pc_of m)(c := Running)\<rparr>)"

definition init_smp :: smp where
  "init_smp = \<lparr>locks = (\<lambda>_. \<lparr>locked = 0, lname = '''', lcpu = None, lpcs = replicate 10 0\<rparr>),
     cpus = (\<lambda>_. \<lparr>ncli = 0, intena = False, eflags_if = True\<rparr>),
     pc_of = (\<lambda>_. Running), crit = (\<lambda>_. {})\<rparr>"

inductive smp_reachable :: "smp \<Rightarrow> bool" where
  smp_start: "smp_reachable init_smp"
| smp_more: "smp_reachable m \<Longrightarrow> smp_step m m' \<Longrightarrow> smp_reachable m'"

text \<open>The CPU that owns a lock: the one between its two successful \<open>xchg\<close>.\<close>

definition owns :: "smp \<Rightarrow> nat \<Rightarrow> lockid \<Rightarrow> bool" where
  "owns m c l \<longleftrightarrow> l \<in> crit m c \<or> pc_of m c = Taken l \<or> pc_of m c = Dropping l"

definition smp_inv :: "smp \<Rightarrow> bool" where
  "smp_inv m \<longleftrightarrow>
     (\<forall>c d l. owns m c l \<longrightarrow> owns m d l \<longrightarrow> c = d) \<and>
     (\<forall>c l. owns m c l \<longrightarrow> locked (locks m l) \<noteq> 0) \<and>
     (\<forall>c l. lcpu (locks m l) = Some c \<longleftrightarrow> l \<in> crit m c) \<and>
     (\<forall>c l. pc_of m c = Taken l \<or> pc_of m c = Dropping l \<longrightarrow> l \<notin> crit m c)"

lemma smp_inv_init: "smp_inv init_smp"
  by (simp add: smp_inv_def init_smp_def owns_def)

lemma smp_invD:
  assumes "smp_inv m"
  shows "owns m c l \<Longrightarrow> owns m d l \<Longrightarrow> c = d"
    and "owns m c l \<Longrightarrow> locked (locks m l) \<noteq> 0"
    and "lcpu (locks m l) = Some c \<longleftrightarrow> l \<in> crit m c"
    and "pc_of m c = Taken l \<Longrightarrow> l \<notin> crit m c"
    and "pc_of m c = Dropping l \<Longrightarrow> l \<notin> crit m c"
  using assms unfolding smp_inv_def by blast+

lemma smp_inv_holding: "smp_inv m \<Longrightarrow> holding c (locks m l) \<longleftrightarrow> l \<in> crit m c"
  unfolding smp_inv_def holding_def owns_def by blast

lemma smp_step_inv: "smp_step m m' \<Longrightarrow> smp_inv m \<Longrightarrow> smp_inv m'"
proof (induction rule: smp_step.induct)
  case (acq_enter m c l)
  then show ?case unfolding smp_inv_def owns_def
    by (simp add: fun_upd_def)
next
  case (acq_spin m c l)
  then show ?case by simp
next
  case (acq_xchg m c l)
  then show ?case unfolding smp_inv_def owns_def set_lock_def holding_def
    by (simp add: fun_upd_def) metis
next
  case (acq_record m c l pcs)
  then show ?case unfolding smp_inv_def owns_def set_lock_def holding_def
    by (simp add: fun_upd_def) (metis option.inject pc.inject pc.distinct insert_iff)
next
  case (rel_enter m c l)
  let ?m = "(set_lock l (\<lambda>lk. lk\<lparr>lpcs := (lpcs lk)[0 := 0], lcpu := None\<rparr>) m)
    \<lparr>pc_of := (pc_of m)(c := Dropping l), crit := (crit m)(c := crit m c - {l})\<rparr>"
  have mine: "l \<in> crit m c" using rel_enter by (simp add: smp_inv_holding)
  have own: "owns ?m d k = owns m d k" for d k
    using mine rel_enter.hyps by (auto simp: owns_def set_lock_def)
  have lk: "locked (locks ?m k) = locked (locks m k)" for k by (simp add: set_lock_def)
  have other: "l \<in> crit m d \<Longrightarrow> d = c" for d
    using smp_invD(1) [OF rel_enter.prems, of d l c] mine by (simp add: owns_def)
  have cpu: "(lcpu (locks ?m k) = Some d) = (k \<in> crit ?m d)" for d k
    using smp_invD(3) [OF rel_enter.prems, of k d] other by (auto simp: set_lock_def)
  show ?case unfolding smp_inv_def own lk cpu
    using rel_enter.prems rel_enter.hyps(1) by (auto simp: smp_inv_def)
next
  case (rel_xchg m c l c')
  then show ?case unfolding smp_inv_def owns_def set_lock_def holding_def
    by (simp add: fun_upd_def) (metis option.inject pc.inject pc.distinct)
qed

lemma smp_reachable_inv: "smp_reachable m \<Longrightarrow> smp_inv m"
  by (induction rule: smp_reachable.induct) (blast intro: smp_inv_init smp_step_inv)+

section \<open>One CPU's view: the locks it holds\<close>

text \<open>
  The other components only care which locks the CPU that runs them holds. \<open>lock\<close> and
  \<open>unlock\<close> are \<open>acquire\<close> and \<open>release\<close> on that view: the list of held locks, last
  acquired first. The nesting depth \<open>cpu->ncli\<close> is its length, interrupts are off
  exactly when it is not empty. The kernel's global state is a chain of record
  extensions that starts here.
\<close>

record lock_st =
  held :: "lockid list"

definition lock :: "lockid \<Rightarrow> 'a lock_st_scheme \<Rightarrow> 'a lock_st_scheme res" where
  "lock l s = (if l \<in> set (held s) then Panic ''acquire'' else Ok (s\<lparr>held := l # held s\<rparr>))"

definition unlock :: "lockid \<Rightarrow> 'a lock_st_scheme \<Rightarrow> 'a lock_st_scheme res" where
  "unlock l s = (if l \<notin> set (held s) then Panic ''release'' else Ok (s\<lparr>held := remove1 l (held s)\<rparr>))"

lemma lock_simps [simp]:
  "l \<notin> set (held s) \<Longrightarrow> lock l s = Ok (s\<lparr>held := l # held s\<rparr>)"
  "l \<in> set (held s) \<Longrightarrow> lock l s = Panic ''acquire''"
  "l \<in> set (held s) \<Longrightarrow> unlock l s = Ok (s\<lparr>held := remove1 l (held s)\<rparr>)"
  "l \<notin> set (held s) \<Longrightarrow> unlock l s = Panic ''release''"
  by (simp_all add: lock_def unlock_def)

lemma lock_eq_Ok [res_simps]:
  "lock l s = Ok s' \<longleftrightarrow> l \<notin> set (held s) \<and> s' = s\<lparr>held := l # held s\<rparr>"
  "unlock l s = Ok s' \<longleftrightarrow> l \<in> set (held s) \<and> s' = s\<lparr>held := remove1 l (held s)\<rparr>"
  by (auto simp: lock_def unlock_def)

text \<open>
  \<open>lock_view c ie hs m\<close>: on machine \<open>m\<close>, CPU \<open>c\<close> holds exactly the locks \<open>hs\<close>; \<open>ie\<close> is
  the interrupt flag it had before it took the first of them: the flag is \<open>ie\<close> while it
  holds none, off while it holds some, and \<open>cpu->intena\<close> remembers \<open>ie\<close>. Other CPUs may
  hold other locks.
\<close>

definition lock_view :: "nat \<Rightarrow> bool \<Rightarrow> lockid list \<Rightarrow> machine \<Rightarrow> bool" where
  "lock_view c ie hs m \<longleftrightarrow> distinct hs \<and> ncli (cpus m c) = int (length hs) \<and>
     (if hs = [] then eflags_if (cpus m c) = ie else \<not> eflags_if (cpus m c) \<and> intena (cpus m c) = ie) \<and>
     (\<forall>l. holding c (locks m l) \<longleftrightarrow> l \<in> set hs)"

text \<open>Only lock \<open>l\<close> and CPU \<open>c\<close> differ between two machines.\<close>

definition only_changes :: "nat \<Rightarrow> lockid \<Rightarrow> machine \<Rightarrow> machine \<Rightarrow> bool" where
  "only_changes c l m m' \<longleftrightarrow> (\<forall>k. k \<noteq> l \<longrightarrow> locks m' k = locks m k) \<and> (\<forall>d. d \<noteq> c \<longrightarrow> cpus m' d = cpus m d)"

lemma lock_view_holding: "lock_view c ie hs m \<Longrightarrow> holding c (locks m l) \<longleftrightarrow> l \<in> set hs"
  by (simp add: lock_view_def)

lemma acquire_view:
  assumes "lock_view c ie hs m" "l \<notin> set hs" "locked (locks m l) = 0"
  shows "returns (acquire pcs c l m) (\<lambda>m'. lock_view c ie (l # hs) m' \<and> only_changes c l m m')"
  using assms lock_view_holding [OF assms(1), of l]
  by (auto simp: acquire_def lock_view_def pushcli_def Let_def holding_def only_changes_def split: if_splits)

lemma acquire_spins:
  "lock_view c ie hs m \<Longrightarrow> l \<notin> set hs \<Longrightarrow> locked (locks m l) \<noteq> 0 \<Longrightarrow> acquire pcs c l m = Stuck"
  using lock_view_holding [of c ie hs m l] by (simp add: acquire_def Let_def)

lemma release_view:
  assumes "lock_view c ie hs m" "l \<in> set hs"
  shows "returns (release c l m) (\<lambda>m'. lock_view c ie (remove1 l hs) m' \<and> locked (locks m' l) = 0 \<and> only_changes c l m m')"
proof -
  have h: "holding c (locks m l)" "\<not> eflags_if (cpus m c)" "intena (cpus m c) = ie" "ncli (cpus m c) = int (length hs)"
    using assms by (auto simp: lock_view_def split: if_splits)
  have r: "length (remove1 l hs) = length hs - 1" "length hs \<ge> 1" "l \<notin> set (remove1 l hs)" "distinct (remove1 l hs)"
    using assms by (auto simp: length_remove1 lock_view_def Suc_le_eq intro: length_pos_if_in_set)
  have z: "remove1 l hs = [] \<longleftrightarrow> length hs = 1" using r(1,2) by (simp flip: length_0_conv)
  let ?c = "(cpus m c)\<lparr>ncli := int (length hs) - 1, eflags_if := length hs = 1 \<and> ie\<rparr>"
  let ?l = "(locks m l)\<lparr>lpcs := (lpcs (locks m l))[0 := 0], lcpu := None, locked := 0\<rparr>"
  have "popcli (cpus m c) = Ok ?c" using h r(2) by (cases hs) (auto simp: popcli_def Let_def)
  then have run: "release c l m = Ok (m\<lparr>locks := (locks m)(l := ?l), cpus := (cpus m)(c := ?c)\<rparr>)"
    using h(1) by (simp add: release_def Let_def)
  have "holding c (((locks m)(l := ?l)) k) \<longleftrightarrow> k \<in> set (remove1 l hs)" for k
    using assms lock_view_holding [OF assms(1), of k] by (auto simp: holding_def lock_view_def)
  then show ?thesis using h(3) r z unfolding run by (simp add: lock_view_def only_changes_def of_nat_diff)
qed

section \<open>Properties\<close>

text \<open>C16: at every moment of every interleaving of acquire and release on any number of CPUs, at
  most one CPU is inside the critical section of a lock, and it is the one \<open>holding\<close> reports.\<close>

theorem spinlock_mutual_exclusion:
  assumes "smp_reachable m" "l \<in> crit m c"
  shows "(holding d (locks m l) \<longleftrightarrow> d = c) \<and> (l \<in> crit m d \<longleftrightarrow> d = c)"
proof -
  have inv: "smp_inv m" using assms(1) by (rule smp_reachable_inv)
  have "l \<in> crit m d \<Longrightarrow> d = c"
    using smp_invD(1) [OF inv, of d l c] assms(2) by (simp add: owns_def)
  then show ?thesis
    using assms(2) by (auto simp: smp_inv_holding [OF inv])
qed

text \<open>A machine on which CPU 0 has taken the lock of the page allocator.\<close>

definition smp_demo :: smp where
  "smp_demo = \<lparr>locks = (locks init_smp)(L_kmem := \<lparr>locked = 1, lname = '''', lcpu = Some 0, lpcs = replicate 10 0\<rparr>),
     cpus = (cpus init_smp)(0 := pushcli (cpus init_smp 0)),
     pc_of = (\<lambda>_. Running), crit = (\<lambda>c. if c = 0 then {L_kmem} else {})\<rparr>"

lemma smp_demo_reachable: "smp_reachable smp_demo"
proof -
  let ?m1 = "init_smp\<lparr>cpus := (cpus init_smp)(0 := pushcli (cpus init_smp 0)), pc_of := (pc_of init_smp)(0 := Spinning L_kmem)\<rparr>"
  let ?m2 = "(set_lock L_kmem (\<lambda>lk. lk\<lparr>locked := 1\<rparr>) ?m1)\<lparr>pc_of := (pc_of ?m1)(0 := Taken L_kmem)\<rparr>"
  let ?m3 = "(set_lock L_kmem (\<lambda>lk. lk\<lparr>lcpu := Some 0, lpcs := replicate 10 0\<rparr>) ?m2)
       \<lparr>pc_of := (pc_of ?m2)(0 := Running), crit := (crit ?m2)(0 := insert L_kmem (crit ?m2 0))\<rparr>"
  have "smp_reachable ?m1"
    by (rule smp_more [OF smp_start], rule acq_enter) (simp_all add: init_smp_def holding_def)
  then have "smp_reachable ?m2"
    by (rule smp_more, intro acq_xchg) (simp_all add: init_smp_def)
  then have "smp_reachable ?m3"
    by (rule smp_more, intro acq_record) (simp add: set_lock_def)
  moreover have "?m3 = smp_demo"
    by (simp add: smp_demo_def set_lock_def init_smp_def fun_eq_iff)
  ultimately show ?thesis by simp
qed

theorem spinlock_mutual_exclusion_witness:
  "holding 0 (locks smp_demo L_kmem) \<and> \<not> holding 1 (locks smp_demo L_kmem)"
  using spinlock_mutual_exclusion [OF smp_demo_reachable, of L_kmem 0 0]
    spinlock_mutual_exclusion [OF smp_demo_reachable, of L_kmem 0 1]
  by (simp add: smp_demo_def)

text \<open>C17: the list of held locks that the other components work on is a faithful view of the machine. Taking a lock that
  the CPU holds already, or dropping one that it does not hold, panics with the same message as \<open>acquire\<close> and \<open>release\<close>.
  Taking a lock that is free succeeds as \<open>acquire\<close> does, while \<open>acquire\<close> of a lock that another CPU holds spins; dropping a lock
  frees its word. After either, the CPU holds exactly the locks of the new list, \<open>cpu->ncli\<close> is their number, its
  interrupts are off while it holds one and, once it holds none, as they were before it took the first; no other lock and
  no other CPU changes.\<close>

theorem lock_list_refines_spinlocks:
  assumes "lock_view c ie (held s) m"
  shows "(case lock l s of
           Ok s' \<Rightarrow> if locked (locks m l) = 0
             then returns (acquire pcs c l m) (\<lambda>m'. lock_view c ie (held s') m' \<and> only_changes c l m m')
             else acquire pcs c l m = Stuck
         | Panic e \<Rightarrow> acquire pcs c l m = Panic e | Stuck \<Rightarrow> False) \<and>
     (case unlock l s of
           Ok s' \<Rightarrow> returns (release c l m) (\<lambda>m'. lock_view c ie (held s') m' \<and> locked (locks m' l) = 0 \<and> only_changes c l m m')
         | Panic e \<Rightarrow> release c l m = Panic e | Stuck \<Rightarrow> False)"
proof (cases "l \<in> set (held s)")
  case True
  then have "acquire pcs c l m = Panic ''acquire''"
    using lock_view_holding [OF assms, of l] by (simp add: acquire_def Let_def)
  with True show ?thesis using release_view [OF assms True] by simp
next
  case False
  then have "release c l m = Panic ''release''"
    using lock_view_holding [OF assms, of l] by (simp add: release_def)
  with False show ?thesis using acquire_view [OF assms False, of pcs] acquire_spins [OF assms False, of pcs] by simp
qed

theorem lock_list_refines_spinlocks_witness:
  "returns (release 0 L_kmem (machine.truncate smp_demo)) (\<lambda>m. lock_view 0 True [] m \<and> eflags_if (cpus m 0)) \<and>
   acquire [] 1 L_kmem (machine.truncate smp_demo) = Stuck"
proof -
  have "lock_view 0 True (held \<lparr>held = [L_kmem]\<rparr>) (machine.truncate smp_demo)"
    "lock_view 1 True (held \<lparr>held = []\<rparr>) (machine.truncate smp_demo)"
    by (simp_all add: lock_view_def smp_demo_def init_smp_def pushcli_def Let_def machine.defs holding_def)
  from lock_list_refines_spinlocks [OF this(1), where l = L_kmem and pcs = "[]"]
    lock_list_refines_spinlocks [OF this(2), where l = L_kmem and pcs = "[]"]
  show ?thesis by (auto simp: lock_view_def returns_iff machine.defs smp_demo_def)
qed

end
