(* ===== verification/C_String.thy ===== *)
theory C_String
  imports Xv6_Prelude
begin

text \<open>
  \<open>string.c\<close>: the memory and string functions of the kernel. Memory is a map from
  32-bit addresses to bytes, so pointer arithmetic wraps as it does in C. The functions
  that only read through a pointer take the array seen from that pointer, a function
  from offsets to bytes.
\<close>

section \<open>Byte memory\<close>

type_synonym memory = "u32 \<Rightarrow> byte"

definition load32 :: "memory \<Rightarrow> u32 \<Rightarrow> u32" where
  "load32 m p = mk32 (m p) (m (p + 1)) (m (p + 2)) (m (p + 3))"

definition store32 :: "memory \<Rightarrow> u32 \<Rightarrow> u32 \<Rightarrow> memory" where
  "store32 m p w = m(p := byte_of w 0, p + 1 := byte_of w 1, p + 2 := byte_of w 2, p + 3 := byte_of w 3)"

text \<open>The array at a pointer, and a NUL-terminated or zero-padded array given as a list.\<close>

definition arr :: "memory \<Rightarrow> u32 \<Rightarrow> nat \<Rightarrow> byte" where
  "arr m p i = m (p + of_nat i)"

definition cs :: "byte list \<Rightarrow> nat \<Rightarrow> byte" where
  "cs xs i = (if i < length xs then xs ! i else 0)"

text \<open>The block of \<open>n\<close> bytes at \<open>p\<close>, wrapping at the top of the address space.\<close>

definition in_range :: "u32 \<Rightarrow> u32 \<Rightarrow> nat \<Rightarrow> bool" where
  "in_range a p n \<longleftrightarrow> unat (a - p) < n"

section \<open>Filling and moving memory\<close>

text \<open>The x86 string instructions \<open>rep stosb\<close> and \<open>rep stosl\<close>.\<close>

fun stosb :: "memory \<Rightarrow> u32 \<Rightarrow> byte \<Rightarrow> nat \<Rightarrow> memory" where
  "stosb m p c 0 = m"
| "stosb m p c (Suc n) = stosb (m(p := c)) (p + 1) c n"

fun stosl :: "memory \<Rightarrow> u32 \<Rightarrow> u32 \<Rightarrow> nat \<Rightarrow> memory" where
  "stosl m p w 0 = m"
| "stosl m p w (Suc n) = stosl (store32 m p w) (p + 4) w n"

definition memset :: "memory \<Rightarrow> u32 \<Rightarrow> u32 \<Rightarrow> u32 \<Rightarrow> memory" where
  "memset m dst c n =
     (if dst mod 4 = 0 \<and> n mod 4 = 0 then
        let c = c AND 0xFF in
        stosl m dst (push_bit 24 c OR push_bit 16 c OR push_bit 8 c OR c) (unat n div 4)
      else stosb m dst (ucast c) (unat n))"

text \<open>\<open>*--d = *--s\<close> and \<open>*d++ = *s++\<close>, \<open>n\<close> times.\<close>

fun move_down :: "memory \<Rightarrow> u32 \<Rightarrow> u32 \<Rightarrow> nat \<Rightarrow> memory" where
  "move_down m d s 0 = m"
| "move_down m d s (Suc n) = move_down (m(d - 1 := m (s - 1))) (d - 1) (s - 1) n"

fun move_up :: "memory \<Rightarrow> u32 \<Rightarrow> u32 \<Rightarrow> nat \<Rightarrow> memory" where
  "move_up m d s 0 = m"
| "move_up m d s (Suc n) = move_up (m(d := m s)) (d + 1) (s + 1) n"

definition memmove :: "memory \<Rightarrow> u32 \<Rightarrow> u32 \<Rightarrow> u32 \<Rightarrow> memory" where
  "memmove m dst src n =
     (if src < dst \<and> src + n > dst then move_down m (dst + n) (src + n) (unat n)
      else move_up m dst src (unat n))"

text \<open>\<open>memcpy\<close> is \<open>memmove\<close>.\<close>

definition memcpy :: "memory \<Rightarrow> u32 \<Rightarrow> u32 \<Rightarrow> u32 \<Rightarrow> memory" where
  "memcpy m dst src n = memmove m dst src n"

section \<open>Comparing and copying strings\<close>

fun memcmp_from :: "(nat \<Rightarrow> byte) \<Rightarrow> (nat \<Rightarrow> byte) \<Rightarrow> nat \<Rightarrow> nat \<Rightarrow> int" where
  "memcmp_from s1 s2 i 0 = 0"
| "memcmp_from s1 s2 i (Suc n) =
     (if s1 i \<noteq> s2 i then uint (s1 i) - uint (s2 i) else memcmp_from s1 s2 (Suc i) n)"

definition memcmp :: "(nat \<Rightarrow> byte) \<Rightarrow> (nat \<Rightarrow> byte) \<Rightarrow> nat \<Rightarrow> int" where
  "memcmp s1 s2 n = memcmp_from s1 s2 0 n"

fun strncmp_from :: "(nat \<Rightarrow> byte) \<Rightarrow> (nat \<Rightarrow> byte) \<Rightarrow> nat \<Rightarrow> nat \<Rightarrow> int" where
  "strncmp_from p q i 0 = 0"
| "strncmp_from p q i (Suc n) =
     (if p i \<noteq> 0 \<and> p i = q i then strncmp_from p q (Suc i) n else uint (p i) - uint (q i))"

definition strncmp :: "(nat \<Rightarrow> byte) \<Rightarrow> (nat \<Rightarrow> byte) \<Rightarrow> nat \<Rightarrow> int" where
  "strncmp p q n = strncmp_from p q 0 n"

text \<open>The \<open>n\<close> bytes \<open>strncpy(s, t, n)\<close> writes to \<open>s\<close>.\<close>

fun strncpy_from :: "(nat \<Rightarrow> byte) \<Rightarrow> nat \<Rightarrow> nat \<Rightarrow> byte list" where
  "strncpy_from t i 0 = []"
| "strncpy_from t i (Suc n) =
     t i # (if t i \<noteq> 0 then strncpy_from t (Suc i) n else replicate n 0)"

definition strncpy :: "(nat \<Rightarrow> byte) \<Rightarrow> nat \<Rightarrow> byte list" where
  "strncpy t n = strncpy_from t 0 n"

text \<open>
  \<open>safestrcpy(s, t, n)\<close> writes to the array \<open>s\<close> a prefix of \<open>t\<close> and a NUL, and leaves the
  rest of \<open>s\<close> as it was; \<open>n\<close> is a C \<open>int\<close>.
\<close>

fun safestrcpy_from :: "byte list \<Rightarrow> (nat \<Rightarrow> byte) \<Rightarrow> nat \<Rightarrow> nat \<Rightarrow> byte list" where
  "safestrcpy_from s t i 0 = s[i := 0]"
| "safestrcpy_from s t i (Suc n) =
     (if t i \<noteq> 0 then safestrcpy_from (s[i := t i]) t (Suc i) n else (s[i := t i])[Suc i := 0])"

definition safestrcpy :: "byte list \<Rightarrow> (nat \<Rightarrow> byte) \<Rightarrow> int \<Rightarrow> byte list" where
  "safestrcpy s t n = (if n \<le> 0 then s else safestrcpy_from s t 0 (nat n - 1))"

text \<open>\<open>strlen\<close> runs until it meets a NUL byte.\<close>

partial_function (option) strlen_from :: "(nat \<Rightarrow> byte) \<Rightarrow> nat \<Rightarrow> nat option" where
  "strlen_from s n = (if s n \<noteq> 0 then strlen_from s (Suc n) else Some n)"

definition strlen :: "(nat \<Rightarrow> byte) \<Rightarrow> nat option" where
  "strlen s = strlen_from s 0"

section \<open>Ranges of addresses\<close>

lemma in_range_0 [simp]: "\<not> in_range a p 0"
  by (simp add: in_range_def)

lemma in_range_self [simp]: "in_range p p n \<longleftrightarrow> 0 < n"
  by (simp add: in_range_def)

lemma in_range_Suc:
  assumes "n < 2 ^ 32"
  shows "in_range a p (Suc n) \<longleftrightarrow> a = p \<or> in_range a (p + 1) n"
proof (cases "a = p")
  case False
  have "unat (a - (p + 1)) = unat ((a - p) - 1)" by (simp add: algebra_simps)
  also have "\<dots> = unat (a - p) - 1" using False by (simp add: unat_minus_one)
  finally show ?thesis using False unat_gt_0 [of "a - p"] by (auto simp: in_range_def)
qed simp

lemma in_range_Suc_end:
  assumes "n < 2 ^ 32"
  shows "in_range a p (Suc n) \<longleftrightarrow> in_range a p n \<or> a = p + of_nat n"
proof -
  have "unat (a - p) = n \<longleftrightarrow> a - p = of_nat n"
    using assms by (rule unat_eq_of_nat32)
  then show ?thesis by (auto simp: in_range_def algebra_simps less_Suc_eq)
qed

lemma in_range_add:
  assumes "k + n \<le> 2 ^ 32"
  shows "in_range a p (k + n) \<longleftrightarrow> in_range a p k \<or> in_range a (p + of_nat k) n"
  using assms
proof (induction k arbitrary: p)
  case (Suc k)
  then have "in_range a p (Suc k + n) \<longleftrightarrow> a = p \<or> in_range a (p + 1) (k + n)"
    by (subst add_Suc, intro in_range_Suc) simp
  also have "in_range a (p + 1) (k + n) \<longleftrightarrow> in_range a (p + 1) k \<or> in_range a (p + of_nat (Suc k)) n"
    using Suc by (simp add: algebra_simps)
  finally show ?case using Suc.prems by (auto simp: in_range_Suc)
qed simp

lemma in_range_4: "in_range a p 4 \<longleftrightarrow> a = p \<or> a = p + 1 \<or> a = p + 2 \<or> a = p + 3"
proof -
  have "in_range a p 4 \<longleftrightarrow> in_range a p (Suc (Suc (Suc (Suc 0))))"
    by (simp add: numeral_eq_Suc)
  then show ?thesis
    by (simp add: in_range_Suc add.assoc)
qed

section \<open>Memory access lemmas\<close>

lemma load32_store32 [simp]: "load32 (store32 m p w) p = w"
  by (simp add: load32_def store32_def)

lemma store32_outside [simp]: "\<not> in_range a p 4 \<Longrightarrow> store32 m p w a = m a"
  by (simp add: store32_def in_range_4)

lemma load32_cong: "(\<And>a. in_range a p 4 \<Longrightarrow> m a = m' a) \<Longrightarrow> load32 m p = load32 m' p"
  by (simp add: load32_def in_range_4)

lemma stosb_eq:
  "n \<le> 2 ^ 32 \<Longrightarrow> stosb m p c n a = (if in_range a p n then c else m a)"
proof (induction n arbitrary: m p)
  case (Suc n)
  then show ?case by (auto simp: in_range_Suc)
qed simp

lemma store32_pattern:
  "(\<And>k. k < 4 \<Longrightarrow> byte_of w k = c) \<Longrightarrow> store32 m p w a = (if in_range a p 4 then c else m a)"
  by (auto simp: store32_def in_range_4)

lemma stosl_eq:
  assumes "\<And>k. k < 4 \<Longrightarrow> byte_of w k = c" "4 * n \<le> 2 ^ 32"
  shows "stosl m p w n a = (if in_range a p (4 * n) then c else m a)"
  using assms(2)
proof (induction n arbitrary: m p)
  case (Suc n)
  have "in_range a p (4 * Suc n) \<longleftrightarrow> in_range a p 4 \<or> in_range a (p + 4) (4 * n)"
    using in_range_add [of 4 "4 * n" a p] Suc.prems by simp
  with Suc show ?case by (auto simp: store32_pattern [OF assms(1)])
qed simp

lemma byte_of_pattern:
  fixes c :: u32
  defines "w \<equiv> push_bit 24 (c AND 0xFF) OR push_bit 16 (c AND 0xFF) OR push_bit 8 (c AND 0xFF) OR (c AND 0xFF)"
  assumes "k < 4"
  shows "byte_of w k = ucast c"
proof -
  have m: "(0xFF :: u32) = mask 8" by (simp add: mask_eq_exp_minus_1)
  consider "k = 0" | "k = 1" | "k = 2" | "k = 3" using assms(2) by linarith
  then show ?thesis
    by cases (rule bit_eqI; auto simp: w_def byte_of_def m bit_simps)+
qed

lemma memset_eq: "memset m dst c n a = (if in_range a dst (unat n) then ucast c else m a)"
proof (cases "dst mod 4 = 0 \<and> n mod 4 = 0")
  case True
  then have "unat n mod 4 = 0"
    by (metis unat_mod unat_0 unat_4)
  then have n: "4 * (unat n div 4) = unat n" by auto
  let ?w = "push_bit 24 (c AND 0xFF) OR push_bit 16 (c AND 0xFF) OR push_bit 8 (c AND 0xFF) OR (c AND 0xFF)"
  have "stosl m dst ?w (unat n div 4) a = (if in_range a dst (4 * (unat n div 4)) then ucast c else m a)"
    by (rule stosl_eq) (use byte_of_pattern unat_word_less32 [of n] n in \<open>auto simp: less_imp_le\<close>)
  with True show ?thesis by (simp add: memset_def n Let_def)
next
  case False
  then have "memset m dst c n = stosb m dst (ucast c) (unat n)"
    by (simp only: memset_def if_False)
  then show ?thesis using unat_word_less32 [of n] by (simp add: stosb_eq less_imp_le)
qed

text \<open>Copying upwards and downwards, when no byte is overwritten before it is read.\<close>

lemma move_up_eq:
  assumes "n \<le> 2 ^ 32" "\<And>j. 0 < j \<Longrightarrow> j < n \<Longrightarrow> d \<noteq> s + of_nat j"
  shows "move_up m d s n a = (if in_range a d n then m (s + (a - d)) else m a)"
  using assms
proof (induction n arbitrary: m d s)
  case (Suc n)
  have "d + 1 \<noteq> s + 1 + of_nat j" if "0 < j" "j < n" for j
    using Suc.prems(2) [of j] that by simp
  then have IH: "move_up (m(d := m s)) (d + 1) (s + 1) n a
    = (if in_range a (d + 1) n then (m(d := m s)) (s + 1 + (a - (d + 1))) else (m(d := m s)) a)"
    using Suc.IH Suc.prems(1) by simp
  have ne: "s + (a - d) \<noteq> d" if "in_range a (d + 1) n"
  proof -
    have "in_range a d (Suc n)" "a \<noteq> d"
      using that Suc.prems(1) in_range_Suc [of n a d] by (auto simp: in_range_def unsigned_minus_1_eq_mask mask_eq_exp_minus_1)
    then have "0 < unat (a - d)" "unat (a - d) < Suc n" by (auto simp: in_range_def unat_gt_0)
    then show ?thesis using Suc.prems(2) [of "unat (a - d)"] by auto
  qed
  show ?case
    using IH ne Suc.prems(1) by (auto simp: in_range_Suc algebra_simps)
qed simp

lemma move_down_eq:
  assumes "n \<le> 2 ^ 32" "\<And>j. 0 < j \<Longrightarrow> j < n \<Longrightarrow> s \<noteq> d + of_nat j"
  shows "move_down m (d + of_nat n) (s + of_nat n) n a = (if in_range a d n then m (s + (a - d)) else m a)"
  using assms
proof (induction n arbitrary: m)
  case (Suc n)
  have ne: "s + (a - d) \<noteq> d + of_nat n" if "in_range a d n"
  proof -
    define j where "j = unat (a - d)"
    have j: "j < n" "a - d = of_nat j" using that by (auto simp: in_range_def j_def)
    have "s \<noteq> d + of_nat (n - j)" using Suc.prems(2) [of "n - j"] j(1) by (cases "j = 0") auto
    then show ?thesis using j by (auto simp: of_nat_diff less_imp_le algebra_simps)
  qed
  have "move_down (m(d + of_nat n := m (s + of_nat n))) (d + of_nat n) (s + of_nat n) n a
    = (if in_range a d n then (m(d + of_nat n := m (s + of_nat n))) (s + (a - d))
       else (m(d + of_nat n := m (s + of_nat n))) a)"
    using Suc by simp
  then show ?case using ne Suc.prems(1) by (auto simp: in_range_Suc_end algebra_simps)
qed simp

section \<open>String lemmas\<close>

lemma memcmp_from_eq_0: "memcmp_from s1 s2 i n = 0 \<longleftrightarrow> (\<forall>k<n. s1 (i + k) = s2 (i + k))"
proof (induction n arbitrary: i)
  case (Suc n)
  then show ?case by (simp add: All_less_Suc2 flip: word_uint_eq_iff)
qed simp

lemma strncmp_from_eq_0:
  "strncmp_from p q i n = 0 \<longleftrightarrow> (\<forall>k<n. (\<forall>j<k. p (i + j) \<noteq> 0) \<longrightarrow> p (i + k) = q (i + k))"
proof (induction n arbitrary: i)
  case (Suc n)
  let ?R = "\<forall>k<n. (\<forall>j<k. p (Suc i + j) \<noteq> 0) \<longrightarrow> p (Suc i + k) = q (Suc i + k)"
  have "(\<forall>k<Suc n. (\<forall>j<k. p (i + j) \<noteq> 0) \<longrightarrow> p (i + k) = q (i + k)) \<longleftrightarrow> p i = q i \<and> (p i \<noteq> 0 \<longrightarrow> ?R)"
    by (simp add: All_less_Suc2) blast
  moreover have "strncmp_from p q i (Suc n) = 0 \<longleftrightarrow> p i = q i \<and> (p i \<noteq> 0 \<longrightarrow> ?R)"
    by (simp only: strncmp_from.simps Suc.IH split: if_split) (simp flip: word_uint_eq_iff, metis)
  ultimately show ?case by simp
qed simp

lemma length_strncpy [simp]: "length (strncpy t n) = n"
proof -
  have "length (strncpy_from t i n) = n" for i by (induction n arbitrary: i) auto
  then show ?thesis by (simp add: strncpy_def)
qed

lemma strncpy_from_nth:
  "k < n \<Longrightarrow> strncpy_from t i n ! k = (if \<forall>j<k. t (i + j) \<noteq> 0 then t (i + k) else 0)"
proof (induction n arbitrary: i k)
  case (Suc n)
  show ?case
  proof (cases k)
    case (Suc k')
    have "(\<forall>j<Suc k'. t (i + j) \<noteq> 0) \<longleftrightarrow> t i \<noteq> 0 \<and> (\<forall>j<k'. t (Suc i + j) \<noteq> 0)"
      by (auto simp: less_Suc_eq_0_disj)
    with Suc Suc.IH [of k' "Suc i"] Suc.prems show ?thesis by auto
  qed simp
qed simp

lemma strncpy_nth: "k < n \<Longrightarrow> strncpy t n ! k = (if \<forall>j<k. t j \<noteq> 0 then t k else 0)"
  using strncpy_from_nth [of k n t 0] by (simp only: strncpy_def add_0)

lemma length_safestrcpy [simp]: "length (safestrcpy s t n) = length s"
proof -
  have "length (safestrcpy_from s t i k) = length s" for i k
    by (induction k arbitrary: s i) auto
  then show ?thesis by (simp add: safestrcpy_def)
qed

lemma safestrcpy_from_ends:
  assumes "j + k < length s"
  shows "\<exists>L. j \<le> L \<and> L \<le> j + k \<and> (\<forall>i<j. safestrcpy_from s t j k ! i = s ! i) \<and>
      (\<forall>i. j \<le> i \<longrightarrow> i < L \<longrightarrow> safestrcpy_from s t j k ! i = t i \<and> t i \<noteq> 0) \<and>
      safestrcpy_from s t j k ! L = 0 \<and> (t L = 0 \<or> L = j + k) \<and>
      (\<forall>i. j + k < i \<longrightarrow> i < length s \<longrightarrow> safestrcpy_from s t j k ! i = s ! i)"
  using assms
proof (induction k arbitrary: s j)
  case 0
  then show ?case by (intro exI [of _ j]) auto
next
  case (Suc k)
  show ?case
  proof (cases "t j = 0")
    case True
    then show ?thesis using Suc.prems by (intro exI [of _ j]) auto
  next
    case False
    let ?s = "s[j := t j]"
    let ?r = "safestrcpy_from ?s t (Suc j) k"
    have r: "safestrcpy_from s t j (Suc k) = ?r" using False by simp
    obtain L where L: "Suc j \<le> L" "L \<le> Suc j + k" "\<forall>i<Suc j. ?r ! i = ?s ! i"
      "\<forall>i. Suc j \<le> i \<longrightarrow> i < L \<longrightarrow> ?r ! i = t i \<and> t i \<noteq> 0" "?r ! L = 0" "t L = 0 \<or> L = Suc j + k"
      "\<forall>i. Suc j + k < i \<longrightarrow> i < length ?s \<longrightarrow> ?r ! i = ?s ! i"
      using Suc.IH [of "Suc j" ?s] Suc.prems by auto
    have "?r ! j = t j" using L(3) Suc.prems by simp
    then have "\<forall>i. j \<le> i \<longrightarrow> i < L \<longrightarrow> ?r ! i = t i \<and> t i \<noteq> 0"
      using L(4) False by (metis Suc_leI le_neq_implies_less)
    then show ?thesis unfolding r using L by (intro exI [of _ L]) auto
  qed
qed

lemma strlen_from_eq:
  "(\<forall>j<k. s (i + j) \<noteq> 0) \<Longrightarrow> s (i + k) = 0 \<Longrightarrow> strlen_from s i = Some (i + k)"
proof (induction k arbitrary: i)
  case 0
  then show ?case by (simp add: strlen_from.simps)
next
  case (Suc k)
  have "s i \<noteq> 0" using Suc.prems(1) by auto
  moreover have "strlen_from s (Suc i) = Some (Suc i + k)"
    using Suc.prems by (intro Suc.IH) (auto dest: spec [where x = "Suc _"])
  ultimately show ?case by (subst strlen_from.simps) simp
qed

lemma strlen_cs: "0 \<notin> set xs \<Longrightarrow> strlen (cs xs) = Some (length xs)"
  using strlen_from_eq [of "length xs" "cs xs" 0] by (auto simp: strlen_def cs_def in_set_conv_nth)

section \<open>Properties\<close>

text \<open>Memmove copies the source block as it was before the call, whether or not the two
  blocks overlap, and changes nothing outside the destination; only blocks that wrap around the
  top of the address space are excluded.\<close>

lemma memmove_copies:
  assumes "unat src + unat n \<le> 2 ^ 32" "unat dst + unat n \<le> 2 ^ 32"
  shows "memmove m dst src n a = (if in_range a dst (unat n) then m (src + (a - dst)) else m a)"
proof -
  have n: "of_nat (unat n) = n" "unat n \<le> 2 ^ 32" using unat_word_less32 [of n] by simp_all
  have sum: "x \<noteq> y + of_nat j" if "unat y + unat n \<le> 2 ^ 32" "0 < j" "j < unat n" "x \<le> y \<or> unat y + unat n \<le> unat x" for x y :: u32 and j
  proof -
    have "unat (y + of_nat j) = unat y + j" using that by (simp add: unat_plus_if' unat_of_nat32 unat_of_nat)
    with that show ?thesis by (auto simp: word_le_nat_alt)
  qed
  show ?thesis
  proof (cases "src < dst \<and> src + n > dst")
    case True
    then have "memmove m dst src n = move_down m (dst + n) (src + n) (unat n)" by (simp add: memmove_def)
    moreover have "move_down m (dst + of_nat (unat n)) (src + of_nat (unat n)) (unat n) a
        = (if in_range a dst (unat n) then m (src + (a - dst)) else m a)"
      by (rule move_down_eq) (use True sum [OF assms(2), of _ src] n in \<open>auto simp: less_imp_le\<close>)
    ultimately show ?thesis unfolding n by simp
  next
    case False
    then have "memmove m dst src n = move_up m dst src (unat n)" by (simp only: memmove_def if_False)
    moreover have "dst \<le> src \<or> unat src + unat n \<le> unat dst"
    proof (cases "src < dst")
      case True
      then have "unat (src + n) = unat src + unat n" using assms(2) by (simp add: unat_plus_if' word_less_nat_alt)
      then show ?thesis using True False by (auto simp: word_less_nat_alt)
    qed auto
    then have "move_up m dst src (unat n) a = (if in_range a dst (unat n) then m (src + (a - dst)) else m a)"
      by (intro move_up_eq) (use sum [OF assms(1)] n in auto)
    ultimately show ?thesis by simp
  qed
qed

lemma memmove_copies_witness:
  "memmove (\<lambda>p. ucast p) 0x102 0x100 6 0x105 = 0x03"
  using memmove_copies [of "0x100" 6 "0x102" "\<lambda>p. ucast p" "0x105"] by (simp add: in_range_def)

text \<open>Safestrcpy with a positive bound always leaves a NUL-terminated string within the
  bound: the longest prefix of the source that fits, and nothing beyond the bound is touched.\<close>

lemma safestrcpy_terminated:
  assumes "0 < n" "nat n \<le> length s"
  shows "\<exists>L<nat n. (\<forall>i<L. safestrcpy s t n ! i = t i \<and> t i \<noteq> 0) \<and> safestrcpy s t n ! L = 0 \<and>
     (t L = 0 \<or> L = nat n - 1) \<and> (\<forall>i. nat n \<le> i \<longrightarrow> i < length s \<longrightarrow> safestrcpy s t n ! i = s ! i)"
proof -
  have "0 + (nat n - 1) < length s" using assms by linarith
  from safestrcpy_from_ends [OF this, of t]
  obtain L where "L \<le> 0 + (nat n - 1)" "\<forall>i. 0 \<le> i \<longrightarrow> i < L \<longrightarrow> safestrcpy_from s t 0 (nat n - 1) ! i = t i \<and> t i \<noteq> 0"
    "safestrcpy_from s t 0 (nat n - 1) ! L = 0" "t L = 0 \<or> L = 0 + (nat n - 1)"
    "\<forall>i. 0 + (nat n - 1) < i \<longrightarrow> i < length s \<longrightarrow> safestrcpy_from s t 0 (nat n - 1) ! i = s ! i"
    by blast
  then show ?thesis using assms by (intro exI [of _ L]) (auto simp: safestrcpy_def)
qed

lemma safestrcpy_terminated_witness:
  "\<exists>L<3. safestrcpy (replicate 16 1) (cs [65, 66, 67, 68]) 3 ! L = 0"
proof -
  have "(0 :: int) < 3" "nat 3 \<le> length (replicate 16 (1 :: byte))" by simp_all
  from safestrcpy_terminated [OF this, of "cs [65, 66, 67, 68]"]
  have "\<exists>L<nat 3. safestrcpy (replicate 16 1) (cs [65, 66, 67, 68]) 3 ! L = 0" by blast
  then show ?thesis by (simp only: nat_numeral)
qed

end
