(* ===== verification/Kalloc.thy ===== *)
theory Kalloc
  imports Spinlock C_String
begin

text \<open>
  \<open>kalloc.c\<close>: the physical page allocator. The free pages form a linked list threaded
  through their own first word, as in the code; the model keeps physical memory as the
  kernel addresses it (through the mapping at \<open>KERNBASE\<close>). The end of the kernel image,
  which the linker defines, is a field of the state that no operation changes.
\<close>

section \<open>State\<close>

definition PGSIZE :: u32 where "PGSIZE = 4096"
definition PHYSTOP :: u32 where "PHYSTOP = 0xE000000"
definition EXTMEM :: u32 where "EXTMEM = 0x100000"
definition DEVSPACE :: u32 where "DEVSPACE = 0xFE000000"

definition v2p :: "u32 \<Rightarrow> u32" where "v2p a = a - KERNBASE"
definition p2v :: "u32 \<Rightarrow> u32" where "p2v a = a + KERNBASE"

definition PGROUNDUP :: "u32 \<Rightarrow> u32" where
  "PGROUNDUP sz = (sz + PGSIZE - 1) AND NOT (PGSIZE - 1)"

definition PGROUNDDOWN :: "u32 \<Rightarrow> u32" where
  "PGROUNDDOWN a = a AND NOT (PGSIZE - 1)"

record mem_st = lock_st +
  mem :: memory
  freelist :: u32
  use_lock :: bool
  kernel_end :: u32

section \<open>Operations\<close>

definition kfree :: "u32 \<Rightarrow> 'a mem_st_scheme \<Rightarrow> 'a mem_st_scheme res" where
  "kfree v s =
     (if v mod PGSIZE \<noteq> 0 \<or> v < kernel_end s \<or> v2p v \<ge> PHYSTOP then Panic ''kfree'' else
      let s = s\<lparr>mem := memset (mem s) v 1 PGSIZE\<rparr> in
      bnd (if use_lock s then lock L_kmem s else Ok s) (\<lambda>s.
      let s = s\<lparr>mem := store32 (mem s) v (freelist s)\<rparr>; s = s\<lparr>freelist := v\<rparr> in
      if use_lock s then unlock L_kmem s else Ok s))"

definition kalloc :: "'a mem_st_scheme \<Rightarrow> (u32 \<times> 'a mem_st_scheme) res" where
  "kalloc s =
     bnd (if use_lock s then lock L_kmem s else Ok s) (\<lambda>s.
     let r = freelist s;
         s = (if r \<noteq> 0 then s\<lparr>freelist := load32 (mem s) r\<rparr> else s) in
     bnd (if use_lock s then unlock L_kmem s else Ok s) (\<lambda>s. Ok (r, s)))"

text \<open>
  The loop of \<open>freerange\<close> steps through the pages below \<open>vend\<close>. Its fuel is the number of
  pages of the address space; \<open>p + PGSIZE\<close> wraps as in C.
\<close>

fun freerange_loop :: "nat \<Rightarrow> u32 \<Rightarrow> u32 \<Rightarrow> 'a mem_st_scheme \<Rightarrow> 'a mem_st_scheme res" where
  "freerange_loop 0 p vend s = Stuck"
| "freerange_loop (Suc k) p vend s =
     (if p + PGSIZE \<le> vend then bnd (kfree p s) (freerange_loop k (p + PGSIZE) vend) else Ok s)"

definition freerange :: "u32 \<Rightarrow> u32 \<Rightarrow> 'a mem_st_scheme \<Rightarrow> 'a mem_st_scheme res" where
  "freerange vstart vend s = freerange_loop (2 ^ 20 + 1) (PGROUNDUP vstart) vend s"

definition kinit1 :: "u32 \<Rightarrow> u32 \<Rightarrow> 'a mem_st_scheme \<Rightarrow> 'a mem_st_scheme res" where
  "kinit1 vstart vend s = freerange vstart vend (s\<lparr>use_lock := False\<rparr>)"

definition kinit2 :: "u32 \<Rightarrow> u32 \<Rightarrow> 'a mem_st_scheme \<Rightarrow> 'a mem_st_scheme res" where
  "kinit2 vstart vend s = bnd (freerange vstart vend s) (\<lambda>s. Ok (s\<lparr>use_lock := True\<rparr>))"

section \<open>The free list\<close>

text \<open>A page that may be on the free list: aligned, above the kernel, below \<open>PHYSTOP\<close>.\<close>

definition page_ok :: "'a mem_st_scheme \<Rightarrow> u32 \<Rightarrow> bool" where
  "page_ok s v \<longleftrightarrow> v mod PGSIZE = 0 \<and> kernel_end s \<le> v \<and> v2p v < PHYSTOP"

text \<open>\<open>chain m p xs\<close>: from \<open>p\<close>, the \<open>next\<close> words lead through exactly the pages \<open>xs\<close> to 0.\<close>

primrec chain :: "memory \<Rightarrow> u32 \<Rightarrow> u32 list \<Rightarrow> bool" where
  "chain m p [] \<longleftrightarrow> p = 0"
| "chain m p (x # xs) \<longleftrightarrow> p = x \<and> x \<noteq> 0 \<and> chain m (load32 m x) xs"

definition kmem_inv :: "'a mem_st_scheme \<Rightarrow> u32 list \<Rightarrow> bool" where
  "kmem_inv s xs \<longleftrightarrow> chain (mem s) (freelist s) xs \<and> distinct xs \<and> (\<forall>x\<in>set xs. page_ok s x) \<and>
     0 < kernel_end s \<and> L_kmem \<notin> set (held s)"

lemma chain_cong: "(\<And>x. x \<in> set xs \<Longrightarrow> load32 m x = load32 m' x) \<Longrightarrow> chain m p xs = chain m' p xs"
  by (induction xs arbitrary: p) auto

lemma chain_unique: "chain m p xs \<Longrightarrow> chain m p ys \<Longrightarrow> xs = ys"
proof (induction xs arbitrary: p ys)
  case Nil
  then show ?case by (cases ys) auto
next
  case (Cons x xs)
  then show ?case by (cases ys) auto
qed

subsection \<open>Aligned pages\<close>

lemma unat_PGSIZE [simp]: "unat PGSIZE = 4096"
  by (simp add: PGSIZE_def)

lemma aligned_unat: "v mod PGSIZE = 0 \<longleftrightarrow> 4096 dvd unat v"
  by (simp only: unat_0_iff [symmetric] unat_mod unat_PGSIZE dvd_eq_mod_eq_0)

lemma in_page:
  assumes "v mod PGSIZE = 0"
  shows "in_range a v 4096 \<longleftrightarrow> unat v \<le> unat a \<and> unat a < unat v + 4096"
proof -
  obtain k where k: "unat v = 4096 * k" using assms by (auto simp: aligned_unat dvd_def)
  have "4096 * k < 4096 * 1048576" using unat_word_less32 [of v] unfolding k by simp
  then have "k < 1048576" by (simp only: mult_less_cancel1)
  then have "unat v + 4096 \<le> 2 ^ 32" unfolding k by simp
  then show ?thesis
    using unat_word_less32 [of a] by (auto simp: in_range_def unat_sub_if')
qed

lemma pages_disjoint:
  assumes "v mod PGSIZE = 0" "w mod PGSIZE = 0" "v \<noteq> w"
  shows "\<not> (in_range a v 4096 \<and> in_range a w 4096)"
proof -
  obtain j k where jk: "unat v = 4096 * j" "unat w = 4096 * k"
    using assms by (auto simp: aligned_unat dvd_def)
  then have "j \<noteq> k" using assms(3) by (auto simp: word_unat_eq_iff)
  with jk show ?thesis using assms by (auto simp: in_page)
qed

lemma in_range_mono: "in_range a p n \<Longrightarrow> n \<le> k \<Longrightarrow> in_range a p k"
  by (simp add: in_range_def)

lemma load32_other_page:
  assumes "v mod PGSIZE = 0" "x mod PGSIZE = 0" "x \<noteq> v"
    and "\<And>a. \<not> in_range a v 4096 \<Longrightarrow> m' a = m a"
  shows "load32 m' x = load32 m x"
proof (rule load32_cong)
  fix a assume "in_range a x 4"
  then have "in_range a x 4096" by (rule in_range_mono) simp
  then show "m' a = m a" using pages_disjoint [of v x a] assms by blast
qed

section \<open>Allocating and freeing\<close>

lemma kalloc_Some:
  assumes "kmem_inv s (x # xs)"
  shows "kalloc s = Ok (x, s\<lparr>freelist := load32 (mem s) x\<rparr>) \<and> kmem_inv (s\<lparr>freelist := load32 (mem s) x\<rparr>) xs"
  using assms by (auto simp: kalloc_def kmem_inv_def page_ok_def)

lemma kalloc_None:
  assumes "kmem_inv s []"
  shows "kalloc s = Ok (0, s)"
  using assms by (auto simp: kalloc_def kmem_inv_def)

definition kfree_result :: "u32 \<Rightarrow> 'a mem_st_scheme \<Rightarrow> 'a mem_st_scheme" where
  "kfree_result v s = s\<lparr>mem := store32 (memset (mem s) v 1 PGSIZE) v (freelist s), freelist := v\<rparr>"

lemma kfree_eq:
  "page_ok s v \<Longrightarrow> L_kmem \<notin> set (held s) \<Longrightarrow> kfree v s = Ok (kfree_result v s)"
  by (auto simp: kfree_def kfree_result_def page_ok_def Let_def)

lemma kfree_Panic: "\<not> page_ok s v \<Longrightarrow> kfree v s = Panic ''kfree''"
proof -
  assume "\<not> page_ok s v"
  then have "v mod PGSIZE \<noteq> 0 \<or> v < kernel_end s \<or> v2p v \<ge> PHYSTOP"
    unfolding page_ok_def by (metis not_less)
  then show ?thesis by (simp only: kfree_def if_True)
qed

lemma kfree_result_outside:
  assumes "\<not> in_range a v 4096"
  shows "mem (kfree_result v s) a = mem s a"
proof -
  have "\<not> in_range a v 4" using assms in_range_mono [of a v 4 4096] by auto
  with assms show ?thesis by (simp add: kfree_result_def memset_eq)
qed

lemma kfree_inv:
  assumes "kmem_inv s xs" "page_ok s v" "v \<notin> set xs"
  shows "kmem_inv (kfree_result v s) (v # xs)"
proof -
  have "v \<noteq> 0" using assms by (auto simp: kmem_inv_def page_ok_def)
  have "chain (mem (kfree_result v s)) (freelist s) xs = chain (mem s) (freelist s) xs"
  proof (rule chain_cong)
    fix x assume "x \<in> set xs"
    then show "load32 (mem (kfree_result v s)) x = load32 (mem s) x"
      using assms by (intro load32_other_page [of v]) (auto simp: kmem_inv_def page_ok_def kfree_result_outside)
  qed
  moreover have "load32 (mem (kfree_result v s)) v = freelist s" by (simp add: kfree_result_def)
  moreover have "freelist (kfree_result v s) = v" "kernel_end (kfree_result v s) = kernel_end s"
    "held (kfree_result v s) = held s" by (simp_all add: kfree_result_def)
  ultimately show ?thesis
    using assms \<open>v \<noteq> 0\<close> by (simp add: kmem_inv_def page_ok_def)
qed

section \<open>The page allocator as an interface\<close>

text \<open>
  What the rest of the kernel relies on: a state holds a list of free pages, \<open>alloc\<close> hands
  out the first of them and answers 0 when there is none, \<open>free\<close> puts a page in front.
\<close>

locale page_allocator =
  fixes alloc :: "'s \<Rightarrow> (u32 \<times> 's) res"
    and free :: "u32 \<Rightarrow> 's \<Rightarrow> 's res"
    and inv :: "'s \<Rightarrow> u32 list \<Rightarrow> bool"
    and ok :: "'s \<Rightarrow> u32 \<Rightarrow> bool"
  assumes alloc_Cons: "inv s (x # xs) \<Longrightarrow> returns (alloc s) (\<lambda>(r, s'). r = x \<and> inv s' xs \<and> ok s' = ok s)"
    and alloc_Nil: "inv s [] \<Longrightarrow> alloc s = Ok (0, s)"
    and free_ok: "inv s xs \<Longrightarrow> ok s v \<Longrightarrow> v \<notin> set xs \<Longrightarrow> returns (free v s) (\<lambda>s'. inv s' (v # xs) \<and> ok s' = ok s)"
    and inv_ok: "inv s xs \<Longrightarrow> x \<in> set xs \<Longrightarrow> ok s x \<and> x \<noteq> 0"
    and inv_distinct: "inv s xs \<Longrightarrow> distinct xs"
begin

text \<open>Allocating \<open>k\<close> pages in a row.\<close>

fun alloc_n :: "nat \<Rightarrow> 's \<Rightarrow> (u32 list \<times> 's) res" where
  "alloc_n 0 s = Ok ([], s)"
| "alloc_n (Suc k) s = bnd (alloc s) (\<lambda>(r, s). bnd (alloc_n k s) (\<lambda>(rs, s). Ok (r # rs, s)))"

lemma alloc_n_fresh:
  assumes "inv s xs" "k \<le> length xs"
  shows "returns (alloc_n k s) (\<lambda>(rs, s'). rs = take k xs \<and> inv s' (drop k xs) \<and> ok s' = ok s)"
  using assms
proof (induction k arbitrary: s xs)
  case (Suc k)
  then obtain x ys where xs: "xs = x # ys" by (cases xs) auto
  show ?case unfolding alloc_n.simps xs
  proof (rule returns_bndI [OF alloc_Cons [OF Suc.prems(1) [unfolded xs]]])
    fix v assume v: "case v of (r, s') \<Rightarrow> r = x \<and> inv s' ys \<and> ok s' = ok s"
    obtain r s' where v': "v = (r, s')" by (cases v)
    with v Suc.prems xs have "returns (alloc_n k s') (\<lambda>(rs, s''). rs = take k ys \<and> inv s'' (drop k ys) \<and> ok s'' = ok s')"
      by (intro Suc.IH) auto
    then show "returns (case v of (r, s) \<Rightarrow> bnd (alloc_n k s) (\<lambda>(rs, s). Ok (r # rs, s)))
       (\<lambda>(rs, s'). rs = take (Suc k) (x # ys) \<and> inv s' (drop (Suc k) (x # ys)) \<and> ok s' = ok s)"
      using v v' by (auto simp: returns_iff)
  qed
qed simp

lemma alloc_n_distinct:
  assumes "inv s xs" "k \<le> length xs"
  shows "returns (alloc_n k s) (\<lambda>(rs, s'). length rs = k \<and> distinct rs \<and> 0 \<notin> set rs \<and> (\<forall>r\<in>set rs. ok s r) \<and> inv s' (drop k xs))"
proof (rule returns_mono [OF alloc_n_fresh [OF assms]])
  fix v assume "case v of (rs, s') \<Rightarrow> rs = take k xs \<and> inv s' (drop k xs) \<and> ok s' = ok s"
  then show "case v of (rs, s') \<Rightarrow> length rs = k \<and> distinct rs \<and> 0 \<notin> set rs \<and> (\<forall>r\<in>set rs. ok s r) \<and> inv s' (drop k xs)"
    using assms inv_ok [OF assms(1)] inv_distinct [OF assms(1)]
    by (auto dest: in_set_takeD)
qed

lemma free_alloc:
  assumes "inv s xs" "ok s v" "v \<notin> set xs"
  shows "returns (bnd (free v s) alloc) (\<lambda>(r, s'). r = v \<and> inv s' xs)"
proof (rule returns_bndI [OF free_ok [OF assms]])
  fix s' assume "inv s' (v # xs) \<and> ok s' = ok s"
  then show "returns (alloc s') (\<lambda>(r, s'). r = v \<and> inv s' xs)"
    using alloc_Cons [of s' v xs] by (auto simp: returns_iff)
qed

end

interpretation kpages: page_allocator kalloc kfree kmem_inv page_ok
proof unfold_locales
  fix s :: "'a mem_st_scheme" and x v xs
  show "kmem_inv s (x # xs) \<Longrightarrow> returns (kalloc s) (\<lambda>(r, s'). r = x \<and> kmem_inv s' xs \<and> page_ok s' = page_ok s)"
    using kalloc_Some [of s x xs] by (auto simp: page_ok_def fun_eq_iff)
  show "kmem_inv s [] \<Longrightarrow> kalloc s = Ok (0, s)" by (rule kalloc_None)
  show "kmem_inv s xs \<Longrightarrow> page_ok s v \<Longrightarrow> v \<notin> set xs \<Longrightarrow>
     returns (kfree v s) (\<lambda>s'. kmem_inv s' (v # xs) \<and> page_ok s' = page_ok s)"
    using kfree_inv [of s xs v] kfree_eq [of s v]
    by (auto simp: kmem_inv_def page_ok_def kfree_result_def fun_eq_iff)
  show "kmem_inv s xs \<Longrightarrow> x \<in> set xs \<Longrightarrow> page_ok s x \<and> x \<noteq> 0"
    by (auto simp: kmem_inv_def page_ok_def)
  show "kmem_inv s xs \<Longrightarrow> distinct xs" by (simp add: kmem_inv_def)
qed

section \<open>Freeing a range\<close>

text \<open>The \<open>n\<close> pages from \<open>p\<close> upwards.\<close>

definition pages_from :: "u32 \<Rightarrow> nat \<Rightarrow> u32 list" where
  "pages_from p n = map (\<lambda>i. p + of_nat (4096 * i)) [0..<n]"

lemma pages_from_Suc: "pages_from p (Suc n) = p # pages_from (p + PGSIZE) n"
  by (simp add: pages_from_def PGSIZE_def upt_conv_Cons map_Suc_upt [symmetric] algebra_simps del: upt_Suc map_Suc_upt)

lemma unat_add_PGSIZE: "unat p + 4096 < 2 ^ 32 \<Longrightarrow> unat (p + PGSIZE) = unat p + 4096"
  by (simp add: unat_plus_if' PGSIZE_def)

lemma aligned_add_PGSIZE: "p mod PGSIZE = 0 \<Longrightarrow> unat p + 4096 < 2 ^ 32 \<Longrightarrow> (p + PGSIZE) mod PGSIZE = 0"
  by (simp add: aligned_unat unat_add_PGSIZE)

lemma page_ok_below:
  assumes "p mod PGSIZE = 0" "kernel_end s \<le> p" "KERNBASE \<le> p" "unat p < unat KERNBASE + unat PHYSTOP"
  shows "page_ok s p"
  using assms by (simp add: page_ok_def v2p_def word_less_nat_alt word_le_nat_alt unat_sub_if' KERNBASE_def PHYSTOP_def)

lemma freerange_loop_inv:
  assumes "kmem_inv s xs" "p mod PGSIZE = 0" "kernel_end s \<le> p" "KERNBASE \<le> p"
    and "unat p \<le> unat KERNBASE + unat PHYSTOP"
    and "unat vend \<le> unat KERNBASE + unat PHYSTOP" "n = (unat vend - unat p) div 4096" "n < k"
    and "set (pages_from p n) \<inter> set xs = {}" "distinct (pages_from p n)"
  shows "returns (freerange_loop k p vend s) (\<lambda>s'. kmem_inv s' (rev (pages_from p n) @ xs) \<and> kernel_end s' = kernel_end s)"
  using assms
proof (induction n arbitrary: k p s xs)
  case 0
  obtain k' where k: "k = Suc k'" using 0 by (cases k) auto
  have "unat (p + PGSIZE) = unat p + 4096"
    using 0(5) by (intro unat_add_PGSIZE) (simp add: KERNBASE_def PHYSTOP_def)
  moreover have "unat vend < unat p + 4096" using 0(7) by (simp add: div_eq_0_iff)
  ultimately have "\<not> p + PGSIZE \<le> vend" by (simp add: word_le_nat_alt)
  then show ?case using 0 by (simp add: k pages_from_def)
next
  case (Suc n)
  obtain k' where k: "k = Suc k'" "n < k'" using Suc.prems(8) by (cases k) auto
  have up: "unat (p + PGSIZE) = unat p + 4096"
    using Suc.prems(5) by (intro unat_add_PGSIZE) (simp add: KERNBASE_def PHYSTOP_def)
  have le: "unat p + 4096 \<le> unat vend"
    using Suc.prems(7) by (cases "unat p + 4096 \<le> unat vend") (auto simp: div_eq_0_iff not_le)
  then have ok: "page_ok s p"
    using Suc.prems by (intro page_ok_below) auto
  have n: "n = (unat vend - unat (p + PGSIZE)) div 4096"
    using Suc.prems(7) le up by (simp add: le_div_geq)
  have pg: "p \<notin> set xs" "set (pages_from (p + PGSIZE) n) \<inter> set (p # xs) = {}" "distinct (pages_from (p + PGSIZE) n)"
    using Suc.prems(9,10) by (auto simp: pages_from_Suc)
  have "kmem_inv (kfree_result p s) (p # xs)" using Suc.prems(1) ok pg(1) by (rule kfree_inv)
  moreover have "kernel_end (kfree_result p s) = kernel_end s" by (simp add: kfree_result_def)
  moreover have "(p + PGSIZE) mod PGSIZE = 0"
    using Suc.prems(2,5) by (intro aligned_add_PGSIZE) (auto simp: KERNBASE_def PHYSTOP_def)
  ultimately have "returns (freerange_loop k' (p + PGSIZE) vend (kfree_result p s))
      (\<lambda>s'. kmem_inv s' (rev (pages_from (p + PGSIZE) n) @ p # xs) \<and> kernel_end s' = kernel_end (kfree_result p s))"
    using Suc.prems(3-6) k n pg up le by (intro Suc.IH) (simp_all add: word_le_nat_alt)
  moreover have "p + PGSIZE \<le> vend" using le up by (simp add: word_le_nat_alt)
  moreover have "L_kmem \<notin> set (held s)" using Suc.prems(1) by (simp add: kmem_inv_def)
  moreover have "kernel_end (kfree_result p s) = kernel_end s" by (simp add: kfree_result_def)
  ultimately show ?case using k kfree_eq [OF ok] by (simp add: pages_from_Suc)
qed

lemma distinct_pages_from:
  assumes "unat p + 4096 * n \<le> 2 ^ 32"
  shows "distinct (pages_from p n)"
proof -
  have "inj_on (\<lambda>i. p + of_nat (4096 * i)) {0..<n}"
  proof (rule inj_onI)
    fix i j assume ij: "i \<in> {0..<n}" "j \<in> {0..<n}" "p + of_nat (4096 * i) = p + (of_nat (4096 * j) :: u32)"
    then have "unat (of_nat (4096 * i) :: u32) = unat (of_nat (4096 * j) :: u32)" by simp
    moreover have "4096 * i < 2 ^ 32" "4096 * j < 2 ^ 32" using ij(1,2) assms by auto
    ultimately have "4096 * i = 4096 * j" by (simp only: unat_of_nat32)
    then show "i = j" by simp
  qed
  then show ?thesis by (simp add: pages_from_def distinct_map)
qed

lemma unat_PGROUNDDOWN: "unat (PGROUNDDOWN a) = unat a div 4096 * 4096"
proof -
  have m: "PGSIZE - 1 = mask 12" by (simp add: PGSIZE_def mask_eq_exp_minus_1)
  have "PGROUNDDOWN a = push_bit 12 (drop_bit 12 a)"
    unfolding PGROUNDDOWN_def m by (rule bit_eqI) (auto simp: bit_simps)
  moreover have "unat a div 4096 * 4096 < 2 ^ 32"
    using unat_word_less32 [of a] div_times_less_eq_dividend [of "unat a" 4096] by linarith
  ultimately show ?thesis
    by (simp only: unsigned_push_bit_eq unat_drop_bit_eq)
      (simp add: drop_bit_eq_div push_bit_eq_mult take_bit_eq_mod)
qed

lemma PGROUNDDOWN_aligned: "PGROUNDDOWN a mod PGSIZE = 0"
  by (simp add: aligned_unat unat_PGROUNDDOWN)

lemma PGROUNDUP_DOWN: "PGROUNDUP a = PGROUNDDOWN (a + 4095)"
  by (simp add: PGROUNDUP_def PGROUNDDOWN_def PGSIZE_def add.commute)

lemma unat_PGROUNDUP:
  "unat a + 4095 < 2 ^ 32 \<Longrightarrow> unat (PGROUNDUP a) = (unat a + 4095) div 4096 * 4096"
  by (simp add: PGROUNDUP_DOWN unat_PGROUNDDOWN unat_plus_if')

lemma PGROUNDUP_aligned: "PGROUNDUP a mod PGSIZE = 0"
  by (simp add: PGROUNDUP_DOWN PGROUNDDOWN_aligned)

lemma freerange_inv:
  assumes "kmem_inv s xs" "kernel_end s \<le> vstart" "KERNBASE \<le> vstart" "vstart \<le> vend"
    and "unat vend \<le> unat KERNBASE + unat PHYSTOP"
    and "n = (unat vend - unat (PGROUNDUP vstart)) div 4096"
    and "set (pages_from (PGROUNDUP vstart) n) \<inter> set xs = {}"
  shows "returns (freerange vstart vend s) 
     (\<lambda>s'. kmem_inv s' (rev (pages_from (PGROUNDUP vstart) n) @ xs) \<and> kernel_end s' = kernel_end s)"
proof -
  let ?p = "PGROUNDUP vstart"
  have v: "unat vstart \<le> 2382364672" "unat vend \<le> 2382364672"
    using assms(4,5) by (auto simp: KERNBASE_def PHYSTOP_def word_le_nat_alt)
  then have p: "unat ?p = (unat vstart + 4095) div 4096 * 4096" by (intro unat_PGROUNDUP) simp
  have "unat vstart \<le> unat ?p" unfolding p by linarith
  moreover have "(unat vstart + 4095) div 4096 \<le> (2382364672 + 4095) div 4096"
    using v(1) by (intro div_le_mono) simp
  then have "unat ?p \<le> 2382364672" unfolding p by simp
  ultimately
  show ?thesis unfolding freerange_def
    using assms v by (intro freerange_loop_inv PGROUNDUP_aligned distinct_pages_from)
      (auto simp: word_le_nat_alt KERNBASE_def PHYSTOP_def)
qed

section \<open>Properties\<close>

text \<open>Kalloc answers 0 exactly when no page is free; otherwise it hands out a free, aligned
  page between the kernel and PHYSTOP, takes it off the free list, keeps the other free pages
  and leaves memory as it is.\<close>

lemma kalloc_hands_out_free_page:
  assumes "kmem_inv s xs"
  shows "returns (kalloc s) (\<lambda>(r, s'). (r = 0 \<longleftrightarrow> xs = []) \<and> mem s' = mem s \<and> held s' = held s \<and>
     (r \<noteq> 0 \<longrightarrow> r \<in> set xs \<and> page_ok s r \<and> kmem_inv s' (remove1 r xs) \<and> r \<notin> set (remove1 r xs)))"
proof (cases xs)
  case Nil
  then show ?thesis using assms kalloc_None [of s] by simp
next
  case (Cons x ys)
  then show ?thesis using assms kalloc_Some [of s x ys] by (auto simp: kmem_inv_def page_ok_def)
qed

text \<open>Two pages on the list, the first pointing to the second.\<close>

definition kmem_demo :: mem_st where
  "kmem_demo = \<lparr>held = [], mem = store32 (\<lambda>_. 0) 0x80200000 0x80300000, freelist = 0x80200000,
     use_lock = True, kernel_end = 0x80110000\<rparr>"

lemma kmem_demo_inv: "kmem_inv kmem_demo [0x80200000, 0x80300000]"
proof -
  have "load32 (mem kmem_demo) 0x80200000 = 0x80300000" by (simp add: kmem_demo_def)
  moreover have "load32 (mem kmem_demo) 0x80300000 = 0"
    by (simp add: kmem_demo_def load32_def in_range_def mk32_def)
  ultimately show ?thesis
    by (simp add: kmem_inv_def page_ok_def kmem_demo_def v2p_def KERNBASE_def PHYSTOP_def PGSIZE_def)
qed

lemma kalloc_hands_out_free_page_witness:
  "returns (kalloc kmem_demo) (\<lambda>(r, s'). r \<noteq> 0)"
  using kalloc_hands_out_free_page [OF kmem_demo_inv] by (rule returns_mono) auto

text \<open>A page that is freed is the next one kalloc hands out, the free list is then as it was
  before, and no byte outside that page has changed; freeing an address that is not a page of the
  allocator panics.\<close>

lemma kfree_kalloc_roundtrip:
  assumes "kmem_inv s xs" "v \<notin> set xs"
  shows "if page_ok s v then returns (bnd (kfree v s) kalloc) (\<lambda>(r, s'). r = v \<and> kmem_inv s' xs \<and>
       (\<forall>a. \<not> in_range a v 4096 \<longrightarrow> mem s' a = mem s a))
     else kfree v s = Panic ''kfree''"
proof (cases "page_ok s v")
  case True
  have "kfree v s = Ok (kfree_result v s)" using assms True by (simp add: kfree_eq kmem_inv_def)
  moreover have "kmem_inv (kfree_result v s) (v # xs)" using assms(1) True assms(2) by (rule kfree_inv)
  ultimately show ?thesis using True kalloc_Some [of "kfree_result v s" v xs]
    by (simp add: kfree_result_outside)
qed (simp add: kfree_Panic)

lemma kfree_kalloc_roundtrip_witness:
  "returns (bnd (kfree 0x80400000 kmem_demo) kalloc) (\<lambda>(r, s'). r = 0x80400000) \<and>
   kfree 0x80400001 kmem_demo = Panic ''kfree''"
proof -
  have "page_ok kmem_demo 0x80400000" "\<not> page_ok kmem_demo 0x80400001"
    by (simp_all add: page_ok_def kmem_demo_def v2p_def KERNBASE_def PHYSTOP_def PGSIZE_def)
  then show ?thesis
    using kfree_kalloc_roundtrip [OF kmem_demo_inv, where v = "0x80400000"]
      kfree_kalloc_roundtrip [OF kmem_demo_inv, where v = "0x80400001"]
    by (auto elim: returns_mono)
qed

lemma set_pages_from:
  assumes "unat lo \<le> unat hi" "lo mod PGSIZE = 0" "hi mod PGSIZE = 0"
  shows "set (pages_from lo ((unat hi - unat lo) div 4096)) = {v. v mod PGSIZE = 0 \<and> lo \<le> v \<and> v < hi}"
    (is "?L = ?R")
proof -
  obtain a b where ab: "unat lo = 4096 * a" "unat hi = 4096 * b"
    using assms(2,3) by (auto simp: aligned_unat dvd_def)
  have n: "(unat hi - unat lo) div 4096 = b - a" unfolding ab by (simp flip: diff_mult_distrib2)
  have u: "unat (lo + of_nat (4096 * i)) = 4096 * (a + i)" if "i < b - a" for i
  proof -
    have "4096 * (a + i) < 2 ^ 32" using that ab(2) unat_word_less32 [of hi] by simp
    then show ?thesis by (simp only: unat_word_ariths unat_of_nat ab(1)) simp
  qed
  show ?thesis
  proof (intro equalityI subsetI)
    fix v assume "v \<in> ?L"
    then obtain i where i: "i < b - a" "v = lo + of_nat (4096 * i)" by (auto simp: pages_from_def n)
    then show "v \<in> ?R" using u [OF i(1)] ab
      by (simp only: i(2) mem_Collect_eq aligned_unat word_le_nat_alt word_less_nat_alt) auto
  next
    fix v assume "v \<in> ?R"
    then obtain k where k: "unat v = 4096 * k" "a \<le> k" "k < b"
      using ab by (auto simp: aligned_unat word_le_nat_alt word_less_nat_alt dvd_def)
    then have "unat v = unat (lo + of_nat (4096 * (k - a)))" by (subst u) auto
    then have "v = lo + of_nat (4096 * (k - a))" by (rule word_unat_eq_iff [THEN iffD2])
    moreover have "k - a < b - a" using k by simp
    ultimately show "v \<in> ?L" unfolding pages_from_def n set_map set_upt by (intro image_eqI [where x = "k - a"]) auto
  qed
qed

lemma PGROUNDUP_le_aligned:
  assumes "unat a \<le> unat b" "b mod PGSIZE = 0" "unat b + 4095 < 2 ^ 32"
  shows "unat a \<le> unat (PGROUNDUP a)" "unat (PGROUNDUP a) \<le> unat b"
proof -
  have p: "unat (PGROUNDUP a) = (unat a + 4095) div 4096 * 4096" using assms by (intro unat_PGROUNDUP) simp
  show "unat a \<le> unat (PGROUNDUP a)" unfolding p by linarith
  obtain k where k: "unat b = 4096 * k" using assms(2) by (auto simp: aligned_unat dvd_def)
  have "(unat a + 4095) div 4096 \<le> k" using assms(1) k by simp
  then show "unat (PGROUNDUP a) \<le> unat b" unfolding p k by simp
qed

lemma PGROUNDUP_le_iff:
  assumes "v mod PGSIZE = 0" "unat v + 4095 < 2 ^ 32" "unat e + 4095 < 2 ^ 32"
  shows "PGROUNDUP e \<le> v \<longleftrightarrow> e \<le> v"
proof
  assume "e \<le> v"
  then show "PGROUNDUP e \<le> v" using PGROUNDUP_le_aligned(2) [of e v] assms by (simp add: word_le_nat_alt)
next
  have "unat e \<le> unat (PGROUNDUP e)" unfolding unat_PGROUNDUP [OF assms(3)] by linarith
  then show "PGROUNDUP e \<le> v \<Longrightarrow> e \<le> v" by (simp add: word_le_nat_alt)
qed

text \<open>C18: the boot sequence \<open>kinit1(end, P2V(4MB)); kinit2(P2V(4MB), P2V(PHYSTOP))\<close> terminates
  without a panic and leaves exactly the aligned pages from the end of the kernel to PHYSTOP on
  the free list, each once, with locking switched on.\<close>

theorem kinit_frees_all_memory:
  fixes s :: "'a mem_st_scheme"
  assumes "kernel_end s = e" "freelist s = 0" "held s = []" "KERNBASE \<le> e" "e \<le> p2v 0x400000"
  shows "returns (bnd (kinit1 e (p2v 0x400000) s) (kinit2 (p2v 0x400000) (p2v PHYSTOP)))
     (\<lambda>s'. use_lock s' \<and> (\<exists>xs. kmem_inv s' xs \<and>
        set xs = {v. v mod PGSIZE = 0 \<and> e \<le> v \<and> v < p2v PHYSTOP}))"
proof -
  let ?m = "p2v 0x400000 :: u32" and ?h = "p2v PHYSTOP" and ?lo = "PGROUNDUP e"
  have c: "unat ?m = 2151677952" "unat ?h = 2382364672" "unat KERNBASE + unat PHYSTOP = 2382364672" "KERNBASE \<le> ?m" "?m \<le> ?h"
    "?m mod PGSIZE = 0" "?h mod PGSIZE = 0" "PGROUNDUP ?m = ?m"
    by (simp_all add: p2v_def KERNBASE_def PHYSTOP_def PGSIZE_def PGROUNDUP_def)
  have e: "unat e \<le> 2151677952" using assms(5) c(1) by (simp add: word_le_nat_alt)
  let ?A = "pages_from ?lo ((unat ?m - unat ?lo) div 4096)" and ?B = "pages_from ?m ((unat ?h - unat ?m) div 4096)"
  have lo: "unat ?lo \<le> unat ?m" using PGROUNDUP_le_aligned(2) [of e ?m] e c by simp
  have A: "set ?A = {v. v mod PGSIZE = 0 \<and> ?lo \<le> v \<and> v < ?m}"
    using lo c(6) by (intro set_pages_from PGROUNDUP_aligned) auto
  have B: "set ?B = {v. v mod PGSIZE = 0 \<and> ?m \<le> v \<and> v < ?h}"
    using c by (intro set_pages_from) (auto simp: word_le_nat_alt)
  have low: "?lo \<le> v \<longleftrightarrow> e \<le> v" if "v < ?h" "v mod PGSIZE = 0" for v
    using that e c(2) by (intro PGROUNDUP_le_iff) (auto simp: word_less_nat_alt)
  have i0: "kmem_inv (s\<lparr>use_lock := False\<rparr>) []"
    using assms by (auto simp: kmem_inv_def KERNBASE_def word_less_nat_alt word_le_nat_alt)
  have one: "returns (kinit1 e ?m s) (\<lambda>s'. kmem_inv s' (rev ?A) \<and> kernel_end s' = e)"
    unfolding kinit1_def
    by (rule returns_mono [OF freerange_inv [OF i0 _ assms(4,5)]]) (use assms(1) c in auto)
  have two: "returns (freerange ?m ?h s') (\<lambda>s''. kmem_inv s'' (rev ?B @ rev ?A) \<and> kernel_end s'' = e)"
    if s': "kmem_inv s' (rev ?A)" "kernel_end s' = e" for s' :: "'a mem_st_scheme"
    by (rule returns_mono [OF freerange_inv [OF s'(1)]]) (use s' assms(5) c A B in auto)
  show ?thesis
  proof (rule returns_bndI [OF one])
    fix s' :: "'a mem_st_scheme"
    assume "kmem_inv s' (rev ?A) \<and> kernel_end s' = e"
    then have "returns (freerange ?m ?h s') (\<lambda>s''. kmem_inv s'' (rev ?B @ rev ?A) \<and> kernel_end s'' = e)"
      by (intro two) auto
    then obtain s'' where s'': "freerange ?m ?h s' = Ok s''" "kmem_inv s'' (rev ?B @ rev ?A)"
      by (auto simp: returns_iff)
    have st: "set (rev ?B @ rev ?A) = {v. v mod PGSIZE = 0 \<and> e \<le> v \<and> v < ?h}"
      unfolding set_append set_rev A B
    proof (rule set_eqI, unfold Un_iff mem_Collect_eq)
      fix v :: u32
      have "?lo \<le> v \<longleftrightarrow> e \<le> v" if "v < ?m" "v mod PGSIZE = 0"
        using low that c(5) by (meson less_le_trans)
      moreover have "e \<le> v" if "?m \<le> v" using assms(5) that by (rule order_trans)
      moreover have "v < ?h" if "v < ?m" using that c(5) by (rule less_le_trans)
      ultimately show "v mod PGSIZE = 0 \<and> ?m \<le> v \<and> v < ?h \<or> v mod PGSIZE = 0 \<and> ?lo \<le> v \<and> v < ?m \<longleftrightarrow>
          v mod PGSIZE = 0 \<and> e \<le> v \<and> v < ?h"
        by (cases "v mod PGSIZE = 0"; cases "v < ?m") (simp_all add: not_less [of v ?m, symmetric])
    qed
    have "kmem_inv (s''\<lparr>use_lock := True\<rparr>) (rev ?B @ rev ?A)"
      using s''(2) by (simp add: kmem_inv_def page_ok_def)
    with st show "returns (kinit2 ?m ?h s') (\<lambda>s'. use_lock s' \<and> (\<exists>xs. kmem_inv s' xs \<and>
        set xs = {v. v mod PGSIZE = 0 \<and> e \<le> v \<and> v < p2v PHYSTOP}))"
      unfolding kinit2_def s''(1) bnd.simps returns_simps by (intro conjI exI [of _ "rev ?B @ rev ?A"]) simp_all
  qed
qed

theorem kinit_frees_all_memory_witness:
  "returns (bnd (kinit1 0x80110000 (p2v 0x400000) (kmem_demo\<lparr>freelist := 0\<rparr>)) (kinit2 (p2v 0x400000) (p2v PHYSTOP)))
     (\<lambda>s'. \<exists>xs. kmem_inv s' xs \<and> 0x8DFFF000 \<in> set xs)"
proof -
  have "returns (bnd (kinit1 0x80110000 (p2v 0x400000) (kmem_demo\<lparr>freelist := 0\<rparr>)) (kinit2 (p2v 0x400000) (p2v PHYSTOP)))
     (\<lambda>s'. use_lock s' \<and> (\<exists>xs. kmem_inv s' xs \<and>
        set xs = {v. v mod PGSIZE = 0 \<and> 0x80110000 \<le> v \<and> v < p2v PHYSTOP}))"
    by (rule kinit_frees_all_memory) (simp_all add: kmem_demo_def KERNBASE_def p2v_def)
  then show ?thesis
    by (rule returns_mono) (auto simp: PGSIZE_def p2v_def KERNBASE_def PHYSTOP_def)
qed

end
