(* ===== verification/Proc.thy ===== *)
theory Proc
  imports Kalloc
begin

text \<open>
  The process table and the scheduler of \<open>proc.c\<close>: process allocation, the stride
  scheduler, sleep and wakeup, kill. The operations that need the virtual memory and the
  file system (\<open>fork\<close>, \<open>exit\<close>, \<open>wait\<close>, \<open>userinit\<close>, \<open>growproc\<close>) are in a later theory.
\<close>

section \<open>Process structures\<close>

definition NPROC :: nat where "NPROC = 64"
definition NOFILE :: nat where "NOFILE = 16"
definition KSTACKSIZE :: u32 where "KSTACKSIZE = 4096"

record trapframe =
  tf_edi :: u32
  tf_esi :: u32
  tf_ebp :: u32
  tf_oesp :: u32
  tf_ebx :: u32
  tf_edx :: u32
  tf_ecx :: u32
  tf_eax :: u32
  tf_gs :: u16
  tf_fs :: u16
  tf_es :: u16
  tf_ds :: u16
  tf_trapno :: u32
  tf_err :: u32
  tf_eip :: u32
  tf_cs :: u16
  tf_eflags :: u32
  tf_esp :: u32
  tf_ss :: u16

record kcontext =
  ctx_edi :: u32
  ctx_esi :: u32
  ctx_ebx :: u32
  ctx_ebp :: u32
  ctx_eip :: u32

definition zero_trapframe :: trapframe where
  "zero_trapframe = \<lparr>tf_edi = 0, tf_esi = 0, tf_ebp = 0, tf_oesp = 0, tf_ebx = 0, tf_edx = 0,
     tf_ecx = 0, tf_eax = 0, tf_gs = 0, tf_fs = 0, tf_es = 0, tf_ds = 0, tf_trapno = 0, tf_err = 0,
     tf_eip = 0, tf_cs = 0, tf_eflags = 0, tf_esp = 0, tf_ss = 0\<rparr>"

datatype procstate = UNUSED | EMBRYO | SLEEPING | RUNNABLE | RUNNING | ZOMBIE

text \<open>
  A sleep channel is the address of a kernel object: a process, a buffer, an in-memory
  inode, the log, the clock, the console input buffer, or a counter of a pipe page.
\<close>

datatype chan = Ch_proc nat | Ch_buf nat | Ch_inode nat | Ch_log | Ch_ticks | Ch_input
  | Ch_nread u32 | Ch_nwrite u32

text \<open>
  \<open>struct proc\<close>. Pointers into the process, file and inode tables are indices, a null
  pointer is \<open>None\<close>; \<open>tfp\<close> and \<open>ctxp\<close> are the addresses on the kernel stack of the trap
  frame and of the saved context, \<open>tf\<close> and \<open>ctx\<close> what is stored there.
\<close>

record proc =
  sz :: u32
  pgdir :: u32
  kstack :: u32
  pstate :: procstate
  pid :: int
  parent :: "nat option"
  tfp :: u32
  tf :: trapframe
  ctxp :: u32
  ctx :: kcontext
  pchan :: "chan option"
  killed :: bool
  ofile :: "nat option list"
  cwd :: "nat option"
  pname :: "byte list"
  step :: int
  sizeStep :: int

definition unused_proc :: proc where
  "unused_proc = \<lparr>sz = 0, pgdir = 0, kstack = 0, pstate = UNUSED, pid = 0, parent = None,
     tfp = 0, tf = zero_trapframe, ctxp = 0,
     ctx = \<lparr>ctx_edi = 0, ctx_esi = 0, ctx_ebx = 0, ctx_ebp = 0, ctx_eip = 0\<rparr>, pchan = None,
     killed = False, ofile = replicate NOFILE None, cwd = None, pname = replicate 16 0,
     step = 0, sizeStep = 0\<rparr>"

text \<open>
  The globals of \<open>proc.c\<close>, the clock, and the registers of the running CPU that a process
  switch changes. \<open>cur\<close> is \<open>proc\<close>, the current process; \<open>sched_s\<close> is the global \<open>s\<close> that
  selects the scheduler; \<open>forkret_addr\<close> and \<open>trapret_addr\<close> are code addresses fixed by the
  linker.
\<close>

record proc_st = mem_st +
  procs :: "proc list"
  cur :: "nat option"
  initproc :: "nat option"
  nextpid :: int
  sched_s :: int
  ticks :: u32
  kpgdir :: u32
  cr3 :: u32
  ts_esp0 :: u32
  ts_ss0 :: u32
  forkret_addr :: u32
  trapret_addr :: u32

definition upd_proc :: "nat \<Rightarrow> (proc \<Rightarrow> proc) \<Rightarrow> 'a proc_st_scheme \<Rightarrow> 'a proc_st_scheme" where
  "upd_proc i f s = s\<lparr>procs := (procs s)[i := f (procs s ! i)]\<rparr>"

text \<open>A null dereference in the kernel faults, and \<open>trap\<close> then panics.\<close>

definition with_cur :: "'a proc_st_scheme \<Rightarrow> (nat \<Rightarrow> 'b res) \<Rightarrow> 'b res" where
  "with_cur s f = (case cur s of None \<Rightarrow> Panic ''trap'' | Some p \<Rightarrow> f p)"

section \<open>Switching address spaces\<close>

definition SEG_KDATA :: u32 where "SEG_KDATA = 2"

definition switchkvm :: "'a proc_st_scheme \<Rightarrow> 'a proc_st_scheme" where
  "switchkvm s = s\<lparr>cr3 := v2p (kpgdir s)\<rparr>"

text \<open>\<open>switchuvm(p)\<close> takes the kernel stack from the current process, the page table from \<open>p\<close>.\<close>

definition switchuvm :: "nat \<Rightarrow> 'a proc_st_scheme \<Rightarrow> 'a proc_st_scheme res" where
  "switchuvm p s = with_cur s (\<lambda>c.
     let s = s\<lparr>ts_ss0 := push_bit 3 SEG_KDATA, ts_esp0 := kstack (procs s ! c) + KSTACKSIZE\<rparr> in
     if pgdir (procs s ! p) = 0 then Panic ''switchuvm: no pgdir''
     else Ok (s\<lparr>cr3 := v2p (pgdir (procs s ! p))\<rparr>))"

section \<open>Allocating a process\<close>

text \<open>The stride of a process with the given number of tickets.\<close>

definition stride_of :: "int \<Rightarrow> int" where
  "stride_of tickets =
     (if tickets = 0 then 10000 div 500
      else if tickets \<le> 50 then 10000 div 50
      else if tickets \<ge> 1000 then 10000 div 1000
      else 10000 div tickets)"

definition allocproc :: "int \<Rightarrow> 'a proc_st_scheme \<Rightarrow> (nat option \<times> 'a proc_st_scheme) res" where
  "allocproc tickets s =
     bnd (lock L_ptable s) (\<lambda>s.
     case first_idx (\<lambda>p. pstate p = UNUSED) (procs s) of
       None \<Rightarrow> bnd (unlock L_ptable s) (\<lambda>s. Ok (None, s))
     | Some i \<Rightarrow>
         let s = upd_proc i (\<lambda>p. p\<lparr>pstate := EMBRYO, pid := nextpid s\<rparr>) s;
             s = s\<lparr>nextpid := c_int (nextpid s + 1)\<rparr> in
         bnd (unlock L_ptable s) (\<lambda>s.
         bnd (kalloc s) (\<lambda>(stk, s).
         let s = upd_proc i (\<lambda>p. p\<lparr>kstack := stk\<rparr>) s in
         if stk = 0 then Ok (None, upd_proc i (\<lambda>p. p\<lparr>pstate := UNUSED\<rparr>) s) else
         let sp = stk + KSTACKSIZE;
             sp = sp - 76;
             s = upd_proc i (\<lambda>p. p\<lparr>tfp := sp\<rparr>) s;
             sp = sp - 4;
             s = s\<lparr>mem := store32 (mem s) sp (trapret_addr s)\<rparr>;
             sp = sp - 20;
             s = upd_proc i (\<lambda>p. p\<lparr>ctxp := sp,
                   ctx := \<lparr>ctx_edi = 0, ctx_esi = 0, ctx_ebx = 0, ctx_ebp = 0, ctx_eip = forkret_addr s\<rparr>\<rparr>) s;
             s = upd_proc i (\<lambda>p. p\<lparr>sizeStep := stride_of tickets, step := 0\<rparr>) s in
         Ok (Some i, s))))"

section \<open>The scheduler\<close>

text \<open>
  The stride scheduler scans the table for the runnable process with the least \<open>step\<close>
  below 5000000; the first of several wins.
\<close>

fun stride_scan :: "proc list \<Rightarrow> nat \<Rightarrow> int \<Rightarrow> nat option \<Rightarrow> nat option" where
  "stride_scan [] i least minP = minP"
| "stride_scan (p # ps) i least minP =
     (if pstate p = RUNNABLE \<and> step p < least then stride_scan ps (Suc i) (step p) (Some i)
      else stride_scan ps (Suc i) least minP)"

definition stride_pick :: "proc list \<Rightarrow> nat option" where
  "stride_pick ps = stride_scan ps 0 5000000 None"

text \<open>
  What the scheduler does to the process it has chosen before it switches to it: the
  stride scheduler (\<open>s = 0\<close>) charges it one stride, the round-robin one (\<open>s\<close> not 0) does
  not.
\<close>

definition dispatch :: "nat \<Rightarrow> 'a proc_st_scheme \<Rightarrow> 'a proc_st_scheme res" where
  "dispatch i s =
     (if sched_s s \<noteq> 0 then
        bnd (switchuvm i (s\<lparr>cur := Some i\<rparr>)) (\<lambda>s. Ok (upd_proc i (\<lambda>p. p\<lparr>pstate := RUNNING\<rparr>) s))
      else
        let s = s\<lparr>cur := Some i\<rparr>;
            s = upd_proc i (\<lambda>p. p\<lparr>step := step p + sizeStep p\<rparr>) s;
            s = upd_proc i (\<lambda>p. p\<lparr>pstate := RUNNING\<rparr>) s in
        switchuvm i s)"

text \<open>
  One round of the scheduler's endless loop. \<open>run\<close> is what happens between the two
  context switches: the chosen process runs until it switches back. The round-robin
  loop goes on with the table as that process left it.
\<close>

fun rr_loop :: "('a proc_st_scheme \<Rightarrow> 'a proc_st_scheme) \<Rightarrow> nat \<Rightarrow> nat \<Rightarrow> 'a proc_st_scheme \<Rightarrow> 'a proc_st_scheme res" where
  "rr_loop run i 0 s = Ok s"
| "rr_loop run i (Suc k) s =
     (if pstate (procs s ! i) \<noteq> RUNNABLE then rr_loop run (Suc i) k s
      else bnd (dispatch i s) (\<lambda>s. rr_loop run (Suc i) k ((switchkvm (run s))\<lparr>cur := None\<rparr>)))"

definition scheduler_round ::
  "('a proc_st_scheme \<Rightarrow> 'a proc_st_scheme) \<Rightarrow> 'a proc_st_scheme \<Rightarrow> 'a proc_st_scheme res" where
  "scheduler_round run s =
     bnd (lock L_ptable s) (\<lambda>s.
     if sched_s s \<noteq> 0 then bnd (rr_loop run 0 NPROC s) (unlock L_ptable)
     else case stride_pick (procs s) of
         None \<Rightarrow> unlock L_ptable s
       | Some i \<Rightarrow> bnd (dispatch i s) (\<lambda>s. unlock L_ptable ((switchkvm (run s))\<lparr>cur := None\<rparr>)))"

text \<open>
  \<open>sched\<close>: give the CPU to the scheduler. The list \<open>env\<close> says what the rest of the machine
  does each time this process is off the CPU, up to the moment when the scheduler has
  chosen it again and holds \<open>ptable.lock\<close>; when the list is empty, or the process is not
  runnable at that moment, it never runs again.
\<close>

type_synonym 's env = "('s \<Rightarrow> 's) list"

definition sched :: "'a proc_st_scheme \<Rightarrow> 'a proc_st_scheme env \<Rightarrow>
    ('a proc_st_scheme \<times> 'a proc_st_scheme env) res" where
  "sched s env =
     (if L_ptable \<notin> set (held s) then Panic ''sched ptable.lock''
      else if length (held s) \<noteq> 1 then Panic ''sched locks''
      else with_cur s (\<lambda>p.
        if pstate (procs s ! p) = RUNNING then Panic ''sched running''
        else case env of
            [] \<Rightarrow> Stuck
          | e # env \<Rightarrow>
              let s = (e s)\<lparr>held := [L_ptable]\<rparr> in
              if pstate (procs s ! p) = RUNNABLE then bnd (dispatch p s) (\<lambda>s. Ok (s, env)) else Stuck))"

definition yield :: "'a proc_st_scheme \<Rightarrow> 'a proc_st_scheme env \<Rightarrow>
    ('a proc_st_scheme \<times> 'a proc_st_scheme env) res" where
  "yield s env =
     bnd (lock L_ptable s) (\<lambda>s.
     with_cur s (\<lambda>p.
     let s = upd_proc p (\<lambda>q. q\<lparr>pstate := RUNNABLE\<rparr>) s in
     bnd (sched s env) (\<lambda>(s, env).
     bnd (unlock L_ptable s) (\<lambda>s. Ok (s, env)))))"

section \<open>Sleeping, waking and killing\<close>

definition sleep :: "chan \<Rightarrow> lockid \<Rightarrow> 'a proc_st_scheme \<Rightarrow> 'a proc_st_scheme env \<Rightarrow>
    ('a proc_st_scheme \<times> 'a proc_st_scheme env) res" where
  "sleep ch lk s env =
     (case cur s of None \<Rightarrow> Panic ''sleep''
      | Some p \<Rightarrow>
     bnd (if lk \<noteq> L_ptable then bnd (lock L_ptable s) (unlock lk) else Ok s) (\<lambda>s.
     let s = upd_proc p (\<lambda>q. q\<lparr>pchan := Some ch, pstate := SLEEPING\<rparr>) s in
     bnd (sched s env) (\<lambda>(s, env).
     let s = upd_proc p (\<lambda>q. q\<lparr>pchan := None\<rparr>) s in
     bnd (if lk \<noteq> L_ptable then bnd (unlock L_ptable s) (lock lk) else Ok s) (\<lambda>s.
     Ok (s, env)))))"

definition wakeup1 :: "chan \<Rightarrow> 'a proc_st_scheme \<Rightarrow> 'a proc_st_scheme" where
  "wakeup1 ch s = s\<lparr>procs := map (\<lambda>p. if pstate p = SLEEPING \<and> pchan p = Some ch
      then p\<lparr>pstate := RUNNABLE\<rparr> else p) (procs s)\<rparr>"

definition wakeup :: "chan \<Rightarrow> 'a proc_st_scheme \<Rightarrow> 'a proc_st_scheme res" where
  "wakeup ch s = bnd (lock L_ptable s) (\<lambda>s. unlock L_ptable (wakeup1 ch s))"

definition kill :: "int \<Rightarrow> 'a proc_st_scheme \<Rightarrow> (int \<times> 'a proc_st_scheme) res" where
  "kill pd s =
     bnd (lock L_ptable s) (\<lambda>s.
     case first_idx (\<lambda>p. pid p = pd) (procs s) of
       None \<Rightarrow> bnd (unlock L_ptable s) (\<lambda>s. Ok (-1, s))
     | Some i \<Rightarrow>
         let s = upd_proc i (\<lambda>p. p\<lparr>killed := True\<rparr>) s;
             s = (if pstate (procs s ! i) = SLEEPING then upd_proc i (\<lambda>p. p\<lparr>pstate := RUNNABLE\<rparr>) s else s) in
         bnd (unlock L_ptable s) (\<lambda>s. Ok (0, s)))"

section \<open>Facts about the scheduler's choice\<close>

lemma upd_proc_simps [simp]:
  "held (upd_proc i f s) = held s" "mem (upd_proc i f s) = mem s" "freelist (upd_proc i f s) = freelist s"
  "use_lock (upd_proc i f s) = use_lock s" "kernel_end (upd_proc i f s) = kernel_end s"
  "cur (upd_proc i f s) = cur s" "sched_s (upd_proc i f s) = sched_s s" "nextpid (upd_proc i f s) = nextpid s"
  "initproc (upd_proc i f s) = initproc s" "length (procs (upd_proc i f s)) = length (procs s)"
  by (simp_all add: upd_proc_def)

lemma procs_upd_proc: "procs (upd_proc i f s) = (procs s)[i := f (procs s ! i)]"
  by (simp add: upd_proc_def)

text \<open>\<open>candidate ps l k\<close>: process \<open>k\<close> is the one a scan of \<open>ps\<close> with bound \<open>l\<close> chooses.\<close>

definition candidate :: "proc list \<Rightarrow> int \<Rightarrow> nat \<Rightarrow> bool" where
  "candidate ps l k \<longleftrightarrow> k < length ps \<and> pstate (ps ! k) = RUNNABLE \<and> step (ps ! k) < l \<and>
     (\<forall>j<length ps. pstate (ps ! j) = RUNNABLE \<longrightarrow> step (ps ! k) \<le> step (ps ! j)) \<and>
     (\<forall>j<k. pstate (ps ! j) = RUNNABLE \<longrightarrow> step (ps ! k) < step (ps ! j))"

lemma candidate_Cons_0:
  "candidate (p # ps) l 0 \<longleftrightarrow> pstate p = RUNNABLE \<and> step p < l \<and>
     (\<forall>j<length ps. pstate (ps ! j) = RUNNABLE \<longrightarrow> step p \<le> step (ps ! j))"
  by (auto simp: candidate_def All_less_Suc2)

lemma candidate_Cons_Suc:
  "candidate (p # ps) l (Suc k) \<longleftrightarrow> candidate ps l k \<and> (pstate p = RUNNABLE \<longrightarrow> step (ps ! k) < step p)"
  by (auto simp: candidate_def All_less_Suc2)

lemma stride_scan_eq_Some:
  "stride_scan ps i l mp = Some j \<longleftrightarrow>
     (\<exists>k. j = i + k \<and> candidate ps l k) \<or>
     (mp = Some j \<and> (\<forall>k<length ps. pstate (ps ! k) = RUNNABLE \<longrightarrow> l \<le> step (ps ! k)))"
proof (induction ps arbitrary: i l mp)
  case Nil
  then show ?case by (simp add: candidate_def)
next
  case (Cons p ps)
  have ex: "(\<exists>k. j = i + k \<and> candidate (p # ps) l k) \<longleftrightarrow>
     (j = i \<and> candidate (p # ps) l 0) \<or> (\<exists>k. j = Suc i + k \<and> candidate (p # ps) l (Suc k))"
    by (metis add_0_right add_Suc add_Suc_right not0_implies_Suc)
  show ?case
  proof (cases "pstate p = RUNNABLE \<and> step p < l")
    case True
    have "candidate ps (step p) k \<longleftrightarrow> candidate (p # ps) l (Suc k)" for k
      unfolding candidate_Cons_Suc using True by (auto simp: candidate_def)
    with True show ?thesis
      by (simp add: Cons.IH ex candidate_Cons_0 All_less_Suc2) (auto simp: candidate_def)
  next
    case False
    then have "candidate ps l k \<longleftrightarrow> candidate (p # ps) l (Suc k)" for k
      unfolding candidate_Cons_Suc by (auto simp: candidate_def)
    with False show ?thesis
      by (simp add: Cons.IH ex candidate_Cons_0 All_less_Suc2) (auto simp: candidate_def)
  qed
qed

lemma stride_pick_candidate: "stride_pick ps = Some i \<longleftrightarrow> candidate ps 5000000 i"
  by (simp add: stride_pick_def stride_scan_eq_Some)

lemma stride_scan_None:
  "stride_scan ps i l mp = None \<longleftrightarrow> mp = None \<and> (\<forall>p\<in>set ps. pstate p = RUNNABLE \<longrightarrow> l \<le> step p)"
  by (induction ps arbitrary: i l mp) auto

lemma stride_pick_None: "stride_pick ps = None \<longleftrightarrow> (\<forall>p\<in>set ps. pstate p = RUNNABLE \<longrightarrow> 5000000 \<le> step p)"
  by (simp add: stride_pick_def stride_scan_None)

lemma stride_of_bounds: "10 \<le> stride_of t \<and> stride_of t \<le> 200"
proof -
  have "10 \<le> 10000 div t \<and> 10000 div t \<le> 200" if "50 < t" "t < 1000"
  proof
    have "10000 div 1000 \<le> 10000 div t" using that by (intro zdiv_mono2) auto
    then show "10 \<le> 10000 div t" by simp
    have "10000 div t \<le> 10000 div 50" using that by (intro zdiv_mono2) auto
    then show "10000 div t \<le> 200" by simp
  qed
  then show ?thesis by (auto simp: stride_of_def)
qed

section \<open>Example states\<close>

definition demo_proc :: "int \<Rightarrow> int \<Rightarrow> proc" where
  "demo_proc st str = unused_proc\<lparr>pstate := RUNNABLE, pgdir := 0x80400000, step := st, sizeStep := str\<rparr>"

definition demo_st :: "proc list \<Rightarrow> proc_st" where
  "demo_st ps = \<lparr>held = [], mem = (\<lambda>_. 0), freelist = 0, use_lock = True, kernel_end = 0x80110000,
     procs = ps, cur = None, initproc = None, nextpid = 1, sched_s = 0, ticks = 0, kpgdir = 0, cr3 = 0,
     ts_esp0 = 0, ts_ss0 = 0, forkret_addr = 0, trapret_addr = 0\<rparr>"

lemma demo_simps [simp]:
  "pstate (demo_proc a b) = RUNNABLE" "pgdir (demo_proc a b) \<noteq> 0" "step (demo_proc a b) = a"
  "sizeStep (demo_proc a b) = b" "procs (demo_st ps) = ps" "sched_s (demo_st ps) = 0" "held (demo_st ps) = []"
  by (simp_all add: demo_proc_def demo_st_def)

end
