(* ===== verification/Stride.thy ===== *)
theory Stride
  imports Proc
begin

text \<open>
  What the stride scheduler of \<open>proc.c\<close> guarantees: it serves runnable processes in
  proportion to their tickets, never lets a stride counter overflow, and stops serving a
  process once its counter has reached 5000000. A process that is created late starts
  at 0 and is served alone until it has caught up.
\<close>

section \<open>Rounds with preemption\<close>

text \<open>
  A round in which the chosen process is preempted by the clock: on the way back through
  \<open>yield\<close> it has made itself runnable again. \<open>sched_rounds\<close> runs \<open>n\<close> such rounds and
  records which process each of them chose.
\<close>

definition preempt :: "'a proc_st_scheme \<Rightarrow> 'a proc_st_scheme" where
  "preempt s = (case cur s of None \<Rightarrow> s | Some i \<Rightarrow> upd_proc i (\<lambda>p. p\<lparr>pstate := RUNNABLE\<rparr>) s)"

fun sched_rounds :: "nat \<Rightarrow> 'a proc_st_scheme \<Rightarrow> (nat list \<times> 'a proc_st_scheme) res" where
  "sched_rounds 0 s = Ok ([], s)"
| "sched_rounds (Suc n) s =
     bnd (scheduler_round preempt s) (\<lambda>s'.
     bnd (sched_rounds n s') (\<lambda>(tr, s'').
     Ok (case stride_pick (procs s) of None \<Rightarrow> tr | Some i \<Rightarrow> i # tr, s'')))"

text \<open>The states in which the scheduler can run: stride mode, the table lock free, page tables set.\<close>

definition sched_ready :: "'a proc_st_scheme \<Rightarrow> bool" where
  "sched_ready s \<longleftrightarrow> sched_s s = 0 \<and> L_ptable \<notin> set (held s) \<and>
     (\<forall>p\<in>set (procs s). pstate p = RUNNABLE \<longrightarrow> pgdir p \<noteq> 0)"

definition charge :: "proc \<Rightarrow> proc" where
  "charge p = p\<lparr>step := step p + sizeStep p\<rparr>"

lemma charge_simps [simp]:
  "step (charge p) = step p + sizeStep p" "sizeStep (charge p) = sizeStep p"
  "pstate (charge p) = pstate p" "pgdir (charge p) = pgdir p"
  by (simp_all add: charge_def)

lemma scheduler_round_Some:
  assumes "sched_ready s" "stride_pick (procs s) = Some i"
  shows "returns (scheduler_round preempt s) (\<lambda>s'. sched_ready s' \<and> procs s' = (procs s)[i := charge (procs s ! i)])"
proof -
  let ?p = "procs s ! i"
  have i: "i < length (procs s)" "pstate ?p = RUNNABLE"
    using assms(2) by (auto simp: stride_pick_candidate candidate_def)
  have pg: "pgdir ?p \<noteq> 0" using assms(1) i by (auto simp: sched_ready_def)
  have "?p\<lparr>step := step ?p + sizeStep ?p, pstate := RUNNABLE\<rparr> = charge ?p"
    using i(2) by (cases ?p) (simp add: charge_def)
  moreover have "\<forall>p\<in>set ((procs s)[i := charge ?p]). pstate p = RUNNABLE \<longrightarrow> pgdir p \<noteq> 0"
    using assms(1) pg by (auto simp: sched_ready_def dest: set_update_subset_insert [THEN subsetD])
  ultimately show ?thesis
    using assms i pg
    by (auto simp: scheduler_round_def sched_ready_def dispatch_def switchuvm_def with_cur_def Let_def
        upd_proc_def preempt_def switchkvm_def)
qed

lemma scheduler_round_None:
  assumes "sched_ready s" "stride_pick (procs s) = None"
  shows "scheduler_round preempt s = Ok s"
  using assms by (auto simp: scheduler_round_def sched_ready_def)

text \<open>
  Induction over the rounds: a property of the table that every charge of the chosen
  process preserves, together with the trace so far, holds after any number of rounds.
\<close>

lemma sched_rounds_induct:
  assumes "sched_ready s" "P [] (procs s)"
    and "\<And>tr ps i. P tr ps \<Longrightarrow> stride_pick ps = Some i \<Longrightarrow> P (tr @ [i]) (ps[i := charge (ps ! i)])"
  shows "returns (sched_rounds n s) (\<lambda>(tr, s'). P tr (procs s') \<and> sched_ready s')"
proof -
  have "returns (sched_rounds n s) (\<lambda>(tr, s'). P (tr0 @ tr) (procs s') \<and> sched_ready s')"
    if "sched_ready s" "P tr0 (procs s)" for tr0 and s :: "'a proc_st_scheme"
    using that
  proof (induction n arbitrary: s tr0)
    case (Suc n)
    show ?case
    proof (cases "stride_pick (procs s)")
      case None
      then show ?thesis
        using Suc.IH [OF Suc.prems] scheduler_round_None [OF Suc.prems(1)]
        by (auto simp: returns_iff)
    next
      case (Some i)
      obtain s' where s': "scheduler_round preempt s = Ok s'" "sched_ready s'"
          "procs s' = (procs s)[i := charge (procs s ! i)]"
        using scheduler_round_Some [OF Suc.prems(1) Some] by (auto simp: returns_iff)
      have "P (tr0 @ [i]) (procs s')" unfolding s'(3) using Suc.prems(2) Some by (rule assms(3))
      from Suc.IH [OF s'(2) this] show ?thesis
        using s'(1) Some by (auto simp: returns_iff)
    qed
  qed simp
  from this [OF assms(1), of "[]"] assms(2) show ?thesis by simp
qed

section \<open>Proportional share\<close>

text \<open>
  \<open>balanced ps\<close>: no runnable process is ahead of another by more than one stride of its own.
\<close>

definition balanced :: "proc list \<Rightarrow> bool" where
  "balanced ps \<longleftrightarrow> (\<forall>i<length ps. \<forall>j<length ps. pstate (ps ! i) = RUNNABLE \<longrightarrow> pstate (ps ! j) = RUNNABLE \<longrightarrow>
     step (ps ! i) \<le> step (ps ! j) + sizeStep (ps ! i))"

lemma balanced_charge:
  assumes "balanced ps" "stride_pick ps = Some i" "\<forall>p\<in>set ps. 0 \<le> sizeStep p"
  shows "balanced (ps[i := charge (ps ! i)])"
  using assms by (auto simp: balanced_def stride_pick_candidate candidate_def nth_list_update set_conv_nth
      intro: order_trans [of _ "_ + _"]) (smt (verit, best))+

text \<open>
  The table after the rounds of a trace: each process has been charged its stride once
  for each time it occurs in the trace.
\<close>

definition charged :: "proc list \<Rightarrow> nat list \<Rightarrow> proc list" where
  "charged ps tr = map (\<lambda>k. (ps ! k)\<lparr>step := step (ps ! k) + int (count_list tr k) * sizeStep (ps ! k)\<rparr>) [0..<length ps]"

lemma charged_simps [simp]:
  "length (charged ps tr) = length ps"
  "k < length ps \<Longrightarrow> step (charged ps tr ! k) = step (ps ! k) + int (count_list tr k) * sizeStep (ps ! k)"
  "k < length ps \<Longrightarrow> sizeStep (charged ps tr ! k) = sizeStep (ps ! k)"
  "k < length ps \<Longrightarrow> pstate (charged ps tr ! k) = pstate (ps ! k)"
  by (simp_all add: charged_def)

lemma charged_Nil [simp]: "charged ps [] = ps"
  by (rule nth_equalityI) (auto simp: charged_def)

lemma charged_snoc:
  "i < length ps \<Longrightarrow> (charged ps tr)[i := charge (charged ps tr ! i)] = charged ps (tr @ [i])"
  by (rule nth_equalityI) (auto simp: charged_def charge_def nth_list_update algebra_simps)

lemma sizeStep_charged: "\<forall>p\<in>set ps. Q (sizeStep p) \<Longrightarrow> \<forall>p\<in>set (charged ps tr). Q (sizeStep p)"
  by (auto simp: charged_def)

lemma pick_in_table: "stride_pick ps = Some i \<Longrightarrow> i < length ps"
  by (simp add: stride_pick_candidate candidate_def)

lemma sched_rounds_charged:
  assumes "sched_ready s" "Q [] (procs s)"
    and "\<And>tr i. Q tr (charged (procs s) tr) \<Longrightarrow> stride_pick (charged (procs s) tr) = Some i \<Longrightarrow>
           Q (tr @ [i]) (charged (procs s) (tr @ [i]))"
  shows "returns (sched_rounds n s) (\<lambda>(tr, s'). procs s' = charged (procs s) tr \<and> Q tr (procs s') \<and> sched_ready s')"
proof -
  have "returns (sched_rounds n s)
      (\<lambda>(tr, s'). (procs s' = charged (procs s) tr \<and> Q tr (procs s')) \<and> sched_ready s')"
  proof (rule sched_rounds_induct [OF assms(1)])
    show "procs s = charged (procs s) [] \<and> Q [] (procs s)" using assms(2) by simp
  next
    fix tr ps i
    assume "ps = charged (procs s) tr \<and> Q tr ps" and pick: "stride_pick ps = Some i"
    then have ps: "ps = charged (procs s) tr" "Q tr ps" by auto
    have "ps[i := charge (ps ! i)] = charged (procs s) (tr @ [i])"
      unfolding ps(1) using pick_in_table [OF pick] ps(1) by (intro charged_snoc) simp
    then show "ps[i := charge (ps ! i)] = charged (procs s) (tr @ [i]) \<and> Q (tr @ [i]) (ps[i := charge (ps ! i)])"
      using assms(3) [of tr i] ps pick by simp
  qed
  then show ?thesis by (rule returns_mono) auto
qed

text \<open>C12: the stride scheduler picks the runnable process with the least step counter, the first
  of the table among equals, provided that counter is below 5000000.\<close>

theorem stride_pick_least:
  "stride_pick ps = Some i \<longleftrightarrow>
     (i < length ps \<and> pstate (ps ! i) = RUNNABLE \<and> step (ps ! i) < 5000000) \<and>
     (\<forall>j. j < length ps \<and> pstate (ps ! j) = RUNNABLE \<longrightarrow>
        step (ps ! i) \<le> step (ps ! j) \<and> (j < i \<longrightarrow> step (ps ! i) < step (ps ! j)))"
  by (auto simp: stride_pick_candidate candidate_def)

theorem stride_pick_least_witness:
  "stride_pick [demo_proc 40 20, demo_proc 20 10, demo_proc 20 10] = Some 1"
  using stride_pick_least [of "[demo_proc 40 20, demo_proc 20 10, demo_proc 20 10]" 1]
  by (simp add: All_less_Suc2 nth_Cons split: nat.splits)

text \<open>C13: in any number of rounds of the stride scheduler (table lock free, page tables set) that start with all processes at
  step 0, with strides that are not negative, and in each of which the chosen process uses its quantum up and is preempted (nobody sleeps, wakes up, exits or is created on the way), the
  processes are served in proportion to their tickets: the CPU received by one process, counted
  in its strides, exceeds that of any other by at most one stride.\<close>

theorem stride_proportional_share:
  assumes "sched_ready s" "\<forall>p\<in>set (procs s). step p = 0 \<and> 0 \<le> sizeStep p"
  shows "returns (sched_rounds n s) (\<lambda>(tr, s'). \<forall>i<length (procs s). \<forall>j<length (procs s).
     pstate (procs s ! i) = RUNNABLE \<longrightarrow> pstate (procs s ! j) = RUNNABLE \<longrightarrow>
     int (count_list tr i) * sizeStep (procs s ! i)
       \<le> int (count_list tr j) * sizeStep (procs s ! j) + sizeStep (procs s ! i))"
proof -
  have b0: "balanced (procs s)" using assms(2) by (auto simp: balanced_def)
  have "returns (sched_rounds n s) (\<lambda>(tr, s'). procs s' = charged (procs s) tr \<and> balanced (procs s') \<and> sched_ready s')"
  proof (rule sched_rounds_charged [where Q = "\<lambda>tr ps. balanced ps", OF assms(1) b0])
    fix tr i
    assume "balanced (charged (procs s) tr)" and pick: "stride_pick (charged (procs s) tr) = Some i"
    moreover have "\<forall>p\<in>set (charged (procs s) tr). 0 \<le> sizeStep p"
      using assms(2) by (intro sizeStep_charged) auto
    ultimately have "balanced ((charged (procs s) tr)[i := charge (charged (procs s) tr ! i)])"
      by (intro balanced_charge)
    then show "balanced (charged (procs s) (tr @ [i]))"
      using pick_in_table [OF pick] by (simp add: charged_snoc)
  qed
  then show ?thesis
    by (rule returns_mono) (use assms(2) in \<open>auto simp: balanced_def\<close>)
qed

theorem stride_proportional_share_witness:
  "returns (sched_rounds 7 (demo_st [demo_proc 0 10, demo_proc 0 20]))
     (\<lambda>(tr, s'). int (count_list tr 1) * 20 \<le> int (count_list tr 0) * 10 + 20)"
proof -
  have "sched_ready (demo_st [demo_proc 0 10, demo_proc 0 20])" by (simp add: sched_ready_def)
  from stride_proportional_share [OF this, of 7] show ?thesis
    by (auto simp: returns_iff All_less_Suc2 numeral_2_eq_2)
qed



text \<open>C15: let \<open>n\<close> strides, not 0, bring a runnable process neither above 5000000 nor above the step counter of any other runnable
  process. Then it is chosen in each of the next \<open>n\<close> rounds, as long as it uses its quantum up and is preempted in each of them
  (and nobody sleeps, wakes up, exits or is created): a freshly forked process, which starts at step 0, shuts out all older ones until it has caught up.\<close>

theorem stride_newcomer_monopoly:
  assumes "sched_ready s" "i < length (procs s)" "pstate (procs s ! i) = RUNNABLE" "0 < sizeStep (procs s ! i)"
    and "step (procs s ! i) + int n * sizeStep (procs s ! i) \<le> 5000000"
    and "\<forall>j<length (procs s). j \<noteq> i \<and> pstate (procs s ! j) = RUNNABLE \<longrightarrow>
       step (procs s ! i) + int n * sizeStep (procs s ! i) \<le> step (procs s ! j)"
  shows "returns (sched_rounds n s) (\<lambda>(tr, s'). tr = replicate n i)"
  using assms
proof (induction n arbitrary: s)
  case (Suc n)
  let ?p = "procs s ! i"
  have lt: "step ?p < step ?p + int (Suc n) * sizeStep ?p" using Suc.prems(4) by simp
  have less: "step ?p < step (procs s ! j)" if "j < length (procs s)" "j \<noteq> i" "pstate (procs s ! j) = RUNNABLE" for j
    using Suc.prems(6) that lt by fastforce
  have le: "step ?p \<le> step (procs s ! j)" if "j < length (procs s)" "pstate (procs s ! j) = RUNNABLE" for j
    using less [OF that(1) _ that(2)] by (cases "j = i") auto
  have pick: "stride_pick (procs s) = Some i"
    unfolding stride_pick_candidate candidate_def
    using Suc.prems(2,3,5) lt le less by (auto simp del: of_nat_Suc)
  obtain s' where s': "scheduler_round preempt s = Ok s'" "sched_ready s'" "procs s' = (procs s)[i := charge ?p]"
    using scheduler_round_Some [OF Suc.prems(1) pick] by (auto simp: returns_iff)
  have "returns (sched_rounds n s') (\<lambda>(tr, s'). tr = replicate n i)"
    using Suc.prems s'(2) by (intro Suc.IH) (auto simp: s'(3) nth_list_update algebra_simps)
  then show ?case using s'(1) pick by (auto simp: returns_iff)
qed simp

theorem stride_newcomer_monopoly_witness:
  "returns (sched_rounds 100 (demo_st [demo_proc 2000 10, demo_proc 0 20])) (\<lambda>(tr, s'). tr = replicate 100 1)"
  using stride_newcomer_monopoly [of "demo_st [demo_proc 2000 10, demo_proc 0 20]" 1 100]
  by (simp add: sched_ready_def All_less_Suc2 nth_Cons split: nat.splits)

end
