(* ===== verification/Kprog.thy ===== *)
theory Kprog
  imports Proc
begin

text \<open>
  Kernel code that may sleep. Such code runs on a pair of the kernel state and the list
  of what the rest of the machine does at each of its sleeps (see \<open>sched\<close>), and threads
  both through its calls. This theory has the combinators in which the file system, the
  pipes and the system calls are written, and the rules to reason about them.
\<close>

type_synonym ('s, 'a) prog = "'s \<times> 's env \<Rightarrow> ('a \<times> 's \<times> 's env) res"

definition ret :: "'a \<Rightarrow> ('s, 'a) prog" where
  "ret a w = Ok (a, w)"

definition thn :: "('s, 'a) prog \<Rightarrow> ('a \<Rightarrow> ('s, 'b) prog) \<Rightarrow> ('s, 'b) prog" where
  "thn m f w = bnd (m w) (\<lambda>(a, w). f a w)"

definition panic :: "string \<Rightarrow> ('s, 'a) prog" where
  "panic msg w = Panic msg"

definition gets :: "('s \<Rightarrow> 'a) \<Rightarrow> ('s, 'a) prog" where
  "gets f w = Ok (f (fst w), w)"

definition modify :: "('s \<Rightarrow> 's) \<Rightarrow> ('s, unit) prog" where
  "modify f w = Ok ((), f (fst w), snd w)"

text \<open>Code that does not sleep, as a step of code that may.\<close>

definition upd :: "('s \<Rightarrow> 's res) \<Rightarrow> ('s, unit) prog" where
  "upd f w = bnd (f (fst w)) (\<lambda>s. Ok ((), s, snd w))"

definition call :: "('s \<Rightarrow> ('a \<times> 's) res) \<Rightarrow> ('s, 'a) prog" where
  "call f w = bnd (f (fst w)) (\<lambda>(a, s). Ok (a, s, snd w))"

definition sleep_on :: "chan \<Rightarrow> lockid \<Rightarrow> ('a proc_st_scheme, unit) prog" where
  "sleep_on ch lk w = bnd (sleep ch lk (fst w) (snd w)) (\<lambda>w. Ok ((), w))"

definition whenp :: "bool \<Rightarrow> ('s, unit) prog \<Rightarrow> ('s, unit) prog" where
  "whenp c m = (if c then m else ret ())"

text \<open>\<open>for(i = 0; i < n; i++) body(i)\<close>, from \<open>i\<close> on, with \<open>n\<close> turns left.\<close>

fun for_up :: "nat \<Rightarrow> nat \<Rightarrow> (nat \<Rightarrow> ('s, unit) prog) \<Rightarrow> ('s, unit) prog" where
  "for_up i 0 body = ret ()"
| "for_up i (Suc n) body = thn (body i) (\<lambda>_. for_up (Suc i) n body)"

named_theorems prog_simps \<open>running the combinators\<close>

lemma prog_run [prog_simps, simp]:
  "ret a w = Ok (a, w)" "panic msg w = Panic msg" "gets f (s, env) = Ok (f s, s, env)"
  "modify g (s, env) = Ok ((), g s, env)"
  "upd h (s, env) = bnd (h s) (\<lambda>s. Ok ((), s, env))"
  "call k (s, env) = bnd (k s) (\<lambda>(a, s). Ok (a, s, env))"
  by (simp_all add: ret_def panic_def gets_def modify_def upd_def call_def)

lemma thn_run: "thn m f w = bnd (m w) (\<lambda>(a, w). f a w)"
  by (simp add: thn_def)

lemma thn_simps [prog_simps, simp]:
  "thn (ret a) f w = f a w" "thn (panic msg) f w = Panic msg"
  "thn (gets g) f (s, env) = f (g s) (s, env)" "thn (modify h) k (s, env) = k () (h s, env)"
  "thn (upd u) k (s, env) = bnd (u s) (\<lambda>s. k () (s, env))"
  "thn (call c) f (s, env) = bnd (c s) (\<lambda>(a, s). f a (s, env))"
  by (simp_all add: thn_def gets_def modify_def bnd_assoc split_def upd_def call_def)

lemma whenp_simps [prog_simps, simp]: "whenp True m = m" "whenp False m = ret ()"
  by (simp_all add: whenp_def)

lemma thn_eq: "m w = Ok (a, w') \<Longrightarrow> thn m f w = f a w'"
  by (simp add: thn_def)

lemma thn_assoc: "thn (thn m f) g w = thn m (\<lambda>a. thn (f a) g) w"
  by (simp add: thn_def bnd_assoc split_def)

lemma thn_cong [fundef_cong]:
  "m w = m' w' \<Longrightarrow> w = w' \<Longrightarrow> (\<And>a v. m' w' = Ok (a, v) \<Longrightarrow> f a v = f' a v) \<Longrightarrow> thn m f w = thn m' f' w'"
  by (auto simp: thn_def intro!: bnd_cong)

lemma returns_thnI:
  "returns (m w) (\<lambda>(a, w'). P a w') \<Longrightarrow> (\<And>a w'. P a w' \<Longrightarrow> returns (f a w') Q) \<Longrightarrow> returns (thn m f w) Q"
  by (cases "m w") (auto simp: thn_def)

text \<open>A sleep uses up one entry of the list, so a loop around a sleep ends.\<close>

lemma sched_env: "sched s env = Ok (s', env') \<Longrightarrow> length env' < length env"
  by (auto simp: sched_def with_cur_def Let_def res_simps split: if_splits option.splits list.splits)

lemma sleep_env: "sleep ch lk s env = Ok (s', env') \<Longrightarrow> length env' < length env"
  by (auto simp: sleep_def Let_def res_simps split: option.splits dest: sched_env)

lemma sleep_on_env: "sleep_on ch lk w = Ok (u, w') \<Longrightarrow> length (snd w') < length (snd w)"
  by (cases w) (auto simp: sleep_on_def res_simps dest: sleep_env)

end
