(* ===== verification/Bio.thy ===== *)
theory Bio
  imports Kprog
begin

text \<open>
  The disk (\<open>memide.c\<close>, the memory disk the kernel can be built with) and the buffer
  cache (\<open>bio.c\<close>). The circular list of buffers is the list of their indices, most
  recently used first; the flag bits of a buffer are three booleans. \<open>dwrites\<close> records the
  sectors the disk has been given, in order: no operation reads it.
\<close>

section \<open>State\<close>

definition NBUF :: nat where "NBUF = 10"
definition BSIZE :: nat where "BSIZE = 512"
definition ROOTDEV :: u32 where "ROOTDEV = 1"

record buf =
  b_busy :: bool
  b_valid :: bool
  b_dirty :: bool
  b_dev :: u32
  b_sector :: u32
  b_data :: "byte list"

record disk_st = proc_st +
  disk :: "byte list list"
  dwrites :: "(nat \<times> byte list) list"
  bufs :: "buf list"
  lru :: "nat list"

definition upd_buf :: "nat \<Rightarrow> (buf \<Rightarrow> buf) \<Rightarrow> 'a disk_st_scheme \<Rightarrow> 'a disk_st_scheme" where
  "upd_buf b f s = s\<lparr>bufs := (bufs s)[b := f (bufs s ! b)]\<rparr>"

section \<open>The disk\<close>

definition ideinit :: "byte list list \<Rightarrow> 'a disk_st_scheme \<Rightarrow> 'a disk_st_scheme" where
  "ideinit img s = s\<lparr>disk := img\<rparr>"

definition iderw :: "nat \<Rightarrow> 'a disk_st_scheme \<Rightarrow> 'a disk_st_scheme res" where
  "iderw b s =
     (let bf = bufs s ! b; n = unat (b_sector bf) in
      if \<not> b_busy bf then Panic ''iderw: buf not busy''
      else if b_valid bf \<and> \<not> b_dirty bf then Panic ''iderw: nothing to do''
      else if b_dev bf \<noteq> 1 then Panic ''iderw: request not for disk 1''
      else if n \<ge> length (disk s) then Panic ''iderw: sector out of range''
      else if b_dirty bf then
        Ok (upd_buf b (\<lambda>x. x\<lparr>b_dirty := False, b_valid := True\<rparr>)
             (s\<lparr>disk := (disk s)[n := b_data bf], dwrites := dwrites s @ [(n, b_data bf)]\<rparr>))
      else Ok (upd_buf b (\<lambda>x. x\<lparr>b_data := disk s ! n, b_valid := True\<rparr>) s))"

section \<open>The buffer cache\<close>

text \<open>\<open>binit\<close> puts each buffer at the head of the list and gives it the device number -1.\<close>

definition binit :: "'a disk_st_scheme \<Rightarrow> 'a disk_st_scheme" where
  "binit s = s\<lparr>lru := fold (\<lambda>b l. b # l) [0..<NBUF] [], bufs := map (\<lambda>b. b\<lparr>b_dev := -1\<rparr>) (bufs s)\<rparr>"

definition cached :: "u32 \<Rightarrow> u32 \<Rightarrow> 'a disk_st_scheme \<Rightarrow> nat option" where
  "cached dev sector s = List.find (\<lambda>b. b_dev (bufs s ! b) = dev \<and> b_sector (bufs s ! b) = sector) (lru s)"

definition recyclable :: "'a disk_st_scheme \<Rightarrow> nat option" where
  "recyclable s = List.find (\<lambda>b. \<not> b_busy (bufs s ! b) \<and> \<not> b_dirty (bufs s ! b)) (rev (lru s))"

function bget_loop :: "u32 \<Rightarrow> u32 \<Rightarrow> ('a disk_st_scheme, nat) prog" where
  "bget_loop dev sector w =
     (case cached dev sector (fst w) of
        Some b \<Rightarrow>
          if \<not> b_busy (bufs (fst w) ! b) then
            thn (modify (upd_buf b (\<lambda>x. x\<lparr>b_busy := True\<rparr>))) (\<lambda>_. thn (upd (unlock L_bcache)) (\<lambda>_. ret b)) w
          else thn (sleep_on (Ch_buf b) L_bcache) (\<lambda>_. bget_loop dev sector) w
      | None \<Rightarrow>
        case recyclable (fst w) of
          Some b \<Rightarrow>
            thn (modify (upd_buf b (\<lambda>x. x\<lparr>b_dev := dev, b_sector := sector,
                   b_busy := True, b_valid := False, b_dirty := False\<rparr>))) (\<lambda>_.
            thn (upd (unlock L_bcache)) (\<lambda>_. ret b)) w
        | None \<Rightarrow> Panic ''bget: no buffers'')"
  by pat_completeness auto
termination
  by (relation "measure (\<lambda>(_, _, w). length (snd w))") (auto dest: sleep_on_env)

definition bget :: "u32 \<Rightarrow> u32 \<Rightarrow> ('a disk_st_scheme, nat) prog" where
  "bget dev sector = thn (upd (lock L_bcache)) (\<lambda>_. bget_loop dev sector)"

definition bread :: "u32 \<Rightarrow> u32 \<Rightarrow> ('a disk_st_scheme, nat) prog" where
  "bread dev sector =
     thn (bget dev sector) (\<lambda>b.
     thn (gets (\<lambda>s. b_valid (bufs s ! b))) (\<lambda>valid.
     thn (whenp (\<not> valid) (upd (iderw b))) (\<lambda>_. ret b)))"

definition bwrite :: "nat \<Rightarrow> 'a disk_st_scheme \<Rightarrow> 'a disk_st_scheme res" where
  "bwrite b s =
     (if \<not> b_busy (bufs s ! b) then Panic ''bwrite''
      else iderw b (upd_buf b (\<lambda>x. x\<lparr>b_dirty := True\<rparr>) s))"

definition brelse :: "nat \<Rightarrow> 'a disk_st_scheme \<Rightarrow> 'a disk_st_scheme res" where
  "brelse b s =
     (if \<not> b_busy (bufs s ! b) then Panic ''brelse'' else
      bnd (lock L_bcache s) (\<lambda>s.
      let s = s\<lparr>lru := b # remove1 b (lru s)\<rparr>;
          s = upd_buf b (\<lambda>x. x\<lparr>b_busy := False\<rparr>) s in
      bnd (wakeup (Ch_buf b) s) (unlock L_bcache)))"

section \<open>Well-formed caches\<close>

text \<open>
  Every buffer is on the list once; a sector has at most one buffer; a buffer that is not
  busy is a copy of its sector unless it is marked dirty.
\<close>

definition bc_inv :: "'a disk_st_scheme \<Rightarrow> bool" where
  "bc_inv s \<longleftrightarrow> length (bufs s) = NBUF \<and> distinct (lru s) \<and> set (lru s) = {0..<NBUF} \<and>
     (\<forall>d\<in>set (disk s). length d = BSIZE) \<and>
     (\<forall>b<NBUF. length (b_data (bufs s ! b)) = BSIZE) \<and>
     (\<forall>b<NBUF. \<forall>c<NBUF. b_dev (bufs s ! b) = 1 \<and> b_dev (bufs s ! c) = 1 \<and>
        b_sector (bufs s ! b) = b_sector (bufs s ! c) \<longrightarrow> b = c) \<and>
     (\<forall>b<NBUF. b_valid (bufs s ! b) \<longrightarrow> b_dev (bufs s ! b) = 1 \<and> unat (b_sector (bufs s ! b)) < length (disk s)) \<and>
     (\<forall>b<NBUF. b_dirty (bufs s ! b) \<or> b_busy (bufs s ! b) \<longrightarrow> b_valid (bufs s ! b)) \<and>
     (\<forall>b<NBUF. b_valid (bufs s ! b) \<and> \<not> b_dirty (bufs s ! b) \<and> \<not> b_busy (bufs s ! b) \<longrightarrow>
        b_data (bufs s ! b) = disk s ! unat (b_sector (bufs s ! b)))"

text \<open>What a reader of the cache sees in a sector.\<close>

definition sec_view :: "'a disk_st_scheme \<Rightarrow> u32 \<Rightarrow> byte list" where
  "sec_view s n = (case cached 1 n s of
     Some b \<Rightarrow> if b_valid (bufs s ! b) then b_data (bufs s ! b) else disk s ! unat n
   | None \<Rightarrow> disk s ! unat n)"

text \<open>The buffers that can be recycled.\<close>

definition free_bufs :: "'a disk_st_scheme \<Rightarrow> nat set" where
  "free_bufs s = {b. b < NBUF \<and> \<not> b_busy (bufs s ! b) \<and> \<not> b_dirty (bufs s ! b)}"

lemma bc_invD:
  assumes "bc_inv s"
  shows "length (bufs s) = NBUF" "distinct (lru s)" "set (lru s) = {0..<NBUF}"
    "d \<in> set (disk s) \<Longrightarrow> length d = BSIZE" "n < length (disk s) \<Longrightarrow> length (disk s ! n) = BSIZE"
    "b < NBUF \<Longrightarrow> length (b_data (bufs s ! b)) = BSIZE"
    "b < NBUF \<Longrightarrow> c < NBUF \<Longrightarrow> b_dev (bufs s ! b) = 1 \<Longrightarrow> b_dev (bufs s ! c) = 1 \<Longrightarrow>
       b_sector (bufs s ! b) = b_sector (bufs s ! c) \<Longrightarrow> b = c"
    "b < NBUF \<Longrightarrow> b_valid (bufs s ! b) \<Longrightarrow> b_dev (bufs s ! b) = 1"
    "b < NBUF \<Longrightarrow> b_valid (bufs s ! b) \<Longrightarrow> unat (b_sector (bufs s ! b)) < length (disk s)"
    "b < NBUF \<Longrightarrow> b_dirty (bufs s ! b) \<Longrightarrow> b_valid (bufs s ! b)"
    "b < NBUF \<Longrightarrow> b_valid (bufs s ! b) \<Longrightarrow> \<not> b_dirty (bufs s ! b) \<Longrightarrow> \<not> b_busy (bufs s ! b) \<Longrightarrow>
       b_data (bufs s ! b) = disk s ! unat (b_sector (bufs s ! b))"
    "b < NBUF \<Longrightarrow> b_busy (bufs s ! b) \<Longrightarrow> b_valid (bufs s ! b)"
  using assms unfolding bc_inv_def by (simp_all add: nth_mem)

lemma find_unique:
  "(\<And>b c. b \<in> set xs \<Longrightarrow> c \<in> set xs \<Longrightarrow> P b \<Longrightarrow> P c \<Longrightarrow> b = c) \<Longrightarrow> List.find P xs = Some b \<longleftrightarrow> b \<in> set xs \<and> P b"
  by (induction xs) auto

lemma cached_Some:
  "bc_inv s \<Longrightarrow> cached 1 n s = Some b \<longleftrightarrow> b < NBUF \<and> b_dev (bufs s ! b) = 1 \<and> b_sector (bufs s ! b) = n"
  unfolding cached_def by (subst find_unique) (auto simp: bc_invD(3) dest: bc_invD(7))

lemma cached_None:
  "bc_inv s \<Longrightarrow> cached 1 n s = None \<longleftrightarrow> (\<forall>b<NBUF. \<not> (b_dev (bufs s ! b) = 1 \<and> b_sector (bufs s ! b) = n))"
  by (auto simp: cached_def find_None_iff bc_invD(3))

lemma find_SomeD: "List.find P xs = Some x \<Longrightarrow> x \<in> set xs \<and> P x"
  by (induction xs) (auto split: if_splits)

lemma recyclable_Some: "bc_inv s \<Longrightarrow> recyclable s = Some b \<Longrightarrow> b \<in> free_bufs s"
  unfolding recyclable_def by (drule find_SomeD) (simp add: free_bufs_def bc_invD(3))

lemma recyclable_None: "bc_inv s \<Longrightarrow> recyclable s = None \<longleftrightarrow> free_bufs s = {}"
  by (auto simp: recyclable_def free_bufs_def find_None_iff bc_invD(3))

lemma sec_view_cached:
  assumes "bc_inv s" "b < NBUF" "b_valid (bufs s ! b)"
  shows "sec_view s (b_sector (bufs s ! b)) = b_data (bufs s ! b)"
proof -
  have "cached 1 (b_sector (bufs s ! b)) s = Some b"
    using assms by (simp add: cached_Some bc_invD(8))
  then show ?thesis using assms(3) by (simp add: sec_view_def)
qed

lemma sec_view_length: "bc_inv s \<Longrightarrow> unat n < length (disk s) \<Longrightarrow> length (sec_view s n) = BSIZE"
  by (auto simp: sec_view_def cached_Some bc_invD split: option.splits)

section \<open>Reading, writing and releasing a sector\<close>

text \<open>The state in which buffer \<open>b\<close> has been obtained for a sector.\<close>

definition loaded :: "nat \<Rightarrow> u32 \<Rightarrow> 'a disk_st_scheme \<Rightarrow> 'a disk_st_scheme" where
  "loaded b n s = upd_buf b (\<lambda>x. \<lparr>b_busy = True, b_valid = True, b_dirty = b_dirty x, b_dev = 1,
     b_sector = n, b_data = sec_view s n\<rparr>) s"

definition slot :: "nat \<Rightarrow> u32 \<Rightarrow> 'a disk_st_scheme \<Rightarrow> bool" where
  "slot b n s \<longleftrightarrow> b < NBUF \<and> \<not> b_busy (bufs s ! b) \<and>
     (cached 1 n s = Some b \<or> cached 1 n s = None \<and> b \<in> free_bufs s)"

text \<open>A sector can be read without waiting.\<close>

definition obtainable :: "u32 \<Rightarrow> 'a disk_st_scheme \<Rightarrow> bool" where
  "obtainable n s \<longleftrightarrow> (case cached 1 n s of Some b \<Rightarrow> \<not> b_busy (bufs s ! b) | None \<Rightarrow> free_bufs s \<noteq> {})"

lemma upd_buf_simps [simp]:
  "held (upd_buf b f s) = held s" "disk (upd_buf b f s) = disk s" "lru (upd_buf b f s) = lru s"
  "procs (upd_buf b f s) = procs s" "dwrites (upd_buf b f s) = dwrites s" "cur (upd_buf b f s) = cur s"
  "bufs (upd_buf b f s) = (bufs s)[b := f (bufs s ! b)]"
  by (simp_all add: upd_buf_def)

lemma upd_buf_upd_buf:
  "b < length (bufs s) \<Longrightarrow> upd_buf b f (upd_buf b g s) = upd_buf b (\<lambda>x. f (g x)) s"
  by (simp add: upd_buf_def)

lemma upd_buf_cong: "f (bufs s ! b) = g (bufs s ! b) \<Longrightarrow> upd_buf b f s = upd_buf b g s"
  by (simp add: upd_buf_def)

lemma bread_loaded:
  assumes inv: "bc_inv s" and lk: "L_bcache \<notin> set (held s)" and n: "unat n < length (disk s)"
    and obt: "obtainable n s"
  shows "\<exists>b. slot b n s \<and> bread 1 n (s, env) = Ok (b, loaded b n s, env)"
proof (cases "cached 1 n s")
  case (Some b)
  have nb: "\<not> b_busy (bufs s ! b)" using obt Some by (simp add: obtainable_def)
  with Some have b: "b < NBUF" "b_dev (bufs s ! b) = 1" "b_sector (bufs s ! b) = n" "\<not> b_busy (bufs s ! b)"
    using inv by (simp_all add: cached_Some)
  have len: "b < length (bufs s)" using b(1) inv by (simp add: bc_invD)
  have c: "cached 1 n (s\<lparr>held := L_bcache # held s\<rparr>) = Some b" using Some by (simp add: cached_def)
  have get: "bget 1 n (s, env) = Ok (b, upd_buf b (\<lambda>x. x\<lparr>b_busy := True\<rparr>) s, env)"
    using c b lk by (simp add: bget_def upd_buf_def)
  have "bread 1 n (s, env) = Ok (b, loaded b n s, env)"
  proof (cases "b_valid (bufs s ! b)")
    case True
    then have "sec_view s n = b_data (bufs s ! b)" using sec_view_cached [OF inv b(1) True] b(3) by simp
    then show ?thesis using True b len unfolding bread_def
      by (simp add: thn_run get loaded_def) (auto intro!: upd_buf_cong buf.equality)
  next
    case False
    then have "sec_view s n = disk s ! unat n" "\<not> b_dirty (bufs s ! b)"
      using Some bc_invD(10) [OF inv b(1)] by (auto simp: sec_view_def)
    then show ?thesis using False b len n unfolding bread_def
      by (simp add: thn_run get loaded_def iderw_def Let_def upd_buf_upd_buf) (auto intro!: upd_buf_cong buf.equality)
  qed
  moreover have "slot b n s" using Some b by (simp add: slot_def)
  ultimately show ?thesis by blast
next
  case None
  then have "free_bufs s \<noteq> {}" using obt by (simp add: obtainable_def)
  then obtain b where r: "recyclable s = Some b" using recyclable_None [OF inv] by (cases "recyclable s") auto
  then have fr: "b \<in> free_bufs s" using inv by (rule recyclable_Some [rotated])
  then have b: "b < NBUF" "\<not> b_busy (bufs s ! b)" "\<not> b_dirty (bufs s ! b)" by (auto simp: free_bufs_def)
  have len: "b < length (bufs s)" using b(1) inv by (simp add: bc_invD)
  have c: "cached 1 n (s\<lparr>held := L_bcache # held s\<rparr>) = None" using None by (simp add: cached_def)
  have r': "recyclable (s\<lparr>held := L_bcache # held s\<rparr>) = Some b" using r by (simp add: recyclable_def)
  have get: "bget 1 n (s, env) = Ok (b, upd_buf b (\<lambda>x. x\<lparr>b_dev := 1, b_sector := n, b_busy := True, b_valid := False, b_dirty := False\<rparr>) s, env)"
    using c r' lk by (simp add: bget_def upd_buf_def)
  have "sec_view s n = disk s ! unat n" using None by (simp add: sec_view_def)
  then have "bread 1 n (s, env) = Ok (b, loaded b n s, env)" using b len n unfolding bread_def
    by (simp add: thn_run get loaded_def iderw_def Let_def upd_buf_upd_buf) (auto intro!: upd_buf_cong buf.equality)
  moreover have "slot b n s" using None b fr by (simp add: slot_def)
  ultimately show ?thesis by blast
qed

lemma loaded_simps [simp]:
  "held (loaded b n s) = held s" "disk (loaded b n s) = disk s" "lru (loaded b n s) = lru s"
  "procs (loaded b n s) = procs s" "dwrites (loaded b n s) = dwrites s" "cur (loaded b n s) = cur s"
  by (simp_all add: loaded_def)

lemma bufs_loaded:
  "bufs (loaded b n s) = (bufs s)[b := \<lparr>b_busy = True, b_valid = True, b_dirty = b_dirty (bufs s ! b), b_dev = 1,
     b_sector = n, b_data = sec_view s n\<rparr>]"
  by (simp add: loaded_def)

lemma slot_key:
  assumes "bc_inv s" "slot b n s" "c < NBUF" "b_dev (bufs s ! c) = 1" "b_sector (bufs s ! c) = n"
  shows "c = b"
proof -
  have "cached 1 n s = Some c" using assms by (simp add: cached_Some)
  then show ?thesis using assms(2) by (auto simp: slot_def)
qed

lemma slot_dirty:
  assumes "bc_inv s" "slot b n s" "b_dirty (bufs s ! b)"
  shows "b_sector (bufs s ! b) = n" "b_valid (bufs s ! b)"
  using assms by (auto simp: slot_def cached_Some free_bufs_def bc_invD(10))

lemma nth_upd_buf:
  "b < length (bufs s) \<Longrightarrow> bufs (upd_buf b f s) ! c = (if c = b then f (bufs s ! b) else bufs s ! c)"
  by simp

lemma upd_buf_inv:
  assumes inv: "bc_inv s" and b: "b < NBUF" and len: "length (b_data (f (bufs s ! b))) = BSIZE"
    and key: "\<And>c. c < NBUF \<Longrightarrow> c \<noteq> b \<Longrightarrow> b_dev (f (bufs s ! b)) = 1 \<Longrightarrow> b_dev (bufs s ! c) = 1 \<Longrightarrow>
       b_sector (bufs s ! c) \<noteq> b_sector (f (bufs s ! b))"
    and valid: "b_valid (f (bufs s ! b)) \<Longrightarrow> b_dev (f (bufs s ! b)) = 1 \<and> unat (b_sector (f (bufs s ! b))) < length (disk s)"
    and dirty: "b_dirty (f (bufs s ! b)) \<or> b_busy (f (bufs s ! b)) \<Longrightarrow> b_valid (f (bufs s ! b))"
    and clean: "b_valid (f (bufs s ! b)) \<Longrightarrow> \<not> b_dirty (f (bufs s ! b)) \<Longrightarrow> \<not> b_busy (f (bufs s ! b)) \<Longrightarrow>
       b_data (f (bufs s ! b)) = disk s ! unat (b_sector (f (bufs s ! b)))"
  shows "bc_inv (upd_buf b f s)"
proof -
  have nth: "bufs (upd_buf b f s) ! c = (if c = b then f (bufs s ! b) else bufs s ! c)" for c
    using inv b by (intro nth_upd_buf) (simp add: bc_invD)
  have "\<forall>x<NBUF. \<forall>c<NBUF. b_dev (bufs (upd_buf b f s) ! x) = 1 \<and> b_dev (bufs (upd_buf b f s) ! c) = 1 \<and>
      b_sector (bufs (upd_buf b f s) ! x) = b_sector (bufs (upd_buf b f s) ! c) \<longrightarrow> x = c"
    unfolding nth using bc_invD(7) [OF inv] key by (simp split: if_split) metis
  moreover have "\<forall>c<NBUF. b_valid (bufs (upd_buf b f s) ! c) \<longrightarrow> b_dev (bufs (upd_buf b f s) ! c) = 1 \<and>
      unat (b_sector (bufs (upd_buf b f s) ! c)) < length (disk s)"
    unfolding nth using bc_invD(8,9) [OF inv] valid by (simp split: if_split)
  moreover have "\<forall>c<NBUF. b_valid (bufs (upd_buf b f s) ! c) \<and> \<not> b_dirty (bufs (upd_buf b f s) ! c) \<and>
      \<not> b_busy (bufs (upd_buf b f s) ! c) \<longrightarrow> b_data (bufs (upd_buf b f s) ! c) = disk s ! unat (b_sector (bufs (upd_buf b f s) ! c))"
    unfolding nth using bc_invD(11) [OF inv] clean by (simp split: if_split)
  moreover have "\<forall>c<NBUF. b_dirty (bufs (upd_buf b f s) ! c) \<or> b_busy (bufs (upd_buf b f s) ! c) \<longrightarrow> b_valid (bufs (upd_buf b f s) ! c)"
    "\<forall>c<NBUF. length (b_data (bufs (upd_buf b f s) ! c)) = BSIZE"
    unfolding nth using bc_invD(6,10,12) [OF inv] dirty len by (auto split: if_split)
  ultimately show ?thesis
    using bc_invD(1-4) [OF inv] unfolding bc_inv_def by (simp del: upd_buf_simps(7)) (simp only: upd_buf_simps length_list_update bc_invD(1) [OF inv])
qed

lemma upd_buf_inv_same:
  assumes inv: "bc_inv s" and b: "b < NBUF" and "length (b_data (f (bufs s ! b))) = BSIZE"
    and same: "b_dev (f (bufs s ! b)) = b_dev (bufs s ! b)" "b_sector (f (bufs s ! b)) = b_sector (bufs s ! b)"
    and "b_valid (f (bufs s ! b)) = b_valid (bufs s ! b)"
    and "b_dirty (f (bufs s ! b)) \<or> b_busy (f (bufs s ! b)) \<Longrightarrow> b_valid (bufs s ! b)"
    and "b_valid (bufs s ! b) \<Longrightarrow> \<not> b_dirty (f (bufs s ! b)) \<Longrightarrow> \<not> b_busy (f (bufs s ! b)) \<Longrightarrow>
       b_data (f (bufs s ! b)) = disk s ! unat (b_sector (bufs s ! b))"
  shows "bc_inv (upd_buf b f s)"
proof (rule upd_buf_inv [OF inv b])
  fix c assume "c < NBUF" "c \<noteq> b" "b_dev (f (bufs s ! b)) = 1" "b_dev (bufs s ! c) = 1"
  then show "b_sector (bufs s ! c) \<noteq> b_sector (f (bufs s ! b))"
    using bc_invD(7) [OF inv, of c b] b unfolding same by blast
qed (use assms bc_invD(8,9) [OF inv b] in auto)

lemma cached_eqI:
  assumes "bc_inv s" "bc_inv s'"
    and "\<And>c. c < NBUF \<Longrightarrow> b_dev (bufs s' ! c) = 1 \<and> b_sector (bufs s' ! c) = m \<longleftrightarrow> b_dev (bufs s ! c) = 1 \<and> b_sector (bufs s ! c) = m"
  shows "cached 1 m s' = cached 1 m s"
proof (cases "cached 1 m s")
  case None
  then have "cached 1 m s' = None" using assms by (simp add: cached_None)
  then show ?thesis using None by simp
next
  case (Some c)
  then have "cached 1 m s' = Some c" using assms by (simp add: cached_Some)
  then show ?thesis using Some by simp
qed

lemma bc_inv_loaded:
  assumes inv: "bc_inv s" and b: "slot b n s" and n: "unat n < length (disk s)"
  shows "bc_inv (loaded b n s)"
proof -
  have blt: "b < NBUF" "b < length (bufs s)" using b inv by (auto simp: slot_def bc_invD)
  show ?thesis unfolding loaded_def
    using assms blt sec_view_length [OF inv n] by (intro upd_buf_inv) (auto dest: slot_key)
qed

lemma sec_view_loaded:
  assumes inv: "bc_inv s" and b: "slot b n s" and n: "unat n < length (disk s)"
  shows "sec_view (loaded b n s) = sec_view s"
proof
  fix m
  have inv': "bc_inv (loaded b n s)" using assms by (rule bc_inv_loaded)
  have blt: "b < NBUF" "b < length (bufs s)" "\<not> b_busy (bufs s ! b)" using b inv by (auto simp: slot_def bc_invD)
  show "sec_view (loaded b n s) m = sec_view s m"
  proof (cases "m = n")
    case True
    then show ?thesis using sec_view_cached [OF inv' blt(1)] blt by (simp add: bufs_loaded)
  next
    case False
    show ?thesis
    proof (cases "cached 1 m s = Some b")
      case True
      then have m: "b_sector (bufs s ! b) = m" using inv by (simp add: cached_Some)
      then have clean: "\<not> b_dirty (bufs s ! b)" using slot_dirty(1) [OF inv b] False by auto
      have "cached 1 m (loaded b n s) = None"
        using inv inv' m False blt True
        by (simp add: cached_None cached_Some bufs_loaded nth_list_update) (metis bc_invD(7))
      then show ?thesis
        using True m clean blt bc_invD(11) [OF inv blt(1)] by (auto simp: sec_view_def)
    next
      case other: False
      have "cached 1 m (loaded b n s) = cached 1 m s"
        using other False inv blt by (intro cached_eqI [OF inv inv']) (auto simp: bufs_loaded nth_list_update cached_Some)
      then show ?thesis using other blt by (auto simp: sec_view_def bufs_loaded nth_list_update split: option.splits)
    qed
  qed
qed

text \<open>Changes a process makes to the data of a buffer it has obtained.\<close>

definition set_data :: "nat \<Rightarrow> byte list \<Rightarrow> 'a disk_st_scheme \<Rightarrow> 'a disk_st_scheme" where
  "set_data b d s = upd_buf b (\<lambda>x. x\<lparr>b_data := d\<rparr>) s"

lemma set_data_inv:
  assumes "bc_inv s" "b < NBUF" "b_busy (bufs s ! b)" "length d = BSIZE"
  shows "bc_inv (set_data b d s)"
  unfolding set_data_def by (rule upd_buf_inv_same) (use assms bc_invD(10,12) [OF assms(1,2)] in simp_all)

lemma sec_view_set_data:
  assumes "bc_inv s" "b < NBUF" "b_valid (bufs s ! b)" "b_busy (bufs s ! b)" "length d = BSIZE"
  shows "sec_view (set_data b d s) = (sec_view s)(b_sector (bufs s ! b) := d)"
proof
  fix m
  have len: "b < length (bufs s)" using assms by (simp add: bc_invD)
  have "cached 1 m (set_data b d s) = cached 1 m s"
    using assms(1) set_data_inv [OF assms(1,2,4,5)] len by (intro cached_eqI) (auto simp: set_data_def nth_list_update)
  moreover have "cached 1 (b_sector (bufs s ! b)) s = Some b" using assms by (simp add: cached_Some bc_invD(8))
  moreover have "cached 1 m s = Some b \<Longrightarrow> m = b_sector (bufs s ! b)" using assms(1) by (simp add: cached_Some)
  ultimately show "sec_view (set_data b d s) m = ((sec_view s)(b_sector (bufs s ! b) := d)) m"
    using assms(3) len by (cases "cached 1 m s") (auto simp: sec_view_def set_data_def nth_list_update)
qed

text \<open>Releasing a buffer.\<close>

definition released :: "nat \<Rightarrow> 'a disk_st_scheme \<Rightarrow> 'a disk_st_scheme" where
  "released b s = wakeup1 (Ch_buf b) (upd_buf b (\<lambda>x. x\<lparr>b_busy := False\<rparr>) (s\<lparr>lru := b # remove1 b (lru s)\<rparr>))"

lemma wakeup1_simps [simp]:
  "held (wakeup1 ch s) = held s" "cur (wakeup1 ch s) = cur s" "length (procs (wakeup1 ch s)) = length (procs s)"
  "disk (wakeup1 ch d) = disk d" "lru (wakeup1 ch d) = lru d" "bufs (wakeup1 ch d) = bufs d" "dwrites (wakeup1 ch d) = dwrites d"
  by (simp_all add: wakeup1_def)

lemma brelse_released:
  assumes "b_busy (bufs s ! b)" "L_bcache \<notin> set (held s)" "L_ptable \<notin> set (held s)"
  shows "brelse b s = Ok (released b s)"
  using assms by (simp add: brelse_def released_def wakeup_def wakeup1_def upd_buf_def Let_def)

lemma released_simps [simp]:
  "held (released b s) = held s" "disk (released b s) = disk s" "dwrites (released b s) = dwrites s"
  "bufs (released b s) = (bufs s)[b := (bufs s ! b)\<lparr>b_busy := False\<rparr>]" "lru (released b s) = b # remove1 b (lru s)"
  "cur (released b s) = cur s"
  by (simp_all add: released_def)

lemma released_inv:
  assumes inv: "bc_inv s" and b: "b < NBUF"
    and "b_valid (bufs s ! b) \<Longrightarrow> \<not> b_dirty (bufs s ! b) \<Longrightarrow> b_data (bufs s ! b) = disk s ! unat (b_sector (bufs s ! b))"
  shows "bc_inv (released b s)"
proof -
  have "bc_inv (upd_buf b (\<lambda>x. x\<lparr>b_busy := False\<rparr>) s)"
    by (rule upd_buf_inv_same) (use assms bc_invD(6,10,12) [OF assms(1,2)] in simp_all)
  moreover have "distinct (b # remove1 b (lru s))" "set (b # remove1 b (lru s)) = {0..<NBUF}"
    using b by (simp_all add: bc_invD(2,3) [OF inv] insert_absorb)
  ultimately show ?thesis unfolding bc_inv_def released_simps upd_buf_simps by blast
qed

lemma sec_view_released:
  assumes "bc_inv s" "b < NBUF" "bc_inv (released b s)"
  shows "sec_view (released b s) = sec_view s"
proof
  fix m
  have "cached 1 m (released b s) = cached 1 m s"
    using assms(1,2) by (intro cached_eqI [OF assms(1,3)]) (auto simp: nth_list_update bc_invD)
  then show "sec_view (released b s) m = sec_view s m"
    using assms by (auto simp: sec_view_def nth_list_update bc_invD split: option.splits)
qed

text \<open>Writing a buffer to disk, and marking it dirty so that it is not recycled.\<close>

definition written :: "nat \<Rightarrow> 'a disk_st_scheme \<Rightarrow> 'a disk_st_scheme" where
  "written b s = (let x = bufs s ! b; n = unat (b_sector x) in
     upd_buf b (\<lambda>x. x\<lparr>b_dirty := False\<rparr>) (s\<lparr>disk := (disk s)[n := b_data x], dwrites := dwrites s @ [(n, b_data x)]\<rparr>))"

definition pinned :: "nat \<Rightarrow> 'a disk_st_scheme \<Rightarrow> 'a disk_st_scheme" where
  "pinned b s = upd_buf b (\<lambda>x. x\<lparr>b_dirty := True\<rparr>) s"

lemma bwrite_written:
  assumes "bc_inv s" "b < NBUF" "b_busy (bufs s ! b)" "b_valid (bufs s ! b)"
  shows "bwrite b s = Ok (written b s)"
proof -
  have "b < length (bufs s)" using assms by (simp add: bc_invD(1))
  then have "bwrite b s = Ok (upd_buf b (\<lambda>x. x\<lparr>b_dirty := False, b_valid := True\<rparr>)
      (s\<lparr>disk := (disk s)[unat (b_sector (bufs s ! b)) := b_data (bufs s ! b)],
         dwrites := dwrites s @ [(unat (b_sector (bufs s ! b)), b_data (bufs s ! b))]\<rparr>))"
    using assms(3,4) bc_invD(8,9) [OF assms(1,2,4)]
    by (simp add: bwrite_def iderw_def Let_def upd_buf_def)
  also have "\<dots> = Ok (written b s)"
    unfolding written_def Let_def by (simp, rule upd_buf_cong) (use assms(4) in \<open>auto intro: buf.equality\<close>)
  finally show ?thesis .
qed

lemma written_simps [simp]:
  "held (written b s) = held s" "lru (written b s) = lru s" "procs (written b s) = procs s" "cur (written b s) = cur s"
  "disk (written b s) = (disk s)[unat (b_sector (bufs s ! b)) := b_data (bufs s ! b)]"
  "dwrites (written b s) = dwrites s @ [(unat (b_sector (bufs s ! b)), b_data (bufs s ! b))]"
  "bufs (written b s) = (bufs s)[b := (bufs s ! b)\<lparr>b_dirty := False\<rparr>]"
  by (simp_all add: written_def Let_def)

lemma written_inv:
  assumes inv: "bc_inv s" and b: "b < NBUF" "b_busy (bufs s ! b)" "b_valid (bufs s ! b)"
  shows "bc_inv (written b s)"
proof -
  let ?n = "b_sector (bufs s ! b)" and ?d = "b_data (bufs s ! b)"
  have i1: "bc_inv (upd_buf b (\<lambda>x. x\<lparr>b_dirty := False\<rparr>) s)"
    by (rule upd_buf_inv_same) (use assms bc_invD(6) [OF inv b(1)] in simp_all)
  have len: "b < length (bufs s)" using inv b by (simp add: bc_invD(1))
  have other: "unat (b_sector (bufs s ! c)) \<noteq> unat ?n" if "c < NBUF" "c \<noteq> b" "b_valid (bufs s ! c)" for c
    using bc_invD(7) [OF inv that(1) b(1)] bc_invD(8) [OF inv that(1,3)] bc_invD(8) [OF inv b(1,3)] that(2)
    by (auto simp flip: word_unat_eq_iff)
  have "b_data (bufs (written b s) ! c) = disk (written b s) ! unat (b_sector (bufs (written b s) ! c))"
    if "c < NBUF" "b_valid (bufs (written b s) ! c)" "\<not> b_dirty (bufs (written b s) ! c)" "\<not> b_busy (bufs (written b s) ! c)" for c
  proof (cases "c = b")
    case True
    then show ?thesis using that b len by simp
  next
    case False
    then show ?thesis using that other [of c] bc_invD(11) [OF inv that(1)] by simp
  qed
  moreover have "\<forall>d\<in>set ((disk s)[unat ?n := ?d]). length d = BSIZE"
    using bc_invD(4) [OF inv] bc_invD(6) [OF inv b(1)] by (auto dest: set_update_subset_insert [THEN subsetD])
  ultimately show ?thesis
    using i1 unfolding bc_inv_def written_simps upd_buf_simps length_list_update by blast
qed

lemma sec_view_written:
  assumes inv: "bc_inv s" and b: "b < NBUF" "b_busy (bufs s ! b)" "b_valid (bufs s ! b)"
  shows "sec_view (written b s) = sec_view s"
proof
  fix m
  have len: "b < length (bufs s)" using inv b by (simp add: bc_invD(1))
  have c: "cached 1 m (written b s) = cached 1 m s"
    using len by (intro cached_eqI [OF inv written_inv [OF assms]]) (auto simp: nth_list_update)
  show "sec_view (written b s) m = sec_view s m"
  proof (cases "m = b_sector (bufs s ! b)")
    case True
    then have "cached 1 m s = Some b" using inv b by (simp add: cached_Some bc_invD(8))
    then show ?thesis using c b len by (simp add: sec_view_def)
  next
    case False
    then have "unat m \<noteq> unat (b_sector (bufs s ! b))" by (simp flip: word_unat_eq_iff)
    moreover have "cached 1 m s \<noteq> Some b" using False inv by (simp add: cached_Some)
    ultimately show ?thesis using c b len
      by (cases "cached 1 m s") (auto simp: sec_view_def nth_list_update)
  qed
qed

lemma pinned_inv:
  assumes inv: "bc_inv s" and b: "b < NBUF" "b_valid (bufs s ! b)"
  shows "bc_inv (pinned b s)" "sec_view (pinned b s) = sec_view s"
proof -
  show i: "bc_inv (pinned b s)" unfolding pinned_def
    by (rule upd_buf_inv_same) (use assms bc_invD(6) [OF inv b(1)] in simp_all)
  have len: "b < length (bufs s)" using inv b by (simp add: bc_invD(1))
  then have "cached 1 m (pinned b s) = cached 1 m s" for m
    by (intro cached_eqI [OF inv i]) (auto simp: pinned_def nth_list_update)
  then show "sec_view (pinned b s) = sec_view s"
    using len by (auto simp: fun_eq_iff sec_view_def pinned_def nth_list_update split: option.split)
qed

lemma pinned_simps [simp]:
  "held (pinned b s) = held s" "disk (pinned b s) = disk s" "lru (pinned b s) = lru s"
  "procs (pinned b s) = procs s" "dwrites (pinned b s) = dwrites s" "cur (pinned b s) = cur s"
  "bufs (pinned b s) = (bufs s)[b := (bufs s ! b)\<lparr>b_dirty := True\<rparr>]"
  by (simp_all add: pinned_def)

lemma set_data_simps [simp]:
  "held (set_data b d s) = held s" "disk (set_data b d s) = disk s" "lru (set_data b d s) = lru s"
  "procs (set_data b d s) = procs s" "dwrites (set_data b d s) = dwrites s" "cur (set_data b d s) = cur s"
  "bufs (set_data b d s) = (bufs s)[b := (bufs s ! b)\<lparr>b_data := d\<rparr>]"
  by (simp_all add: set_data_def)

text \<open>The recyclable buffers after each step.\<close>

lemma free_bufs_steps:
  assumes "bc_inv s" "b < NBUF"
  shows "free_bufs (loaded b n s) = free_bufs s - {b}" "free_bufs (set_data b d s) = free_bufs s"
    "b_busy (bufs s ! b) \<Longrightarrow> free_bufs (written b s) = free_bufs s"
    "b_busy (bufs s ! b) \<Longrightarrow> free_bufs (pinned b s) = free_bufs s"
    "free_bufs (released b s) = (if b_dirty (bufs s ! b) then free_bufs s - {b} else insert b (free_bufs s))"
  using assms by (auto simp: free_bufs_def bufs_loaded nth_list_update bc_invD(1) split: if_splits)

section \<open>Properties\<close>

text \<open>A booted machine: an empty cache over a disk.\<close>

definition zero_buf :: buf where
  "zero_buf = \<lparr>b_busy = False, b_valid = False, b_dirty = False, b_dev = 0, b_sector = 0, b_data = replicate BSIZE 0\<rparr>"

definition cold :: "byte list list \<Rightarrow> 'a disk_st_scheme \<Rightarrow> 'a disk_st_scheme" where
  "cold img s = binit (ideinit img (s\<lparr>bufs := replicate NBUF zero_buf, dwrites := []\<rparr>))"

definition demo_disk :: "byte list list \<Rightarrow> disk_st" where
  "demo_disk img = cold img (proc_st.extend (demo_st []) (disk_st.fields [] [] [] []))"

lemma fold_Cons_rev: "fold (\<lambda>b l. b # l) xs ys = rev xs @ ys"
  by (induction xs arbitrary: ys) auto

lemma cold_simps [simp]:
  "held (cold img s) = held s" "disk (cold img s) = img" "dwrites (cold img s) = []" "cur (cold img s) = cur s"
  "lru (cold img s) = rev [0..<NBUF]" "b < NBUF \<Longrightarrow> bufs (cold img s) ! b = zero_buf\<lparr>b_dev := -1\<rparr>"
  "length (bufs (cold img s)) = NBUF"
  by (simp_all add: cold_def binit_def ideinit_def fold_Cons_rev)

lemma cold_inv: "\<forall>d\<in>set img. length d = BSIZE \<Longrightarrow> bc_inv (cold img s)"
  by (auto simp: bc_inv_def zero_buf_def)

lemma cold_view:
  assumes "\<forall>d\<in>set img. length d = BSIZE"
  shows "sec_view (cold img s) n = img ! unat n" "obtainable n (cold img s)" "free_bufs (cold img s) = {0..<NBUF}"
proof -
  have "cached 1 n (cold img s) = None"
    using cold_inv [OF assms, of s] by (simp add: cached_None zero_buf_def)
  moreover show "free_bufs (cold img s) = {0..<NBUF}" by (auto simp: free_bufs_def zero_buf_def)
  ultimately show "sec_view (cold img s) n = img ! unat n" "obtainable n (cold img s)"
    by (simp_all add: sec_view_def obtainable_def NBUF_def)
qed

lemma demo_disk_simps [simp]: "held (demo_disk img) = []" "disk (demo_disk img) = img" "cur (demo_disk img) = None"
  by (simp_all add: demo_disk_def demo_st_def proc_st.defs disk_st.defs)

text \<open>C19: reading a sector through the cache gives the caller alone a buffer with the sector's
  current contents, changes no sector and no disk block, and does not wait, as long as the sector's
  buffer is not in use and, if it has none, some buffer is clean and idle.\<close>

theorem bread_current_contents:
  assumes "bc_inv s" "held s = []" "unat n < length (disk s)" "obtainable n s"
  shows "returns (bread 1 n (s, env)) (\<lambda>(b, s', env'). env' = env \<and> b < NBUF \<and>
     \<not> b_busy (bufs s ! b) \<and> b_busy (bufs s' ! b) \<and> b_data (bufs s' ! b) = sec_view s n \<and>
     bc_inv s' \<and> sec_view s' = sec_view s \<and> disk s' = disk s \<and> (\<forall>c. c \<noteq> b \<longrightarrow> bufs s' ! c = bufs s ! c))"
proof -
  obtain b where b: "slot b n s" "bread 1 n (s, env) = Ok (b, loaded b n s, env)"
    using bread_loaded [of s n env] assms by auto
  then show ?thesis
    using assms bc_inv_loaded [OF assms(1) b(1) assms(3)] sec_view_loaded [OF assms(1) b(1) assms(3)]
    by (auto simp: slot_def bufs_loaded bc_invD(1))
qed

theorem bread_current_contents_witness:
  "returns (bread 1 1 (demo_disk [replicate 512 7, replicate 512 8], []))
     (\<lambda>(b, s', env'). b_data (bufs s' ! b) = replicate 512 8)"
proof -
  let ?img = "[replicate 512 7, replicate 512 8] :: byte list list"
  have img: "\<forall>d\<in>set ?img. length d = BSIZE" by (simp add: BSIZE_def)
  have "bc_inv (demo_disk ?img)" "obtainable 1 (demo_disk ?img)" "sec_view (demo_disk ?img) 1 = replicate 512 8"
    unfolding demo_disk_def by (rule cold_inv [OF img], rule cold_view(2) [OF img], subst cold_view(1) [OF img]) simp
  with bread_current_contents [of "demo_disk ?img" 1 "[]"] show ?thesis
    by (auto simp: returns_iff)
qed

section \<open>Busy and dirty sectors\<close>

text \<open>
  The sectors whose buffers are in use, and those whose buffers wait to be written: the
  summary of the cache's state that its clients reason with.
\<close>

definition busy_secs :: "'a disk_st_scheme \<Rightarrow> u32 set" where
  "busy_secs s = {b_sector (bufs s ! b) | b. b < NBUF \<and> b_busy (bufs s ! b) \<and> b_dev (bufs s ! b) = 1}"

definition dirty_secs :: "'a disk_st_scheme \<Rightarrow> u32 set" where
  "dirty_secs s = {b_sector (bufs s ! b) | b. b < NBUF \<and> b_dirty (bufs s ! b)}"

definition has_buf :: "nat \<Rightarrow> u32 \<Rightarrow> 'a disk_st_scheme \<Rightarrow> bool" where
  "has_buf b n s \<longleftrightarrow> b < NBUF \<and> b_busy (bufs s ! b) \<and> b_valid (bufs s ! b) \<and> b_sector (bufs s ! b) = n"

lemma obtainableI:
  assumes inv: "bc_inv s" and "n \<notin> busy_secs s" "n \<in> dirty_secs s \<or> free_bufs s \<noteq> {}"
  shows "obtainable n s"
proof (cases "cached 1 n s")
  case None
  have "n \<notin> dirty_secs s"
  proof
    assume "n \<in> dirty_secs s"
    then obtain b where "b < NBUF" "b_dirty (bufs s ! b)" "b_sector (bufs s ! b) = n" by (auto simp: dirty_secs_def)
    then have "cached 1 n s = Some b" using inv by (simp add: cached_Some bc_invD(8,10))
    then show False using None by simp
  qed
  then show ?thesis using None assms by (simp add: obtainable_def)
next
  case (Some b)
  then have "\<not> b_busy (bufs s ! b)" using assms(1,2) by (auto simp: cached_Some busy_secs_def)
  then show ?thesis using Some by (simp add: obtainable_def)
qed

lemma loaded_facts:
  assumes inv: "bc_inv s" and b: "slot b n s" and n: "unat n < length (disk s)"
  shows "has_buf b n (loaded b n s)" "busy_secs (loaded b n s) = insert n (busy_secs s)"
    "dirty_secs (loaded b n s) = dirty_secs s"
    "has_buf c m s \<Longrightarrow> has_buf c m (loaded b n s)" "has_buf c m s \<Longrightarrow> c \<noteq> b"
    "has_buf c m s \<Longrightarrow> b_dirty (bufs (loaded b n s) ! c) = b_dirty (bufs s ! c)"
proof -
  have blt: "b < NBUF" "b < length (bufs s)" "\<not> b_busy (bufs s ! b)" using b inv by (auto simp: slot_def bc_invD(1))
  have nth: "bufs (loaded b n s) ! c = (if c = b then \<lparr>b_busy = True, b_valid = True, b_dirty = b_dirty (bufs s ! b),
     b_dev = 1, b_sector = n, b_data = sec_view s n\<rparr> else bufs s ! c)" for c
    using blt by (simp add: bufs_loaded nth_list_update)
  show "has_buf b n (loaded b n s)" using blt by (simp add: has_buf_def nth)
  show "busy_secs (loaded b n s) = insert n (busy_secs s)"
    using blt by (auto simp: busy_secs_def nth)
  show "dirty_secs (loaded b n s) = dirty_secs s"
    unfolding dirty_secs_def nth using slot_dirty(1) [OF inv b] by (auto split: if_splits) metis+
  show ne: "has_buf c m s \<Longrightarrow> c \<noteq> b" using blt by (auto simp: has_buf_def)
  then show "has_buf c m s \<Longrightarrow> has_buf c m (loaded b n s)" by (simp add: has_buf_def nth)
  show "has_buf c m s \<Longrightarrow> b_dirty (bufs (loaded b n s) ! c) = b_dirty (bufs s ! c)"
    using ne by (simp add: nth)
qed

lemma has_buf_view: "bc_inv s \<Longrightarrow> has_buf b n s \<Longrightarrow> b_data (bufs s ! b) = sec_view s n"
  using sec_view_cached [of s b] by (auto simp: has_buf_def)

lemma has_buf_range: "bc_inv s \<Longrightarrow> has_buf b n s \<Longrightarrow> unat n < length (disk s)"
  using bc_invD(9) [of s b] by (auto simp: has_buf_def)

lemma has_buf_dev: "bc_inv s \<Longrightarrow> has_buf b n s \<Longrightarrow> b_dev (bufs s ! b) = 1"
  using bc_invD(8) [of s b] by (auto simp: has_buf_def)

lemma has_buf_inj:
  assumes "bc_inv s" "has_buf b n s" "has_buf c m s"
  shows "b = c \<longleftrightarrow> n = m"
  using assms bc_invD(7) [OF assms(1), of b c] has_buf_dev [OF assms(1)] by (auto simp: has_buf_def)

text \<open>
  The steps a client takes with a buffer it has obtained, as a bundle: well-formedness, the
  sectors' contents, the busy and the dirty sectors, the buffers held.
\<close>

lemma set_data_facts:
  assumes "bc_inv s" "has_buf b n s" "length d = BSIZE"
  shows "bc_inv (set_data b d s)" "sec_view (set_data b d s) = (sec_view s)(n := d)"
    "busy_secs (set_data b d s) = busy_secs s" "dirty_secs (set_data b d s) = dirty_secs s"
    "has_buf c m (set_data b d s) = has_buf c m s"
    "b_dirty (bufs (set_data b d s) ! c) = b_dirty (bufs s ! c)"
    "free_bufs (set_data b d s) = free_bufs s"
proof -
  have blt: "b < NBUF" "b < length (bufs s)" using assms by (auto simp: has_buf_def bc_invD(1))
  have nth: "bufs (set_data b d s) ! c = (if c = b then (bufs s ! b)\<lparr>b_data := d\<rparr> else bufs s ! c)" for c
    using blt by (simp add: nth_list_update)
  show "bc_inv (set_data b d s)" "sec_view (set_data b d s) = (sec_view s)(n := d)"
    using set_data_inv [of s b d] sec_view_set_data [of s b d] assms by (auto simp: has_buf_def)
  show "busy_secs (set_data b d s) = busy_secs s" "dirty_secs (set_data b d s) = dirty_secs s"
    unfolding busy_secs_def dirty_secs_def nth by (auto split: if_splits intro: exI)
  show "has_buf c m (set_data b d s) = has_buf c m s"
    "b_dirty (bufs (set_data b d s) ! c) = b_dirty (bufs s ! c)"
    unfolding has_buf_def nth by (auto split: if_splits)
  show "free_bufs (set_data b d s) = free_bufs s" using assms blt by (simp add: free_bufs_steps)
qed

lemma written_facts:
  assumes "bc_inv s" "has_buf b n s"
  shows "bwrite b s = Ok (written b s)" "bc_inv (written b s)" "sec_view (written b s) = sec_view s"
    "busy_secs (written b s) = busy_secs s" "dirty_secs (written b s) = dirty_secs s - {n}"
    "has_buf c m (written b s) = has_buf c m s"
    "disk (written b s) = (disk s)[unat n := sec_view s n]"
    "dwrites (written b s) = dwrites s @ [(unat n, sec_view s n)]"
    "b_dirty (bufs (written b s) ! c) = (c \<noteq> b \<and> b_dirty (bufs s ! c))"
    "free_bufs (written b s) = free_bufs s"
proof -
  have blt: "b < NBUF" "b_busy (bufs s ! b)" "b_valid (bufs s ! b)" "b < length (bufs s)" "b_sector (bufs s ! b) = n"
    using assms by (auto simp: has_buf_def bc_invD(1))
  have nth: "bufs (written b s) ! c = (if c = b then (bufs s ! b)\<lparr>b_dirty := False\<rparr> else bufs s ! c)" for c
    using blt by (simp add: nth_list_update)
  show "bwrite b s = Ok (written b s)" "bc_inv (written b s)" "sec_view (written b s) = sec_view s"
    using assms(1) blt by (simp_all add: bwrite_written written_inv sec_view_written)
  show "busy_secs (written b s) = busy_secs s"
    unfolding busy_secs_def nth by (auto split: if_splits intro: exI)
  have "c = b" if "c < NBUF" "b_dirty (bufs s ! c)" "b_sector (bufs s ! c) = n" for c
    using bc_invD(7) [OF assms(1) that(1) blt(1)] bc_invD(8) [OF assms(1) blt(1,3)]
      bc_invD(8,10) [OF assms(1) that(1)] that blt(5) by simp
  then show "dirty_secs (written b s) = dirty_secs s - {n}"
    unfolding dirty_secs_def nth using blt(5) by (auto split: if_splits) metis
  show "has_buf c m (written b s) = has_buf c m s"
    "b_dirty (bufs (written b s) ! c) = (c \<noteq> b \<and> b_dirty (bufs s ! c))"
    unfolding has_buf_def nth by (auto split: if_splits)
  show "disk (written b s) = (disk s)[unat n := sec_view s n]"
    "dwrites (written b s) = dwrites s @ [(unat n, sec_view s n)]"
    using has_buf_view [OF assms] blt by simp_all
  show "free_bufs (written b s) = free_bufs s" using assms blt by (simp add: free_bufs_steps)
qed

lemma pinned_facts:
  assumes "bc_inv s" "has_buf b n s"
  shows "bc_inv (pinned b s)" "sec_view (pinned b s) = sec_view s"
    "busy_secs (pinned b s) = busy_secs s" "dirty_secs (pinned b s) = insert n (dirty_secs s)"
    "has_buf c m (pinned b s) = has_buf c m s"
    "b_dirty (bufs (pinned b s) ! c) = (c = b \<or> b_dirty (bufs s ! c))"
    "free_bufs (pinned b s) = free_bufs s"
proof -
  have blt: "b < NBUF" "b_busy (bufs s ! b)" "b_valid (bufs s ! b)" "b < length (bufs s)" "b_sector (bufs s ! b) = n"
    using assms by (auto simp: has_buf_def bc_invD(1))
  have nth: "bufs (pinned b s) ! c = (if c = b then (bufs s ! b)\<lparr>b_dirty := True\<rparr> else bufs s ! c)" for c
    using blt by (simp add: nth_list_update)
  show "bc_inv (pinned b s)" "sec_view (pinned b s) = sec_view s"
    using pinned_inv [OF assms(1) blt(1,3)] by simp_all
  show "busy_secs (pinned b s) = busy_secs s"
    unfolding busy_secs_def nth by (auto split: if_splits intro: exI)
  show "dirty_secs (pinned b s) = insert n (dirty_secs s)"
    unfolding dirty_secs_def nth using blt by (auto split: if_splits)
  show "has_buf c m (pinned b s) = has_buf c m s"
    "b_dirty (bufs (pinned b s) ! c) = (c = b \<or> b_dirty (bufs s ! c))"
    unfolding has_buf_def nth by (auto split: if_splits)
  show "free_bufs (pinned b s) = free_bufs s" using assms blt by (simp add: free_bufs_steps)
qed

lemma released_facts:
  assumes "bc_inv s" "has_buf b n s" "n \<in> dirty_secs s \<or> sec_view s n = disk s ! unat n"
    and "\<not> {L_bcache, L_ptable} \<inter> set (held s) \<noteq> {}"
  shows "brelse b s = Ok (released b s)" "bc_inv (released b s)" "sec_view (released b s) = sec_view s"
    "busy_secs (released b s) = busy_secs s - {n}" "dirty_secs (released b s) = dirty_secs s"
    "m \<noteq> n \<Longrightarrow> has_buf c m (released b s) = has_buf c m s"
    "b_dirty (bufs (released b s) ! c) = b_dirty (bufs s ! c)"
    "free_bufs s \<subseteq> free_bufs (released b s)"
proof -
  have blt: "b < NBUF" "b_busy (bufs s ! b)" "b_valid (bufs s ! b)" "b < length (bufs s)" "b_sector (bufs s ! b) = n"
    using assms by (auto simp: has_buf_def bc_invD(1))
  have key: "c = b" if "c < NBUF" "b_dev (bufs s ! c) = 1" "b_sector (bufs s ! c) = n" for c
    using bc_invD(7) [OF assms(1) that(1) blt(1) that(2)] bc_invD(8) [OF assms(1) blt(1,3)] blt that(3) by blast
  have data: "b_data (bufs s ! b) = disk s ! unat n" if "\<not> b_dirty (bufs s ! b)"
    using assms(3) that has_buf_view [OF assms(1,2)] key bc_invD(8,10) [OF assms(1)]
    unfolding dirty_secs_def by auto
  have nth: "bufs (released b s) ! c = (if c = b then (bufs s ! b)\<lparr>b_busy := False\<rparr> else bufs s ! c)" for c
    using blt by (simp add: nth_list_update)
  show "brelse b s = Ok (released b s)" using assms(4) blt by (intro brelse_released) auto
  show inv': "bc_inv (released b s)" using blt data by (intro released_inv assms(1)) auto
  show "sec_view (released b s) = sec_view s" using assms(1) blt(1) inv' by (rule sec_view_released)
  show "dirty_secs (released b s) = dirty_secs s"
    unfolding dirty_secs_def nth by (auto split: if_splits intro: exI)
  show "m \<noteq> n \<Longrightarrow> has_buf c m (released b s) = has_buf c m s"
    "b_dirty (bufs (released b s) ! c) = b_dirty (bufs s ! c)"
    unfolding has_buf_def nth using blt by (auto split: if_splits)
  show "free_bufs s \<subseteq> free_bufs (released b s)" using blt unfolding free_bufs_def nth by auto
  show "busy_secs (released b s) = busy_secs s - {n}"
    unfolding busy_secs_def nth using blt key by (auto split: if_splits) metis
qed

section \<open>Sequential use of the cache\<close>

text \<open>
  \<open>quiet s\<close>: no lock is held and no buffer is in use; \<open>frame s s'\<close>: the states differ in
  nothing but the cache, the disk and who is awake.
\<close>

definition quiet :: "'a disk_st_scheme \<Rightarrow> bool" where
  "quiet s \<longleftrightarrow> bc_inv s \<and> held s = [] \<and> (\<forall>b<NBUF. \<not> b_busy (bufs s ! b))"

definition frame :: "'a disk_st_scheme \<Rightarrow> 'a disk_st_scheme \<Rightarrow> bool" where
  "frame s s' \<longleftrightarrow> s' = s\<lparr>procs := procs s', disk := disk s', dwrites := dwrites s', bufs := bufs s', lru := lru s'\<rparr>"

lemma frame_refl [simp]: "frame s s"
  by (simp add: frame_def)

lemma frame_trans [trans]:
  assumes "frame s s'" "frame s' s''"
  shows "frame s s''"
proof -
  let ?F = "\<lambda>z x. z\<lparr>procs := procs x, disk := disk x, dwrites := dwrites x, bufs := bufs x, lru := lru x\<rparr>"
  have "s'' = ?F s' s''" using assms(2) unfolding frame_def .
  also have "\<dots> = ?F (?F s s') s''"
    using assms(1) unfolding frame_def by (rule arg_cong [where f = "\<lambda>z. ?F z s''"])
  also have "\<dots> = ?F s s''" by simp
  finally show ?thesis unfolding frame_def .
qed

lemma frame_steps [simp]:
  "frame s (loaded b n s)" "frame s (set_data b d s)" "frame s (written b s)" "frame s (pinned b s)" "frame s (released b s)"
  by (simp_all add: frame_def loaded_def set_data_def written_def pinned_def released_def wakeup1_def upd_buf_def Let_def)

lemma frame_fieldsD: "frame s s' \<Longrightarrow> held s' = held s \<and> cur s' = cur s \<and> disk_st.more s' = disk_st.more s"
  unfolding frame_def by (erule ssubst) simp

lemma quietD:
  assumes "quiet s"
  shows "bc_inv s" "held s = []" "busy_secs s = {}"
  using assms by (auto simp: quiet_def busy_secs_def)

lemma quietI: "bc_inv s \<Longrightarrow> held s = [] \<Longrightarrow> busy_secs s = {} \<Longrightarrow> quiet s"
  using bc_invD(8,12) [of s] unfolding quiet_def busy_secs_def by blast

lemma quiet_view:
  assumes "quiet s" "n \<notin> dirty_secs s"
  shows "sec_view s n = disk s ! unat n"
proof (cases "cached 1 n s")
  case (Some b)
  then have b: "b < NBUF" "b_sector (bufs s ! b) = n" using assms by (auto simp: cached_Some quiet_def)
  then have "\<not> b_dirty (bufs s ! b)" "\<not> b_busy (bufs s ! b)" using assms by (auto simp: dirty_secs_def quiet_def)
  then show ?thesis using Some b bc_invD(11) [OF quietD(1) [OF assms(1)] b(1)] by (simp add: sec_view_def)
qed (simp add: sec_view_def)

lemma card_free_bufs:
  assumes "quiet s"
  shows "card (free_bufs s) + card (dirty_secs s) = NBUF" "finite (free_bufs s)"
proof -
  let ?D = "{b. b < NBUF \<and> b_dirty (bufs s ! b)}"
  have inv: "bc_inv s" using assms by (rule quietD)
  have "dirty_secs s = (\<lambda>b. b_sector (bufs s ! b)) ` ?D" by (auto simp: dirty_secs_def)
  moreover have "inj_on (\<lambda>b. b_sector (bufs s ! b)) ?D"
    using bc_invD(7,8,10) [OF inv] by (intro inj_onI) simp
  ultimately have "card (dirty_secs s) = card ?D" by (simp add: card_image)
  moreover have "free_bufs s \<union> ?D = {0..<NBUF}" "free_bufs s \<inter> ?D = {}"
    using assms by (auto simp: free_bufs_def quiet_def)
  moreover show "finite (free_bufs s)" by (simp add: free_bufs_def)
  ultimately show "card (free_bufs s) + card (dirty_secs s) = NBUF"
    using card_Un_disjoint [of "free_bufs s" ?D] by simp
qed

lemma bread_ok:
  assumes "bc_inv s" "held s = []" "unat n < length (disk s)" "n \<notin> busy_secs s" "n \<in> dirty_secs s \<or> free_bufs s \<noteq> {}"
  obtains b where "bread 1 n (s, env) = Ok (b, loaded b n s, env)" "slot b n s"
proof -
  have "obtainable n s" using assms by (intro obtainableI) auto
  then show thesis using bread_loaded [of s n env] assms that by auto
qed

text \<open>Reading a sector and releasing its buffer leaves a quiet state with the same contents.\<close>

lemma quiet_read:
  assumes q: "quiet s" and n: "unat n < length (disk s)" and cap: "card (dirty_secs s) < NBUF"
  obtains b where "bread 1 n (s, env) = Ok (b, loaded b n s, env)" "b_data (bufs (loaded b n s) ! b) = sec_view s n"
    "brelse b (loaded b n s) = Ok (released b (loaded b n s))"
    "quiet (released b (loaded b n s))" "sec_view (released b (loaded b n s)) = sec_view s"
    "dirty_secs (released b (loaded b n s)) = dirty_secs s"
proof -
  note inv = quietD(1) [OF q]
  have "free_bufs s \<noteq> {}" using card_free_bufs [OF q] cap by auto
  then obtain b where b: "bread 1 n (s, env) = Ok (b, loaded b n s, env)" "slot b n s"
    using bread_ok [OF inv quietD(2) [OF q] n, of env] quietD(3) [OF q] by auto
  let ?s = "loaded b n s"
  note lf = loaded_facts [OF inv b(2) n]
  have inv1: "bc_inv ?s" "sec_view ?s = sec_view s"
    using bc_inv_loaded [OF inv b(2) n] sec_view_loaded [OF inv b(2) n] by auto
  have cl: "n \<in> dirty_secs ?s \<or> sec_view ?s n = disk ?s ! unat n"
    using quiet_view [OF q, of n] inv1 lf(3) by auto
  have lk: "\<not> {L_bcache, L_ptable} \<inter> set (held ?s) \<noteq> {}" using quietD(2) [OF q] by simp
  note rf = released_facts [OF inv1(1) lf(1) cl lk]
  have bl: "b < NBUF" "b < length (bufs s)" using b(2) inv by (auto simp: slot_def bc_invD(1))
  have "quiet (released b ?s)"
    using rf(2) q bl by (auto simp: quiet_def bufs_loaded nth_list_update)
  then show thesis
    using that [OF b(1)] has_buf_view [OF inv1(1) lf(1)] rf inv1 lf(3) by simp
qed

end
