(* ===== verification/Log.thy ===== *)
theory Log
  imports Bio
begin

text \<open>
  \<open>log.c\<close>: the redo log that makes file system transactions atomic. The in-memory header
  \<open>log.lh\<close> lists the sectors of the current transaction; their new contents are in the log
  blocks of the disk; the on-disk header is the commit record. \<open>readsb\<close> of \<open>fs.c\<close> is here
  because \<open>initlog\<close> calls it.
\<close>

section \<open>State\<close>

definition LOGSIZE :: nat where "LOGSIZE = 10"

record superblock =
  sb_size :: u32
  sb_nblocks :: u32
  sb_ninodes :: u32
  sb_nlog :: u32

record log_st = disk_st +
  log_start :: u32
  log_size :: int
  log_busy :: bool
  log_dev :: u32
  lh_n :: int
  lh_sector :: "u32 list"

section \<open>Operations\<close>

definition bdata :: "nat \<Rightarrow> ('a disk_st_scheme, byte list) prog" where
  "bdata b = gets (\<lambda>s. b_data (bufs s ! b))"

definition set_bdata :: "nat \<Rightarrow> byte list \<Rightarrow> ('a disk_st_scheme, unit) prog" where
  "set_bdata b d = modify (set_data b d)"

definition readsb :: "u32 \<Rightarrow> ('a disk_st_scheme, superblock) prog" where
  "readsb dev =
     thn (bread dev 1) (\<lambda>bp.
     thn (bdata bp) (\<lambda>d.
     thn (upd (brelse bp)) (\<lambda>_.
     ret \<lparr>sb_size = rd32 d 0, sb_nblocks = rd32 d 4, sb_ninodes = rd32 d 8, sb_nlog = rd32 d 12\<rparr>)))"

definition install_one :: "nat \<Rightarrow> ('a log_st_scheme, unit) prog" where
  "install_one tail =
     thn (gets (\<lambda>s. (log_dev s, log_start s, lh_sector s ! tail))) (\<lambda>(dev, start, sec).
     thn (bread dev (start + of_nat tail + 1)) (\<lambda>lbuf.
     thn (bread dev sec) (\<lambda>dbuf.
     thn (bdata lbuf) (\<lambda>d.
     thn (set_bdata dbuf d) (\<lambda>_.
     thn (upd (bwrite dbuf)) (\<lambda>_.
     thn (upd (brelse lbuf)) (\<lambda>_.
     upd (brelse dbuf))))))))"

definition install_trans :: "('a log_st_scheme, unit) prog" where
  "install_trans = thn (gets lh_n) (\<lambda>n. for_up 0 (nat n) install_one)"

text \<open>
  The header block: the number of sectors, then the sectors. More sectors than the array
  of \<open>struct logheader\<close> holds would be stored past its end, which has no defined effect.
\<close>

fun dec_sectors :: "byte list \<Rightarrow> nat \<Rightarrow> nat \<Rightarrow> u32 list \<Rightarrow> u32 list" where
  "dec_sectors d i 0 secs = secs"
| "dec_sectors d i (Suc n) secs = dec_sectors d (Suc i) n (secs[i := rd32 d (4 + 4 * i)])"

fun enc_sectors :: "byte list \<Rightarrow> nat \<Rightarrow> nat \<Rightarrow> u32 list \<Rightarrow> byte list" where
  "enc_sectors d i 0 secs = d"
| "enc_sectors d i (Suc n) secs = enc_sectors (wr32 d (4 + 4 * i) (secs ! i)) (Suc i) n secs"

definition read_head :: "('a log_st_scheme, unit) prog" where
  "read_head =
     thn (gets (\<lambda>s. (log_dev s, log_start s))) (\<lambda>(dev, start).
     thn (bread dev start) (\<lambda>buf.
     thn (bdata buf) (\<lambda>d.
     let n = sint (rd32 d 0) in
     if n > int LOGSIZE then (\<lambda>w. Stuck) else
     thn (modify (\<lambda>s. s\<lparr>lh_n := n, lh_sector := dec_sectors d 0 (nat n) (lh_sector s)\<rparr>)) (\<lambda>_.
     upd (brelse buf)))))"

definition write_head :: "('a log_st_scheme, unit) prog" where
  "write_head =
     thn (gets (\<lambda>s. (log_dev s, log_start s, lh_n s, lh_sector s))) (\<lambda>(dev, start, n, secs).
     thn (bread dev start) (\<lambda>buf.
     thn (bdata buf) (\<lambda>d.
     thn (set_bdata buf (enc_sectors (wr32 d 0 (of_int n)) 0 (nat n) secs)) (\<lambda>_.
     thn (upd (bwrite buf)) (\<lambda>_.
     upd (brelse buf))))))"

definition recover_from_log :: "('a log_st_scheme, unit) prog" where
  "recover_from_log =
     thn read_head (\<lambda>_.
     thn install_trans (\<lambda>_.
     thn (modify (\<lambda>s. s\<lparr>lh_n := 0\<rparr>)) (\<lambda>_.
     write_head)))"

text \<open>\<open>sizeof(struct logheader)\<close> is 4 bytes for the count and 4 per sector.\<close>

definition initlog :: "('a log_st_scheme, unit) prog" where
  "initlog =
     (if 4 + 4 * LOGSIZE \<ge> BSIZE then panic ''initlog: too big logheader'' else
      thn (readsb ROOTDEV) (\<lambda>sb.
      thn (modify (\<lambda>s. s\<lparr>log_start := sb_size sb - sb_nlog sb, log_size := sint (sb_nlog sb), log_dev := ROOTDEV\<rparr>)) (\<lambda>_.
      recover_from_log)))"

function begin_loop :: "('a log_st_scheme, unit) prog" where
  "begin_loop w =
     (if log_busy (fst w) then thn (sleep_on Ch_log L_log) (\<lambda>_. begin_loop) w else Ok ((), w))"
  by pat_completeness auto
termination
  by (relation "measure (\<lambda>w. length (snd w))") (auto dest: sleep_on_env)

definition begin_trans :: "('a log_st_scheme, unit) prog" where
  "begin_trans =
     thn (upd (lock L_log)) (\<lambda>_.
     thn begin_loop (\<lambda>_.
     thn (modify (\<lambda>s. s\<lparr>log_busy := True\<rparr>)) (\<lambda>_.
     upd (unlock L_log))))"

definition commit_trans :: "('a log_st_scheme, unit) prog" where
  "commit_trans =
     thn (gets lh_n) (\<lambda>n.
     thn (whenp (n > 0)
       (thn write_head (\<lambda>_.
        thn install_trans (\<lambda>_.
        thn (modify (\<lambda>s. s\<lparr>lh_n := 0\<rparr>)) (\<lambda>_.
        write_head))))) (\<lambda>_.
     thn (upd (lock L_log)) (\<lambda>_.
     thn (modify (\<lambda>s. s\<lparr>log_busy := False\<rparr>)) (\<lambda>_.
     thn (upd (wakeup Ch_log)) (\<lambda>_.
     upd (unlock L_log))))))"

text \<open>The place of a sector in the log: where it already is, or the end.\<close>

definition log_index :: "u32 \<Rightarrow> 'a log_st_scheme \<Rightarrow> nat" where
  "log_index sec s = (case first_idx (\<lambda>x. x = sec) (take (nat (lh_n s)) (lh_sector s)) of
     Some i \<Rightarrow> i | None \<Rightarrow> nat (lh_n s))"

definition log_write :: "nat \<Rightarrow> ('a log_st_scheme, unit) prog" where
  "log_write b =
     thn (gets (\<lambda>s. (lh_n s, log_size s, log_busy s))) (\<lambda>(n, size, busy).
     if n \<ge> int LOGSIZE \<or> n \<ge> size - 1 then panic ''too big a transaction''
     else if \<not> busy then panic ''write outside of trans'' else
     thn (gets (\<lambda>s. (bufs s ! b, log_start s, log_index (b_sector (bufs s ! b)) s))) (\<lambda>(bf, start, i).
     thn (modify (\<lambda>s. s\<lparr>lh_sector := (lh_sector s)[i := b_sector bf]\<rparr>)) (\<lambda>_.
     thn (bread (b_dev bf) (start + of_nat i + 1)) (\<lambda>lbuf.
     thn (bdata b) (\<lambda>d.
     thn (set_bdata lbuf d) (\<lambda>_.
     thn (upd (bwrite lbuf)) (\<lambda>_.
     thn (upd (brelse lbuf)) (\<lambda>_.
     thn (modify (\<lambda>s. if int i = lh_n s then s\<lparr>lh_n := lh_n s + 1\<rparr> else s)) (\<lambda>_.
     modify (pinned b))))))))))"

section \<open>Symbolic execution\<close>

lemma card_Diff1_nonempty:
  assumes "1 < card A"
  shows "A - {x} \<noteq> {}"
proof
  assume "A - {x} = {}"
  then have "card A \<le> card {x}" by (intro card_mono) auto
  with assms show False by simp
qed

lemma bdata_run [simp]:
  "thn (bdata b) f (s, env) = f (b_data (bufs s ! b)) (s, env)"
  "thn (set_bdata b d) k (s, env) = k () (set_data b d s, env)"
  "set_bdata b d (s, env) = Ok ((), set_data b d s, env)"
  "bdata b (s, env) = Ok (b_data (bufs s ! b), s, env)"
  by (simp_all add: bdata_def set_bdata_def)

lemma frame_logD:
  assumes "frame s s'"
  shows "log_start s' = log_start s" "log_size s' = log_size s" "log_busy s' = log_busy s"
    "log_dev s' = log_dev s" "lh_n s' = lh_n s" "lh_sector s' = lh_sector s" "log_st.more s' = log_st.more s"
proof -
  have "log_start s' = log_start s \<and> log_size s' = log_size s \<and> log_busy s' = log_busy s \<and>
    log_dev s' = log_dev s \<and> lh_n s' = lh_n s \<and> lh_sector s' = lh_sector s \<and> log_st.more s' = log_st.more s"
    using assms unfolding frame_def by - (erule ssubst, simp)
  then show "log_start s' = log_start s" "log_size s' = log_size s" "log_busy s' = log_busy s"
    "log_dev s' = log_dev s" "lh_n s' = lh_n s" "lh_sector s' = lh_sector s" "log_st.more s' = log_st.more s"
    by simp_all
qed

lemma frame_log_steps [simp]:
  "log_start (loaded b n s) = log_start s" "log_size (loaded b n s) = log_size s" "log_busy (loaded b n s) = log_busy s" "log_dev (loaded b n s) = log_dev s" "lh_n (loaded b n s) = lh_n s" "lh_sector (loaded b n s) = lh_sector s"
  "log_start (set_data b d s) = log_start s" "log_size (set_data b d s) = log_size s" "log_busy (set_data b d s) = log_busy s" "log_dev (set_data b d s) = log_dev s" "lh_n (set_data b d s) = lh_n s" "lh_sector (set_data b d s) = lh_sector s"
  "log_start (written b s) = log_start s" "log_size (written b s) = log_size s" "log_busy (written b s) = log_busy s" "log_dev (written b s) = log_dev s" "lh_n (written b s) = lh_n s" "lh_sector (written b s) = lh_sector s"
  "log_start (pinned b s) = log_start s" "log_size (pinned b s) = log_size s" "log_busy (pinned b s) = log_busy s" "log_dev (pinned b s) = log_dev s" "lh_n (pinned b s) = lh_n s" "lh_sector (pinned b s) = lh_sector s"
  "log_start (released b s) = log_start s" "log_size (released b s) = log_size s" "log_busy (released b s) = log_busy s" "log_dev (released b s) = log_dev s" "lh_n (released b s) = lh_n s" "lh_sector (released b s) = lh_sector s"
  by (rule frame_logD, simp)+

text \<open>
  One step of installing the log: the target sector gets the contents of the log block,
  in the cache and on disk.
\<close>

lemma install_one_ok:
  fixes s :: "'a log_st_scheme"
  assumes q: "quiet s" and dev: "log_dev s = 1" and ln: "ln = log_start s + of_nat t + 1" and sec: "sec = lh_sector s ! t"
    and rng: "unat ln < length (disk s)" "unat sec < length (disk s)" and ne: "ln \<noteq> sec" and cl: "ln \<notin> dirty_secs s"
    and cap: "card (dirty_secs s) + 1 < NBUF \<or> sec \<in> dirty_secs s \<and> card (dirty_secs s) < NBUF"
  obtains s' where "install_one t (s, env) = Ok ((), s', env)" "quiet s'" "frame s s'"
    "sec_view s' = (sec_view s)(sec := sec_view s ln)" "dirty_secs s' = dirty_secs s - {sec}"
    "disk s' = (disk s)[unat sec := sec_view s ln]" "dwrites s' = dwrites s @ [(unat sec, sec_view s ln)]"
proof -
  note inv = quietD(1) [OF q]
  have lks: "held s = []" using q by (rule quietD)
  have fr: "free_bufs s \<noteq> {}" using card_free_bufs [OF q] cap by auto
  obtain l where l: "bread 1 ln (s, env) = Ok (l, loaded l ln s, env)" "slot l ln s"
    using bread_ok [OF inv lks rng(1), of env] fr quietD(3) [OF q] by auto
  let ?s1 = "loaded l ln s"
  note i1 = bc_inv_loaded [OF inv l(2) rng(1)] sec_view_loaded [OF inv l(2) rng(1)] and f1 = loaded_facts [OF inv l(2) rng(1)]
  have ll: "l < NBUF" using l(2) by (simp add: slot_def)
  have "sec \<in> dirty_secs ?s1 \<or> free_bufs ?s1 \<noteq> {}"
  proof (cases "sec \<in> dirty_secs s")
    case False
    then have "1 < card (free_bufs s)" using card_free_bufs [OF q] cap by auto
    then have "free_bufs s - {l} \<noteq> {}" by (rule card_Diff1_nonempty)
    then show ?thesis by (simp add: free_bufs_steps(1) [OF inv ll])
  qed (simp add: f1)
  then obtain d where d: "bread 1 sec (?s1, env) = Ok (d, loaded d sec ?s1, env)" "slot d sec ?s1"
    using bread_ok [OF i1(1), of sec env] lks rng(2) f1(2) ne quietD(3) [OF q] by auto
  let ?s2 = "loaded d sec ?s1"
  have r2: "unat sec < length (disk ?s1)" using rng by simp
  note i2 = bc_inv_loaded [OF i1(1) d(2) r2] sec_view_loaded [OF i1(1) d(2) r2] and f2 = loaded_facts [OF i1(1) d(2) r2]
  let ?v = "sec_view s ln"
  have lv: "length ?v = BSIZE" using sec_view_length [OF inv rng(1)] .
  have data: "b_data (bufs ?s2 ! l) = ?v" using has_buf_view [OF i2(1) f2(4) [OF f1(1)]] i1 i2 by simp
  let ?s3 = "set_data d ?v ?s2"
  note f3 = set_data_facts [OF i2(1) f2(1) lv]
  let ?s4 = "written d ?s3"
  have hb3: "has_buf d sec ?s3" using f3(5) f2(1) by simp
  note f4 = written_facts [OF f3(1) hb3]
  have hb4: "has_buf l ln ?s4" "has_buf d sec ?s4" using f4(6) f3(5) f2(4) [OF f1(1)] hb3 by simp_all
  have v4: "sec_view ?s4 = (sec_view s)(sec := ?v)" using f4(3) f3(2) i2(2) i1(2) by simp
  have d4: "disk ?s4 = (disk s)[unat sec := ?v]" using f4(7) f3(2) by simp
  have une: "unat ln \<noteq> unat sec" using ne by (simp flip: word_unat_eq_iff)
  have c4: "ln \<in> dirty_secs ?s4 \<or> sec_view ?s4 ln = disk ?s4 ! unat ln"
    using v4 d4 ne une quiet_view [OF q cl] by simp
  have lk4: "\<not> {L_bcache, L_ptable} \<inter> set (held ?s4) \<noteq> {}" using lks by simp
  let ?s5 = "released l ?s4"
  note f5 = released_facts [OF f4(2) hb4(1) c4 lk4]
  have hb5: "has_buf d sec ?s5" using f5(6) ne hb4(2) by simp
  have c5: "sec \<in> dirty_secs ?s5 \<or> sec_view ?s5 sec = disk ?s5 ! unat sec"
    using f5(3) v4 d4 rng(2) by simp
  have lk5: "\<not> {L_bcache, L_ptable} \<inter> set (held ?s5) \<noteq> {}" using lks by simp
  let ?s6 = "released d ?s5"
  note f6 = released_facts [OF f5(2) hb5 c5 lk5]
  have run: "install_one t (s, env) = Ok ((), ?s6, env)"
    unfolding install_one_def
    using l(1) d(1) f4(1) f5(1) f6(1) data dev
    by (simp add: ln [symmetric] sec [symmetric] thn_run)
  have dl: "d < NBUF" "d < length (bufs s)" "l < length (bufs s)" using d(2) ll inv by (auto simp: slot_def bc_invD(1))
  have "\<forall>b<NBUF. \<not> b_busy (bufs ?s6 ! b)"
    using q dl by (auto simp: quiet_def bufs_loaded nth_list_update)
  then have q6: "quiet ?s6" using f6(2) lks by (simp add: quiet_def)
  have "frame s ?s6"
    by (meson frame_trans frame_steps)
  moreover have "dirty_secs ?s6 = dirty_secs s - {sec}" using f6(5) f5(5) f4(5) f3(4) f2(3) f1(3) by simp
  moreover have "disk ?s6 = (disk s)[unat sec := ?v]" using d4 by simp
  moreover have "sec_view ?s6 = (sec_view s)(sec := ?v)" using f6(3) f5(3) v4 by simp
  moreover have "dwrites ?s6 = dwrites s @ [(unat sec, ?v)]"
    using f4(8) f3(2) by simp
  ultimately show thesis using that [OF run q6] by blast
qed

section \<open>Installing and committing\<close>

text \<open>The disk after a list of sector writes.\<close>

definition apply_writes :: "byte list list \<Rightarrow> (nat \<times> byte list) list \<Rightarrow> byte list list" where
  "apply_writes d ws = fold (\<lambda>(n, x) d. d[n := x]) ws d"

lemma apply_writes_simps [simp]:
  "apply_writes d [] = d" "apply_writes d (w # ws) = apply_writes (d[fst w := snd w]) ws"
  "apply_writes d (ws @ vs) = apply_writes (apply_writes d ws) vs"
  by (simp_all add: apply_writes_def split_def)

lemma length_apply_writes [simp]: "length (apply_writes d ws) = length d"
  by (induction ws arbitrary: d) auto

lemma apply_writes_other: "n \<notin> fst ` set ws \<Longrightarrow> apply_writes d ws ! n = d ! n"
  by (induction ws arbitrary: d) auto

lemma apply_writes_nth:
  "distinct (map fst ws) \<Longrightarrow> (n, x) \<in> set ws \<Longrightarrow> n < length d \<Longrightarrow> apply_writes d ws ! n = x"
proof (induction ws arbitrary: d)
  case (Cons w ws)
  show ?case
  proof (cases "w = (n, x)")
    case True
    then have "n \<notin> fst ` set ws" using Cons.prems(1) by auto
    then show ?thesis using True Cons.prems(3) by (simp add: apply_writes_other)
  qed (use Cons in auto)
qed simp

text \<open>The writes that install the log blocks \<open>js\<close> of a disk seen as \<open>V\<close>, and their effect.\<close>

definition inst_writes :: "(u32 \<Rightarrow> byte list) \<Rightarrow> u32 \<Rightarrow> u32 list \<Rightarrow> nat list \<Rightarrow> (nat \<times> byte list) list" where
  "inst_writes V st S js = map (\<lambda>j. (unat (S ! j), V (st + of_nat j + 1))) js"

definition inst_view :: "(u32 \<Rightarrow> byte list) \<Rightarrow> u32 \<Rightarrow> u32 list \<Rightarrow> nat list \<Rightarrow> u32 \<Rightarrow> byte list" where
  "inst_view V st S js = fold (\<lambda>j v. v(S ! j := V (st + of_nat j + 1))) js V"

text \<open>
  \<open>log_room s js\<close>: the log blocks \<open>js\<close> and their targets are on the disk and do not overlap,
  and the cache has buffers for installing them.
\<close>

definition log_room :: "'a log_st_scheme \<Rightarrow> nat list \<Rightarrow> bool" where
  "log_room s js \<longleftrightarrow> quiet s \<and> log_dev s = 1 \<and>
     (\<forall>j\<in>set js. unat (log_start s + of_nat j + 1) < length (disk s) \<and> unat (lh_sector s ! j) < length (disk s) \<and>
        log_start s + of_nat j + 1 \<notin> dirty_secs s \<and> (\<forall>i\<in>set js. log_start s + of_nat j + 1 \<noteq> lh_sector s ! i)) \<and>
     (card (dirty_secs s) + 1 < NBUF \<or>
      distinct (map ((!) (lh_sector s)) js) \<and> (!) (lh_sector s) ` set js \<subseteq> dirty_secs s \<and> card (dirty_secs s) < NBUF)"

lemma fold_upd_other: "(\<And>j. j \<in> set js \<Longrightarrow> f j \<noteq> x) \<Longrightarrow> fold (\<lambda>j v. v(f j := g j)) js V x = V x"
  by (induction js arbitrary: V) auto

lemma install_loop:
  fixes s :: "'a log_st_scheme"
  assumes "log_room s [i..<i + k]"
  shows "returns (for_up i k install_one (s, env)) (\<lambda>(_, s', env'). env' = env \<and> quiet s' \<and> frame s s' \<and>
     disk s' = apply_writes (disk s) (inst_writes (sec_view s) (log_start s) (lh_sector s) [i..<i + k]) \<and>
     dwrites s' = dwrites s @ inst_writes (sec_view s) (log_start s) (lh_sector s) [i..<i + k] \<and>
     sec_view s' = inst_view (sec_view s) (log_start s) (lh_sector s) [i..<i + k] \<and>
     dirty_secs s' = dirty_secs s - (!) (lh_sector s) ` {i..<i + k})"
  using assms
proof (induction k arbitrary: i s)
  case 0
  then show ?case by (simp add: inst_writes_def inst_view_def log_room_def)
next
  case (Suc k)
  let ?S = "lh_sector s" and ?st = "log_start s"
  let ?ln = "?st + of_nat i + 1" and ?sec = "?S ! i" and ?js = "[Suc i..<Suc i + k]"
  have js: "[i..<i + Suc k] = i # ?js" by (simp add: upt_conv_Cons)
  have m: "quiet s" "log_dev s = 1" "unat ?ln < length (disk s)" "unat ?sec < length (disk s)" "?ln \<notin> dirty_secs s" "?ln \<noteq> ?sec"
    "card (dirty_secs s) + 1 < NBUF \<or> ?sec \<in> dirty_secs s \<and> card (dirty_secs s) < NBUF"
    using Suc.prems unfolding log_room_def js by auto
  obtain s1 where s1: "install_one i (s, env) = Ok ((), s1, env)" "quiet s1" "frame s s1"
    "sec_view s1 = (sec_view s)(?sec := sec_view s ?ln)" "dirty_secs s1 = dirty_secs s - {?sec}"
    "disk s1 = (disk s)[unat ?sec := sec_view s ?ln]" "dwrites s1 = dwrites s @ [(unat ?sec, sec_view s ?ln)]"
    using install_one_ok [OF m(1,2) refl refl m(3,4,6,5,7), of env] by blast
  note fr = frame_logD [OF s1(3)]
  have fin: "finite (dirty_secs s)" by (simp add: dirty_secs_def)
  have cd: "card (dirty_secs s1) \<le> card (dirty_secs s)" unfolding s1(5) using fin by (intro card_mono) auto
  have sub: "(!) ?S ` set ?js \<subseteq> dirty_secs s1" if "distinct (map ((!) ?S) (i # ?js))" "(!) ?S ` set (i # ?js) \<subseteq> dirty_secs s"
    using that unfolding s1(5) list.map distinct.simps set_map list.set by blast
  have "log_room s1 ?js"
    using Suc.prems s1(2) cd sub unfolding log_room_def js fr s1(5,6) by auto
  note IH = Suc.IH [OF this]
  have V: "sec_view s1 (?st + of_nat j + 1) = sec_view s (?st + of_nat j + 1)" if "j \<in> set ?js" for j
    using Suc.prems that unfolding log_room_def js s1(4) by auto
  have W: "inst_writes (sec_view s1) ?st ?S ?js = inst_writes (sec_view s) ?st ?S ?js"
    unfolding inst_writes_def using V by (intro map_cong) auto
  have Vw: "inst_view (sec_view s1) ?st ?S ?js = inst_view (sec_view s) ?st ?S [i..<i + Suc k]"
  proof -
    have "fold (\<lambda>j v. v(?S ! j := sec_view s1 (?st + of_nat j + 1))) ?js (sec_view s1) =
        fold (\<lambda>j v. v(?S ! j := sec_view s (?st + of_nat j + 1))) ?js (sec_view s1)"
      using V by (intro fold_cong) auto
    then show ?thesis by (simp only: inst_view_def js fold_simps s1(4))
  qed
  have set: "dirty_secs s1 - (!) ?S ` {Suc i..<Suc i + k} = dirty_secs s - (!) ?S ` {i..<i + Suc k}"
  proof -
    have "{i..<i + Suc k} = insert i {Suc i..<Suc i + k}" by auto
    then show ?thesis unfolding s1(5) by auto
  qed
  have Wc: "inst_writes (sec_view s) ?st ?S [i..<i + Suc k] = (unat ?sec, sec_view s ?ln) # inst_writes (sec_view s) ?st ?S ?js"
    by (simp only: inst_writes_def js list.map)
  show ?case
    unfolding for_up.simps thn_run s1(1) bnd.simps prod.case Wc
    by (rule returns_mono [OF IH [unfolded fr W Vw set s1(6,7)]]) (use s1(3) in \<open>auto intro: frame_trans simp del: upt_Suc\<close>)
qed

section \<open>The header block\<close>

definition head_of :: "int \<Rightarrow> u32 list \<Rightarrow> byte list \<Rightarrow> byte list" where
  "head_of n secs d = enc_sectors (wr32 d 0 (of_int n)) 0 (nat n) secs"

lemma length_enc_sectors [simp]: "length (enc_sectors d i n secs) = length d"
  by (induction n arbitrary: d i) auto

lemma length_head_of [simp]: "length (head_of n secs d) = length d"
  by (simp add: head_of_def)

lemma rd32_enc_before: "p + 4 \<le> 4 + 4 * i \<Longrightarrow> rd32 (enc_sectors d i n secs) p = rd32 d p"
  by (induction n arbitrary: d i) (auto simp: rd32_wr32_other)

lemma rd32_enc_sectors:
  "i \<le> j \<Longrightarrow> j < i + n \<Longrightarrow> 4 + 4 * (i + n) \<le> length d \<Longrightarrow> rd32 (enc_sectors d i n secs) (4 + 4 * j) = secs ! j"
proof (induction n arbitrary: d i)
  case (Suc n)
  show ?case
  proof (cases "i = j")
    case True
    then show ?thesis using Suc.prems by (simp add: rd32_enc_before)
  next
    case False
    then show ?thesis using Suc by simp
  qed
qed simp

lemma length_dec_sectors [simp]: "length (dec_sectors d i n secs) = length secs"
  by (induction n arbitrary: i secs) auto

lemma dec_sectors_nth:
  "j < length secs \<Longrightarrow> dec_sectors d i n secs ! j = (if i \<le> j \<and> j < i + n then rd32 d (4 + 4 * j) else secs ! j)"
  by (induction n arbitrary: i secs) (auto simp: nth_list_update not_less_eq_eq dest: le_antisym)

lemma sint_of_int32: "- (2 ^ 31) \<le> n \<Longrightarrow> n < 2 ^ 31 \<Longrightarrow> sint (of_int n :: u32) = n"
  by (simp add: sint_sbintrunc' signed_take_bit_int_eq_self)

lemma head_of_count:
  assumes "length d = BSIZE" "0 \<le> n" "n \<le> int LOGSIZE"
  shows "sint (rd32 (head_of n secs d) 0) = n"
proof -
  have "rd32 (head_of n secs d) 0 = of_int n"
    using assms by (simp add: head_of_def rd32_enc_before BSIZE_def)
  then show ?thesis using assms by (simp add: sint_of_int32 LOGSIZE_def)
qed

lemma head_of_sector:
  assumes "length d = BSIZE" "0 \<le> n" "n \<le> int LOGSIZE" "j < nat n"
  shows "rd32 (head_of n secs d) (4 + 4 * j) = secs ! j"
  using assms unfolding head_of_def by (intro rd32_enc_sectors) (auto simp: BSIZE_def LOGSIZE_def)

text \<open>Replacing the contents of a sector in place, as the header is written.\<close>

lemma quiet_rewrite:
  assumes q: "quiet s" and n: "unat n < length (disk s)" and nd: "n \<notin> dirty_secs s"
    and cap: "card (dirty_secs s) < NBUF" and ld: "length d = BSIZE"
  obtains b s3 s4 where "bread 1 n (s, env) = Ok (b, loaded b n s, env)" "b_data (bufs (loaded b n s) ! b) = sec_view s n"
    "bwrite b (set_data b d (loaded b n s)) = Ok s3" "brelse b s3 = Ok s4"
    "quiet s4" "frame s s4" "sec_view s4 = (sec_view s)(n := d)" "dirty_secs s4 = dirty_secs s"
    "disk s4 = (disk s)[unat n := d]" "dwrites s4 = dwrites s @ [(unat n, d)]"
proof -
  note inv = quietD(1) [OF q]
  have lks: "held s = []" using q by (rule quietD)
  have "free_bufs s \<noteq> {}" using card_free_bufs [OF q] cap by auto
  then obtain b where b: "bread 1 n (s, env) = Ok (b, loaded b n s, env)" "slot b n s"
    using bread_ok [OF inv lks n, of env] quietD(3) [OF q] by auto
  let ?s1 = "loaded b n s"
  note i1 = bc_inv_loaded [OF inv b(2) n] sec_view_loaded [OF inv b(2) n] and f1 = loaded_facts [OF inv b(2) n]
  let ?s2 = "set_data b d ?s1"
  note f2 = set_data_facts [OF i1(1) f1(1) ld]
  have hb2: "has_buf b n ?s2" using f2(5) f1(1) by simp
  let ?s3 = "written b ?s2"
  note f3 = written_facts [OF f2(1) hb2]
  have hb3: "has_buf b n ?s3" using f3(6) hb2 by simp
  have c3: "n \<in> dirty_secs ?s3 \<or> sec_view ?s3 n = disk ?s3 ! unat n" using f3(3,7) n by simp
  have lk3: "\<not> {L_bcache, L_ptable} \<inter> set (held ?s3) \<noteq> {}" using lks by simp
  let ?s4 = "released b ?s3"
  note f4 = released_facts [OF f3(2) hb3 c3 lk3]
  have bl: "b < NBUF" "b < length (bufs s)" using b(2) inv by (auto simp: slot_def bc_invD(1))
  have q4: "quiet ?s4" using f4(2) lks q bl by (auto simp: quiet_def bufs_loaded nth_list_update)
  have "frame s ?s4" by (meson frame_trans frame_steps)
  moreover have "sec_view ?s4 = (sec_view s)(n := d)" using f4(3) f3(3) f2(2) i1(2) by simp
  moreover have "dirty_secs ?s4 = dirty_secs s" using f4(5) f3(5) f2(4) f1(3) nd by simp
  moreover have "disk ?s4 = (disk s)[unat n := d]" "dwrites ?s4 = dwrites s @ [(unat n, d)]"
    using f3(7,8) f2(2) by simp_all
  ultimately show thesis using that [OF b(1) _ f3(1) f4(1) q4] has_buf_view [OF i1(1) f1(1)] i1(2) by simp
qed

lemma write_head_ok:
  fixes s :: "'a log_st_scheme"
  assumes q: "quiet s" "log_dev s = 1" "unat (log_start s) < length (disk s)" "log_start s \<notin> dirty_secs s"
    "card (dirty_secs s) < NBUF"
  defines "h \<equiv> head_of (lh_n s) (lh_sector s) (sec_view s (log_start s))"
  shows "returns (write_head (s, env)) (\<lambda>(_, s', env'). env' = env \<and> quiet s' \<and> frame s s' \<and>
     sec_view s' = (sec_view s)(log_start s := h) \<and> dirty_secs s' = dirty_secs s \<and>
     disk s' = (disk s)[unat (log_start s) := h] \<and> dwrites s' = dwrites s @ [(unat (log_start s), h)])"
proof -
  have "length h = BSIZE" using sec_view_length [OF quietD(1) [OF q(1)] q(3)] by (simp add: h_def)
  from quiet_rewrite [OF q(1,3,4,5) this, of env] obtain b s3 s4 where
    b: "bread 1 (log_start s) (s, env) = Ok (b, loaded b (log_start s) s, env)"
      "b_data (bufs (loaded b (log_start s) s) ! b) = sec_view s (log_start s)"
      "bwrite b (set_data b h (loaded b (log_start s) s)) = Ok s3" "brelse b s3 = Ok s4"
      "quiet s4" "frame s s4" "sec_view s4 = (sec_view s)(log_start s := h)" "dirty_secs s4 = dirty_secs s"
      "disk s4 = (disk s)[unat (log_start s) := h]" "dwrites s4 = dwrites s @ [(unat (log_start s), h)]"
    by blast
  have "write_head (s, env) = Ok ((), s4, env)"
    unfolding write_head_def using b(1-4) q(2) by (simp add: thn_run h_def head_of_def)
  then show ?thesis using b(5-10) by simp
qed

section \<open>Logging a block\<close>

text \<open>The cache does not depend on the fields of the log.\<close>

lemma cache_log_indep [simp]:
  "cached d n (s\<lparr>lh_sector := x\<rparr>) = cached d n s" "cached d n (s\<lparr>lh_n := k\<rparr>) = cached d n s" "cached d n (s\<lparr>log_busy := c\<rparr>) = cached d n s"
  "bc_inv (s\<lparr>lh_sector := x\<rparr>) = bc_inv s" "bc_inv (s\<lparr>lh_n := k\<rparr>) = bc_inv s" "bc_inv (s\<lparr>log_busy := c\<rparr>) = bc_inv s"
  "busy_secs (s\<lparr>lh_sector := x\<rparr>) = busy_secs s" "busy_secs (s\<lparr>lh_n := k\<rparr>) = busy_secs s" "busy_secs (s\<lparr>log_busy := c\<rparr>) = busy_secs s"
  "dirty_secs (s\<lparr>lh_sector := x\<rparr>) = dirty_secs s" "dirty_secs (s\<lparr>lh_n := k\<rparr>) = dirty_secs s" "dirty_secs (s\<lparr>log_busy := c\<rparr>) = dirty_secs s"
  "free_bufs (s\<lparr>lh_sector := x\<rparr>) = free_bufs s" "free_bufs (s\<lparr>lh_n := k\<rparr>) = free_bufs s" "free_bufs (s\<lparr>log_busy := c\<rparr>) = free_bufs s"
  "has_buf b n (s\<lparr>lh_sector := x\<rparr>) = has_buf b n s" "has_buf b n (s\<lparr>lh_n := k\<rparr>) = has_buf b n s"
  by (simp_all add: cached_def bc_inv_def busy_secs_def dirty_secs_def free_bufs_def has_buf_def)

lemma view_log_indep [simp]:
  "sec_view (s\<lparr>lh_sector := x\<rparr>) = sec_view s" "sec_view (s\<lparr>lh_n := k\<rparr>) = sec_view s" "sec_view (s\<lparr>log_busy := c\<rparr>) = sec_view s"
  "quiet (s\<lparr>lh_sector := x\<rparr>) = quiet s" "quiet (s\<lparr>lh_n := k\<rparr>) = quiet s" "quiet (s\<lparr>log_busy := c\<rparr>) = quiet s"
  by (simp_all add: sec_view_def quiet_def fun_eq_iff split: option.split)

text \<open>The sectors of the current transaction, and the sector of a log block.\<close>

definition logged :: "'a log_st_scheme \<Rightarrow> u32 list" where
  "logged s = take (nat (lh_n s)) (lh_sector s)"

definition log_block :: "'a log_st_scheme \<Rightarrow> nat \<Rightarrow> u32" where
  "log_block s j = log_start s + of_nat j + 1"

text \<open>
  The log inside a transaction: home sectors lie below the log; the buffers of exactly the
  logged sectors are dirty; the log blocks on disk hold what the cache has for these
  sectors, except for a sector whose buffer is in use at the moment.
\<close>

definition log_inv :: "'a log_st_scheme \<Rightarrow> bool" where
  "log_inv s \<longleftrightarrow> bc_inv s \<and> held s = [] \<and> log_dev s = 1 \<and> log_busy s \<and> 0 \<le> lh_n s \<and> lh_n s \<le> int LOGSIZE \<and>
     length (lh_sector s) = LOGSIZE \<and> lh_n s < log_size s \<and>
     unat (log_start s) + nat (log_size s) \<le> length (disk s) \<and> length (disk s) \<le> 2 ^ 32 \<and>
     distinct (logged s) \<and> (\<forall>n\<in>set (logged s). unat n < unat (log_start s)) \<and>
     (\<forall>n\<in>busy_secs s. unat n < unat (log_start s)) \<and> dirty_secs s = set (logged s) \<and>
     (\<forall>j<length (logged s). logged s ! j \<in> busy_secs s \<or> disk s ! unat (log_block s j) = sec_view s (logged s ! j))"

lemma log_invD:
  assumes "log_inv s"
  shows "bc_inv s" "held s = []" "log_dev s = 1" "log_busy s" "0 \<le> lh_n s" "lh_n s \<le> int LOGSIZE"
    "length (lh_sector s) = LOGSIZE" "lh_n s < log_size s"
    "unat (log_start s) + nat (log_size s) \<le> length (disk s)" "length (disk s) \<le> 2 ^ 32"
    "distinct (logged s)" "n \<in> set (logged s) \<Longrightarrow> unat n < unat (log_start s)"
    "n \<in> busy_secs s \<Longrightarrow> unat n < unat (log_start s)" "dirty_secs s = set (logged s)"
    "j < length (logged s) \<Longrightarrow> logged s ! j \<in> busy_secs s \<or> disk s ! unat (log_block s j) = sec_view s (logged s ! j)"
  using assms unfolding log_inv_def by auto

lemma length_logged: "log_inv s \<Longrightarrow> length (logged s) = nat (lh_n s)"
  using log_invD(5,6,7) [of s] by (simp add: logged_def)

lemma unat_log_block:
  assumes "unat (log_start s) + j + 1 < 2 ^ 32"
  shows "unat (log_block s j) = unat (log_start s) + j + 1"
proof -
  have "log_block s j = log_start s + of_nat (j + 1)" by (simp add: log_block_def)
  also have "unat \<dots> = unat (log_start s) + unat (of_nat (j + 1) :: u32)"
    using assms unat_of_nat32 [of "j + 1"] by (intro unat_add_lem [THEN iffD1]) simp
  finally show ?thesis using assms unat_of_nat32 [of "j + 1"] by simp
qed

lemma log_block_range:
  assumes "log_inv s" "int j < log_size s - 1"
  shows "unat (log_block s j) = unat (log_start s) + j + 1" "unat (log_block s j) < length (disk s)"
    "log_block s j \<notin> busy_secs s" "log_block s j \<notin> dirty_secs s"
proof -
  have "unat (log_start s) + j + 1 < length (disk s)" using log_invD(9) [OF assms(1)] assms(2) by linarith
  then show b: "unat (log_block s j) = unat (log_start s) + j + 1" and "unat (log_block s j) < length (disk s)"
    using unat_log_block [of s j] log_invD(10) [OF assms(1)] by simp_all
  then show "log_block s j \<notin> busy_secs s" "log_block s j \<notin> dirty_secs s"
    using log_invD(12,13,14) [OF assms(1)] by fastforce+
qed

lemma log_index_cases:
  assumes "log_inv s"
  shows "n \<in> set (logged s) \<Longrightarrow> log_index n s < length (logged s) \<and> logged s ! log_index n s = n"
    "n \<notin> set (logged s) \<Longrightarrow> log_index n s = length (logged s)"
proof -
  show "n \<in> set (logged s) \<Longrightarrow> log_index n s < length (logged s) \<and> logged s ! log_index n s = n"
    unfolding log_index_def logged_def [symmetric]
    by (cases "first_idx (\<lambda>x. x = n) (logged s)") (auto dest: first_idx_SomeD)
  show "log_index n s = length (logged s)" if "n \<notin> set (logged s)"
  proof -
    have "first_idx (\<lambda>x. x = n) (logged s) = None" using that by auto
    then show ?thesis unfolding log_index_def logged_def [symmetric] length_logged [OF assms] by (simp del: first_idx_None)
  qed
qed

text \<open>The transaction's sectors after logging one more.\<close>

definition add_sec :: "u32 \<Rightarrow> u32 list \<Rightarrow> u32 list" where
  "add_sec n xs = (if n \<in> set xs then xs else xs @ [n])"

lemma set_add_sec [simp]: "set (add_sec n xs) = insert n (set xs)"
  by (auto simp: add_sec_def)

lemma logged_upd:
  assumes "log_inv s" "lh_n s < int LOGSIZE" "i = log_index n s"
  shows "take (nat (if int i = lh_n s then lh_n s + 1 else lh_n s)) ((lh_sector s)[i := n]) = add_sec n (logged s)"
proof (cases "n \<in> set (logged s)")
  case True
  then have i: "i < length (logged s)" "logged s ! i = n" using log_index_cases(1) [OF assms(1) True] assms(3) by auto
  then have "int i \<noteq> lh_n s" using length_logged [OF assms(1)] by simp
  moreover have "(lh_sector s)[i := n] = lh_sector s"
    using i by (simp add: logged_def list_update_same_conv)
  ultimately show ?thesis using True by (simp add: add_sec_def logged_def)
next
  case False
  then have i: "i = nat (lh_n s)" "int i = lh_n s"
    using log_index_cases(2) [OF assms(1) False] assms(3) length_logged [OF assms(1)] log_invD(5) [OF assms(1)] by auto
  have "i < length (lh_sector s)" using i(2) assms(2) log_invD(7) [OF assms(1)] by linarith
  then have "take (Suc i) ((lh_sector s)[i := n]) = take i (lh_sector s) @ [n]"
    by (simp add: take_Suc_conv_app_nth)
  then show ?thesis using False i log_invD(5) [OF assms(1)] by (simp add: add_sec_def logged_def nat_add_distrib)
qed

text \<open>
  What \<open>log_write\<close> does with a buffer the caller holds: its contents go to the sector's log
  block on disk, the sector joins the transaction, its buffer is pinned.
\<close>

lemma log_write_ok:
  fixes s :: "'a log_st_scheme"
  assumes inv: "log_inv s" and hb: "has_buf b n s" and home: "unat n < unat (log_start s)"
    and room: "lh_n s < int LOGSIZE" "lh_n s < log_size s - 1" and fr: "free_bufs s \<noteq> {}"
  defines "i \<equiv> log_index n s"
  shows "returns (log_write b (s, env)) (\<lambda>(_, s', env'). env' = env \<and> log_inv s' \<and>
     logged s' = add_sec n (logged s) \<and> dirty_secs s' = insert n (dirty_secs s) \<and> busy_secs s' = busy_secs s \<and>
     sec_view s' = (sec_view s)(log_block s i := sec_view s n) \<and>
     disk s' = (disk s)[unat (log_block s i) := sec_view s n] \<and>
     dwrites s' = dwrites s @ [(unat (log_block s i), sec_view s n)] \<and>
     (\<forall>c m. has_buf c m s \<longrightarrow> has_buf c m s') \<and>
     frame s (s'\<lparr>lh_n := lh_n s, lh_sector := lh_sector s\<rparr>) \<and>
     free_bufs s \<subseteq> free_bufs s' \<and> (\<forall>k<LOGSIZE. k \<noteq> i \<longrightarrow> lh_sector s' ! k = lh_sector s ! k) \<and>
     disk s' ! unat (log_block s i) = sec_view s' n)"
proof -
  let ?v = "sec_view s n" and ?ls = "log_block s i"
  have bc: "bc_inv s" and lks: "held s = []" using log_invD [OF inv] by auto
  have ilen: "i \<le> length (logged s)" using log_index_cases [OF inv, of n] by (cases "n \<in> set (logged s)") (auto simp: i_def)
  then have il: "int i < log_size s - 1" "i < LOGSIZE" using room length_logged [OF inv] log_invD(5) [OF inv] by linarith+
  note lr = log_block_range [OF inv il(1)]
  let ?s1 = "s\<lparr>lh_sector := (lh_sector s)[i := n]\<rparr>"
  have bc1: "bc_inv ?s1" "unat ?ls < length (disk ?s1)" using bc lr by simp_all
  obtain l where l: "bread 1 ?ls (?s1, env) = Ok (l, loaded l ?ls ?s1, env)" "slot l ?ls ?s1"
    using bread_ok [OF bc1(1) _ bc1(2), of env] lks lr(3) fr by auto
  let ?s2 = "loaded l ?ls ?s1"
  note i2 = bc_inv_loaded [OF bc1(1) l(2) bc1(2)] sec_view_loaded [OF bc1(1) l(2) bc1(2)] and f2 = loaded_facts [OF bc1(1) l(2) bc1(2)]
  have hb1: "has_buf b n ?s1" using hb by simp
  have hb2: "has_buf b n ?s2" using f2(4) [OF hb1] .
  have data: "b_data (bufs ?s2 ! b) = ?v" using has_buf_view [OF i2(1) hb2] i2(2) by simp
  have bdev: "b_dev (bufs s ! b) = 1" "b_sector (bufs s ! b) = n" using has_buf_dev [OF bc hb] hb by (auto simp: has_buf_def)
  have lv: "length ?v = BSIZE" using sec_view_length [OF bc has_buf_range [OF bc hb]] .
  let ?s3 = "set_data l ?v ?s2"
  note f3 = set_data_facts [OF i2(1) f2(1) lv]
  have hb3: "has_buf l ?ls ?s3" using f3(5) f2(1) by simp
  let ?s4 = "written l ?s3"
  note f4 = written_facts [OF f3(1) hb3]
  have hb4: "has_buf l ?ls ?s4" using f4(6) hb3 by simp
  have une: "unat ?ls \<noteq> unat n" "?ls \<noteq> n" using lr(1) home by auto
  have v4: "sec_view ?s4 = (sec_view s)(?ls := ?v)" using f4(3) f3(2) i2(2) by simp
  have d4: "disk ?s4 = (disk s)[unat ?ls := ?v]" using f4(7) f3(2) by simp
  have c4: "?ls \<in> dirty_secs ?s4 \<or> sec_view ?s4 ?ls = disk ?s4 ! unat ?ls" using v4 d4 lr(2) by simp
  have lk4: "\<not> {L_bcache, L_ptable} \<inter> set (held ?s4) \<noteq> {}" using lks by simp
  let ?s5 = "released l ?s4"
  note f5 = released_facts [OF f4(2) hb4 c4 lk4]
  let ?s6 = "if int i = lh_n ?s5 then ?s5\<lparr>lh_n := lh_n ?s5 + 1\<rparr> else ?s5"
  have hb5: "has_buf c m ?s5" if "has_buf c m s" for c m
  proof -
    have "m \<in> busy_secs s" using that has_buf_dev [OF bc that] by (auto simp: has_buf_def busy_secs_def)
    then have "m \<noteq> ?ls" using lr(3) by auto
    then show ?thesis using that f5(6) f4(6) f3(5) f2(4) by simp
  qed
  let ?s' = "pinned b ?s6"
  have run: "log_write b (s, env) = Ok ((), ?s', env)"
    unfolding log_write_def
    using l(1) f4(1) f5(1) data bdev room log_invD(4) [OF inv]
    by (simp add: thn_run i_def [symmetric] log_block_def [symmetric])
  have b6: "bc_inv ?s6" "has_buf b n ?s6" using f5(2) hb5 [OF hb] by auto
  note f7 = pinned_facts [OF b6]
  have fr': "frame ?s1 ?s5" by (meson frame_trans frame_steps)
  note lf = frame_logD [OF fr']
  have lh: "lh_n ?s' = (if int i = lh_n s then lh_n s + 1 else lh_n s)" "lh_sector ?s' = (lh_sector s)[i := n]"
    "log_start ?s' = log_start s" "log_size ?s' = log_size s" "log_busy ?s' = log_busy s" "log_dev ?s' = log_dev s"
    by simp_all
  have lg: "logged ?s' = add_sec n (logged s)"
    using logged_upd [OF inv room(1) i_def [THEN meta_eq_to_obj_eq]] unfolding logged_def [of ?s'] lh .
  have v': "sec_view ?s' = (sec_view s)(?ls := ?v)" using f7(2) f5(3) v4 by simp
  have d': "disk ?s' = (disk s)[unat ?ls := ?v]" using d4 by simp
  have ds: "dirty_secs ?s' = insert n (dirty_secs s)"
    using f7(4) f5(5) f4(5) f3(4) f2(3) lr(4) by simp
  have bs: "busy_secs ?s' = busy_secs s"
    using f7(3) f5(4) f4(4) f3(3) f2(2) lr(3) by simp
  have lb: "log_block ?s' j = log_block s j" for j by (simp add: log_block_def lh)
  have nb: "n \<in> busy_secs s" using hb has_buf_dev [OF bc hb] by (auto simp: has_buf_def busy_secs_def)
  have blocks: "add_sec n (logged s) ! j \<in> busy_secs s \<or> disk ?s' ! unat (log_block s j) = sec_view ?s' (add_sec n (logged s) ! j)"
    if j: "j < length (add_sec n (logged s))" for j
  proof (cases "add_sec n (logged s) ! j = n")
    case False
    then have jl: "j < length (logged s)" "add_sec n (logged s) ! j = logged s ! j"
      using j by (auto simp: add_sec_def nth_append less_Suc_eq split: if_splits)
    have "int j < log_size s - 1" using jl(1) room length_logged [OF inv] log_invD(5) [OF inv] by linarith
    note lj = log_block_range [OF inv this]
    have "j \<noteq> i" using False jl log_index_cases [OF inv, of n] unfolding i_def by (metis less_irrefl)
    then have "unat (log_block s j) \<noteq> unat ?ls" using lj(1) lr(1) by simp
    moreover have "logged s ! j \<noteq> ?ls" using log_invD(12) [OF inv nth_mem [OF jl(1)]] lr(1) by auto
    ultimately show ?thesis using log_invD(15) [OF inv jl(1)] unfolding jl(2) v' d' by simp
  qed (simp add: nb)
  have "distinct (add_sec n (logged s))" "\<forall>m\<in>set (add_sec n (logged s)). unat m < unat (log_start s)"
    using log_invD(11,12) [OF inv] home by (auto simp: add_sec_def)
  moreover have "dirty_secs ?s' = set (add_sec n (logged s))" using ds log_invD(14) [OF inv] by simp
  moreover have "held ?s' = []" using lks by simp
  ultimately have inv': "log_inv ?s'"
    unfolding log_inv_def lg lb lh bs using f7(1) log_invD(3-10,13) [OF inv] room blocks by (auto simp: d')
  have "frame s (?s'\<lparr>lh_n := lh_n s, lh_sector := lh_sector s\<rparr>)"
    by (auto simp: frame_def loaded_def set_data_def written_def pinned_def released_def wakeup1_def upd_buf_def Let_def)
  moreover have "free_bufs s \<subseteq> free_bufs ?s'"
  proof -
    have ll: "l < NBUF" using l(2) by (simp add: slot_def)
    have "free_bufs ?s5 = insert l (free_bufs ?s4)" using free_bufs_steps(5) [OF f4(2) ll] f4(9) by simp
    moreover have "free_bufs ?s4 = free_bufs s - {l}"
      using f4(10) f3(7) free_bufs_steps(1) [OF bc1(1) ll, of ?ls] by simp
    ultimately show ?thesis using f7(7) by auto
  qed
  moreover have "dwrites ?s' = dwrites s @ [(unat ?ls, ?v)]" using f4(8) f3(2) by simp
  moreover have "disk ?s' ! unat ?ls = sec_view ?s' n" using d' v' lr(2) une by simp
  moreover have "\<forall>c m. has_buf c m s \<longrightarrow> has_buf c m ?s'" using hb5 f7(5) by auto
  moreover have "\<forall>k<LOGSIZE. k \<noteq> i \<longrightarrow> lh_sector ?s' ! k = lh_sector s ! k" unfolding lh by simp
  ultimately show ?thesis unfolding run returns_simps prod.case using inv' lg ds bs v' d' by blast
qed

text \<open>Reading, changing and releasing buffers inside a transaction.\<close>

lemma logged_steps [simp]:
  "logged (loaded b n s) = logged s" "logged (set_data b d s) = logged s" "logged (released b s) = logged s"
  "log_block (loaded b n s) = log_block s" "log_block (set_data b d s) = log_block s" "log_block (released b s) = log_block s"
  by (simp_all add: logged_def log_block_def fun_eq_iff)

lemma log_inv_loaded:
  assumes inv: "log_inv s" and b: "slot b n s" and n: "unat n < unat (log_start s)"
  shows "log_inv (loaded b n s)"
proof -
  have r: "unat n < length (disk s)" using n log_invD(9) [OF inv] by simp
  note bc = log_invD(1) [OF inv]
  note f = loaded_facts [OF bc b r] and i = bc_inv_loaded [OF bc b r] sec_view_loaded [OF bc b r]
  show ?thesis unfolding log_inv_def
    using i f(2,3) n log_invD [OF inv] by auto
qed

lemma log_inv_set_data:
  assumes inv: "log_inv s" and hb: "has_buf b n s" and d: "length d = BSIZE"
  shows "log_inv (set_data b d s)"
proof -
  note bc = log_invD(1) [OF inv]
  note f = set_data_facts [OF bc hb d]
  have nb: "n \<in> busy_secs s" using hb has_buf_dev [OF bc hb] by (auto simp: has_buf_def busy_secs_def)
  have "logged s ! j \<in> busy_secs s \<or> disk s ! unat (log_block s j) = ((sec_view s)(n := d)) (logged s ! j)"
    if "j < length (logged s)" for j
    using log_invD(15) [OF inv that] nb by auto
  then show ?thesis unfolding log_inv_def
    using f(1-4) log_invD [OF inv] by auto
qed

lemma log_inv_released:
  assumes inv: "log_inv s" and hb: "has_buf b n s"
    and "n \<in> set (logged s) \<Longrightarrow> disk s ! unat (log_block s (log_index n s)) = sec_view s n"
    and "n \<notin> set (logged s) \<Longrightarrow> sec_view s n = disk s ! unat n"
  shows "brelse b s = Ok (released b s)" "log_inv (released b s)"
    "sec_view (released b s) = sec_view s" "busy_secs (released b s) = busy_secs s - {n}"
    "dirty_secs (released b s) = dirty_secs s" "free_bufs s \<subseteq> free_bufs (released b s)"
    "m \<noteq> n \<Longrightarrow> has_buf c m (released b s) = has_buf c m s"
proof -
  note bc = log_invD(1) [OF inv]
  have lk: "\<not> {L_bcache, L_ptable} \<inter> set (held s) \<noteq> {}" using log_invD(2) [OF inv] by simp
  have "n \<in> dirty_secs s \<or> sec_view s n = disk s ! unat n" using assms(4) log_invD(14) [OF inv] by blast
  note f = released_facts [OF bc hb this lk]
  show "brelse b s = Ok (released b s)" "sec_view (released b s) = sec_view s"
    "busy_secs (released b s) = busy_secs s - {n}" "dirty_secs (released b s) = dirty_secs s"
    "free_bufs s \<subseteq> free_bufs (released b s)" "m \<noteq> n \<Longrightarrow> has_buf c m (released b s) = has_buf c m s"
    using f by auto
  have "logged s ! j \<in> busy_secs s - {n} \<or> disk s ! unat (log_block s j) = sec_view s (logged s ! j)"
    if j: "j < length (logged s)" for j
  proof (cases "logged s ! j = n")
    case True
    then have "n \<in> set (logged s)" using j by auto
    moreover have "log_index n s = j"
      using log_index_cases(1) [OF inv calculation] j True log_invD(11) [OF inv] by (metis nth_eq_iff_index_eq)
    ultimately show ?thesis using assms(3) True by simp
  qed (use log_invD(15) [OF inv j] in auto)
  then show "log_inv (released b s)" unfolding log_inv_def
    using f(2-5) log_invD [OF inv] by auto
qed

text \<open>A transaction, at a moment when the caller holds no buffer.\<close>

definition txn :: "'a log_st_scheme \<Rightarrow> bool" where
  "txn s \<longleftrightarrow> log_inv s \<and> quiet s"

fun run_writes :: "(u32 \<times> byte list) list \<Rightarrow> ('a log_st_scheme, unit) prog" where
  "run_writes [] = ret ()"
| "run_writes ((n, d) # ws) =
     thn (bread 1 n) (\<lambda>b. thn (set_bdata b d) (\<lambda>_. thn (log_write b) (\<lambda>_. thn (upd (brelse b)) (\<lambda>_. run_writes ws))))"

lemma dirty_card: "txn s \<Longrightarrow> card (dirty_secs s) = length (logged s)"
  by (simp add: txn_def log_invD(14) distinct_card log_invD(11))

lemma update_block:
  fixes s :: "'a log_st_scheme"
  assumes t: "txn s" and n: "unat n < unat (log_start s)" and d: "length d = BSIZE"
    and room: "length (logged s) + 1 < NBUF" "int (length (logged s)) < log_size s - 1"
  defines "lb \<equiv> log_block s (log_index n s)"
  obtains b s3 s4 where "bread 1 n (s, env) = Ok (b, loaded b n s, env)" "b_data (bufs (loaded b n s) ! b) = sec_view s n"
    "log_write b (set_data b d (loaded b n s), env) = Ok ((), s3, env)" "brelse b s3 = Ok s4"
    "txn s4" "logged s4 = add_sec n (logged s)" "sec_view s4 = (sec_view s)(n := d, lb := d)"
    "disk s4 = (disk s)[unat lb := d]" "dwrites s4 = dwrites s @ [(unat lb, d)]"
    "frame s (s4\<lparr>lh_n := lh_n s, lh_sector := lh_sector s\<rparr>)"
proof -
  have inv: "log_inv s" and q: "quiet s" using t by (auto simp: txn_def)
  note bc = quietD(1) [OF q]
  have lks: "held s = []" using q by (rule quietD)
  have r: "unat n < length (disk s)" using n log_invD(9) [OF inv] by simp
  have cf: "1 < card (free_bufs s)" using card_free_bufs(1) [OF q] dirty_card [OF t] room(1) by simp
  then have "free_bufs s \<noteq> {}" by auto
  then obtain b where b: "bread 1 n (s, env) = Ok (b, loaded b n s, env)" "slot b n s"
    using bread_ok [OF bc lks r, of env] quietD(3) [OF q] by auto
  let ?s2 = "set_data b d (loaded b n s)"
  note lf = loaded_facts [OF bc b(2) r] and i1 = log_inv_loaded [OF inv b(2) n]
  note i2 = log_inv_set_data [OF i1 lf(1) d] and sf = set_data_facts [OF log_invD(1) [OF i1] lf(1) d]
  have v2: "sec_view ?s2 = (sec_view s)(n := d)" using sf(2) sec_view_loaded [OF bc b(2) r] by simp
  have hb2: "has_buf b n ?s2" using sf(5) lf(1) by simp
  have bl: "b < NBUF" "b < length (bufs s)" using b(2) bc by (auto simp: slot_def bc_invD(1))
  have "free_bufs ?s2 = free_bufs s - {b}" using sf(7) free_bufs_steps(1) [OF bc bl(1)] by simp
  moreover have "free_bufs s - {b} \<noteq> {}" using cf by (rule card_Diff1_nonempty)
  ultimately have fr2: "free_bufs ?s2 \<noteq> {}" by simp
  have rm: "lh_n ?s2 < int LOGSIZE" "lh_n ?s2 < log_size ?s2 - 1" "unat n < unat (log_start ?s2)"
    using room length_logged [OF inv] log_invD(5) [OF inv] n by (auto simp: NBUF_def LOGSIZE_def)
  have li: "log_index n ?s2 = log_index n s" unfolding log_index_def frame_log_steps ..
  have lb: "log_block ?s2 (log_index n ?s2) = lb" by (simp add: li lb_def)
  obtain s3 where s3: "log_write b (?s2, env) = Ok ((), s3, env)" "log_inv s3" "logged s3 = add_sec n (logged s)"
    "dirty_secs s3 = insert n (dirty_secs ?s2)" "busy_secs s3 = busy_secs ?s2"
    "sec_view s3 = (sec_view ?s2)(lb := sec_view ?s2 n)" "disk s3 = (disk ?s2)[unat lb := sec_view ?s2 n]"
    "dwrites s3 = dwrites ?s2 @ [(unat lb, sec_view ?s2 n)]" "has_buf b n s3"
    "frame ?s2 (s3\<lparr>lh_n := lh_n ?s2, lh_sector := lh_sector ?s2\<rparr>)" "disk s3 ! unat lb = sec_view s3 n"
    using log_write_ok [OF i2 hb2 rm(3,1,2) fr2, of env] hb2 unfolding lb by (auto simp: returns_iff)
  have ls3: "log_start s3 = log_start s" using frame_logD(1) [OF s3(10)] by simp
  have nl: "n \<in> set (logged s3)" using s3(3) by simp
  have "logged s3 ! log_index n s = n" "log_index n s < length (logged s3)"
    using log_index_cases [OF inv, of n] unfolding s3(3) add_sec_def by auto
  then have li3: "log_index n s3 = log_index n s"
    using log_index_cases(1) [OF s3(2) nl] log_invD(11) [OF s3(2)] by (metis nth_eq_iff_index_eq)
  then have lb3: "log_block s3 (log_index n s3) = lb" by (simp add: log_block_def lb_def ls3)
  have "disk s3 ! unat (log_block s3 (log_index n s3)) = sec_view s3 n" unfolding lb3 by (rule s3(11))
  note rf = log_inv_released [OF s3(2,9) this]
  let ?s4 = "released b s3"
  have "busy_secs ?s4 = {}" using rf(4) s3(5) sf(3) lf(2) quietD(3) [OF q] nl by auto
  then have t4: "txn ?s4" using rf(2) nl log_invD(1,2) [OF rf(2)] by (auto simp: txn_def intro: quietI)
  have fr4: "frame s (?s4\<lparr>lh_n := lh_n s, lh_sector := lh_sector s\<rparr>)"
  proof -
    have "frame (s3\<lparr>lh_n := lh_n ?s2, lh_sector := lh_sector ?s2\<rparr>) (?s4\<lparr>lh_n := lh_n s, lh_sector := lh_sector s\<rparr>)"
      by (simp add: frame_def released_def wakeup1_def upd_buf_def)
    then show ?thesis
      by (rule frame_trans [OF frame_trans [OF frame_trans [OF frame_steps(1) frame_steps(2)] s3(10)]])
  qed
  show thesis
    by (rule that [OF b(1) _ s3(1) rf(1) t4 _ _ _ _ fr4])
      (use nl s3(3,6-8) rf(3) v2 has_buf_view [OF log_invD(1) [OF i1] lf(1)] sec_view_loaded [OF bc b(2) r] in auto)
qed

section \<open>Whole transactions\<close>

definition view_writes :: "(u32 \<times> byte list) list \<Rightarrow> (u32 \<Rightarrow> byte list) \<Rightarrow> u32 \<Rightarrow> byte list" where
  "view_writes ws = fold (\<lambda>(n, d) v. v(n := d)) ws"

lemma view_writes_simps [simp]:
  "view_writes [] v = v" "view_writes ((n, d) # ws) v = view_writes ws (v(n := d))"
  by (simp_all add: view_writes_def)

lemma view_writes_cong:
  "v n = v' n \<Longrightarrow> view_writes ws v n = view_writes ws v' n"
proof (induction ws arbitrary: v v')
  case (Cons w ws)
  obtain a d where w: "w = (a, d)" by (cases w)
  have "(v(a := d)) n = (v'(a := d)) n" using Cons.prems by simp
  then show ?case unfolding w view_writes_simps by (rule Cons.IH)
qed simp

text \<open>The log blocks, between the header and the end of the log.\<close>

definition in_log_blocks :: "'a log_st_scheme \<Rightarrow> nat \<Rightarrow> bool" where
  "in_log_blocks s n \<longleftrightarrow> unat (log_start s) < n \<and> n < unat (log_start s) + nat (log_size s)"

lemma frame_lh:
  assumes "frame s (s'\<lparr>lh_n := lh_n s, lh_sector := lh_sector s\<rparr>)"
  shows "log_start s' = log_start s" "log_size s' = log_size s" "log_dev s' = log_dev s" "log_busy s' = log_busy s"
  using frame_logD [OF assms] by simp_all

lemma frame_lh_trans:
  assumes "frame s (s'\<lparr>lh_n := lh_n s, lh_sector := lh_sector s\<rparr>)" "frame s' (s''\<lparr>lh_n := lh_n s', lh_sector := lh_sector s'\<rparr>)"
  shows "frame s (s''\<lparr>lh_n := lh_n s, lh_sector := lh_sector s\<rparr>)"
proof -
  let ?F = "\<lambda>z. z\<lparr>lh_n := lh_n s, lh_sector := lh_sector s\<rparr>"
  have "frame (?F s') (?F (s''\<lparr>lh_n := lh_n s', lh_sector := lh_sector s'\<rparr>))"
    using assms(2) unfolding frame_def by - (drule arg_cong [where f = ?F], simp)
  then show ?thesis using assms(1) by (simp add: frame_trans)
qed

lemma run_writes_ok:
  fixes s :: "'a log_st_scheme"
  assumes "txn s" "\<forall>(n, d)\<in>set ws. unat n < unat (log_start s) \<and> length d = BSIZE"
    "length (logged s) + length ws < NBUF" "int (length (logged s) + length ws) < log_size s"
  shows "returns (run_writes ws (s, env)) (\<lambda>(_, s', env'). env' = env \<and> txn s' \<and>
     frame s (s'\<lparr>lh_n := lh_n s, lh_sector := lh_sector s\<rparr>) \<and> set (logged s') = set (logged s) \<union> fst ` set ws \<and>
     length (logged s') \<le> length (logged s) + length ws \<and>
     (\<forall>n. unat n < unat (log_start s) \<longrightarrow> sec_view s' n = view_writes ws (sec_view s) n) \<and>
     (\<exists>W. dwrites s' = dwrites s @ W \<and> disk s' = apply_writes (disk s) W \<and> (\<forall>w\<in>set W. in_log_blocks s (fst w) \<and> length (snd w) = BSIZE)))"
  using assms
proof (induction ws arbitrary: s)
  case Nil
  have "frame s (s\<lparr>lh_n := lh_n s, lh_sector := lh_sector s\<rparr>)" by simp
  then show ?case using Nil by (auto intro: exI [of _ "[]"])
next
  case (Cons w ws)
  obtain n d where w: "w = (n, d)" by (cases w)
  have n: "unat n < unat (log_start s)" and d: "length d = BSIZE" using Cons.prems(2) by (auto simp: w)
  have room: "length (logged s) + 1 < NBUF" "int (length (logged s)) < log_size s - 1" using Cons.prems(3,4) by auto
  let ?lb = "log_block s (log_index n s)"
  obtain b s3 s4 where u: "bread 1 n (s, env) = Ok (b, loaded b n s, env)"
    "log_write b (set_data b d (loaded b n s), env) = Ok ((), s3, env)" "brelse b s3 = Ok s4"
    "txn s4" "logged s4 = add_sec n (logged s)" "sec_view s4 = (sec_view s)(n := d, ?lb := d)"
    "disk s4 = (disk s)[unat ?lb := d]" "dwrites s4 = dwrites s @ [(unat ?lb, d)]"
    "frame s (s4\<lparr>lh_n := lh_n s, lh_sector := lh_sector s\<rparr>)"
    using update_block [OF Cons.prems(1) n d room, of env] by blast
  note fl = frame_lh [OF u(9)]
  have inv: "log_inv s" using Cons.prems(1) by (simp add: txn_def)
  have "log_index n s \<le> length (logged s)"
    using log_index_cases [OF inv, of n] by (cases "n \<in> set (logged s)") auto
  then have "int (log_index n s) < log_size s - 1" using room(2) by linarith
  note lr = log_block_range [OF inv this]
  have "length (logged s4) \<le> length (logged s) + 1" by (simp add: u(5) add_sec_def)
  then have IH: "returns (run_writes ws (s4, env)) (\<lambda>(_, s', env'). env' = env \<and> txn s' \<and>
     frame s4 (s'\<lparr>lh_n := lh_n s4, lh_sector := lh_sector s4\<rparr>) \<and> set (logged s') = set (logged s4) \<union> fst ` set ws \<and>
     length (logged s') \<le> length (logged s4) + length ws \<and>
     (\<forall>n. unat n < unat (log_start s4) \<longrightarrow> sec_view s' n = view_writes ws (sec_view s4) n) \<and>
     (\<exists>W. dwrites s' = dwrites s4 @ W \<and> disk s' = apply_writes (disk s4) W \<and> (\<forall>w\<in>set W. in_log_blocks s4 (fst w) \<and> length (snd w) = BSIZE)))"
    using Cons.prems u(4) by (intro Cons.IH) (auto simp: fl)
  have run: "run_writes (w # ws) (s, env) = run_writes ws (s4, env)"
    using u(1-3) by (simp add: w thn_run)
  have vw: "view_writes ws (sec_view s4) m = view_writes (w # ws) (sec_view s) m" if "unat m < unat (log_start s)" for m
    unfolding w view_writes_simps by (rule view_writes_cong) (use lr(1) that in \<open>auto simp: u(6)\<close>)
  have lbl: "in_log_blocks s (unat ?lb)" "in_log_blocks s4 = in_log_blocks s"
    using lr(1) \<open>int (log_index n s) < log_size s - 1\<close> by (auto simp: in_log_blocks_def fl fun_eq_iff)
  show ?case unfolding run
  proof (rule returns_mono [OF IH])
    fix v :: "unit \<times> 'a log_st_scheme \<times> 'a log_st_scheme env"
    assume "case v of (_, s', env') \<Rightarrow> env' = env \<and> txn s' \<and>
     frame s4 (s'\<lparr>lh_n := lh_n s4, lh_sector := lh_sector s4\<rparr>) \<and> set (logged s') = set (logged s4) \<union> fst ` set ws \<and>
     length (logged s') \<le> length (logged s4) + length ws \<and>
     (\<forall>n. unat n < unat (log_start s4) \<longrightarrow> sec_view s' n = view_writes ws (sec_view s4) n) \<and>
     (\<exists>W. dwrites s' = dwrites s4 @ W \<and> disk s' = apply_writes (disk s4) W \<and> (\<forall>w\<in>set W. in_log_blocks s4 (fst w) \<and> length (snd w) = BSIZE))"
    then obtain s' W where s': "v = ((), s', env)" "txn s'" "frame s4 (s'\<lparr>lh_n := lh_n s4, lh_sector := lh_sector s4\<rparr>)"
      "set (logged s') = set (logged s4) \<union> fst ` set ws" "length (logged s') \<le> length (logged s4) + length ws"
      "\<And>n. unat n < unat (log_start s4) \<Longrightarrow> sec_view s' n = view_writes ws (sec_view s4) n"
      "dwrites s' = dwrites s4 @ W" "disk s' = apply_writes (disk s4) W" "\<forall>w\<in>set W. in_log_blocks s4 (fst w) \<and> length (snd w) = BSIZE"
      by (cases v) auto
    have "dwrites s' = dwrites s @ ((unat ?lb, d) # W)" "disk s' = apply_writes (disk s) ((unat ?lb, d) # W)"
      using s'(7,8) u(7,8) by simp_all
    moreover have "\<forall>x\<in>set ((unat ?lb, d) # W). in_log_blocks s (fst x) \<and> length (snd x) = BSIZE" using s'(9) lbl d by auto
    moreover have "length (logged s') \<le> length (logged s) + length (w # ws)"
      using s'(5) \<open>length (logged s4) \<le> length (logged s) + 1\<close> by simp
    moreover have "set (logged s') = set (logged s) \<union> fst ` set (w # ws)" using s'(4) u(5) by (auto simp: w)
    moreover have "frame s (s'\<lparr>lh_n := lh_n s, lh_sector := lh_sector s\<rparr>)" using u(9) s'(3) by (rule frame_lh_trans)
    moreover have "\<forall>n. unat n < unat (log_start s) \<longrightarrow> sec_view s' n = view_writes (w # ws) (sec_view s) n"
      using s'(6) vw by (simp add: fl)
    ultimately show "case v of (_, s', env') \<Rightarrow> env' = env \<and> txn s' \<and>
     frame s (s'\<lparr>lh_n := lh_n s, lh_sector := lh_sector s\<rparr>) \<and> set (logged s') = set (logged s) \<union> fst ` set (w # ws) \<and>
     length (logged s') \<le> length (logged s) + length (w # ws) \<and>
     (\<forall>n. unat n < unat (log_start s) \<longrightarrow> sec_view s' n = view_writes (w # ws) (sec_view s) n) \<and>
     (\<exists>W. dwrites s' = dwrites s @ W \<and> disk s' = apply_writes (disk s) W \<and> (\<forall>w\<in>set W. in_log_blocks s (fst w) \<and> length (snd w) = BSIZE))"
      using s'(1,2) by auto
  qed
qed

text \<open>The disk writes of a commit: header, home sectors, empty header.\<close>

definition commit_writes :: "'a log_st_scheme \<Rightarrow> (nat \<times> byte list) list" where
  "commit_writes s =
     (let st = log_start s; h = head_of (lh_n s) (lh_sector s) (sec_view s st) in
      (unat st, h) # map (\<lambda>n. (unat n, sec_view s n)) (logged s) @ [(unat st, head_of 0 (lh_sector s) h)])"

lemma commit_ok:
  fixes s :: "'a log_st_scheme"
  assumes t: "txn s" and n: "0 < lh_n s" "lh_n s < int NBUF"
  shows "returns (commit_trans (s, env)) (\<lambda>(_, s', env'). env' = env \<and> quiet s' \<and> dirty_secs s' = {} \<and>
     \<not> log_busy s' \<and> lh_n s' = 0 \<and> disk s' = apply_writes (disk s) (commit_writes s) \<and>
     dwrites s' = dwrites s @ commit_writes s)"
proof -
  let ?st = "log_start s" and ?k = "nat (lh_n s)"
  let ?h = "head_of (lh_n s) (lh_sector s) (sec_view s ?st)"
  have inv: "log_inv s" and q: "quiet s" using t by (auto simp: txn_def)
  have len: "length (logged s) = ?k" using length_logged [OF inv] .
  have str: "unat ?st < length (disk s)" using log_invD(8,9) [OF inv] n by linarith
  have std: "?st \<notin> dirty_secs s" using log_invD(12,14) [OF inv] by blast
  have card: "card (dirty_secs s) < NBUF" using dirty_card [OF t] len n by linarith
  obtain s1 where s1: "write_head (s, env) = Ok ((), s1, env)" "quiet s1" "frame s s1"
    "sec_view s1 = (sec_view s)(?st := ?h)" "dirty_secs s1 = dirty_secs s"
    "disk s1 = (disk s)[unat ?st := ?h]" "dwrites s1 = dwrites s @ [(unat ?st, ?h)]"
    using write_head_ok [OF q log_invD(3) [OF inv] str std card, of env] by (auto simp: returns_iff)
  note fl1 = frame_logD [OF s1(3)]
  have lb: "int j < log_size s - 1" if "j < ?k" for j using that log_invD(8) [OF inv] by linarith
  have S: "lh_sector s ! j = logged s ! j" "lh_sector s ! j \<in> set (logged s)" if "j < ?k" for j
    using that len nth_mem [of j "logged s"] by (simp_all add: logged_def)
  have room: "log_room s1 [0..<0 + ?k]"
    unfolding log_room_def fl1 s1(5,6)
  proof (intro conjI ballI disjI2)
    show "quiet s1" "log_dev s = 1" "card (dirty_secs s) < NBUF" using s1(2) log_invD(3) [OF inv] card by auto
    have "map ((!) (lh_sector s)) [0..<0 + ?k] = logged s" by (rule nth_equalityI) (auto simp: len S)
    then show "distinct (map ((!) (lh_sector s)) [0..<0 + ?k])" using log_invD(11) [OF inv] by simp
    show "(!) (lh_sector s) ` set [0..<0 + ?k] \<subseteq> dirty_secs s" using S(2) log_invD(14) [OF inv] by auto
  next
    fix j assume j: "j \<in> set [0..<0 + ?k]"
    note lr = log_block_range [OF inv lb [of j], unfolded log_block_def]
    show "unat (?st + of_nat j + 1) < length ((disk s)[unat ?st := ?h])" "?st + of_nat j + 1 \<notin> dirty_secs s"
      using lr j by auto
    show "unat (lh_sector s ! j) < length ((disk s)[unat ?st := ?h])"
      using log_invD(12) [OF inv S(2)] str j by fastforce
    fix i assume i: "i \<in> set [0..<0 + ?k]"
    then show "?st + of_nat j + 1 \<noteq> lh_sector s ! i"
      using log_invD(12) [OF inv S(2), of i] lr(1) j by auto
  qed
  have iw: "inst_writes (sec_view s1) ?st (lh_sector s) [0..<0 + ?k] = map (\<lambda>n. (unat n, sec_view s n)) (logged s)"
  proof (rule nth_equalityI)
    fix j assume "j < length (inst_writes (sec_view s1) ?st (lh_sector s) [0..<0 + ?k])"
    then have j: "j < ?k" by (simp add: inst_writes_def)
    note lr = log_block_range [OF inv lb [OF j]]
    have "log_block s j \<noteq> ?st" using lr(1) by auto
    then have "sec_view s1 (log_block s j) = disk s ! unat (log_block s j)"
      using quiet_view [OF q lr(4)] by (simp add: s1(4))
    also have "\<dots> = sec_view s (logged s ! j)" using log_invD(15) [OF inv, of j] quietD(3) [OF q] j len by simp
    finally show "inst_writes (sec_view s1) ?st (lh_sector s) [0..<0 + ?k] ! j = map (\<lambda>n. (unat n, sec_view s n)) (logged s) ! j"
      using j by (simp add: inst_writes_def S log_block_def len)
  qed (simp add: inst_writes_def len)
  obtain s2 where s2: "for_up 0 ?k install_one (s1, env) = Ok ((), s2, env)" "quiet s2" "frame s1 s2"
    "disk s2 = apply_writes (disk s1) (map (\<lambda>n. (unat n, sec_view s n)) (logged s))"
    "dwrites s2 = dwrites s1 @ map (\<lambda>n. (unat n, sec_view s n)) (logged s)"
    "sec_view s2 = inst_view (sec_view s1) ?st (lh_sector s) [0..<0 + ?k]"
    "dirty_secs s2 = dirty_secs s1 - (!) (lh_sector s) ` {0..<0 + ?k}"
    using install_loop [OF room, of env, unfolded fl1 iw] by (auto simp: returns_iff)
  have d2: "dirty_secs s2 = {}"
  proof -
    have "set (logged s) \<subseteq> (!) (lh_sector s) ` {0..<0 + ?k}" using S len by (auto simp: in_set_conv_nth)
    then show ?thesis using s2(7) s1(5) log_invD(14) [OF inv] by auto
  qed
  note fl2 = frame_logD [OF s2(3), unfolded fl1]
  let ?s2 = "s2\<lparr>lh_n := 0\<rparr>"
  have vst: "sec_view s2 ?st = ?h" unfolding s2(6) inst_view_def
    by (subst fold_upd_other) (use log_invD(12) [OF inv S(2)] s1(4) in fastforce)+
  obtain s3 where s3: "write_head (?s2, env) = Ok ((), s3, env)" "quiet s3" "frame ?s2 s3"
    "dirty_secs s3 = {}" "disk s3 = (disk s2)[unat ?st := head_of 0 (lh_sector s) ?h]"
    "dwrites s3 = dwrites s2 @ [(unat ?st, head_of 0 (lh_sector s) ?h)]"
    using write_head_ok [of ?s2 env] s2(2) str d2 log_invD(3) [OF inv]
    by (auto simp: returns_iff fl2 vst s2(4) s1(6) NBUF_def)
  have lks: "held s3 = []" using quietD(2) [OF s3(2)] .
  note fl3 = frame_logD [OF s3(3)]
  have run: "commit_trans (s, env) = Ok ((), wakeup1 Ch_log (s3\<lparr>log_busy := False\<rparr>), env)"
    unfolding commit_trans_def install_trans_def using n(1) lks s1(1) s2(1) s3(1)
    by (simp add: thn_run fl1 wakeup_def wakeup1_def)
  have "quiet (wakeup1 Ch_log (s3\<lparr>log_busy := False\<rparr>))" "dirty_secs (wakeup1 Ch_log (s3\<lparr>log_busy := False\<rparr>)) = {}"
    using s3(2,4) by (auto simp: quiet_def bc_inv_def dirty_secs_def)
  moreover have "lh_n (wakeup1 Ch_log (s3\<lparr>log_busy := False\<rparr>)) = 0" "\<not> log_busy (wakeup1 Ch_log (s3\<lparr>log_busy := False\<rparr>))"
    using fl3 by (simp_all add: wakeup1_def)
  ultimately show ?thesis unfolding run
    using s3(5,6) s2(4,5) s1(6,7) by (simp add: commit_writes_def Let_def)
qed

section \<open>Recovery after a crash\<close>

text \<open>The log header on a disk, and the writes of recovering it.\<close>

definition hdr_n :: "byte list list \<Rightarrow> u32 \<Rightarrow> int" where
  "hdr_n d st = sint (rd32 (d ! unat st) 0)"

definition hdr_secs :: "byte list list \<Rightarrow> u32 \<Rightarrow> u32 list" where
  "hdr_secs d st = map (\<lambda>j. rd32 (d ! unat st) (4 + 4 * j)) [0..<nat (hdr_n d st)]"

definition redo_writes :: "byte list list \<Rightarrow> u32 \<Rightarrow> (nat \<times> byte list) list" where
  "redo_writes d st = map (\<lambda>j. (unat (hdr_secs d st ! j), d ! (unat st + j + 1))) [0..<nat (hdr_n d st)]"

text \<open>
  A disk that can be booted: a super block that places the log of \<open>lsz\<close> sectors at \<open>st\<close>,
  and a header that lists at most as many home sectors as the log has room for.
\<close>

definition log_disk :: "byte list list \<Rightarrow> u32 \<Rightarrow> int \<Rightarrow> bool" where
  "log_disk d st lsz \<longleftrightarrow> (\<forall>b\<in>set d. length b = BSIZE) \<and> length d \<le> 2 ^ 32 \<and> 1 < unat st \<and> unat st + nat lsz \<le> length d \<and>
     rd32 (d ! 1) 0 - rd32 (d ! 1) 12 = st \<and> sint (rd32 (d ! 1) 12) = lsz \<and>
     hdr_n d st < lsz \<and> 0 < lsz \<and> hdr_n d st \<le> int LOGSIZE \<and> (\<forall>n\<in>set (hdr_secs d st). unat n < unat st)"

lemma frame_lh2:
  assumes "frame (s\<lparr>lh_n := a, lh_sector := b\<rparr>) s'"
  shows "log_start s' = log_start s" "log_dev s' = log_dev s" "lh_n s' = a" "lh_sector s' = b"
  using frame_logD [OF assms] by simp_all

lemma read_head_ok:
  fixes s :: "'a log_st_scheme"
  assumes q: "quiet s" "dirty_secs s = {}" "log_dev s = 1" "unat (log_start s) < length (disk s)"
    and n: "hdr_n (disk s) (log_start s) \<le> int LOGSIZE" "length (lh_sector s) = LOGSIZE"
  shows "returns (read_head (s, env)) (\<lambda>(_, s', env'). env' = env \<and> quiet s' \<and> dirty_secs s' = {} \<and>
     sec_view s' = sec_view s \<and> disk s' = disk s \<and> dwrites s' = dwrites s \<and>
     log_start s' = log_start s \<and> log_dev s' = 1 \<and> lh_n s' = hdr_n (disk s) (log_start s) \<and> length (lh_sector s') = LOGSIZE \<and>
     (\<forall>j<length (hdr_secs (disk s) (log_start s)). lh_sector s' ! j = hdr_secs (disk s) (log_start s) ! j))"
proof -
  let ?st = "log_start s" and ?d = "disk s ! unat (log_start s)"
  have v: "sec_view s ?st = ?d" using quiet_view [OF q(1), of ?st] q(2) by simp
  have "card (dirty_secs s) < NBUF" using q(2) by (simp add: NBUF_def)
  from quiet_read [OF q(1,4) this, of env] obtain b where
    b: "bread 1 ?st (s, env) = Ok (b, loaded b ?st s, env)" "b_data (bufs (loaded b ?st s) ! b) = ?d"
      "brelse b (loaded b ?st s) = Ok (released b (loaded b ?st s))" "quiet (released b (loaded b ?st s))"
      "sec_view (released b (loaded b ?st s)) = sec_view s" "dirty_secs (released b (loaded b ?st s)) = dirty_secs s"
    unfolding v by blast
  let ?s1 = "loaded b ?st s" and ?n = "hdr_n (disk s) ?st"
  let ?secs = "dec_sectors ?d 0 (nat ?n) (lh_sector s)"
  let ?F = "\<lambda>z. z\<lparr>lh_n := ?n, lh_sector := ?secs\<rparr>"
  have "brelse b (?F ?s1) = Ok (?F (released b ?s1))"
    using b(3) by (auto simp: brelse_def released_def wakeup_def wakeup1_def upd_buf_def Let_def lock_def unlock_def split: if_splits)
  then have run: "read_head (s, env) = Ok ((), ?F (released b ?s1), env)"
    unfolding read_head_def using b(1,2) q(3) n(1) by (simp add: thn_run Let_def hdr_n_def)
  have "?secs ! j = hdr_secs (disk s) ?st ! j" if "j < length (hdr_secs (disk s) ?st)" for j
    using that n by (simp add: hdr_secs_def dec_sectors_nth)
  then show ?thesis unfolding run using b(4-6) q n by simp
qed

lemma recover_ok:
  fixes s :: "'a log_st_scheme"
  assumes q: "quiet s" "dirty_secs s = {}" "log_dev s = 1" "log_start s = st" "length (lh_sector s) = LOGSIZE"
    and d: "log_disk (disk s) st lsz"
  shows "returns (recover_from_log (s, env)) (\<lambda>(_, s', env'). env' = env \<and> quiet s' \<and> dirty_secs s' = {} \<and>
     (\<exists>h. hdr_n [h] 0 = 0 \<and> length h = BSIZE \<and> disk s' = apply_writes (disk s) (redo_writes (disk s) st @ [(unat st, h)]) \<and>
       dwrites s' = dwrites s @ redo_writes (disk s) st @ [(unat st, h)]))"
proof -
  let ?n = "hdr_n (disk s) st" and ?D = "disk s"
  let ?k = "nat ?n"
  have D: "unat st < length ?D" "?n \<le> int LOGSIZE" "length ?D \<le> 2 ^ 32" "unat st + nat lsz \<le> length ?D" "?n < lsz" "0 < lsz"
    "\<forall>n\<in>set (hdr_secs ?D st). unat n < unat st"
    using d by (auto simp: log_disk_def)
  have k: "length (hdr_secs ?D st) = ?k" by (simp add: hdr_secs_def)
  obtain s1 where s1: "read_head (s, env) = Ok ((), s1, env)" "quiet s1" "dirty_secs s1 = {}" "sec_view s1 = sec_view s"
    "disk s1 = ?D" "dwrites s1 = dwrites s" "log_start s1 = st" "log_dev s1 = 1" "lh_n s1 = ?n" "length (lh_sector s1) = LOGSIZE"
    "\<And>j. j < ?k \<Longrightarrow> lh_sector s1 ! j = hdr_secs ?D st ! j"
    using read_head_ok [OF q(1-3) _ _ q(5), of env] D(1,2) unfolding q(4) k by (auto simp: returns_iff)
  have lb: "unat (st + of_nat j + 1) = unat st + j + 1" "unat st + j + 1 < length ?D" if "j < ?k" for j
  proof -
    show "unat st + j + 1 < length ?D" using D(4,5) that by linarith
    then show "unat (st + of_nat j + 1) = unat st + j + 1"
      using unat_log_block [of s1 j] D(3) by (simp add: log_block_def s1(7))
  qed
  have S: "unat (lh_sector s1 ! j) < unat st" if "j < ?k" for j
    using D(7) nth_mem [of j "hdr_secs ?D st"] k s1(11) [OF that] that by simp
  have room: "log_room s1 [0..<0 + ?k]"
    unfolding log_room_def s1(3,5,7,8)
  proof (intro conjI ballI disjI1)
    show "quiet s1" "(1 :: u32) = 1" "card ({} :: u32 set) + 1 < NBUF" using s1(2) by (auto simp: NBUF_def)
    fix j assume "j \<in> set [0..<0 + ?k]"
    then have j: "j < ?k" by simp
    show "unat (st + of_nat j + 1) < length ?D" "unat (lh_sector s1 ! j) < length ?D" "st + of_nat j + 1 \<notin> {}"
      using lb [OF j] S [OF j] D(1) by simp_all
    fix i assume "i \<in> set [0..<0 + ?k]"
    then show "st + of_nat j + 1 \<noteq> lh_sector s1 ! i" using lb(1) [OF j] S [of i] by auto
  qed
  have iw: "inst_writes (sec_view s1) st (lh_sector s1) [0..<0 + ?k] = redo_writes ?D st"
    unfolding inst_writes_def redo_writes_def
  proof (rule map_cong)
    fix j assume "j \<in> set [0..<?k]"
    then have j: "j < ?k" by simp
    show "(unat (lh_sector s1 ! j), sec_view s1 (st + of_nat j + 1)) = (unat (hdr_secs ?D st ! j), ?D ! (unat st + j + 1))"
      using s1(11) [OF j] quiet_view [OF s1(2), of "st + of_nat j + 1"] s1(3,5) lb(1) [OF j] by simp
  qed simp
  obtain s2 where s2: "for_up 0 ?k install_one (s1, env) = Ok ((), s2, env)" "quiet s2" "frame s1 s2"
    "disk s2 = apply_writes ?D (redo_writes ?D st)" "dwrites s2 = dwrites s @ redo_writes ?D st" "dirty_secs s2 = {}"
    using install_loop [OF room, of env, unfolded s1(3,5-7) iw] by (auto simp: returns_iff)
  note fl2 = frame_logD [OF s2(3)]
  let ?s2 = "s2\<lparr>lh_n := 0\<rparr>"
  let ?h = "head_of 0 (lh_sector s1) (sec_view s2 st)"
  have lv: "length (sec_view s2 st) = BSIZE" using sec_view_length [OF quietD(1) [OF s2(2)], of st] D(1) s2(4) by simp
  obtain s3 where s3: "write_head (?s2, env) = Ok ((), s3, env)" "quiet s3" "dirty_secs s3 = {}"
    "disk s3 = (disk s2)[unat st := ?h]" "dwrites s3 = dwrites s2 @ [(unat st, ?h)]"
    using write_head_ok [of ?s2 env] s2(2,4,6) D(1) s1(7,8)
    by (auto simp: returns_iff fl2 NBUF_def)
  have run: "recover_from_log (s, env) = Ok ((), s3, env)"
    unfolding recover_from_log_def install_trans_def using s1(1,9) s2(1) s3(1) by (simp add: thn_run)
  have "hdr_n [?h] 0 = 0" "length ?h = BSIZE" using lv by (simp_all add: hdr_n_def head_of_count)
  then show ?thesis unfolding run using s3 s2 by auto
qed

text \<open>\<open>initlog\<close> on a machine that has just been switched on.\<close>

lemma initlog_ok:
  fixes t :: "'a log_st_scheme"
  assumes d: "log_disk d st lsz" and t: "held t = []" "length (lh_sector t) = LOGSIZE"
  shows "returns (initlog (cold d t, env)) (\<lambda>(_, s', env'). env' = env \<and> quiet s' \<and>
     (\<exists>h. hdr_n [h] 0 = 0 \<and> length h = BSIZE \<and> disk s' = apply_writes d (redo_writes d st @ [(unat st, h)]) \<and>
       dwrites s' = redo_writes d st @ [(unat st, h)]))"
proof -
  let ?s = "cold d t"
  have bl: "\<forall>b\<in>set d. length b = BSIZE" "1 < length d" using d by (auto simp: log_disk_def)
  have "free_bufs ?s = {0..<NBUF}" using cold_view(3) [OF bl(1)] .
  have dirty: "dirty_secs ?s = {}" by (auto simp: dirty_secs_def zero_buf_def)
  have q: "quiet ?s" using cold_inv [OF bl(1), of t] t by (auto simp: quiet_def zero_buf_def)
  have r1: "unat (1 :: u32) < length (disk ?s)" using bl(2) by simp
  have v: "sec_view ?s 1 = d ! 1" using cold_view(1) [OF bl(1), of t 1] by simp
  have "card (dirty_secs ?s) < NBUF" using dirty by (simp add: NBUF_def)
  from quiet_read [OF q r1 this, of env] obtain b where
    b: "bread 1 1 (?s, env) = Ok (b, loaded b 1 ?s, env)" "b_data (bufs (loaded b 1 ?s) ! b) = d ! 1"
      "brelse b (loaded b 1 ?s) = Ok (released b (loaded b 1 ?s))" "quiet (released b (loaded b 1 ?s))"
      "dirty_secs (released b (loaded b 1 ?s)) = {}"
    unfolding v dirty by blast
  let ?s1 = "released b (loaded b 1 ?s)"
  let ?s2 = "?s1\<lparr>log_start := st, log_size := lsz, log_dev := 1\<rparr>"
  have run: "initlog (?s, env) = recover_from_log (?s2, env)"
    unfolding initlog_def readsb_def ROOTDEV_def using b(1-3) d
    by (simp add: thn_run LOGSIZE_def BSIZE_def log_disk_def)
  have lt: "lh_sector (cold d t) = lh_sector t" by (simp add: cold_def binit_def ideinit_def)
  have "quiet ?s2" "dirty_secs ?s2 = {}" using b(4,5) by (simp_all add: quiet_def bc_inv_def dirty_secs_def)
  moreover have "disk ?s2 = d" "dwrites ?s2 = []" by simp_all
  ultimately show ?thesis unfolding run
    using recover_ok [of ?s2 st lsz env] d t(2) lt by (auto simp: returns_iff)
qed

subsection \<open>What recovery makes of a disk\<close>

lemma redo_none: "hdr_n d st \<le> 0 \<Longrightarrow> redo_writes d st = []"
  by (simp add: redo_writes_def)

text \<open>\<open>committed d st L V\<close>: the log on disk \<open>d\<close> gives the sectors \<open>L\<close> the contents \<open>V\<close>.\<close>

definition committed :: "byte list list \<Rightarrow> u32 \<Rightarrow> u32 list \<Rightarrow> (u32 \<Rightarrow> byte list) \<Rightarrow> bool" where
  "committed d st L V \<longleftrightarrow> hdr_n d st = int (length L) \<and> hdr_secs d st = L \<and> (\<forall>j<length L. d ! (unat st + j + 1) = V (L ! j))"

lemma redo_committed:
  assumes "committed d st L V"
  shows "redo_writes d st = map (\<lambda>n. (unat n, V n)) L"
  using assms by (intro nth_equalityI) (auto simp: redo_writes_def committed_def)

text \<open>Two disks with the same super block, header and log blocks recover from the same log.\<close>

lemma committed_cong:
  "(\<And>n. unat st \<le> n \<Longrightarrow> d' ! n = d ! n) \<Longrightarrow> committed d st L V \<Longrightarrow> committed d' st L V"
  unfolding committed_def hdr_n_def hdr_secs_def by auto

lemma log_disk_cong:
  assumes "log_disk d st lsz" "length d' = length d" "\<forall>b\<in>set d'. length b = BSIZE" "d' ! 1 = d ! 1"
    and "hdr_n d' st \<le> int LOGSIZE" "hdr_n d' st < lsz" "\<forall>n\<in>set (hdr_secs d' st). unat n < unat st"
  shows "log_disk d' st lsz"
  using assms by (simp add: log_disk_def)

lemma blocks_apply_writes:
  "\<forall>b\<in>set d. length b = BSIZE \<Longrightarrow> \<forall>w\<in>set ws. length (snd w) = BSIZE \<Longrightarrow> \<forall>b\<in>set (apply_writes d ws). length b = BSIZE"
proof (induction ws arbitrary: d)
  case (Cons w ws)
  have "\<forall>b\<in>set (d[fst w := snd w]). length b = BSIZE"
    using Cons.prems by (auto dest: set_update_subset_insert [THEN subsetD])
  then show ?case using Cons.IH [of "d[fst w := snd w]"] Cons.prems by simp
qed simp

lemma view_writes_disk:
  assumes "unat m < length d" "v m = d ! unat m"
  shows "view_writes ws v m = apply_writes d (map (\<lambda>(n, x). (unat n, x)) ws) ! unat m"
  using assms
proof (induction ws arbitrary: d v)
  case (Cons w ws)
  obtain n x where w: "w = (n, x)" by (cases w)
  have "(v(n := x)) m = (d[unat n := x]) ! unat m" using Cons.prems by (cases "m = n") (auto simp: word_unat_eq_iff)
  then have "view_writes ws (v(n := x)) m = apply_writes (d[unat n := x]) (map (\<lambda>(n, x). (unat n, x)) ws) ! unat m"
    using Cons.prems(1) by (intro Cons.IH) auto
  then show ?case unfolding w by simp
qed simp

lemma unat_image_iff: "unat (m :: u32) \<in> unat ` A \<longleftrightarrow> m \<in> A"
  by (simp add: inj_image_mem_iff inj_def word_unat_eq_iff)

lemma view_writes_other: "m \<notin> fst ` set ws \<Longrightarrow> view_writes ws v m = v m"
proof (induction ws arbitrary: v)
  case (Cons w ws)
  then show ?case by (cases w) auto
qed simp

text \<open>Installing sectors with their final contents, from a disk that differs only in these.\<close>

lemma apply_home_writes:
  fixes m :: u32
  assumes "distinct L" "unat m < length d" "m \<notin> set L \<Longrightarrow> d ! unat m = V m"
  shows "apply_writes d (map (\<lambda>n. (unat n, V n)) L) ! unat m = V m"
proof (cases "m \<in> set L")
  case True
  have "distinct (map unat L)" using assms(1) by (simp add: distinct_map inj_on_def word_unat_eq_iff)
  then show ?thesis using True assms(2) by (intro apply_writes_nth) (auto simp: comp_def)
next
  case False
  then have "unat m \<notin> unat ` set L" by (simp add: unat_image_iff)
  then show ?thesis using assms(3) [OF False] by (subst apply_writes_other) (auto simp: image_iff)
qed

lemma apply_home_prefix:
  fixes m :: u32
  assumes "distinct L" "unat m < length d" "m \<notin> set L \<Longrightarrow> d ! unat m = V m"
  shows "m \<notin> set L \<Longrightarrow> apply_writes d (take k (map (\<lambda>n. (unat n, V n)) L)) ! unat m = V m"
proof -
  assume m: "m \<notin> set L"
  then have "m \<notin> set (take k L)" by (meson in_set_takeD)
  then have "unat m \<notin> unat ` set (take k L)" by (simp add: unat_image_iff)
  then show ?thesis using assms(3) [OF m] by (subst apply_writes_other) (auto simp: image_iff take_map)
qed

subsection \<open>Crash atomicity\<close>

lemma boot_home:
  fixes t :: "'a log_st_scheme"
  assumes "log_disk d st lsz" "held t = []" "length (lh_sector t) = LOGSIZE"
    and "\<And>n. n < unat st \<Longrightarrow> apply_writes d (redo_writes d st) ! n = X ! n"
  shows "returns (initlog (cold d t, env)) (\<lambda>(_, r, _). \<forall>n<unat st. disk r ! n = X ! n)"
  by (rule returns_mono [OF initlog_ok [OF assms(1-3)]]) (use assms(4) in auto)

lemma crash_before_commit:
  assumes d: "log_disk d st lsz" "hdr_n d st = 0" and W: "\<forall>w\<in>set W. unat st < fst w \<and> length (snd w) = BSIZE"
  defines "d' \<equiv> apply_writes d W"
  shows "log_disk d' st lsz" "n < unat st \<Longrightarrow> apply_writes d' (redo_writes d' st) ! n = d ! n"
proof -
  have same: "d' ! n = d ! n" if "n \<le> unat st" for n
    unfolding d'_def using W that by (intro apply_writes_other) fastforce
  have h: "hdr_n d' st = 0" using same d(2) by (simp add: hdr_n_def)
  then have "hdr_secs d' st = []" by (simp add: hdr_secs_def)
  moreover have "\<forall>b\<in>set d'. length b = BSIZE"
    unfolding d'_def using d(1) W by (intro blocks_apply_writes) (auto simp: log_disk_def)
  moreover have "1 < unat st" "0 < lsz" using d(1) by (auto simp: log_disk_def)
  ultimately show "log_disk d' st lsz"
    using d(1) h same [of 1] by (intro log_disk_cong [OF d(1)]) (auto simp: d'_def LOGSIZE_def)
  show "n < unat st \<Longrightarrow> apply_writes d' (redo_writes d' st) ! n = d ! n"
    using h same by (simp add: redo_none)
qed

lemma crash_after_commit:
  assumes d: "log_disk d st lsz" and L: "distinct L" "\<forall>n\<in>set L. unat n < unat st \<and> n \<noteq> 1" "length L \<le> LOGSIZE" "int (length L) < lsz"
    and V: "\<forall>n\<in>set L. length (V n) = BSIZE" "\<And>m. unat m < unat st \<Longrightarrow> m \<notin> set L \<Longrightarrow> d ! unat m = V m"
    and d': "d' = apply_writes d ((unat st, h) # take k (map (\<lambda>n. (unat n, V n)) L))" "length h = BSIZE"
    and c: "committed (d[unat st := h]) st L V"
  shows "log_disk d' st lsz" "unat m < unat st \<Longrightarrow> apply_writes d' (redo_writes d' st) ! unat m = V m"
proof -
  let ?I = "take k (map (\<lambda>n. (unat n, V n)) L)"
  have str: "unat st < length d" "1 < unat st" "length d \<le> 2 ^ 32" using d by (auto simp: log_disk_def)
  have IL: "fst w \<in> unat ` set L" "length (snd w) = BSIZE" if "w \<in> set ?I" for w
    using in_set_takeD [OF that] V(1) by auto
  have "d' ! n = (d[unat st := h]) ! n" if "unat st \<le> n" for n
    unfolding d'(1) apply_writes_simps using IL(1) L(2) that
    by (subst apply_writes_other) (auto simp: image_iff not_le dest!: IL(1) leD)
  then have c': "committed d' st L V" using c by (rule committed_cong)
  have "d' ! 1 = d ! 1"
  proof -
    have "1 \<notin> fst ` set ?I"
    proof
      assume "1 \<in> fst ` set ?I"
      then have "unat (1 :: u32) \<in> unat ` set L" using IL(1) by auto
      then show False using L(2) unfolding unat_image_iff by blast
    qed
    then show ?thesis unfolding d'(1) using str by (simp add: apply_writes_other)
  qed
  moreover have "\<forall>b\<in>set d'. length b = BSIZE"
    unfolding d'(1) using d IL(2) d'(2) by (intro blocks_apply_writes) (auto simp: log_disk_def)
  ultimately show "log_disk d' st lsz"
    using c' L by (intro log_disk_cong [OF d]) (auto simp: d'(1) committed_def)
  assume m: "unat m < unat st"
  have "d' ! unat m = V m" if "m \<notin> set L"
    unfolding d'(1) apply_writes_simps fst_conv snd_conv
    using m that str V(2) [OF m] by (intro apply_home_prefix [OF L(1)]) auto
  then show "apply_writes d' (redo_writes d' st) ! unat m = V m"
    unfolding redo_committed [OF c'] using m str by (intro apply_home_writes [OF L(1)]) (auto simp: d'(1))
qed

lemma crash_erased:
  assumes d: "log_disk d st lsz" and h: "hdr_n [h] 0 = 0" "length h = BSIZE"
  defines "d' \<equiv> d[unat st := h]"
  shows "log_disk d' st lsz" "n < unat st \<Longrightarrow> apply_writes d' (redo_writes d' st) ! n = d ! n"
proof -
  have str: "unat st < length d" "1 < unat st" "0 < lsz" using d by (auto simp: log_disk_def)
  then have z: "hdr_n d' st = 0" using h(1) by (simp add: hdr_n_def d'_def)
  then have "hdr_secs d' st = []" by (simp add: hdr_secs_def)
  moreover have "\<forall>b\<in>set d'. length b = BSIZE"
    using d h(2) unfolding d'_def log_disk_def by (auto dest: set_update_subset_insert [THEN subsetD])
  ultimately show "log_disk d' st lsz"
    using z str by (intro log_disk_cong [OF d]) (auto simp: d'_def)
  show "n < unat st \<Longrightarrow> apply_writes d' (redo_writes d' st) ! n = d ! n"
    using z by (simp add: redo_none d'_def)
qed

text \<open>The log on disk right after the commit record has been written.\<close>

lemma committed_head:
  fixes s :: "'a log_st_scheme"
  assumes t: "txn s" and n: "lh_n s \<le> int LOGSIZE"
  shows "committed ((disk s)[unat (log_start s) := head_of (lh_n s) (lh_sector s) (sec_view s (log_start s))])
    (log_start s) (logged s) (sec_view s)"
proof -
  let ?st = "log_start s"
  let ?h = "head_of (lh_n s) (lh_sector s) (sec_view s ?st)"
  have inv: "log_inv s" and q: "quiet s" using t by (auto simp: txn_def)
  have str: "unat ?st < length (disk s)" using log_invD(5,8,9) [OF inv] by linarith
  have lv: "length (sec_view s ?st) = BSIZE" using sec_view_length [OF log_invD(1) [OF inv] str] .
  have len: "nat (lh_n s) = length (logged s)" using length_logged [OF inv] by simp
  have h: "hdr_n ((disk s)[unat ?st := ?h]) ?st = int (length (logged s))"
    using head_of_count [OF lv log_invD(5) [OF inv] n] str log_invD(5) [OF inv] by (simp add: hdr_n_def flip: len)
  have "hdr_secs ((disk s)[unat ?st := ?h]) ?st = logged s"
  proof (rule nth_equalityI)
    fix j assume "j < length (hdr_secs ((disk s)[unat ?st := ?h]) ?st)"
    then have j: "j < nat (lh_n s)" using h by (simp add: hdr_secs_def len)
    then show "hdr_secs ((disk s)[unat ?st := ?h]) ?st ! j = logged s ! j"
      using head_of_sector [OF lv log_invD(5) [OF inv] n j] str h log_invD(5-7) [OF inv] by (simp add: hdr_secs_def logged_def)
  qed (simp add: hdr_secs_def h)
  moreover have "(disk s)[unat ?st := ?h] ! (unat ?st + j + 1) = sec_view s (logged s ! j)" if "j < length (logged s)" for j
  proof -
    have "int j < log_size s - 1" using that log_invD(8) [OF inv] len by linarith
    note lr = log_block_range [OF inv this]
    show ?thesis using log_invD(15) [OF inv that] quietD(3) [OF q] lr(1) by simp
  qed
  ultimately show ?thesis using h by (simp add: committed_def)
qed

text \<open>Stopping anywhere after the first write of a commit.\<close>

lemma crash_in_commit:
  fixes s t :: "'a log_st_scheme"
  assumes s: "txn s" "log_disk (disk s) (log_start s) (log_size s)" "1 \<notin> set (logged s)" "lh_n s < int NBUF"
    and same: "\<forall>m. unat m < unat (log_start s) \<longrightarrow> m \<notin> set (logged s) \<longrightarrow> disk s ! unat m = sec_view s m"
    and t: "held t = []" "length (lh_sector t) = LOGSIZE"
    and X: "\<forall>m. unat m < unat (log_start s) \<longrightarrow> sec_view s m = X ! unat m"
  shows "returns (initlog (cold (apply_writes (disk s) (take (Suc j) (commit_writes s))) t, env))
      (\<lambda>(_, r, _). \<forall>n<unat (log_start s). disk r ! n = X ! n)"
    and "n < unat (log_start s) \<Longrightarrow> apply_writes (disk s) (commit_writes s) ! n = X ! n"
proof -
  let ?st = "log_start s"
  let ?h = "head_of (lh_n s) (lh_sector s) (sec_view s ?st)"
  let ?hz = "head_of 0 (lh_sector s) ?h" and ?I = "map (\<lambda>n. (unat n, sec_view s n)) (logged s)"
  have inv: "log_inv s" using s(1) by (simp add: txn_def)
  have str: "unat ?st < length (disk s)" "length (disk s) \<le> 2 ^ 32" using s(2) by (auto simp: log_disk_def)
  have lt: "lh_n s \<le> int LOGSIZE" using log_invD(6) [OF inv] .
  have lv: "length (sec_view s m) = BSIZE" if "unat m < length (disk s)" for m
    using sec_view_length [OF log_invD(1) [OF inv] that] .
  have cw: "commit_writes s = (unat ?st, ?h) # ?I @ [(unat ?st, ?hz)]" by (simp add: commit_writes_def Let_def)
  have h: "length ?h = BSIZE" "length ?hz = BSIZE" "hdr_n [?hz] 0 = 0"
    using lv [OF str(1)] by (simp_all add: hdr_n_def head_of_count)
  have len: "int (length (logged s)) = lh_n s" using length_logged [OF inv] log_invD(5) [OF inv] by simp
  have L: "distinct (logged s)" "\<forall>n\<in>set (logged s). unat n < unat ?st \<and> n \<noteq> 1" "length (logged s) \<le> LOGSIZE"
    "int (length (logged s)) < log_size s"
    using log_invD(8,11,12) [OF inv] s(3) lt len by auto
  have V: "\<forall>n\<in>set (logged s). length (sec_view s n) = BSIZE" using L(2) str lv by fastforce
  note ac = crash_after_commit [OF s(2) L V same [rule_format] refl h(1) committed_head [OF s(1) lt]]
  have words: "\<exists>m :: u32. unat m = n" if "n < unat ?st" for n
    using that unat_of_nat32 [of n] str by (intro exI [of _ "of_nat n"]) simp
  have home: "apply_writes (disk s) ((unat ?st, ?h) # ?I) ! n = X ! n" if n: "n < unat ?st" for n
  proof -
    obtain m :: u32 where m: "unat m = n" using words [OF n] by blast
    have "apply_writes ((disk s)[unat ?st := ?h]) ?I ! unat m = sec_view s m"
      using n m str same by (intro apply_home_writes L(1)) auto
    then show ?thesis using X m n by simp
  qed
  then show "n < unat ?st \<Longrightarrow> apply_writes (disk s) (commit_writes s) ! n = X ! n"
    by (simp add: cw)
  show "returns (initlog (cold (apply_writes (disk s) (take (Suc j) (commit_writes s))) t, env))
      (\<lambda>(_, r, _). \<forall>n<unat ?st. disk r ! n = X ! n)"
  proof (cases "j \<le> length ?I")
    case True
    let ?d = "apply_writes (disk s) ((unat ?st, ?h) # take j ?I)"
    have "apply_writes ?d (redo_writes ?d ?st) ! n = X ! n" if n: "n < unat ?st" for n
      using words [OF n] ac(2) [of _ j] X n by auto
    then show ?thesis using True boot_home [OF ac(1) [of j] t] by (simp add: cw)
  next
    case False
    let ?d = "apply_writes (disk s) ((unat ?st, ?h) # ?I)"
    have "log_disk ?d ?st (log_size s)" using ac(1) [of "length ?I"] by simp
    note ce = crash_erased [OF this h(3,2)]
    have "take j (?I @ [(unat ?st, ?hz)]) = ?I @ [(unat ?st, ?hz)]" using False by simp
    then show ?thesis using boot_home [OF ce(1) t, of X env] ce(2) home by (simp add: cw)
  qed
qed

text \<open>A crash falls either into the writes before the commit or into those behind it.\<close>

lemma crash_split:
  assumes "\<And>k. returns (initlog (cold (apply_writes d (take k W)) t, env)) (\<lambda>(_, r, _). \<forall>n<l. disk r ! n = old ! n)"
    and "\<And>j. returns (initlog (cold (apply_writes (apply_writes d W) (take (Suc j) W')) t, env)) (\<lambda>(_, r, _). \<forall>n<l. disk r ! n = new ! n)"
  shows "returns (initlog (cold (apply_writes d (take k (W @ W'))) t, env)) (\<lambda>(_, r, _). \<forall>n<l. disk r ! n = (if k < length W + 1 then old else new) ! n)"
proof (cases "k \<le> length W")
  case True
  then show ?thesis using assms(1) [of k] by simp
next
  case False
  then obtain j where j: "k = length W + Suc j" by (metis add_Suc_right less_imp_Suc_add not_le)
  then have "apply_writes d (take k (W @ W')) = apply_writes (apply_writes d W) (take (Suc j) W')" by simp
  then show ?thesis using assms(2) [of j] j by simp
qed

text \<open>C1: a file system transaction is atomic with respect to crashes. Let a transaction change any
  home sectors other than the super block (up to nine, as many as the buffer cache can pin) through
  bread, log_write and brelse, and commit. Whenever the machine stops, that is after any prefix of
  the disk writes, a reboot with initlog brings the home sectors of the disk either to their contents
  from before the transaction or to those from after it: to the former before the header is written,
  to the latter from then on. Without a crash the changes are all on the disk in the end.\<close>

theorem log_crash_atomic:
  fixes s :: "'a log_st_scheme"
  assumes "txn s" "logged s = []" "log_disk (disk s) (log_start s) (log_size s)" "hdr_n (disk s) (log_start s) = 0"
    and ws: "\<forall>(n, d)\<in>set ws. unat n < unat (log_start s) \<and> n \<noteq> 1 \<and> length d = BSIZE"
      "length ws < NBUF" "int (length ws) < log_size s"
  defines "new \<equiv> apply_writes (disk s) (map (\<lambda>(n, d). (unat n, d)) ws)"
  shows "returns (thn (run_writes ws) (\<lambda>_. commit_trans) (s, env)) (\<lambda>(_, s', _).
     (\<forall>n<unat (log_start s). disk s' ! n = new ! n) \<and>
     (\<exists>W c. dwrites s' = dwrites s @ W \<and> c \<le> length W \<and> (\<forall>k\<le>length W. \<forall>t :: 'a log_st_scheme.
        held t = [] \<and> length (lh_sector t) = LOGSIZE \<longrightarrow>
        returns (initlog (cold (apply_writes (disk s) (take k W)) t, env))
          (\<lambda>(_, r, _). \<forall>n<unat (log_start s). disk r ! n = (if k < c then disk s else new) ! n))))"
proof -
  let ?st = "log_start s" and ?D = "disk s"
  have inv: "log_inv s" and q: "quiet s" using assms(1) by (auto simp: txn_def)
  have str: "unat ?st < length ?D" "length ?D \<le> 2 ^ 32" using assms(3) by (auto simp: log_disk_def)
  have v0: "sec_view s m = ?D ! unat m" for m
    using quiet_view [OF q, of m] log_invD(14) [OF inv] assms(2) by simp
  have new: "view_writes ws (sec_view s) m = new ! unat m" if "unat m < unat ?st" for m
    unfolding new_def using that str v0 by (intro view_writes_disk) auto
  obtain s1 W1 where s1: "run_writes ws (s, env) = Ok ((), s1, env)" "txn s1"
    "frame s (s1\<lparr>lh_n := lh_n s, lh_sector := lh_sector s\<rparr>)" "set (logged s1) = fst ` set ws"
    "length (logged s1) \<le> length ws" "\<And>n. unat n < unat ?st \<Longrightarrow> sec_view s1 n = view_writes ws (sec_view s) n"
    "dwrites s1 = dwrites s @ W1" "disk s1 = apply_writes ?D W1" "\<forall>w\<in>set W1. in_log_blocks s (fst w) \<and> length (snd w) = BSIZE"
    using run_writes_ok [OF assms(1), of ws env] ws assms(2) by (auto simp: returns_iff split_def)
  note fl = frame_lh [OF s1(3)]
  have inv1: "log_inv s1" using s1(2) by (simp add: txn_def)
  have len1: "lh_n s1 = int (length (logged s1))" using length_logged [OF inv1] log_invD(5) [OF inv1] by simp
  have new1: "sec_view s1 m = new ! unat m" if "unat m < unat ?st" for m using s1(6) new that by simp
  have w1: "\<forall>w\<in>set (take k W1). unat ?st < fst w \<and> length (snd w) = BSIZE" for k
    using s1(9) by (auto simp: in_log_blocks_def dest: in_set_takeD)
  have before: "returns (initlog (cold (apply_writes ?D (take k W1)) t, env)) (\<lambda>(_, r, _). \<forall>n<unat ?st. disk r ! n = ?D ! n)"
    if "held t = []" "length (lh_sector t) = LOGSIZE" for k and t :: "'a log_st_scheme"
    using crash_before_commit [OF assms(3,4) w1 [of k]] that by (intro boot_home) auto
  show ?thesis
  proof (cases "ws = []")
    case True
    then have s1s: "s1 = s" "W1 = []" using s1(1,7) by auto
    have "lh_n s = 0" using len1 assms(2) s1s by simp
    then have run: "thn (run_writes ws) (\<lambda>_. commit_trans) (s, env) = Ok ((), wakeup1 Ch_log (s\<lparr>log_busy := False\<rparr>), env)"
      using True log_invD(2) [OF inv] by (simp add: commit_trans_def wakeup_def wakeup1_def)
    have "new = ?D" using True by (simp add: new_def)
    then show ?thesis unfolding run using before [where k = 0] by (auto intro!: exI [of _ "[]"])
  next
    case False
    have ne: "logged s1 \<noteq> []" using s1(4) False by auto
    have lt: "lh_n s1 \<le> int LOGSIZE" "lh_n s1 < int NBUF" "0 < lh_n s1"
      using len1 s1(5) ws(2) ne by (auto simp: NBUF_def LOGSIZE_def)
    obtain s2 where s2: "commit_trans (s1, env) = Ok ((), s2, env)" "disk s2 = apply_writes (disk s1) (commit_writes s1)"
      "dwrites s2 = dwrites s1 @ commit_writes s1"
      using commit_ok [OF s1(2) lt(3,2), of env] by (auto simp: returns_iff)
    have run: "thn (run_writes ws) (\<lambda>_. commit_trans) (s, env) = Ok ((), s2, env)" using s1(1) s2(1) by (simp add: thn_run)
    have w: "\<forall>w\<in>set W1. unat ?st < fst w \<and> length (snd w) = BSIZE" using w1 [of "length W1"] by simp
    have D1: "log_disk (disk s1) (log_start s1) (log_size s1)"
      using crash_before_commit(1) [OF assms(3,4) w] s1(8) by (simp add: fl)
    have V1: "disk s1 ! unat m = sec_view s1 m" if "unat m < unat (log_start s1)" "m \<notin> set (logged s1)" for m
    proof -
      have "disk s1 ! unat m = ?D ! unat m" unfolding s1(8) using w that by (intro apply_writes_other) (fastforce simp: fl)
      then show ?thesis using s1(4,6) v0 that by (simp add: view_writes_other fl)
    qed
    have one: "1 \<notin> set (logged s1)" using s1(4) ws(1) by auto
    have X: "sec_view s1 m = new ! unat m" if "unat m < unat (log_start s1)" for m using new1 that by (simp add: fl)
    have "\<forall>m. unat m < unat (log_start s1) \<longrightarrow> m \<notin> set (logged s1) \<longrightarrow> disk s1 ! unat m = sec_view s1 m"
      "\<forall>m. unat m < unat (log_start s1) \<longrightarrow> sec_view s1 m = new ! unat m"
      using V1 X by blast+
    note after = crash_in_commit [OF s1(2) D1 one lt(2) this(1) _ _ this(2), unfolded fl]
    have all: "returns (initlog (cold (apply_writes ?D (take k (W1 @ commit_writes s1))) t, env))
        (\<lambda>(_, r, _). \<forall>n<unat ?st. disk r ! n = (if k < length W1 + 1 then ?D else new) ! n)"
      if t: "held t = []" "length (lh_sector t) = LOGSIZE" for k and t :: "'a log_st_scheme"
      using crash_split [OF before [OF t] after(1) [OF t, unfolded s1(8)]] .
    have "disk s2 ! n = new ! n" if "n < unat ?st" for n
      using after(2) [OF log_invD(2,7) [OF inv1] that] s2(2) by simp
    moreover have "dwrites s2 = dwrites s @ (W1 @ commit_writes s1)" "length W1 + 1 \<le> length (W1 @ commit_writes s1)"
      using s2(3) s1(7) by (simp_all add: commit_writes_def Let_def)
    ultimately show ?thesis unfolding run returns_simps prod.case using all by blast
  qed
qed

text \<open>A disk of 16 sectors whose last 12 are the log, and a transaction on it that has just begun.\<close>

definition demo_img :: "byte list list" where
  "demo_img = (replicate 16 (replicate BSIZE 0))[1 := wr32 (wr32 (replicate BSIZE 0) 0 16) 12 12]"

definition demo_log :: log_st where
  "demo_log = cold demo_img (disk_st.extend (demo_disk []) (log_st.fields 4 12 True 1 0 (replicate LOGSIZE 0)))"

lemma demo_img_blocks: "\<forall>b\<in>set demo_img. length b = BSIZE"
  by (auto simp: demo_img_def dest!: set_update_subset_insert [THEN subsetD])

lemma demo_log_simps [simp]:
  "held demo_log = []" "log_start demo_log = 4" "log_size demo_log = 12" "log_busy demo_log" "log_dev demo_log = 1"
  "lh_n demo_log = 0" "lh_sector demo_log = replicate LOGSIZE 0" "disk demo_log = demo_img" "dwrites demo_log = []"
  by (simp_all add: demo_log_def cold_def binit_def ideinit_def disk_st.defs log_st.defs demo_disk_def demo_st_def proc_st.defs)

lemma demo_log_quiet: "quiet demo_log" "dirty_secs demo_log = {}" "busy_secs demo_log = {}" "bc_inv demo_log"
proof -
  show "bc_inv demo_log" unfolding demo_log_def by (rule cold_inv [OF demo_img_blocks])
  then show "quiet demo_log" "dirty_secs demo_log = {}" "busy_secs demo_log = {}"
    by (auto simp: quiet_def dirty_secs_def busy_secs_def) (simp_all add: demo_log_def zero_buf_def)
qed

lemma demo_log_txn: "txn demo_log" "logged demo_log = []"
proof -
  show l: "logged demo_log = []" by (simp add: logged_def)
  show "txn demo_log"
    unfolding txn_def log_inv_def using demo_log_quiet l by (simp add: LOGSIZE_def demo_img_def)
qed

lemma demo_log_disk: "log_disk demo_img 4 12" "hdr_n demo_img 4 = 0"
proof -
  have z: "rd32 (replicate BSIZE 0) k = 0" if "k + 3 < BSIZE" for k
    using that by (simp add: rd32_def mk32_def)
  have h: "demo_img ! 4 = replicate BSIZE 0" by (simp add: demo_img_def)
  then show n: "hdr_n demo_img 4 = 0" using z [of 0] by (simp add: hdr_n_def BSIZE_def)
  have "rd32 (demo_img ! 1) 0 = 16" "rd32 (demo_img ! 1) 12 = 12"
    by (simp_all add: demo_img_def rd32_wr32_other BSIZE_def)
  moreover have "hdr_secs demo_img 4 = []" by (simp add: hdr_secs_def n)
  moreover have "length demo_img = 16" by (simp add: demo_img_def)
  ultimately show "log_disk demo_img 4 12"
    using n demo_img_blocks by (simp add: log_disk_def LOGSIZE_def)
qed

theorem log_crash_atomic_witness:
  "returns (thn (run_writes [(2, replicate BSIZE 7), (3, replicate BSIZE 8)]) (\<lambda>_. commit_trans) (demo_log, []))
     (\<lambda>(_, s', _). disk s' ! 2 = replicate BSIZE 7 \<and> disk s' ! 3 = replicate BSIZE 8 \<and> disk s' ! 0 = replicate BSIZE 0)"
proof -
  let ?ws = "[(2 :: u32, replicate BSIZE 7), (3, replicate BSIZE 8)] :: (u32 \<times> byte list) list"
  have "log_disk (disk demo_log) (log_start demo_log) (log_size demo_log)" "hdr_n (disk demo_log) (log_start demo_log) = 0"
    "\<forall>(n, d)\<in>set ?ws. unat n < unat (log_start demo_log) \<and> n \<noteq> 1 \<and> length d = BSIZE"
    "length ?ws < NBUF" "int (length ?ws) < log_size demo_log"
    using demo_log_disk by (simp_all add: NBUF_def)
  from log_crash_atomic [OF demo_log_txn this, of "[]"] show ?thesis
    by (rule returns_mono) (auto simp: demo_img_def)
qed

subsection \<open>Crashes during recovery\<close>

lemma apply_writes_base:
  "n \<in> fst ` set ws \<Longrightarrow> n < length d \<Longrightarrow> length d' = length d \<Longrightarrow> apply_writes d' ws ! n = apply_writes d ws ! n"
proof (induction ws arbitrary: d d')
  case (Cons w ws)
  show ?case
  proof (cases "n \<in> fst ` set ws")
    case True
    then show ?thesis using Cons.IH [of "d[fst w := snd w]" "d'[fst w := snd w]"] Cons.prems by simp
  next
    case False
    then show ?thesis using Cons.prems by (auto simp: apply_writes_other)
  qed
qed simp

lemma apply_writes_again:
  assumes "n < length d"
  shows "apply_writes (apply_writes d (take k ws)) ws ! n = apply_writes d ws ! n"
proof (cases "n \<in> fst ` set ws")
  case False
  then have "n \<notin> fst ` set (take k ws)" by (auto dest: in_set_takeD)
  with False show ?thesis by (simp add: apply_writes_other)
next
  case True
  then show ?thesis using assms by (intro apply_writes_base) auto
qed

lemma redo_writes_cong:
  assumes "\<And>n. unat st \<le> n \<Longrightarrow> d' ! n = d ! n"
  shows "hdr_n d' st = hdr_n d st" "hdr_secs d' st = hdr_secs d st" "redo_writes d' st = redo_writes d st"
proof -
  show h: "hdr_n d' st = hdr_n d st" "hdr_secs d' st = hdr_secs d st"
    using assms by (simp_all add: hdr_n_def hdr_secs_def)
  show "redo_writes d' st = redo_writes d st"
    unfolding redo_writes_def h using assms by (intro map_cong) auto
qed

text \<open>A recovery that was cut short has left the log as it was.\<close>

lemma redo_write:
  assumes "log_disk d st lsz" "w \<in> set (redo_writes d st)"
  shows "fst w \<in> unat ` set (hdr_secs d st)" "length (snd w) = BSIZE"
proof -
  have D: "\<forall>b\<in>set d. length b = BSIZE" "unat st + nat lsz \<le> length d" "hdr_n d st < lsz" using assms(1) by (auto simp: log_disk_def)
  obtain j where j: "j < nat (hdr_n d st)" "w = (unat (hdr_secs d st ! j), d ! (unat st + j + 1))"
    using assms(2) unfolding redo_writes_def set_map set_upt by auto
  then show "fst w \<in> unat ` set (hdr_secs d st)" by (simp add: hdr_secs_def)
  have "unat st + j + 1 < length d" using j(1) D(2,3) by linarith
  then show "length (snd w) = BSIZE" using j(2) D(1) by simp
qed

lemma partly_redone:
  fixes k :: nat
  assumes "log_disk d st lsz" "1 \<notin> set (hdr_secs d st)"
  defines "d' \<equiv> apply_writes d (take k (redo_writes d st))"
  shows "log_disk d' st lsz" "redo_writes d' st = redo_writes d st"
proof -
  note R = redo_write [OF assms(1) in_set_takeD]
  have hs: "\<forall>n\<in>set (hdr_secs d st). unat n < unat st" and D: "\<forall>b\<in>set d. length b = BSIZE" using assms(1) by (auto simp: log_disk_def)
  have same: "d' ! n = d ! n" if "unat st \<le> n \<or> n = 1" for n
    unfolding d'_def
  proof (rule apply_writes_other, rule notI)
    assume "n \<in> fst ` set (take k (redo_writes d st))"
    then have n: "n \<in> unat ` set (hdr_secs d st)" using R(1) by auto
    then have "n < unat st" using hs by auto
    then have "n = unat (1 :: u32)" using that by auto
    then show False using n assms(2) unat_image_iff [of 1 "set (hdr_secs d st)"] by blast
  qed
  have "d' ! n = d ! n" if "unat st \<le> n" for n using same that by blast
  note hd = redo_writes_cong [OF this]
  show "redo_writes d' st = redo_writes d st" by (rule hd(3))
  have "\<forall>b\<in>set d'. length b = BSIZE" using D R(2) unfolding d'_def by (intro blocks_apply_writes) auto
  moreover have "length d' = length d" by (simp add: d'_def)
  ultimately show "log_disk d' st lsz" using assms(1) same by (intro log_disk_cong [OF assms(1)]) (auto simp: hd log_disk_def)
qed

text \<open>C2: recovery can itself be interrupted. If the machine stops after any prefix of the disk
  writes of initlog and is booted again, the second recovery leaves the same home sectors as an
  uninterrupted one.\<close>

theorem recovery_restartable:
  fixes t t' :: "'a log_st_scheme"
  assumes "log_disk d st lsz" "1 \<notin> set (hdr_secs d st)" "held t = []" "length (lh_sector t) = LOGSIZE"
    and "held t' = []" "length (lh_sector t') = LOGSIZE"
  shows "returns (initlog (cold d t, env)) (\<lambda>(_, r, _). \<forall>k\<le>length (dwrites r).
     returns (initlog (cold (apply_writes d (take k (dwrites r))) t', env))
       (\<lambda>(_, r', _). \<forall>n<unat st. disk r' ! n = disk r ! n))"
proof (rule returns_mono [OF initlog_ok [OF assms(1,3,4)]])
  fix v :: "unit \<times> 'a log_st_scheme \<times> 'a log_st_scheme env"
  assume "case v of (_, s', env') \<Rightarrow> env' = env \<and> quiet s' \<and> (\<exists>h. hdr_n [h] 0 = 0 \<and> length h = BSIZE \<and>
     disk s' = apply_writes d (redo_writes d st @ [(unat st, h)]) \<and> dwrites s' = redo_writes d st @ [(unat st, h)])"
  then obtain r h where r: "v = ((), r, env)" "hdr_n [h] 0 = 0" "length h = BSIZE"
    "disk r = apply_writes d (redo_writes d st @ [(unat st, h)])" "dwrites r = redo_writes d st @ [(unat st, h)]"
    by (cases v) auto
  let ?R = "redo_writes d st"
  have D: "unat st < length d" "1 < unat st" "\<forall>b\<in>set d. length b = BSIZE" "unat st + nat lsz \<le> length d" "hdr_n d st < lsz"
    using assms(1) by (auto simp: log_disk_def)
  have home: "disk r ! n = apply_writes d ?R ! n" if "n < unat st" for n using that by (simp add: r(4))
  have "returns (initlog (cold (apply_writes d (take k (dwrites r))) t', env)) (\<lambda>(_, r', _). \<forall>n<unat st. disk r' ! n = disk r ! n)" for k
  proof -
    let ?d = "apply_writes d (take k ?R)"
    note ld = partly_redone [OF assms(1,2), where k = k]
    have rd: "apply_writes ?d (redo_writes ?d st) ! n = disk r ! n" if "n < unat st" for n
      using that D(1) by (simp add: home apply_writes_again ld(2))
    show ?thesis
    proof (cases "k \<le> length ?R")
      case True
      then show ?thesis using boot_home [OF ld(1) assms(5,6) rd] by (simp add: r(5))
    next
      case False
      then have k: "take k ?R = ?R" by simp
      have "log_disk (apply_writes d ?R) st lsz" using ld(1) unfolding k .
      note ce = crash_erased [OF this r(2,3)]
      have "take k (dwrites r) = ?R @ [(unat st, h)]" using False by (simp add: r(5))
      then show ?thesis using boot_home [OF ce(1) assms(5,6)] ce(2) home by simp
    qed
  qed
  then show "case v of (_, r, _) \<Rightarrow> \<forall>k\<le>length (dwrites r).
     returns (initlog (cold (apply_writes d (take k (dwrites r))) t', env)) (\<lambda>(_, r', _). \<forall>n<unat st. disk r' ! n = disk r ! n)"
    by (simp add: r(1))
qed

theorem recovery_restartable_witness:
  "returns (initlog (cold demo_img demo_log, [])) (\<lambda>(_, r, _).
     returns (initlog (cold (apply_writes demo_img (take 0 (dwrites r))) demo_log, [])) (\<lambda>(_, r', _). disk r' ! 2 = disk r ! 2))"
proof -
  have "hdr_secs demo_img 4 = []" using demo_log_disk(2) by (simp add: hdr_secs_def)
  then have "1 \<notin> set (hdr_secs demo_img 4)" by simp
  from recovery_restartable [OF demo_log_disk(1) this, of demo_log demo_log "[]"] show ?thesis
    by (auto simp: returns_iff)
qed

end
