(* ===== verification/Fs.thy ===== *)
theory Fs
  imports Log
begin

text \<open>
  \<open>fs.c\<close>: block allocation, the inode cache, inode contents, directories and path names,
  written over the buffer cache and the log as in the source. On-disk structures are read
  from and written to the bytes of their blocks. A path is the byte list of a C string
  without its NUL; a name buffer is the \<open>DIRSIZ\<close> bytes of the array.
\<close>

section \<open>On-disk layout\<close>

definition NDIRECT :: nat where "NDIRECT = 12"
definition NINDIRECT :: nat where "NINDIRECT = 128"
definition MAXFILE :: nat where "MAXFILE = NDIRECT + NINDIRECT"
definition IPB :: nat where "IPB = 8"
definition BPB :: nat where "BPB = 4096"
definition DIRSIZ :: nat where "DIRSIZ = 14"
definition ROOTINO :: u32 where "ROOTINO = 1"
definition NINODE :: nat where "NINODE = 50"
definition NDEV :: int where "NDEV = 10"
definition T_DIR :: u16 where "T_DIR = 1"
definition T_FILE :: u16 where "T_FILE = 2"
definition T_DEV :: u16 where "T_DEV = 3"

definition IBLOCK :: "u32 \<Rightarrow> u32" where
  "IBLOCK i = i div of_nat IPB + 2"

definition BBLOCK :: "u32 \<Rightarrow> u32 \<Rightarrow> u32" where
  "BBLOCK b ninodes = b div of_nat BPB + ninodes div of_nat IPB + 3"

record dinode =
  di_type :: u16
  di_major :: u16
  di_minor :: u16
  di_nlink :: u16
  di_size :: u32
  di_addrs :: "u32 list"

text \<open>A \<open>struct dinode\<close> of 64 bytes at an offset of a block.\<close>

definition dec_dinode :: "byte list \<Rightarrow> nat \<Rightarrow> dinode" where
  "dec_dinode d o' = \<lparr>di_type = rd16 d o', di_major = rd16 d (o' + 2), di_minor = rd16 d (o' + 4),
     di_nlink = rd16 d (o' + 6), di_size = rd32 d (o' + 8),
     di_addrs = map (\<lambda>i. rd32 d (o' + 12 + 4 * i)) [0..<NDIRECT + 1]\<rparr>"

definition enc_dinode :: "byte list \<Rightarrow> nat \<Rightarrow> dinode \<Rightarrow> byte list" where
  "enc_dinode d o' di =
     fold (\<lambda>i d. wr32 d (o' + 12 + 4 * i) (di_addrs di ! i)) [0..<NDIRECT + 1]
       (wr32 (wr16 (wr16 (wr16 (wr16 d o' (di_type di)) (o' + 2) (di_major di)) (o' + 4) (di_minor di))
          (o' + 6) (di_nlink di)) (o' + 8) (di_size di))"

section \<open>State\<close>

record inode =
  i_dev :: u32
  i_inum :: u32
  i_ref :: int
  i_busy :: bool
  i_valid :: bool
  i_type :: u16
  i_major :: u16
  i_minor :: u16
  i_nlink :: u16
  i_size :: u32
  i_addrs :: "u32 list"

record fs_st = log_st +
  icache :: "inode list"

definition upd_inode :: "nat \<Rightarrow> (inode \<Rightarrow> inode) \<Rightarrow> 'a fs_st_scheme \<Rightarrow> 'a fs_st_scheme" where
  "upd_inode i f s = s\<lparr>icache := (icache s)[i := f (icache s ! i)]\<rparr>"

definition the_inode :: "nat \<Rightarrow> ('a fs_st_scheme, inode) prog" where
  "the_inode i = gets (\<lambda>s. icache s ! i)"

definition set_inode :: "nat \<Rightarrow> (inode \<Rightarrow> inode) \<Rightarrow> ('a fs_st_scheme, unit) prog" where
  "set_inode i f = modify (upd_inode i f)"

section \<open>Blocks\<close>

definition bzero :: "u32 \<Rightarrow> u32 \<Rightarrow> ('a log_st_scheme, unit) prog" where
  "bzero dev bno =
     thn (bread dev bno) (\<lambda>bp.
     thn (set_bdata bp (replicate BSIZE 0)) (\<lambda>_.
     thn (log_write bp) (\<lambda>_.
     upd (brelse bp))))"

definition bit_clear :: "byte list \<Rightarrow> nat \<Rightarrow> bool" where
  "bit_clear d bi \<longleftrightarrow> (d ! (bi div 8)) AND push_bit (bi mod 8) 1 = 0"

fun free_bit :: "byte list \<Rightarrow> nat \<Rightarrow> nat \<Rightarrow> nat \<Rightarrow> nat \<Rightarrow> nat option" where
  "free_bit d b n bi 0 = None"
| "free_bit d b n bi (Suc k) =
     (if b + bi < n then if bit_clear d bi then Some bi else free_bit d b n (Suc bi) k
      else None)"

function balloc_loop :: "u32 \<Rightarrow> superblock \<Rightarrow> nat \<Rightarrow> ('a log_st_scheme, u32) prog" where
  "balloc_loop dev sb b =
     (if b < unat (sb_size sb) then
        thn (bread dev (BBLOCK (of_nat b) (sb_ninodes sb))) (\<lambda>bp.
        thn (bdata bp) (\<lambda>d.
        case free_bit d b (unat (sb_size sb)) 0 BPB of
          Some bi \<Rightarrow>
            thn (set_bdata bp (d[bi div 8 := (d ! (bi div 8)) OR push_bit (bi mod 8) 1])) (\<lambda>_.
            thn (log_write bp) (\<lambda>_.
            thn (upd (brelse bp)) (\<lambda>_.
            thn (bzero dev (of_nat (b + bi))) (\<lambda>_.
            ret (of_nat (b + bi))))))
        | None \<Rightarrow> thn (upd (brelse bp)) (\<lambda>_. balloc_loop dev sb (b + BPB))))
      else panic ''balloc: out of blocks'')"
  by pat_completeness auto
termination
  by (relation "measure (\<lambda>(_, sb, b). unat (sb_size sb) - b)") (auto simp: BPB_def)

definition balloc :: "u32 \<Rightarrow> ('a log_st_scheme, u32) prog" where
  "balloc dev = thn (readsb dev) (\<lambda>sb. balloc_loop dev sb 0)"

definition bfree :: "u32 \<Rightarrow> u32 \<Rightarrow> ('a log_st_scheme, unit) prog" where
  "bfree dev b =
     thn (readsb dev) (\<lambda>sb.
     thn (bread dev (BBLOCK b (sb_ninodes sb))) (\<lambda>bp.
     thn (bdata bp) (\<lambda>d.
     let bi = unat b mod BPB in
     if bit_clear d bi then panic ''freeing free block'' else
     thn (set_bdata bp (d[bi div 8 := (d ! (bi div 8)) AND NOT (push_bit (bi mod 8) 1)])) (\<lambda>_.
     thn (log_write bp) (\<lambda>_.
     upd (brelse bp))))))"

section \<open>Inodes\<close>

definition iget :: "u32 \<Rightarrow> u32 \<Rightarrow> 'a fs_st_scheme \<Rightarrow> (nat \<times> 'a fs_st_scheme) res" where
  "iget dev inum s =
     bnd (lock L_icache s) (\<lambda>s.
     case first_idx (\<lambda>ip. i_ref ip > 0 \<and> i_dev ip = dev \<and> i_inum ip = inum) (icache s) of
       Some i \<Rightarrow> bnd (unlock L_icache (upd_inode i (\<lambda>ip. ip\<lparr>i_ref := i_ref ip + 1\<rparr>) s)) (\<lambda>s. Ok (i, s))
     | None \<Rightarrow>
       case first_idx (\<lambda>ip. i_ref ip = 0) (icache s) of
         None \<Rightarrow> Panic ''iget: no inodes''
       | Some i \<Rightarrow>
           bnd (unlock L_icache (upd_inode i (\<lambda>ip. ip\<lparr>i_dev := dev, i_inum := inum, i_ref := 1,
             i_busy := False, i_valid := False\<rparr>) s)) (\<lambda>s. Ok (i, s)))"

function ialloc_loop :: "u32 \<Rightarrow> u16 \<Rightarrow> superblock \<Rightarrow> nat \<Rightarrow> ('a fs_st_scheme, nat) prog" where
  "ialloc_loop dev type sb inum =
     (if inum < unat (sb_ninodes sb) then
        thn (bread dev (IBLOCK (of_nat inum))) (\<lambda>bp.
        thn (bdata bp) (\<lambda>d.
        if di_type (dec_dinode d (64 * (inum mod IPB))) = 0 then
          thn (set_bdata bp (wr16 (patch d (64 * (inum mod IPB)) (replicate 64 0)) (64 * (inum mod IPB)) type)) (\<lambda>_.
          thn (log_write bp) (\<lambda>_.
          thn (upd (brelse bp)) (\<lambda>_.
          call (iget dev (of_nat inum)))))
        else thn (upd (brelse bp)) (\<lambda>_. ialloc_loop dev type sb (inum + 1))))
      else panic ''ialloc: no inodes'')"
  by pat_completeness auto
termination
  by (relation "measure (\<lambda>(_, _, sb, inum). unat (sb_ninodes sb) - inum)") auto

definition ialloc :: "u32 \<Rightarrow> u16 \<Rightarrow> ('a fs_st_scheme, nat) prog" where
  "ialloc dev type = thn (readsb dev) (\<lambda>sb. ialloc_loop dev type sb 1)"

definition dinode_of :: "inode \<Rightarrow> dinode" where
  "dinode_of ip = \<lparr>di_type = i_type ip, di_major = i_major ip, di_minor = i_minor ip, di_nlink = i_nlink ip,
     di_size = i_size ip, di_addrs = i_addrs ip\<rparr>"

definition iupdate :: "nat \<Rightarrow> ('a fs_st_scheme, unit) prog" where
  "iupdate i =
     thn (the_inode i) (\<lambda>ip.
     thn (bread (i_dev ip) (IBLOCK (i_inum ip))) (\<lambda>bp.
     thn (bdata bp) (\<lambda>d.
     thn (set_bdata bp (enc_dinode d (64 * (unat (i_inum ip) mod IPB)) (dinode_of ip))) (\<lambda>_.
     thn (log_write bp) (\<lambda>_.
     upd (brelse bp))))))"

definition idup :: "nat \<Rightarrow> 'a fs_st_scheme \<Rightarrow> (nat \<times> 'a fs_st_scheme) res" where
  "idup i s =
     bnd (lock L_icache s) (\<lambda>s.
     bnd (unlock L_icache (upd_inode i (\<lambda>ip. ip\<lparr>i_ref := i_ref ip + 1\<rparr>) s)) (\<lambda>s. Ok (i, s)))"

function ilock_loop :: "nat \<Rightarrow> ('a fs_st_scheme, unit) prog" where
  "ilock_loop i w =
     (if i_busy (icache (fst w) ! i) then thn (sleep_on (Ch_inode i) L_icache) (\<lambda>_. ilock_loop i) w
      else Ok ((), w))"
  by pat_completeness auto
termination
  by (relation "measure (\<lambda>(_, w). length (snd w))") (auto dest: sleep_on_env)

definition ilock :: "nat \<Rightarrow> ('a fs_st_scheme, unit) prog" where
  "ilock i =
     thn (the_inode i) (\<lambda>ip.
     if i_ref ip < 1 then panic ''ilock'' else
     thn (upd (lock L_icache)) (\<lambda>_.
     thn (ilock_loop i) (\<lambda>_.
     thn (set_inode i (\<lambda>ip. ip\<lparr>i_busy := True\<rparr>)) (\<lambda>_.
     thn (upd (unlock L_icache)) (\<lambda>_.
     thn (the_inode i) (\<lambda>ip.
     whenp (\<not> i_valid ip)
       (thn (bread (i_dev ip) (IBLOCK (i_inum ip))) (\<lambda>bp.
        thn (bdata bp) (\<lambda>d.
        let di = dec_dinode d (64 * (unat (i_inum ip) mod IPB)) in
        thn (set_inode i (\<lambda>ip. ip\<lparr>i_type := di_type di, i_major := di_major di, i_minor := di_minor di,
               i_nlink := di_nlink di, i_size := di_size di, i_addrs := di_addrs di\<rparr>)) (\<lambda>_.
        thn (upd (brelse bp)) (\<lambda>_.
        thn (set_inode i (\<lambda>ip. ip\<lparr>i_valid := True\<rparr>)) (\<lambda>_.
        if di_type di = 0 then panic ''ilock: no type'' else ret ()))))))))))))"

definition iunlock :: "nat \<Rightarrow> 'a fs_st_scheme \<Rightarrow> 'a fs_st_scheme res" where
  "iunlock i s =
     (if \<not> i_busy (icache s ! i) \<or> i_ref (icache s ! i) < 1 then Panic ''iunlock'' else
      bnd (lock L_icache s) (\<lambda>s.
      bnd (wakeup (Ch_inode i) (upd_inode i (\<lambda>ip. ip\<lparr>i_busy := False\<rparr>) s)) (unlock L_icache)))"

definition itrunc_direct :: "nat \<Rightarrow> nat \<Rightarrow> ('a fs_st_scheme, unit) prog" where
  "itrunc_direct i k =
     thn (the_inode i) (\<lambda>ip.
     whenp (i_addrs ip ! k \<noteq> 0)
       (thn (bfree (i_dev ip) (i_addrs ip ! k)) (\<lambda>_.
        set_inode i (\<lambda>ip. ip\<lparr>i_addrs := (i_addrs ip)[k := 0]\<rparr>))))"

definition itrunc_indirect :: "u32 \<Rightarrow> nat \<Rightarrow> nat \<Rightarrow> ('a fs_st_scheme, unit) prog" where
  "itrunc_indirect dev bp j =
     thn (bdata bp) (\<lambda>d. whenp (rd32 d (4 * j) \<noteq> 0) (bfree dev (rd32 d (4 * j))))"

definition itrunc :: "nat \<Rightarrow> ('a fs_st_scheme, unit) prog" where
  "itrunc i =
     thn (for_up 0 NDIRECT (itrunc_direct i)) (\<lambda>_.
     thn (the_inode i) (\<lambda>ip.
     thn (whenp (i_addrs ip ! NDIRECT \<noteq> 0)
       (thn (bread (i_dev ip) (i_addrs ip ! NDIRECT)) (\<lambda>bp.
        thn (for_up 0 NINDIRECT (itrunc_indirect (i_dev ip) bp)) (\<lambda>_.
        thn (upd (brelse bp)) (\<lambda>_.
        thn (bfree (i_dev ip) (i_addrs ip ! NDIRECT)) (\<lambda>_.
        set_inode i (\<lambda>ip. ip\<lparr>i_addrs := (i_addrs ip)[NDIRECT := 0]\<rparr>))))))) (\<lambda>_.
     thn (set_inode i (\<lambda>ip. ip\<lparr>i_size := 0\<rparr>)) (\<lambda>_.
     iupdate i))))"

definition iput :: "nat \<Rightarrow> ('a fs_st_scheme, unit) prog" where
  "iput i =
     thn (upd (lock L_icache)) (\<lambda>_.
     thn (the_inode i) (\<lambda>ip.
     thn (whenp (i_ref ip = 1 \<and> i_valid ip \<and> i_nlink ip = 0)
       (if i_busy ip then panic ''iput busy'' else
        thn (set_inode i (\<lambda>ip. ip\<lparr>i_busy := True\<rparr>)) (\<lambda>_.
        thn (upd (unlock L_icache)) (\<lambda>_.
        thn (itrunc i) (\<lambda>_.
        thn (set_inode i (\<lambda>ip. ip\<lparr>i_type := 0\<rparr>)) (\<lambda>_.
        thn (iupdate i) (\<lambda>_.
        thn (upd (lock L_icache)) (\<lambda>_.
        thn (set_inode i (\<lambda>ip. ip\<lparr>i_busy := False, i_valid := False\<rparr>)) (\<lambda>_.
        upd (wakeup (Ch_inode i))))))))))) (\<lambda>_.
     thn (set_inode i (\<lambda>ip. ip\<lparr>i_ref := i_ref ip - 1\<rparr>)) (\<lambda>_.
     upd (unlock L_icache)))))"

definition iunlockput :: "nat \<Rightarrow> ('a fs_st_scheme, unit) prog" where
  "iunlockput i = thn (upd (iunlock i)) (\<lambda>_. iput i)"

section \<open>Inode contents\<close>

definition bmap :: "nat \<Rightarrow> nat \<Rightarrow> ('a fs_st_scheme, u32) prog" where
  "bmap i bn =
     thn (the_inode i) (\<lambda>ip.
     if bn < NDIRECT then
       if i_addrs ip ! bn = 0 then
         thn (balloc (i_dev ip)) (\<lambda>addr.
         thn (set_inode i (\<lambda>ip. ip\<lparr>i_addrs := (i_addrs ip)[bn := addr]\<rparr>)) (\<lambda>_. ret addr))
       else ret (i_addrs ip ! bn)
     else
     let bn = bn - NDIRECT in
     if bn < NINDIRECT then
       thn (if i_addrs ip ! NDIRECT = 0 then
              thn (balloc (i_dev ip)) (\<lambda>addr.
              thn (set_inode i (\<lambda>ip. ip\<lparr>i_addrs := (i_addrs ip)[NDIRECT := addr]\<rparr>)) (\<lambda>_. ret addr))
            else ret (i_addrs ip ! NDIRECT)) (\<lambda>addr.
       thn (bread (i_dev ip) addr) (\<lambda>bp.
       thn (bdata bp) (\<lambda>d.
       thn (if rd32 d (4 * bn) = 0 then
              thn (balloc (i_dev ip)) (\<lambda>addr.
              thn (set_bdata bp (wr32 d (4 * bn) addr)) (\<lambda>_.
              thn (log_write bp) (\<lambda>_. ret addr)))
            else ret (rd32 d (4 * bn))) (\<lambda>addr.
       thn (upd (brelse bp)) (\<lambda>_. ret addr)))))
     else panic ''bmap: out of range'')"

record stat =
  st_type :: u16
  st_dev :: u32
  st_ino :: u32
  st_nlink :: u16
  st_size :: u32

definition stati :: "inode \<Rightarrow> stat" where
  "stati ip = \<lparr>st_type = i_type ip, st_dev = i_dev ip, st_ino = i_inum ip, st_nlink = i_nlink ip, st_size = i_size ip\<rparr>"

text \<open>
  The device switch \<open>devsw\<close> gives the read and write functions of the devices; it is an
  argument, because these functions work on state that is declared later (the console's).
  A read returns its result and the bytes it has stored at the destination.
\<close>

type_synonym 's devsw =
  "int \<Rightarrow> ((nat \<Rightarrow> int \<Rightarrow> ('s, int \<times> byte list) prog) \<times> (nat \<Rightarrow> byte list \<Rightarrow> int \<Rightarrow> ('s, int) prog)) option"

definition no_devices :: "'s devsw" where
  "no_devices = (\<lambda>_. None)"

function readi_loop :: "nat \<Rightarrow> nat \<Rightarrow> nat \<Rightarrow> ('a fs_st_scheme, byte list) prog" where
  "readi_loop i off n =
     (if n = 0 then ret [] else
      thn (the_inode i) (\<lambda>ip.
      thn (bmap i (off div BSIZE)) (\<lambda>addr.
      thn (bread (i_dev ip) addr) (\<lambda>bp.
      thn (bdata bp) (\<lambda>d.
      let m = min n (BSIZE - off mod BSIZE) in
      thn (upd (brelse bp)) (\<lambda>_.
      thn (readi_loop i (off + m) (n - m)) (\<lambda>rest.
      ret (take m (drop (off mod BSIZE) d) @ rest))))))))"
  by pat_completeness auto
termination
  by (relation "measure (\<lambda>(_, _, n). n)") (auto simp: BSIZE_def)

definition readi :: "'a fs_st_scheme devsw \<Rightarrow> nat \<Rightarrow> u32 \<Rightarrow> u32 \<Rightarrow> ('a fs_st_scheme, int \<times> byte list) prog" where
  "readi devs i off n =
     thn (the_inode i) (\<lambda>ip.
     if i_type ip = T_DEV then
       if sint (i_major ip) < 0 \<or> sint (i_major ip) \<ge> NDEV then ret (-1, [])
       else case devs (sint (i_major ip)) of
           None \<Rightarrow> ret (-1, [])
         | Some (rd, _) \<Rightarrow> rd i (sint n)
     else if off > i_size ip \<or> off + n < off then ret (-1, [])
     else
       let n = (if off + n > i_size ip then i_size ip - off else n) in
       thn (readi_loop i (unat off) (unat n)) (\<lambda>bs. ret (sint n, bs)))"

function writei_loop :: "nat \<Rightarrow> byte list \<Rightarrow> nat \<Rightarrow> nat \<Rightarrow> ('a fs_st_scheme, unit) prog" where
  "writei_loop i src off n =
     (if n = 0 then ret () else
      thn (the_inode i) (\<lambda>ip.
      thn (bmap i (off div BSIZE)) (\<lambda>addr.
      thn (bread (i_dev ip) addr) (\<lambda>bp.
      thn (bdata bp) (\<lambda>d.
      let m = min n (BSIZE - off mod BSIZE) in
      thn (set_bdata bp (patch d (off mod BSIZE) (take m src))) (\<lambda>_.
      thn (log_write bp) (\<lambda>_.
      thn (upd (brelse bp)) (\<lambda>_.
      writei_loop i (drop m src) (off + m) (n - m)))))))))"
  by pat_completeness auto
termination
  by (relation "measure (\<lambda>(_, _, _, n). n)") (auto simp: BSIZE_def)

definition writei :: "'a fs_st_scheme devsw \<Rightarrow> nat \<Rightarrow> byte list \<Rightarrow> u32 \<Rightarrow> u32 \<Rightarrow> ('a fs_st_scheme, int) prog" where
  "writei devs i src off n =
     thn (the_inode i) (\<lambda>ip.
     if i_type ip = T_DEV then
       if sint (i_major ip) < 0 \<or> sint (i_major ip) \<ge> NDEV then ret (-1)
       else case devs (sint (i_major ip)) of
           None \<Rightarrow> ret (-1)
         | Some (_, wr) \<Rightarrow> wr i src (sint n)
     else if off > i_size ip \<or> off + n < off then ret (-1)
     else if off + n > of_nat (MAXFILE * BSIZE) then ret (-1)
     else
       thn (writei_loop i src (unat off) (unat n)) (\<lambda>_.
       thn (the_inode i) (\<lambda>ip.
       thn (whenp (n > 0 \<and> off + n > i_size ip)
         (thn (set_inode i (\<lambda>ip. ip\<lparr>i_size := off + n\<rparr>)) (\<lambda>_. iupdate i))) (\<lambda>_.
       ret (sint n)))))"

section \<open>Directories\<close>

definition namecmp :: "byte list \<Rightarrow> byte list \<Rightarrow> int" where
  "namecmp s t = strncmp (cs s) (cs t) DIRSIZ"

text \<open>
  The directory functions have checked that the inode is a directory when they read and
  write it, so the device switch is not consulted.
\<close>

function dirlookup_loop :: "nat \<Rightarrow> byte list \<Rightarrow> nat \<Rightarrow> nat \<Rightarrow> ('a fs_st_scheme, (nat \<times> u32) option) prog" where
  "dirlookup_loop i name n off =
     (if off < n then
        thn (readi no_devices i (of_nat off) 16) (\<lambda>(r, de).
        if r \<noteq> 16 then panic ''dirlink read''
        else if rd16 de 0 = 0 then dirlookup_loop i name n (off + 16)
        else if namecmp name (take DIRSIZ (drop 2 de)) = 0 then
          thn (the_inode i) (\<lambda>dp.
          thn (call (iget (i_dev dp) (ucast (rd16 de 0)))) (\<lambda>j. ret (Some (j, of_nat off))))
        else dirlookup_loop i name n (off + 16))
      else ret None)"
  by pat_completeness auto
termination
  by (relation "measure (\<lambda>(_, _, n, off). n - off)") auto

definition dirlookup :: "nat \<Rightarrow> byte list \<Rightarrow> ('a fs_st_scheme, (nat \<times> u32) option) prog" where
  "dirlookup i name =
     thn (the_inode i) (\<lambda>dp.
     if i_type dp \<noteq> T_DIR then panic ''dirlookup not DIR''
     else dirlookup_loop i name (unat (i_size dp)) 0)"

function empty_dirent :: "nat \<Rightarrow> nat \<Rightarrow> nat \<Rightarrow> ('a fs_st_scheme, nat) prog" where
  "empty_dirent i n off =
     (if off < n then
        thn (readi no_devices i (of_nat off) 16) (\<lambda>(r, de).
        if r \<noteq> 16 then panic ''dirlink read''
        else if rd16 de 0 = 0 then ret off
        else empty_dirent i n (off + 16))
      else ret off)"
  by pat_completeness auto
termination
  by (relation "measure (\<lambda>(_, n, off). n - off)") auto

text \<open>A \<open>struct dirent\<close>: the inode number, then the name padded with NULs.\<close>

definition enc_dirent :: "u16 \<Rightarrow> byte list \<Rightarrow> byte list" where
  "enc_dirent inum name = [ucast inum, ucast (drop_bit 8 inum)] @ strncpy (cs name) DIRSIZ"

definition dirlink :: "nat \<Rightarrow> byte list \<Rightarrow> u32 \<Rightarrow> ('a fs_st_scheme, int) prog" where
  "dirlink i name inum =
     thn (dirlookup i name) (\<lambda>found.
     case found of
       Some (j, _) \<Rightarrow> thn (iput j) (\<lambda>_. ret (-1))
     | None \<Rightarrow>
         thn (the_inode i) (\<lambda>dp.
         thn (empty_dirent i (unat (i_size dp)) 0) (\<lambda>off.
         thn (writei no_devices i (enc_dirent (ucast inum) name) (of_nat off) 16) (\<lambda>r.
         if r \<noteq> 16 then panic ''dirlink'' else ret 0))))"

section \<open>Paths\<close>

definition slash :: byte where "slash = 47"

text \<open>\<open>None\<close> is the null pointer; otherwise the rest of the path and the new name buffer.\<close>

definition skipelem :: "byte list \<Rightarrow> byte list \<Rightarrow> (byte list \<times> byte list) option" where
  "skipelem path name =
     (let path = dropWhile (\<lambda>c. c = slash) path in
      if path = [] then None else
      let s = takeWhile (\<lambda>c. c \<noteq> slash) path;
          path = dropWhile (\<lambda>c. c \<noteq> slash) path;
          name = (if length s \<ge> DIRSIZ then take DIRSIZ s else (patch name 0 s)[length s := 0]) in
      Some (dropWhile (\<lambda>c. c = slash) path, name))"

lemma skipelem_shorter: "skipelem path name = Some (rest, name') \<Longrightarrow> length rest < length path"
proof -
  assume a: "skipelem path name = Some (rest, name')"
  let ?p = "dropWhile (\<lambda>c. c = slash) path"
  have p: "?p \<noteq> []" and r: "rest = dropWhile (\<lambda>c. c = slash) (dropWhile (\<lambda>c. c \<noteq> slash) ?p)"
    using a by (auto simp: skipelem_def Let_def split: if_splits)
  have "hd ?p \<noteq> slash" using hd_dropWhile [of "\<lambda>c. c = slash" path] p by simp
  then have "length (dropWhile (\<lambda>c. c \<noteq> slash) ?p) < length ?p"
    using p by (cases ?p) (auto simp: le_imp_less_Suc length_dropWhile_le)
  then show ?thesis unfolding r
    by (meson le_less_trans length_dropWhile_le less_le_trans)
qed

function namex_loop :: "nat \<Rightarrow> byte list \<Rightarrow> bool \<Rightarrow> byte list \<Rightarrow> ('a fs_st_scheme, nat option \<times> byte list) prog" where
  "namex_loop i path nameiparent name =
     (case skipelem path name of
        None \<Rightarrow>
          if nameiparent then thn (iput i) (\<lambda>_. ret (None, name)) else ret (Some i, name)
      | Some (path, name) \<Rightarrow>
          thn (ilock i) (\<lambda>_.
          thn (the_inode i) (\<lambda>ip.
          if i_type ip \<noteq> T_DIR then thn (iunlockput i) (\<lambda>_. ret (None, name))
          else if nameiparent \<and> path = [] then thn (upd (iunlock i)) (\<lambda>_. ret (Some i, name))
          else
            thn (dirlookup i name) (\<lambda>found.
            case found of
              None \<Rightarrow> thn (iunlockput i) (\<lambda>_. ret (None, name))
            | Some (j, _) \<Rightarrow> thn (iunlockput i) (\<lambda>_. namex_loop j path nameiparent name)))))"
  by pat_completeness auto
termination
  by (relation "measure (\<lambda>(_, path, _, _). length path)") (auto dest: skipelem_shorter)

definition namex :: "byte list \<Rightarrow> bool \<Rightarrow> byte list \<Rightarrow> ('a fs_st_scheme, nat option \<times> byte list) prog" where
  "namex path nameiparent name =
     thn (if path \<noteq> [] \<and> hd path = slash then call (iget ROOTDEV ROOTINO)
          else call (\<lambda>s. with_cur s (\<lambda>p. case cwd (procs s ! p) of None \<Rightarrow> Stuck | Some i \<Rightarrow> idup i s))) (\<lambda>i.
     namex_loop i path nameiparent name)"

definition namei :: "byte list \<Rightarrow> ('a fs_st_scheme, nat option) prog" where
  "namei path = thn (namex path False (replicate DIRSIZ 0)) (\<lambda>(i, _). ret i)"

definition nameiparent :: "byte list \<Rightarrow> byte list \<Rightarrow> ('a fs_st_scheme, nat option \<times> byte list) prog" where
  "nameiparent path name = namex path True name"

section \<open>Reading and updating blocks inside a transaction\<close>

lemma txn_read:
  fixes s :: "'a log_st_scheme"
  assumes t: "txn s" and n: "unat n < unat (log_start s)" and room: "length (logged s) < NBUF"
  obtains b s2 where "bread 1 n (s, env) = Ok (b, loaded b n s, env)" "b_data (bufs (loaded b n s) ! b) = sec_view s n"
    "brelse b (loaded b n s) = Ok s2" "txn s2" "sec_view s2 = sec_view s" "logged s2 = logged s" "frame s s2"
    "disk s2 = disk s" "dwrites s2 = dwrites s"
proof -
  have inv: "log_inv s" and q: "quiet s" using t by (auto simp: txn_def)
  have r: "unat n < length (disk s)" using n log_invD(9) [OF inv] by simp
  have "card (dirty_secs s) < NBUF" using dirty_card [OF t] room by simp
  from quiet_read [OF q r this, of env] obtain b where
    b: "bread 1 n (s, env) = Ok (b, loaded b n s, env)" "b_data (bufs (loaded b n s) ! b) = sec_view s n"
      "brelse b (loaded b n s) = Ok (released b (loaded b n s))" "quiet (released b (loaded b n s))"
      "sec_view (released b (loaded b n s)) = sec_view s" "dirty_secs (released b (loaded b n s)) = dirty_secs s"
    by blast
  let ?s2 = "released b (loaded b n s)"
  have "log_inv ?s2"
    unfolding log_inv_def using log_invD [OF inv] b(4-6) quietD [OF b(4)] quietD(3) [OF q] by auto
  then show thesis
    using b by (intro that [of b ?s2]) (auto simp: txn_def intro: frame_trans [OF frame_steps(1) frame_steps(5)])
qed

text \<open>What a transaction step may change: the log, the cache and the disk.\<close>

definition txn_frame :: "'a log_st_scheme \<Rightarrow> 'a log_st_scheme \<Rightarrow> bool" where
  "txn_frame s s' \<longleftrightarrow> frame s (s'\<lparr>lh_n := lh_n s, lh_sector := lh_sector s\<rparr>)"

lemma txn_frameD:
  "txn_frame s s' \<Longrightarrow> log_start s' = log_start s" "txn_frame s s' \<Longrightarrow> log_size s' = log_size s"
  "txn_frame s s' \<Longrightarrow> log_st.more s' = log_st.more s"
  using frame_logD [of s "s'\<lparr>lh_n := lh_n s, lh_sector := lh_sector s\<rparr>"] by (auto simp: txn_frame_def)

lemma txn_frame_trans [trans]: "txn_frame s s' \<Longrightarrow> txn_frame s' s'' \<Longrightarrow> txn_frame s s''"
  unfolding txn_frame_def by (rule frame_lh_trans)

lemma txn_frame_refl [simp]: "txn_frame s s"
  by (simp add: txn_frame_def)

lemma txn_frame_of_frame:
  assumes "frame s s'"
  shows "txn_frame s s'"
proof -
  have "s'\<lparr>lh_n := lh_n s, lh_sector := lh_sector s\<rparr> = s'"
    unfolding frame_logD(5,6) [OF assms, symmetric] by simp
  with assms show ?thesis by (simp add: txn_frame_def)
qed

text \<open>Two buffers the transaction may still pin, and room for two more sectors in the log.\<close>

definition txn_room :: "nat \<Rightarrow> 'a log_st_scheme \<Rightarrow> bool" where
  "txn_room k s \<longleftrightarrow> length (logged s) + k < NBUF \<and> int (length (logged s) + k) < log_size s"

lemma txn_room_mono: "txn_room k s \<Longrightarrow> j \<le> k \<Longrightarrow> txn_room j s"
  by (auto simp: txn_room_def)

lemma txn_room_step:
  "txn_room (Suc k) s \<Longrightarrow> length (logged s') \<le> length (logged s) + 1 \<Longrightarrow> log_size s' = log_size s \<Longrightarrow> txn_room k s'"
  by (auto simp: txn_room_def)

text \<open>Reading a block, changing it, logging it and releasing it, as one step of a transaction.\<close>

lemma txn_update:
  fixes s :: "'a log_st_scheme"
  assumes t: "txn s" and n: "unat n < unat (log_start s)" and d: "length d = BSIZE" and room: "txn_room 1 s"
  obtains b s3 s4 where "bread 1 n (s, env) = Ok (b, loaded b n s, env)" "b_data (bufs (loaded b n s) ! b) = sec_view s n"
    "log_write b (set_data b d (loaded b n s), env) = Ok ((), s3, env)" "brelse b s3 = Ok s4"
    "txn s4" "length (logged s4) \<le> length (logged s) + 1" "txn_frame s s4"
    "\<And>m. unat m < unat (log_start s) \<Longrightarrow> sec_view s4 m = ((sec_view s)(n := d)) m"
    "set (logged s4) = insert n (set (logged s))"
proof -
  have inv: "log_inv s" and q: "quiet s" using t by (auto simp: txn_def)
  have room': "length (logged s) + 1 < NBUF" "int (length (logged s)) < log_size s - 1" using room by (auto simp: txn_room_def)
  let ?lb = "log_block s (log_index n s)"
  obtain b s3 s4 where u: "bread 1 n (s, env) = Ok (b, loaded b n s, env)" "b_data (bufs (loaded b n s) ! b) = sec_view s n"
    "log_write b (set_data b d (loaded b n s), env) = Ok ((), s3, env)" "brelse b s3 = Ok s4"
    "txn s4" "logged s4 = add_sec n (logged s)" "sec_view s4 = (sec_view s)(n := d, ?lb := d)"
    "frame s (s4\<lparr>lh_n := lh_n s, lh_sector := lh_sector s\<rparr>)"
    using update_block [OF t n d room', of env] by blast
  have "log_index n s \<le> length (logged s)"
    using log_index_cases [OF inv, of n] by (cases "n \<in> set (logged s)") auto
  then have "int (log_index n s) < log_size s - 1" using room'(2) by linarith
  then have "unat ?lb = unat (log_start s) + log_index n s + 1" using log_block_range(1) [OF inv] by blast
  then have v: "sec_view s4 m = ((sec_view s)(n := d)) m" if "unat m < unat (log_start s)" for m
    using that by (auto simp: u(7))
  show thesis
    by (rule that [OF u(1-5)]) (use u(6,8) v in \<open>auto simp: add_sec_def txn_frame_def\<close>)
qed

end
