(* ===== verification/Balloc.thy ===== *)
theory Balloc
  imports Fs
begin

text \<open>
  Correctness of block allocation: the bitmap of the disk as a set of blocks in use,
  \<open>balloc\<close> and \<open>bfree\<close> as changes of that set. The theorems are about one process inside
  a transaction, with the contents of blocks as the buffer cache presents them.
\<close>

section \<open>The bitmap\<close>

definition sb_of :: "byte list \<Rightarrow> superblock" where
  "sb_of d = \<lparr>sb_size = rd32 d 0, sb_nblocks = rd32 d 4, sb_ninodes = rd32 d 8, sb_nlog = rd32 d 12\<rparr>"

definition bm_block :: "superblock \<Rightarrow> nat \<Rightarrow> u32" where
  "bm_block sb b = BBLOCK (of_nat b) (sb_ninodes sb)"

definition in_use :: "superblock \<Rightarrow> (u32 \<Rightarrow> byte list) \<Rightarrow> nat \<Rightarrow> bool" where
  "in_use sb V b \<longleftrightarrow> \<not> bit_clear (V (bm_block sb b)) (b mod BPB)"

lemma free_bit_Some:
  "free_bit d b n bi k = Some x \<longleftrightarrow>
     bi \<le> x \<and> x < bi + k \<and> b + x < n \<and> bit_clear d x \<and> (\<forall>y. bi \<le> y \<and> y < x \<longrightarrow> \<not> bit_clear d y)"
proof (induction k arbitrary: bi)
  case (Suc k)
  show ?case
  proof (cases "b + bi < n")
    case True
    show ?thesis
    proof (cases "bit_clear d bi")
      case False
      then have "(\<forall>y. bi \<le> y \<and> y < x \<longrightarrow> \<not> bit_clear d y) \<longleftrightarrow> (\<forall>y. Suc bi \<le> y \<and> y < x \<longrightarrow> \<not> bit_clear d y)"
        by (metis Suc_leD Suc_leI le_neq_implies_less)
      then show ?thesis using True False Suc.IH [of "Suc bi"] by (auto simp: not_less_eq_eq dest: le_antisym)
    qed (use True in auto)
  qed auto
qed simp

lemma free_bit_None:
  "free_bit d b n bi k = None \<longleftrightarrow> (\<forall>x. bi \<le> x \<and> x < bi + k \<and> b + x < n \<longrightarrow> \<not> bit_clear d x)"
proof (induction k arbitrary: bi)
  case (Suc k)
  have "(\<forall>x. bi \<le> x \<and> x < bi + Suc k \<and> b + x < n \<longrightarrow> \<not> bit_clear d x) \<longleftrightarrow>
    (b + bi < n \<longrightarrow> \<not> bit_clear d bi) \<and> (\<forall>x. Suc bi \<le> x \<and> x < Suc bi + k \<and> b + x < n \<longrightarrow> \<not> bit_clear d x)"
    by (metis Suc_leD Suc_leI add_Suc add_Suc_right le_eq_less_or_eq less_add_Suc1)
  then show ?case using Suc.IH [of "Suc bi"] by auto
qed auto

text \<open>Setting and clearing a bit of the bitmap.\<close>

lemma mask_bit:
  assumes "k < 8"
  shows "(x :: byte) AND push_bit k 1 = 0 \<longleftrightarrow> \<not> bit x k"
proof
  assume "x AND push_bit k 1 = 0"
  then have "\<not> bit (x AND push_bit k 1) k" by (simp only: bit_0_eq) simp
  then show "\<not> bit x k" using assms by (simp only: bit_and_iff bit_push_bit_iff) simp
next
  assume n: "\<not> bit x k"
  have "bit (push_bit k (1 :: byte)) m \<longleftrightarrow> m = k" if "m < 8" for m
    using assms that by (simp only: bit_push_bit_iff bit_1_iff) auto
  then show "x AND push_bit k 1 = 0" using n by (intro bit_word_eqI) (auto simp add: bit_and_iff simp del: push_bit_of_1)
qed

lemma bit_clear_iff: "bit_clear d x \<longleftrightarrow> \<not> bit (d ! (x div 8)) (x mod 8)"
  unfolding bit_clear_def by (rule mask_bit) simp

lemma bit_pow8: "k < 8 \<Longrightarrow> bit (push_bit k (1 :: byte)) m \<longleftrightarrow> m = k"
  by (auto simp only: bit_push_bit_iff bit_1_iff) auto

definition set_bit :: "byte list \<Rightarrow> nat \<Rightarrow> byte list" where
  "set_bit d x = d[x div 8 := (d ! (x div 8)) OR push_bit (x mod 8) 1]"

definition reset_bit :: "byte list \<Rightarrow> nat \<Rightarrow> byte list" where
  "reset_bit d x = d[x div 8 := (d ! (x div 8)) AND NOT (push_bit (x mod 8) 1)]"

lemma bit_clear_set:
  assumes "x div 8 < length d"
  shows "bit_clear (set_bit d x) y \<longleftrightarrow> bit_clear d y \<and> y \<noteq> x"
proof (cases "y div 8 = x div 8")
  case True
  have "y \<noteq> x \<longleftrightarrow> y mod 8 \<noteq> x mod 8" using True by (metis div_mult_mod_eq)
  then show ?thesis using assms True bit_pow8 [of "x mod 8" "y mod 8"]
    by (simp add: bit_clear_iff set_bit_def bit_or_iff del: push_bit_of_1)
qed (auto simp: bit_clear_iff set_bit_def)

lemma bit_clear_reset:
  assumes "x div 8 < length d"
  shows "bit_clear (reset_bit d x) y \<longleftrightarrow> bit_clear d y \<or> y = x"
proof (cases "y div 8 = x div 8")
  case True
  have "y = x \<longleftrightarrow> y mod 8 = x mod 8" using True by (metis div_mult_mod_eq)
  then show ?thesis using assms True bit_pow8 [of "x mod 8" "y mod 8"]
    by (simp add: bit_clear_iff reset_bit_def bit_and_iff bit_not_iff del: push_bit_of_1)
qed (auto simp: bit_clear_iff reset_bit_def)

lemma unat_bm_block:
  assumes "b < 2 ^ 32" "unat (sb_ninodes sb) < 2 ^ 31"
  shows "unat (bm_block sb b) = b div BPB + unat (sb_ninodes sb) div IPB + 3"
proof -
  have b: "unat ((of_nat b :: u32) div of_nat BPB) = b div BPB"
    using assms(1) by (simp add: unat_div unat_of_nat32 BPB_def)
  have i: "unat (sb_ninodes sb div of_nat IPB) = unat (sb_ninodes sb) div IPB"
    by (simp add: unat_div IPB_def)
  have "b div BPB < 2 ^ 20" "unat (sb_ninodes sb) div IPB < 2 ^ 28"
    using assms by (auto simp: BPB_def IPB_def)
  then show ?thesis using b i by (simp add: bm_block_def BBLOCK_def unat_plus_if')
qed

section \<open>Allocation\<close>

lemma txn_viewlen:
  assumes "txn s" "unat n < unat (log_start s)"
  shows "length (sec_view s n) = BSIZE"
proof -
  have "log_inv s" using assms(1) by (simp add: txn_def)
  then have "bc_inv s" "unat n < length (disk s)" using assms(2) log_invD(1,9) [of s] by auto
  then show ?thesis by (rule sec_view_length)
qed

lemma readsb_txn:
  fixes s :: "'a log_st_scheme"
  assumes "txn s" "1 < unat (log_start s)" "length (logged s) < NBUF"
  obtains s2 where "readsb 1 (s, env) = Ok (sb_of (sec_view s 1), s2, env)" "txn s2" "sec_view s2 = sec_view s"
    "logged s2 = logged s" "frame s s2"
proof -
  have "unat (1 :: u32) < unat (log_start s)" using assms(2) by simp
  from txn_read [OF assms(1) this assms(3), of env] obtain b s2 where
    "bread 1 1 (s, env) = Ok (b, loaded b 1 s, env)" "b_data (bufs (loaded b 1 s) ! b) = sec_view s 1"
    "brelse b (loaded b 1 s) = Ok s2" "txn s2" "sec_view s2 = sec_view s" "logged s2 = logged s" "frame s s2"
    by metis
  then show thesis by (intro that [of s2]) (simp_all add: readsb_def thn_run sb_of_def)
qed

text \<open>Zeroing a block is one update of the transaction.\<close>

lemma bzero_txn:
  fixes s :: "'a log_st_scheme"
  assumes "txn s" "unat n < unat (log_start s)" "txn_room 1 s"
  obtains s' where "bzero 1 n (s, env) = Ok ((), s', env)" "txn s'" "length (logged s') \<le> length (logged s) + 1"
    "txn_frame s s'"
    "\<And>m. unat m < unat (log_start s) \<Longrightarrow> sec_view s' m = ((sec_view s)(n := replicate BSIZE 0)) m"
    "set (logged s') = insert n (set (logged s))"
proof -
  have "length (replicate BSIZE 0 :: byte list) = BSIZE" by simp
  from txn_update [OF assms(1,2) this assms(3), of env] obtain b s3 s4 where
    "bread 1 n (s, env) = Ok (b, loaded b n s, env)"
    "log_write b (set_data b (replicate BSIZE 0) (loaded b n s), env) = Ok ((), s3, env)" "brelse b s3 = Ok s4"
    "txn s4" "length (logged s4) \<le> length (logged s) + 1" "txn_frame s s4"
    "\<And>m. unat m < unat (log_start s) \<Longrightarrow> sec_view s4 m = ((sec_view s)(n := replicate BSIZE 0)) m"
    "set (logged s4) = insert n (set (logged s))"
    by metis
  then show thesis by (intro that [of s4]) (simp_all add: bzero_def thn_run)
qed

lemma length_set_bit [simp]: "length (set_bit d x) = length d" "length (reset_bit d x) = length d"
  by (simp_all add: set_bit_def reset_bit_def)

text \<open>The scan of the bitmap, from a block on whose predecessors are all in use.\<close>

lemma bm_block_div: "bm_block sb b = of_nat (b div BPB) + sb_ninodes sb div of_nat IPB + 3" if "b < 2 ^ 32"
  using unat_of_nat32 [OF that] by (simp add: bm_block_def BBLOCK_def BPB_def word_arith_nat_div)

lemma in_use_iff: "in_use sb V (BPB * q + x) \<longleftrightarrow> \<not> bit_clear (V (bm_block sb (BPB * q))) x"
  if "x < BPB" "BPB * q + x < 2 ^ 32"
proof -
  have "bm_block sb (BPB * q + x) = bm_block sb (BPB * q)"
    using that by (simp add: bm_block_div)
  then show ?thesis using that by (simp add: in_use_def)
qed

lemma balloc_loop_ok:
  fixes s :: "'a log_st_scheme"
  assumes "txn s" "txn_room 2 s" "k < unat (sb_size sb)" "k < unat (log_start s)"
    "\<not> in_use sb (sec_view s) k" "\<And>j. j < k \<Longrightarrow> in_use sb (sec_view s) j"
    "\<And>j. j \<le> k \<Longrightarrow> unat (bm_block sb j) < unat (log_start s)" "b = BPB * q" "b \<le> k"
  shows "\<exists>s'. balloc_loop 1 sb b (s, env) = Ok (of_nat k, s', env) \<and> txn s' \<and>
     length (logged s') \<le> length (logged s) + 2 \<and> txn_frame s s' \<and>
     set (logged s') = set (logged s) \<union> {bm_block sb k, of_nat k} \<and>
     (\<forall>m. unat m < unat (log_start s) \<longrightarrow> sec_view s' m =
       ((sec_view s)(bm_block sb k := set_bit (sec_view s (bm_block sb k)) (k mod BPB), of_nat k := replicate BSIZE 0)) m)"
  using assms
proof (induction "k - b" arbitrary: b q s rule: less_induct)
  case less
  note t = less.prems(1) and room = less.prems(2) and b = less.prems(8,9)
  let ?n = "bm_block sb b" and ?d = "sec_view s (bm_block sb b)"
  have k32: "k < 2 ^ 32" using less.prems(3) unat_word_less32 [of "sb_size sb"] by simp
  have n: "unat ?n < unat (log_start s)" using less.prems(7) b by blast
  have nb: "BBLOCK (of_nat b) (sb_ninodes sb) = ?n" by (simp add: bm_block_def)
  have lt: "b < unat (sb_size sb)" using b less.prems(3) by simp
  have use: "in_use sb (sec_view s) (b + x) \<longleftrightarrow> \<not> bit_clear ?d x" if "x < BPB" "b + x < 2 ^ 32" for x
    using in_use_iff [OF that(1), of q] that b by simp
  show ?case
  proof (cases "k < b + BPB")
    case True
    let ?x = "k - b"
    have x: "?x < BPB" "b + ?x = k" "k mod BPB = ?x" using True b by (auto simp: mod_nat_eqI)
    have "k div BPB = q" using x(1,2) b by (intro div_nat_eqI) auto
    then have kb: "bm_block sb k = ?n" using k32 b by (simp add: bm_block_div BPB_def)
    have "free_bit ?d b (unat (sb_size sb)) 0 BPB = Some ?x"
      unfolding free_bit_Some
    proof (intro conjI allI impI)
      show "bit_clear ?d ?x" using use [of ?x] x less.prems(5) k32 by simp
      show "\<not> bit_clear ?d y" if "0 \<le> y \<and> y < ?x" for y using use [of y] that x less.prems(6) [of "b + y"] k32 by simp
    qed (use x less.prems(3) in auto)
    note fb = this
    have len: "length (set_bit ?d ?x) = BSIZE" using txn_viewlen [OF t n] by simp
    from txn_update [OF t n len txn_room_mono [OF room], of env] obtain bp s3 s4 where
      u: "bread 1 ?n (s, env) = Ok (bp, loaded bp ?n s, env)" "b_data (bufs (loaded bp ?n s) ! bp) = ?d"
        "log_write bp (set_data bp (set_bit ?d ?x) (loaded bp ?n s), env) = Ok ((), s3, env)" "brelse bp s3 = Ok s4"
        "txn s4" "length (logged s4) \<le> length (logged s) + 1" "txn_frame s s4"
      and v: "\<And>m. unat m < unat (log_start s) \<Longrightarrow> sec_view s4 m = ((sec_view s)(?n := set_bit ?d ?x)) m"
      and w: "set (logged s4) = insert ?n (set (logged s))"
      by (metis one_le_numeral)
    have ls: "log_start s4 = log_start s" "log_size s4 = log_size s" using txn_frameD [OF u(7)] by auto
    have "txn_room 1 s4" using txn_room_step [of 1 s s4] room u(6) ls by (simp add: numeral_2_eq_2)
    moreover have "unat (of_nat k :: u32) < unat (log_start s4)" using less.prems(4) k32 ls by (simp add: unat_of_nat32)
    ultimately obtain s5 where z: "bzero 1 (of_nat k) (s4, env) = Ok ((), s5, env)" "txn s5"
      "length (logged s5) \<le> length (logged s4) + 1" "txn_frame s4 s5"
      "\<And>m. unat m < unat (log_start s4) \<Longrightarrow> sec_view s5 m = ((sec_view s4)(of_nat k := replicate BSIZE 0)) m"
      "set (logged s5) = insert (of_nat k) (set (logged s4))"
      using bzero_txn [OF u(5), of "of_nat k" env] by metis
    have run: "balloc_loop 1 sb b (s, env) = Ok (of_nat k, s5, env)"
      using u(1-4) z(1) fb lt x(2) by (subst balloc_loop.simps) (simp add: nb thn_run set_bit_def flip: of_nat_add)
    have "sec_view s5 m = ((sec_view s)(?n := set_bit ?d ?x, of_nat k := replicate BSIZE 0)) m"
      if "unat m < unat (log_start s)" for m using z(5) [of m] v [of m] that ls by simp
    then show ?thesis unfolding kb x(3) using run z(2,3,6) u(6) w txn_frame_trans [OF u(7) z(4)]
      by (intro exI [of _ s5]) auto
  next
    case False
    have "free_bit ?d b (unat (sb_size sb)) 0 BPB = None"
      unfolding free_bit_None
    proof (intro allI impI)
      fix x assume "0 \<le> x \<and> x < 0 + BPB \<and> b + x < unat (sb_size sb)"
      then show "\<not> bit_clear ?d x" using use [of x] less.prems(6) [of "b + x"] False k32 by simp
    qed
    note fb = this
    have "length (logged s) < NBUF" using room by (simp add: txn_room_def)
    from txn_read [OF t n this, of env] obtain bp s2 where
      r: "bread 1 ?n (s, env) = Ok (bp, loaded bp ?n s, env)" "b_data (bufs (loaded bp ?n s) ! bp) = ?d"
        "brelse bp (loaded bp ?n s) = Ok s2" "txn s2" "sec_view s2 = sec_view s" "logged s2 = logged s" "frame s s2"
      by metis
    have fr: "txn_frame s s2" using r(7) by (rule txn_frame_of_frame)
    have ls: "log_start s2 = log_start s" "log_size s2 = log_size s" using txn_frameD [OF fr] by auto
    have run: "balloc_loop 1 sb b (s, env) = balloc_loop 1 sb (b + BPB) (s2, env)"
      using r(1-3) fb lt by (subst balloc_loop.simps) (simp add: nb thn_run)
    have dec: "k - (b + BPB) < k - b" and b': "b + BPB = BPB * (q + 1)" "b + BPB \<le> k"
      using False b by (simp_all add: BPB_def)
    have room2: "txn_room 2 s2" using room r(6) ls by (simp add: txn_room_def)
    note prems = less.prems(4-7) [folded r(5) ls(1)]
    obtain s' where "balloc_loop 1 sb (b + BPB) (s2, env) = Ok (of_nat k, s', env)" "txn s'"
      "length (logged s') \<le> length (logged s) + 2" "txn_frame s2 s'"
      "set (logged s') = set (logged s) \<union> {bm_block sb k, of_nat k}"
      "\<forall>m. unat m < unat (log_start s) \<longrightarrow> sec_view s' m =
       ((sec_view s)(bm_block sb k := set_bit (sec_view s (bm_block sb k)) (k mod BPB), of_nat k := replicate BSIZE 0)) m"
      using less.hyps [OF dec r(4) room2 less.prems(3) prems b'] unfolding r(5,6) ls(1) by blast
    then show ?thesis unfolding run using txn_frame_trans [OF fr] by blast
  qed
qed

lemma balloc_loop_full:
  fixes s :: "'a log_st_scheme"
  assumes "txn s" "length (logged s) < NBUF"
    "\<And>j. j < unat (sb_size sb) \<Longrightarrow> in_use sb (sec_view s) j"
    "\<And>j. j < unat (sb_size sb) \<Longrightarrow> unat (bm_block sb j) < unat (log_start s)" "b = BPB * q"
  shows "balloc_loop 1 sb b (s, env) = Panic ''balloc: out of blocks''"
  using assms
proof (induction "unat (sb_size sb) - b" arbitrary: b q s rule: less_induct)
  case less
  show ?case
  proof (cases "b < unat (sb_size sb)")
    case lt: True
    let ?n = "bm_block sb b" and ?d = "sec_view s (bm_block sb b)"
    have nb: "BBLOCK (of_nat b) (sb_ninodes sb) = ?n" by (simp add: bm_block_def)
    have fb: "free_bit ?d b (unat (sb_size sb)) 0 BPB = None"
      unfolding free_bit_None
    proof (intro allI impI)
      fix x assume x: "0 \<le> x \<and> x < 0 + BPB \<and> b + x < unat (sb_size sb)"
      then have "b + x < 2 ^ 32" using unat_word_less32 [of "sb_size sb"] by simp
      then show "\<not> bit_clear ?d x" using in_use_iff [of x q] x less.prems(3) [of "b + x"] less.prems(5) by simp
    qed
    from txn_read [OF less.prems(1) less.prems(4) [OF lt] less.prems(2), of env] obtain bp s2 where
      r: "bread 1 ?n (s, env) = Ok (bp, loaded bp ?n s, env)" "b_data (bufs (loaded bp ?n s) ! bp) = ?d"
        "brelse bp (loaded bp ?n s) = Ok s2" "txn s2" "sec_view s2 = sec_view s" "logged s2 = logged s" "frame s s2"
      by metis
    have ls: "log_start s2 = log_start s" using txn_frameD [OF txn_frame_of_frame [OF r(7)]] by auto
    have dec: "unat (sb_size sb) - (b + BPB) < unat (sb_size sb) - b" and b': "b + BPB = BPB * (q + 1)"
      using lt less.prems(5) by (simp_all add: BPB_def)
    have "balloc_loop 1 sb b (s, env) = balloc_loop 1 sb (b + BPB) (s2, env)"
      using r(1-3) fb lt by (subst balloc_loop.simps) (simp add: nb thn_run)
    then show ?thesis
      using less.hyps [OF dec r(4) less.prems(2) [folded r(6)] less.prems(3,4) [folded r(5) ls] b'] by simp
  next
    case False
    then show ?thesis by (subst balloc_loop.simps) simp
  qed
qed

text \<open>
  The layout of a disk, as the allocator finds it: the superblock and the bitmap blocks lie
  below the log, and the bitmap covers itself and the superblock.
\<close>

definition alloc_disk :: "superblock \<Rightarrow> 'a log_st_scheme \<Rightarrow> bool" where
  "alloc_disk sb s \<longleftrightarrow> 1 < unat (log_start s) \<and> log_start s \<le> sb_size sb \<and> sb = sb_of (sec_view s 1) \<and> in_use sb (sec_view s) 1 \<and>
     (\<forall>j<unat (sb_size sb). bm_block sb j \<noteq> 1 \<and> unat (bm_block sb j) < unat (log_start s) \<and>
        in_use sb (sec_view s) (unat (bm_block sb j)))"

lemma of_nat_unat32 [simp]: "(of_nat (unat (w :: u32)) :: u32) = w"
  by simp

lemma same_bm_block:
  assumes "bm_block sb j = bm_block sb k" "k < 2 ^ 32" "j < 2 ^ 32"
  shows "j = k \<longleftrightarrow> j mod BPB = k mod BPB"
proof -
  have e: "(of_nat (j div BPB) :: u32) = of_nat (k div BPB)" using assms by (simp add: bm_block_div)
  have "j div BPB < 2 ^ 32" "k div BPB < 2 ^ 32" using assms(2,3) by (simp_all add: BPB_def)
  then have "j div BPB = k div BPB" using arg_cong [OF e, of unat] by (simp add: unat_of_nat32)
  then show ?thesis by (metis div_mult_mod_eq)
qed

lemma in_use_change:
  assumes "length (V (bm_block sb k)) = BSIZE" "k < 2 ^ 32" "j < 2 ^ 32"
  shows "in_use sb (V(bm_block sb k := set_bit (V (bm_block sb k)) (k mod BPB))) j \<longleftrightarrow> in_use sb V j \<or> j = k" (is ?set)
    and "in_use sb (V(bm_block sb k := reset_bit (V (bm_block sb k)) (k mod BPB))) j \<longleftrightarrow> in_use sb V j \<and> j \<noteq> k" (is ?reset)
proof -
  have x: "k mod BPB div 8 < length (V (bm_block sb k))"
    using assms(1) by (simp add: BPB_def BSIZE_def less_mult_imp_div_less)
  have "?set \<and> ?reset"
  proof (cases "bm_block sb j = bm_block sb k")
    case True
    then show ?thesis
      using same_bm_block [OF True assms(2,3)] bit_clear_set [OF x] bit_clear_reset [OF x] by (simp add: in_use_def)
  next
    case False
    then show ?thesis by (auto simp: in_use_def)
  qed
  then show ?set ?reset by auto
qed

lemma in_use_cong: "V (bm_block sb j) = V' (bm_block sb j) \<Longrightarrow> in_use sb V j = in_use sb V' j"
  by (simp add: in_use_def)

lemma balloc_ok:
  fixes s :: "'a log_st_scheme"
  assumes t: "txn s" and room: "txn_room 2 s" and d: "alloc_disk sb s"
    and k': "k < unat (log_start s)" "\<not> in_use sb (sec_view s) k" "\<And>j. j < k \<Longrightarrow> in_use sb (sec_view s) j"
  shows "\<exists>s'. balloc 1 (s, env) = Ok (of_nat k, s', env) \<and> txn s' \<and> length (logged s') \<le> length (logged s) + 2 \<and>
     txn_frame s s' \<and> sec_view s' (of_nat k) = replicate BSIZE 0 \<and>
     (\<forall>j<unat (sb_size sb). in_use sb (sec_view s') j \<longleftrightarrow> in_use sb (sec_view s) j \<or> j = k) \<and>
     (\<forall>m. unat m < unat (log_start s) \<and> m \<noteq> of_nat k \<and> m \<noteq> bm_block sb k \<longrightarrow> sec_view s' m = sec_view s m) \<and>
     alloc_disk sb s' \<and> set (logged s') = set (logged s) \<union> {bm_block sb k, of_nat k}"
proof -
  have sb: "1 < unat (log_start s)" "sb = sb_of (sec_view s 1)" "in_use sb (sec_view s) 1"
    and bm: "\<And>j. j < unat (sb_size sb) \<Longrightarrow> unat (bm_block sb j) < unat (log_start s)"
      "\<And>j. j < unat (sb_size sb) \<Longrightarrow> in_use sb (sec_view s) (unat (bm_block sb j))"
    using d by (auto simp: alloc_disk_def)
  have le: "unat (log_start s) \<le> unat (sb_size sb)" using d unfolding alloc_disk_def word_le_nat_alt by blast
  note k = less_le_trans [OF k'(1) le] k'
  have sz: "j < 2 ^ 32" if "j < unat (sb_size sb)" for j using that unat_word_less32 [of "sb_size sb"] by simp
  have "length (logged s) < NBUF" using room by (simp add: txn_room_def)
  from readsb_txn [OF t sb(1) this, of env] obtain s2 where
    r: "readsb 1 (s, env) = Ok (sb_of (sec_view s 1), s2, env)" "txn s2" "sec_view s2 = sec_view s" "logged s2 = logged s"
      "frame s s2" by metis
  have fr: "txn_frame s s2" by (rule txn_frame_of_frame [OF r(5)])
  have ls: "log_start s2 = log_start s" "log_size s2 = log_size s" using txn_frameD [OF fr] by auto
  have room2: "txn_room 2 s2" using room r(4) ls by (simp add: txn_room_def)
  have bm2: "unat (bm_block sb j) < unat (log_start s)" if "j \<le> k" for j using bm(1) [of j] that k(1) by simp
  let ?V = "(sec_view s)(bm_block sb k := set_bit (sec_view s (bm_block sb k)) (k mod BPB))"
  obtain s' where l: "balloc_loop 1 sb 0 (s2, env) = Ok (of_nat k, s', env)" "txn s'"
    "length (logged s') \<le> length (logged s) + 2" "txn_frame s2 s'"
    "\<forall>m. unat m < unat (log_start s) \<longrightarrow> sec_view s' m = (?V(of_nat k := replicate BSIZE 0)) m"
    "set (logged s') = set (logged s) \<union> {bm_block sb k, of_nat k}"
    using balloc_loop_ok [OF r(2) room2 k(1), of 0 0 env] k(2-4) bm2 unfolding r(3,4) ls(1) by auto
  have kw: "unat (of_nat k :: u32) = k" using sz [OF k(1)] by (rule unat_of_nat32)
  have nk: "m \<noteq> of_nat k" if "in_use sb (sec_view s) (unat m)" for m :: u32 using that k(3) kw by auto
  have bit: "in_use sb (sec_view s') j \<longleftrightarrow> in_use sb (sec_view s) j \<or> j = k" if j: "j < unat (sb_size sb)" for j
  proof -
    have "in_use sb (sec_view s') j = in_use sb ?V j"
      using l(5) bm(1) [OF j] nk [OF bm(2) [OF j]] by (intro in_use_cong) simp
    moreover have "length (sec_view s (bm_block sb k)) = BSIZE" using txn_viewlen [OF t bm(1) [OF k(1)]] .
    ultimately show ?thesis using in_use_change(1) [of "sec_view s" sb k j] sz j k(1) by simp
  qed
  have bk: "bm_block sb k \<noteq> of_nat k" using nk [OF bm(2) [OF k(1)]] .
  have one: "sec_view s' 1 = sec_view s 1"
    using l(5) [rule_format, of 1] sb(1) nk [of 1] sb(3) d k(1) by (auto simp: alloc_disk_def)
  have fr': "txn_frame s s'" using txn_frame_trans [OF fr l(4)] .
  have "alloc_disk sb s'"
    using d one bit le txn_frameD(1) [OF fr'] by (auto simp: alloc_disk_def)
  moreover have "balloc 1 (s, env) = Ok (of_nat k, s', env)"
    using r(1) l(1) sb(2) by (simp add: balloc_def thn_run)
  ultimately show ?thesis
    using l(2,3,5,6) bit fr' k(2) kw bk by (intro exI [of _ s']) auto
qed

lemma bfree_ok:
  fixes s :: "'a log_st_scheme"
  assumes t: "txn s" and room: "txn_room 1 s" and d: "alloc_disk sb s" and b: "unat b < unat (sb_size sb)"
  shows "bfree 1 b (s, env) = Panic ''freeing free block'' \<and> \<not> in_use sb (sec_view s) (unat b) \<or>
    in_use sb (sec_view s) (unat b) \<and>
    (\<exists>s'. bfree 1 b (s, env) = Ok ((), s', env) \<and> txn s' \<and> length (logged s') \<le> length (logged s) + 1 \<and>
       txn_frame s s' \<and>
       (\<forall>j<unat (sb_size sb). in_use sb (sec_view s') j \<longleftrightarrow> in_use sb (sec_view s) j \<and> j \<noteq> unat b) \<and>
       (\<forall>m. unat m < unat (log_start s) \<and> m \<noteq> bm_block sb (unat b) \<longrightarrow> sec_view s' m = sec_view s m))"
proof -
  have sb: "1 < unat (log_start s)" "sb = sb_of (sec_view s 1)"
    and bm: "\<And>j. j < unat (sb_size sb) \<Longrightarrow> unat (bm_block sb j) < unat (log_start s)"
    using d by (auto simp: alloc_disk_def)
  let ?n = "bm_block sb (unat b)" and ?x = "unat b mod BPB"
  let ?d = "sec_view s ?n"
  have "length (logged s) < NBUF" using room by (simp add: txn_room_def)
  from readsb_txn [OF t sb(1) this, of env] obtain s2 where
    r: "readsb 1 (s, env) = Ok (sb_of (sec_view s 1), s2, env)" "txn s2" "sec_view s2 = sec_view s" "logged s2 = logged s"
      "frame s s2" by metis
  have fr: "txn_frame s s2" by (rule txn_frame_of_frame [OF r(5)])
  have ls: "log_start s2 = log_start s" "log_size s2 = log_size s" using txn_frameD [OF fr] by auto
  have room2: "txn_room 1 s2" using room r(4) ls by (simp add: txn_room_def)
  have nb: "BBLOCK b (sb_ninodes sb) = ?n" by (simp add: bm_block_def)
  have n: "unat ?n < unat (log_start s2)" using bm [OF b] ls by simp
  have vl: "length ?d = BSIZE" using txn_viewlen [OF t] bm [OF b] .
  then have len: "length (reset_bit ?d ?x) = BSIZE" by simp
  from txn_update [OF r(2) n len room2, of env] obtain bp s3 s4 where
    u: "bread 1 ?n (s2, env) = Ok (bp, loaded bp ?n s2, env)" "b_data (bufs (loaded bp ?n s2) ! bp) = ?d"
      "log_write bp (set_data bp (reset_bit ?d ?x) (loaded bp ?n s2), env) = Ok ((), s3, env)" "brelse bp s3 = Ok s4"
      "txn s4" "length (logged s4) \<le> length (logged s2) + 1" "txn_frame s2 s4"
    and v: "\<And>m. unat m < unat (log_start s2) \<Longrightarrow> sec_view s4 m = ((sec_view s)(?n := reset_bit ?d ?x)) m"
    unfolding r(3) by metis
  show ?thesis
  proof (cases "bit_clear ?d ?x")
    case True
    then have "bfree 1 b (s, env) = Panic ''freeing free block''"
      using r(1) u(1,2) sb(2) nb by (simp add: bfree_def thn_run Let_def)
    then show ?thesis using True by (simp add: in_use_def)
  next
    case False
    then have run: "bfree 1 b (s, env) = Ok ((), s4, env)"
      using r(1) u(1-4) sb(2) nb by (simp add: bfree_def thn_run Let_def reset_bit_def)
    have bit: "in_use sb (sec_view s4) j \<longleftrightarrow> in_use sb (sec_view s) j \<and> j \<noteq> unat b" if j: "j < unat (sb_size sb)" for j
    proof -
      have "in_use sb (sec_view s4) j = in_use sb ((sec_view s)(?n := reset_bit ?d ?x)) j"
        using v bm [OF j] ls by (intro in_use_cong) simp
      moreover have "j < 2 ^ 32" using j unat_word_less32 [of "sb_size sb"] by simp
      ultimately show ?thesis using in_use_change(2) [of "sec_view s" sb "unat b" j, OF vl] unat_word_less32 by simp
    qed
    have "sec_view s4 m = sec_view s m" if "unat m < unat (log_start s)" "m \<noteq> ?n" for m
      using v [of m] that ls by simp
    then show ?thesis using False run u(5,6) r(4) bit txn_frame_trans [OF fr u(7)] by (auto simp: in_use_def)
  qed
qed

section \<open>The allocator as a set of blocks\<close>

definition used_blocks :: "superblock \<Rightarrow> 'a log_st_scheme \<Rightarrow> nat set" where
  "used_blocks sb s = {j. j < unat (sb_size sb) \<and> in_use sb (sec_view s) j}"

lemma used_blocksI:
  "(\<And>j. j < unat (sb_size sb) \<Longrightarrow> in_use sb (sec_view s') j \<longleftrightarrow> in_use sb (sec_view s) j \<or> j = k) \<Longrightarrow>
   k < unat (sb_size sb) \<Longrightarrow> used_blocks sb s' = insert k (used_blocks sb s)"
  by (auto simp: used_blocks_def)

lemma alloc_disk_size: "alloc_disk sb s \<Longrightarrow> unat (log_start s) \<le> unat (sb_size sb)"
  unfolding alloc_disk_def word_le_nat_alt by blast

text \<open>C21: inside a transaction, when some block below the log is free in the bitmap, \<open>balloc\<close> returns the first such
  block; the set of blocks in use grows by exactly that block, the block reads as zeros, and no block but it
  and its bitmap block changes. When every block of the disk is in use it panics.\<close>

theorem balloc_allocates_first_free:
  fixes s :: "'a log_st_scheme"
  assumes "txn s" "txn_room 2 s" "alloc_disk sb s"
  shows "(k < unat (log_start s) \<and> k \<notin> used_blocks sb s \<and> {0..<k} \<subseteq> used_blocks sb s \<longrightarrow>
      returns (balloc 1 (s, env)) (\<lambda>(b, s', env'). b = of_nat k \<and> env' = env \<and> txn s' \<and> alloc_disk sb s' \<and>
        used_blocks sb s' = insert k (used_blocks sb s) \<and> sec_view s' b = replicate BSIZE 0 \<and>
        (\<forall>m. unat m < unat (log_start s) \<and> m \<noteq> b \<and> m \<noteq> bm_block sb k \<longrightarrow> sec_view s' m = sec_view s m))) \<and>
    (used_blocks sb s = {0..<unat (sb_size sb)} \<longrightarrow> balloc 1 (s, env) = Panic ''balloc: out of blocks'')"
proof (intro conjI impI; (elim conjE)?)
  note le = alloc_disk_size [OF assms(3)]
  assume k: "k < unat (log_start s)" "k \<notin> used_blocks sb s" "{0..<k} \<subseteq> used_blocks sb s"
  then have u: "\<not> in_use sb (sec_view s) k" "\<And>j. j < k \<Longrightarrow> in_use sb (sec_view s) j"
    using le by (auto simp: used_blocks_def)
  obtain s' where "balloc 1 (s, env) = Ok (of_nat k, s', env)" "txn s'" "sec_view s' (of_nat k) = replicate BSIZE 0"
     "\<And>j. j < unat (sb_size sb) \<Longrightarrow> in_use sb (sec_view s') j \<longleftrightarrow> in_use sb (sec_view s) j \<or> j = k"
     "\<forall>m. unat m < unat (log_start s) \<and> m \<noteq> of_nat k \<and> m \<noteq> bm_block sb k \<longrightarrow> sec_view s' m = sec_view s m"
     "alloc_disk sb s'"
    using balloc_ok [OF assms k(1) u, of env] by blast
  then show "returns (balloc 1 (s, env)) (\<lambda>(b, s', env'). b = of_nat k \<and> env' = env \<and> txn s' \<and> alloc_disk sb s' \<and>
        used_blocks sb s' = insert k (used_blocks sb s) \<and> sec_view s' b = replicate BSIZE 0 \<and>
        (\<forall>m. unat m < unat (log_start s) \<and> m \<noteq> b \<and> m \<noteq> bm_block sb k \<longrightarrow> sec_view s' m = sec_view s m))"
    using used_blocksI [of sb s' s k] k(1) le by simp
next
  assume full: "used_blocks sb s = {0..<unat (sb_size sb)}"
  have lb: "length (logged s) < NBUF" using assms(2) by (simp add: txn_room_def)
  from assms(3) have sb: "1 < unat (log_start s)" "sb_of (sec_view s 1) = sb" by (auto simp: alloc_disk_def)
  from readsb_txn [OF assms(1) sb(1) lb, of env] obtain s2 where
    r: "readsb 1 (s, env) = Ok (sb, s2, env)" "txn s2" "sec_view s2 = sec_view s" "logged s2 = logged s" "frame s s2"
    unfolding sb(2) by metis
  have ls: "log_start s2 = log_start s" using txn_frameD [OF txn_frame_of_frame [OF r(5)]] by auto
  have "balloc_loop 1 sb 0 (s2, env) = Panic ''balloc: out of blocks''"
  proof (rule balloc_loop_full [OF r(2) lb [folded r(4)], where q = 0])
    show "in_use sb (sec_view s2) j" "unat (bm_block sb j) < unat (log_start s2)" if "j < unat (sb_size sb)" for j
      using that full assms(3) r(3) ls by (auto simp: used_blocks_def alloc_disk_def)
  qed simp
  then show "balloc 1 (s, env) = Panic ''balloc: out of blocks''" using r(1) by (simp add: balloc_def thn_run)
qed

text \<open>
  A disk of 20 sectors with its log in the last 12: eight inodes in blocks 2 and 3, the
  bitmap in block 4, and blocks 0 to 4 in use.
\<close>

definition fs_demo_img :: "byte list list" where
  "fs_demo_img = (replicate 20 (replicate BSIZE 0))
     [1 := wr32 (wr32 (wr32 (wr32 (replicate BSIZE 0) 0 20) 4 3) 8 8) 12 12, 4 := (replicate BSIZE 0)[0 := 31]]"

definition fs_demo :: log_st where
  "fs_demo = cold fs_demo_img (disk_st.extend (demo_disk []) (log_st.fields 8 12 True 1 0 (replicate LOGSIZE 0)))"

lemma fs_demo_blocks: "\<forall>b\<in>set fs_demo_img. length b = BSIZE"
  by (auto simp: fs_demo_img_def dest!: set_update_subset_insert [THEN subsetD])

lemma fs_demo_simps [simp]:
  "held fs_demo = []" "log_start fs_demo = 8" "log_size fs_demo = 12" "log_busy fs_demo" "log_dev fs_demo = 1"
  "lh_n fs_demo = 0" "lh_sector fs_demo = replicate LOGSIZE 0" "disk fs_demo = fs_demo_img" "dwrites fs_demo = []"
  by (simp_all add: fs_demo_def cold_def binit_def ideinit_def disk_st.defs log_st.defs demo_disk_def demo_st_def proc_st.defs)

lemma fs_demo_view: "sec_view fs_demo n = fs_demo_img ! unat n"
  unfolding fs_demo_def by (rule cold_view(1) [OF fs_demo_blocks])

lemma fs_demo_txn: "txn fs_demo" "logged fs_demo = []" "txn_room 3 fs_demo"
proof -
  show l: "logged fs_demo = []" by (simp add: logged_def)
  then show "txn_room 3 fs_demo" by (simp add: txn_room_def NBUF_def)
  have i: "bc_inv fs_demo" unfolding fs_demo_def by (rule cold_inv [OF fs_demo_blocks])
  then have "quiet fs_demo" "dirty_secs fs_demo = {}" "busy_secs fs_demo = {}"
    by (auto simp: quiet_def dirty_secs_def busy_secs_def) (simp_all add: fs_demo_def zero_buf_def)
  with i l show "txn fs_demo"
    unfolding txn_def log_inv_def by (simp add: LOGSIZE_def fs_demo_img_def)
qed

definition fs_demo_sb :: superblock where
  "fs_demo_sb = \<lparr>sb_size = 20, sb_nblocks = 3, sb_ninodes = 8, sb_nlog = 12\<rparr>"

lemma fs_demo_bm: "bm_block fs_demo_sb j = 4" if "j < 20"
  using that by (simp add: bm_block_div fs_demo_sb_def BPB_def IPB_def)

lemma fs_demo_in_use: "in_use fs_demo_sb (sec_view fs_demo) j \<longleftrightarrow> j < 5" if "j < 20"
proof -
  have e: "sec_view fs_demo 4 = (replicate BSIZE 0)[0 := 31]" by (simp add: fs_demo_view fs_demo_img_def)
  have "in_use fs_demo_sb (sec_view fs_demo) j \<longleftrightarrow> bit (((replicate BSIZE 0)[0 := 31]) ! (j div 8) :: byte) (j mod 8)"
    using that by (simp add: in_use_def fs_demo_bm e bit_clear_iff BPB_def)
  moreover have "j \<in> set [0..<20]" using that by simp
  then have "bit (((replicate BSIZE 0)[0 := 31]) ! (j div 8) :: byte) (j mod 8) \<longleftrightarrow> j < 5"
    by (auto simp: upt_rec BSIZE_def bit_numeral_rec bit_1_iff)
  ultimately show ?thesis by simp
qed

lemma fs_demo_alloc: "alloc_disk fs_demo_sb fs_demo" "used_blocks fs_demo_sb fs_demo = {0..<5}"
proof -
  have "sec_view fs_demo 1 = wr32 (wr32 (wr32 (wr32 (replicate BSIZE 0) 0 20) 4 3) 8 8) 12 12"
    by (simp add: fs_demo_view fs_demo_img_def)
  then have "sb_of (sec_view fs_demo 1) = fs_demo_sb"
    by (simp add: sb_of_def fs_demo_sb_def rd32_wr32_other BSIZE_def)
  then show "alloc_disk fs_demo_sb fs_demo"
    using fs_demo_bm fs_demo_in_use by (simp add: alloc_disk_def) (simp add: fs_demo_sb_def)
  show "used_blocks fs_demo_sb fs_demo = {0..<5}"
    using fs_demo_in_use by (auto simp: used_blocks_def fs_demo_sb_def)
qed

theorem balloc_allocates_first_free_witness:
  "returns (balloc 1 (fs_demo, [])) (\<lambda>(b, s', _). b = 5 \<and> used_blocks fs_demo_sb s' = insert 5 {0..<5} \<and>
     sec_view s' 5 = replicate BSIZE 0)"
proof -
  have "txn_room 2 fs_demo" by (rule txn_room_mono [OF fs_demo_txn(3)]) simp
  from balloc_allocates_first_free [OF fs_demo_txn(1) this fs_demo_alloc(1), of 5 "[]"] show ?thesis
    unfolding fs_demo_alloc(2) by (auto elim!: returns_mono)
qed

text \<open>Freeing the block that \<open>balloc\<close> has just returned gives back the set of blocks in use that there was before,
  and every other block keeps its contents; freeing it a second time panics.\<close>

lemma balloc_bfree_roundtrip:
  fixes s :: "'a log_st_scheme"
  assumes "txn s" "txn_room 4 s" "alloc_disk sb s" "k < unat (log_start s)" "k \<notin> used_blocks sb s"
    "{0..<k} \<subseteq> used_blocks sb s"
  shows "returns (thn (balloc 1) (bfree 1) (s, env)) (\<lambda>(_, s', env'). env' = env \<and> txn s' \<and>
      used_blocks sb s' = used_blocks sb s \<and>
      (\<forall>m. unat m < unat (log_start s) \<and> m \<noteq> of_nat k \<and> m \<noteq> bm_block sb k \<longrightarrow> sec_view s' m = sec_view s m)) \<and>
    thn (balloc 1) (\<lambda>b. thn (bfree 1 b) (\<lambda>_. bfree 1 b)) (s, env) = Panic ''freeing free block''"
proof -
  note le = alloc_disk_size [OF assms(3)]
  have kw: "unat (of_nat k :: u32) = k" using assms(4) unat_word_less32 [of "log_start s"] by (simp add: unat_of_nat32)
  have u: "\<not> in_use sb (sec_view s) k" "\<And>j. j < k \<Longrightarrow> in_use sb (sec_view s) j"
    using assms(4-6) le by (auto simp: used_blocks_def)
  have r2: "txn_room 2 s" using txn_room_mono [OF assms(2)] by simp
  obtain s1 where a: "balloc 1 (s, env) = Ok (of_nat k, s1, env)" "txn s1" "length (logged s1) \<le> length (logged s) + 2"
     "txn_frame s s1"
     "\<forall>j<unat (sb_size sb). in_use sb (sec_view s1) j \<longleftrightarrow> in_use sb (sec_view s) j \<or> j = k"
     "\<forall>m. unat m < unat (log_start s) \<and> m \<noteq> of_nat k \<and> m \<noteq> bm_block sb k \<longrightarrow> sec_view s1 m = sec_view s m"
     "alloc_disk sb s1"
    using balloc_ok [OF assms(1) r2 assms(3,4) u, of env] by blast
  have ls: "log_start s1 = log_start s" "log_size s1 = log_size s" using txn_frameD [OF a(4)] by auto
  have r1: "txn_room 1 s1" using assms(2) a(3) ls by (auto simp: txn_room_def)
  have ks: "unat (of_nat k :: u32) < unat (sb_size sb)" using kw assms(4) le by simp
  obtain s2 where f: "bfree 1 (of_nat k) (s1, env) = Ok ((), s2, env)" "txn s2" "length (logged s2) \<le> length (logged s1) + 1"
     "txn_frame s1 s2"
     "\<forall>j<unat (sb_size sb). in_use sb (sec_view s2) j \<longleftrightarrow> in_use sb (sec_view s1) j \<and> j \<noteq> k"
     "\<forall>m. unat m < unat (log_start s1) \<and> m \<noteq> bm_block sb k \<longrightarrow> sec_view s2 m = sec_view s1 m"
    using bfree_ok [OF a(2) r1 a(7) ks, of env] a(5) ks kw by auto
  have ud: "used_blocks sb s2 = used_blocks sb s" using a(5) f(5) u(1) by (auto simp: used_blocks_def)
  have "sec_view s2 m = sec_view s m" if "unat m < unat (log_start s)" "m \<noteq> of_nat k" "m \<noteq> bm_block sb k" for m
    using f(6) a(6) that ls by auto
  then have rt: "returns (thn (balloc 1) (bfree 1) (s, env)) (\<lambda>(_, s', env'). env' = env \<and> txn s' \<and>
      used_blocks sb s' = used_blocks sb s \<and>
      (\<forall>m. unat m < unat (log_start s) \<and> m \<noteq> of_nat k \<and> m \<noteq> bm_block sb k \<longrightarrow> sec_view s' m = sec_view s m))"
    using a(1) f(1,2) ud by (simp add: thn_run)
  have free: "\<not> in_use sb (sec_view s2) k" using f(5) ks kw by simp
  have ls2: "log_start s2 = log_start s1" "log_size s2 = log_size s1" using txn_frameD [OF f(4)] by auto
  have r0: "txn_room 1 s2" using assms(2) a(3) f(3) ls ls2 by (auto simp: txn_room_def)
  have "sb_of (sec_view s2 1) = sb"
  proof -
    have "bm_block sb k \<noteq> 1" "1 < unat (log_start s1)" "sb_of (sec_view s1 1) = sb"
      using a(7) ks kw by (auto simp: alloc_disk_def)
    then show ?thesis using f(6) [rule_format, of 1] by simp
  qed
  then have d2: "alloc_disk sb s2" if "\<forall>j<unat (sb_size sb). unat (bm_block sb j) \<noteq> k" "1 \<noteq> k"
    using a(7) f(5) ls2 that le ls by (auto simp: alloc_disk_def word_le_nat_alt)
  have "\<forall>j<unat (sb_size sb). unat (bm_block sb j) \<noteq> k" "1 \<noteq> k"
    using assms(3) u(1) by (auto simp: alloc_disk_def)
  then have "bfree 1 (of_nat k) (s2, env) = Panic ''freeing free block''"
    using bfree_ok [OF f(2) r0 d2 ks, of env] free kw by auto
  then have "thn (balloc 1) (\<lambda>b. thn (bfree 1 b) (\<lambda>_. bfree 1 b)) (s, env) = Panic ''freeing free block''"
    using a(1) f(1) by (simp add: thn_run)
  with rt show ?thesis by blast
qed

lemma balloc_bfree_roundtrip_witness:
  "returns (thn (balloc 1) (bfree 1) (fs_demo, [])) (\<lambda>(_, s', _). used_blocks fs_demo_sb s' = {0..<5})"
proof -
  have "txn_room 4 fs_demo" using fs_demo_txn(2) by (simp add: txn_room_def NBUF_def)
  from balloc_bfree_roundtrip [OF fs_demo_txn(1) this fs_demo_alloc(1), of 5 "[]"] show ?thesis
    unfolding fs_demo_alloc(2) by (auto elim!: returns_mono)
qed

end
