(* ===== verification/Inode_Content.thy ===== *)
theory Inode_Content
  imports Balloc
begin

text \<open>
  The contents of a file as a list of bytes. \<open>readi\<close> returns a slice of it and \<open>writei\<close>
  replaces one, extending the file through \<open>bmap\<close> and \<open>balloc\<close> where it has to. The reading
  side is proved once for every way of reading blocks (inside a transaction and outside),
  as a locale.
\<close>

section \<open>The bytes of an inode\<close>

text \<open>
  The block pointers of an inode in one row: the direct ones, the indirect block, the
  pointers in the indirect block. \<open>V\<close> is the contents of the blocks.
\<close>

definition ptr :: "inode \<Rightarrow> (u32 \<Rightarrow> byte list) \<Rightarrow> nat \<Rightarrow> u32" where
  "ptr ip V j =
     (if j \<le> NDIRECT then i_addrs ip ! j
      else if i_addrs ip ! NDIRECT = 0 then 0
      else rd32 (V (i_addrs ip ! NDIRECT)) (4 * (j - Suc NDIRECT)))"

definition pslot :: "nat \<Rightarrow> nat" where
  "pslot k = (if k < NDIRECT then k else Suc k)"

definition blk :: "inode \<Rightarrow> (u32 \<Rightarrow> byte list) \<Rightarrow> nat \<Rightarrow> u32" where
  "blk ip V k = ptr ip V (pslot k)"

definition block_data :: "inode \<Rightarrow> (u32 \<Rightarrow> byte list) \<Rightarrow> nat \<Rightarrow> byte list" where
  "block_data ip V k = (if blk ip V k = 0 then replicate BSIZE 0 else V (blk ip V k))"

definition file_byte :: "inode \<Rightarrow> (u32 \<Rightarrow> byte list) \<Rightarrow> nat \<Rightarrow> byte" where
  "file_byte ip V x = block_data ip V (x div BSIZE) ! (x mod BSIZE)"

definition contents :: "inode \<Rightarrow> (u32 \<Rightarrow> byte list) \<Rightarrow> byte list" where
  "contents ip V = map (file_byte ip V) [0..<unat (i_size ip)]"

text \<open>Every block of the file below its size is mapped to a block number below \<open>l\<close>.\<close>

definition has_block :: "nat \<Rightarrow> inode \<Rightarrow> (u32 \<Rightarrow> byte list) \<Rightarrow> nat \<Rightarrow> bool" where
  "has_block l ip V k \<longleftrightarrow> k < MAXFILE \<and> blk ip V k \<noteq> 0 \<and> unat (blk ip V k) < l \<and>
     (NDIRECT \<le> k \<longrightarrow> unat (i_addrs ip ! NDIRECT) < l)"

definition readable :: "nat \<Rightarrow> inode \<Rightarrow> (u32 \<Rightarrow> byte list) \<Rightarrow> bool" where
  "readable l ip V \<longleftrightarrow> i_dev ip = 1 \<and> unat (i_size ip) \<le> MAXFILE * BSIZE \<and>
     (\<forall>k. k * BSIZE < unat (i_size ip) \<longrightarrow> has_block l ip V k)"

lemma length_contents [simp]: "length (contents ip V) = unat (i_size ip)"
  by (simp add: contents_def)

lemma blk_ptr:
  "k < NDIRECT \<Longrightarrow> blk ip V k = i_addrs ip ! k"
  "NDIRECT \<le> k \<Longrightarrow> blk ip V k \<noteq> 0 \<Longrightarrow> i_addrs ip ! NDIRECT \<noteq> 0"
  "NDIRECT \<le> k \<Longrightarrow> i_addrs ip ! NDIRECT \<noteq> 0 \<Longrightarrow>
     blk ip V k = rd32 (V (i_addrs ip ! NDIRECT)) (4 * (k - NDIRECT))"
  by (auto simp: blk_def pslot_def ptr_def split: if_splits)

lemma sint_small: "sint w = int (unat w)" if "unat w < 2 ^ 31" for w :: u32
proof -
  have "- (2 ^ 31) \<le> int (unat w)" by (rule order_trans [of _ 0]) simp_all
  moreover have "int (unat w) < 2 ^ 31" using of_nat_less_iff [where 'a = int, of "unat w" "2 ^ 31"] that by simp
  ultimately have "sint (of_int (int (unat w)) :: u32) = int (unat w)" by (rule sint_of_int32)
  then show ?thesis by simp
qed

lemma frame_icache:
  fixes s :: "'a fs_st_scheme"
  assumes "frame s s'"
  shows "icache s' = icache s"
  using frame_logD [OF assms] by (cases s; cases s') (auto simp: log_st.defs)

text \<open>The piece of a block that a read or write at an offset touches.\<close>

definition piece :: "nat \<Rightarrow> nat \<Rightarrow> nat" where
  "piece off n = min n (BSIZE - off mod BSIZE)"

lemma BSIZE_nonzero [simp]: "BSIZE \<noteq> 0" "0 < BSIZE"
  by (simp_all add: BSIZE_def)

lemma piece_facts:
  assumes "0 < n"
  shows "0 < piece off n" "piece off n \<le> n" "off mod BSIZE + piece off n \<le> BSIZE"
    "x < piece off n \<Longrightarrow> (off + x) div BSIZE = off div BSIZE"
    "x < piece off n \<Longrightarrow> (off + x) mod BSIZE = off mod BSIZE + x"
proof -
  have lt: "off mod BSIZE < BSIZE" by (simp add: BSIZE_def)
  then show "0 < piece off n" "piece off n \<le> n" "off mod BSIZE + piece off n \<le> BSIZE"
    using assms unfolding piece_def by linarith+
  assume "x < piece off n"
  then have "off mod BSIZE + x < BSIZE" unfolding piece_def by linarith
  moreover have "off + x = off div BSIZE * BSIZE + (off mod BSIZE + x)" by simp
  ultimately show "(off + x) div BSIZE = off div BSIZE" "(off + x) mod BSIZE = off mod BSIZE + x"
    by (metis div_mult_self3 div_less add_0_right BSIZE_nonzero, metis mod_mult_self3 mod_less)
qed

section \<open>Reading\<close>

text \<open>
  What a reader of blocks relies on: in a state that satisfies \<open>ok\<close>, a block below \<open>lim\<close> can
  be read and its buffer released, which changes no contents.
\<close>

locale block_reads =
  fixes ok :: "'a fs_st_scheme \<Rightarrow> bool" and lim :: "'a fs_st_scheme \<Rightarrow> nat"
  assumes read: "ok s \<Longrightarrow> unat n < lim s \<Longrightarrow>
      \<exists>b s2. bread 1 n (s, env) = Ok (b, loaded b n s, env) \<and> b_data (bufs (loaded b n s) ! b) = sec_view s n \<and>
        brelse b (loaded b n s) = Ok s2 \<and> ok s2 \<and> sec_view s2 = sec_view s \<and> frame s s2 \<and> lim s2 = lim s"
    and view_len: "ok s \<Longrightarrow> unat n < lim s \<Longrightarrow> length (sec_view s n) = BSIZE"
begin

lemma bmap_mapped:
  assumes "ok s" "i_dev (icache s ! i) = 1" "has_block (lim s) (icache s ! i) (sec_view s) k"
  shows "\<exists>s2. bmap i k (s, env) = Ok (blk (icache s ! i) (sec_view s) k, s2, env) \<and> ok s2 \<and>
    sec_view s2 = sec_view s \<and> frame s s2 \<and> lim s2 = lim s"
proof -
  let ?ip = "icache s ! i"
  have h: "k < MAXFILE" "blk ?ip (sec_view s) k \<noteq> 0" using assms(3) by (auto simp: has_block_def)
  show ?thesis
  proof (cases "k < NDIRECT")
    case True
    then show ?thesis using assms(1) h blk_ptr(1) [OF True, of ?ip "sec_view s"]
      by (simp add: bmap_def the_inode_def)
  next
    case False
    then have ge: "NDIRECT \<le> k" by simp
    note b = blk_ptr(2) [OF ge h(2)]
    have a: "blk ?ip (sec_view s) k = rd32 (sec_view s (i_addrs ?ip ! NDIRECT)) (4 * (k - NDIRECT))"
      using blk_ptr(3) [OF ge b] by simp
    have "unat (i_addrs ?ip ! NDIRECT) < lim s" using assms(3) ge by (simp add: has_block_def)
    from read [OF assms(1) this, of env] obtain bp s2 where
      r: "bread 1 (i_addrs ?ip ! NDIRECT) (s, env) = Ok (bp, loaded bp (i_addrs ?ip ! NDIRECT) s, env)"
        "b_data (bufs (loaded bp (i_addrs ?ip ! NDIRECT) s) ! bp) = sec_view s (i_addrs ?ip ! NDIRECT)"
        "brelse bp (loaded bp (i_addrs ?ip ! NDIRECT) s) = Ok s2" "ok s2" "sec_view s2 = sec_view s" "frame s s2"
        "lim s2 = lim s" by metis
    have "k - NDIRECT < NINDIRECT" using h(1) ge by (simp add: MAXFILE_def)
    then have "bmap i k (s, env) = Ok (blk ?ip (sec_view s) k, s2, env)"
      using r(1-3) b h(2) ge assms(2) unfolding a by (simp add: bmap_def the_inode_def Let_def thn_run)
    with r show ?thesis by blast
  qed
qed

lemma readi_loop_ok:
  assumes "ok s" "i_dev (icache s ! i) = 1"
    "\<And>x. off \<le> x \<Longrightarrow> x < off + n \<Longrightarrow> has_block (lim s) (icache s ! i) (sec_view s) (x div BSIZE)"
  shows "\<exists>s2. readi_loop i off n (s, env) = Ok (map (file_byte (icache s ! i) (sec_view s)) [off..<off + n], s2, env) \<and>
    ok s2 \<and> sec_view s2 = sec_view s \<and> frame s s2 \<and> lim s2 = lim s"
  using assms
proof (induction n arbitrary: off s rule: less_induct)
  case (less n)
  let ?ip = "icache s ! i" and ?V = "sec_view s"
  show ?case
  proof (cases "n = 0")
    case True
    then show ?thesis using less.prems(1) by (subst readi_loop.simps) simp
  next
    case False
    let ?m = "piece off n" and ?a = "blk ?ip ?V (off div BSIZE)"
    have m: "0 < ?m" "?m \<le> n" "off mod BSIZE + ?m \<le> BSIZE" using piece_facts(1-3) [of n off] False by auto
    have hb: "has_block (lim s) ?ip ?V (off div BSIZE)" using less.prems(3) [of off] False by simp
    obtain s1 where b: "bmap i (off div BSIZE) (s, env) = Ok (?a, s1, env)" "ok s1"
      "sec_view s1 = ?V" "frame s s1" "lim s1 = lim s"
      using bmap_mapped [OF less.prems(1,2) hb, of env] by blast
    have a: "?a \<noteq> 0" "unat ?a < lim s1" using hb b(5) by (auto simp: has_block_def)
    from read [OF b(2) a(2), of env] obtain bp s2 where
      r: "bread 1 ?a (s1, env) = Ok (bp, loaded bp ?a s1, env)" "b_data (bufs (loaded bp ?a s1) ! bp) = ?V ?a"
        "brelse bp (loaded bp ?a s1) = Ok s2" "ok s2" "sec_view s2 = ?V" "frame s1 s2" "lim s2 = lim s"
      using b(3,5) by metis
    have fr: "frame s s2" by (rule frame_trans [OF b(4) r(6)])
    note ic = frame_icache [OF fr]
    have len: "length (?V ?a) = BSIZE" using view_len [OF less.prems(1), of ?a] hb by (simp add: has_block_def)
    obtain s3 where
      l: "readi_loop i (off + ?m) (n - ?m) (s2, env) = Ok (map (file_byte ?ip ?V) [off + ?m..<off + n], s3, env)"
        "ok s3" "sec_view s3 = ?V" "frame s2 s3" "lim s3 = lim s"
      using less.IH [of "n - ?m" s2 "off + ?m", OF _ r(4)] less.prems(2,3) m
      unfolding r(5,7) ic by force
    have "take ?m (drop (off mod BSIZE) (?V ?a)) = map (file_byte ?ip ?V) [off..<off + ?m]"
    proof (rule nth_equalityI)
      show "length (take ?m (drop (off mod BSIZE) (?V ?a))) = length (map (file_byte ?ip ?V) [off..<off + ?m])"
        using m(3) len by simp
      fix x assume "x < length (take ?m (drop (off mod BSIZE) (?V ?a)))"
      then have x: "x < ?m" by simp
      then show "take ?m (drop (off mod BSIZE) (?V ?a)) ! x = map (file_byte ?ip ?V) [off..<off + ?m] ! x"
        using piece_facts(4,5) [of n x off] False m(3) len a(1) by (simp add: file_byte_def block_data_def)
    qed
    then have e: "take ?m (drop (off mod BSIZE) (?V ?a)) @ map (file_byte ?ip ?V) [off + ?m..<off + n] =
        map (file_byte ?ip ?V) [off..<off + n]"
      using upt_add_eq_append [of off "off + ?m" "n - ?m"] m(2) by (simp flip: map_append)
    have "readi_loop i off n (s, env) = Ok (map (file_byte ?ip ?V) [off..<off + n], s3, env)"
      using False less.prems(2) b(1) r(1-3) l(1) e
      by (subst readi_loop.simps) (simp add: the_inode_def thn_run Let_def piece_def)
    then show ?thesis using l frame_trans [OF fr l(4)] by blast
  qed
qed

lemma readi_ok:
  assumes "ok s" "readable (lim s) (icache s ! i) (sec_view s)" "i_type (icache s ! i) \<noteq> T_DEV"
    "\<not> off > i_size (icache s ! i)" "\<not> off + n < off"
  shows "\<exists>bs s2. readi devs i off n (s, env) = Ok ((int (length bs), bs), s2, env) \<and>
     bs = take (unat n) (drop (unat off) (contents (icache s ! i) (sec_view s))) \<and>
     ok s2 \<and> sec_view s2 = sec_view s \<and> frame s s2 \<and> lim s2 = lim s"
proof -
  let ?ip = "icache s ! i" and ?V = "sec_view s"
  define m where "m = (if off + n > i_size ?ip then i_size ?ip - off else n)"
  have o: "unat off \<le> unat (i_size ?ip)" using assms(4) by (simp add: word_le_nat_alt not_less)
  have nw: "unat (off + n) = unat off + unat n"
    using assms(5) by (simp add: not_less unat_plus_simple)
  have m: "unat m = min (unat n) (unat (i_size ?ip) - unat off)"
    using o assms(4) nw by (auto simp: m_def word_less_nat_alt unat_sub_if')
  have sz: "unat (i_size ?ip) \<le> MAXFILE * BSIZE" using assms(2) by (simp add: readable_def)
  have "has_block (lim s) ?ip ?V (x div BSIZE)" if "unat off \<le> x" "x < unat off + unat m" for x
  proof -
    have "x < unat (i_size ?ip)" using that(2) m o by auto
    moreover have "x div BSIZE * BSIZE \<le> x" by simp
    ultimately show ?thesis using assms(2) unfolding readable_def by (meson le_less_trans)
  qed
  then obtain s2 where
    l: "readi_loop i (unat off) (unat m) (s, env) = Ok (map (file_byte ?ip ?V) [unat off..<unat off + unat m], s2, env)"
      "ok s2" "sec_view s2 = ?V" "frame s s2" "lim s2 = lim s"
    using readi_loop_ok [OF assms(1), of i "unat off" "unat m" env] assms(2) by (auto simp: readable_def)
  let ?bs = "take (unat n) (drop (unat off) (contents ?ip ?V))"
  have bs: "map (file_byte ?ip ?V) [unat off..<unat off + unat m] = ?bs"
  proof (rule nth_equalityI)
    fix x assume "x < length (map (file_byte ?ip ?V) [unat off..<unat off + unat m])"
    then have "unat off + x < unat (i_size ?ip)" "x < unat m" "x < unat n" using m by auto
    then show "map (file_byte ?ip ?V) [unat off..<unat off + unat m] ! x = ?bs ! x"
      by (simp add: contents_def)
  qed (use m in simp)
  have "unat m < 2 ^ 31" using m sz by (simp add: MAXFILE_def NDIRECT_def NINDIRECT_def BSIZE_def)
  then have "sint m = int (unat m)" by (rule sint_small)
  moreover have "length ?bs = unat m" using m by simp
  ultimately have "readi devs i off n (s, env) = Ok ((int (length ?bs), ?bs), s2, env)"
    using assms(3-5) l(1) bs by (simp add: readi_def the_inode_def thn_run Let_def m_def [symmetric])
  then show ?thesis using l by blast
qed

end


text \<open>Outside a transaction every block of the disk can be read; inside one, every block below the log.\<close>

lemma free_read_laws:
  fixes s :: "'a fs_st_scheme"
  assumes "quiet s \<and> card (dirty_secs s) < NBUF" "unat n < length (disk s)"
  shows "\<exists>b s2. bread 1 n (s, env) = Ok (b, loaded b n s, env) \<and> b_data (bufs (loaded b n s) ! b) = sec_view s n \<and>
        brelse b (loaded b n s) = Ok s2 \<and> (quiet s2 \<and> card (dirty_secs s2) < NBUF) \<and> sec_view s2 = sec_view s \<and>
        frame s s2 \<and> length (disk s2) = length (disk s)"
proof -
  from quiet_read [OF conjunct1 [OF assms(1)] assms(2) conjunct2 [OF assms(1)], of env] obtain b where
    b: "bread 1 n (s, env) = Ok (b, loaded b n s, env)" "b_data (bufs (loaded b n s) ! b) = sec_view s n"
      "brelse b (loaded b n s) = Ok (released b (loaded b n s))" "quiet (released b (loaded b n s))"
      "sec_view (released b (loaded b n s)) = sec_view s" "dirty_secs (released b (loaded b n s)) = dirty_secs s"
    by blast
  have "frame s (released b (loaded b n s))" by (rule frame_trans [OF frame_steps(1) frame_steps(5)])
  then show ?thesis using b assms by (intro exI [of _ b] exI [of _ "released b (loaded b n s)"]) auto
qed

interpretation free_reads: block_reads "\<lambda>s. quiet s \<and> card (dirty_secs s) < NBUF" "\<lambda>s. length (disk s)"
  by unfold_locales (rule free_read_laws, auto intro: sec_view_length dest: quietD(1))

interpretation txn_reads: block_reads "\<lambda>s. txn s \<and> length (logged s) < NBUF" "\<lambda>s. unat (log_start s)"
proof unfold_locales
  fix s :: "'a fs_st_scheme" and n :: u32 and env
  assume "txn s \<and> length (logged s) < NBUF" "unat n < unat (log_start s)"
  then obtain b s2 where "bread 1 n (s, env) = Ok (b, loaded b n s, env)" "b_data (bufs (loaded b n s) ! b) = sec_view s n"
    "brelse b (loaded b n s) = Ok s2" "txn s2" "sec_view s2 = sec_view s" "logged s2 = logged s" "frame s s2"
    using txn_read [of s n env] by metis
  moreover from this(7) have "log_start s2 = log_start s" by (rule frame_logD)
  ultimately show "\<exists>b s2. bread 1 n (s, env) = Ok (b, loaded b n s, env) \<and> b_data (bufs (loaded b n s) ! b) = sec_view s n \<and>
      brelse b (loaded b n s) = Ok s2 \<and> (txn s2 \<and> length (logged s2) < NBUF) \<and> sec_view s2 = sec_view s \<and> frame s s2 \<and>
      unat (log_start s2) = unat (log_start s)"
    using \<open>txn s \<and> length (logged s) < NBUF\<close> by (intro exI [of _ b] exI [of _ s2]) auto
qed (auto intro: txn_viewlen)

text \<open>C4: in a quiet state (no buffer is busy, the CPU holds no lock), with fewer sectors waiting to be written than there are buffers, \<open>readi\<close>
  on a file (not a device) of disk 1 whose size is at most the largest file's and all of whose blocks below the size exist returns
  exactly the bytes of the file from the offset on, as many as were asked for or as there are, and their number; an offset beyond the end, or
  one that overflows, gives -1. It returns in every such state, leaves it quiet and changes no block.\<close>

theorem readi_returns_file_bytes:
  fixes s :: "'a fs_st_scheme"
  assumes "quiet s" "card (dirty_secs s) < NBUF" "i_type (icache s ! i) \<noteq> T_DEV"
    "readable (length (disk s)) (icache s ! i) (sec_view s)"
  shows "returns (readi devs i off n (s, env)) (\<lambda>((r, bs), s', env'). env' = env \<and> quiet s' \<and> frame s s' \<and>
      sec_view s' = sec_view s \<and>
      (if off > i_size (icache s ! i) \<or> off + n < off then r = -1 \<and> bs = []
       else bs = take (unat n) (drop (unat off) (contents (icache s ! i) (sec_view s))) \<and> r = int (length bs)))"
proof (cases "off > i_size (icache s ! i) \<or> off + n < off")
  case True
  then show ?thesis using assms by (simp add: readi_def the_inode_def)
next
  case False
  then show ?thesis using free_reads.readi_ok [of s i off n devs env] assms by (auto simp: returns_iff)
qed

text \<open>States that agree on the fields the cache and the log use have the same view of the disk.\<close>

lemma log_view_cong:
  fixes s :: "'a log_st_scheme" and t :: "'b log_st_scheme"
  assumes "bufs s = bufs t" "lru s = lru t" "disk s = disk t"
  shows "sec_view s = sec_view t" "bc_inv s = bc_inv t" "dirty_secs s = dirty_secs t" "busy_secs s = busy_secs t"
  using assms by (simp_all add: sec_view_def cached_def bc_inv_def dirty_secs_def busy_secs_def fun_eq_iff split: option.split)

lemma quiet_cong:
  fixes s :: "'a log_st_scheme" and t :: "'b log_st_scheme"
  assumes "bufs s = bufs t" "lru s = lru t" "disk s = disk t" "held s = held t"
  shows "quiet s = quiet t"
  using assms log_view_cong [of s t] by (simp add: quiet_def)

lemma txn_cong:
  fixes s :: "'a log_st_scheme" and t :: "'b log_st_scheme"
  assumes "bufs s = bufs t" "lru s = lru t" "disk s = disk t" "held s = held t"
    "log_start s = log_start t" "log_size s = log_size t" "log_dev s = log_dev t" "log_busy s = log_busy t"
    "lh_n s = lh_n t" "lh_sector s = lh_sector t"
  shows "txn s = txn t" "logged s = logged t" "alloc_disk sb s = alloc_disk sb t"
  using assms log_view_cong [of s t] quiet_cong [of s t]
  by (simp_all add: txn_def log_inv_def logged_def log_block_def alloc_disk_def)

text \<open>The demonstration disk with one inode in the cache.\<close>

definition file_demo :: "inode \<Rightarrow> fs_st" where
  "file_demo ip = log_st.extend fs_demo (fs_st.fields [ip])"

lemma file_demo_simps [simp]:
  "bufs (file_demo ip) = bufs fs_demo" "lru (file_demo ip) = lru fs_demo" "disk (file_demo ip) = fs_demo_img"
  "held (file_demo ip) = []" "log_start (file_demo ip) = 8" "log_size (file_demo ip) = 12" "log_busy (file_demo ip)"
  "log_dev (file_demo ip) = 1" "lh_n (file_demo ip) = 0" "lh_sector (file_demo ip) = replicate LOGSIZE 0"
  "icache (file_demo ip) = [ip]"
  by (simp_all add: file_demo_def log_st.defs fs_st.defs fs_demo_simps [unfolded One_nat_def])

lemma file_demo_txn: "txn (file_demo ip)" "logged (file_demo ip) = []" "alloc_disk fs_demo_sb (file_demo ip)"
  "sec_view (file_demo ip) n = fs_demo_img ! unat n"
  using fs_demo_txn(1,2) fs_demo_alloc(1) txn_cong [of "file_demo ip" fs_demo] log_view_cong [of "file_demo ip" fs_demo]
  by (simp_all add: fs_demo_view)

definition demo_inode :: "u32 \<Rightarrow> u32 list \<Rightarrow> inode" where
  "demo_inode n as = \<lparr>i_dev = 1, i_inum = 1, i_ref = 1, i_busy = True, i_valid = True, i_type = T_FILE, i_major = 0,
     i_minor = 0, i_nlink = 1, i_size = n, i_addrs = as @ replicate (13 - length as) 0\<rparr>"

theorem readi_returns_file_bytes_witness:
  "returns (readi no_devices 0 0 3 (file_demo (demo_inode 4 [1]), [])) (\<lambda>((r, bs), _). r = 3 \<and> bs = [20, 0, 0])"
proof -
  let ?s = "file_demo (demo_inode 4 [1])"
  let ?ip = "icache ?s ! 0" and ?V = "sec_view ?s"
  have q: "quiet ?s" "dirty_secs ?s = {}"
    using file_demo_txn(1,2) [of "demo_inode 4 [1]"] log_invD(14) [of ?s] by (auto simp: txn_def)
  have b: "blk ?ip ?V 0 = 1" by (simp add: blk_ptr(1) NDIRECT_def demo_inode_def)
  have k: "k = 0" if "k * BSIZE < 4" for k using that by (simp add: BSIZE_def)
  have r: "readable (length (disk ?s)) ?ip ?V"
    using b k by (force simp: readable_def has_block_def MAXFILE_def BSIZE_def NDIRECT_def demo_inode_def fs_demo_img_def)
  have "file_byte ?ip ?V x = fs_demo_img ! 1 ! x" if "x < 4" for x
    using b that by (simp add: file_byte_def block_data_def BSIZE_def file_demo_txn(4))
  then have "contents ?ip ?V = map (\<lambda>x. fs_demo_img ! 1 ! x) [0..<4]" by (simp add: contents_def demo_inode_def)
  moreover have "fs_demo_img ! 1 = wr32 (wr32 (wr32 (wr32 (replicate BSIZE 0) 0 20) 4 3) 8 8) 12 12"
    by (simp add: fs_demo_img_def)
  ultimately have c: "take 3 (contents ?ip ?V) = [20, 0, 0]"
    by (simp add: upt_rec wr32_def BSIZE_def byte_of_def)
  show ?thesis
    using readi_returns_file_bytes [of ?s 0 no_devices 0 3 "[]"] q r c
    by (auto simp: NBUF_def demo_inode_def T_FILE_def T_DEV_def elim!: returns_mono)
qed

end
