(* ===== verification/Inode_Write.thy ===== *)
theory Inode_Write
  imports Inode_Content
begin

text \<open>
  Writing to a file inside a transaction: \<open>bmap\<close> with allocation of direct blocks, \<open>writei\<close>
  as the replacement of a slice of the file's bytes, and what other files keep.
\<close>

section \<open>Files on a disk\<close>

definition bm_blocks :: "superblock \<Rightarrow> u32 set" where
  "bm_blocks sb = bm_block sb ` {j. j < unat (sb_size sb)}"

definition free_blocks :: "superblock \<Rightarrow> 'a log_st_scheme \<Rightarrow> nat set" where
  "free_blocks sb s = {j. j < unat (log_start s) \<and> \<not> in_use sb (sec_view s) j}"

definition NSLOT :: nat where "NSLOT = Suc MAXFILE"

definition owned :: "inode \<Rightarrow> (u32 \<Rightarrow> byte list) \<Rightarrow> u32 set" where
  "owned ip V = ptr ip V ` {0..<NSLOT} - {0}"

text \<open>
  A file in good order, on a disk whose first \<open>l\<close> blocks are not the log's: its blocks are
  marked in the bitmap, no block is used for two things, and the blocks up to its size exist.
\<close>

definition file_ok :: "superblock \<Rightarrow> nat \<Rightarrow> (u32 \<Rightarrow> byte list) \<Rightarrow> inode \<Rightarrow> bool" where
  "file_ok sb l V ip \<longleftrightarrow> i_dev ip = 1 \<and> length (i_addrs ip) = Suc NDIRECT \<and> unat (i_size ip) \<le> MAXFILE * BSIZE \<and>
     in_use sb V 0 \<and> unat (IBLOCK (i_inum ip)) < l \<and> in_use sb V (unat (IBLOCK (i_inum ip))) \<and>
     IBLOCK (i_inum ip) \<notin> insert 1 (bm_blocks sb) \<and>
     (\<forall>a\<in>owned ip V. unat a < l \<and> in_use sb V (unat a) \<and> a \<notin> {1, IBLOCK (i_inum ip)} \<union> bm_blocks sb) \<and>
     (\<forall>j<NSLOT. \<forall>k<NSLOT. ptr ip V j \<noteq> 0 \<and> ptr ip V j = ptr ip V k \<longrightarrow> j = k) \<and>
     (\<forall>k. k * BSIZE < unat (i_size ip) \<longrightarrow> blk ip V k \<noteq> 0)"

lemma file_okD:
  assumes "file_ok sb l V ip"
  shows "i_dev ip = 1" "length (i_addrs ip) = Suc NDIRECT" "unat (i_size ip) \<le> MAXFILE * BSIZE" "in_use sb V 0"
    "unat (IBLOCK (i_inum ip)) < l" "in_use sb V (unat (IBLOCK (i_inum ip)))" "IBLOCK (i_inum ip) \<notin> insert 1 (bm_blocks sb)"
    "a \<in> owned ip V \<Longrightarrow> unat a < l" "a \<in> owned ip V \<Longrightarrow> in_use sb V (unat a)"
    "a \<in> owned ip V \<Longrightarrow> a \<notin> {1, IBLOCK (i_inum ip)} \<union> bm_blocks sb"
    "j < NSLOT \<Longrightarrow> k < NSLOT \<Longrightarrow> ptr ip V j \<noteq> 0 \<Longrightarrow> ptr ip V j = ptr ip V k \<Longrightarrow> j = k"
    "x * BSIZE < unat (i_size ip) \<Longrightarrow> blk ip V x \<noteq> 0"
  using assms by (auto simp: file_ok_def)

lemma pslot_lt: "k < MAXFILE \<Longrightarrow> pslot k < NSLOT" "NDIRECT < NSLOT"
  by (auto simp: pslot_def NSLOT_def MAXFILE_def)

lemma pslot_inj: "pslot j = pslot k \<longleftrightarrow> j = k" "pslot k \<noteq> NDIRECT"
  by (auto simp: pslot_def split: if_splits)

lemma blk_owned: "k < MAXFILE \<Longrightarrow> blk ip V k \<noteq> 0 \<Longrightarrow> blk ip V k \<in> owned ip V"
  using pslot_lt(1) [of k] by (auto simp: blk_def owned_def)

lemma indirect_owned: "i_addrs ip ! NDIRECT \<noteq> 0 \<Longrightarrow> i_addrs ip ! NDIRECT \<in> owned ip V"
  using pslot_lt(2) by (auto simp: owned_def ptr_def intro: rev_image_eqI)

lemma MAXFILE_block: "x < MAXFILE * BSIZE \<Longrightarrow> x div BSIZE < MAXFILE"
  by (simp add: less_mult_imp_div_less)

lemma file_ok_readable:
  assumes "file_ok sb l V ip"
  shows "readable l ip V"
proof -
  have "has_block l ip V k" if k: "k * BSIZE < unat (i_size ip)" for k
  proof -
    have "k < MAXFILE" using less_le_trans [OF k file_okD(3) [OF assms]] by simp
    then show ?thesis
      using file_okD(12) [OF assms k] file_okD(8) [OF assms] blk_owned [of k ip V] indirect_owned [of ip V]
        blk_ptr(2) [of k ip V]
      by (auto simp: has_block_def)
  qed
  then show ?thesis using file_okD(1,3) [OF assms] by (simp add: readable_def)
qed

section \<open>Changing the blocks of a file\<close>

text \<open>Storing into a block of the file.\<close>

lemma file_store:
  assumes f: "file_ok sb l V ip" and bn: "bn < MAXFILE" "blk ip V bn \<noteq> 0"
    and V': "\<And>m. unat m < l \<Longrightarrow> V' m = (V(blk ip V bn := d)) m"
    and u: "\<And>j. j < l \<Longrightarrow> in_use sb V' j = in_use sb V j"
  shows "ptr ip V' = ptr ip V" "file_ok sb l V' ip"
    "k < MAXFILE \<Longrightarrow> block_data ip V' k = (if k = bn then d else block_data ip V k)"
proof -
  let ?a = "blk ip V bn" and ?i = "i_addrs ip ! NDIRECT"
  have "?i \<noteq> ?a" if "?i \<noteq> 0"
    using file_okD(11) [OF f pslot_lt(2) pslot_lt(1) [OF bn(1)]] that pslot_inj(2) [of bn] by (auto simp: blk_def ptr_def)
  then have "V' ?i = V ?i" if "?i \<noteq> 0"
    using V' [of ?i] file_okD(8) [OF f indirect_owned [OF that]] that by simp
  then show p: "ptr ip V' = ptr ip V" by (auto simp: ptr_def)
  then have b: "blk ip V' = blk ip V" "owned ip V' = owned ip V" by (simp_all add: blk_def owned_def fun_eq_iff)
  have "0 < l" using file_okD(5) [OF f] by simp
  then show "file_ok sb l V' ip" using f u unfolding file_ok_def p b by auto
  assume k: "k < MAXFILE"
  show "block_data ip V' k = (if k = bn then d else block_data ip V k)"
  proof (cases "blk ip V k = 0")
    case False
    then have "unat (blk ip V k) < l" using file_okD(8) [OF f blk_owned [OF k]] by simp
    moreover have "blk ip V k = ?a \<longleftrightarrow> k = bn"
      using file_okD(11) [OF f pslot_lt(1) [OF k] pslot_lt(1) [OF bn(1)]] False by (auto simp: blk_def pslot_inj)
    ultimately show ?thesis using V' False by (simp add: block_data_def b)
  qed (use bn in \<open>auto simp: block_data_def b\<close>)
qed

text \<open>Giving the file a fresh direct block.\<close>

lemma file_alloc:
  assumes f: "file_ok sb l V ip" and bn: "bn < NDIRECT" "i_addrs ip ! bn = 0"
    and a: "unat a < l" "\<not> in_use sb V (unat a)" "a \<noteq> 1" "a \<notin> bm_blocks sb"
    and V': "\<And>m. unat m < l \<Longrightarrow> m \<noteq> a \<Longrightarrow> m \<notin> bm_blocks sb \<Longrightarrow> V' m = V m" "V' a = replicate BSIZE 0"
    and u: "\<And>j. j < l \<Longrightarrow> in_use sb V' j \<longleftrightarrow> in_use sb V j \<or> j = unat a"
  defines "ip' \<equiv> ip\<lparr>i_addrs := (i_addrs ip)[bn := a]\<rparr>"
  shows "file_ok sb l V' ip'" "blk ip' V' bn = a" "a \<noteq> 0" "owned ip' V' = insert a (owned ip V)"
    "k < MAXFILE \<Longrightarrow> block_data ip' V' k = block_data ip V k" "k \<noteq> bn \<Longrightarrow> blk ip' V' k = blk ip V k"
proof -
  show a0: "a \<noteq> 0" using a(2) file_okD(4) [OF f] by auto
  have no: "a \<notin> owned ip V" using file_okD(9) [OF f] a(2) by blast
  have same: "V' m = V m" if "m \<in> owned ip V" for m
    using V'(1) [of m] file_okD(8,10) [OF f that] that no by auto
  have p: "ptr ip' V' j = (if j = bn then a else ptr ip V j)" for j
    using same [OF indirect_owned] bn(1) file_okD(2) [OF f] by (auto simp: ptr_def ip'_def nth_list_update)
  have sl: "pslot k = bn \<longleftrightarrow> k = bn" for k using bn(1) by (auto simp: pslot_def)
  have old: "blk ip V bn = 0" using bn by (simp add: blk_ptr(1))
  show b1: "blk ip' V' bn = a" using p sl by (simp add: blk_def)
  show b2: "blk ip' V' k = blk ip V k" if "k \<noteq> bn" for k using p sl that by (simp add: blk_def)
  have bs: "bn < NSLOT" using bn(1) by (simp add: NSLOT_def MAXFILE_def)
  have pb: "ptr ip V bn = 0" using bn by (simp add: ptr_def)
  show o: "owned ip' V' = insert a (owned ip V)"
  proof -
    have "ptr ip' V' ` {0..<NSLOT} = insert a (ptr ip V ` ({0..<NSLOT} - {bn}))"
      using bs by (auto simp: p image_iff)
    then show ?thesis using a0 pb by (auto simp: owned_def)
  qed
  have ib: "a \<noteq> IBLOCK (i_inum ip)" using a(2) file_okD(6) [OF f] by auto
  have inj: "ptr ip' V' j \<noteq> 0 \<and> ptr ip' V' j = ptr ip' V' k \<longrightarrow> j = k" if "j < NSLOT" "k < NSLOT" for j k
    using file_okD(11) [OF f that] no that p by (auto simp: owned_def)
  have ne: "blk ip' V' k \<noteq> 0" if "k * BSIZE < unat (i_size ip)" for k
    using file_okD(12) [OF f that] b1 b2 a0 by (cases "k = bn") auto
  have l0: "0 < l" using a(1) by simp
  show "file_ok sb l V' ip'"
    unfolding file_ok_def o
    using file_okD(1-7) [OF f] file_okD(8-10) [OF f] a u ib l0 inj ne by (auto simp: ip'_def)
  show "block_data ip' V' k = block_data ip V k" if "k < MAXFILE" for k
    using b1 b2 [of k] V'(2) a0 old same [OF blk_owned [OF that]] by (cases "k = bn") (auto simp: block_data_def)
qed

section \<open>The room of a transaction\<close>

text \<open>
  A transaction that may still log \<open>k\<close> blocks beyond those it has logged and the bitmap. One
  buffer more is needed for copying a block to the log.
\<close>

definition budget :: "superblock \<Rightarrow> nat \<Rightarrow> 'a log_st_scheme \<Rightarrow> bool" where
  "budget sb k s \<longleftrightarrow> card (set (logged s) \<union> bm_blocks sb) + k + 1 < NBUF \<and>
     int (card (set (logged s) \<union> bm_blocks sb) + k + 1) < log_size s"

lemma finite_bm_blocks [simp]: "finite (bm_blocks sb)"
  by (simp add: bm_blocks_def)

lemma logged_card:
  assumes "txn s"
  shows "length (logged s) \<le> card (set (logged s) \<union> bm_blocks sb)"
proof -
  have "distinct (logged s)" using assms by (simp add: txn_def log_invD(11))
  then have "length (logged s) = card (set (logged s))" by (simp add: distinct_card)
  also have "\<dots> \<le> card (set (logged s) \<union> bm_blocks sb)" by (rule card_mono) auto
  finally show ?thesis .
qed

lemma budget_room:
  assumes "txn s"
  shows "budget sb k s \<Longrightarrow> txn_room 1 s" "budget sb (Suc k) s \<Longrightarrow> txn_room 2 s" "budget sb k s \<Longrightarrow> length (logged s) < NBUF"
  using logged_card [OF assms, of sb] by (auto simp: budget_def txn_room_def)

lemma budget_step:
  assumes "budget sb (Suc k) s" "set (logged s') \<subseteq> insert a (set (logged s) \<union> bm_blocks sb)" "log_size s' = log_size s"
  shows "budget sb k s'"
proof -
  have "card (set (logged s') \<union> bm_blocks sb) \<le> card (insert a (set (logged s) \<union> bm_blocks sb))"
    by (rule card_mono) (use assms(2) in auto)
  also have "\<dots> \<le> Suc (card (set (logged s) \<union> bm_blocks sb))" by (rule card_insert_le_m1) simp_all
  finally show ?thesis using assms(1,3) by (auto simp: budget_def)
qed

lemma budget_mono: "budget sb k s \<Longrightarrow> j \<le> k \<Longrightarrow> budget sb j s"
  by (auto simp: budget_def)

section \<open>A transaction that writes to one file\<close>

definition fs_frame :: "nat \<Rightarrow> 'a fs_st_scheme \<Rightarrow> 'a fs_st_scheme \<Rightarrow> bool" where
  "fs_frame i s s' \<longleftrightarrow> txn_frame s (s'\<lparr>icache := icache s\<rparr>) \<and> length (icache s') = length (icache s) \<and>
     (\<forall>j. j \<noteq> i \<longrightarrow> icache s' ! j = icache s ! j)"

definition wr_inv :: "superblock \<Rightarrow> nat \<Rightarrow> 'a fs_st_scheme \<Rightarrow> bool" where
  "wr_inv sb i s \<longleftrightarrow> txn s \<and> alloc_disk sb s \<and> i < length (icache s) \<and>
     file_ok sb (unat (log_start s)) (sec_view s) (icache s ! i)"

text \<open>Blocks of others: in use, and neither a bitmap block nor a block of the file.\<close>

definition others_kept :: "superblock \<Rightarrow> nat \<Rightarrow> 'a fs_st_scheme \<Rightarrow> 'a fs_st_scheme \<Rightarrow> bool" where
  "others_kept sb i s s' \<longleftrightarrow> (\<forall>m. unat m < unat (log_start s) \<and> in_use sb (sec_view s) (unat m) \<and> m \<notin> bm_blocks sb \<and>
      m \<notin> owned (icache s ! i) (sec_view s) \<longrightarrow>
      sec_view s' m = sec_view s m \<and> in_use sb (sec_view s') (unat m) \<and> m \<notin> owned (icache s' ! i) (sec_view s'))"

lemma icache_indep [simp]:
  fixes s :: "'a fs_st_scheme"
  shows "txn (s\<lparr>icache := x\<rparr>) = txn s" "logged (s\<lparr>icache := x\<rparr>) = logged s" "alloc_disk sb (s\<lparr>icache := x\<rparr>) = alloc_disk sb s"
    "sec_view (s\<lparr>icache := x\<rparr>) = sec_view s" "free_blocks sb (s\<lparr>icache := x\<rparr>) = free_blocks sb s"
  using txn_cong [of "s\<lparr>icache := x\<rparr>" s] log_view_cong [of "s\<lparr>icache := x\<rparr>" s] by (simp_all add: free_blocks_def)

lemma fs_frameD:
  assumes "fs_frame i s s'"
  shows "log_start s' = log_start s" "log_size s' = log_size s" "length (icache s') = length (icache s)"
  using assms txn_frameD(1,2) [of s "s'\<lparr>icache := icache s\<rparr>"] by (auto simp: fs_frame_def)

lemma txn_frame_icache: "txn_frame s s' \<Longrightarrow> icache s' = icache s" for s :: "'a fs_st_scheme"
  using txn_frameD(3) [of s s'] by (cases s; cases s') simp

lemma fs_frame_of_txn: "txn_frame s s' \<Longrightarrow> fs_frame i s s'"
  using txn_frame_icache [of s s'] by (cases s') (auto simp: fs_frame_def)

lemma fs_frame_upd: "fs_frame i s (upd_inode i f s)"
  by (simp add: fs_frame_def upd_inode_def)

lemma txn_frame_upd:
  fixes s :: "'a fs_st_scheme"
  assumes "txn_frame s s'"
  shows "txn_frame (s\<lparr>icache := x\<rparr>) (s'\<lparr>icache := x\<rparr>)"
  using assms by (cases s; cases s') (simp add: txn_frame_def frame_def)

lemma fs_frame_trans [trans]:
  assumes "fs_frame i s s'" "fs_frame i s' s''"
  shows "fs_frame i s s''"
proof -
  have "txn_frame (s'\<lparr>icache := icache s\<rparr>) ((s''\<lparr>icache := icache s'\<rparr>)\<lparr>icache := icache s\<rparr>)"
    by (rule txn_frame_upd) (use assms(2) in \<open>simp add: fs_frame_def\<close>)
  then have "txn_frame s (s''\<lparr>icache := icache s\<rparr>)"
    using assms(1) by (auto simp: fs_frame_def elim: txn_frame_trans)
  then show ?thesis using assms by (auto simp: fs_frame_def)
qed

lemma others_kept_trans:
  assumes "others_kept sb i s s'" "others_kept sb i s' s''" "log_start s' = log_start s"
  shows "others_kept sb i s s''"
  using assms by (simp add: others_kept_def)

lemma bm_blocks_disk:
  assumes "alloc_disk sb s" "j < unat (log_start s)"
  shows "bm_block sb j \<in> bm_blocks sb" "unat (bm_block sb j) < unat (log_start s)"
  using assms alloc_disk_size [OF assms(1)] by (auto simp: bm_blocks_def alloc_disk_def)

text \<open>Storing to a block that is neither the superblock nor a bitmap block.\<close>

lemma store_disk:
  assumes d: "alloc_disk sb s" and ls: "log_start s' = log_start s" and a: "a \<noteq> 1" "a \<notin> bm_blocks sb"
    and V: "\<And>m. unat m < unat (log_start s) \<Longrightarrow> sec_view s' m = ((sec_view s)(a := x)) m"
  shows "in_use sb (sec_view s') j = in_use sb (sec_view s) j \<or> unat (sb_size sb) \<le> j" "alloc_disk sb s'"
proof -
  have u: "in_use sb (sec_view s') j = in_use sb (sec_view s) j" if "j < unat (sb_size sb)" for j
    using V [of "bm_block sb j"] d that a(2) by (intro in_use_cong) (auto simp: alloc_disk_def bm_blocks_def)
  then show "in_use sb (sec_view s') j = in_use sb (sec_view s) j \<or> unat (sb_size sb) \<le> j" by force
  have "sec_view s' 1 = sec_view s 1" using V [of 1] a(1) d by (simp add: alloc_disk_def)
  moreover have "1 < unat (sb_size sb)" using d alloc_disk_size [OF d] by (simp add: alloc_disk_def)
  moreover have "unat (bm_block sb j) < unat (sb_size sb)" if "j < unat (sb_size sb)" for j
    using d alloc_disk_size [OF d] that by (auto simp: alloc_disk_def intro: less_le_trans)
  ultimately show "alloc_disk sb s'" using d ls u by (auto simp: alloc_disk_def)
qed

section \<open>Finding or allocating a block\<close>

lemma free_block_first:
  assumes "free_blocks sb s \<noteq> {}"
  obtains k where "k < unat (log_start s)" "\<not> in_use sb (sec_view s) k" "\<And>j. j < k \<Longrightarrow> in_use sb (sec_view s) j"
proof -
  let ?P = "\<lambda>k. k < unat (log_start s) \<and> \<not> in_use sb (sec_view s) k"
  obtain k0 where "?P k0" using assms by (auto simp: free_blocks_def)
  then have "?P (LEAST k. ?P k)" by (rule LeastI)
  moreover have "in_use sb (sec_view s) j" if "j < (LEAST k. ?P k)" for j
    using not_less_Least [OF that] that calculation by auto
  ultimately show thesis using that by blast
qed

definition bmap_post :: "superblock \<Rightarrow> nat \<Rightarrow> nat \<Rightarrow> 'a fs_st_scheme \<Rightarrow> u32 \<Rightarrow> 'a fs_st_scheme \<Rightarrow> bool" where
  "bmap_post sb i bn s a s' \<longleftrightarrow> (let ip = icache s ! i; V = sec_view s; ip' = icache s' ! i; V' = sec_view s' in
     wr_inv sb i s' \<and> fs_frame i s s' \<and> others_kept sb i s s' \<and> ip' = ip\<lparr>i_addrs := i_addrs ip'\<rparr> \<and>
     a = blk ip' V' bn \<and> a \<noteq> 0 \<and> (\<forall>k<MAXFILE. block_data ip' V' k = block_data ip V k) \<and>
     (\<forall>k. blk ip V k \<noteq> 0 \<longrightarrow> blk ip' V' k = blk ip V k) \<and>
     set (logged s') \<subseteq> insert a (set (logged s) \<union> bm_blocks sb) \<and> free_blocks sb s - {unat a} \<subseteq> free_blocks sb s')"

lemma bmap_found:
  fixes s :: "'a fs_st_scheme"
  assumes w: "wr_inv sb i s" and b: "budget sb c s" and bn: "bn < MAXFILE" "blk (icache s ! i) (sec_view s) bn \<noteq> 0"
  shows "\<exists>a s'. bmap i bn (s, env) = Ok (a, s', env) \<and> bmap_post sb i bn s a s'"
proof -
  let ?ip = "icache s ! i" and ?V = "sec_view s" and ?l = "unat (log_start s)"
  have t: "txn s" "alloc_disk sb s" "i < length (icache s)" and f: "file_ok sb ?l ?V ?ip" using w by (auto simp: wr_inv_def)
  have hb: "has_block ?l ?ip ?V bn"
    using bn file_okD(8) [OF f] blk_owned [OF bn] indirect_owned [of ?ip ?V] blk_ptr(2) [of bn ?ip ?V] by (auto simp: has_block_def)
  obtain s' where s': "bmap i bn (s, env) = Ok (blk ?ip ?V bn, s', env)" "txn s'" "length (logged s') < NBUF"
     "sec_view s' = ?V" "frame s s'"
    using txn_reads.bmap_mapped [OF _ file_okD(1) [OF f] hb, of env] t(1) budget_room(3) [OF t(1) b] by auto
  have fr: "txn_frame s s'" by (rule txn_frame_of_frame [OF s'(5)])
  have ls: "log_start s' = log_start s" "logged s' = logged s" "icache s' = icache s"
    using frame_logD [OF s'(5)] frame_icache [OF s'(5)] by (auto simp: logged_def)
  have "alloc_disk sb s'" using t(2) unfolding alloc_disk_def s'(4) ls(1) .
  then have "bmap_post sb i bn s (blk ?ip ?V bn) s'"
    using w s' ls bn fs_frame_of_txn [OF fr, of i]
    by (auto simp: bmap_post_def wr_inv_def others_kept_def free_blocks_def Let_def)
  then show ?thesis using s'(1) by blast
qed

lemma bmap_fresh:
  fixes s :: "'a fs_st_scheme"
  assumes w: "wr_inv sb i s" and b: "budget sb (Suc c) s" and bn: "bn < NDIRECT" "blk (icache s ! i) (sec_view s) bn = 0"
    and fb: "free_blocks sb s \<noteq> {}"
  shows "\<exists>a s'. bmap i bn (s, env) = Ok (a, s', env) \<and> bmap_post sb i bn s a s'"
proof -
  let ?ip = "icache s ! i" and ?V = "sec_view s" and ?l = "unat (log_start s)"
  have t: "txn s" and d: "alloc_disk sb s" and il: "i < length (icache s)" and f: "file_ok sb ?l ?V ?ip"
    using w by (auto simp: wr_inv_def)
  obtain k where k: "k < ?l" "\<not> in_use sb ?V k" "\<And>j. j < k \<Longrightarrow> in_use sb ?V j"
    using free_block_first [OF fb] by blast
  let ?a = "of_nat k :: u32"
  obtain s1 where s1: "balloc 1 (s, env) = Ok (?a, s1, env)" "txn s1" "txn_frame s s1" "sec_view s1 ?a = replicate BSIZE 0"
     "\<forall>j<unat (sb_size sb). in_use sb (sec_view s1) j \<longleftrightarrow> in_use sb ?V j \<or> j = k"
     "\<forall>m. unat m < ?l \<and> m \<noteq> ?a \<and> m \<noteq> bm_block sb k \<longrightarrow> sec_view s1 m = ?V m"
     "alloc_disk sb s1" "set (logged s1) = set (logged s) \<union> {bm_block sb k, ?a}"
    using balloc_ok [OF t budget_room(2) [OF t b] d k, of env] by blast
  have ka: "unat ?a = k" using k(1) unat_word_less32 [of "log_start s"] by (simp add: unat_of_nat32)
  note ls = txn_frameD(1,2) [OF s1(3)] and ic = txn_frame_icache [OF s1(3)] and sz = alloc_disk_size [OF d]
  note bk = bm_blocks_disk(1) [OF d k(1)]
  have na: "m \<noteq> ?a" if "in_use sb ?V (unat m)" for m using that k(2) ka by auto
  have md: "in_use sb ?V 1" "\<And>j. j < unat (sb_size sb) \<Longrightarrow> in_use sb ?V (unat (bm_block sb j))"
    using d unfolding alloc_disk_def by blast+
  have nb: "?a \<noteq> 1" "?a \<notin> bm_blocks sb"
    using na [of 1] md(1) na [OF md(2)] by (simp_all add: bm_blocks_def image_iff) metis+
  have u: "in_use sb (sec_view s1) j \<longleftrightarrow> in_use sb ?V j \<or> j = unat ?a" if "j < ?l" for j
    using s1(5) that sz ka by simp
  have V1: "sec_view s1 m = ?V m" if "unat m < ?l" "m \<noteq> ?a" "m \<notin> bm_blocks sb" for m
    using s1(6) that bk by auto
  let ?ip' = "?ip\<lparr>i_addrs := (i_addrs ?ip)[bn := ?a]\<rparr>"
  have b0: "i_addrs ?ip ! bn = 0" using bn by (simp add: blk_ptr(1))
  have al: "unat ?a < ?l" "\<not> in_use sb ?V (unat ?a)" using k ka by auto
  note fa = file_alloc [OF f bn(1) b0 al nb V1 s1(4) u]
  let ?s' = "upd_inode i (\<lambda>ip. ip\<lparr>i_addrs := (i_addrs ip)[bn := ?a]\<rparr>) s1"
  have run: "bmap i bn (s, env) = Ok (?a, ?s', env)"
    using s1(1) bn(1) b0 file_okD(1) [OF f] by (simp add: bmap_def the_inode_def set_inode_def thn_run)
  have ip': "icache ?s' ! i = ?ip'" "sec_view ?s' = sec_view s1" "log_start ?s' = log_start s" "logged ?s' = logged s1"
    using il ic ls by (simp_all add: upd_inode_def)
  have w': "wr_inv sb i ?s'"
    using s1(2,7) fa(1) il ic ls ip' by (simp add: wr_inv_def) (simp add: upd_inode_def)
  have fr: "fs_frame i s ?s'" by (rule fs_frame_trans [OF fs_frame_of_txn [OF s1(3)] fs_frame_upd])
  have ok: "others_kept sb i s ?s'"
    unfolding others_kept_def ip' using V1 u na fa(4) by auto
  have "free_blocks sb s - {unat ?a} \<subseteq> free_blocks sb ?s'"
    using u ip' by (auto simp: free_blocks_def)
  moreover have "blk ?ip ?V k \<noteq> 0 \<longrightarrow> blk ?ip' (sec_view s1) k = blk ?ip ?V k" for k
    using fa(6) [of k] bn(2) by metis
  ultimately have "bmap_post sb i bn s ?a ?s'"
    unfolding bmap_post_def Let_def ip' using w' fr ok fa(2,3,5) s1(8) bk by auto
  then show ?thesis using run by blast
qed

section \<open>Writing the blocks\<close>

text \<open>One turn of the loop of \<open>writei\<close>, without the arithmetic on offsets.\<close>

definition write_block :: "nat \<Rightarrow> nat \<Rightarrow> nat \<Rightarrow> byte list \<Rightarrow> ('a fs_st_scheme, unit) prog" where
  "write_block i bn o' src =
     thn (the_inode i) (\<lambda>ip.
     thn (bmap i bn) (\<lambda>addr.
     thn (bread (i_dev ip) addr) (\<lambda>bp.
     thn (bdata bp) (\<lambda>d.
     thn (set_bdata bp (patch d o' src)) (\<lambda>_.
     thn (log_write bp) (\<lambda>_.
     upd (brelse bp)))))))"

lemma writei_loop_unfold:
  assumes "0 < n"
  shows "writei_loop i src off n w =
     thn (write_block i (off div BSIZE) (off mod BSIZE) (take (piece off n) src)) (\<lambda>_.
       writei_loop i (drop (piece off n) src) (off + piece off n) (n - piece off n)) w"
  using assms by (subst writei_loop.simps) (simp add: write_block_def thn_assoc piece_def Let_def thn_def bnd_assoc split_def)

definition write_post :: "superblock \<Rightarrow> nat \<Rightarrow> nat \<Rightarrow> byte list \<Rightarrow> 'a fs_st_scheme \<Rightarrow> u32 \<Rightarrow> 'a fs_st_scheme \<Rightarrow> bool" where
  "write_post sb i bn d s a s' \<longleftrightarrow> (let ip = icache s ! i; V = sec_view s; ip' = icache s' ! i; V' = sec_view s' in
     wr_inv sb i s' \<and> fs_frame i s s' \<and> others_kept sb i s s' \<and> ip' = ip\<lparr>i_addrs := i_addrs ip'\<rparr> \<and>
     (\<forall>k<MAXFILE. block_data ip' V' k = (if k = bn then d else block_data ip V k)) \<and> blk ip' V' bn \<noteq> 0 \<and>
     (\<forall>k. blk ip V k \<noteq> 0 \<longrightarrow> blk ip' V' k \<noteq> 0) \<and>
     set (logged s') \<subseteq> insert a (set (logged s) \<union> bm_blocks sb) \<and> free_blocks sb s - {unat a} \<subseteq> free_blocks sb s')"

lemma bmap_ok:
  fixes s :: "'a fs_st_scheme"
  assumes "wr_inv sb i s" "budget sb (Suc c) s" "bn < MAXFILE"
    "blk (icache s ! i) (sec_view s) bn \<noteq> 0 \<or> bn < NDIRECT \<and> free_blocks sb s \<noteq> {}"
  shows "\<exists>a s'. bmap i bn (s, env) = Ok (a, s', env) \<and> bmap_post sb i bn s a s'"
  using assms bmap_found [OF assms(1-3), of env] bmap_fresh [OF assms(1,2), of bn env] by blast

lemma block_len:
  assumes "wr_inv sb i s" "k < MAXFILE"
  shows "length (block_data (icache s ! i) (sec_view s) k) = BSIZE"
proof (cases "blk (icache s ! i) (sec_view s) k = 0")
  case False
  then have "unat (blk (icache s ! i) (sec_view s) k) < unat (log_start s)"
    using assms file_okD(8) [OF _ blk_owned] by (auto simp: wr_inv_def)
  then show ?thesis using assms(1) False txn_viewlen [of s] by (simp add: wr_inv_def block_data_def)
qed (simp add: block_data_def)

lemma write_block_ok:
  fixes s :: "'a fs_st_scheme"
  assumes w: "wr_inv sb i s" and b: "budget sb (Suc c) s" and bn: "bn < MAXFILE"
    "blk (icache s ! i) (sec_view s) bn \<noteq> 0 \<or> bn < NDIRECT \<and> free_blocks sb s \<noteq> {}"
    and o': "o' + length src \<le> BSIZE"
  shows "\<exists>a s'. write_block i bn o' src (s, env) = Ok ((), s', env) \<and>
    write_post sb i bn (patch (block_data (icache s ! i) (sec_view s) bn) o' src) s a s'"
proof -
  let ?ip = "icache s ! i" and ?V = "sec_view s" and ?l = "unat (log_start s)"
  obtain a s1 where s1: "bmap i bn (s, env) = Ok (a, s1, env)" "bmap_post sb i bn s a s1"
    using bmap_ok [OF w b bn, of env] by blast
  let ?ip1 = "icache s1 ! i" and ?V1 = "sec_view s1"
  have p: "wr_inv sb i s1" "fs_frame i s s1" "others_kept sb i s s1" "?ip1 = ?ip\<lparr>i_addrs := i_addrs ?ip1\<rparr>"
    "a = blk ?ip1 ?V1 bn" "a \<noteq> 0" "\<And>k. k < MAXFILE \<Longrightarrow> block_data ?ip1 ?V1 k = block_data ?ip ?V k"
    "\<And>k. blk ?ip ?V k \<noteq> 0 \<Longrightarrow> blk ?ip1 ?V1 k = blk ?ip ?V k"
    "set (logged s1) \<subseteq> insert a (set (logged s) \<union> bm_blocks sb)" "free_blocks sb s - {unat a} \<subseteq> free_blocks sb s1"
    using s1(2) by (auto simp: bmap_post_def Let_def)
  note ls1 = fs_frameD(1,2) [OF p(2)]
  have t1: "txn s1" "alloc_disk sb s1" "i < length (icache s1)" and f1: "file_ok sb ?l ?V1 ?ip1"
    using p(1) ls1 by (auto simp: wr_inv_def)
  have ao: "a \<in> owned ?ip1 ?V1" unfolding p(5) using blk_owned [OF bn(1)] p(5,6) by blast
  have al: "unat a < unat (log_start s1)" "a \<noteq> 1" "a \<notin> bm_blocks sb" using file_okD(8,10) [OF f1 ao] ls1 by auto
  have bd: "?V1 a = block_data ?ip ?V bn" using p(5-7) bn(1) by (metis block_data_def)
  let ?d = "patch (block_data ?ip ?V bn) o' src"
  have len: "length ?d = BSIZE" using block_len [OF w bn(1)] o' by simp
  have "budget sb c s1" by (rule budget_step [OF b p(9) ls1(2)])
  note room = budget_room(1) [OF t1(1) this]
  from txn_update [OF t1(1) al(1) len room, of env] obtain bp s3 s4 where
    u: "bread 1 a (s1, env) = Ok (bp, loaded bp a s1, env)" "b_data (bufs (loaded bp a s1) ! bp) = ?V1 a"
      "log_write bp (set_data bp ?d (loaded bp a s1), env) = Ok ((), s3, env)" "brelse bp s3 = Ok s4"
      "txn s4" "txn_frame s1 s4" "set (logged s4) = insert a (set (logged s1))"
    and v: "\<And>m. unat m < unat (log_start s1) \<Longrightarrow> sec_view s4 m = (?V1(a := ?d)) m"
    by metis
  have run: "write_block i bn o' src (s, env) = Ok ((), s4, env)"
    using s1(1) u(1-4) bd file_okD(1) [of sb ?l ?V ?ip] w
    by (simp add: write_block_def the_inode_def thn_run wr_inv_def)
  note ls4 = txn_frameD(1) [OF u(6)] and ic4 = txn_frame_icache [OF u(6)]
  note sd = store_disk [OF t1(2) ls4 al(2,3) v]
  have use: "in_use sb (sec_view s4) j = in_use sb ?V1 j" if "j < ?l" for j
    using sd(1) [of j] that alloc_disk_size [OF t1(2)] ls1 by auto
  have v': "sec_view s4 m = (?V1(blk ?ip1 ?V1 bn := ?d)) m" if "unat m < ?l" for m using v that ls1 p(5) by simp
  have b1: "blk ?ip1 ?V1 bn \<noteq> 0" using p(5,6) by simp
  note fs = file_store [OF f1 bn(1) b1 v' use]
  have bl: "blk ?ip1 (sec_view s4) = blk ?ip1 ?V1" "owned ?ip1 (sec_view s4) = owned ?ip1 ?V1"
    using fs(1) by (simp_all add: blk_def owned_def fun_eq_iff)
  have w4: "wr_inv sb i s4" using u(5) sd(2) t1(3) fs(2) ls4 ls1 ic4 by (simp add: wr_inv_def)
  have "others_kept sb i s1 s4" using v ao use ls1 by (auto simp: others_kept_def ic4 bl)
  then have ok4: "others_kept sb i s s4" by (rule others_kept_trans [OF p(3) _ ls1(1)])
  have fr4: "fs_frame i s s4" by (rule fs_frame_trans [OF p(2) fs_frame_of_txn [OF u(6)]])
  have "free_blocks sb s1 = free_blocks sb s4" using use ls1 ls4 by (auto simp: free_blocks_def)
  moreover have "blk ?ip1 (sec_view s4) k \<noteq> 0" if "blk ?ip ?V k \<noteq> 0" for k using p(8) [OF that] that bl by simp
  ultimately have "write_post sb i bn ?d s a s4"
    unfolding write_post_def Let_def ic4
    using w4 fr4 ok4 p(4,7,9,10) fs(3) b1 bl(1) u(7) by auto
  then show ?thesis using run by blast
qed

text \<open>The number of blocks that a range of the file touches.\<close>

definition nblocks :: "nat \<Rightarrow> nat \<Rightarrow> nat" where
  "nblocks off n = (if n = 0 then 0 else (off + n - 1) div BSIZE - off div BSIZE + 1)"

lemma nblocks_piece:
  assumes "0 < n"
  shows "nblocks off n = Suc (nblocks (off + piece off n) (n - piece off n))"
proof (cases "piece off n = n")
  case True
  then have "(off + (n - 1)) div BSIZE = off div BSIZE" using piece_facts(4) [OF assms, of "n - 1" off] assms by simp
  then show ?thesis using True assms by (simp add: nblocks_def)
next
  case False
  then have m: "piece off n = BSIZE - off mod BSIZE" "piece off n < n" by (auto simp: piece_def)
  have "off + piece off n = (off div BSIZE + 1) * BSIZE"
    using m(1) div_mult_mod_eq [of off BSIZE] mod_less_divisor [OF BSIZE_nonzero(2), of off]
    unfolding distrib_right by linarith
  then have "(off + piece off n) div BSIZE = off div BSIZE + 1" by simp
  moreover have "off div BSIZE + 1 \<le> (off + n - 1) div BSIZE"
    using calculation m(2) div_le_mono [of "off + piece off n" "off + n - 1" BSIZE] by simp
  ultimately show ?thesis using m(2) by (simp add: nblocks_def)
qed

definition range_post :: "superblock \<Rightarrow> nat \<Rightarrow> byte list \<Rightarrow> nat \<Rightarrow> nat \<Rightarrow> 'a fs_st_scheme \<Rightarrow> 'a fs_st_scheme \<Rightarrow> bool" where
  "range_post sb i src off n s s' \<longleftrightarrow> (let ip = icache s ! i; V = sec_view s; ip' = icache s' ! i; V' = sec_view s' in
     wr_inv sb i s' \<and> fs_frame i s s' \<and> others_kept sb i s s' \<and> ip' = ip\<lparr>i_addrs := i_addrs ip'\<rparr> \<and>
     (\<forall>x<MAXFILE * BSIZE. file_byte ip' V' x = (if off \<le> x \<and> x < off + n then src ! (x - off) else file_byte ip V x)) \<and>
     (\<forall>x. off \<le> x \<and> x < off + n \<longrightarrow> blk ip' V' (x div BSIZE) \<noteq> 0) \<and>
     (\<forall>k. blk ip V k \<noteq> 0 \<longrightarrow> blk ip' V' k \<noteq> 0))"

lemma byte_of_patch:
  assumes "length d = BSIZE" "length src = piece off n" "0 < n" "x div BSIZE = off div BSIZE"
  shows "patch d (off mod BSIZE) src ! (x mod BSIZE) =
    (if off \<le> x \<and> x < off + piece off n then src ! (x - off) else d ! (x mod BSIZE))"
proof -
  have x: "x = off div BSIZE * BSIZE + x mod BSIZE" "off = off div BSIZE * BSIZE + off mod BSIZE"
    using div_mult_mod_eq [of x BSIZE] assms(4) by simp_all
  have "off mod BSIZE \<le> x mod BSIZE \<and> x mod BSIZE < off mod BSIZE + piece off n \<longleftrightarrow> off \<le> x \<and> x < off + piece off n"
    "x mod BSIZE - off mod BSIZE = x - off"
    using x by linarith+
  then show ?thesis
    using patch_nth [of "off mod BSIZE" src d "x mod BSIZE"] assms(1,2) piece_facts(3) [OF assms(3), of off] by simp
qed

lemma only_addrs_trans:
  fixes a b c :: inode
  assumes "b = a\<lparr>i_addrs := i_addrs b\<rparr>" "c = b\<lparr>i_addrs := i_addrs c\<rparr>"
  shows "c = a\<lparr>i_addrs := i_addrs c\<rparr>"
  using assms by (cases a; cases b; cases c) simp

lemma range_post_step:
  assumes w: "wr_inv sb i s" and n: "0 < n" "off + n \<le> MAXFILE * BSIZE" "n \<le> length src"
    and p: "write_post sb i (off div BSIZE)
        (patch (block_data (icache s ! i) (sec_view s) (off div BSIZE)) (off mod BSIZE) (take (piece off n) src)) s a s1"
    and q: "range_post sb i (drop (piece off n) src) (off + piece off n) (n - piece off n) s1 s2"
  shows "range_post sb i src off n s s2"
proof -
  let ?m = "piece off n" and ?ip = "icache s ! i" and ?ip1 = "icache s1 ! i" and ?ip2 = "icache s2 ! i"
  let ?V = "sec_view s" and ?V1 = "sec_view s1" and ?V2 = "sec_view s2"
  note m = piece_facts [OF n(1), where off = off]
  have same: "x div BSIZE = off div BSIZE" if "off \<le> x" "x < off + ?m" for x
  proof -
    have "x - off < ?m" using that by linarith
    from m(4) [OF this] show ?thesis using that(1) by simp
  qed
  have p: "wr_inv sb i s1" "fs_frame i s s1" "others_kept sb i s s1" "?ip1 = ?ip\<lparr>i_addrs := i_addrs ?ip1\<rparr>"
     "\<And>k. k < MAXFILE \<Longrightarrow> block_data ?ip1 ?V1 k = (if k = off div BSIZE
        then patch (block_data ?ip ?V (off div BSIZE)) (off mod BSIZE) (take ?m src) else block_data ?ip ?V k)"
     "blk ?ip1 ?V1 (off div BSIZE) \<noteq> 0" "\<And>k. blk ?ip ?V k \<noteq> 0 \<Longrightarrow> blk ?ip1 ?V1 k \<noteq> 0"
    using p by (auto simp: write_post_def Let_def)
  have q: "wr_inv sb i s2" "fs_frame i s1 s2" "others_kept sb i s1 s2" "?ip2 = ?ip1\<lparr>i_addrs := i_addrs ?ip2\<rparr>"
     "\<And>x. x < MAXFILE * BSIZE \<Longrightarrow> file_byte ?ip2 ?V2 x = (if off + ?m \<le> x \<and> x < off + n
        then drop ?m src ! (x - (off + ?m)) else file_byte ?ip1 ?V1 x)"
     "\<And>x. off + ?m \<le> x \<Longrightarrow> x < off + n \<Longrightarrow> blk ?ip2 ?V2 (x div BSIZE) \<noteq> 0"
     "\<And>k. blk ?ip1 ?V1 k \<noteq> 0 \<Longrightarrow> blk ?ip2 ?V2 k \<noteq> 0"
    using q m(2) by (auto simp: range_post_def Let_def)
  have "off div BSIZE < MAXFILE" using n MAXFILE_block [of off] by simp
  note len = block_len [OF w this]
  have f1: "file_byte ?ip1 ?V1 x = (if off \<le> x \<and> x < off + ?m then src ! (x - off) else file_byte ?ip ?V x)"
    if x: "x < MAXFILE * BSIZE" for x
  proof (cases "x div BSIZE = off div BSIZE")
    case True
    have "length (take ?m src) = ?m" using m(2) n(3) by simp
    from byte_of_patch [OF len this n(1) True] show ?thesis
      using p(5) [OF MAXFILE_block [OF x]] True by (auto simp: file_byte_def)
  next
    case False
    then have "\<not> (off \<le> x \<and> x < off + ?m)" using same by blast
    then show ?thesis using p(5) [OF MAXFILE_block [OF x]] False by (auto simp: file_byte_def)
  qed
  have bytes: "file_byte ?ip2 ?V2 x = (if off \<le> x \<and> x < off + n then src ! (x - off) else file_byte ?ip ?V x)"
    if "x < MAXFILE * BSIZE" for x
  proof (cases "off + ?m \<le> x \<and> x < off + n")
    case True
    then have "drop ?m src ! (x - (off + ?m)) = src ! (x - off)" using m(2) n(3) by simp
    then show ?thesis using q(5) [OF that] True by auto
  next
    case False
    then have "file_byte ?ip2 ?V2 x = file_byte ?ip1 ?V1 x" "off \<le> x \<and> x < off + ?m \<longleftrightarrow> off \<le> x \<and> x < off + n"
      using q(5) [OF that] m(2) by auto
    then show ?thesis using f1 [OF that] by simp
  qed
  have mapped: "blk ?ip2 ?V2 (x div BSIZE) \<noteq> 0" if "off \<le> x" "x < off + n" for x
  proof (cases "off + ?m \<le> x")
    case False
    then have x: "x div BSIZE = off div BSIZE" by (intro same) (use that in auto)
    show ?thesis unfolding x by (rule q(7) [OF p(6)])
  qed (use q(6) that in blast)
  have ip2: "?ip2 = ?ip\<lparr>i_addrs := i_addrs ?ip2\<rparr>"
    by (rule only_addrs_trans [OF p(4) q(4)])
  show ?thesis
    unfolding range_post_def Let_def
    using q(1) fs_frame_trans [OF p(2) q(2)] others_kept_trans [OF p(3) q(3) fs_frameD(1) [OF p(2)]] ip2 bytes mapped
      p(7) q(7) by blast
qed

text \<open>The blocks of a range that exist already or can be made: direct ones.\<close>

definition writable :: "nat \<Rightarrow> nat \<Rightarrow> inode \<Rightarrow> (u32 \<Rightarrow> byte list) \<Rightarrow> bool" where
  "writable off n ip V \<longleftrightarrow> off + n \<le> MAXFILE * BSIZE \<and>
     (\<forall>x. off \<le> x \<and> x < off + n \<longrightarrow> x div BSIZE < NDIRECT \<or> blk ip V (x div BSIZE) \<noteq> 0)"

lemma finite_free_blocks [simp]: "finite (free_blocks sb s)"
  by (simp add: free_blocks_def)

lemma writei_loop_ok:
  fixes s :: "'a fs_st_scheme"
  assumes "wr_inv sb i s" "budget sb (nblocks off n + c) s" "nblocks off n \<le> card (free_blocks sb s)"
    "writable off n (icache s ! i) (sec_view s)" "n \<le> length src"
  shows "\<exists>s'. writei_loop i src off n (s, env) = Ok ((), s', env) \<and> range_post sb i src off n s s' \<and> budget sb c s'"
  using assms
proof (induction n arbitrary: src off s rule: less_induct)
  case (less n)
  show ?case
  proof (cases "n = 0")
    case True
    then have "writei_loop i src off n (s, env) = Ok ((), s, env)" by (subst writei_loop.simps) simp
    then show ?thesis using True less.prems(1,2)
      by (auto simp: range_post_def Let_def fs_frame_def others_kept_def nblocks_def)
  next
    case False
    then have n: "0 < n" by simp
    let ?m = "piece off n" and ?bn = "off div BSIZE" and ?ip = "icache s ! i" and ?V = "sec_view s"
    note m = piece_facts(1-3) [OF n, of off] and nb = nblocks_piece [OF n, of off]
    have wr: "off + n \<le> MAXFILE * BSIZE" using less.prems(4) by (simp add: writable_def)
    have bn: "?bn < MAXFILE" using wr n MAXFILE_block [of off] by simp
    have "free_blocks sb s \<noteq> {}" using less.prems(3) nb by auto
    then have fb: "blk ?ip ?V ?bn \<noteq> 0 \<or> ?bn < NDIRECT \<and> free_blocks sb s \<noteq> {}"
      using less.prems(4) n by (auto simp: writable_def)
    have b: "budget sb (Suc (nblocks (off + ?m) (n - ?m) + c)) s" using less.prems(2) nb by simp
    have "off mod BSIZE + length (take ?m src) \<le> BSIZE" using m less.prems(5) by simp
    from write_block_ok [OF less.prems(1) b bn fb this, of env] obtain a s1 where
      s1: "write_block i ?bn (off mod BSIZE) (take ?m src) (s, env) = Ok ((), s1, env)"
        "write_post sb i ?bn (patch (block_data ?ip ?V ?bn) (off mod BSIZE) (take ?m src)) s a s1" by blast
    have p: "wr_inv sb i s1" "fs_frame i s s1" "\<And>k. blk ?ip ?V k \<noteq> 0 \<Longrightarrow> blk (icache s1 ! i) (sec_view s1) k \<noteq> 0"
      "set (logged s1) \<subseteq> insert a (set (logged s) \<union> bm_blocks sb)" "free_blocks sb s - {unat a} \<subseteq> free_blocks sb s1"
      using s1(2) by (auto simp: write_post_def Let_def)
    have b1: "budget sb (nblocks (off + ?m) (n - ?m) + c) s1" by (rule budget_step [OF b p(4) fs_frameD(2) [OF p(2)]])
    have "card (free_blocks sb s) - 1 \<le> card (free_blocks sb s - {unat a})" by (simp add: card_Diff1_le card_Diff_singleton_if)
    also have "\<dots> \<le> card (free_blocks sb s1)" by (rule card_mono [OF _ p(5)]) simp
    finally have fb1: "nblocks (off + ?m) (n - ?m) \<le> card (free_blocks sb s1)" using less.prems(3) nb by simp
    have wr1: "writable (off + ?m) (n - ?m) (icache s1 ! i) (sec_view s1)"
      unfolding writable_def
    proof (intro conjI allI impI)
      fix x assume x: "off + ?m \<le> x \<and> x < off + ?m + (n - ?m)"
      then have "off \<le> x \<and> x < off + n" using m(2) by auto
      then show "x div BSIZE < NDIRECT \<or> blk (icache s1 ! i) (sec_view s1) (x div BSIZE) \<noteq> 0"
        using less.prems(4) p(3) unfolding writable_def by blast
    qed (use wr m(2) in simp)
    have lt: "n - ?m < n" "n - ?m \<le> length (drop ?m src)" using m n less.prems(5) by auto
    obtain s2 where s2: "writei_loop i (drop ?m src) (off + ?m) (n - ?m) (s1, env) = Ok ((), s2, env)"
      "range_post sb i (drop ?m src) (off + ?m) (n - ?m) s1 s2" "budget sb c s2"
      using less.IH [OF lt(1) p(1) b1 fb1 wr1 lt(2)] by blast
    have "writei_loop i src off n (s, env) = Ok ((), s2, env)"
      unfolding writei_loop_unfold [OF n] using s1(1) s2(1) by (simp add: thn_run)
    then show ?thesis using range_post_step [OF less.prems(1) n wr less.prems(5) s1(2) s2(2)] s2(3) by blast
  qed
qed

section \<open>The inode on disk\<close>

lemma addrs_fold:
  assumes "p + 4 * n \<le> length d"
  shows "length (fold (\<lambda>i d. wr32 d (p + 4 * i) (as ! i)) [0..<n] d) = length d"
    "j < n \<Longrightarrow> rd32 (fold (\<lambda>i d. wr32 d (p + 4 * i) (as ! i)) [0..<n] d) (p + 4 * j) = as ! j"
    "q + 4 \<le> p \<Longrightarrow> rd32 (fold (\<lambda>i d. wr32 d (p + 4 * i) (as ! i)) [0..<n] d) q = rd32 d q"
    "q + 2 \<le> p \<Longrightarrow> rd16 (fold (\<lambda>i d. wr32 d (p + 4 * i) (as ! i)) [0..<n] d) q = rd16 d q"
  using assms
proof (induction n)
  case (Suc n)
  let ?f = "fold (\<lambda>i d. wr32 d (p + 4 * i) (as ! i)) [0..<n] d"
  { case 1 then show ?case using Suc.IH(1) by simp }
  { case 2 then show ?case using Suc.IH(1,2) by (cases "j = n") (auto simp: rd32_wr32_other less_Suc_eq) }
  { case 3 then show ?case using Suc.IH(3) by (simp add: rd32_wr32_other) }
  { case 4 then show ?case using Suc.IH(4) by (simp add: rd16_wr32_other) }
qed auto

lemma length_enc_dinode: "o' + 64 \<le> length d \<Longrightarrow> length (enc_dinode d o' di) = length d"
  using addrs_fold(1) [of "o' + 12" "NDIRECT + 1"] by (simp add: enc_dinode_def NDIRECT_def del: upt_Suc)

lemma dec_enc_dinode:
  assumes "o' + 64 \<le> length d" "length (di_addrs di) = Suc NDIRECT"
  shows "dec_dinode (enc_dinode d o' di) o' = di"
proof -
  let ?d = "wr32 (wr16 (wr16 (wr16 (wr16 d o' (di_type di)) (o' + 2) (di_major di)) (o' + 4) (di_minor di))
          (o' + 6) (di_nlink di)) (o' + 8) (di_size di)"
  have le: "o' + 12 + 4 * (NDIRECT + 1) \<le> length ?d" using assms(1) by (simp add: NDIRECT_def)
  note fa = addrs_fold [OF le, where as = "di_addrs di"]
  have "map (\<lambda>i. rd32 (enc_dinode d o' di) (o' + 12 + 4 * i)) [0..<NDIRECT + 1] = di_addrs di"
    using assms(2) fa(2) by (intro nth_equalityI) (simp_all add: enc_dinode_def del: upt_Suc)
  moreover have "rd16 (enc_dinode d o' di) q = rd16 ?d q" if "q + 2 \<le> o' + 12" for q
    unfolding enc_dinode_def by (rule fa(4) [OF that])
  moreover have "rd32 (enc_dinode d o' di) (o' + 8) = rd32 ?d (o' + 8)"
    unfolding enc_dinode_def by (rule fa(3)) simp
  moreover have "rd16 ?d o' = di_type di" "rd16 ?d (o' + 2) = di_major di" "rd16 ?d (o' + 4) = di_minor di"
    "rd16 ?d (o' + 6) = di_nlink di" "rd32 ?d (o' + 8) = di_size di"
    using assms(1) by (simp_all add: enc_simps)
  ultimately show ?thesis by (cases di) (simp add: dec_dinode_def del: upt_Suc)
qed

text \<open>A store outside the file.\<close>

lemma data_keep:
  assumes V': "\<And>m. m \<in> owned ip V \<Longrightarrow> V' m = V m"
  shows "ptr ip V' = ptr ip V" "x < MAXFILE * BSIZE \<Longrightarrow> file_byte ip V' x = file_byte ip V x"
proof -
  show p: "ptr ip V' = ptr ip V" using V' [OF indirect_owned] by (auto simp: ptr_def)
  then have b: "blk ip V' = blk ip V" by (simp add: blk_def fun_eq_iff)
  show "file_byte ip V' x = file_byte ip V x" if "x < MAXFILE * BSIZE"
    using V' blk_owned [OF MAXFILE_block [OF that], of ip V] by (auto simp: file_byte_def block_data_def b)
qed

lemma file_keep:
  assumes f: "file_ok sb l V ip" and V': "\<And>m. m \<in> owned ip V \<Longrightarrow> V' m = V m"
    and u: "\<And>j. j < l \<Longrightarrow> in_use sb V' j = in_use sb V j"
  shows "file_ok sb l V' ip"
proof -
  have p: "ptr ip V' = ptr ip V" by (rule data_keep(1) [OF V'])
  then have b: "blk ip V' = blk ip V" "owned ip V' = owned ip V" by (simp_all add: blk_def owned_def fun_eq_iff)
  have "0 < l" using file_okD(5) [OF f] by simp
  then show "file_ok sb l V' ip" using f u unfolding file_ok_def p b by auto
qed

text \<open>The size of a file says nothing about its blocks.\<close>

lemma size_indep [simp]:
  "ptr (ip\<lparr>i_size := z\<rparr>) V = ptr ip V" "blk (ip\<lparr>i_size := z\<rparr>) V = blk ip V" "owned (ip\<lparr>i_size := z\<rparr>) V = owned ip V"
  "file_byte (ip\<lparr>i_size := z\<rparr>) V = file_byte ip V"
  by (simp_all add: ptr_def blk_def owned_def file_byte_def block_data_def fun_eq_iff)

lemma file_ok_resize:
  assumes "file_ok sb l V ip" "unat z \<le> MAXFILE * BSIZE" "\<And>k. k * BSIZE < unat z \<Longrightarrow> blk ip V k \<noteq> 0"
  shows "file_ok sb l V (ip\<lparr>i_size := z\<rparr>)"
proof -
  have "i_dev (ip\<lparr>i_size := z\<rparr>) = i_dev ip" "i_addrs (ip\<lparr>i_size := z\<rparr>) = i_addrs ip"
    "i_size (ip\<lparr>i_size := z\<rparr>) = z" "i_inum (ip\<lparr>i_size := z\<rparr>) = i_inum ip" by simp_all
  note e = this
  show ?thesis using assms unfolding file_ok_def e size_indep by blast
qed

lemma iupdate_ok:
  fixes s :: "'a fs_st_scheme"
  assumes w: "wr_inv sb i s" and b: "budget sb 1 s"
  defines "ip \<equiv> icache s ! i"
  shows "\<exists>s'. iupdate i (s, env) = Ok ((), s', env) \<and> wr_inv sb i s' \<and> txn_frame s s' \<and> length (logged s') < NBUF \<and>
     dec_dinode (sec_view s' (IBLOCK (i_inum ip))) (64 * (unat (i_inum ip) mod IPB)) = dinode_of ip \<and>
     (\<forall>m. unat m < unat (log_start s) \<and> m \<noteq> IBLOCK (i_inum ip) \<longrightarrow> sec_view s' m = sec_view s m)"
proof -
  let ?V = "sec_view s" and ?l = "unat (log_start s)" and ?n = "IBLOCK (i_inum ip)" and ?o = "64 * (unat (i_inum ip) mod IPB)"
  have t: "txn s" and d: "alloc_disk sb s" and f: "file_ok sb ?l ?V ip" and il: "i < length (icache s)"
    using w by (auto simp: wr_inv_def ip_def)
  note n = file_okD(5) [OF f]
  have o: "?o + 64 \<le> length (?V ?n)"
    unfolding txn_viewlen [OF t n] using mod_less_divisor [of IPB "unat (i_inum ip)"] by (simp add: IPB_def BSIZE_def)
  let ?d = "enc_dinode (?V ?n) ?o (dinode_of ip)"
  have len: "length ?d = BSIZE" using length_enc_dinode [OF o] txn_viewlen [OF t n] by simp
  from txn_update [OF t n len budget_room(1) [OF t b], of env] obtain bp s3 s4 where
    u: "bread 1 ?n (s, env) = Ok (bp, loaded bp ?n s, env)" "b_data (bufs (loaded bp ?n s) ! bp) = ?V ?n"
      "log_write bp (set_data bp ?d (loaded bp ?n s), env) = Ok ((), s3, env)" "brelse bp s3 = Ok s4"
      "txn s4" "txn_frame s s4" "length (logged s4) \<le> length (logged s) + 1"
    and v: "\<And>m. unat m < ?l \<Longrightarrow> sec_view s4 m = (?V(?n := ?d)) m"
    by metis
  have run: "iupdate i (s, env) = Ok ((), s4, env)"
    using u(1-4) file_okD(1) [OF f] by (simp add: iupdate_def the_inode_def thn_run ip_def)
  note ls = txn_frameD(1) [OF u(6)] and ic = txn_frame_icache [OF u(6)]
  have nn: "?n \<noteq> 1" "?n \<notin> bm_blocks sb" using file_okD(7) [OF f] by auto
  note sd = store_disk [OF d ls nn v]
  have use: "in_use sb (sec_view s4) j = in_use sb ?V j" if "j < ?l" for j
    using sd(1) [of j] that alloc_disk_size [OF d] by auto
  have "sec_view s4 m = ?V m" if "m \<in> owned ip ?V" for m
    using v file_okD(8,10) [OF f that] by auto
  then have "file_ok sb ?l (sec_view s4) ip" by (rule file_keep [OF f _ use])
  then have "wr_inv sb i s4" using u(5) sd(2) il ls ic by (simp add: wr_inv_def ip_def)
  moreover have "dec_dinode (sec_view s4 ?n) ?o = dinode_of ip"
    using v [OF n] dec_enc_dinode [OF o, of "dinode_of ip"] file_okD(2) [OF f] by (simp add: dinode_of_def)
  moreover have "length (logged s4) < NBUF" using u(7) budget_room(1) [OF t b] by (simp add: txn_room_def)
  ultimately show ?thesis using run u(6) v by auto
qed

section \<open>Properties\<close>

lemma contents_eqI:
  assumes "unat (i_size ip') = max (unat (i_size ip)) (off + n)" "off \<le> unat (i_size ip)" "n \<le> length src"
    "off + n \<le> MAXFILE * BSIZE" "unat (i_size ip) \<le> MAXFILE * BSIZE"
    "\<And>x. x < MAXFILE * BSIZE \<Longrightarrow> file_byte ip' V' x = (if off \<le> x \<and> x < off + n then src ! (x - off) else file_byte ip V x)"
  shows "contents ip' V' = take off (contents ip V) @ take n src @ drop (off + n) (contents ip V)"
proof (rule nth_equalityI)
  show "length (contents ip' V') = length (take off (contents ip V) @ take n src @ drop (off + n) (contents ip V))"
    using assms(1-3) by (auto simp: max_def)
  fix x assume "x < length (contents ip' V')"
  then have x: "x < max (unat (i_size ip)) (off + n)" using assms(1) by simp
  then have "contents ip' V' ! x = (if off \<le> x \<and> x < off + n then src ! (x - off) else file_byte ip V x)"
    using assms(1,4,5) assms(6) [of x] by (auto simp: contents_def max_def split: if_splits)
  moreover consider "x < off" | "off \<le> x" "x < off + n" | "off + n \<le> x" "x < unat (i_size ip)" using x by linarith
  then have "(take off (contents ip V) @ take n src @ drop (off + n) (contents ip V)) ! x =
      (if off \<le> x \<and> x < off + n then src ! (x - off) else file_byte ip V x)"
  proof cases
    case 1
    then show ?thesis using assms(2) by (simp add: nth_append contents_def)
  next
    case 2
    then obtain y where "x = off + y" "y < n" by (metis le_Suc_ex nat_add_left_cancel_less)
    then show ?thesis using assms(2,3) by (simp add: nth_append min_absorb2)
  next
    case 3
    then obtain y where "x = off + n + y" by (metis le_Suc_ex)
    then show ?thesis using 3(2) assms(2,3) by (simp add: nth_append min_absorb2 contents_def)
  qed
  ultimately show "contents ip' V' ! x = (take off (contents ip V) @ take n src @ drop (off + n) (contents ip V)) ! x"
    by simp
qed

definition writei_post :: "superblock \<Rightarrow> nat \<Rightarrow> byte list \<Rightarrow> nat \<Rightarrow> nat \<Rightarrow> 'a fs_st_scheme \<Rightarrow> 'a fs_st_scheme \<Rightarrow> bool" where
  "writei_post sb i src off n s s' \<longleftrightarrow> (let ip = icache s ! i; V = sec_view s; ip' = icache s' ! i; V' = sec_view s' in
     wr_inv sb i s' \<and> ip' = ip\<lparr>i_addrs := i_addrs ip', i_size := i_size ip'\<rparr> \<and>
     contents ip' V' = take off (contents ip V) @ take n src @ drop (off + n) (contents ip V) \<and>
     (unat (i_size ip) < off + n \<longrightarrow>
        dec_dinode (V' (IBLOCK (i_inum ip))) (64 * (unat (i_inum ip) mod IPB)) = dinode_of ip') \<and>
     (\<forall>j. j \<noteq> i \<longrightarrow> icache s' ! j = icache s ! j) \<and> length (icache s') = length (icache s) \<and>
     (\<forall>m. unat m < unat (log_start s) \<and> in_use sb V (unat m) \<and> m \<notin> insert (IBLOCK (i_inum ip)) (bm_blocks sb \<union> owned ip V)
        \<longrightarrow> V' m = V m))"

lemma writei_ok:
  fixes s :: "'a fs_st_scheme"
  assumes w: "wr_inv sb i s" and b: "budget sb (nblocks (unat off) (unat n) + 1) s"
    and fb: "nblocks (unat off) (unat n) \<le> card (free_blocks sb s)"
    and wr: "writable (unat off) (unat n) (icache s ! i) (sec_view s)"
    and ty: "i_type (icache s ! i) \<noteq> T_DEV" and off: "off \<le> i_size (icache s ! i)" and src: "unat n \<le> length src"
  shows "\<exists>s'. writei devs i src off n (s, env) = Ok (int (unat n), s', env) \<and> writei_post sb i src (unat off) (unat n) s s' \<and>
    length (logged s') < NBUF"
proof -
  let ?ip = "icache s ! i" and ?V = "sec_view s" and ?o = "unat off" and ?n = "unat n" and ?l = "unat (log_start s)"
  have le: "?o + ?n \<le> MAXFILE * BSIZE" using wr by (simp add: writable_def)
  have mx: "MAXFILE * BSIZE = 71680" by (simp add: MAXFILE_def NDIRECT_def NINDIRECT_def BSIZE_def)
  have sum: "unat (off + n) = ?o + ?n" using le mx by (simp add: unat_plus_if')
  have f: "file_ok sb ?l ?V ?ip" using w by (simp add: wr_inv_def)
  have ol: "?o \<le> unat (i_size ?ip)" using off by (simp add: word_le_nat_alt)
  have g: "\<not> off > i_size ?ip" "\<not> off + n < off" "\<not> off + n > of_nat (MAXFILE * BSIZE)"
    using off sum le mx by (auto simp: word_less_nat_alt word_le_nat_alt)
  obtain s1 where s1: "writei_loop i src ?o ?n (s, env) = Ok ((), s1, env)" "range_post sb i src ?o ?n s s1" "budget sb 1 s1"
    using writei_loop_ok [OF w b fb wr src, of env] by blast
  let ?ip1 = "icache s1 ! i" and ?V1 = "sec_view s1"
  have p: "wr_inv sb i s1" "fs_frame i s s1" "others_kept sb i s s1" "?ip1 = ?ip\<lparr>i_addrs := i_addrs ?ip1\<rparr>"
    "\<And>x. x < MAXFILE * BSIZE \<Longrightarrow> file_byte ?ip1 ?V1 x = (if ?o \<le> x \<and> x < ?o + ?n then src ! (x - ?o) else file_byte ?ip ?V x)"
    "\<And>x. ?o \<le> x \<Longrightarrow> x < ?o + ?n \<Longrightarrow> blk ?ip1 ?V1 (x div BSIZE) \<noteq> 0"
    "\<And>k. blk ?ip ?V k \<noteq> 0 \<Longrightarrow> blk ?ip1 ?V1 k \<noteq> 0"
    using s1(2) by (auto simp: range_post_def Let_def)
  note ls1 = fs_frameD [OF p(2)]
  have sz1: "i_size ?ip1 = i_size ?ip" "i_inum ?ip1 = i_inum ?ip" using arg_cong [OF p(4), of i_size] arg_cong [OF p(4), of i_inum] by auto
  have sn: "sint n = int ?n" using le mx by (intro sint_small) simp
  have run: "writei devs i src off n (s, env) = thn (whenp (n > 0 \<and> off + n > i_size ?ip)
         (thn (set_inode i (\<lambda>ip. ip\<lparr>i_size := off + n\<rparr>)) (\<lambda>_. iupdate i))) (\<lambda>_. ret (int ?n)) (s1, env)"
    using ty g s1(1) sn sz1(1) by (simp add: writei_def the_inode_def thn_run)
  show ?thesis
  proof (cases "unat (i_size ?ip) < ?o + ?n")
    case False
    then have "writei devs i src off n (s, env) = Ok (int ?n, s1, env)"
      unfolding run using sum by (simp add: whenp_def word_less_nat_alt)
    moreover have "writei_post sb i src ?o ?n s s1"
      unfolding writei_post_def Let_def
      using p(1,2,3) p(4) sz1 False contents_eqI [OF _ ol src le file_okD(3) [OF f] p(5)]
      by (auto simp: fs_frame_def others_kept_def)
    ultimately show ?thesis using budget_room(3) [OF _ s1(3)] p(1) by (auto simp: wr_inv_def)
  next
    case True
    let ?s2 = "upd_inode i (\<lambda>ip. ip\<lparr>i_size := off + n\<rparr>) s1"
    have il: "i < length (icache s1)" using p(1) by (simp add: wr_inv_def)
    let ?ip2 = "?ip1\<lparr>i_size := off + n\<rparr>"
    have s2: "icache ?s2 ! i = ?ip2" "sec_view ?s2 = ?V1" "log_start ?s2 = log_start s1" "logged ?s2 = logged s1"
      "log_size ?s2 = log_size s1" using il by (simp_all add: upd_inode_def)
    have f1: "file_ok sb ?l ?V1 ?ip1" using p(1) ls1 by (simp add: wr_inv_def)
    have bk: "blk ?ip1 ?V1 k \<noteq> 0" if "k * BSIZE < unat (off + n)" for k
    proof (cases "k * BSIZE < unat (i_size ?ip)")
      case True
      then show ?thesis using file_okD(12) [OF f1] sz1 by simp
    next
      case False
      then show ?thesis using p(6) [of "k * BSIZE"] that ol sum by simp
    qed
    have f2: "file_ok sb ?l ?V1 ?ip2" using file_ok_resize [OF f1 _ bk] sum le by simp
    then have w2: "wr_inv sb i ?s2" using p(1) ls1 s2 by (simp add: wr_inv_def) (simp add: upd_inode_def)
    have "budget sb 1 ?s2" using s1(3) s2 by (simp add: budget_def)
    from iupdate_ok [OF w2 this, of env] obtain s3 where
      s3: "iupdate i (?s2, env) = Ok ((), s3, env)" "wr_inv sb i s3" "txn_frame ?s2 s3"
        "dec_dinode (sec_view s3 (IBLOCK (i_inum ?ip))) (64 * (unat (i_inum ?ip) mod IPB)) = dinode_of ?ip2"
        "\<And>m. unat m < ?l \<Longrightarrow> m \<noteq> IBLOCK (i_inum ?ip) \<Longrightarrow> sec_view s3 m = ?V1 m"
        "length (logged s3) < NBUF"
      unfolding s2 using sz1 ls1 by auto
    note ic3 = txn_frame_icache [OF s3(3)]
    have ip3: "icache s3 ! i = ?ip2" using ic3 s2 by simp
    have run': "writei devs i src off n (s, env) = Ok (int ?n, s3, env)"
      unfolding run using True sum s3(1) ol by (simp add: whenp_def word_less_nat_alt set_inode_def thn_run)
    have "sec_view s3 m = ?V1 m" if "m \<in> owned ?ip1 ?V1" for m
      using s3(5) file_okD(8,10) [OF f1 that] sz1 by simp
    then have "file_byte ?ip2 (sec_view s3) x = file_byte ?ip1 ?V1 x" if "x < MAXFILE * BSIZE" for x
      using data_keep(2) [of ?ip1 ?V1 "sec_view s3"] that by simp
    then have "contents ?ip2 (sec_view s3) = take ?o (contents ?ip ?V) @ take ?n src @ drop (?o + ?n) (contents ?ip ?V)"
      using True sum p(5) by (intro contents_eqI [OF _ ol src le file_okD(3) [OF f]]) auto
    moreover have "length (icache s3) = length (icache s)" using p(2) ic3 by (simp add: fs_frame_def upd_inode_def)
    moreover have "icache s3 ! j = icache s ! j" if "j \<noteq> i" for j
      using that p(2) ic3 by (simp add: fs_frame_def upd_inode_def)
    moreover have "?ip2 = ?ip\<lparr>i_addrs := i_addrs ?ip2, i_size := i_size ?ip2\<rparr>" using p(4) by simp
    moreover have "sec_view s3 m = ?V m" if "unat m < ?l" "in_use sb ?V (unat m)" "m \<notin> insert (IBLOCK (i_inum ?ip)) (bm_blocks sb \<union> owned ?ip ?V)" for m
      using that s3(5) p(3) by (simp add: others_kept_def)
    ultimately have "writei_post sb i src ?o ?n s s3"
      unfolding writei_post_def Let_def ip3 using s3(2,4) by blast
    then show ?thesis using run' s3(6) by blast
  qed
qed

text \<open>C3: inside a transaction with room for the blocks of the range, \<open>writei\<close> to a file in good order returns the number
  of bytes asked for and replaces exactly the bytes of the range, extending the file when the range passes its end.
  It allocates the direct blocks that are missing; the file stays in good order; when the file grows, the inode on disk is the
  one in memory; and every block in use that is not this file's, its inode's or the bitmap's keeps its contents.\<close>

theorem writei_replaces_file_bytes:
  fixes s :: "'a fs_st_scheme"
  assumes "wr_inv sb i s" "budget sb (nblocks (unat off) (unat n) + 1) s"
    "nblocks (unat off) (unat n) \<le> card (free_blocks sb s)" "writable (unat off) (unat n) (icache s ! i) (sec_view s)"
    "i_type (icache s ! i) \<noteq> T_DEV" "off \<le> i_size (icache s ! i)" "unat n \<le> length src"
  shows "returns (writei devs i src off n (s, env)) (\<lambda>(r, s', env').
      let ip = icache s ! i; V = sec_view s; ip' = icache s' ! i; V' = sec_view s' in
      r = int (unat n) \<and> env' = env \<and> wr_inv sb i s' \<and>
      contents ip' V' = take (unat off) (contents ip V) @ take (unat n) src @ drop (unat off + unat n) (contents ip V) \<and>
      (unat (i_size ip) < unat off + unat n \<longrightarrow>
         dec_dinode (V' (IBLOCK (i_inum ip))) (64 * (unat (i_inum ip) mod IPB)) = dinode_of ip') \<and>
      (\<forall>j. j \<noteq> i \<longrightarrow> icache s' ! j = icache s ! j) \<and>
      (\<forall>m. unat m < unat (log_start s) \<and> in_use sb V (unat m) \<and> m \<notin> insert (IBLOCK (i_inum ip)) (bm_blocks sb \<union> owned ip V)
        \<longrightarrow> V' m = V m))"
  using writei_ok [OF assms, of devs env] by (auto simp: returns_iff writei_post_def Let_def)

text \<open>C5: reading back what has just been written to a file gives the bytes written.\<close>

theorem writei_readi_roundtrip:
  fixes s :: "'a fs_st_scheme"
  assumes "wr_inv sb i s" "budget sb (nblocks (unat off) (unat n) + 1) s"
    "nblocks (unat off) (unat n) \<le> card (free_blocks sb s)" "writable (unat off) (unat n) (icache s ! i) (sec_view s)"
    "i_type (icache s ! i) \<noteq> T_DEV" "off \<le> i_size (icache s ! i)" "unat n \<le> length src"
  shows "returns (thn (writei devs i src off n) (\<lambda>_. readi devs i off n) (s, env)) (\<lambda>((r, bs), s', env').
      r = int (unat n) \<and> bs = take (unat n) src \<and> env' = env \<and> wr_inv sb i s')"
proof -
  obtain s1 where s1: "writei devs i src off n (s, env) = Ok (int (unat n), s1, env)"
    "writei_post sb i src (unat off) (unat n) s s1" "length (logged s1) < NBUF"
    using writei_ok [OF assms, of devs env] by blast
  let ?ip = "icache s ! i" and ?ip1 = "icache s1 ! i" and ?V1 = "sec_view s1"
  have p: "wr_inv sb i s1" "?ip1 = ?ip\<lparr>i_addrs := i_addrs ?ip1, i_size := i_size ?ip1\<rparr>"
    "contents ?ip1 ?V1 = take (unat off) (contents ?ip (sec_view s)) @ take (unat n) src @
       drop (unat off + unat n) (contents ?ip (sec_view s))"
    using s1(2) by (auto simp: writei_post_def Let_def)
  have ol: "unat off \<le> unat (i_size ?ip)" using assms(6) by (simp add: word_le_nat_alt)
  have sz: "unat off + unat n \<le> unat (i_size ?ip1)"
    using arg_cong [OF p(3), of length] ol assms(7) by simp
  have bs: "take (unat n) (drop (unat off) (contents ?ip1 ?V1)) = take (unat n) src"
    unfolding p(3) using ol assms(7) by simp
  have ty: "i_type ?ip1 \<noteq> T_DEV" using arg_cong [OF p(2), of i_type] assms(5) by simp
  have t: "txn s1" "alloc_disk sb s1" "i < length (icache s1)" and f: "file_ok sb (unat (log_start s1)) ?V1 ?ip1"
    using p(1) by (auto simp: wr_inv_def)
  have le: "unat off + unat n < 2 ^ 32" using sz unat_word_less32 [of "i_size ?ip1"] by simp
  have g: "\<not> off > i_size ?ip1" "\<not> off + n < off"
    using sz le by (auto simp: word_less_nat_alt unat_plus_if')
  obtain s2 where s2: "readi devs i off n (s1, env) = Ok ((int (length (take (unat n) src)), take (unat n) src), s2, env)"
    "txn s2" "sec_view s2 = ?V1" "frame s1 s2"
    using txn_reads.readi_ok [OF conjI [OF t(1) s1(3)] file_ok_readable [OF f] ty g, of devs env] unfolding bs by blast
  note fr = frame_logD(1) [OF s2(4)] frame_icache [OF s2(4)]
  have "alloc_disk sb s2" using t(2) unfolding alloc_disk_def s2(3) fr(1) .
  then have "wr_inv sb i s2" using s2(2,3) fr t(3) f by (simp add: wr_inv_def)
  moreover have "length (take (unat n) src) = unat n" using assms(7) by simp
  ultimately show ?thesis using s1(1) s2(1) by (simp add: thn_run)
qed

text \<open>An empty file on the demonstration disk.\<close>

lemma empty_demo:
  defines "s \<equiv> file_demo (demo_inode 0 [])"
  shows "wr_inv fs_demo_sb 0 s" "budget fs_demo_sb (nblocks (unat (0 :: u32)) (unat (2 :: u32)) + 1) s"
    "nblocks (unat (0 :: u32)) (unat (2 :: u32)) \<le> card (free_blocks fs_demo_sb s)"
    "writable (unat (0 :: u32)) (unat (2 :: u32)) (icache s ! 0) (sec_view s)"
proof -
  let ?ip = "demo_inode 0 []" and ?V = "sec_view s"
  have V: "?V = sec_view fs_demo" by (simp add: s_def fun_eq_iff file_demo_txn(4) fs_demo_view)
  have bm: "bm_blocks fs_demo_sb = {4}"
  proof -
    have sz: "unat (sb_size fs_demo_sb) = 20" by (simp add: fs_demo_sb_def)
    have "bm_block fs_demo_sb 0 = 4" by (rule fs_demo_bm) simp
    then show ?thesis unfolding bm_blocks_def sz using fs_demo_bm by (auto intro!: image_eqI [of _ _ 0])
  qed
  have z: "ptr ?ip W j = 0" if "j < NSLOT" for W j
    using that by (auto simp: ptr_def demo_inode_def NDIRECT_def nth_Cons')
  then have o: "owned ?ip ?V = {}" by (auto simp: owned_def)
  have "unat (IBLOCK 1) = 2" "IBLOCK 1 = 2" by (simp_all add: IBLOCK_def IPB_def)
  then have "file_ok fs_demo_sb 8 ?V ?ip"
    unfolding file_ok_def o bm using z fs_demo_in_use [of 0] fs_demo_in_use [of 2]
    by (simp add: V) (simp add: demo_inode_def NDIRECT_def)
  then show "wr_inv fs_demo_sb 0 s" unfolding s_def using file_demo_txn [of ?ip] by (simp add: wr_inv_def)
  have n: "nblocks (unat (0 :: u32)) (unat (2 :: u32)) = 1" by (simp add: nblocks_def BSIZE_def)
  show "budget fs_demo_sb (nblocks (unat (0 :: u32)) (unat (2 :: u32)) + 1) s"
    unfolding budget_def n bm s_def by (simp add: file_demo_txn(2) NBUF_def)
  have "free_blocks fs_demo_sb s = {5, 6, 7}"
    using fs_demo_in_use by (auto simp: free_blocks_def V) (auto simp: s_def)
  then show "nblocks (unat (0 :: u32)) (unat (2 :: u32)) \<le> card (free_blocks fs_demo_sb s)" unfolding n by simp
  show "writable (unat (0 :: u32)) (unat (2 :: u32)) (icache s ! 0) (sec_view s)"
    by (auto simp: writable_def MAXFILE_def NDIRECT_def BSIZE_def)
qed

theorem writei_replaces_file_bytes_witness:
  "returns (writei no_devices 0 [104, 105] 0 2 (file_demo (demo_inode 0 []), [])) (\<lambda>(r, s', _).
     r = 2 \<and> contents (icache s' ! 0) (sec_view s') = [104, 105])"
  using writei_replaces_file_bytes [OF empty_demo, of "[104, 105]" no_devices "[]"]
  by (auto simp: demo_inode_def T_FILE_def T_DEV_def contents_def Let_def elim!: returns_mono)

theorem writei_readi_roundtrip_witness:
  "returns (thn (writei no_devices 0 [104, 105] 0 2) (\<lambda>_. readi no_devices 0 0 2) (file_demo (demo_inode 0 []), []))
     (\<lambda>((r, bs), _). r = 2 \<and> bs = [104, 105])"
  using writei_readi_roundtrip [OF empty_demo, of "[104, 105]" no_devices "[]"]
  by (auto simp: demo_inode_def T_FILE_def T_DEV_def elim!: returns_mono)

end
