(* ===== verification/Directory.thy ===== *)
theory Directory
  imports Inode_Write
begin

text \<open>
  Directories of \<open>fs.c\<close> as maps from names to inode numbers. A directory is a file of entries of 16 bytes: the
  number of an inode, 0 in an unused entry, and a name of at most 14 bytes, which ends with a NUL only if it is shorter.
  \<open>dirlookup\<close> finds what the map says, and \<open>dirlink\<close> adds one name to it.
\<close>

section \<open>Names\<close>

definition dname :: "byte list \<Rightarrow> byte list" where
  "dname bs = takeWhile (\<lambda>c. c \<noteq> 0) (take DIRSIZ bs)"

abbreviation upto_nul :: "(nat \<Rightarrow> byte) \<Rightarrow> nat \<Rightarrow> nat \<Rightarrow> byte list" where
  "upto_nul p i n \<equiv> takeWhile (\<lambda>c. c \<noteq> 0) (map p [i..<i + n])"

lemma upt_shift: "[i..<i + Suc n] = i # [Suc i..<Suc i + n]"
  by (simp add: upt_conv_Cons)

lemma strncmp_from_names: "strncmp_from p q i n = 0 \<longleftrightarrow> upto_nul p i n = upto_nul q i n"
proof (induction n arbitrary: i)
  case (Suc n)
  have "uint (p i) - uint (q i) = 0 \<longleftrightarrow> p i = q i" by (simp flip: word_uint_eq_iff)
  then show ?case unfolding upt_shift using Suc.IH [of "Suc i"] by auto
qed simp

lemma strncpy_from_name: "takeWhile (\<lambda>c. c \<noteq> 0) (strncpy_from p i n) = upto_nul p i n"
proof (induction n arbitrary: i)
  case (Suc n)
  then show ?case unfolding upt_shift by simp
qed simp

lemma upto_nul_cs: "upto_nul (cs bs) 0 n = takeWhile (\<lambda>c. c \<noteq> 0) (take n bs)"
proof -
  have "map (cs bs) [0..<0 + n] = take n bs @ replicate (n - length bs) 0"
    by (rule nth_equalityI) (auto simp: cs_def nth_append)
  moreover have "takeWhile (\<lambda>c. c \<noteq> 0) (xs @ replicate i 0) = takeWhile (\<lambda>c. c \<noteq> 0) xs" for xs :: "byte list" and i
    by (induction xs) (auto simp: takeWhile_eq_Nil_iff)
  ultimately show ?thesis by simp
qed

lemma namecmp_eq: "namecmp s t = 0 \<longleftrightarrow> dname s = dname t"
  unfolding namecmp_def strncmp_def strncmp_from_names upto_nul_cs dname_def ..

lemma dname_strncpy: "dname (strncpy (cs name) DIRSIZ) = dname name"
  unfolding dname_def using strncpy_from_name [of "cs name" 0 DIRSIZ] upto_nul_cs [of name DIRSIZ]
    length_strncpy [of "cs name" DIRSIZ] by (simp add: strncpy_def)

section \<open>Directories\<close>

definition dirent :: "byte list \<Rightarrow> u16 \<times> byte list" where
  "dirent e = (rd16 e 0, dname (drop 2 e))"

definition dir_entries :: "byte list \<Rightarrow> (u16 \<times> byte list) list" where
  "dir_entries bs = map (\<lambda>k. dirent (take 16 (drop (16 * k) bs))) [0..<length bs div 16]"

definition names :: "byte list \<Rightarrow> u16 \<times> byte list \<Rightarrow> bool" where
  "names nm e \<longleftrightarrow> fst e \<noteq> 0 \<and> nm = snd e"

definition dir_find :: "byte list \<Rightarrow> byte list \<Rightarrow> nat option" where
  "dir_find bs nm = first_idx (names nm) (dir_entries bs)"

definition dir_map :: "byte list \<Rightarrow> byte list \<Rightarrow> u16 option" where
  "dir_map bs nm = map_option (\<lambda>k. fst (dir_entries bs ! k)) (dir_find bs nm)"

lemma length_dir_entries [simp]: "length (dir_entries bs) = length bs div 16"
  by (simp add: dir_entries_def)

lemma dirent_enc: "dirent (enc_dirent inum name) = (inum, dname name)"
proof -
  have "rd16 (enc_dirent inum name) 0 = inum"
    using rd16_wr16 [of 0 "[0, 0] @ strncpy (cs name) DIRSIZ" inum] by (simp add: enc_dirent_def wr16_def)
  moreover have "drop 2 (enc_dirent inum name) = strncpy (cs name) DIRSIZ" by (simp add: enc_dirent_def)
  ultimately show ?thesis by (simp add: dirent_def dname_strncpy)
qed

lemma length_enc_dirent [simp]: "length (enc_dirent inum name) = 16"
  by (simp add: enc_dirent_def DIRSIZ_def)

text \<open>An entry written over an unused one, or behind the last one.\<close>

lemma dir_entries_write:
  assumes "length bs = 16 * m" "k \<le> m" "length e = 16"
  shows "dir_entries (take (16 * k) bs @ e @ drop (16 * k + 16) bs) =
    (if k < m then (dir_entries bs)[k := dirent e] else dir_entries bs @ [dirent e])"
proof (rule nth_equalityI)
  let ?new = "take (16 * k) bs @ e @ drop (16 * k + 16) bs"
  have len: "length ?new div 16 = (if k < m then m else m + 1)" using assms by auto
  then show "length (dir_entries ?new) = length (if k < m then (dir_entries bs)[k := dirent e] else dir_entries bs @ [dirent e])"
    using assms(1) by simp
  fix j assume "j < length (dir_entries ?new)"
  then have j: "j < (if k < m then m else m + 1)" using len by simp
  have "take 16 (drop (16 * j) ?new) = (if j = k then e else take 16 (drop (16 * j) bs))"
  proof (cases j k rule: linorder_cases)
    case less
    then have "16 * j + 16 \<le> 16 * k" by simp
    then have "take 16 (drop (16 * j) (take (16 * k) bs)) = take 16 (drop (16 * j) bs)" by (simp add: drop_take min_def)
    then show ?thesis using less assms(1,2) by simp
  next
    case equal
    then show ?thesis using assms by simp
  next
    case greater
    then obtain i where i: "j = k + 1 + i" by (metis Suc_eq_plus1 less_iff_Suc_add add.commute add.left_commute)
    then have "drop (16 * j) ?new = drop (16 * i) (drop (16 * k + 16) bs)" using assms by simp
    then show ?thesis using i greater by (simp add: algebra_simps)
  qed
  then show "dir_entries ?new ! j = (if k < m then (dir_entries bs)[k := dirent e] else dir_entries bs @ [dirent e]) ! j"
    using j len assms(1) by (auto simp: dir_entries_def nth_append nth_list_update)
qed

lemma dir_map_write:
  assumes "length bs = 16 * m" "k \<le> m" "k < m \<Longrightarrow> fst (dir_entries bs ! k) = 0" "dir_map bs (dname name) = None" "inum \<noteq> 0"
  shows "dir_map (take (16 * k) bs @ enc_dirent inum name @ drop (16 * k + 16) bs) = (dir_map bs)(dname name \<mapsto> inum)"
proof
  fix nm
  let ?es = "dir_entries bs" and ?n = "(inum, dname name)"
  let ?es' = "if k < m then ?es[k := ?n] else ?es @ [?n]"
  have e: "dir_entries (take (16 * k) bs @ enc_dirent inum name @ drop (16 * k + 16) bs) = ?es'"
    using dir_entries_write [OF assms(1,2) length_enc_dirent] by (simp add: dirent_enc)
  have kl: "length ?es = m" using assms(1) by simp
  show "dir_map (take (16 * k) bs @ enc_dirent inum name @ drop (16 * k + 16) bs) nm = ((dir_map bs)(dname name \<mapsto> inum)) nm"
  proof (cases "nm = dname name")
    case True
    have "\<forall>x\<in>set ?es. \<not> names nm x" using assms(4) True by (simp add: dir_map_def dir_find_def)
    then have "first_idx (names nm) ?es' = Some k"
      using kl assms(2,5) True by (auto simp: first_idx_Some names_def nth_append nth_list_update)
    moreover have "?es' ! k = ?n" using kl assms(2) by (auto simp: nth_append)
    ultimately show ?thesis using True by (simp add: dir_map_def dir_find_def e)
  next
    case False
    then have p: "j < m \<Longrightarrow> names nm (?es' ! j) = names nm (?es ! j) \<and> (names nm (?es ! j) \<longrightarrow> ?es' ! j = ?es ! j)" "k = m \<Longrightarrow> \<not> names nm (?es' ! m)" for j
      using kl assms(3) by (auto simp: names_def nth_append nth_list_update)
    have fi: "first_idx (names nm) ?es' = first_idx (names nm) ?es"
    proof (cases "first_idx (names nm) ?es")
      case None
      then have "\<not> names nm (?es' ! j)" if "j < length ?es'" for j
        using p(1) [of j] p(2) that kl assms(2) nth_mem [of j ?es] by (cases "j < m") (auto split: if_splits simp: less_Suc_eq)
      then show ?thesis unfolding None first_idx_None by (metis in_set_conv_nth)
    next
      case (Some i)
      then have "i < m" "names nm (?es ! i)" "\<forall>j<i. \<not> names nm (?es ! j)" using kl by (auto simp: first_idx_Some)
      moreover have "m \<le> length ?es'" using kl by simp
      ultimately have "first_idx (names nm) ?es' = Some i" unfolding first_idx_Some using p(1) by auto
      then show ?thesis using Some by simp
    qed
    have same: "?es' ! i = ?es ! i" if "first_idx (names nm) ?es = Some i" for i
      using p(1) [of i] first_idx_SomeD(1,2) [OF that] kl by blast
    have "dir_map (take (16 * k) bs @ enc_dirent inum name @ drop (16 * k + 16) bs) nm = dir_map bs nm"
      unfolding dir_map_def dir_find_def e fi by (rule option.map_cong) (simp_all add: same set_eq_iff flip: elem_set)
    then show ?thesis using False by simp
  qed
qed

section \<open>Reading a directory\<close>

text \<open>A directory whose entries can be read: its size is a multiple of 16.\<close>

definition is_dir :: "nat \<Rightarrow> inode \<Rightarrow> (u32 \<Rightarrow> byte list) \<Rightarrow> bool" where
  "is_dir l ip V \<longleftrightarrow> i_type ip = T_DIR \<and> unat (i_size ip) mod 16 = 0 \<and> readable l ip V"

abbreviation nentries :: "inode \<Rightarrow> nat" where
  "nentries ip \<equiv> unat (i_size ip) div 16"

abbreviation entry_of :: "inode \<Rightarrow> (u32 \<Rightarrow> byte list) \<Rightarrow> nat \<Rightarrow> byte list" where
  "entry_of ip V k \<equiv> take 16 (drop (16 * k) (contents ip V))"

lemma is_dirD:
  assumes "is_dir l ip V"
  shows "i_type ip = T_DIR" "i_type ip \<noteq> T_DEV" "readable l ip V" "unat (i_size ip) = 16 * nentries ip" "unat (i_size ip) \<le> 71680"
  using assms by (auto simp: is_dir_def T_DIR_def T_DEV_def readable_def MAXFILE_def NDIRECT_def NINDIRECT_def BSIZE_def)

lemma entry_nth: "k < nentries ip \<Longrightarrow> dir_entries (contents ip V) ! k = dirent (entry_of ip V k)"
  by (simp add: dir_entries_def)

text \<open>The entry that a new name goes into: the first unused one, or the one behind the last.\<close>

definition free_entry :: "byte list \<Rightarrow> nat" where
  "free_entry bs = (case first_idx (\<lambda>e. fst e = 0) (dir_entries bs) of Some k \<Rightarrow> k | None \<Rightarrow> length (dir_entries bs))"

lemma free_entryD:
  "free_entry bs \<le> length bs div 16" "x < free_entry bs \<Longrightarrow> fst (dir_entries bs ! x) \<noteq> 0"
  "free_entry bs < length bs div 16 \<Longrightarrow> fst (dir_entries bs ! free_entry bs) = 0"
  using first_idx_SomeD [of "\<lambda>e. fst e = 0" "dir_entries bs"] nth_mem [of _ "dir_entries bs"]
  by (auto simp: free_entry_def split: option.splits intro: less_imp_le)

text \<open>The bytes of a directory in which entry \<open>k\<close> has been written.\<close>

definition with_entry :: "nat \<Rightarrow> u16 \<Rightarrow> byte list \<Rightarrow> byte list \<Rightarrow> byte list" where
  "with_entry k inum name bs = take (16 * k) bs @ enc_dirent inum name @ drop (16 * k + 16) bs"

text \<open>One turn of each of the two loops over the entries.\<close>

lemma dname_take [simp]: "dname (take DIRSIZ bs) = dname bs"
  by (simp add: dname_def)

lemma dirlookup_turn:
  assumes "off < n" "readi no_devices i (of_nat off) 16 (s, env) = Ok ((16, e), s1, env)"
  shows "dirlookup_loop i name n off (s, env) =
    (if names (dname name) (dirent e) then
       thn (call (iget (i_dev (icache s1 ! i)) (ucast (fst (dirent e))))) (\<lambda>j. ret (Some (j, of_nat off))) (s1, env)
     else dirlookup_loop i name n (off + 16) (s1, env))"
  using assms by (subst dirlookup_loop.simps) (simp add: thn_run names_def dirent_def namecmp_eq the_inode_def)

lemma empty_dirent_turn:
  assumes "off < n" "readi no_devices i (of_nat off) 16 (s, env) = Ok ((16, e), s1, env)"
  shows "empty_dirent i n off (s, env) = (if fst (dirent e) = 0 then Ok (off, s1, env) else empty_dirent i n (off + 16) (s1, env))"
  using assms by (subst empty_dirent.simps) (simp add: thn_run dirent_def)

context block_reads
begin

lemma read_entry:
  assumes "ok s" "is_dir (lim s) (icache s ! i) (sec_view s)" "k < nentries (icache s ! i)"
  shows "\<exists>s2. readi no_devices i (of_nat (16 * k)) 16 (s, env) = Ok ((16, entry_of (icache s ! i) (sec_view s) k), s2, env) \<and>
    ok s2 \<and> sec_view s2 = sec_view s \<and> frame s s2 \<and> lim s2 = lim s"
proof -
  let ?ip = "icache s ! i"
  note d = is_dirD [OF assms(2)]
  have k: "16 * k + 16 \<le> unat (i_size ?ip)" using assms(3) d(4) by linarith
  have o: "unat (of_nat (16 * k) :: u32) = 16 * k" using k d(5) by (intro unat_of_nat32) simp
  have le: "\<not> of_nat (16 * k) > i_size ?ip" "\<not> of_nat (16 * k) + 16 < (of_nat (16 * k) :: u32)"
    using k o d(5) by (auto simp: word_less_nat_alt unat_plus_if')
  have "length (take (unat (16 :: u32)) (drop (unat (of_nat (16 * k) :: u32)) (contents ?ip (sec_view s)))) = 16"
    unfolding o using k by simp
  then show ?thesis using readi_ok [OF assms(1) d(3,2) le, of no_devices env] unfolding o by auto
qed

text \<open>Entries that the loops pass over.\<close>

lemma dirlookup_skips:
  assumes "ok s" "is_dir (lim s) (icache s ! i) (sec_view s)" "j \<le> nentries (icache s ! i)"
    "\<And>x. x < j \<Longrightarrow> \<not> names (dname name) (dir_entries (contents (icache s ! i) (sec_view s)) ! x)"
  shows "\<exists>s2. dirlookup_loop i name (unat (i_size (icache s ! i))) 0 (s, env) = dirlookup_loop i name (unat (i_size (icache s ! i))) (16 * j) (s2, env) \<and>
    ok s2 \<and> sec_view s2 = sec_view s \<and> frame s s2 \<and> lim s2 = lim s"
  using assms(3,4)
proof (induction j)
  case 0
  show ?case using assms(1) by auto
next
  case (Suc j)
  let ?ip = "icache s ! i" and ?V = "sec_view s"
  obtain s1 where s1: "dirlookup_loop i name (unat (i_size ?ip)) 0 (s, env) = dirlookup_loop i name (unat (i_size ?ip)) (16 * j) (s1, env)"
    "ok s1" "sec_view s1 = ?V" "frame s s1" "lim s1 = lim s" using Suc by auto
  note ic = frame_icache [OF s1(4)]
  have j: "j < nentries ?ip" "16 * j < unat (i_size ?ip)" using Suc.prems(1) is_dirD(4) [OF assms(2)] by linarith+
  obtain s2 where s2: "readi no_devices i (of_nat (16 * j)) 16 (s1, env) = Ok ((16, entry_of ?ip ?V j), s2, env)"
    "ok s2" "sec_view s2 = ?V" "frame s1 s2" "lim s2 = lim s"
    using read_entry [OF s1(2), of i j env] assms(2) s1 ic j(1) by auto
  have "\<not> names (dname name) (dirent (entry_of ?ip ?V j))" using Suc.prems(2) [of j] entry_nth [OF j(1)] by simp
  then have "dirlookup_loop i name (unat (i_size ?ip)) (16 * j) (s1, env) = dirlookup_loop i name (unat (i_size ?ip)) (16 * Suc j) (s2, env)"
    using dirlookup_turn [OF j(2) s2(1), of name] by (simp add: add.commute)
  then show ?case using s1(1) s2(2,3,5) frame_trans [OF s1(4) s2(4)] by auto
qed

lemma empty_skips:
  assumes "ok s" "is_dir (lim s) (icache s ! i) (sec_view s)" "j \<le> nentries (icache s ! i)"
    "\<And>x. x < j \<Longrightarrow> fst (dir_entries (contents (icache s ! i) (sec_view s)) ! x) \<noteq> 0"
  shows "\<exists>s2. empty_dirent i (unat (i_size (icache s ! i))) 0 (s, env) = empty_dirent i (unat (i_size (icache s ! i))) (16 * j) (s2, env) \<and>
    ok s2 \<and> sec_view s2 = sec_view s \<and> frame s s2 \<and> lim s2 = lim s"
  using assms(3,4)
proof (induction j)
  case 0
  show ?case using assms(1) by auto
next
  case (Suc j)
  let ?ip = "icache s ! i" and ?V = "sec_view s"
  obtain s1 where s1: "empty_dirent i (unat (i_size ?ip)) 0 (s, env) = empty_dirent i (unat (i_size ?ip)) (16 * j) (s1, env)"
    "ok s1" "sec_view s1 = ?V" "frame s s1" "lim s1 = lim s" using Suc by auto
  note ic = frame_icache [OF s1(4)]
  have j: "j < nentries ?ip" "16 * j < unat (i_size ?ip)" using Suc.prems(1) is_dirD(4) [OF assms(2)] by linarith+
  obtain s2 where s2: "readi no_devices i (of_nat (16 * j)) 16 (s1, env) = Ok ((16, entry_of ?ip ?V j), s2, env)"
    "ok s2" "sec_view s2 = ?V" "frame s1 s2" "lim s2 = lim s"
    using read_entry [OF s1(2), of i j env] assms(2) s1 ic j(1) by auto
  have "fst (dirent (entry_of ?ip ?V j)) \<noteq> 0" using Suc.prems(2) [of j] entry_nth [OF j(1)] by simp
  then have "empty_dirent i (unat (i_size ?ip)) (16 * j) (s1, env) = empty_dirent i (unat (i_size ?ip)) (16 * Suc j) (s2, env)"
    using empty_dirent_turn [OF j(2) s2(1)] by (simp add: add.commute)
  then show ?case using s1(1) s2(2,3,5) frame_trans [OF s1(4) s2(4)] by auto
qed

lemma dirlookup_misses:
  assumes "ok s" "is_dir (lim s) (icache s ! i) (sec_view s)" "dir_find (contents (icache s ! i) (sec_view s)) (dname name) = None"
  shows "\<exists>s2. dirlookup i name (s, env) = Ok (None, s2, env) \<and> ok s2 \<and> sec_view s2 = sec_view s \<and> frame s s2 \<and> lim s2 = lim s"
proof -
  let ?ip = "icache s ! i" and ?es = "dir_entries (contents (icache s ! i) (sec_view s))"
  note d = is_dirD [OF assms(2)]
  have "\<not> names (dname name) (?es ! x)" if "x < nentries ?ip" for x
    using assms(3) that nth_mem [of x ?es] by (auto simp: dir_find_def)
  from dirlookup_skips [OF assms(1,2) order_refl this, of env]
  obtain s2 where s2: "dirlookup_loop i name (unat (i_size ?ip)) 0 (s, env) = dirlookup_loop i name (unat (i_size ?ip)) (16 * nentries ?ip) (s2, env)"
    "ok s2" "sec_view s2 = sec_view s" "frame s s2" "lim s2 = lim s" by blast
  have "dirlookup_loop i name (unat (i_size ?ip)) (16 * nentries ?ip) (s2, env) = Ok (None, s2, env)"
    unfolding d(4) [symmetric] by (subst dirlookup_loop.simps) simp
  then show ?thesis using s2 d(1) by (simp add: dirlookup_def the_inode_def)
qed

lemma dirlookup_hits:
  assumes "ok s" "is_dir (lim s) (icache s ! i) (sec_view s)" "dir_find (contents (icache s ! i) (sec_view s)) (dname name) = Some k"
  shows "\<exists>s2. dirlookup i name (s, env) = thn (call (iget (i_dev (icache s ! i)) (ucast (fst (dir_entries (contents (icache s ! i) (sec_view s)) ! k)))))
      (\<lambda>j. ret (Some (j, of_nat (16 * k)))) (s2, env) \<and> ok s2 \<and> sec_view s2 = sec_view s \<and> frame s s2 \<and> lim s2 = lim s"
proof -
  let ?ip = "icache s ! i" and ?V = "sec_view s" let ?es = "dir_entries (contents ?ip ?V)"
  note d = is_dirD [OF assms(2)]
  have k: "k < nentries ?ip" "names (dname name) (?es ! k)" "\<And>x. x < k \<Longrightarrow> \<not> names (dname name) (?es ! x)"
    using assms(3) by (auto simp: dir_find_def first_idx_Some)
  from dirlookup_skips [OF assms(1,2) less_imp_le [OF k(1)] k(3), of env]
  obtain s1 where s1: "dirlookup_loop i name (unat (i_size ?ip)) 0 (s, env) = dirlookup_loop i name (unat (i_size ?ip)) (16 * k) (s1, env)"
    "ok s1" "sec_view s1 = ?V" "frame s s1" "lim s1 = lim s" by blast
  note ic = frame_icache [OF s1(4)]
  obtain s2 where s2: "readi no_devices i (of_nat (16 * k)) 16 (s1, env) = Ok ((16, entry_of ?ip ?V k), s2, env)"
    "ok s2" "sec_view s2 = ?V" "frame s1 s2" "lim s2 = lim s"
    using read_entry [OF s1(2), of i k env] assms(2) s1 ic k(1) by auto
  have k16: "16 * k < unat (i_size ?ip)" using k(1) d(4) by linarith
  have "icache s2 = icache s" using frame_icache [OF s2(4)] ic by simp
  then have "dirlookup_loop i name (unat (i_size ?ip)) (16 * k) (s1, env) =
      thn (call (iget (i_dev ?ip) (ucast (fst (?es ! k))))) (\<lambda>j. ret (Some (j, of_nat (16 * k)))) (s2, env)"
    using dirlookup_turn [OF k16 s2(1), of name] k(2) entry_nth [OF k(1), of ?V] by simp
  then show ?thesis using s1(1) s2(2,3,5) frame_trans [OF s1(4) s2(4)] d(1) by (auto simp: dirlookup_def the_inode_def)
qed

text \<open>The scan of \<open>dirlink\<close> stops at the first unused entry, or behind the last one.\<close>

lemma empty_dirent_finds:
  assumes "ok s" "is_dir (lim s) (icache s ! i) (sec_view s)"
  shows "\<exists>k s2. empty_dirent i (unat (i_size (icache s ! i))) 0 (s, env) = Ok (16 * k, s2, env) \<and> k = free_entry (contents (icache s ! i) (sec_view s)) \<and>
    ok s2 \<and> sec_view s2 = sec_view s \<and> frame s s2 \<and> lim s2 = lim s"
proof -
  let ?ip = "icache s ! i" and ?V = "sec_view s" let ?es = "dir_entries (contents ?ip ?V)"
  note d = is_dirD [OF assms(2)]
  define k where "k = free_entry (contents ?ip ?V)"
  have k: "k \<le> nentries ?ip" "\<And>x. x < k \<Longrightarrow> fst (?es ! x) \<noteq> 0" "k < nentries ?ip \<longrightarrow> fst (?es ! k) = 0"
    using free_entryD [where bs = "contents ?ip ?V"] by (simp_all add: k_def)
  from empty_skips [OF assms k(1,2), of env]
  obtain s1 where s1: "empty_dirent i (unat (i_size ?ip)) 0 (s, env) = empty_dirent i (unat (i_size ?ip)) (16 * k) (s1, env)"
    "ok s1" "sec_view s1 = ?V" "frame s s1" "lim s1 = lim s" by blast
  note ic = frame_icache [OF s1(4)]
  show ?thesis
  proof (cases "k < nentries ?ip")
    case True
    then obtain s2 where s2: "readi no_devices i (of_nat (16 * k)) 16 (s1, env) = Ok ((16, entry_of ?ip ?V k), s2, env)"
      "ok s2" "sec_view s2 = ?V" "frame s1 s2" "lim s2 = lim s"
      using read_entry [OF s1(2), of i k env] assms(2) s1 ic by auto
    have "16 * k < unat (i_size ?ip)" using True d(4) by linarith
    from empty_dirent_turn [OF this s2(1)] show ?thesis
      using k k_def True entry_nth [OF True, of ?V] s1(1) s2(2,3,5) frame_trans [OF s1(4) s2(4)] by auto
  next
    case False
    then have e: "k = nentries ?ip" using k(1) by simp
    have "empty_dirent i (unat (i_size ?ip)) (16 * k) (s1, env) = Ok (16 * k, s1, env)"
      unfolding e d(4) [symmetric] by (subst empty_dirent.simps) simp
    then show ?thesis using k_def s1 by auto
  qed
qed

end

section \<open>Adding a name\<close>

lemma wr_inv_read:
  fixes s :: "'a fs_st_scheme"
  assumes "wr_inv sb i s" "txn s'" "sec_view s' = sec_view s" "frame s s'"
  shows "wr_inv sb i s'" "budget sb k s \<Longrightarrow> budget sb k s'" "free_blocks sb s' = free_blocks sb s"
proof -
  note fr = frame_logD [OF assms(4)] frame_icache [OF assms(4)]
  have "alloc_disk sb s'" using assms(1) unfolding wr_inv_def alloc_disk_def assms(3) fr(1) by blast
  then show "wr_inv sb i s'" using assms fr by (simp add: wr_inv_def)
  show "budget sb k s \<Longrightarrow> budget sb k s'" using fr by (simp add: budget_def logged_def)
  show "free_blocks sb s' = free_blocks sb s" using assms(3) fr by (simp add: free_blocks_def)
qed

lemma wr_inv_dir:
  assumes "wr_inv sb i s" "i_type (icache s ! i) = T_DIR" "unat (i_size (icache s ! i)) mod 16 = 0"
  shows "is_dir (unat (log_start s)) (icache s ! i) (sec_view s)"
  using assms file_ok_readable by (auto simp: wr_inv_def is_dir_def)

lemma entry_range:
  assumes "16 * k + 16 \<le> NDIRECT * BSIZE"
  shows "nblocks (16 * k) 16 = 1" "writable (16 * k) 16 ip V"
proof -
  have "(16 * k + 15) div 512 = (16 * k + 15) div 16 div 32" "16 * k div 512 = 16 * k div 16 div 32"
    using div_mult2_eq [of _ 16 32] by simp_all
  then have "(16 * k + 15) div 512 = 16 * k div 512" by simp
  then show "nblocks (16 * k) 16 = 1" by (simp add: nblocks_def BSIZE_def)
  have "x div BSIZE < NDIRECT" if "x < 16 * k + 16" for x
    using that assms by (simp add: NDIRECT_def BSIZE_def)
  then show "writable (16 * k) 16 ip V" using assms by (auto simp: writable_def MAXFILE_def NDIRECT_def NINDIRECT_def BSIZE_def)
qed

definition dirlink_post :: "superblock \<Rightarrow> nat \<Rightarrow> byte list \<Rightarrow> u16 \<Rightarrow> 'a fs_st_scheme \<Rightarrow> 'a fs_st_scheme \<Rightarrow> bool" where
  "dirlink_post sb i name inum s s' \<longleftrightarrow> (let ip = icache s ! i; V = sec_view s; ip' = icache s' ! i; V' = sec_view s' in
     wr_inv sb i s' \<and> is_dir (unat (log_start s')) ip' V' \<and>
     contents ip' V' = with_entry (free_entry (contents ip V)) inum name (contents ip V) \<and> dir_map (contents ip' V') = (dir_map (contents ip V))(dname name \<mapsto> inum) \<and>
     (\<forall>j. j \<noteq> i \<longrightarrow> icache s' ! j = icache s ! j) \<and> length (icache s') = length (icache s) \<and> i_dev ip' = i_dev ip \<and>
     (\<forall>m. unat m < unat (log_start s) \<and> in_use sb V (unat m) \<and> m \<notin> insert (IBLOCK (i_inum ip)) (bm_blocks sb \<union> owned ip V)
        \<longrightarrow> V' m = V m))"

lemma dirlink_ok:
  fixes s :: "'a fs_st_scheme"
  assumes w: "wr_inv sb i s" and b: "budget sb 2 s" and fb: "free_blocks sb s \<noteq> {}"
    and dir: "i_type (icache s ! i) = T_DIR" "unat (i_size (icache s ! i)) mod 16 = 0"
    and room: "unat (i_size (icache s ! i)) + 16 \<le> NDIRECT * BSIZE"
    and new: "dir_map (contents (icache s ! i) (sec_view s)) (dname name) = None" and inum: "ucast inum \<noteq> (0 :: u16)"
  shows "\<exists>s'. dirlink i name inum (s, env) = Ok (0, s', env) \<and> dirlink_post sb i name (ucast inum) s s' \<and> txn s' \<and> length (logged s') < NBUF"
proof -
  let ?ip = "icache s ! i" and ?V = "sec_view s" let ?c = "contents ?ip ?V"
  have t: "txn s" and il: "i < length (icache s)" using w by (auto simp: wr_inv_def)
  note d = wr_inv_dir [OF w dir]
  have ok: "txn s \<and> length (logged s) < NBUF" using t budget_room(3) [OF t b] by simp
  have miss: "dir_find ?c (dname name) = None" using new by (simp add: dir_map_def)
  obtain s1 where s1: "dirlookup i name (s, env) = Ok (None, s1, env)" "txn s1 \<and> length (logged s1) < NBUF" "sec_view s1 = ?V" "frame s s1"
    using txn_reads.dirlookup_misses [OF ok d miss, of env] by blast
  note ic1 = frame_icache [OF s1(4)] and w1 = wr_inv_read [OF w conjunct1 [OF s1(2)] s1(3,4)]
  have d1: "is_dir (unat (log_start s1)) (icache s1 ! i) (sec_view s1)" using d frame_logD(1) [OF s1(4)] ic1 s1(3) by simp
  define k where "k = free_entry ?c"
  obtain s2 where s2: "empty_dirent i (unat (i_size ?ip)) 0 (s1, env) = Ok (16 * k, s2, env)" "k \<le> nentries ?ip"
    "k < nentries ?ip \<longrightarrow> fst (dir_entries ?c ! k) = 0" "txn s2 \<and> length (logged s2) < NBUF" "sec_view s2 = ?V" "frame s1 s2"
    using txn_reads.empty_dirent_finds [OF s1(2) d1, of env] free_entryD [where bs = ?c] unfolding ic1 s1(3) k_def by auto
  have fr: "frame s s2" using frame_trans [OF s1(4) s2(6)] .
  note ic2 = frame_icache [OF fr] and w2 = wr_inv_read [OF w conjunct1 [OF s2(4)] s2(5) fr]
  have sz: "length ?c = 16 * nentries ?ip" using is_dirD(4) [OF d] by simp
  have k16: "16 * k + 16 \<le> NDIRECT * BSIZE" using s2(2) room is_dirD(4) [OF d] by linarith
  note er = entry_range [OF k16]
  let ?off = "of_nat (16 * k) :: u32"
  have off: "unat ?off = 16 * k" using k16 by (intro unat_of_nat32) (simp add: NDIRECT_def BSIZE_def)
  have n16: "unat (16 :: u32) = 16" by simp
  have o2: "?off \<le> i_size (icache s2 ! i)" using off s2(2) is_dirD(4) [OF d] ic2 by (simp add: word_le_nat_alt)
  have nb: "nblocks (unat ?off) (unat (16 :: u32)) + 1 = 2" "nblocks (unat ?off) (unat (16 :: u32)) = 1" unfolding off n16 er(1) by simp_all
  have "1 \<le> card (free_blocks sb s2)" using fb w2(3) by (simp add: Suc_le_eq card_gt_0_iff)
  then have c: "budget sb (nblocks (unat ?off) (unat (16 :: u32)) + 1) s2" "nblocks (unat ?off) (unat (16 :: u32)) \<le> card (free_blocks sb s2)"
    unfolding nb(1) unfolding nb(2) using w2(2) [OF b] by blast+
  have wt: "writable (unat ?off) (unat (16 :: u32)) (icache s2 ! i) (sec_view s2)" unfolding off n16 by (rule er(2))
  have ty: "i_type (icache s2 ! i) \<noteq> T_DEV" using dir(1) ic2 by (simp add: T_DIR_def T_DEV_def)
  obtain s3 where s3: "writei no_devices i (enc_dirent (ucast inum) name) ?off 16 (s2, env) = Ok (16, s3, env)"
    "writei_post sb i (enc_dirent (ucast inum) name) (16 * k) 16 s2 s3" "length (logged s3) < NBUF"
    using writei_ok [OF w2(1) c wt ty o2, of "enc_dirent (ucast inum) name" no_devices env] unfolding off n16 by auto
  have run: "dirlink i name inum (s, env) = Ok (0, s3, env)"
    using s1(1) s2(1) s3(1) ic1 by (simp add: dirlink_def thn_run the_inode_def)
  have p: "wr_inv sb i s3" "icache s3 ! i = ?ip\<lparr>i_addrs := i_addrs (icache s3 ! i), i_size := i_size (icache s3 ! i)\<rparr>"
    "contents (icache s3 ! i) (sec_view s3) = take (16 * k) ?c @ enc_dirent (ucast inum) name @ drop (16 * k + 16) ?c"
    "\<forall>j. j \<noteq> i \<longrightarrow> icache s3 ! j = icache s ! j" "length (icache s3) = length (icache s)"
    "\<forall>m. unat m < unat (log_start s) \<and> in_use sb ?V (unat m) \<and> m \<notin> insert (IBLOCK (i_inum ?ip)) (bm_blocks sb \<union> owned ?ip ?V)
        \<longrightarrow> sec_view s3 m = ?V m"
    using s3(2) unfolding writei_post_def Let_def ic2 s2(5) frame_logD(1) [OF fr] by auto
  have ty3: "i_type (icache s3 ! i) = T_DIR" "i_dev (icache s3 ! i) = i_dev ?ip"
    using arg_cong [OF p(2), of i_type] arg_cong [OF p(2), of i_dev] dir(1) by simp_all
  have "unat (i_size (icache s3 ! i)) = length (take (16 * k) ?c @ enc_dirent (ucast inum) name @ drop (16 * k + 16) ?c)"
    unfolding p(3) [symmetric] by simp
  then have sz3: "unat (i_size (icache s3 ! i)) mod 16 = 0"
    using s2(2) sz dir(2) by (cases "k = nentries ?ip") (auto simp: mod_eq_0_iff_dvd)
  have "dir_map (contents (icache s3 ! i) (sec_view s3)) = (dir_map ?c)(dname name \<mapsto> ucast inum)"
    unfolding p(3) using dir_map_write [OF sz s2(2) _ new inum] s2(3) by simp
  moreover have "txn s3" using p(1) by (simp add: wr_inv_def)
  ultimately show ?thesis
    using run s3(3) p(1,3-6) ty3(2) wr_inv_dir [OF p(1) ty3(1) sz3] unfolding k_def
    by (auto simp: dirlink_post_def with_entry_def Let_def)
qed

text \<open>C6: inside a transaction with room for two blocks, on a disk with a free block and in good order (\<open>wr_inv\<close>), \<open>dirlink\<close> of a name that is not there
  yet, with an inode number that is not 0 modulo \<open>2^16\<close>, into a directory of whole entries with room for one more in its
  direct blocks (size + 16 at most 12 blocks) writes exactly one entry: the first unused one, or, if all are used, the one behind the last. So it adds
  exactly that name with its number (16 bits of it) to the directory; the directory stays in good order, no other cached inode changes, and
  every block in use that is not the directory's, its inode's or the bitmap's keeps its contents.\<close>

theorem dirlink_adds_name:
  fixes s :: "'a fs_st_scheme"
  assumes "wr_inv sb i s" "budget sb 2 s" "free_blocks sb s \<noteq> {}" "i_type (icache s ! i) = T_DIR" "unat (i_size (icache s ! i)) mod 16 = 0"
    "unat (i_size (icache s ! i)) + 16 \<le> NDIRECT * BSIZE"
    "dir_map (contents (icache s ! i) (sec_view s)) (dname name) = None" "ucast inum \<noteq> (0 :: u16)"
  shows "returns (dirlink i name inum (s, env)) (\<lambda>(r, s', env').
      let ip = icache s ! i; V = sec_view s; ip' = icache s' ! i; V' = sec_view s' in
      r = 0 \<and> env' = env \<and> wr_inv sb i s' \<and> is_dir (unat (log_start s')) ip' V' \<and>
      contents ip' V' = with_entry (free_entry (contents ip V)) (ucast inum) name (contents ip V) \<and>
      dir_map (contents ip' V') = (dir_map (contents ip V))(dname name \<mapsto> ucast inum) \<and>
      (\<forall>j. j \<noteq> i \<longrightarrow> icache s' ! j = icache s ! j) \<and>
      (\<forall>m. unat m < unat (log_start s) \<and> in_use sb V (unat m) \<and> m \<notin> insert (IBLOCK (i_inum ip)) (bm_blocks sb \<union> owned ip V)
        \<longrightarrow> V' m = V m))"
  using dirlink_ok [OF assms, of env] by (auto simp: returns_iff dirlink_post_def Let_def)

lemma iget_ok:
  assumes "held s = []" "\<exists>ip\<in>set (icache s). i_ref ip = 0 \<or> i_ref ip > 0 \<and> i_dev ip = dev \<and> i_inum ip = inum"
  shows "\<exists>j s'. iget dev inum s = Ok (j, s') \<and> j < length (icache s') \<and> i_dev (icache s' ! j) = dev \<and> i_inum (icache s' ! j) = inum \<and>
    i_ref (icache s' ! j) > 0 \<and> (\<forall>k. k \<noteq> j \<longrightarrow> icache s' ! k = icache s ! k)"
proof (cases "first_idx (\<lambda>ip. i_ref ip > 0 \<and> i_dev ip = dev \<and> i_inum ip = inum) (icache s)")
  case (Some j)
  note f = first_idx_SomeD [OF Some]
  show ?thesis using Some f(1,2) assms(1) by (simp add: iget_def upd_inode_def)
next
  case None
  then have "first_idx (\<lambda>ip. i_ref ip = 0) (icache s) \<noteq> None" using assms(2) by auto
  then obtain j where j: "first_idx (\<lambda>ip. i_ref ip = 0) (icache s) = Some j" by blast
  show ?thesis using None j first_idx_SomeD(1) [OF j] assms(1) by (simp add: iget_def upd_inode_def del: first_idx_None)
qed

text \<open>C7: a name that has just been linked into a directory is found there: \<open>dirlookup\<close> after \<open>dirlink\<close> returns a cached
  inode with the number that was linked, as long as the inode cache has room for it.\<close>

theorem dirlink_dirlookup_roundtrip:
  fixes s :: "'a fs_st_scheme"
  assumes "wr_inv sb i s" "budget sb 2 s" "free_blocks sb s \<noteq> {}" "i_type (icache s ! i) = T_DIR" "unat (i_size (icache s ! i)) mod 16 = 0"
    "unat (i_size (icache s ! i)) + 16 \<le> NDIRECT * BSIZE"
    "dir_map (contents (icache s ! i) (sec_view s)) (dname name) = None" "ucast inum \<noteq> (0 :: u16)"
    "f < length (icache s)" "f \<noteq> i" "i_ref (icache s ! f) = 0"
  shows "returns (thn (dirlink i name inum) (\<lambda>_. dirlookup i name) (s, env)) (\<lambda>(found, s', env'). env' = env \<and>
      (\<exists>j off. found = Some (j, off) \<and> j < length (icache s') \<and> i_ref (icache s' ! j) > 0 \<and>
        i_dev (icache s' ! j) = i_dev (icache s ! i) \<and> i_inum (icache s' ! j) = ucast (ucast inum :: u16)))"
proof -
  obtain s1 where s1: "dirlink i name inum (s, env) = Ok (0, s1, env)" "dirlink_post sb i name (ucast inum) s s1" "txn s1 \<and> length (logged s1) < NBUF"
    using dirlink_ok [OF assms(1-8), of env] by blast
  let ?ip = "icache s1 ! i" and ?V = "sec_view s1"
  have p: "is_dir (unat (log_start s1)) ?ip ?V" "dir_map (contents ?ip ?V) (dname name) = Some (ucast inum)"
    "icache s1 ! f = icache s ! f" "length (icache s1) = length (icache s)" "i_dev ?ip = i_dev (icache s ! i)"
    using s1(2) assms(10) by (auto simp: dirlink_post_def Let_def)
  obtain k where k: "dir_find (contents ?ip ?V) (dname name) = Some k" "fst (dir_entries (contents ?ip ?V) ! k) = ucast inum"
    using p(2) by (auto simp: dir_map_def)
  obtain s2 where s2: "dirlookup i name (s1, env) = thn (call (iget (i_dev ?ip) (ucast (ucast inum :: u16)))) (\<lambda>j. ret (Some (j, of_nat (16 * k)))) (s2, env)"
    "txn s2" "frame s1 s2" using txn_reads.dirlookup_hits [OF s1(3) p(1) k(1), of env] unfolding k(2) by blast
  have "held s2 = []" using s2(2) by (simp add: txn_def quietD(2))
  moreover have "icache s1 ! f \<in> set (icache s2)" using frame_icache [OF s2(3)] p(4) assms(9) by (metis nth_mem)
  ultimately obtain j s3 where "iget (i_dev ?ip) (ucast (ucast inum :: u16)) s2 = Ok (j, s3)" "j < length (icache s3)"
    "i_dev (icache s3 ! j) = i_dev ?ip" "i_inum (icache s3 ! j) = ucast (ucast inum :: u16)" "i_ref (icache s3 ! j) > 0"
    using iget_ok [of s2 "i_dev ?ip" "ucast (ucast inum :: u16)"] p(3) assms(11) by metis
  then show ?thesis using s1(1) s2(1) p(5) by (simp add: thn_run call_def returns_iff)
qed

text \<open>An empty directory on the demonstration disk, and a free slot in the inode cache.\<close>

definition dir_demo :: fs_st where
  "dir_demo = (file_demo (demo_inode 0 []))\<lparr>icache := [(demo_inode 0 [])\<lparr>i_type := T_DIR\<rparr>, (demo_inode 0 [])\<lparr>i_ref := 0\<rparr>]\<rparr>"

lemma type_indep: "file_ok sb l V (ip\<lparr>i_type := ty\<rparr>) = file_ok sb l V ip"
proof -
  have "ptr (ip\<lparr>i_type := ty\<rparr>) = ptr ip" by (simp add: ptr_def fun_eq_iff)
  then have "blk (ip\<lparr>i_type := ty\<rparr>) = blk ip" "owned (ip\<lparr>i_type := ty\<rparr>) = owned ip" "ptr (ip\<lparr>i_type := ty\<rparr>) = ptr ip"
    by (simp_all add: blk_def owned_def fun_eq_iff)
  then show ?thesis by (simp add: file_ok_def)
qed

lemma dir_demo_ok:
  "wr_inv fs_demo_sb 0 dir_demo" "budget fs_demo_sb 2 dir_demo" "free_blocks fs_demo_sb dir_demo \<noteq> {}"
  "dir_map (contents (icache dir_demo ! 0) (sec_view dir_demo)) nm = None"
proof -
  have n: "nblocks (unat (0 :: u32)) (unat (2 :: u32)) = 1" by (simp add: nblocks_def BSIZE_def)
  show "wr_inv fs_demo_sb 0 dir_demo" using empty_demo(1) by (simp add: dir_demo_def wr_inv_def type_indep)
  show "budget fs_demo_sb 2 dir_demo" using empty_demo(2) unfolding n by (simp add: dir_demo_def budget_def)
  have "free_blocks fs_demo_sb dir_demo = free_blocks fs_demo_sb (file_demo (demo_inode 0 []))" by (simp add: dir_demo_def)
  then show "free_blocks fs_demo_sb dir_demo \<noteq> {}" using empty_demo(3) unfolding n by auto
  show "dir_map (contents (icache dir_demo ! 0) (sec_view dir_demo)) nm = None"
    by (simp add: dir_demo_def demo_inode_def contents_def dir_map_def dir_find_def dir_entries_def)
qed

theorem dirlink_adds_name_witness:
  "returns (dirlink 0 [97] 7 (dir_demo, [])) (\<lambda>(r, s', _). r = 0 \<and> dir_map (contents (icache s' ! 0) (sec_view s')) [97] = Some 7)"
  using dirlink_adds_name [OF dir_demo_ok(1-3) _ _ _ dir_demo_ok(4), of 7 "[97]" "[]"]
  by (auto simp: dir_demo_def demo_inode_def NDIRECT_def BSIZE_def dname_def DIRSIZ_def Let_def elim!: returns_mono)

theorem dirlink_dirlookup_roundtrip_witness:
  "returns (thn (dirlink 0 [97] 7) (\<lambda>_. dirlookup 0 [97]) (dir_demo, [])) (\<lambda>(found, s', _).
     \<exists>j off. found = Some (j, off) \<and> i_inum (icache s' ! j) = 7)"
  using dirlink_dirlookup_roundtrip [OF dir_demo_ok(1-3) _ _ _ dir_demo_ok(4), of 7 1 "[97]" "[]"]
  by (auto simp: dir_demo_def demo_inode_def NDIRECT_def BSIZE_def elim!: returns_mono)

end
