(* ===== verification/Namei.thy ===== *)
theory Namei
  imports Directory
begin

text \<open>
  The inode cache of \<open>fs.c\<close> and the lookup of paths. The cache keeps a reference count for every inode number; \<open>iget\<close>, \<open>ilock\<close>,
  \<open>iunlock\<close> and \<open>iput\<close> are described by what they do to these counts. \<open>namex\<close> walks along the elements of a path as the directories
  on the disk say, and drops every reference that it takes on the way but the last.
\<close>

section \<open>The inode cache\<close>

definition disk_dinode :: "(u32 \<Rightarrow> byte list) \<Rightarrow> u32 \<Rightarrow> dinode" where
  "disk_dinode V n = dec_dinode (V (IBLOCK n)) (64 * (unat n mod IPB))"

definition with_dinode :: "inode \<Rightarrow> dinode \<Rightarrow> inode" where
  "with_dinode ip di = ip\<lparr>i_type := di_type di, i_major := di_major di, i_minor := di_minor di,
     i_nlink := di_nlink di, i_size := di_size di, i_addrs := di_addrs di\<rparr>"

lemma with_dinode_simps [simp]:
  "i_dev (with_dinode ip di) = i_dev ip" "i_inum (with_dinode ip di) = i_inum ip" "i_ref (with_dinode ip di) = i_ref ip"
  "i_busy (with_dinode ip di) = i_busy ip" "i_valid (with_dinode ip di) = i_valid ip" "dinode_of (with_dinode ip di) = di"
  "i_type (with_dinode ip di) = di_type di" "with_dinode ip (dinode_of ip) = ip"
  "(with_dinode ip di)\<lparr>i_valid := v\<rparr> = with_dinode (ip\<lparr>i_valid := v\<rparr>) di"
  by (simp_all add: with_dinode_def dinode_of_def)

definition refc :: "inode list \<Rightarrow> u32 \<Rightarrow> int" where
  "refc ic n = (\<Sum>ip\<leftarrow>ic. if i_inum ip = n then i_ref ip else 0)"

text \<open>
  A cache in good order: no inode is in two entries, what has been read agrees with the disk, and the
  entries that are locked are those in \<open>B\<close>.
\<close>

definition icache_ok :: "(u32 \<Rightarrow> byte list) \<Rightarrow> nat set \<Rightarrow> inode list \<Rightarrow> bool" where
  "icache_ok V B ic \<longleftrightarrow> (\<forall>i<length ic. 0 \<le> i_ref (ic ! i)) \<and>
     (\<forall>i<length ic. \<forall>j<length ic. i_ref (ic ! i) > 0 \<and> i_ref (ic ! j) > 0 \<and> i_inum (ic ! i) = i_inum (ic ! j) \<longrightarrow> i = j) \<and>
     (\<forall>i<length ic. i_ref (ic ! i) > 0 \<longrightarrow> i_dev (ic ! i) = 1 \<and> (i_busy (ic ! i) \<longleftrightarrow> i \<in> B) \<and>
        (i_valid (ic ! i) \<longrightarrow> dinode_of (ic ! i) = disk_dinode V (i_inum (ic ! i))))"

lemma icache_okD:
  assumes "icache_ok V B ic" "i < length ic"
  shows "0 \<le> i_ref (ic ! i)" "j < length ic \<Longrightarrow> i_ref (ic ! i) > 0 \<Longrightarrow> i_ref (ic ! j) > 0 \<Longrightarrow> i_inum (ic ! i) = i_inum (ic ! j) \<Longrightarrow> i = j"
    "i_ref (ic ! i) > 0 \<Longrightarrow> i_dev (ic ! i) = 1" "i_ref (ic ! i) > 0 \<Longrightarrow> i_busy (ic ! i) \<longleftrightarrow> i \<in> B"
    "i_ref (ic ! i) > 0 \<Longrightarrow> i_valid (ic ! i) \<Longrightarrow> dinode_of (ic ! i) = disk_dinode V (i_inum (ic ! i))"
  using assms by (auto simp: icache_ok_def)

lemma icache_ok_update:
  assumes "icache_ok V B ic" "0 \<le> i_ref ip" "B' - {i} = B - {i}"
    "i_ref ip > 0 \<Longrightarrow> i_dev ip = 1 \<and> (i_busy ip \<longleftrightarrow> i \<in> B') \<and> (i_valid ip \<longrightarrow> dinode_of ip = disk_dinode V (i_inum ip))"
    "\<And>j. i_ref ip > 0 \<Longrightarrow> j < length ic \<Longrightarrow> j \<noteq> i \<Longrightarrow> i_ref (ic ! j) > 0 \<Longrightarrow> i_inum (ic ! j) \<noteq> i_inum ip"
  shows "icache_ok V B' (ic[i := ip])"
proof -
  let ?ic = "ic[i := ip]"
  have B: "k \<in> B' \<longleftrightarrow> k \<in> B" if "k \<noteq> i" for k using assms(3) that by blast
  have "0 \<le> i_ref (?ic ! k)" if "k < length ic" for k using icache_okD(1) [OF assms(1) that] assms(2) that by (cases "k = i") auto
  moreover have "k = j" if "k < length ic" "j < length ic" "i_ref (?ic ! k) > 0" "i_ref (?ic ! j) > 0" "i_inum (?ic ! k) = i_inum (?ic ! j)" for k j
    using icache_okD(2) [OF assms(1) that(1,2)] assms(5) [of k] assms(5) [of j] that by (cases "k = i"; cases "j = i") auto
  moreover have "i_dev (?ic ! k) = 1 \<and> (i_busy (?ic ! k) \<longleftrightarrow> k \<in> B') \<and> (i_valid (?ic ! k) \<longrightarrow> dinode_of (?ic ! k) = disk_dinode V (i_inum (?ic ! k)))"
    if "k < length ic" "i_ref (?ic ! k) > 0" for k
    using icache_okD(3-5) [OF assms(1) that(1)] assms(4) B [of k] that by (cases "k = i") auto
  ultimately show ?thesis unfolding icache_ok_def length_list_update by blast
qed

lemma icache_ok_touch:
  assumes "icache_ok V B ic" "i < length ic" "i_ref (ic ! i) > 0" "i_dev ip = i_dev (ic ! i)" "i_inum ip = i_inum (ic ! i)" "0 \<le> i_ref ip"
    "i_valid ip \<Longrightarrow> dinode_of ip = disk_dinode V (i_inum ip)" "B' - {i} = B - {i}" "i_ref ip > 0 \<Longrightarrow> i_busy ip \<longleftrightarrow> i \<in> B'"
  shows "icache_ok V B' (ic[i := ip])"
proof (rule icache_ok_update [OF assms(1,6,8)])
  show "i_inum (ic ! j) \<noteq> i_inum ip" if "i_ref ip > 0" "j < length ic" "j \<noteq> i" "i_ref (ic ! j) > 0" for j
    using icache_okD(2) [OF assms(1,2) that(2) assms(3) that(4)] that(3) assms(5) by auto
qed (use icache_okD(3) [OF assms(1-3)] assms(4,7,9) in auto)

lemma refc_update:
  "i < length ic \<Longrightarrow> refc (ic[i := ip]) n =
     refc ic n - (if i_inum (ic ! i) = n then i_ref (ic ! i) else 0) + (if i_inum ip = n then i_ref ip else 0)"
  by (induction ic arbitrary: i) (auto simp: refc_def nth_Cons split: nat.splits)

lemma refc_nonneg: "icache_ok V B ic \<Longrightarrow> 0 \<le> refc ic n"
  unfolding refc_def by (rule sum_list_nonneg) (auto simp: in_set_conv_nth icache_okD(1))

lemma refc_zero: "(\<And>i. i < length ic \<Longrightarrow> i_inum (ic ! i) = n \<Longrightarrow> i_ref (ic ! i) = 0) \<Longrightarrow> refc ic n = 0"
proof (induction ic)
  case (Cons ip ic)
  have "i_inum ip = n \<Longrightarrow> i_ref ip = 0" using Cons.prems [of 0] by simp
  moreover have "refc ic n = 0" using Cons.prems [of "Suc _"] by (intro Cons.IH) simp
  ultimately show ?case by (simp add: refc_def)
qed (simp add: refc_def)

lemma refc_pos:
  assumes "icache_ok V B ic"
  shows "0 < refc ic n \<longleftrightarrow> (\<exists>i<length ic. 0 < i_ref (ic ! i) \<and> i_inum (ic ! i) = n)"
proof
  assume "0 < refc ic n"
  then obtain i where "i < length ic" "i_inum (ic ! i) = n" "i_ref (ic ! i) \<noteq> 0" using refc_zero [of ic n] by auto
  then show "\<exists>i<length ic. 0 < i_ref (ic ! i) \<and> i_inum (ic ! i) = n" using icache_okD(1) [OF assms, of i] by (intro exI [of _ i]) auto
next
  assume "\<exists>i<length ic. 0 < i_ref (ic ! i) \<and> i_inum (ic ! i) = n"
  then obtain i where i: "i < length ic" "0 < i_ref (ic ! i)" "i_inum (ic ! i) = n" by blast
  have "icache_ok V B (ic[i := (ic ! i)\<lparr>i_ref := 0\<rparr>])" by (rule icache_ok_update [OF assms]) simp_all
  from refc_nonneg [OF this, of n] show "0 < refc ic n" using refc_update [OF i(1), of "(ic ! i)\<lparr>i_ref := 0\<rparr>" n] i(2,3) by simp
qed

lemma refc_entry:
  assumes "icache_ok V B ic" "i < length ic" "0 < i_ref (ic ! i)"
  shows "refc ic (i_inum (ic ! i)) = i_ref (ic ! i)"
proof -
  let ?ic = "ic[i := (ic ! i)\<lparr>i_ref := 0\<rparr>]"
  have "icache_ok V B ?ic" by (rule icache_ok_update [OF assms(1)]) simp_all
  moreover have "\<not> (\<exists>j<length ?ic. 0 < i_ref (?ic ! j) \<and> i_inum (?ic ! j) = i_inum (ic ! i))"
    using icache_okD(2) [OF assms(1,2) _ assms(3)] assms(2) by (auto simp: nth_list_update split: if_splits)
  ultimately have "refc ?ic (i_inum (ic ! i)) = 0" using refc_pos refc_nonneg by (metis order.order_iff_strict)
  then show ?thesis using refc_update [OF assms(2), of "(ic ! i)\<lparr>i_ref := 0\<rparr>"] by simp
qed

text \<open>As long as fewer inodes are in use than the cache has entries, there is a free one.\<close>

lemma free_entry:
  assumes "icache_ok V B ic" "card {n. 0 < refc ic n} < length ic"
  shows "\<exists>ip\<in>set ic. i_ref ip = 0"
proof (rule ccontr)
  assume "\<not> (\<exists>ip\<in>set ic. i_ref ip = 0)"
  then have pos: "0 < i_ref (ic ! i)" if "i < length ic" for i using icache_okD(1) [OF assms(1) that] that nth_mem by fastforce
  then have "distinct (map i_inum ic)" using icache_okD(2) [OF assms(1)] by (auto simp: distinct_conv_nth)
  moreover have "{n. 0 < refc ic n} = set (map i_inum ic)" using refc_pos [OF assms(1)] pos by (force simp: set_conv_nth)
  ultimately show False using assms(2) distinct_card [of "map i_inum ic"] by simp
qed

lemma held_nil: "held s = [] \<Longrightarrow> s\<lparr>held := []\<rparr> = s" for s :: "'a lock_st_scheme"
  by (cases s) simp

text \<open>\<open>iget\<close> adds one reference.\<close>

definition gets_ref :: "(u32 \<Rightarrow> byte list) \<Rightarrow> nat set \<Rightarrow> u32 \<Rightarrow> nat \<Rightarrow> inode list \<Rightarrow> inode list \<Rightarrow> bool" where
  "gets_ref V B n j ic ic' \<longleftrightarrow> icache_ok V B ic' \<and> length ic' = length ic \<and> j < length ic \<and> i_inum (ic' ! j) = n \<and> i_ref (ic' ! j) > 0 \<and>
     refc ic' = (refc ic)(n := refc ic n + 1) \<and> (\<forall>i<length ic. i_ref (ic ! i) > 0 \<longrightarrow> ic' ! i = (ic ! i)\<lparr>i_ref := i_ref (ic' ! i)\<rparr> \<and> i_ref (ic' ! i) > 0)"

lemma gets_ref_hit:
  assumes "icache_ok V B ic" "j < length ic" "i_ref (ic ! j) > 0"
  shows "gets_ref V B (i_inum (ic ! j)) j ic (ic[j := (ic ! j)\<lparr>i_ref := i_ref (ic ! j) + 1\<rparr>])"
proof -
  let ?ip = "(ic ! j)\<lparr>i_ref := i_ref (ic ! j) + 1\<rparr>"
  have "dinode_of ?ip = dinode_of (ic ! j)" by (simp add: dinode_of_def)
  then have "icache_ok V B (ic[j := ?ip])"
    using icache_okD [OF assms(1,2)] assms(3) by (intro icache_ok_touch [OF assms]) simp_all
  moreover have "refc (ic[j := ?ip]) = (refc ic)(i_inum (ic ! j) := refc ic (i_inum (ic ! j)) + 1)"
    using refc_update [OF assms(2), of ?ip] by (auto simp: fun_eq_iff)
  ultimately show ?thesis using assms(2,3) unfolding gets_ref_def by (auto simp: nth_list_update)
qed

lemma gets_ref_new:
  assumes "icache_ok V B ic" "j < length ic" "i_ref (ic ! j) = 0" "j \<notin> B" "\<not> 0 < refc ic n"
  shows "gets_ref V B n j ic (ic[j := (ic ! j)\<lparr>i_dev := 1, i_inum := n, i_ref := 1, i_busy := False, i_valid := False\<rparr>])"
proof -
  let ?ip = "(ic ! j)\<lparr>i_dev := 1, i_inum := n, i_ref := 1, i_busy := False, i_valid := False\<rparr>"
  have "icache_ok V B (ic[j := ?ip])"
    using refc_pos [OF assms(1), of n] assms(4,5) by (intro icache_ok_update [OF assms(1)]) auto
  moreover have "refc (ic[j := ?ip]) = (refc ic)(n := refc ic n + 1)" using refc_update [OF assms(2), of ?ip] assms(3) by (auto simp: fun_eq_iff)
  ultimately show ?thesis using assms(2,3) unfolding gets_ref_def by (auto simp: nth_list_update)
qed

lemma iget_refc:
  fixes s :: "'a fs_st_scheme"
  assumes "icache_ok V B (icache s)" "held s = []" "card {m. 0 < refc (icache s) m} < length (icache s)" "\<forall>i\<in>B. i_ref (icache s ! i) > 0"
  shows "\<exists>j ic'. iget 1 n s = Ok (j, s\<lparr>icache := ic'\<rparr>) \<and> gets_ref V B n j (icache s) ic'"
proof (cases "first_idx (\<lambda>ip. i_ref ip > 0 \<and> i_dev ip = 1 \<and> i_inum ip = n) (icache s)")
  case (Some j)
  note f = first_idx_SomeD [OF Some]
  show ?thesis using Some gets_ref_hit [OF assms(1) f(1)] f(2) assms(2)
    by (intro exI [of _ j] exI) (auto simp: iget_def upd_inode_def held_nil)
next
  case None
  obtain j where j: "first_idx (\<lambda>ip. i_ref ip = 0) (icache s) = Some j"
    using free_entry [OF assms(1,3)] by (cases "first_idx (\<lambda>ip. i_ref ip = 0) (icache s)") auto
  note f = first_idx_SomeD [OF j]
  have "\<not> 0 < refc (icache s) n"
    using None refc_pos [OF assms(1), of n] icache_okD(3) [OF assms(1)] unfolding first_idx_None by (metis nth_mem)
  moreover have "j \<notin> B" using assms(4) f(2) by auto
  ultimately show ?thesis using None j gets_ref_new [OF assms(1) f(1,2)] assms(2)
    by (intro exI [of _ j] exI) (auto simp: iget_def upd_inode_def held_nil simp del: first_idx_None)
qed

text \<open>\<open>iput\<close> drops one, if the inode has a link; \<open>iunlock\<close> and \<open>iput\<close> together do so for an inode that is locked.\<close>

abbreviation put_entry :: "inode \<Rightarrow> inode" where
  "put_entry ip \<equiv> ip\<lparr>i_busy := False, i_ref := i_ref ip - 1\<rparr>"

lemma put_ref:
  assumes "icache_ok V B ic" "i < length ic" "i_ref (ic ! i) > 0" "B \<subseteq> {i}"
  shows "icache_ok V {} (ic[i := put_entry (ic ! i)])"
    "refc (ic[i := put_entry (ic ! i)]) = (refc ic)(i_inum (ic ! i) := refc ic (i_inum (ic ! i)) - 1)"
proof -
  have "dinode_of (put_entry (ic ! i)) = dinode_of (ic ! i)" by (simp add: dinode_of_def)
  then show "icache_ok V {} (ic[i := put_entry (ic ! i)])"
    using icache_okD [OF assms(1,2)] assms(3,4) by (intro icache_ok_touch [OF assms(1-3)]) auto
  show "refc (ic[i := put_entry (ic ! i)]) = (refc ic)(i_inum (ic ! i) := refc ic (i_inum (ic ! i)) - 1)"
    using refc_update [OF assms(2), of "put_entry (ic ! i)"] by (auto simp: fun_eq_iff)
qed

lemma iput_run:
  fixes s :: "'a fs_st_scheme"
  assumes "held s = []" "\<not> (i_ref (icache s ! i) = 1 \<and> i_valid (icache s ! i) \<and> i_nlink (icache s ! i) = 0)" "\<not> i_busy (icache s ! i)"
  shows "iput i (s, env) = Ok ((), s\<lparr>icache := (icache s)[i := put_entry (icache s ! i)]\<rparr>, env)"
proof -
  have "(icache s ! i)\<lparr>i_ref := i_ref (icache s ! i) - 1\<rparr> = put_entry (icache s ! i)" using assms(3) by (cases "icache s ! i") simp
  then show ?thesis using assms(1,2)
    by (cases "i_ref (icache s ! i) = 1"; cases "i_valid (icache s ! i)") (simp_all add: iput_def the_inode_def set_inode_def upd_inode_def held_nil)
qed

lemma iunlock_run:
  fixes s :: "'a fs_st_scheme"
  assumes "held s = []" "i_busy (icache s ! i)" "i_ref (icache s ! i) > 0"
  shows "\<exists>ps. iunlock i s = Ok (s\<lparr>procs := ps, icache := (icache s)[i := (icache s ! i)\<lparr>i_busy := False\<rparr>]\<rparr>)"
  using assms by (simp add: iunlock_def wakeup_def wakeup1_def upd_inode_def) (cases s, auto)

lemma iunlockput_run:
  fixes s :: "'a fs_st_scheme"
  assumes "held s = []" "i < length (icache s)" "i_busy (icache s ! i)" "i_ref (icache s ! i) > 0" "i_nlink (icache s ! i) \<noteq> 0"
  shows "\<exists>ps. iunlockput i (s, env) = Ok ((), s\<lparr>procs := ps, icache := (icache s)[i := put_entry (icache s ! i)]\<rparr>, env)"
proof -
  obtain ps where u: "iunlock i s = Ok (s\<lparr>procs := ps, icache := (icache s)[i := (icache s ! i)\<lparr>i_busy := False\<rparr>]\<rparr>)"
    using iunlock_run [OF assms(1,3,4)] by blast
  show ?thesis using iput_run [of "s\<lparr>procs := ps, icache := (icache s)[i := (icache s ! i)\<lparr>i_busy := False\<rparr>]\<rparr>" i env] assms u
    by (intro exI [of _ ps]) (simp add: iunlockput_def)
qed

section \<open>Locking an inode\<close>

lemma brelse_icache:
  fixes s :: "'a fs_st_scheme"
  assumes "brelse b s = Ok t"
  shows "brelse b (s\<lparr>icache := ic\<rparr>) = Ok (t\<lparr>icache := ic\<rparr>)"
  using assms by (auto simp: brelse_def Let_def wakeup_def wakeup1_def upd_buf_def lock_def unlock_def split: if_splits)

lemma fs_view_upd [simp]:
  fixes s :: "'a fs_st_scheme"
  shows "sec_view (s\<lparr>icache := ic\<rparr>) = sec_view s" "sec_view (s\<lparr>procs := ps\<rparr>) = sec_view s"
  by (rule log_view_cong(1); simp)+

definition locked_entry :: "(u32 \<Rightarrow> byte list) \<Rightarrow> inode \<Rightarrow> inode" where
  "locked_entry V ip = with_dinode (ip\<lparr>i_busy := True, i_valid := True\<rparr>) (disk_dinode V (i_inum ip))"

lemma locked_entry_simps [simp]:
  "i_busy (locked_entry V ip)" "i_valid (locked_entry V ip)" "i_ref (locked_entry V ip) = i_ref ip" "i_inum (locked_entry V ip) = i_inum ip"
  "i_dev (locked_entry V ip) = i_dev ip" "dinode_of (locked_entry V ip) = disk_dinode V (i_inum ip)" "i_type (locked_entry V ip) = di_type (disk_dinode V (i_inum ip))"
  "i_nlink (locked_entry V ip) = di_nlink (disk_dinode V (i_inum ip))"
  by (simp_all add: locked_entry_def) (simp add: with_dinode_def)

text \<open>What a lookup needs besides the reading of blocks: that changes of the inode cache and of the sleepers leave the blocks alone.\<close>

locale path_reads = block_reads ok lim for ok :: "'a fs_st_scheme \<Rightarrow> bool" and lim :: "'a fs_st_scheme \<Rightarrow> nat" +
  assumes ok_held: "ok s \<Longrightarrow> held s = []"
    and ok_icache: "ok s \<Longrightarrow> ok (s\<lparr>icache := ic\<rparr>)"
    and ok_procs: "ok s \<Longrightarrow> ok (s\<lparr>procs := ps\<rparr>)"
    and lim_upd: "lim (s\<lparr>icache := ic\<rparr>) = lim s" "lim (s\<lparr>procs := ps\<rparr>) = lim s"
begin

lemma ilock_ok:
  assumes "ok s" "icache_ok (sec_view s) {} (icache s)" "i < length (icache s)" "i_ref (icache s ! i) > 0"
    "unat (IBLOCK (i_inum (icache s ! i))) < lim s" "di_type (disk_dinode (sec_view s) (i_inum (icache s ! i))) \<noteq> 0"
  shows "\<exists>s'. ilock i (s, env) = Ok ((), s', env) \<and> ok s' \<and> sec_view s' = sec_view s \<and> lim s' = lim s \<and>
    icache s' = (icache s)[i := locked_entry (sec_view s) (icache s ! i)]"
proof -
  let ?ip = "icache s ! i" and ?V = "sec_view s" let ?ip1 = "?ip\<lparr>i_busy := True\<rparr>"
  let ?s1 = "s\<lparr>icache := (icache s)[i := ?ip1]\<rparr>"
  note c = icache_okD(3-5) [OF assms(2-4)]
  have run: "ilock i (s, env) = whenp (\<not> i_valid ?ip)
       (thn (bread 1 (IBLOCK (i_inum ?ip))) (\<lambda>bp.
        thn (bdata bp) (\<lambda>d.
        let di = dec_dinode d (64 * (unat (i_inum ?ip) mod IPB)) in
        thn (set_inode i (\<lambda>ip. with_dinode ip di)) (\<lambda>_.
        thn (upd (brelse bp)) (\<lambda>_.
        thn (set_inode i (\<lambda>ip. ip\<lparr>i_valid := True\<rparr>)) (\<lambda>_.
        if di_type di = 0 then panic ''ilock: no type'' else ret ())))))) (?s1, env)"
    using assms(3,4) c(1,2) ok_held [OF assms(1)]
    by (simp add: ilock_def the_inode_def set_inode_def upd_inode_def ilock_loop.simps with_dinode_def held_nil thn_run)
  show ?thesis
  proof (cases "i_valid ?ip")
    case True
    then have "?ip1 = locked_entry ?V ?ip" using c(3) [symmetric] by (cases ?ip) (simp add: locked_entry_def with_dinode_def dinode_of_def)
    then show ?thesis using run True ok_icache [OF assms(1)] lim_upd by simp
  next
    case False
    have "ok ?s1" "unat (IBLOCK (i_inum ?ip)) < lim ?s1" using ok_icache [OF assms(1)] lim_upd assms(5) by simp_all
    from read [OF this, of env] obtain b s2 where
      r: "bread 1 (IBLOCK (i_inum ?ip)) (?s1, env) = Ok (b, loaded b (IBLOCK (i_inum ?ip)) ?s1, env)"
        "b_data (bufs (loaded b (IBLOCK (i_inum ?ip)) ?s1) ! b) = ?V (IBLOCK (i_inum ?ip))" "brelse b (loaded b (IBLOCK (i_inum ?ip)) ?s1) = Ok s2"
        "ok s2" "sec_view s2 = ?V" "frame ?s1 s2" "lim s2 = lim s" by (auto simp: lim_upd)
    have "icache (loaded b (IBLOCK (i_inum ?ip)) ?s1) = (icache s)[i := ?ip1]" by (simp add: loaded_def upd_buf_def)
    then show ?thesis
      using run False r(1-5,7) brelse_icache [OF r(3)] assms(3,6) ok_icache [OF r(4)] lim_upd
      by (simp add: set_inode_def upd_inode_def disk_dinode_def [symmetric] Let_def locked_entry_def thn_run bdata_def)
  qed
qed

end

section \<open>Paths\<close>

text \<open>The elements of a path, without the slashes.\<close>

function elems :: "byte list \<Rightarrow> byte list list" where
  "elems path =
     (let p = dropWhile (\<lambda>c. c = slash) path in
      if p = [] then [] else takeWhile (\<lambda>c. c \<noteq> slash) p # elems (dropWhile (\<lambda>c. c \<noteq> slash) p))"
  by pat_completeness auto
termination
proof (relation "measure length")
  fix path p :: "byte list"
  assume p: "p = dropWhile (\<lambda>c. c = slash) path" "p \<noteq> []"
  then have "hd p \<noteq> slash" using hd_dropWhile [of "\<lambda>c. c = slash" path] by simp
  then have "length (dropWhile (\<lambda>c. c \<noteq> slash) p) < length p"
    using p(2) by (cases p) (auto simp: le_imp_less_Suc length_dropWhile_le)
  then show "(dropWhile (\<lambda>c. c \<noteq> slash) p, path) \<in> measure length"
    using length_dropWhile_le [of "\<lambda>c. c = slash" path] p(1) by simp
qed simp

declare elems.simps [simp del] namex_loop.simps [simp del]

lemma elems_strip: "elems (dropWhile (\<lambda>c. c = slash) path) = elems path"
  by (subst (1 2) elems.simps) (simp add: dropWhile_idem)

lemma elems_Nil: "elems p = [] \<longleftrightarrow> dropWhile (\<lambda>c. c = slash) p = []"
  by (subst elems.simps) (simp add: Let_def del: dropWhile_eq_Nil_conv)

lemma skipelem_None: "skipelem path name = None \<longleftrightarrow> elems path = []"
  by (subst elems.simps) (simp add: skipelem_def Let_def)

lemma skipelem_Some:
  assumes "skipelem path name = Some (rest, name')" "length name = DIRSIZ" "0 \<notin> set path"
  shows "\<exists>e. elems path = e # elems rest \<and> dname name' = dname e" "length name' = DIRSIZ" "0 \<notin> set rest" "rest = [] \<longleftrightarrow> elems rest = []"
proof -
  define p where "p = dropWhile (\<lambda>c. c = slash) path"
  define e where "e = takeWhile (\<lambda>c. c \<noteq> slash) p"
  have sk: "p \<noteq> []" "rest = dropWhile (\<lambda>c. c = slash) (dropWhile (\<lambda>c. c \<noteq> slash) p)"
    "name' = (if length e \<ge> DIRSIZ then take DIRSIZ e else (patch name 0 e)[length e := 0])"
    using assms(1) by (auto simp: skipelem_def Let_def p_def e_def split: if_splits)
  have z: "0 \<notin> set p" "0 \<notin> set e" using assms(3) by (auto simp: p_def e_def dest: set_dropWhileD set_takeWhileD)
  then show "0 \<notin> set rest" unfolding sk(2) by (auto dest!: set_dropWhileD)
  show "length name' = DIRSIZ" using sk(3) assms(2) by (auto simp: patch_def)
  have "elems path = e # elems rest"
    unfolding sk(2) elems_strip e_def using sk(1) by (subst elems.simps) (simp add: p_def [symmetric] Let_def)
  moreover have "dname name' = dname e"
  proof (cases "length e \<ge> DIRSIZ")
    case False
    have "take (length e) name' = e" "name' ! length e = 0" "length e < length name'" using False sk(3) assms(2) by (auto simp: patch_def nth_append)
    then have n: "name' = e @ 0 # drop (Suc (length e)) name'" by (metis id_take_nth_drop)
    have "takeWhile (\<lambda>c. c \<noteq> 0) e = e" using z(2) by (induction e) auto
    moreover have "takeWhile (\<lambda>c. c \<noteq> 0) (take DIRSIZ name') = e"
      unfolding dname_def by (subst n) (use False z(2) in \<open>auto simp: takeWhile_append take_Cons' intro: takeWhile_eq_all_conv [THEN iffD2]\<close>)
    moreover have "take DIRSIZ e = e" using False by simp
    ultimately show ?thesis unfolding dname_def by (simp only:)
  qed (simp add: sk(3))
  ultimately show "\<exists>e. elems path = e # elems rest \<and> dname name' = dname e" by blast
  show "rest = [] \<longleftrightarrow> elems rest = []" unfolding sk(2) elems_Nil dropWhile_idem ..
qed

text \<open>What the directories on the disk say of a path.\<close>

definition disk_inode :: "(u32 \<Rightarrow> byte list) \<Rightarrow> u32 \<Rightarrow> inode" where
  "disk_inode V n = with_dinode \<lparr>i_dev = 1, i_inum = n, i_ref = 1, i_busy = False, i_valid = True, i_type = 0, i_major = 0, i_minor = 0,
     i_nlink = 0, i_size = 0, i_addrs = []\<rparr> (disk_dinode V n)"

abbreviation dir_at :: "(u32 \<Rightarrow> byte list) \<Rightarrow> u32 \<Rightarrow> byte list \<Rightarrow> u16 option" where
  "dir_at V n \<equiv> dir_map (contents (disk_inode V n) V)"

fun resolve :: "(u32 \<Rightarrow> byte list) \<Rightarrow> u32 \<Rightarrow> byte list list \<Rightarrow> u32 option" where
  "resolve V n [] = Some n"
| "resolve V n (e # es) =
     (if i_type (disk_inode V n) \<noteq> T_DIR then None
      else case dir_at V n (dname e) of None \<Rightarrow> None | Some m \<Rightarrow> resolve V (ucast m) es)"

definition resolve_parent :: "(u32 \<Rightarrow> byte list) \<Rightarrow> u32 \<Rightarrow> byte list list \<Rightarrow> u32 option" where
  "resolve_parent V n es =
     (if es = [] then None
      else case resolve V n (butlast es) of None \<Rightarrow> None | Some d \<Rightarrow> if i_type (disk_inode V d) = T_DIR then Some d else None)"

text \<open>A set of inodes that can be walked: the directories among them can be read, and lead to inodes of the set.\<close>

definition fstree_ok :: "nat \<Rightarrow> (u32 \<Rightarrow> byte list) \<Rightarrow> u32 set \<Rightarrow> bool" where
  "fstree_ok l V N \<longleftrightarrow> (\<forall>n\<in>N. unat (IBLOCK n) < l \<and> di_type (disk_dinode V n) \<noteq> 0 \<and> di_nlink (disk_dinode V n) \<noteq> 0 \<and>
     (di_type (disk_dinode V n) = T_DIR \<longrightarrow> is_dir l (disk_inode V n) V \<and> (\<forall>nm m. dir_at V n nm = Some m \<longrightarrow> ucast m \<in> N)))"

lemma fstree_okD:
  assumes "fstree_ok l V N" "n \<in> N"
  shows "unat (IBLOCK n) < l" "di_type (disk_dinode V n) \<noteq> 0" "di_nlink (disk_dinode V n) \<noteq> 0"
    "di_type (disk_dinode V n) = T_DIR \<Longrightarrow> is_dir l (disk_inode V n) V"
    "di_type (disk_dinode V n) = T_DIR \<Longrightarrow> dir_at V n nm = Some m \<Longrightarrow> ucast m \<in> N"
  using assms by (auto simp: fstree_ok_def)

lemma same_dinode:
  assumes "dinode_of ip = dinode_of ip'" "i_dev ip = i_dev ip'"
  shows "is_dir l ip V = is_dir l ip' V" "contents ip V = contents ip' V"
proof -
  have a: "i_type ip = i_type ip'" "i_size ip = i_size ip'" "i_addrs ip = i_addrs ip'" using assms(1) by (auto simp: dinode_of_def)
  then have p: "ptr ip V = ptr ip' V" by (simp add: ptr_def fun_eq_iff)
  then have b: "blk ip V = blk ip' V" by (simp add: blk_def fun_eq_iff)
  show "is_dir l ip V = is_dir l ip' V" using a b assms(2) by (simp add: is_dir_def readable_def has_block_def)
  show "contents ip V = contents ip' V" using a b by (simp add: contents_def file_byte_def block_data_def)
qed

text \<open>What stays the same during a walk.\<close>

definition minus_ref :: "(u32 \<Rightarrow> int) \<Rightarrow> u32 \<Rightarrow> u32 \<Rightarrow> int" where
  "minus_ref f n = f(n := f n - 1)"

definition plus_ref :: "(u32 \<Rightarrow> int) \<Rightarrow> u32 \<Rightarrow> u32 \<Rightarrow> int" where
  "plus_ref f n = f(n := f n + 1)"

lemma minus_plus_ref [simp]: "minus_ref (plus_ref f n) n = f" "plus_ref (minus_ref f n) n = f"
  by (auto simp: minus_ref_def plus_ref_def)

lemma minus_plus_commute: "minus_ref (plus_ref f m) n = plus_ref (minus_ref f n) m"
  by (auto simp: minus_ref_def plus_ref_def fun_eq_iff)

lemma plus_ref_card: "card {m. 0 < plus_ref f n m} \<le> card {m. 0 < f m} + 1" for f :: "u32 \<Rightarrow> int"
proof -
  have "{m. 0 < plus_ref f n m} \<subseteq> insert n {m. 0 < f m}" by (auto simp: plus_ref_def)
  then have "card {m. 0 < plus_ref f n m} \<le> card (insert n {m. 0 < f m})" by (intro card_mono) simp_all
  then show ?thesis using card_insert_le_m1 [of "card {m. 0 < f m} + 1" "{m. 0 < f m}" n] by (simp add: card_insert_if split: if_splits)
qed

context path_reads
begin

definition walk :: "u32 set \<Rightarrow> nat set \<Rightarrow> 'a fs_st_scheme \<Rightarrow> 'a fs_st_scheme \<Rightarrow> bool" where
  "walk N B s s' \<longleftrightarrow> ok s' \<and> sec_view s' = sec_view s \<and> lim s' = lim s \<and> length (icache s') = length (icache s) \<and>
     icache_ok (sec_view s) B (icache s') \<and> fstree_ok (lim s) (sec_view s) N"

lemma walkD:
  assumes "walk N B s s'"
  shows "ok s'" "sec_view s' = sec_view s" "lim s' = lim s" "length (icache s') = length (icache s)"
    "icache_ok (sec_view s') B (icache s')" "fstree_ok (lim s') (sec_view s') N"
  using assms by (auto simp: walk_def)

lemma walk_trans: "walk N B s s' \<Longrightarrow> walk N B' s' s'' \<Longrightarrow> walk N B' s s''"
  by (simp add: walk_def)

lemma walk_ilock:
  assumes "walk N {} s s" "i < length (icache s)" "i_ref (icache s ! i) > 0" "i_inum (icache s ! i) \<in> N"
  shows "\<exists>s'. ilock i (s, env) = Ok ((), s', env) \<and> walk N {i} s s' \<and> icache s' = (icache s)[i := locked_entry (sec_view s) (icache s ! i)] \<and>
    refc (icache s') = refc (icache s)"
proof -
  note w = walkD [OF assms(1)]
  note t = fstree_okD [OF w(6) assms(4)]
  obtain s' where s': "ilock i (s, env) = Ok ((), s', env)" "ok s'" "sec_view s' = sec_view s" "lim s' = lim s"
    "icache s' = (icache s)[i := locked_entry (sec_view s) (icache s ! i)]"
    using ilock_ok [OF w(1,5) assms(2,3) t(1,2), of env] by blast
  have "icache_ok (sec_view s) {i} (icache s')"
    unfolding s'(5) by (rule icache_ok_touch [OF w(5) assms(2,3)]) (use assms(3) in auto)
  moreover have "refc (icache s') = refc (icache s)" unfolding s'(5) using refc_update [OF assms(2)] by (auto simp: fun_eq_iff)
  ultimately show ?thesis using s' w(6) by (auto simp: walk_def)
qed

lemma walk_iunlockput:
  assumes "walk N {i} s s" "i < length (icache s)" "i_ref (icache s ! i) > 0" "i_inum (icache s ! i) \<in> N" "i_valid (icache s ! i)"
  shows "\<exists>s'. iunlockput i (s, env) = Ok ((), s', env) \<and> walk N {} s s' \<and> icache s' = (icache s)[i := put_entry (icache s ! i)] \<and>
    refc (icache s') = minus_ref (refc (icache s)) (i_inum (icache s ! i))"
proof -
  note w = walkD [OF assms(1)]
  note c = icache_okD(4,5) [OF w(5) assms(2,3)]
  have "i_nlink (icache s ! i) \<noteq> 0" using fstree_okD(3) [OF w(6) assms(4)] c(2) [OF assms(5), symmetric] by (simp add: dinode_of_def)
  then obtain ps where run: "iunlockput i (s, env) = Ok ((), s\<lparr>procs := ps, icache := (icache s)[i := put_entry (icache s ! i)]\<rparr>, env)"
    using iunlockput_run [OF ok_held [OF w(1)] assms(2) _ assms(3), of env] c(1) by auto
  let ?s = "s\<lparr>procs := ps, icache := (icache s)[i := put_entry (icache s ! i)]\<rparr>"
  note p = put_ref [OF w(5) assms(2,3) order_refl]
  have "walk N {} s ?s" using ok_icache [OF ok_procs [OF w(1)]] lim_upd w(6) p(1) by (simp add: walk_def)
  then show ?thesis using run p(2) by (intro exI [of _ ?s]) (simp add: minus_ref_def)
qed

lemma walk_dirlookup:
  assumes "walk N {i} s s" "i < length (icache s)" "i_ref (icache s ! i) > 0" "i_inum (icache s ! i) = n" "n \<in> N" "i_valid (icache s ! i)"
    "di_type (disk_dinode (sec_view s) n) = T_DIR" "card {m. 0 < refc (icache s) m} < length (icache s)"
  shows "\<exists>r s'. dirlookup i name (s, env) = Ok (r, s', env) \<and> walk N {i} s s' \<and>
    (case dir_at (sec_view s) n (dname name) of None \<Rightarrow> r = None \<and> icache s' = icache s
     | Some m \<Rightarrow> \<exists>j off. r = Some (j, off) \<and> gets_ref (sec_view s) {i} (ucast m) j (icache s) (icache s'))"
proof -
  let ?ip = "icache s ! i" and ?V = "sec_view s"
  note w = walkD [OF assms(1)]
  have di: "dinode_of ?ip = dinode_of (disk_inode ?V n)" "i_dev ?ip = i_dev (disk_inode ?V n)" "i_dev ?ip = 1"
    using icache_okD(3,5) [OF w(5) assms(2,3)] assms(4,6) by (simp_all add: disk_inode_def)
  note same = same_dinode [OF di(1,2)]
  have d: "is_dir (lim s) ?ip ?V" unfolding same(1) using fstree_okD(4) [OF w(6) assms(5,7)] .
  show ?thesis
  proof (cases "dir_find (contents ?ip ?V) (dname name)")
    case None
    obtain s2 where "dirlookup i name (s, env) = Ok (None, s2, env)" "ok s2" "sec_view s2 = ?V" "frame s s2" "lim s2 = lim s"
      using dirlookup_misses [OF w(1) d None, of env] by blast
    then show ?thesis using None w(5,6) frame_icache [of s s2] unfolding dir_map_def same(2) by (auto simp: walk_def)
  next
    case (Some k)
    let ?m = "fst (dir_entries (contents ?ip ?V) ! k)"
    obtain s2 where s2: "dirlookup i name (s, env) = thn (call (iget 1 (ucast ?m))) (\<lambda>j. ret (Some (j, of_nat (16 * k)))) (s2, env)"
      "ok s2" "sec_view s2 = ?V" "frame s s2" "lim s2 = lim s" using dirlookup_hits [OF w(1) d Some, of env] unfolding di(3) by blast
    note ic = frame_icache [OF s2(4)]
    obtain j ic' where g: "iget 1 (ucast ?m) s2 = Ok (j, s2\<lparr>icache := ic'\<rparr>)" "gets_ref ?V {i} (ucast ?m) j (icache s) ic'"
      using iget_refc [of ?V "{i}" s2 "ucast ?m"] w(5) ok_held [OF s2(2)] assms(3,8) unfolding ic by auto
    have "walk N {i} s (s2\<lparr>icache := ic'\<rparr>)" using g(2) ok_icache [OF s2(2)] s2(3,5) lim_upd w(6) by (simp add: walk_def gets_ref_def)
    then show ?thesis using s2(1) g Some unfolding dir_map_def same(2) [symmetric]
      by (intro exI [of _ "Some (j, of_nat (16 * k))"] exI [of _ "s2\<lparr>icache := ic'\<rparr>"]) simp
  qed
qed

end

definition path_target :: "(u32 \<Rightarrow> byte list) \<Rightarrow> bool \<Rightarrow> u32 \<Rightarrow> byte list list \<Rightarrow> u32 option" where
  "path_target V np n es = (if np then resolve_parent V n es else resolve V n es)"

lemma path_target_Nil: "path_target V np n [] = (if np then None else Some n)"
  by (simp add: path_target_def resolve_parent_def)

lemma path_target_Cons:
  "path_target V np n (e # es) =
     (if i_type (disk_inode V n) \<noteq> T_DIR then None
      else if np \<and> es = [] then Some n
      else case dir_at V n (dname e) of None \<Rightarrow> None | Some m \<Rightarrow> path_target V np (ucast m) es)"
  by (auto simp: path_target_def resolve_parent_def split: option.splits)

text \<open>The result of a walk that started with a reference to one inode: all references are as if that one had been dropped, and
  the inode that was found has got one.\<close>

definition found_path :: "u32 option \<Rightarrow> (u32 \<Rightarrow> int) \<Rightarrow> nat option \<Rightarrow> inode list \<Rightarrow> bool" where
  "found_path tgt b r ic \<longleftrightarrow> (case tgt of None \<Rightarrow> r = None \<and> refc ic = b
     | Some m \<Rightarrow> \<exists>j. r = Some j \<and> j < length ic \<and> i_ref (ic ! j) > 0 \<and> i_inum (ic ! j) = m \<and> refc ic = plus_ref b m)"

lemma disk_inode_simps [simp]: "i_type (disk_inode V n) = di_type (disk_dinode V n)" "i_inum (disk_inode V n) = n"
  by (simp_all add: disk_inode_def)

context path_reads
begin

lemma walk_iput:
  assumes "walk N {} s s" "i < length (icache s)" "i_ref (icache s ! i) > 0" "i_inum (icache s ! i) \<in> N"
  shows "\<exists>s'. iput i (s, env) = Ok ((), s', env) \<and> walk N {} s s' \<and> refc (icache s') = minus_ref (refc (icache s)) (i_inum (icache s ! i))"
proof -
  note w = walkD [OF assms(1)]
  note c = icache_okD(4,5) [OF w(5) assms(2,3)]
  have "i_valid (icache s ! i) \<Longrightarrow> i_nlink (icache s ! i) \<noteq> 0" using fstree_okD(3) [OF w(6) assms(4)] c(2) [symmetric] by (simp add: dinode_of_def)
  then have run: "iput i (s, env) = Ok ((), s\<lparr>icache := (icache s)[i := put_entry (icache s ! i)]\<rparr>, env)"
    using iput_run [OF ok_held [OF w(1)], of i env] c(1) by auto
  note p = put_ref [OF w(5) assms(2,3) empty_subsetI]
  show ?thesis using run p(2) ok_icache [OF w(1)] lim_upd w(6) p(1) by (simp add: walk_def minus_ref_def)
qed

text \<open>One element of the path: the step to the next inode, after which the reference to the directory is dropped.\<close>

lemma walk_next:
  assumes w: "walk N {} s s" and i: "i < length (icache s)" "i_ref (icache s ! i) > 0" "i_inum (icache s ! i) = n" "n \<in> N"
    and dir: "di_type (disk_dinode (sec_view s) n) = T_DIR" and room: "card {m. 0 < minus_ref (refc (icache s)) n m} + 2 \<le> length (icache s)"
  shows "\<exists>r s1 s2. thn (ilock i) (\<lambda>_. dirlookup i name) (s, env) = Ok (r, s1, env) \<and> iunlockput i (s1, env) = Ok ((), s2, env) \<and> walk N {} s s2 \<and>
    found_path (map_option ucast (dir_at (sec_view s) n (dname name))) (minus_ref (refc (icache s)) n) (map_option fst r) (icache s2)"
proof -
  let ?V = "sec_view s"
  obtain s1 where s1: "ilock i (s, env) = Ok ((), s1, env)" "walk N {i} s s1" "icache s1 = (icache s)[i := locked_entry ?V (icache s ! i)]"
    "refc (icache s1) = refc (icache s)" using walk_ilock [OF w i(1,2)] i(3,4) by blast
  note w1 = walkD [OF s1(2)]
  have ww1: "walk N {i} s1 s1" using s1(2) by (simp add: walk_def)
  have e1: "i < length (icache s1)" "i_ref (icache s1 ! i) > 0" "i_inum (icache s1 ! i) = n" "i_valid (icache s1 ! i)" using i(1-3) s1(3) by simp_all
  have "card {m. 0 < refc (icache s1) m} < length (icache s1)"
    using plus_ref_card [of "minus_ref (refc (icache s)) n" n] room w1(4) unfolding s1(4) minus_plus_ref by linarith
  from walk_dirlookup [OF ww1 e1(1-3) i(4) e1(4) _ this, of name env, unfolded w1(2), OF dir] obtain r s2 where
    s2: "dirlookup i name (s1, env) = Ok (r, s2, env)" "walk N {i} s1 s2"
      "case dir_at ?V n (dname name) of None \<Rightarrow> r = None \<and> icache s2 = icache s1
       | Some m \<Rightarrow> \<exists>j off. r = Some (j, off) \<and> gets_ref ?V {i} (ucast m) j (icache s1) (icache s2)" by blast
  note w2 = walkD [OF s2(2)]
  have ww2: "walk N {i} s2 s2" using s2(2) by (simp add: walk_def)
  have e2: "i < length (icache s2)" "i_ref (icache s2 ! i) > 0" "i_inum (icache s2 ! i) = n" "i_valid (icache s2 ! i)"
  proof -
    have "i_ref (icache s2 ! i) > 0 \<and> (\<exists>c. icache s2 ! i = (icache s1 ! i)\<lparr>i_ref := c\<rparr>)"
    proof (cases "dir_at ?V n (dname name)")
      case None
      then show ?thesis using s2(3) e1(2) by (auto intro: exI [of _ "i_ref (icache s1 ! i)"])
    next
      case (Some m)
      then show ?thesis using s2(3) e1(1,2) by (auto simp: gets_ref_def)
    qed
    then show "i_ref (icache s2 ! i) > 0" "i_inum (icache s2 ! i) = n" "i_valid (icache s2 ! i)" using e1(3,4) by auto
    show "i < length (icache s2)" using e1(1) w2(4) by simp
  qed
  obtain s3 where s3: "iunlockput i (s2, env) = Ok ((), s3, env)" "walk N {} s2 s3" "icache s3 = (icache s2)[i := put_entry (icache s2 ! i)]"
    "refc (icache s3) = minus_ref (refc (icache s2)) n" using walk_iunlockput [OF ww2 e2(1,2) _ e2(4), unfolded e2(3), OF i(4)] by blast
  have "found_path (map_option ucast (dir_at ?V n (dname name))) (minus_ref (refc (icache s)) n) (map_option fst r) (icache s3)"
  proof (cases "dir_at ?V n (dname name)")
    case None
    then show ?thesis using s2(3) s3(4) s1(4) by (simp add: found_path_def)
  next
    case (Some m)
    then obtain j off where j: "r = Some (j, off)" "gets_ref ?V {i} (ucast m) j (icache s1) (icache s2)" using s2(3) by auto
    have g: "j < length (icache s2)" "i_inum (icache s2 ! j) = ucast m" "i_ref (icache s2 ! j) > 0" "refc (icache s2) = plus_ref (refc (icache s1)) (ucast m)"
      using j(2) by (auto simp: gets_ref_def plus_ref_def)
    have "i_ref (icache s3 ! j) > 0"
    proof (cases "j = i")
      case True
      have "i_ref (icache s2 ! i) = refc (icache s1) n + 1" using refc_entry [OF w2(5) e2(1,2)] g(2,4) True e2(3) by (simp add: plus_ref_def)
      then show ?thesis using True e1(1) refc_entry [OF w1(5) e1(1,2)] e1(2,3) e2(1) s3(3) by simp
    qed (use g(3) s3(3) in simp)
    moreover have "i_inum (icache s3 ! j) = ucast m" using g(1,2) s3(3) by (cases "j = i") simp_all
    moreover have "refc (icache s3) = plus_ref (minus_ref (refc (icache s)) n) (ucast m)" using s3(4) g(4) s1(4) by (simp add: minus_plus_commute)
    ultimately show ?thesis using Some j(1) g(1) s3(3) by (simp add: found_path_def)
  qed
  then show ?thesis using s1(1) s2(1) s3(1) walk_trans [OF walk_trans [OF s1(2) s2(2)] s3(2)] by (auto simp: thn_run)
qed

end

context path_reads
begin

lemma walk_iunlock:
  assumes "walk N {i} s s" "i < length (icache s)" "i_ref (icache s ! i) > 0"
  shows "\<exists>s'. iunlock i s = Ok s' \<and> walk N {} s s' \<and> icache s' = (icache s)[i := (icache s ! i)\<lparr>i_busy := False\<rparr>] \<and> refc (icache s') = refc (icache s)"
proof -
  note w = walkD [OF assms(1)]
  note c = icache_okD(4,5) [OF w(5) assms(2,3)]
  obtain ps where u: "iunlock i s = Ok (s\<lparr>procs := ps, icache := (icache s)[i := (icache s ! i)\<lparr>i_busy := False\<rparr>]\<rparr>)"
    using iunlock_run [OF ok_held [OF w(1)] _ assms(3)] c(1) by auto
  have "dinode_of ((icache s ! i)\<lparr>i_busy := False\<rparr>) = dinode_of (icache s ! i)" by (simp add: dinode_of_def)
  then have "icache_ok (sec_view s) {} ((icache s)[i := (icache s ! i)\<lparr>i_busy := False\<rparr>])"
    using c(2) assms(3) by (intro icache_ok_touch [OF w(5) assms(2,3)]) auto
  moreover have "refc ((icache s)[i := (icache s ! i)\<lparr>i_busy := False\<rparr>]) = refc (icache s)" using refc_update [OF assms(2)] by (auto simp: fun_eq_iff)
  ultimately show ?thesis using u ok_icache [OF ok_procs [OF w(1)]] lim_upd w(6) by (simp add: walk_def)
qed

lemma namex_loop_step:
  assumes "skipelem path name = Some (rest, name')" "ilock i (s, env) = Ok ((), s1, env)"
  shows "namex_loop i path np name (s, env) =
    (if i_type (icache s1 ! i) \<noteq> T_DIR then thn (iunlockput i) (\<lambda>_. ret (None, name')) (s1, env)
     else if np \<and> rest = [] then thn (upd (iunlock i)) (\<lambda>_. ret (Some i, name')) (s1, env)
     else thn (dirlookup i name') (\<lambda>found. case found of None \<Rightarrow> thn (iunlockput i) (\<lambda>_. ret (None, name'))
       | Some (j, _) \<Rightarrow> thn (iunlockput i) (\<lambda>_. namex_loop j rest np name')) (s1, env))"
  using assms by (subst namex_loop.simps) (simp add: thn_run the_inode_def)

definition namex_post :: "u32 set \<Rightarrow> u32 \<Rightarrow> (u32 \<Rightarrow> int) \<Rightarrow> byte list \<Rightarrow> bool \<Rightarrow> 'a fs_st_scheme \<Rightarrow> 'a fs_st_scheme env \<Rightarrow>
    ((nat option \<times> byte list) \<times> 'a fs_st_scheme \<times> 'a fs_st_scheme env) res \<Rightarrow> bool" where
  "namex_post N n b path np s env m \<longleftrightarrow> (\<exists>r name' s'. m = Ok ((r, name'), s', env) \<and> walk N {} s s' \<and>
     found_path (path_target (sec_view s) np n (elems path)) b r (icache s') \<and>
     (np \<and> r \<noteq> None \<longrightarrow> dname name' = dname (last (elems path))))"

lemma namex_loop_end:
  assumes "walk N {} s s" "i < length (icache s)" "i_ref (icache s ! i) > 0" "i_inum (icache s ! i) = n" "n \<in> N" "skipelem path name = None"
  shows "namex_post N n (minus_ref (refc (icache s)) n) path np s env (namex_loop i path np name (s, env))"
proof -
  have e: "elems path = []" using assms(6) by (simp add: skipelem_None)
  have self: "refc (icache s) = plus_ref (minus_ref (refc (icache s)) n) n" by simp
  show ?thesis
  proof (cases np)
    case True
    then show ?thesis using e walk_iput [OF assms(1-3), of env] assms(4-6) unfolding namex_post_def
      by (subst namex_loop.simps) (auto simp: path_target_Nil found_path_def thn_run)
  next
    case False
    then show ?thesis using e assms self unfolding namex_post_def
      by (subst namex_loop.simps) (auto simp: path_target_Nil found_path_def simp del: minus_plus_ref)
  qed
qed

text \<open>The walk stops at a file, or at the directory that the last element is to be looked up in.\<close>

lemma namex_loop_stops:
  assumes w: "walk N {} s s" and i: "i < length (icache s)" "i_ref (icache s ! i) > 0" "i_inum (icache s ! i) = n" "n \<in> N"
    and sk: "skipelem path name = Some (rest, name')" and e: "elems path = e # elems rest" "dname name' = dname e" "rest = [] \<longleftrightarrow> elems rest = []"
    and stop: "di_type (disk_dinode (sec_view s) n) \<noteq> T_DIR \<or> np \<and> rest = []"
  shows "namex_post N n (minus_ref (refc (icache s)) n) path np s env (namex_loop i path np name (s, env))"
proof -
  obtain s1 where s1: "ilock i (s, env) = Ok ((), s1, env)" "walk N {i} s s1" "icache s1 = (icache s)[i := locked_entry (sec_view s) (icache s ! i)]"
    "refc (icache s1) = refc (icache s)" using walk_ilock [OF w i(1,2)] i(3,4) by blast
  have ww1: "walk N {i} s1 s1" using s1(2) by (simp add: walk_def)
  have e1: "i < length (icache s1)" "i_ref (icache s1 ! i) > 0" "i_inum (icache s1 ! i) = n" "i_valid (icache s1 ! i)"
    "i_type (icache s1 ! i) = di_type (disk_dinode (sec_view s) n)" using i(1-3) s1(3) by simp_all
  note run = namex_loop_step [OF sk s1(1), of np, unfolded e1(5)]
  show ?thesis
  proof (cases "di_type (disk_dinode (sec_view s) n) = T_DIR")
    case False
    obtain s2 where "iunlockput i (s1, env) = Ok ((), s2, env)" "walk N {} s1 s2" "refc (icache s2) = minus_ref (refc (icache s1)) n"
      using walk_iunlockput [OF ww1 e1(1,2) _ e1(4), unfolded e1(3), OF i(4)] by blast
    then show ?thesis using run False e(1) s1(4) walk_trans [OF s1(2)] by (auto simp: namex_post_def path_target_Cons found_path_def thn_run)
  next
    case True
    obtain s2 where "iunlock i s1 = Ok s2" "walk N {} s1 s2" "icache s2 = (icache s1)[i := (icache s1 ! i)\<lparr>i_busy := False\<rparr>]"
      "refc (icache s2) = refc (icache s1)" using walk_iunlock [OF ww1 e1(1,2)] by blast
    then show ?thesis using run True stop e s1(4) e1(1-3) walk_trans [OF s1(2)] by (auto simp: namex_post_def path_target_Cons found_path_def)
  qed
qed

lemma namex_loop_ok:
  assumes "walk N {} s s" "i < length (icache s)" "i_ref (icache s ! i) > 0" "i_inum (icache s ! i) = n" "n \<in> N"
    "card {m. 0 < minus_ref (refc (icache s)) n m} + 2 \<le> length (icache s)" "length name = DIRSIZ" "0 \<notin> set path"
  shows "namex_post N n (minus_ref (refc (icache s)) n) path np s env (namex_loop i path np name (s, env))"
  using assms
proof (induction "length path" arbitrary: path i n s name rule: less_induct)
  case less
  let ?V = "sec_view s" and ?b = "minus_ref (refc (icache s)) n"
  show ?case
  proof (cases "skipelem path name")
    case None
    then show ?thesis by (rule namex_loop_end [OF less.prems(1-5)])
  next
    case (Some p)
    obtain rest name' where sk: "skipelem path name = Some (rest, name')" using Some by (cases p) auto
    obtain e where e: "elems path = e # elems rest" "dname name' = dname e" using skipelem_Some(1) [OF sk less.prems(7,8)] by blast
    note sk' = skipelem_Some(2-4) [OF sk less.prems(7,8)]
    show ?thesis
    proof (cases "di_type (disk_dinode ?V n) \<noteq> T_DIR \<or> np \<and> rest = []")
      case True
      then show ?thesis by (rule namex_loop_stops [OF less.prems(1-5) sk e sk'(3)])
    next
      case False
      then have dir: "di_type (disk_dinode ?V n) = T_DIR" by simp
      obtain s1 where s1: "ilock i (s, env) = Ok ((), s1, env)" "icache s1 = (icache s)[i := locked_entry ?V (icache s ! i)]"
        using walk_ilock [OF less.prems(1-3)] less.prems(4,5) by blast
      have ty: "i_type (icache s1 ! i) = di_type (disk_dinode ?V n)" using less.prems(2,4) s1(2) by simp
      note run = namex_loop_step [OF sk s1(1), of np, unfolded ty]
      obtain r s2 s3 where n: "thn (ilock i) (\<lambda>_. dirlookup i name') (s, env) = Ok (r, s2, env)" "iunlockput i (s2, env) = Ok ((), s3, env)" "walk N {} s s3"
        "found_path (map_option ucast (dir_at ?V n (dname e))) ?b (map_option fst r) (icache s3)"
        using walk_next [OF less.prems(1-5) dir less.prems(6), of name' env] unfolding e(2) by blast
      have d: "dirlookup i name' (s1, env) = Ok (r, s2, env)" using n(1) s1(1) by (simp add: thn_run)
      note w3 = walkD [OF n(3)]
      show ?thesis
      proof (cases "dir_at ?V n (dname e)")
        case None
        then have "r = None" "refc (icache s3) = ?b" using n(4) by (auto simp: found_path_def)
        then show ?thesis using run False d n(2,3) None e(1) sk'(3) by (auto simp: namex_post_def path_target_Cons found_path_def thn_run)
      next
        case (Some m)
        then obtain j off where j: "r = Some (j, off)" "j < length (icache s3)" "i_ref (icache s3 ! j) > 0" "i_inum (icache s3 ! j) = ucast m"
          "refc (icache s3) = plus_ref ?b (ucast m)" using n(4) by (auto simp: found_path_def)
        have mN: "ucast m \<in> N" using fstree_okD(5) [OF walkD(6) [OF less.prems(1)] less.prems(5) dir Some] .
        have ww3: "walk N {} s3 s3" using n(3) by (simp add: walk_def)
        have room: "card {x. 0 < minus_ref (refc (icache s3)) (ucast m) x} + 2 \<le> length (icache s3)" using less.prems(6) j(5) w3(4) by simp
        note ih = less.hyps [OF skipelem_shorter [OF sk] ww3 j(2-4) mN room sk'(1,2), unfolded j(5) minus_plus_ref]
        have "elems rest \<noteq> []" if np using False that sk'(3) by blast
        then show ?thesis using run False d n(2) ih walk_trans [OF n(3)] Some j(1) e(1) sk'(3) w3(2)
          by (auto simp: namex_post_def path_target_Cons thn_run)
      qed
    qed
  qed
qed

end

section \<open>namex\<close>

text \<open>Where a path starts: at the root, or in the directory of the current process.\<close>

definition path_start :: "'a fs_st_scheme \<Rightarrow> byte list \<Rightarrow> u32 option" where
  "path_start s path =
     (if path \<noteq> [] \<and> hd path = slash then Some ROOTINO
      else case cur s of None \<Rightarrow> None
        | Some p \<Rightarrow> (case cwd (procs s ! p) of None \<Rightarrow> None
            | Some i \<Rightarrow> if i < length (icache s) \<and> i_ref (icache s ! i) > 0 then Some (i_inum (icache s ! i)) else None))"

lemma start_ref:
  fixes s :: "'a fs_st_scheme"
  assumes "path_start s path = Some n" "icache_ok V {} (icache s)" "held s = []" "card {m. 0 < refc (icache s) m} < length (icache s)"
  shows "\<exists>j ic'. (if path \<noteq> [] \<and> hd path = slash then call (iget ROOTDEV ROOTINO)
      else call (\<lambda>s. with_cur s (\<lambda>p. case cwd (procs s ! p) of None \<Rightarrow> Stuck | Some i \<Rightarrow> idup i s))) (s, env) = Ok (j, s\<lparr>icache := ic'\<rparr>, env) \<and>
    gets_ref V {} n j (icache s) ic'"
proof (cases "path \<noteq> [] \<and> hd path = slash")
  case True
  then show ?thesis using iget_refc [OF assms(2-4), of n] assms(1) by (auto simp: path_start_def ROOTDEV_def)
next
  case False
  then obtain p i where p: "cur s = Some p" "cwd (procs s ! p) = Some i" "i < length (icache s)" "i_ref (icache s ! i) > 0" "n = i_inum (icache s ! i)"
    using assms(1) by (auto simp: path_start_def split: option.splits if_splits)
  then show ?thesis using gets_ref_hit [OF assms(2) p(3,4)] False assms(3)
    by (intro exI [of _ i] exI [of _ "(icache s)[i := (icache s ! i)\<lparr>i_ref := i_ref (icache s ! i) + 1\<rparr>]"])
      (auto simp: with_cur_def idup_def upd_inode_def held_nil)
qed

context path_reads
begin

lemma namex_ok:
  assumes "ok s" "icache_ok (sec_view s) {} (icache s)" "fstree_ok (lim s) (sec_view s) N" "path_start s path = Some n" "n \<in> N"
    "card {m. 0 < refc (icache s) m} + 2 \<le> length (icache s)" "length name = DIRSIZ" "0 \<notin> set path"
  shows "\<exists>r name' s'. namex path np name (s, env) = Ok ((r, name'), s', env) \<and> walk N {} s s' \<and>
    found_path (path_target (sec_view s) np n (elems path)) (refc (icache s)) r (icache s') \<and>
    (np \<and> r \<noteq> None \<longrightarrow> dname name' = dname (last (elems path)))"
proof -
  obtain j ic' where st: "(if path \<noteq> [] \<and> hd path = slash then call (iget ROOTDEV ROOTINO)
      else call (\<lambda>s. with_cur s (\<lambda>p. case cwd (procs s ! p) of None \<Rightarrow> Stuck | Some i \<Rightarrow> idup i s))) (s, env) = Ok (j, s\<lparr>icache := ic'\<rparr>, env)"
    "gets_ref (sec_view s) {} n j (icache s) ic'" using start_ref [OF assms(4,2) ok_held [OF assms(1)], of env] assms(6) by auto
  let ?s = "s\<lparr>icache := ic'\<rparr>"
  have g: "j < length (icache ?s)" "i_ref (icache ?s ! j) > 0" "i_inum (icache ?s ! j) = n" "refc (icache ?s) = plus_ref (refc (icache s)) n"
    using st(2) by (auto simp: gets_ref_def plus_ref_def)
  have w: "walk N {} ?s ?s" "walk N {} s ?s" using ok_icache [OF assms(1)] lim_upd assms(3) st(2) by (simp_all add: walk_def gets_ref_def)
  have room: "card {m. 0 < minus_ref (refc (icache ?s)) n m} + 2 \<le> length (icache ?s)"
    unfolding g(4) minus_plus_ref using assms(6) walkD(4) [OF w(2)] by simp
  from namex_loop_ok [OF w(1) g(1-3) assms(5) room assms(7,8), of np env] obtain r name' s' where
    l: "namex_loop j path np name (?s, env) = Ok ((r, name'), s', env)" "walk N {} ?s s'"
      "found_path (path_target (sec_view s) np n (elems path)) (refc (icache s)) r (icache s')"
      "np \<and> r \<noteq> None \<longrightarrow> dname name' = dname (last (elems path))"
    unfolding namex_post_def g(4) minus_plus_ref fs_view_upd by blast
  have "namex path np name (s, env) = Ok ((r, name'), s', env)" unfolding namex_def using st(1) l(1) by (simp add: thn_eq)
  then show ?thesis using l(2-4) walk_trans [OF w(2) l(2)] by blast
qed

end

interpretation free_paths: path_reads "\<lambda>s. quiet s \<and> card (dirty_secs s) < NBUF" "\<lambda>s. length (disk s)"
proof unfold_locales
  fix s :: "'a fs_st_scheme" and ic ps
  assume s: "quiet s \<and> card (dirty_secs s) < NBUF"
  then show "held s = []" by (simp add: quiet_def)
  show "quiet (s\<lparr>icache := ic\<rparr>) \<and> card (dirty_secs (s\<lparr>icache := ic\<rparr>)) < NBUF"
    using s quiet_cong [of "s\<lparr>icache := ic\<rparr>" s] log_view_cong(3) [of "s\<lparr>icache := ic\<rparr>" s] by simp
  show "quiet (s\<lparr>procs := ps\<rparr>) \<and> card (dirty_secs (s\<lparr>procs := ps\<rparr>)) < NBUF"
    using s quiet_cong [of "s\<lparr>procs := ps\<rparr>" s] log_view_cong(3) [of "s\<lparr>procs := ps\<rparr>" s] by simp
qed simp_all

interpretation txn_paths: path_reads "\<lambda>s. txn s \<and> length (logged s) < NBUF" "\<lambda>s. unat (log_start s)"
proof unfold_locales
  fix s :: "'a fs_st_scheme" and ic ps
  assume s: "txn s \<and> length (logged s) < NBUF"
  then show "held s = []" by (simp add: txn_def quiet_def)
  show "txn (s\<lparr>icache := ic\<rparr>) \<and> length (logged (s\<lparr>icache := ic\<rparr>)) < NBUF" using s txn_cong [of "s\<lparr>icache := ic\<rparr>" s] by simp
  show "txn (s\<lparr>procs := ps\<rparr>) \<and> length (logged (s\<lparr>procs := ps\<rparr>)) < NBUF" using s txn_cong [of "s\<lparr>procs := ps\<rparr>" s] by simp
qed simp_all

end
