(* ===== verification/Mkfs.thy ===== *)
theory Mkfs
  imports Directory
begin

text \<open>
  \<open>mkfs.c\<close>, the program of the build host that makes the disk image. The image is a function from sector numbers to
  sectors; \<open>isize\<close> is the length of the image file in sectors, behind which a read fails. The files to be copied
  are given by their names on the command line and their contents. A failed assertion, or a read behind the end, is \<open>Panic\<close>; failures
  of the host's disk are left out. The byte order conversions \<open>xint\<close> and \<open>xshort\<close> give little-endian words, as the
  encodings of the kernel's structures do.
\<close>

section \<open>The program\<close>

definition mk_nblocks :: nat where "mk_nblocks = 25000"
definition nlog :: nat where "nlog = LOGSIZE"
definition ninodes :: nat where "ninodes = 200"
definition mk_size :: nat where "mk_size = 25045"

record mkfs_st =
  img :: "u32 \<Rightarrow> byte list"
  isize :: nat
  freeblock :: nat
  usedblocks :: nat
  freeinode :: nat

definition zeroes :: "byte list" where "zeroes = replicate BSIZE 0"

definition wsect :: "u32 \<Rightarrow> byte list \<Rightarrow> mkfs_st \<Rightarrow> mkfs_st" where
  "wsect sec buf s = s\<lparr>img := (img s)(sec := buf), isize := max (isize s) (unat sec + 1)\<rparr>"

definition rsect :: "u32 \<Rightarrow> mkfs_st \<Rightarrow> byte list res" where
  "rsect sec s = (if unat sec < isize s then Ok (img s sec) else Panic ''read'')"

definition i2b :: "nat \<Rightarrow> u32" where
  "i2b inum = of_nat (inum div IPB + 2)"

definition winode :: "nat \<Rightarrow> dinode \<Rightarrow> mkfs_st \<Rightarrow> mkfs_st res" where
  "winode inum ip s =
     bnd (rsect (i2b inum) s) (\<lambda>buf.
     Ok (wsect (i2b inum) (enc_dinode buf (64 * (inum mod IPB)) ip) s))"

definition rinode :: "nat \<Rightarrow> mkfs_st \<Rightarrow> dinode res" where
  "rinode inum s = bnd (rsect (i2b inum) s) (\<lambda>buf. Ok (dec_dinode buf (64 * (inum mod IPB))))"

definition mk_ialloc :: "u16 \<Rightarrow> mkfs_st \<Rightarrow> (nat \<times> mkfs_st) res" where
  "mk_ialloc type s =
     (let inum = freeinode s; s = s\<lparr>freeinode := inum + 1\<rparr> in
      bnd (winode inum \<lparr>di_type = type, di_major = 0, di_minor = 0, di_nlink = 1, di_size = 0, di_addrs = replicate (NDIRECT + 1) 0\<rparr> s)
        (\<lambda>s. Ok (inum, s)))"

definition new_block :: "mkfs_st \<Rightarrow> u32 \<times> mkfs_st" where
  "new_block s = (of_nat (freeblock s), s\<lparr>freeblock := freeblock s + 1, usedblocks := usedblocks s + 1\<rparr>)"

text \<open>A pointer of the inode that is still 0 gets a block.\<close>

definition give_block :: "nat \<Rightarrow> dinode \<Rightarrow> mkfs_st \<Rightarrow> dinode \<times> mkfs_st" where
  "give_block j din s =
     (if di_addrs din ! j = 0 then let (a, s) = new_block s in (din\<lparr>di_addrs := (di_addrs din)[j := a]\<rparr>, s) else (din, s))"

text \<open>The sector of block \<open>fbn\<close> of a file, which gets one if it has none.\<close>

definition block_for :: "nat \<Rightarrow> dinode \<Rightarrow> mkfs_st \<Rightarrow> (u32 \<times> dinode \<times> mkfs_st) res" where
  "block_for fbn din s =
     (if fbn < NDIRECT then
        let (din, s) = give_block fbn din s in Ok (di_addrs din ! fbn, din, s)
      else
        let (din, s) = give_block NDIRECT din s in
        bnd (rsect (di_addrs din ! NDIRECT) s) (\<lambda>indirect.
        if rd32 indirect (4 * (fbn - NDIRECT)) = 0 then
          let (a, s) = new_block s in
          Ok (a, din, wsect (di_addrs din ! NDIRECT) (wr32 indirect (4 * (fbn - NDIRECT)) a) s)
        else Ok (rd32 indirect (4 * (fbn - NDIRECT)), din, s)))"

function iappend_loop :: "byte list \<Rightarrow> nat \<Rightarrow> dinode \<Rightarrow> mkfs_st \<Rightarrow> (nat \<times> dinode \<times> mkfs_st) res" where
  "iappend_loop p off din s =
     (if p = [] then Ok (off, din, s)
      else
        let fbn = off div BSIZE in
        if \<not> fbn < MAXFILE then Panic ''assert''
        else
          bnd (block_for fbn din s) (\<lambda>(x, din, s).
          let n1 = min (length p) ((fbn + 1) * BSIZE - off) in
          bnd (rsect x s) (\<lambda>buf.
          iappend_loop (drop n1 p) (off + n1) din (wsect x (patch buf (off - fbn * BSIZE) (take n1 p)) s))))"
  by pat_completeness auto
termination
proof (relation "measure (\<lambda>(p, _). length p)")
  fix p :: "byte list" and off x xa
  assume "p \<noteq> []" "x = off div BSIZE" "xa = min (length p) ((x + 1) * BSIZE - off)"
  moreover have "off < (off div BSIZE + 1) * BSIZE" using dividend_less_div_times [of BSIZE off] by (simp add: add.commute)
  ultimately show "((drop xa p, off + xa, y), (p, off, z)) \<in> measure (\<lambda>(p, _). length p)" for y z by simp
qed simp

definition iappend :: "nat \<Rightarrow> byte list \<Rightarrow> mkfs_st \<Rightarrow> mkfs_st res" where
  "iappend inum p s =
     bnd (rinode inum s) (\<lambda>din.
     bnd (iappend_loop p (unat (di_size din)) din s) (\<lambda>(off, din, s).
     winode inum (din\<lparr>di_size := of_nat off\<rparr>) s))"

definition mk_balloc :: "nat \<Rightarrow> mkfs_st \<Rightarrow> mkfs_st res" where
  "mk_balloc used s =
     (if \<not> used < BSIZE * 8 then Panic ''assert''
      else Ok (wsect (of_nat (ninodes div IPB + 3))
        (fold (\<lambda>i buf. buf[i div 8 := (buf ! (i div 8)) OR push_bit (i mod 8) 1]) [0..<used] zeroes) s))"

text \<open>The loop that copies a file in pieces of 512 bytes.\<close>

function append_chunks :: "nat \<Rightarrow> byte list \<Rightarrow> mkfs_st \<Rightarrow> mkfs_st res" where
  "append_chunks inum data s =
     (if data = [] then Ok s
      else bnd (iappend inum (take BSIZE data) s) (append_chunks inum (drop BSIZE data)))"
  by pat_completeness auto
termination
  by (relation "measure (\<lambda>(_, data, _). length data)") (auto simp: BSIZE_def)

declare iappend_loop.simps [simp del] append_chunks.simps [simp del]

definition strip :: "byte list \<Rightarrow> byte list" where
  "strip name = (case name of c # r \<Rightarrow> if c = 95 then r else name | [] \<Rightarrow> [])"

definition copy_file :: "nat \<Rightarrow> byte list \<times> byte list \<Rightarrow> mkfs_st \<Rightarrow> mkfs_st res" where
  "copy_file rootino = (\<lambda>(name, data) s.
     if slash \<in> set name then Panic ''assert''
     else
       bnd (mk_ialloc T_FILE s) (\<lambda>(inum, s).
       bnd (iappend rootino (enc_dirent (of_nat inum) (strip name)) s) (\<lambda>s.
       append_chunks inum data s)))"

fun copy_files :: "nat \<Rightarrow> (byte list \<times> byte list) list \<Rightarrow> mkfs_st \<Rightarrow> mkfs_st res" where
  "copy_files rootino [] s = Ok s"
| "copy_files rootino (f # fs) s = bnd (copy_file rootino f s) (copy_files rootino fs)"

definition mk_used :: nat where
  "mk_used = ninodes div IPB + 3 + (mk_size div (BSIZE * 8) + 1)"

definition sb_block :: "byte list" where
  "sb_block = wr32 (wr32 (wr32 (wr32 zeroes 0 (of_nat mk_size)) 4 (of_nat mk_nblocks)) 8 (of_nat ninodes)) 12 (of_nat nlog)"

definition fix_root :: "nat \<Rightarrow> mkfs_st \<Rightarrow> mkfs_st res" where
  "fix_root rootino s =
     bnd (rinode rootino s) (\<lambda>din.
     winode rootino (din\<lparr>di_size := of_nat ((unat (di_size din) div BSIZE + 1) * BSIZE)\<rparr>) s)"

definition mkfs :: "(byte list \<times> byte list) list \<Rightarrow> mkfs_st res" where
  "mkfs files =
     (let s = \<lparr>img = \<lambda>_. [], isize = 0, freeblock = mk_used, usedblocks = mk_used, freeinode = 1\<rparr> in
      if mk_nblocks + usedblocks s + nlog \<noteq> mk_size then Panic ''assert''
      else
        let s = fold (\<lambda>i. wsect (of_nat i) zeroes) [0..<mk_nblocks + usedblocks s + nlog] s;
            s = wsect 1 sb_block s in
        bnd (mk_ialloc T_DIR s) (\<lambda>(rootino, s).
        if of_nat rootino \<noteq> ROOTINO then Panic ''assert''
        else
          bnd (iappend rootino (enc_dirent (of_nat rootino) [46]) s) (\<lambda>s.
          bnd (iappend rootino (enc_dirent (of_nat rootino) [46, 46]) s) (\<lambda>s.
          bnd (copy_files rootino files s) (\<lambda>s.
          bnd (fix_root rootino s) (\<lambda>s.
          mk_balloc (usedblocks s) s))))))"

section \<open>The files of an image\<close>

text \<open>
  The inodes \<open>F n\<close> for \<open>n\<close> in \<open>I\<close>: every block pointer leads to a block of its own between the first data block and
  \<open>fb\<close>, and the blocks from \<open>fb\<close> on have never been written.
\<close>

definition own_blocks :: "nat set \<Rightarrow> (nat \<Rightarrow> inode) \<Rightarrow> (u32 \<Rightarrow> byte list) \<Rightarrow> nat \<Rightarrow> bool" where
  "own_blocks I F V fb \<longleftrightarrow>
     (\<forall>n\<in>I. length (i_addrs (F n)) = Suc NDIRECT) \<and>
     (\<forall>n\<in>I. \<forall>j<NSLOT. ptr (F n) V j \<noteq> 0 \<longrightarrow> mk_used \<le> unat (ptr (F n) V j) \<and> unat (ptr (F n) V j) < fb) \<and>
     (\<forall>n\<in>I. \<forall>m\<in>I. \<forall>j<NSLOT. \<forall>k<NSLOT. ptr (F n) V j \<noteq> 0 \<and> ptr (F n) V j = ptr (F m) V k \<longrightarrow> n = m \<and> j = k)"

definition blank_from :: "(u32 \<Rightarrow> byte list) \<Rightarrow> nat \<Rightarrow> nat \<Rightarrow> bool" where
  "blank_from V fb N \<longleftrightarrow> (\<forall>a. unat a < N \<longrightarrow> length (V a) = BSIZE) \<and> (\<forall>a. fb \<le> unat a \<and> unat a < N \<longrightarrow> V a = zeroes) \<and>
     mk_used \<le> fb \<and> fb \<le> N \<and> N < 2 ^ 32"

lemma own_blocksD:
  assumes "own_blocks I F V fb" "n \<in> I"
  shows "length (i_addrs (F n)) = Suc NDIRECT"
    "j < NSLOT \<Longrightarrow> ptr (F n) V j \<noteq> 0 \<Longrightarrow> mk_used \<le> unat (ptr (F n) V j) \<and> unat (ptr (F n) V j) < fb"
    "m \<in> I \<Longrightarrow> j < NSLOT \<Longrightarrow> k < NSLOT \<Longrightarrow> ptr (F n) V j \<noteq> 0 \<Longrightarrow> ptr (F n) V j = ptr (F m) V k \<Longrightarrow> n = m \<and> j = k"
  using assms by (auto simp: own_blocks_def)

lemma fresh_number:
  assumes "blank_from V fb N" "fb < N"
  shows "unat (of_nat fb :: u32) = fb" "(of_nat fb :: u32) \<noteq> 0" "V (of_nat fb) = zeroes"
proof -
  show u: "unat (of_nat fb :: u32) = fb" using assms by (intro unat_of_nat32) (simp add: blank_from_def)
  show "(of_nat fb :: u32) \<noteq> 0" using u assms arg_cong [of "of_nat fb :: u32" 0 unat] by (auto simp: blank_from_def mk_used_def)
  show "V (of_nat fb) = zeroes" using assms u by (simp add: blank_from_def)
qed

lemma rd32_zeroes: "i + 4 \<le> BSIZE \<Longrightarrow> rd32 zeroes i = 0"
  by (simp add: rd32_def zeroes_def mk32_def)

lemma block_data_ptr: "block_data ip V k = (if ptr ip V (pslot k) = 0 then zeroes else V (ptr ip V (pslot k)))"
  by (simp add: block_data_def blk_def zeroes_def)

text \<open>Giving a pointer in the inode the next block: no data changes, because the block is blank.\<close>

lemma new_pointer:
  assumes o: "own_blocks I F V fb" and b: "blank_from V fb N" and n: "n \<in> I" and j: "j \<le> NDIRECT" "i_addrs (F n) ! j = 0" and fb: "fb < N"
  defines "F' \<equiv> F(n := (F n)\<lparr>i_addrs := (i_addrs (F n))[j := of_nat fb]\<rparr>)"
  shows "own_blocks I F' V (Suc fb)" "blank_from V (Suc fb) N" "k < NSLOT \<Longrightarrow> ptr (F' m) V k = (if m = n \<and> k = j then of_nat fb else ptr (F m) V k)"
    "k < MAXFILE \<Longrightarrow> block_data (F' m) V k = block_data (F m) V k"
proof -
  note a = fresh_number [OF b fb]
  note z = a(3)
  note len = own_blocksD(1) [OF o n]
  have p: "ptr (F' m) V k = (if m = n \<and> k = j then of_nat fb else ptr (F m) V k)" if "k < NSLOT" for m k
  proof (cases "m = n")
    case True
    have "rd32 (V (of_nat fb)) (4 * (k - Suc NDIRECT)) = 0" if "NDIRECT < k"
      unfolding z using \<open>k < NSLOT\<close> that by (intro rd32_zeroes) (simp add: NSLOT_def MAXFILE_def NDIRECT_def NINDIRECT_def BSIZE_def)
    then show ?thesis using True j len by (auto simp: F'_def ptr_def nth_list_update)
  next
    case False
    then show ?thesis by (simp add: F'_def)
  qed
  then show "k < NSLOT \<Longrightarrow> ptr (F' m) V k = (if m = n \<and> k = j then of_nat fb else ptr (F m) V k)" .
  have jn: "j < NSLOT" "ptr (F n) V j = 0" using j by (auto simp: NSLOT_def MAXFILE_def ptr_def)
  have old: "ptr (F m) V k \<noteq> of_nat fb" if "m \<in> I" "k < NSLOT" for m k
    using own_blocksD(2) [OF o that] a by (metis less_irrefl)
  show "own_blocks I F' V (Suc fb)"
    unfolding own_blocks_def
  proof (intro conjI ballI allI impI)
    fix m assume "m \<in> I"
    then show "length (i_addrs (F' m)) = Suc NDIRECT" using own_blocksD(1) [OF o, of m] len by (simp add: F'_def)
  next
    fix m k assume m: "m \<in> I" "k < NSLOT" "ptr (F' m) V k \<noteq> 0"
    show "mk_used \<le> unat (ptr (F' m) V k)"
      using own_blocksD(2) [OF o m(1,2)] m p [OF m(2), of m] a b by (auto simp: blank_from_def split: if_splits)
    show "unat (ptr (F' m) V k) < Suc fb"
      using own_blocksD(2) [OF o m(1,2)] m p [OF m(2), of m] a by (auto split: if_splits)
  next
    fix m m' k k' assume m: "m \<in> I" "m' \<in> I" "k < NSLOT" "k' < NSLOT" "ptr (F' m) V k \<noteq> 0 \<and> ptr (F' m) V k = ptr (F' m') V k'"
    have "m = m' \<and> k = k'"
      using own_blocksD(3) [OF o m(1,2,3,4)] m p [OF m(3), of m] p [OF m(4), of m'] old [OF m(1,3)] old [OF m(2,4)] by (metis (full_types))
    then show "m = m'" "k = k'" by auto
  qed
  show "blank_from V (Suc fb) N" using b fb by (auto simp: blank_from_def)
  show "block_data (F' m) V k = block_data (F m) V k" if "k < MAXFILE"
    using p [OF pslot_lt(1) [OF that], of m] a(2) z jn by (auto simp: block_data_ptr)
qed

text \<open>The same for a pointer in the indirect block.\<close>

lemma rd32_entry:
  assumes "4 * i + 4 \<le> length d"
  shows "rd32 (wr32 d (4 * i) a) (4 * k) = (if k = i then a else rd32 d (4 * k))"
  using assms by (cases k i rule: linorder_cases) (simp_all add: rd32_wr32_other)

lemma new_indirect:
  assumes o: "own_blocks I F V fb" and b: "blank_from V fb N" and n: "n \<in> I" and j: "NDIRECT < j" "j < NSLOT" and ind: "i_addrs (F n) ! NDIRECT \<noteq> 0"
    and free: "ptr (F n) V j = 0" and fb: "fb < N"
  defines "V' \<equiv> V(i_addrs (F n) ! NDIRECT := wr32 (V (i_addrs (F n) ! NDIRECT)) (4 * (j - Suc NDIRECT)) (of_nat fb))"
  shows "own_blocks I F V' (Suc fb)" "blank_from V' (Suc fb) N" "m \<in> I \<Longrightarrow> k < NSLOT \<Longrightarrow> ptr (F m) V' k = (if m = n \<and> k = j then of_nat fb else ptr (F m) V k)"
    "m \<in> I \<Longrightarrow> k < MAXFILE \<Longrightarrow> block_data (F m) V' k = block_data (F m) V k" "unat a < mk_used \<Longrightarrow> V' a = V a"
proof -
  let ?i = "i_addrs (F n) ! NDIRECT"
  note a = fresh_number [OF b fb]
  have pi: "ptr (F n) V NDIRECT = ?i" by (simp add: ptr_def)
  have il: "mk_used \<le> unat ?i" "unat ?i < fb" using own_blocksD(2) [OF o n pslot_lt(2)] ind unfolding pi by auto
  have li: "length (V ?i) = BSIZE" using b il fb by (simp add: blank_from_def)
  have only: "ptr (F m) V k = ?i \<longleftrightarrow> m = n \<and> k = NDIRECT" if "m \<in> I" "k < NSLOT" for m k
    using own_blocksD(3) [OF o n that(1) pslot_lt(2) that(2)] ind pi by auto
  note z = a(3)
  have ji: "4 * (j - Suc NDIRECT) + 4 \<le> BSIZE" using j by (simp add: NSLOT_def MAXFILE_def NDIRECT_def NINDIRECT_def BSIZE_def)
  have p: "ptr (F m) V' k = (if m = n \<and> k = j then of_nat fb else ptr (F m) V k)" if "m \<in> I" "k < NSLOT" for m k
  proof (cases "m = n")
    case True
    then show ?thesis using rd32_entry [of "j - Suc NDIRECT" "V ?i"] li ji j ind by (auto simp: ptr_def V'_def)
  next
    case False
    then have "i_addrs (F m) ! NDIRECT \<noteq> ?i" using only [OF that(1) pslot_lt(2)] by (simp add: ptr_def)
    then show ?thesis using False by (simp add: ptr_def V'_def)
  qed
  then show "m \<in> I \<Longrightarrow> k < NSLOT \<Longrightarrow> ptr (F m) V' k = (if m = n \<and> k = j then of_nat fb else ptr (F m) V k)" .
  have old: "ptr (F m) V k \<noteq> of_nat fb" if "m \<in> I" "k < NSLOT" for m k
    using own_blocksD(2) [OF o that] a by (metis less_irrefl)
  show "own_blocks I F V' (Suc fb)"
    unfolding own_blocks_def
  proof (intro conjI ballI allI impI)
    fix m assume "m \<in> I"
    then show "length (i_addrs (F m)) = Suc NDIRECT" using own_blocksD(1) [OF o] by simp
  next
    fix m k assume m: "m \<in> I" "k < NSLOT" "ptr (F m) V' k \<noteq> 0"
    show "mk_used \<le> unat (ptr (F m) V' k)"
      using own_blocksD(2) [OF o m(1,2)] m p [OF m(1,2)] a b by (auto simp: blank_from_def split: if_splits)
    show "unat (ptr (F m) V' k) < Suc fb"
      using own_blocksD(2) [OF o m(1,2)] m p [OF m(1,2)] a by (auto split: if_splits)
  next
    fix m m' k k' assume m: "m \<in> I" "m' \<in> I" "k < NSLOT" "k' < NSLOT" "ptr (F m) V' k \<noteq> 0 \<and> ptr (F m) V' k = ptr (F m') V' k'"
    have "m = m' \<and> k = k'"
      using own_blocksD(3) [OF o m(1,2,3,4)] m p [OF m(1,3)] p [OF m(2,4)] old [OF m(1,3)] old [OF m(2,4)] by (metis (full_types))
    then show "m = m'" "k = k'" by auto
  qed
  show "blank_from V' (Suc fb) N" using b fb il li by (auto simp: blank_from_def V'_def)
  show "block_data (F m) V' k = block_data (F m) V k" if m: "m \<in> I" and k: "k < MAXFILE"
  proof -
    have "ptr (F m) V (pslot k) \<noteq> ?i" using only [OF m pslot_lt(1) [OF k]] pslot_inj(2) [of k] by simp
    moreover have "of_nat fb \<noteq> ?i" using il a by (metis less_irrefl)
    ultimately show ?thesis using p [OF m pslot_lt(1) [OF k]] a(2) z free by (auto simp: block_data_ptr V'_def)
  qed
  show "unat a < mk_used \<Longrightarrow> V' a = V a" using il by (auto simp: V'_def)
qed

text \<open>Storing data in a block of a file.\<close>

lemma store_block:
  assumes o: "own_blocks I F V fb" and b: "blank_from V fb N" and n: "n \<in> I" and k: "k < MAXFILE" "blk (F n) V k \<noteq> 0" and d: "length d = BSIZE"
  defines "V' \<equiv> V(blk (F n) V k := d)"
  shows "own_blocks I F V' fb" "blank_from V' fb N" "m \<in> I \<Longrightarrow> ptr (F m) V' = ptr (F m) V"
    "m \<in> I \<Longrightarrow> i < MAXFILE \<Longrightarrow> block_data (F m) V' i = (if m = n \<and> i = k then d else block_data (F m) V i)" "unat a < mk_used \<Longrightarrow> V' a = V a"
proof -
  let ?a = "blk (F n) V k"
  have pa: "ptr (F n) V (pslot k) = ?a" by (simp add: blk_def)
  have al: "mk_used \<le> unat ?a" "unat ?a < fb" using own_blocksD(2) [OF o n pslot_lt(1) [OF k(1)]] k(2) unfolding pa by auto
  have only: "ptr (F m) V i = ?a \<longleftrightarrow> m = n \<and> i = pslot k" if "m \<in> I" "i < NSLOT" for m i
    using own_blocksD(3) [OF o n that(1) pslot_lt(1) [OF k(1)] that(2)] k(2) pa by auto
  have p: "ptr (F m) V' = ptr (F m) V" if "m \<in> I" for m
  proof -
    have "i_addrs (F m) ! NDIRECT \<noteq> ?a" if "i_addrs (F m) ! NDIRECT \<noteq> 0"
      using only [OF \<open>m \<in> I\<close> pslot_lt(2)] pslot_inj(2) [of k] by (auto simp: ptr_def)
    then show ?thesis by (auto simp: ptr_def V'_def fun_eq_iff)
  qed
  then show "m \<in> I \<Longrightarrow> ptr (F m) V' = ptr (F m) V" .
  show "own_blocks I F V' fb" using o p by (auto simp: own_blocks_def)
  show "blank_from V' fb N" using b al d by (auto simp: blank_from_def V'_def)
  show "block_data (F m) V' i = (if m = n \<and> i = k then d else block_data (F m) V i)" if m: "m \<in> I" and i: "i < MAXFILE"
    using only [OF m pslot_lt(1) [OF i]] p [OF m] k(2) pslot_inj(1) [of i k] pa by (auto simp: block_data_ptr V'_def)
  show "unat a < mk_used \<Longrightarrow> V' a = V a" using al by (auto simp: V'_def)
qed

section \<open>Appending to a file\<close>

definition din_inode :: "nat \<Rightarrow> dinode \<Rightarrow> inode" where
  "din_inode n di = \<lparr>i_dev = 1, i_inum = of_nat n, i_ref = 1, i_busy = True, i_valid = True, i_type = di_type di, i_major = di_major di,
     i_minor = di_minor di, i_nlink = di_nlink di, i_size = di_size di, i_addrs = di_addrs di\<rparr>"

lemma din_inode_simps [simp]:
  "i_addrs (din_inode n di) = di_addrs di" "i_size (din_inode n di) = di_size di" "i_type (din_inode n di) = di_type di"
  "i_dev (din_inode n di) = 1" "i_inum (din_inode n di) = of_nat n"
  "(din_inode n di)\<lparr>i_addrs := as\<rparr> = din_inode n (di\<lparr>di_addrs := as\<rparr>)"
  "(din_inode n di)\<lparr>i_size := z\<rparr> = din_inode n (di\<lparr>di_size := z\<rparr>)"
  by (simp_all add: din_inode_def)

definition mk_inv :: "nat set \<Rightarrow> (nat \<Rightarrow> inode) \<Rightarrow> mkfs_st \<Rightarrow> bool" where
  "mk_inv I F s \<longleftrightarrow> own_blocks I F (img s) (freeblock s) \<and> blank_from (img s) (freeblock s) (isize s) \<and> usedblocks s = freeblock s"

text \<open>Everything but new blocks and their contents is kept.\<close>

definition mk_step :: "nat \<Rightarrow> mkfs_st \<Rightarrow> mkfs_st \<Rightarrow> bool" where
  "mk_step c s s' \<longleftrightarrow> isize s' = isize s \<and> freeinode s' = freeinode s \<and> (\<forall>a. unat a < mk_used \<longrightarrow> img s' a = img s a) \<and>
     freeblock s' \<le> freeblock s + c"

definition same_data :: "nat set \<Rightarrow> (nat \<Rightarrow> inode) \<Rightarrow> mkfs_st \<Rightarrow> (nat \<Rightarrow> inode) \<Rightarrow> mkfs_st \<Rightarrow> bool" where
  "same_data I F s F' s' \<longleftrightarrow> (\<forall>m\<in>I. \<forall>k<MAXFILE. block_data (F' m) (img s') k = block_data (F m) (img s) k \<and>
     (blk (F m) (img s) k \<noteq> 0 \<longrightarrow> blk (F' m) (img s') k \<noteq> 0))"

lemma mk_step_trans: "mk_step c s s' \<Longrightarrow> mk_step d s' s'' \<Longrightarrow> mk_step (c + d) s s''"
  by (auto simp: mk_step_def)

lemma mk_step_mono: "mk_step c s s' \<Longrightarrow> c \<le> d \<Longrightarrow> mk_step d s s'"
  by (auto simp: mk_step_def)

lemma same_data_trans: "same_data I F s F' s' \<Longrightarrow> same_data I F' s' F'' s'' \<Longrightarrow> same_data I F s F'' s''"
  by (simp add: same_data_def)

lemma give_block_ok:
  assumes "mk_inv I F s" "n \<in> I" "F n = din_inode n din" "j \<le> NDIRECT" "di_addrs din ! j = 0 \<Longrightarrow> freeblock s < isize s"
  shows "\<exists>as s'. give_block j din s = (din\<lparr>di_addrs := as\<rparr>, s') \<and> mk_inv I (F(n := din_inode n (din\<lparr>di_addrs := as\<rparr>))) s' \<and> as ! j \<noteq> 0 \<and>
    same_data I F s (F(n := din_inode n (din\<lparr>di_addrs := as\<rparr>))) s' \<and> mk_step (if di_addrs din ! j = 0 then 1 else 0) s s' \<and>
    (\<forall>k<NSLOT. ptr (F n) (img s) k \<noteq> 0 \<longrightarrow> ptr (din_inode n (din\<lparr>di_addrs := as\<rparr>)) (img s') k \<noteq> 0)"
proof (cases "di_addrs din ! j = 0")
  case False
  then show ?thesis
    using assms by (intro exI [of _ "di_addrs din"] exI [of _ s]) (simp add: give_block_def same_data_def mk_step_def fun_upd_idem)
next
  case True
  have o: "own_blocks I F (img s) (freeblock s)" and b: "blank_from (img s) (freeblock s) (isize s)" and u: "usedblocks s = freeblock s"
    using assms(1) by (auto simp: mk_inv_def)
  note np = new_pointer [OF o b assms(2) assms(4) _ assms(5) [OF True], unfolded assms(3) din_inode_simps, OF True]
  let ?as = "(di_addrs din)[j := of_nat (freeblock s)]" let ?F = "F(n := din_inode n (din\<lparr>di_addrs := ?as\<rparr>))"
  let ?s = "s\<lparr>freeblock := freeblock s + 1, usedblocks := usedblocks s + 1\<rparr>"
  note fn = fresh_number(2) [OF b assms(5) [OF True]]
  have jl: "j < NSLOT" using assms(4) by (auto simp: NSLOT_def MAXFILE_def)
  have p: "ptr (F m) (img s) k \<noteq> 0 \<Longrightarrow> ptr (?F m) (img s) k \<noteq> 0" if "k < NSLOT" for m k
    using np(3) [OF that, of m] fn by (simp split: if_splits)
  have "mk_inv I ?F ?s" using np(1,2) u by (simp add: mk_inv_def)
  moreover have "same_data I F s ?F ?s" using np(4) p [OF pslot_lt(1)] by (simp add: same_data_def blk_def)
  moreover have "?as ! j \<noteq> 0" using np(3) [OF jl, of n] assms(4) fn by (simp add: ptr_def)
  ultimately show ?thesis
    using True u p [of _ n] by (intro exI [of _ ?as] exI [of _ ?s]) (simp add: give_block_def new_block_def mk_step_def)
qed

definition bcost :: "nat \<Rightarrow> nat" where
  "bcost fbn = (if fbn = NDIRECT then 2 else 1)"

lemma indirect_entry:
  assumes "mk_inv I F s" "n \<in> I" "F n = din_inode n din" "di_addrs din ! NDIRECT \<noteq> 0" "NDIRECT \<le> fbn" "fbn < MAXFILE"
    "blk (F n) (img s) fbn = 0 \<Longrightarrow> freeblock s < isize s"
  shows "\<exists>a s'. bnd (rsect (di_addrs din ! NDIRECT) s) (\<lambda>indirect.
        if rd32 indirect (4 * (fbn - NDIRECT)) = 0 then
          let (a, s) = new_block s in
          Ok (a, din, wsect (di_addrs din ! NDIRECT) (wr32 indirect (4 * (fbn - NDIRECT)) a) s)
        else Ok (rd32 indirect (4 * (fbn - NDIRECT)), din, s)) = Ok (a, din, s') \<and>
    mk_inv I F s' \<and> same_data I F s F s' \<and> mk_step (if blk (F n) (img s) fbn = 0 then 1 else 0) s s' \<and> a = blk (F n) (img s') fbn \<and> a \<noteq> 0"
proof -
  have o: "own_blocks I F (img s) (freeblock s)" and b: "blank_from (img s) (freeblock s) (isize s)" and u: "usedblocks s = freeblock s"
    using assms(1) by (auto simp: mk_inv_def)
  let ?i = "di_addrs din ! NDIRECT" and ?j = "Suc fbn"
  have j: "NDIRECT < ?j" "?j < NSLOT" using assms(5,6) by (simp_all add: NSLOT_def)
  have ia: "i_addrs (F n) ! NDIRECT = ?i" using assms(3) by simp
  have pn: "ptr (F n) V NDIRECT = ?i" for V using assms(3) by (simp add: ptr_def)
  have il: "unat ?i < isize s" using own_blocksD(2) [OF o assms(2) pslot_lt(2)] assms(4) b unfolding pn by (auto simp: blank_from_def)
  have e: "rd32 (img s ?i) (4 * (fbn - NDIRECT)) = ptr (F n) (img s) ?j" using j assms(3,4) by (simp add: ptr_def)
  have bk: "blk (F n) V fbn = ptr (F n) V ?j" for V using assms(5) by (simp add: blk_def pslot_def)
  show ?thesis
  proof (cases "ptr (F n) (img s) ?j = 0")
    case False
    then show ?thesis using il e bk assms(1)
      by (intro exI [of _ "ptr (F n) (img s) ?j"] exI [of _ s]) (simp add: rsect_def same_data_def mk_step_def)
  next
    case True
    then have fr: "freeblock s < isize s" using assms(7) bk by simp
    let ?a = "of_nat (freeblock s) :: u32"
    let ?s = "wsect ?i (wr32 (img s ?i) (4 * (fbn - NDIRECT)) ?a) (s\<lparr>freeblock := freeblock s + 1, usedblocks := usedblocks s + 1\<rparr>)"
    note ni = new_indirect [OF o b assms(2) j _ True fr, unfolded ia, OF assms(4)]
    have im: "img ?s = (img s)(?i := wr32 (img s ?i) (4 * (?j - Suc NDIRECT)) ?a)" "isize ?s = isize s"
      using il by (simp_all add: wsect_def)
    have p: "ptr (F m) (img ?s) k = (if m = n \<and> k = ?j then ?a else ptr (F m) (img s) k)" if "m \<in> I" "k < NSLOT" for m k
      using ni(3) [OF that] im by simp
    have "mk_inv I F ?s" using ni(1,2) u im by (simp add: mk_inv_def wsect_def)
    moreover have "same_data I F s F ?s"
      unfolding same_data_def using ni(4) p [OF _ pslot_lt(1)] fresh_number(2) [OF b fr] im by (auto simp: blk_def)
    moreover have "mk_step (if blk (F n) (img s) fbn = 0 then 1 else 0) s ?s" using ni(5) im u True bk by (simp add: mk_step_def) (simp add: wsect_def)
    moreover have "blk (F n) (img ?s) fbn = ?a" using p [OF assms(2) j(2)] bk by simp
    ultimately show ?thesis
      using il e True fresh_number(2) [OF b fr] by (intro exI [of _ ?a] exI [of _ ?s]) (simp add: rsect_def new_block_def Let_def)
  qed
qed

lemma block_for_ok:
  assumes "mk_inv I F s" "n \<in> I" "F n = din_inode n din" "fbn < MAXFILE" "\<forall>k<fbn. blk (F n) (img s) k \<noteq> 0"
    "freeblock s + (if blk (F n) (img s) fbn = 0 then bcost fbn else 0) \<le> isize s"
  shows "\<exists>a as s'. block_for fbn din s = Ok (a, din\<lparr>di_addrs := as\<rparr>, s') \<and> (let F' = F(n := din_inode n (din\<lparr>di_addrs := as\<rparr>)) in
    mk_inv I F' s' \<and> same_data I F s F' s' \<and> mk_step (if blk (F n) (img s) fbn = 0 then bcost fbn else 0) s s' \<and>
    a = blk (F' n) (img s') fbn \<and> a \<noteq> 0)"
proof (cases "fbn < NDIRECT")
  case True
  have b: "blk (F n) (img s) fbn = di_addrs din ! fbn" using blk_ptr(1) [OF True] assms(3) by simp
  then have "di_addrs din ! fbn = 0 \<Longrightarrow> freeblock s < isize s" using assms(6) by (simp add: bcost_def split: if_splits)
  from give_block_ok [OF assms(1-3) less_imp_le [OF True] this] obtain as s' where
    g: "give_block fbn din s = (din\<lparr>di_addrs := as\<rparr>, s')" "mk_inv I (F(n := din_inode n (din\<lparr>di_addrs := as\<rparr>))) s'" "as ! fbn \<noteq> 0"
      "same_data I F s (F(n := din_inode n (din\<lparr>di_addrs := as\<rparr>))) s'" "mk_step (if di_addrs din ! fbn = 0 then 1 else 0) s s'" by blast
  have "mk_step (if blk (F n) (img s) fbn = 0 then bcost fbn else 0) s s'" using mk_step_mono [OF g(5)] b by (simp add: bcost_def)
  then show ?thesis using g True
    by (intro exI [of _ "as ! fbn"] exI [of _ as] exI [of _ s']) (simp add: block_for_def Let_def blk_ptr(1))
next
  case False
  then have ge: "NDIRECT \<le> fbn" by simp
  have nd: "di_addrs din ! NDIRECT = 0 \<Longrightarrow> blk (F n) (img s) fbn = 0" using blk_ptr(2) [OF ge, of "F n" "img s"] assms(3) by auto
  then have "di_addrs din ! NDIRECT = 0 \<Longrightarrow> freeblock s < isize s" using assms(6) by (simp add: bcost_def split: if_splits)
  from give_block_ok [OF assms(1-3) order_refl this] obtain as s1 where
    g: "give_block NDIRECT din s = (din\<lparr>di_addrs := as\<rparr>, s1)" "mk_inv I (F(n := din_inode n (din\<lparr>di_addrs := as\<rparr>))) s1" "as ! NDIRECT \<noteq> 0"
      "same_data I F s (F(n := din_inode n (din\<lparr>di_addrs := as\<rparr>))) s1" "mk_step (if di_addrs din ! NDIRECT = 0 then 1 else 0) s s1" by blast
  let ?din = "din\<lparr>di_addrs := as\<rparr>" let ?F = "F(n := din_inode n ?din)"
  let ?c = "if di_addrs din ! NDIRECT = 0 then 1 else 0" and ?d = "if blk (?F n) (img s1) fbn = 0 then 1 else 0"
  have keeps: "blk (?F n) (img s1) fbn = 0 \<Longrightarrow> blk (F n) (img s) fbn = 0"
    using g(4) assms(2,4) unfolding same_data_def by blast
  have "fbn = NDIRECT \<or> di_addrs din ! NDIRECT \<noteq> 0"
    using assms(3,5) blk_ptr(2) [of NDIRECT "F n" "img s"] ge by (cases "fbn = NDIRECT") auto
  then have cost: "?c + ?d \<le> (if blk (F n) (img s) fbn = 0 then bcost fbn else 0)"
    using nd keeps by (auto simp: bcost_def)
  have "?c + 1 \<le> (if blk (F n) (img s) fbn = 0 then bcost fbn else 0)" if "blk (?F n) (img s1) fbn = 0" using cost that by simp
  then have s1: "blk (?F n) (img s1) fbn = 0 \<Longrightarrow> freeblock s1 < isize s1" using g(5) assms(6) unfolding mk_step_def by linarith
  obtain a s' where
    i: "bnd (rsect (di_addrs ?din ! NDIRECT) s1) (\<lambda>indirect.
        if rd32 indirect (4 * (fbn - NDIRECT)) = 0 then
          let (a, s) = new_block s1 in
          Ok (a, ?din, wsect (di_addrs ?din ! NDIRECT) (wr32 indirect (4 * (fbn - NDIRECT)) a) s)
        else Ok (rd32 indirect (4 * (fbn - NDIRECT)), ?din, s1)) = Ok (a, ?din, s')"
      "mk_inv I ?F s'" "same_data I ?F s1 ?F s'" "mk_step ?d s1 s'" "a = blk (?F n) (img s') fbn" "a \<noteq> 0"
    using indirect_entry [OF g(2) assms(2) _ _ ge assms(4) s1, of ?din] g(3) by fastforce
  have "block_for fbn din s = Ok (a, ?din, s')" using False g(1) i(1) by (simp add: block_for_def Let_def)
  moreover note mk_step_mono [OF mk_step_trans [OF g(5) i(4)] cost]
  ultimately show ?thesis using i(2,5,6) same_data_trans [OF g(4) i(3)] by (auto simp: Let_def)
qed

end
