(* ===== verification/Mkfs_Image.thy ===== *)
theory Mkfs_Image
  imports Mkfs
begin

text \<open>
  The image that \<open>mkfs.c\<close> makes, as a set of files. \<open>iappend\<close> refines the concatenation of byte lists; the image
  that \<open>mkfs\<close> returns holds the files of the command line, the directory that names them, and the block bitmap, and its inodes are
  in the form that the theorems on the kernel's file system ask for.
\<close>

section \<open>One file\<close>

definition holds :: "inode \<Rightarrow> (u32 \<Rightarrow> byte list) \<Rightarrow> byte list \<Rightarrow> bool" where
  "holds ip V d \<longleftrightarrow> length d \<le> MAXFILE * BSIZE \<and> (\<forall>k. k * BSIZE < length d \<longrightarrow> blk ip V k \<noteq> 0) \<and>
     (\<forall>x<MAXFILE * BSIZE. file_byte ip V x = (if x < length d then d ! x else 0))"

lemma holdsD:
  assumes "holds ip V d"
  shows "length d \<le> MAXFILE * BSIZE" "k * BSIZE < length d \<Longrightarrow> blk ip V k \<noteq> 0"
    "x < MAXFILE * BSIZE \<Longrightarrow> file_byte ip V x = (if x < length d then d ! x else 0)"
  using assms by (auto simp: holds_def)

lemma holds_cong:
  assumes "holds ip V d" "\<And>k. k < MAXFILE \<Longrightarrow> block_data ip' V' k = block_data ip V k"
    "\<And>k. k < MAXFILE \<Longrightarrow> blk ip V k \<noteq> 0 \<Longrightarrow> blk ip' V' k \<noteq> 0"
  shows "holds ip' V' d"
  unfolding holds_def
proof (intro conjI allI impI)
  show l: "length d \<le> MAXFILE * BSIZE" using holdsD(1) [OF assms(1)] .
  show "blk ip' V' k \<noteq> 0" if "k * BSIZE < length d" for k
  proof -
    have "k * BSIZE < MAXFILE * BSIZE" using that l by linarith
    then have "k < MAXFILE" by simp
    then show ?thesis using assms(3) holdsD(2) [OF assms(1) that] by blast
  qed
  show "file_byte ip' V' x = (if x < length d then d ! x else 0)" if "x < MAXFILE * BSIZE" for x
    using holdsD(3) [OF assms(1) that] assms(2) [OF MAXFILE_block [OF that]] by (simp add: file_byte_def)
qed

lemma same_data_holds: "same_data I F s F' s' \<Longrightarrow> m \<in> I \<Longrightarrow> holds (F m) (img s) d \<Longrightarrow> holds (F' m) (img s') d"
  by (erule holds_cong) (auto simp: same_data_def)

lemma holds_contents: "holds ip V d \<Longrightarrow> unat (i_size ip) = length d \<Longrightarrow> contents ip V = d"
  using holdsD(1,3) [of ip V d] by (intro nth_equalityI) (auto simp: contents_def)

text \<open>The number of blocks of a file, with the indirect block.\<close>

definition nblk :: "nat \<Rightarrow> nat" where
  "nblk l = (let k = (l + BSIZE - 1) div BSIZE in k + (if NDIRECT < k then 1 else 0))"

lemma nblk_0 [simp]: "nblk 0 = 0"
  by (simp add: nblk_def BSIZE_def)

lemma nblk_mono: "l \<le> m \<Longrightarrow> nblk l \<le> nblk m"
proof -
  assume "l \<le> m"
  then have "(l + BSIZE - 1) div BSIZE \<le> (m + BSIZE - 1) div BSIZE" by (intro div_le_mono) simp
  then show ?thesis by (simp add: nblk_def Let_def)
qed

lemma nblk_piece:
  assumes "0 < n"
  shows "nblk (off + piece off n) = nblk off + (if off mod BSIZE = 0 then bcost (off div BSIZE) else 0)"
proof -
  have up: "(x + BSIZE - 1) div BSIZE = (if x mod BSIZE = 0 then x div BSIZE else x div BSIZE + 1)" for x
  proof -
    have r: "(x mod BSIZE + (BSIZE - 1)) div BSIZE = (if x mod BSIZE = 0 then 0 else 1)"
      using mod_less_divisor [of BSIZE x] by (auto simp: BSIZE_def)
    have "x + BSIZE - 1 = (x mod BSIZE + (BSIZE - 1)) + BSIZE * (x div BSIZE)"
      using mult_div_mod_eq [of BSIZE x] BSIZE_nonzero(2) by linarith
    then show ?thesis using div_mult_self2 [OF BSIZE_nonzero(1), of "x mod BSIZE + (BSIZE - 1)" "x div BSIZE"] r by (simp only: split: if_splits) auto
  qed
  have p: "(off + piece off n + BSIZE - 1) div BSIZE = off div BSIZE + 1"
  proof -
    have "off + piece off n + BSIZE - 1 = (off + (piece off n - 1)) + BSIZE" using piece_facts(1) [OF assms, of off] by simp
    moreover have "(off + (piece off n - 1)) div BSIZE = off div BSIZE"
      using piece_facts(4) [OF assms, of "piece off n - 1" off] piece_facts(1) [OF assms, of off] by simp
    ultimately show ?thesis using div_add_self2 [OF BSIZE_nonzero(1)] by (simp only:)
  qed
  show ?thesis unfolding nblk_def Let_def p up [of off] by (auto simp: bcost_def)
qed

lemma append_piece:
  assumes "mk_inv I F s" "n \<in> I" "holds (F n) (img s) d" "0 < length p" "length d div BSIZE < MAXFILE"
    "blk (F n) (img s) (length d div BSIZE) \<noteq> 0"
  defines "a \<equiv> blk (F n) (img s) (length d div BSIZE)" and "m \<equiv> piece (length d) (length p)"
  defines "s' \<equiv> wsect a (patch (img s a) (length d mod BSIZE) (take m p)) s"
  shows "rsect a s = Ok (img s a)" "mk_inv I F s'" "holds (F n) (img s') (d @ take m p)" "mk_step 0 s s'"
    "k \<in> I \<Longrightarrow> k \<noteq> n \<Longrightarrow> holds (F k) (img s) e \<Longrightarrow> holds (F k) (img s') e"
proof -
  let ?off = "length d"
  have o: "own_blocks I F (img s) (freeblock s)" and b: "blank_from (img s) (freeblock s) (isize s)" and u: "usedblocks s = freeblock s"
    using assms(1) by (auto simp: mk_inv_def)
  note a0 = assms(6) [folded a_def]
  have al: "unat a < isize s" using own_blocksD(2) [OF o assms(2) pslot_lt(1) [OF assms(5)]] assms(6) b
    unfolding a_def blank_from_def blk_def by auto
  then show "rsect a s = Ok (img s a)" by (simp add: rsect_def)
  have len: "length (img s a) = BSIZE" using al b by (simp add: blank_from_def)
  note m = piece_facts [OF assms(4), where off = ?off, folded m_def]
  have d: "length (patch (img s a) (?off mod BSIZE) (take m p)) = BSIZE" using m(2,3) len by simp
  note sb = store_block [OF o b assms(2,5,6) d, folded a_def]
  have im: "img s' = (img s)(a := patch (img s a) (?off mod BSIZE) (take m p))" "isize s' = isize s" "freeblock s' = freeblock s"
    "usedblocks s' = usedblocks s" "freeinode s' = freeinode s" using al by (simp_all add: s'_def wsect_def)
  show "mk_inv I F s'" using sb(1,2) u im by (simp add: mk_inv_def)
  show "mk_step 0 s s'" using sb(5) im by (simp add: mk_step_def)
  note bd = sb(4) [folded im(1)]
  have bk: "k \<in> I \<Longrightarrow> blk (F k) (img s') = blk (F k) (img s)" for k using sb(3) [folded im(1)] by (simp add: blk_def fun_eq_iff)
  show "k \<in> I \<Longrightarrow> k \<noteq> n \<Longrightarrow> holds (F k) (img s) e \<Longrightarrow> holds (F k) (img s') e" by (erule holds_cong) (simp_all add: bd bk)
  have top: "?off + m \<le> MAXFILE * BSIZE"
  proof -
    have "?off + m \<le> (?off div BSIZE + 1) * BSIZE" using m(3) div_mult_mod_eq [of ?off BSIZE] unfolding distrib_right by linarith
    also have "\<dots> \<le> MAXFILE * BSIZE" using assms(5) by (intro mult_le_mono1) simp
    finally show ?thesis .
  qed
  show "holds (F n) (img s') (d @ take m p)"
    unfolding holds_def
  proof (intro conjI allI impI)
    show "length (d @ take m p) \<le> MAXFILE * BSIZE" using top m(2) by simp
  next
    fix k assume k: "k * BSIZE < length (d @ take m p)"
    show "blk (F n) (img s') k \<noteq> 0"
    proof (cases "k * BSIZE < ?off")
      case True
      then show ?thesis using holdsD(2) [OF assms(3)] bk [OF assms(2)] by simp
    next
      case False
      then have "k = ?off div BSIZE" using m(2) m(4) [of "k * BSIZE - ?off"] k by simp
      then show ?thesis using assms(6) bk [OF assms(2)] by simp
    qed
  next
    fix x assume x: "x < MAXFILE * BSIZE"
    note f = holdsD(3) [OF assms(3) x]
    note db = bd [OF assms(2) MAXFILE_block [OF x]]
    show "file_byte (F n) (img s') x = (if x < length (d @ take m p) then (d @ take m p) ! x else 0)"
    proof (cases "x div BSIZE = ?off div BSIZE")
      case True
      have "length (take m p) = piece ?off (length p)" using m(2) by (simp add: m_def)
      then have "file_byte (F n) (img s') x = (if ?off \<le> x \<and> x < ?off + m then take m p ! (x - ?off) else img s a ! (x mod BSIZE))"
        using byte_of_patch [OF len _ assms(4) True] db True by (simp add: file_byte_def m_def)
      moreover have "img s a ! (x mod BSIZE) = file_byte (F n) (img s) x" using True a0 by (simp add: file_byte_def block_data_def a_def)
      ultimately show ?thesis using f m(2) by (auto simp: nth_append)
    next
      case False
      then have "\<not> (?off \<le> x \<and> x < ?off + m)" using m(4) [of "x - ?off"] by (cases "x - ?off < m") auto
      then show ?thesis using f db False m(2) by (auto simp: file_byte_def nth_append)
    qed
  qed
qed

definition loop_post :: "nat set \<Rightarrow> (nat \<Rightarrow> inode) \<Rightarrow> nat \<Rightarrow> dinode \<Rightarrow> byte list \<Rightarrow> byte list \<Rightarrow> mkfs_st \<Rightarrow> u32 list \<Rightarrow> mkfs_st \<Rightarrow> bool" where
  "loop_post I F n din d p s as s' \<longleftrightarrow> mk_inv I (F(n := din_inode n (din\<lparr>di_addrs := as\<rparr>))) s' \<and>
     holds (din_inode n (din\<lparr>di_addrs := as\<rparr>)) (img s') (d @ p) \<and>
     (\<forall>k\<in>I. \<forall>e. k \<noteq> n \<and> holds (F k) (img s) e \<longrightarrow> holds (F k) (img s') e) \<and>
     mk_step (nblk (length d + length p) - nblk (length d)) s s'"

lemma loop_turn:
  assumes "mk_inv I F s" "n \<in> I" "F n = din_inode n din" "holds (F n) (img s) d" "p \<noteq> []" "length d + length p \<le> MAXFILE * BSIZE"
    "freeblock s + nblk (length d + length p) \<le> isize s + nblk (length d)"
  defines "m \<equiv> piece (length d) (length p)"
  shows "\<exists>as s'. iappend_loop p (length d) din s = iappend_loop (drop m p) (length d + m) (din\<lparr>di_addrs := as\<rparr>) s' \<and>
    loop_post I F n din d (take m p) s as s'"
proof -
  let ?off = "length d" let ?fbn = "?off div BSIZE"
  let ?c = "if blk (F n) (img s) ?fbn = 0 then bcost ?fbn else 0"
  have p: "0 < length p" using assms(5) by simp
  note m = piece_facts [OF p, where off = ?off, folded m_def]
  have fbn: "?fbn < MAXFILE" using assms(6) p by (intro MAXFILE_block) linarith
  have before: "k * BSIZE < ?off" if "k < ?fbn" for k
  proof -
    have "Suc k * BSIZE \<le> ?fbn * BSIZE" using that by (intro mult_le_mono1) simp
    then show ?thesis using div_times_less_eq_dividend [of ?off BSIZE] BSIZE_nonzero(2) unfolding mult_Suc by linarith
  qed
  have "?fbn * BSIZE < ?off" if "?off mod BSIZE \<noteq> 0" using div_mult_mod_eq [of ?off BSIZE] that by linarith
  then have "?off mod BSIZE = 0 \<or> blk (F n) (img s) ?fbn \<noteq> 0" using holdsD(2) [OF assms(4)] by blast
  then have cost: "nblk ?off + ?c \<le> nblk (?off + m)" unfolding m_def nblk_piece [OF p] by auto
  moreover have "nblk (?off + m) \<le> nblk (?off + length p)" using m(2) by (intro nblk_mono) simp
  ultimately have room: "freeblock s + ?c \<le> isize s" using assms(7) by linarith
  obtain a as s1 where b: "block_for ?fbn din s = Ok (a, din\<lparr>di_addrs := as\<rparr>, s1)"
    "mk_inv I (F(n := din_inode n (din\<lparr>di_addrs := as\<rparr>))) s1" "same_data I F s (F(n := din_inode n (din\<lparr>di_addrs := as\<rparr>))) s1"
    "mk_step ?c s s1" "a = blk (din_inode n (din\<lparr>di_addrs := as\<rparr>)) (img s1) ?fbn" "a \<noteq> 0"
    using block_for_ok [OF assms(1-3) fbn _ room] before holdsD(2) [OF assms(4)] by (auto simp: Let_def)
  let ?F = "F(n := din_inode n (din\<lparr>di_addrs := as\<rparr>))"
  let ?s = "wsect a (patch (img s1 a) (?off mod BSIZE) (take m p)) s1"
  have h1: "holds (?F n) (img s1) d" using same_data_holds [OF b(3) assms(2,4)] .
  have bn: "blk (?F n) (img s1) ?fbn \<noteq> 0" using b(5,6) by simp
  have an: "blk (?F n) (img s1) ?fbn = a" using b(5) by simp
  note ap = append_piece [OF b(2) assms(2) h1 p fbn bn, unfolded an, folded m_def]
  have "?off - ?fbn * BSIZE = ?off mod BSIZE" "min (length p) ((?fbn + 1) * BSIZE - ?off) = m"
  proof -
    show r: "?off - ?fbn * BSIZE = ?off mod BSIZE" by (simp add: minus_div_mult_eq_mod)
    then have "(?fbn + 1) * BSIZE - ?off = BSIZE - ?off mod BSIZE"
      using div_mult_mod_eq [of ?off BSIZE] unfolding distrib_right by linarith
    then show "min (length p) ((?fbn + 1) * BSIZE - ?off) = m" by (simp add: m_def piece_def)
  qed
  then have "iappend_loop p ?off din s = iappend_loop (drop m p) (?off + m) (din\<lparr>di_addrs := as\<rparr>) ?s"
    using assms(5) fbn b(1) ap(1) by (subst iappend_loop.simps) (simp add: Let_def)
  moreover have "mk_step (nblk (?off + length (take m p)) - nblk ?off) s ?s"
    using mk_step_mono [OF mk_step_trans [OF b(4) ap(4)]] cost min_absorb2 [OF m(2)] by simp
  moreover have "holds (F k) (img ?s) e" if "k \<in> I" "k \<noteq> n" "holds (F k) (img s) e" for k e
    using ap(5) [OF that(1,2)] same_data_holds [OF b(3) that(1,3)] that(2) by simp
  ultimately show ?thesis using ap(2,3) unfolding loop_post_def by (intro exI [of _ as] exI [of _ ?s]) (simp add: fun_upd_def)
qed

lemma iappend_loop_ok:
  assumes "mk_inv I F s" "n \<in> I" "F n = din_inode n din" "holds (F n) (img s) d" "length d + length p \<le> MAXFILE * BSIZE"
    "freeblock s + nblk (length d + length p) \<le> isize s + nblk (length d)"
  shows "\<exists>as s'. iappend_loop p (length d) din s = Ok (length d + length p, din\<lparr>di_addrs := as\<rparr>, s') \<and> loop_post I F n din d p s as s'"
  using assms
proof (induction "length p" arbitrary: p d F din s rule: less_induct)
  case less
  show ?case
  proof (cases "p = []")
    case True
    then show ?thesis using less.prems(1-4)
      by (subst iappend_loop.simps, intro exI [of _ "di_addrs din"] exI [of _ s]) (simp add: loop_post_def mk_step_def fun_upd_idem)
  next
    case False
    then have p: "0 < length p" by simp
    let ?m = "piece (length d) (length p)"
    note m = piece_facts [OF p, where off = "length d"]
    from loop_turn [OF less.prems(1-4) False less.prems(5,6)] obtain as s1 where
      t: "iappend_loop p (length d) din s = iappend_loop (drop ?m p) (length d + ?m) (din\<lparr>di_addrs := as\<rparr>) s1"
        "loop_post I F n din d (take ?m p) s as s1" by blast
    let ?din = "din\<lparr>di_addrs := as\<rparr>" let ?F = "F(n := din_inode n ?din)"
    have lp: "mk_inv I ?F s1" "holds (?F n) (img s1) (d @ take ?m p)" "mk_step (nblk (length d + ?m) - nblk (length d)) s s1"
      using t(2) min_absorb2 [OF m(2)] by (simp_all add: loop_post_def)
    have mono: "nblk (length d) \<le> nblk (length d + ?m)" "nblk (length d + ?m) \<le> nblk (length d + length p)"
      using m(2) by (simp_all add: nblk_mono)
    have sums: "length (d @ take ?m p) + length (drop ?m p) = length d + length p" "length (d @ take ?m p) = length d + ?m" using m(2) by simp_all
    have room: "freeblock s1 + nblk (length d + length p) \<le> isize s1 + nblk (length d + ?m)"
      using lp(3) less.prems(6) mono unfolding mk_step_def by linarith
    have ih: "length (drop ?m p) < length p" "?F n = din_inode n ?din" "length (d @ take ?m p) + length (drop ?m p) \<le> MAXFILE * BSIZE"
      "freeblock s1 + nblk (length (d @ take ?m p) + length (drop ?m p)) \<le> isize s1 + nblk (length (d @ take ?m p))"
      using m(1) p less.prems(5) room unfolding sums(1) unfolding sums(2) by simp_all
    from less.hyps [OF ih(1) lp(1) less.prems(2) ih(2) lp(2) ih(3,4)] obtain bs s2 where
      r: "iappend_loop (drop ?m p) (length d + ?m) ?din s1 = Ok (length d + length p, ?din\<lparr>di_addrs := bs\<rparr>, s2)"
        "loop_post I ?F n ?din (d @ take ?m p) (drop ?m p) s1 bs s2" unfolding sums(1) unfolding sums(2) by blast
    have "mk_step (nblk (length d + length p) - nblk (length d)) s s2"
      using mk_step_mono [OF mk_step_trans [OF lp(3)]] r(2) mono unfolding loop_post_def sums(1) unfolding sums(2) by auto
    then have "loop_post I F n din d p s bs s2" using t(2) r(2) unfolding loop_post_def by auto
    then show ?thesis using t(1) r(1) by (intro exI [of _ bs] exI [of _ s2]) simp
  qed
qed

section \<open>The inodes on the disk\<close>

definition disk_din :: "(u32 \<Rightarrow> byte list) \<Rightarrow> nat \<Rightarrow> dinode" where
  "disk_din V n = dec_dinode (V (i2b n)) (64 * (n mod IPB))"

definition disk_file :: "(u32 \<Rightarrow> byte list) \<Rightarrow> nat \<Rightarrow> inode" where
  "disk_file V n = din_inode n (disk_din V n)"

lemma addrs_fold_other:
  assumes "q + 4 \<le> p \<or> p + 4 * n \<le> q"
  shows "rd32 (fold (\<lambda>i d. wr32 d (p + 4 * i) (as ! i)) [0..<n] d) q = rd32 d q"
  using assms by (induction n) (auto simp: rd32_wr32_other)

lemma addrs_fold_other16:
  assumes "q + 2 \<le> p \<or> p + 4 * n \<le> q"
  shows "rd16 (fold (\<lambda>i d. wr32 d (p + 4 * i) (as ! i)) [0..<n] d) q = rd16 d q"
  using assms by (induction n) (auto simp: rd16_wr32_other)

lemma dec_dinode_other:
  assumes "q + 64 \<le> p \<or> p + 64 \<le> q"
  shows "dec_dinode (enc_dinode d p di) q = dec_dinode d q"
proof -
  have "rd32 (enc_dinode d p di) (q + x) = rd32 d (q + x)" if "x \<le> 60" for x
    using assms that addrs_fold_other [of "q + x" "p + 12" "NDIRECT + 1"]
    by (auto simp: enc_dinode_def NDIRECT_def rd32_wr32_other rd32_wr16_other simp del: upt_Suc)
  moreover have "rd16 (enc_dinode d p di) (q + x) = rd16 d (q + x)" if "x \<le> 6" for x
    using assms that addrs_fold_other16 [of "q + x" "p + 12" "NDIRECT + 1"]
    by (auto simp: enc_dinode_def NDIRECT_def rd16_wr32_other rd16_wr16_other simp del: upt_Suc)
  moreover have "rd16 (enc_dinode d p di) q = rd16 d q" "rd16 (enc_dinode d p di) (Suc (Suc q)) = rd16 d (Suc (Suc q))"
    using calculation(2) [of 0] calculation(2) [of 2] by simp_all
  ultimately show ?thesis by (auto simp: dec_dinode_def NDIRECT_def add.assoc simp del: upt_Suc)
qed

lemma i2b_facts:
  assumes "n \<le> ninodes"
  shows "unat (i2b n) = n div IPB + 2" "unat (i2b n) < mk_used - 7" "64 * (n mod IPB) + 64 \<le> BSIZE"
proof -
  have b: "n div IPB + 2 \<le> 27" using div_le_mono [OF assms, of IPB] by (simp add: ninodes_def IPB_def BSIZE_def)
  then show u: "unat (i2b n) = n div IPB + 2" unfolding i2b_def by (intro unat_of_nat32) simp
  show "unat (i2b n) < mk_used - 7" using u b by (simp add: mk_used_def ninodes_def IPB_def BSIZE_def mk_size_def)
  show "64 * (n mod IPB) + 64 \<le> BSIZE" using mod_less_divisor [of 8 n] by (simp add: IPB_def BSIZE_def)
qed

lemma disk_din_write:
  assumes "n \<le> ninodes" "m \<le> ninodes" "length (V (i2b n)) = BSIZE" "length (di_addrs di) = Suc NDIRECT"
  shows "disk_din (V(i2b n := enc_dinode (V (i2b n)) (64 * (n mod IPB)) di)) m = (if m = n then di else disk_din V m)"
proof (cases "i2b m = i2b n")
  case True
  then have d: "m div IPB = n div IPB" using i2b_facts(1) [OF assms(1)] i2b_facts(1) [OF assms(2)] by simp
  show ?thesis
  proof (cases "m = n")
    case True
    then show ?thesis using dec_enc_dinode [of "64 * (n mod IPB)" "V (i2b n)" di] i2b_facts(3) [OF assms(1)] assms(3,4) by (simp add: disk_din_def)
  next
    case False
    then have "m mod IPB < n mod IPB \<or> n mod IPB < m mod IPB" using d div_mult_mod_eq [of m IPB] div_mult_mod_eq [of n IPB] by (metis linorder_neqE_nat)
    then have "64 * (m mod IPB) + 64 \<le> 64 * (n mod IPB) \<or> 64 * (n mod IPB) + 64 \<le> 64 * (m mod IPB)" by linarith
    then show ?thesis using True False dec_dinode_other by (simp add: disk_din_def)
  qed
next
  case False
  then show ?thesis by (auto simp: disk_din_def)
qed

text \<open>A store below the data blocks, which reaches no file.\<close>

lemma store_meta:
  assumes "own_blocks I F V fb" "blank_from V fb N" "unat a < mk_used" "length d = BSIZE"
  defines "V' \<equiv> V(a := d)"
  shows "own_blocks I F V' fb" "blank_from V' fb N" "m \<in> I \<Longrightarrow> holds (F m) V e \<Longrightarrow> holds (F m) V' e"
proof -
  have ne: "ptr (F m) V j \<noteq> a" if "m \<in> I" "j < NSLOT" "ptr (F m) V j \<noteq> 0" for m j
    using own_blocksD(2) [OF assms(1) that] assms(3) by auto
  have p: "ptr (F m) V' = ptr (F m) V" if "m \<in> I" for m
    using ne [OF that pslot_lt(2)] by (auto simp: ptr_def V'_def fun_eq_iff)
  show "own_blocks I F V' fb" using assms(1) p by (auto simp: own_blocks_def)
  show "blank_from V' fb N" using assms(2-4) by (auto simp: blank_from_def V'_def)
  assume m: "m \<in> I" and "holds (F m) V e"
  then show "holds (F m) V' e"
    using ne [OF m pslot_lt(1)] p [OF m] by (elim holds_cong) (auto simp: block_data_ptr blk_def V'_def)
qed

lemma winode_ok:
  assumes "mk_inv I F s" "n \<le> ninodes" "length (di_addrs di) = Suc NDIRECT"
  shows "\<exists>s'. winode n di s = Ok s' \<and> mk_inv I F s' \<and> (\<forall>m\<in>I. \<forall>e. holds (F m) (img s) e \<longrightarrow> holds (F m) (img s') e) \<and>
    isize s' = isize s \<and> freeblock s' = freeblock s \<and> freeinode s' = freeinode s \<and>
    (\<forall>a. unat a < 2 \<or> mk_used - 7 \<le> unat a \<longrightarrow> img s' a = img s a) \<and> (\<forall>m\<le>ninodes. disk_din (img s') m = (if m = n then di else disk_din (img s) m))"
proof -
  have o: "own_blocks I F (img s) (freeblock s)" and b: "blank_from (img s) (freeblock s) (isize s)" and u: "usedblocks s = freeblock s"
    using assms(1) by (auto simp: mk_inv_def)
  note i = i2b_facts [OF assms(2)]
  have l: "unat (i2b n) < isize s" using i(2) b unfolding blank_from_def by linarith
  then have len: "length (img s (i2b n)) = BSIZE" using b by (simp add: blank_from_def)
  let ?d = "enc_dinode (img s (i2b n)) (64 * (n mod IPB)) di"
  let ?s = "s\<lparr>img := (img s)(i2b n := ?d)\<rparr>"
  have "length ?d = BSIZE" using length_enc_dinode [of "64 * (n mod IPB)" "img s (i2b n)" di] i(3) len by simp
  note sm = store_meta [OF o b _ this, of "i2b n"]
  have "winode n di s = Ok ?s" using l by (simp add: winode_def rsect_def wsect_def)
  moreover have "mk_inv I F ?s" using sm(1,2) i(2) u by (simp add: mk_inv_def)
  ultimately show ?thesis
    using sm(3) i(1,2) disk_din_write [where V = "img s", OF assms(2) _ len assms(3)] by (intro exI [of _ ?s]) auto
qed

section \<open>The files of the image\<close>

text \<open>The superblock, and the blank blocks of the bitmap.\<close>

definition meta_ok :: "(u32 \<Rightarrow> byte list) \<Rightarrow> bool" where
  "meta_ok V \<longleftrightarrow> V 1 = sb_block \<and> (\<forall>a. mk_used - 7 \<le> unat a \<and> unat a < mk_used \<longrightarrow> V a = zeroes)"

lemma meta_ok_step:
  assumes "meta_ok (img s)" "mk_step c s s1" "\<forall>a. unat a < 2 \<or> mk_used - 7 \<le> unat a \<longrightarrow> img s2 a = img s1 a"
  shows "meta_ok (img s2)"
proof -
  have "unat (1 :: u32) < mk_used" by (simp add: mk_used_def)
  then show ?thesis using assms by (simp add: meta_ok_def mk_step_def)
qed

text \<open>The file with number \<open>k + 1\<close> has the type and the bytes at place \<open>k\<close> of the list.\<close>

definition blocks :: "(u16 \<times> byte list) list \<Rightarrow> nat" where
  "blocks fl = (\<Sum>f\<leftarrow>fl. nblk (length (snd f)))"

definition file_at :: "(u32 \<Rightarrow> byte list) \<Rightarrow> nat \<Rightarrow> u16 \<times> byte list \<Rightarrow> bool" where
  "file_at V n f \<longleftrightarrow> di_type (disk_din V n) = fst f \<and> di_nlink (disk_din V n) = 1 \<and> unat (di_size (disk_din V n)) = length (snd f) \<and>
     holds (disk_file V n) V (snd f)"

definition has_files :: "(u16 \<times> byte list) list \<Rightarrow> mkfs_st \<Rightarrow> bool" where
  "has_files fl s \<longleftrightarrow> length fl < ninodes \<and> freeinode s = Suc (length fl) \<and> isize s = mk_size \<and> meta_ok (img s) \<and>
     mk_inv {1..length fl} (disk_file (img s)) s \<and> freeblock s \<le> mk_used + blocks fl \<and> (\<forall>k<length fl. file_at (img s) (Suc k) (fl ! k))"

lemma has_filesD:
  assumes "has_files fl s"
  shows "length fl < ninodes" "freeinode s = Suc (length fl)" "isize s = mk_size" "meta_ok (img s)"
    "mk_inv {1..length fl} (disk_file (img s)) s" "freeblock s \<le> mk_used + blocks fl" "k < length fl \<Longrightarrow> file_at (img s) (Suc k) (fl ! k)"
  using assms by (auto simp: has_files_def)

lemma blocks_update:
  assumes "k < length fl"
  shows "blocks (fl[k := f]) + nblk (length (snd (fl ! k))) = blocks fl + nblk (length (snd f))"
  using assms by (induction fl arbitrary: k) (auto simp: blocks_def nth_Cons split: nat.splits)

lemma blocks_append [simp]: "blocks (xs @ ys) = blocks xs + blocks ys"
  by (simp add: blocks_def)

lemma ptr_addrs: "i_addrs ip = i_addrs ip' \<Longrightarrow> ptr ip = ptr ip'"
  by (simp add: ptr_def fun_eq_iff)

lemma holds_addrs: "i_addrs ip = i_addrs ip' \<Longrightarrow> holds ip V d = holds ip' V d"
  unfolding holds_def file_byte_def block_data_def blk_def by (drule ptr_addrs) simp

lemma own_blocks_addrs:
  assumes "\<And>m. m \<in> I \<Longrightarrow> i_addrs (F m) = i_addrs (F' m)"
  shows "own_blocks I F V fb = own_blocks I F' V fb"
proof -
  have "\<And>m. m \<in> I \<Longrightarrow> ptr (F m) = ptr (F' m)" using assms by (rule ptr_addrs)
  then show ?thesis using assms by (simp add: own_blocks_def)
qed

lemma mk_inv_addrs: "(\<And>m. m \<in> I \<Longrightarrow> i_addrs (F m) = i_addrs (F' m)) \<Longrightarrow> mk_inv I F s \<Longrightarrow> mk_inv I F' s"
  unfolding mk_inv_def using own_blocks_addrs [of I F F'] by blast

lemma rinode_ok:
  assumes "mk_inv I F s" "n \<le> ninodes"
  shows "rinode n s = Ok (disk_din (img s) n)"
proof -
  have "unat (i2b n) < isize s" using assms(1) i2b_facts(2) [OF assms(2)] unfolding mk_inv_def blank_from_def by linarith
  then show ?thesis by (simp add: rinode_def rsect_def disk_din_def)
qed

lemma mk_step_din:
  assumes "mk_step c s s'" "n \<le> ninodes"
  shows "disk_din (img s') n = disk_din (img s) n"
proof -
  have "unat (i2b n) < mk_used" using i2b_facts(2) [OF assms(2)] by linarith
  then show ?thesis using assms(1) by (simp add: mk_step_def disk_din_def)
qed

text \<open>The last step of \<open>iappend\<close>: the inode, with its new size and block pointers, goes back to the disk.\<close>

lemma write_back:
  assumes inv: "mk_inv {1..length fl} F s" and k: "k < length fl" "length fl < ninodes"
    and st: "freeinode s = Suc (length fl)" "isize s = mk_size" "meta_ok (img s)" "freeblock s \<le> mk_used + blocks (fl[k := (t, d)])"
    and di: "i_addrs (F (Suc k)) = di_addrs di" "di_type di = t" "di_nlink di = 1" "unat (di_size di) = length d" "holds (F (Suc k)) (img s) d"
    and rest: "\<And>j. j < length fl \<Longrightarrow> j \<noteq> k \<Longrightarrow> F (Suc j) = disk_file (img s) (Suc j) \<and> file_at (img s) (Suc j) (fl ! j)"
  shows "\<exists>s'. winode (Suc k) di s = Ok s' \<and> has_files (fl[k := (t, d)]) s'"
proof -
  let ?n = "Suc k" and ?I = "{1..length fl}"
  have n: "?n \<in> ?I" "?n \<le> ninodes" using k by auto
  have "own_blocks ?I F (img s) (freeblock s)" using inv by (simp add: mk_inv_def)
  then have len: "length (di_addrs di) = Suc NDIRECT" using own_blocksD(1) [OF _ n(1)] di(1) by metis
  from winode_ok [OF inv n(2) len] obtain s' where
    w: "winode ?n di s = Ok s'" "mk_inv ?I F s'" "\<forall>m\<in>?I. \<forall>e. holds (F m) (img s) e \<longrightarrow> holds (F m) (img s') e"
      "isize s' = isize s" "freeblock s' = freeblock s" "freeinode s' = freeinode s"
      "\<forall>a. unat a < 2 \<or> mk_used - 7 \<le> unat a \<longrightarrow> img s' a = img s a"
      "\<forall>m\<le>ninodes. disk_din (img s') m = (if m = ?n then di else disk_din (img s) m)" by blast
  have din: "disk_din (img s') m = (if m = ?n then di else disk_din (img s) m)" if "m \<in> ?I" for m using w(8) that k by simp
  have same: "F (Suc j) = disk_file (img s') (Suc j)" if "j < length fl" "j \<noteq> k" for j using rest [OF that] din [of "Suc j"] that by (simp add: disk_file_def)
  have adk: "i_addrs (F ?n) = i_addrs (disk_file (img s') ?n)" using di(1) din [OF n(1)] by (simp add: disk_file_def)
  have ad: "i_addrs (F m) = i_addrs (disk_file (img s') m)" if "m \<in> ?I" for m
    using adk same [of "m - 1"] that by (cases "m = ?n") auto
  have "file_at (img s') (Suc j) (fl[k := (t, d)] ! j)" if j: "j < length fl" for j
  proof (cases "j = k")
    case True
    have "holds (disk_file (img s') ?n) (img s') d" using w(3) n(1) di(5) holds_addrs [OF adk] by blast
    then show ?thesis using True di(2-4) din [OF n(1)] j by (simp add: file_at_def)
  next
    case False
    have "holds (disk_file (img s') (Suc j)) (img s') (snd (fl ! j))"
      using w(3) [rule_format, of "Suc j"] j rest [OF j False] same [OF j False] by (auto simp: file_at_def)
    then show ?thesis using False rest [OF j False] din [of "Suc j"] j by (simp add: file_at_def)
  qed
  moreover have "meta_ok (img s')" using meta_ok_step [OF st(3) _ w(7), of 0] by (simp add: mk_step_def)
  ultimately have "has_files (fl[k := (t, d)]) s'"
    using w(4-6) st(1,2,4) k(2) mk_inv_addrs [OF ad w(2)] by (simp add: has_files_def)
  then show ?thesis using w(1) by blast
qed

lemma iappend_ok:
  assumes im: "has_files fl s" and k: "k < length fl" "fl ! k = (t, d)" and room: "length d + length p \<le> MAXFILE * BSIZE"
    "mk_used + blocks (fl[k := (t, d @ p)]) \<le> mk_size"
  shows "\<exists>s'. iappend (Suc k) p s = Ok s' \<and> has_files (fl[k := (t, d @ p)]) s'"
proof -
  let ?n = "Suc k" and ?I = "{1..length fl}" let ?din = "disk_din (img s) ?n"
  note D = has_filesD [OF im]
  have n: "?n \<in> ?I" "?n \<le> ninodes" using k(1) D(1) by auto
  have f: "di_type ?din = t" "di_nlink ?din = 1" "unat (di_size ?din) = length d" "holds (disk_file (img s) ?n) (img s) d"
    using D(7) [OF k(1)] k(2) by (auto simp: file_at_def)
  have bu: "blocks (fl[k := (t, d @ p)]) + nblk (length d) = blocks fl + nblk (length d + length p)"
    using blocks_update [OF k(1), of "(t, d @ p)"] k(2) by simp
  then have fb: "freeblock s + nblk (length d + length p) \<le> isize s + nblk (length d)" using D(3,6) room(2) by linarith
  from iappend_loop_ok [OF D(5) n(1) disk_file_def f(4) room(1) fb] obtain as s1 where
    l: "iappend_loop p (length d) ?din s = Ok (length d + length p, ?din\<lparr>di_addrs := as\<rparr>, s1)"
      "loop_post ?I (disk_file (img s)) ?n ?din d p s as s1" by blast
  let ?F = "(disk_file (img s))(?n := din_inode ?n (?din\<lparr>di_addrs := as\<rparr>))"
  let ?di = "?din\<lparr>di_addrs := as, di_size := of_nat (length d + length p)\<rparr>"
  have i1: "mk_inv ?I ?F s1" "holds (?F ?n) (img s1) (d @ p)" "mk_step (nblk (length d + length p) - nblk (length d)) s s1"
    using l(2) by (auto simp: loop_post_def)
  have "unat (of_nat (length d + length p) :: u32) = length d + length p"
    using room(1) by (intro unat_of_nat32) (simp add: MAXFILE_def NDIRECT_def NINDIRECT_def BSIZE_def)
  then have sz: "unat (di_size ?di) = length (d @ p)" by simp
  have fb1: "freeblock s1 \<le> mk_used + blocks (fl[k := (t, d @ p)])"
    using i1(3) D(6) bu nblk_mono [of "length d" "length d + length p"] unfolding mk_step_def by linarith
  have rest: "?F (Suc j) = disk_file (img s1) (Suc j) \<and> file_at (img s1) (Suc j) (fl ! j)" if j: "j < length fl" "j \<noteq> k" for j
    using l(2) D(7) [OF j(1)] mk_step_din [OF i1(3), of "Suc j"] j D(1) by (auto simp: loop_post_def file_at_def disk_file_def)
  have st: "freeinode s1 = Suc (length fl)" "isize s1 = mk_size" "meta_ok (img s1)"
    using i1(3) D(2,3) meta_ok_step [OF D(4) i1(3), of s1] by (simp_all add: mk_step_def)
  obtain s2 where "winode ?n ?di s1 = Ok s2" "has_files (fl[k := (t, d @ p)]) s2"
    using write_back [OF i1(1) k(1) D(1) st fb1 _ _ _ sz i1(2) rest] f(1,2) by auto
  moreover have "iappend ?n p s = Ok s2" if "winode ?n ?di s1 = Ok s2" using rinode_ok [OF D(5) n(2)] f(3) l(1) that by (simp add: iappend_def)
  ultimately show ?thesis by blast
qed

lemma own_blocks_insert:
  assumes "own_blocks I F V fb" "i_addrs (F n) = replicate (Suc NDIRECT) 0"
  shows "own_blocks (insert n I) F V fb"
proof -
  have "ptr (F n) V j = 0" for j
    using nth_replicate [of j "Suc NDIRECT" 0] nth_replicate [of NDIRECT "Suc NDIRECT" 0] unfolding ptr_def assms(2) by (auto simp del: replicate_Suc)
  then show ?thesis using assms unfolding own_blocks_def by (auto simp del: replicate_Suc)
qed

lemma holds_empty:
  assumes "i_addrs ip = replicate (Suc NDIRECT) 0"
  shows "holds ip V []"
proof -
  have "ptr ip V j = 0" for j
    using nth_replicate [of j "Suc NDIRECT" 0] nth_replicate [of NDIRECT "Suc NDIRECT" 0] unfolding ptr_def assms by (auto simp del: replicate_Suc)
  then show ?thesis by (simp add: holds_def file_byte_def block_data_def blk_def)
qed

lemma mk_ialloc_ok:
  assumes im: "has_files fl s" and room: "Suc (length fl) < ninodes"
  shows "\<exists>s'. mk_ialloc t s = Ok (Suc (length fl), s') \<and> has_files (fl @ [(t, [])]) s'"
proof -
  let ?n = "Suc (length fl)" and ?I = "{1..length fl}" let ?s = "s\<lparr>freeinode := Suc ?n\<rparr>"
  let ?di = "\<lparr>di_type = t, di_major = 0, di_minor = 0, di_nlink = 1, di_size = 0, di_addrs = replicate (NDIRECT + 1) 0\<rparr>"
  note D = has_filesD [OF im]
  have inv: "mk_inv ?I (disk_file (img s)) ?s" using D(5) by (simp add: mk_inv_def)
  have n: "?n \<le> ninodes" "length (di_addrs ?di) = Suc NDIRECT" using room by simp_all
  from winode_ok [OF inv n] obtain s' where
    w: "winode ?n ?di ?s = Ok s'" "mk_inv ?I (disk_file (img s)) s'"
      "\<forall>m\<in>?I. \<forall>e. holds (disk_file (img s) m) (img s) e \<longrightarrow> holds (disk_file (img s) m) (img s') e"
      "isize s' = isize s" "freeblock s' = freeblock s" "freeinode s' = Suc ?n" "\<forall>a. unat a < 2 \<or> mk_used - 7 \<le> unat a \<longrightarrow> img s' a = img s a"
      "\<forall>m\<le>ninodes. disk_din (img s') m = (if m = ?n then ?di else disk_din (img s) m)" by auto
  have old: "disk_file (img s') m = disk_file (img s) m" "disk_din (img s') m = disk_din (img s) m" if "m \<in> ?I" for m
    using w(8) that room by (simp_all add: disk_file_def)
  have new: "disk_din (img s') ?n = ?di" using w(8) n(1) by simp
  then have ad: "i_addrs (disk_file (img s') ?n) = replicate (Suc NDIRECT) 0" by (simp add: disk_file_def)
  have "mk_inv ?I (disk_file (img s')) s'" by (rule mk_inv_addrs [OF _ w(2)]) (simp add: old)
  then have "mk_inv (insert ?n ?I) (disk_file (img s')) s'" using own_blocks_insert [where F = "disk_file (img s')", OF _ ad] by (simp add: mk_inv_def)
  moreover have "insert ?n ?I = {1..length (fl @ [(t, [])])}" by auto
  moreover have "file_at (img s') (Suc j) ((fl @ [(t, [])]) ! j)" if "j < ?n" for j
  proof (cases "j < length fl")
    case True
    then show ?thesis using D(7) [OF True] old [of "Suc j"] w(3) by (auto simp: file_at_def nth_append)
  next
    case False
    then have "j = length fl" using that by simp
    then show ?thesis using new holds_empty [OF ad] by (simp add: file_at_def)
  qed
  ultimately have "has_files (fl @ [(t, [])]) s'" using D(2,3,6) meta_ok_step [OF D(4) _ w(7), of 0] w(4-6) room by (simp add: has_files_def blocks_def mk_step_def)
  moreover have "mk_ialloc t s = Ok (?n, s')" using w(1) D(2) by (simp add: mk_ialloc_def Let_def)
  ultimately show ?thesis by blast
qed

lemma blocks_prefix:
  assumes "k < length fl" "fl ! k = (t, d)"
  shows "blocks (fl[k := (t, d @ p)]) \<le> blocks (fl[k := (t, d @ p @ q)])"
  using blocks_update [OF assms(1), of "(t, d @ p)"] blocks_update [OF assms(1), of "(t, d @ p @ q)"] assms(2)
    nblk_mono [of "length (d @ p)" "length (d @ p @ q)"] by simp

lemma append_chunks_ok:
  assumes "has_files fl s" "k < length fl" "fl ! k = (t, d)" "length d + length p \<le> MAXFILE * BSIZE" "mk_used + blocks (fl[k := (t, d @ p)]) \<le> mk_size"
  shows "\<exists>s'. append_chunks (Suc k) p s = Ok s' \<and> has_files (fl[k := (t, d @ p)]) s'"
  using assms
proof (induction "length p" arbitrary: p d fl s rule: less_induct)
  case less
  show ?case
  proof (cases "p = []")
    case True
    then show ?thesis using less.prems(1-3) by (simp add: append_chunks.simps) (metis append.right_neutral list_update_id)
  next
    case False
    let ?a = "take BSIZE p" and ?b = "drop BSIZE p"
    have "length d + length ?a \<le> MAXFILE * BSIZE" using less.prems(4) by simp
    moreover have "mk_used + blocks (fl[k := (t, d @ ?a)]) \<le> mk_size" using blocks_prefix [OF less.prems(2,3), of ?a ?b] less.prems(5) by simp
    ultimately obtain s1 where s1: "iappend (Suc k) ?a s = Ok s1" "has_files (fl[k := (t, d @ ?a)]) s1"
      using iappend_ok [OF less.prems(1-3)] by blast
    have "length ?b < length p" using False by (simp add: BSIZE_def)
    moreover have "length (d @ ?a) + length ?b \<le> MAXFILE * BSIZE" using less.prems(4) by simp
    ultimately obtain s2 where "append_chunks (Suc k) ?b s1 = Ok s2" "has_files (fl[k := (t, d @ p)]) s2"
      using less.hyps [OF _ s1(2), of ?b "d @ ?a"] less.prems(2,5) by auto
    then show ?thesis using s1(1) False by (subst append_chunks.simps) simp
  qed
qed

section \<open>The files of the command line\<close>

definition files_of :: "(byte list \<times> byte list) list \<Rightarrow> (u16 \<times> byte list) list" where
  "files_of fs = map (\<lambda>f. (T_FILE, snd f)) fs"

fun entries_from :: "nat \<Rightarrow> (byte list \<times> byte list) list \<Rightarrow> byte list" where
  "entries_from n [] = []"
| "entries_from n (f # fs) = enc_dirent (of_nat n) (strip (fst f)) @ entries_from (Suc n) fs"

lemma length_entries_from [simp]: "length (entries_from n fs) = 16 * length fs"
  by (induction fs arbitrary: n) auto

lemma blocks_Cons [simp]: "blocks ((t, d) # fl) = nblk (length d) + blocks fl" "blocks [] = 0"
  by (simp_all add: blocks_def)

lemma copy_file_ok:
  assumes "has_files ((T_DIR, r) # fl) s" "slash \<notin> set name" "length fl + 2 < ninodes" "length r + 16 \<le> MAXFILE * BSIZE"
    "length data \<le> MAXFILE * BSIZE" "mk_used + nblk (length r + 16) + blocks fl + nblk (length data) \<le> mk_size"
  shows "\<exists>s'. copy_file 1 (name, data) s = Ok s' \<and>
    has_files ((T_DIR, r @ enc_dirent (of_nat (length fl + 2)) (strip name)) # fl @ [(T_FILE, data)]) s'"
proof -
  let ?e = "enc_dirent (of_nat (length fl + 2)) (strip name)" and ?fl = "(T_DIR, r) # fl"
  obtain s1 where s1: "mk_ialloc T_FILE s = Ok (length fl + 2, s1)" "has_files (?fl @ [(T_FILE, [])]) s1"
    using mk_ialloc_ok [OF assms(1), of T_FILE] assms(3) by auto
  have "mk_used + blocks ((?fl @ [(T_FILE, [])])[0 := (T_DIR, r @ ?e)]) \<le> mk_size" using assms(6) by simp
  then obtain s2 where s2: "iappend 1 ?e s1 = Ok s2" "has_files ((?fl @ [(T_FILE, [])])[0 := (T_DIR, r @ ?e)]) s2"
    using iappend_ok [OF s1(2), of 0 T_DIR r ?e] assms(4) by auto
  let ?fl2 = "(T_DIR, r @ ?e) # fl @ [(T_FILE, [])]"
  have i2: "has_files ?fl2 s2" using s2(2) by simp
  have k: "Suc (length fl) < length ?fl2" "?fl2 ! Suc (length fl) = (T_FILE, [])" by simp_all
  have u: "?fl2[Suc (length fl) := (T_FILE, [] @ data)] = (T_DIR, r @ ?e) # fl @ [(T_FILE, data)]" by simp
  have "mk_used + blocks (?fl2[Suc (length fl) := (T_FILE, [] @ data)]) \<le> mk_size" using assms(6) unfolding u by simp
  then obtain s3 where "append_chunks (length fl + 2) data s2 = Ok s3" "has_files ((T_DIR, r @ ?e) # fl @ [(T_FILE, data)]) s3"
    using append_chunks_ok [OF i2 k, of data] assms(5) unfolding u by auto
  then show ?thesis using assms(2) s1(1) s2(1) by (auto simp: copy_file_def)
qed

lemma copy_files_ok:
  assumes "has_files ((T_DIR, r) # fl) s" "\<forall>(name, data)\<in>set fs. slash \<notin> set name \<and> length data \<le> MAXFILE * BSIZE"
    "length fl + length fs + 1 < ninodes" "length r + 16 * length fs \<le> MAXFILE * BSIZE"
    "mk_used + nblk (length r + 16 * length fs) + blocks fl + blocks (files_of fs) \<le> mk_size"
  shows "\<exists>s'. copy_files 1 fs s = Ok s' \<and> has_files ((T_DIR, r @ entries_from (length fl + 2) fs) # fl @ files_of fs) s'"
  using assms
proof (induction fs arbitrary: r fl s)
  case Nil
  then show ?case by (simp add: files_of_def)
next
  case (Cons f fs)
  obtain name data where f: "f = (name, data)" by force
  let ?e = "enc_dirent (of_nat (length fl + 2)) (strip name)"
  have mono: "nblk (length r + 16) \<le> nblk (length r + 16 * length (f # fs))" by (rule nblk_mono) simp
  have sp: "blocks (files_of (f # fs)) = nblk (length data) + blocks (files_of fs)" using f by (simp add: files_of_def)
  have "\<exists>s'. copy_file 1 (name, data) s = Ok s' \<and> has_files ((T_DIR, r @ ?e) # fl @ [(T_FILE, data)]) s'"
  proof (rule copy_file_ok [OF Cons.prems(1)])
    show "mk_used + nblk (length r + 16) + blocks fl + nblk (length data) \<le> mk_size" using Cons.prems(5) mono sp by linarith
    show "length r + 16 \<le> MAXFILE * BSIZE" using Cons.prems(4) by simp
  qed (use Cons.prems(2,3) f in auto)
  then obtain s1 where s1: "copy_file 1 f s = Ok s1" "has_files ((T_DIR, r @ ?e) # fl @ [(T_FILE, data)]) s1" using f by blast
  have "mk_used + nblk (length (r @ ?e) + 16 * length fs) + blocks (fl @ [(T_FILE, data)]) + blocks (files_of fs) \<le> mk_size"
    using Cons.prems(5) sp by (simp add: add.assoc)
  moreover have "length (r @ ?e) + 16 * length fs \<le> MAXFILE * BSIZE" using Cons.prems(4) by simp
  ultimately obtain s2 where "copy_files 1 fs s1 = Ok s2"
    "has_files ((T_DIR, (r @ ?e) @ entries_from (length (fl @ [(T_FILE, data)]) + 2) fs) # (fl @ [(T_FILE, data)]) @ files_of fs) s2"
    using Cons.IH [OF s1(2)] Cons.prems(2,3) by auto
  then show ?case using s1(1) f by (intro exI [of _ s2]) (simp add: files_of_def)
qed

text \<open>Room for the files: their blocks, and the blocks of the root directory.\<close>

definition fits :: "(byte list \<times> byte list) list \<Rightarrow> bool" where
  "fits fs \<longleftrightarrow> (\<forall>(name, data)\<in>set fs. slash \<notin> set name \<and> length data \<le> MAXFILE * BSIZE) \<and> length fs + 1 < ninodes \<and>
     mk_used + nblk (16 * (length fs + 2)) + blocks (files_of fs) < BSIZE * 8"

definition root_bytes :: "(byte list \<times> byte list) list \<Rightarrow> byte list" where
  "root_bytes fs = enc_dirent 1 [46] @ enc_dirent 1 [46, 46] @ entries_from 2 fs"

section \<open>The whole image\<close>

lemma blank_disk:
  "n \<le> 2 ^ 32 \<Longrightarrow> fold (\<lambda>i. wsect (of_nat i) zeroes) [0..<n] s =
     s\<lparr>img := (\<lambda>a. if unat a < n then zeroes else img s a), isize := max (isize s) n\<rparr>"
proof (induction n)
  case (Suc n)
  then have u: "unat (of_nat n :: u32) = n" by (intro unat_of_nat32) simp
  then have "unat a < Suc n \<longleftrightarrow> a = of_nat n \<or> unat a < n" for a :: u32 by (auto simp: less_Suc_eq)
  then show ?case using Suc u by (auto simp: wsect_def fun_eq_iff)
qed simp

lemma disk_layout: "mk_used = 35" "mk_nblocks + mk_used + nlog = mk_size" "mk_size = 25045" "ninodes = 200"
  by (simp_all add: mk_used_def mk_nblocks_def nlog_def LOGSIZE_def mk_size_def ninodes_def IPB_def BSIZE_def)

lemma length_sb_block [simp]: "length sb_block = BSIZE" "length zeroes = BSIZE"
  by (simp_all add: sb_block_def zeroes_def)

lemma start_ok:
  "has_files [] (wsect 1 sb_block (fold (\<lambda>i. wsect (of_nat i) zeroes) [0..<mk_size]
     \<lparr>img = \<lambda>_. [], isize = 0, freeblock = mk_used, usedblocks = mk_used, freeinode = 1\<rparr>))"
proof -
  have "mk_size \<le> 2 ^ 32" by (simp add: disk_layout)
  then show ?thesis unfolding blank_disk [OF \<open>mk_size \<le> 2 ^ 32\<close>]
    by (auto simp: has_files_def wsect_def meta_ok_def mk_inv_def own_blocks_def blank_from_def disk_layout)
qed

text \<open>The size of the root directory is rounded up; its last block has been filled with zeros from the start.\<close>

definition padded :: "byte list \<Rightarrow> byte list" where
  "padded d = d @ replicate (BSIZE - length d mod BSIZE) 0"

lemma length_padded: "length (padded d) = (length d div BSIZE + 1) * BSIZE"
proof -
  have "length d mod BSIZE \<le> BSIZE" using mod_less_divisor [of BSIZE "length d"] by (simp add: less_imp_le)
  then show ?thesis using div_mult_mod_eq [of "length d" BSIZE] unfolding padded_def distrib_right length_append length_replicate by linarith
qed

lemma holds_padded:
  assumes "holds ip V d" "length d mod BSIZE \<noteq> 0"
  shows "holds ip V (padded d)"
  unfolding holds_def
proof (intro conjI allI impI)
  have lt: "length d div BSIZE * BSIZE < length d" using div_mult_mod_eq [of "length d" BSIZE] assms(2) by linarith
  have "length d div BSIZE < MAXFILE"
    using lt holdsD(1) [OF assms(1)] by (metis less_le_trans mult_less_cancel2)
  then show "length (padded d) \<le> MAXFILE * BSIZE" unfolding length_padded by (intro mult_le_mono1) simp
  show "blk ip V k \<noteq> 0" if "k * BSIZE < length (padded d)" for k
  proof -
    have "k < length d div BSIZE + 1" using that unfolding length_padded mult_less_cancel2 by simp
    then have "k * BSIZE \<le> length d div BSIZE * BSIZE" by (intro mult_le_mono1) simp
    then show ?thesis using holdsD(2) [OF assms(1), of k] lt by linarith
  qed
  define c where "c = BSIZE - length d mod BSIZE"
  show "file_byte ip V x = (if x < length (padded d) then padded d ! x else 0)" if "x < MAXFILE * BSIZE" for x
    using holdsD(3) [OF assms(1) that] unfolding padded_def c_def [symmetric] by (auto simp: nth_append)
qed

lemma nblk_padded: "length d mod BSIZE \<noteq> 0 \<Longrightarrow> nblk (length (padded d)) = nblk (length d)"
proof -
  assume "length d mod BSIZE \<noteq> 0"
  moreover have "length (padded d) = length d + piece (length d) BSIZE"
    using mod_less_divisor [of BSIZE "length d"] by (simp add: padded_def piece_def)
  ultimately show ?thesis using nblk_piece [of BSIZE "length d"] by simp
qed

lemma fix_root_ok:
  assumes im: "has_files ((T_DIR, r) # fl) s" and ne: "length r mod BSIZE \<noteq> 0"
  shows "\<exists>s'. fix_root 1 s = Ok s' \<and> has_files ((T_DIR, padded r) # fl) s'"
proof -
  note D = has_filesD [OF im]
  let ?din = "disk_din (img s) 1" let ?di = "?din\<lparr>di_size := of_nat ((unat (di_size ?din) div BSIZE + 1) * BSIZE)\<rparr>"
  have f: "di_type ?din = T_DIR" "di_nlink ?din = 1" "unat (di_size ?din) = length r" "holds (disk_file (img s) 1) (img s) r"
    using D(7) [of 0] by (auto simp: file_at_def)
  note h = holds_padded [OF f(4) ne]
  have "unat (of_nat (length (padded r)) :: u32) = length (padded r)"
    using holdsD(1) [OF h] by (intro unat_of_nat32) (simp add: MAXFILE_def NDIRECT_def NINDIRECT_def BSIZE_def)
  then have sz: "unat (di_size ?di) = length (padded r)" unfolding length_padded f(3) by simp
  have fb: "freeblock s \<le> mk_used + blocks (((T_DIR, r) # fl)[0 := (T_DIR, padded r)])" using D(6) nblk_padded [OF ne] by simp
  have ad: "i_addrs (disk_file (img s) (Suc 0)) = di_addrs ?di" by (simp add: disk_file_def)
  have "\<exists>s'. winode (Suc 0) ?di s = Ok s' \<and> has_files (((T_DIR, r) # fl)[0 := (T_DIR, padded r)]) s'"
    by (rule write_back [OF D(5) _ D(1-4) fb ad _ _ sz]) (use f(1,2) h D(7) in \<open>fastforce+\<close>)
  moreover have "rinode 1 s = Ok ?din" using rinode_ok [OF D(5), of 1] by (simp add: disk_layout)
  ultimately show ?thesis by (auto simp: fix_root_def)
qed

text \<open>The bitmap.\<close>

lemma bitmap_bits:
  "n \<le> 8 * length d \<Longrightarrow> length (fold (\<lambda>i buf. buf[i div 8 := (buf ! (i div 8)) OR push_bit (i mod 8) 1]) [0..<n] d) = length d"
  "n \<le> 8 * length d \<Longrightarrow> bit_clear (fold (\<lambda>i buf. buf[i div 8 := (buf ! (i div 8)) OR push_bit (i mod 8) 1]) [0..<n] d) x \<longleftrightarrow> bit_clear d x \<and> n \<le> x"
proof (induction n)
  case (Suc n)
  let ?f = "fold (\<lambda>i buf. buf[i div 8 := (buf ! (i div 8)) OR push_bit (i mod 8) 1]) [0..<n] d"
  { case 1 then show ?case using Suc.IH(1) by simp }
  { case 2
    have len: "length ?f = length d" using Suc.IH(1) 2 by linarith
    have n: "n div 8 < length ?f" unfolding len using 2 by linarith
    have "bit_clear ?f x \<longleftrightarrow> bit_clear d x \<and> n \<le> x" using Suc.IH(2) 2 by linarith
    then show ?case using bit_clear_set [OF n, of x] by (auto simp: set_bit_def) }
qed simp_all

definition mk_sb :: superblock where
  "mk_sb = \<lparr>sb_size = of_nat mk_size, sb_nblocks = of_nat mk_nblocks, sb_ninodes = of_nat ninodes, sb_nlog = of_nat nlog\<rparr>"

lemma sb_of_block: "sb_of sb_block = mk_sb"
  by (simp add: sb_of_def sb_block_def mk_sb_def enc_simps zeroes_def BSIZE_def)

definition good_image :: "(u16 \<times> byte list) list \<Rightarrow> mkfs_st \<Rightarrow> bool" where
  "good_image fl s \<longleftrightarrow> length fl < ninodes \<and> isize s = mk_size \<and> sb_of (img s 1) = mk_sb \<and> mk_used \<le> freeblock s \<and> freeblock s < BPB \<and>
     (\<forall>a. unat a < mk_size \<longrightarrow> length (img s a) = BSIZE) \<and>
     own_blocks {1..length fl} (disk_file (img s)) (img s) (freeblock s) \<and> (\<forall>k<length fl. file_at (img s) (Suc k) (fl ! k)) \<and>
     (\<forall>b<mk_size. in_use mk_sb (img s) b \<longleftrightarrow> b < freeblock s)"

lemma mk_bm_block:
  assumes "b < mk_size"
  shows "unat (bm_block mk_sb b) = b div BPB + 28" "b div BPB < 7"
proof -
  have "b < 2 ^ 32" "unat (sb_ninodes mk_sb) = 200" using assms by (simp_all add: disk_layout mk_sb_def)
  then show "unat (bm_block mk_sb b) = b div BPB + 28"
    using assms by (simp add: unat_bm_block IPB_def)
  have "b div BPB \<le> 25044 div BPB" using assms by (intro div_le_mono) (simp add: disk_layout)
  then show "b div BPB < 7" by (simp add: BPB_def)
qed

lemma mk_balloc_ok:
  assumes im: "has_files fl s" and room: "mk_used + blocks fl < BSIZE * 8"
  shows "\<exists>s'. mk_balloc (usedblocks s) s = Ok s' \<and> good_image fl s'"
proof -
  note D = has_filesD [OF im]
  have o: "own_blocks {1..length fl} (disk_file (img s)) (img s) (freeblock s)" and b: "blank_from (img s) (freeblock s) (isize s)"
    and u: "usedblocks s = freeblock s" using D(5) by (auto simp: mk_inv_def)
  have used: "freeblock s < BSIZE * 8" "mk_used \<le> freeblock s" using D(6) room b by (auto simp: blank_from_def)
  let ?bm = "fold (\<lambda>i buf. buf[i div 8 := (buf ! (i div 8)) OR push_bit (i mod 8) 1]) [0..<freeblock s] zeroes"
  let ?V = "(img s)(28 := ?bm)" let ?s = "s\<lparr>img := ?V\<rparr>"
  have bits: "length ?bm = BSIZE" "bit_clear ?bm x \<longleftrightarrow> bit_clear zeroes x \<and> freeblock s \<le> x" for x
    using bitmap_bits [of "freeblock s" zeroes] used(1) by simp_all
  have zero: "bit_clear zeroes x" if "x < BPB" for x using that by (simp add: bit_clear_iff zeroes_def BPB_def BSIZE_def)
  have run: "mk_balloc (usedblocks s) s = Ok ?s" using used(1) D(3) u by (simp add: mk_balloc_def wsect_def disk_layout IPB_def)
  have 28: "unat (28 :: u32) < mk_used" by (simp add: disk_layout)
  note sm = store_meta [OF o b 28 bits(1)]
  have din: "disk_din ?V n = disk_din (img s) n" if "n \<le> ninodes" for n
    using i2b_facts(2) [OF that] by (auto simp: disk_din_def disk_layout)
  have df: "disk_file ?V m = disk_file (img s) m" if "m \<in> {1..length fl}" for m using din [of m] that D(1) by (simp add: disk_file_def)
  have "own_blocks {1..length fl} (disk_file ?V) ?V (freeblock s)" using sm(1) own_blocks_addrs [of "{1..length fl}" "disk_file ?V" "disk_file (img s)"] df by simp
  moreover have "file_at ?V (Suc k) (fl ! k)" if "k < length fl" for k
    using D(7) [OF that] din [of "Suc k"] df [of "Suc k"] sm(3) [of "Suc k"] that D(1) by (simp add: file_at_def)
  moreover have "in_use mk_sb ?V x \<longleftrightarrow> x < freeblock s" if x: "x < mk_size" for x
  proof (cases "x < BPB")
    case True
    then have "bm_block mk_sb x = 28" using mk_bm_block(1) [OF x] by (simp add: word_unat_eq_iff)
    then show ?thesis using True bits(2) [of x] zero [of x] by (auto simp: in_use_def)
  next
    case False
    then have d: "0 < x div BPB" by (simp add: div_greater_zero_iff BPB_def)
    have "?V (bm_block mk_sb x) = zeroes"
      using mk_bm_block [OF x] d D(4) by (auto simp: meta_ok_def disk_layout)
    then show ?thesis using False zero [of "x mod BPB"] used(1) by (simp add: in_use_def BPB_def BSIZE_def)
  qed
  moreover have "sb_of (?V 1) = mk_sb" using D(4) by (simp add: meta_ok_def sb_of_block)
  moreover have "\<forall>a. unat a < mk_size \<longrightarrow> length (?V a) = BSIZE" using sm(2) D(3) unfolding blank_from_def by simp
  ultimately have "good_image fl ?s" using D(1,3) used by (simp add: good_image_def BPB_def BSIZE_def)
  then show ?thesis using run by blast
qed

lemma mkfs_ok:
  assumes "fits fs" "(length fs + 2) mod 32 \<noteq> 0"
  shows "\<exists>s. mkfs fs = Ok s \<and> good_image ((T_DIR, padded (root_bytes fs)) # files_of fs) s"
proof -
  let ?s0 = "wsect 1 sb_block (fold (\<lambda>i. wsect (of_nat i) zeroes) [0..<mk_size]
     \<lparr>img = \<lambda>_. [], isize = 0, freeblock = mk_used, usedblocks = mk_used, freeinode = 1\<rparr>)"
  let ?d1 = "enc_dirent 1 [46]" and ?d2 = "enc_dirent 1 [46, 46]"
  have f: "\<forall>(name, data)\<in>set fs. slash \<notin> set name \<and> length data \<le> MAXFILE * BSIZE" "length fs + 1 < ninodes"
    "mk_used + nblk (16 * (length fs + 2)) + blocks (files_of fs) < BSIZE * 8" using assms(1) by (auto simp: fits_def)
  have room: "nblk 16 \<le> nblk (16 * (length fs + 2))" "nblk 32 \<le> nblk (16 * (length fs + 2))" by (auto intro: nblk_mono)
  have sz: "BSIZE * 8 \<le> mk_size" "32 \<le> MAXFILE * BSIZE" by (simp_all add: BSIZE_def disk_layout MAXFILE_def NDIRECT_def NINDIRECT_def)
  obtain s1 where s1: "mk_ialloc T_DIR ?s0 = Ok (1, s1)" "has_files [(T_DIR, [])] s1"
    using mk_ialloc_ok [OF start_ok, of T_DIR] by (auto simp: disk_layout)
  obtain s2 where s2: "iappend 1 ?d1 s1 = Ok s2" "has_files [(T_DIR, ?d1)] s2"
    using iappend_ok [OF s1(2), of 0 T_DIR "[]" ?d1] f(3) room sz by auto
  obtain s3 where s3: "iappend 1 ?d2 s2 = Ok s3" "has_files [(T_DIR, ?d1 @ ?d2)] s3"
    using iappend_ok [OF s2(2), of 0 T_DIR ?d1 ?d2] f(3) room sz by auto
  have "16 * (length fs + 2) \<le> MAXFILE * BSIZE" using f(2) by (simp add: disk_layout MAXFILE_def NDIRECT_def NINDIRECT_def BSIZE_def)
  then obtain s4 where s4: "copy_files 1 fs s3 = Ok s4" "has_files ((T_DIR, root_bytes fs) # files_of fs) s4"
    using copy_files_ok [OF s3(2) f(1)] f(2,3) sz by (auto simp: root_bytes_def numeral_2_eq_2 add.commute)
  have len: "length (root_bytes fs) = 16 * (length fs + 2)" by (simp add: root_bytes_def)
  have ne: "length (root_bytes fs) mod BSIZE \<noteq> 0"
    using assms(2) mult_mod_right [of 16 "length fs + 2" 32] unfolding len by (simp add: BSIZE_def)
  from fix_root_ok [OF s4(2) ne] obtain s5 where s5: "fix_root 1 s4 = Ok s5" "has_files ((T_DIR, padded (root_bytes fs)) # files_of fs) s5" by blast
  have "mk_used + blocks ((T_DIR, padded (root_bytes fs)) # files_of fs) < BSIZE * 8" using f(3) nblk_padded [OF ne] len by simp
  from mk_balloc_ok [OF s5(2) this] obtain s6 where
    s6: "mk_balloc (usedblocks s5) s5 = Ok s6" "good_image ((T_DIR, padded (root_bytes fs)) # files_of fs) s6" by blast
  have "mkfs fs = Ok s6"
    unfolding mkfs_def Let_def using s1(1) s2(1) s3(1) s4(1) s5(1) s6(1) by (simp add: disk_layout(2) ROOTINO_def)
  then show ?thesis using s6(2) by blast
qed

section \<open>The root directory\<close>

lemma first_idx_append: "\<forall>y\<in>set ys. \<not> P y \<Longrightarrow> first_idx P (xs @ ys) = first_idx P xs"
  by (induction xs) auto

lemma dir_entries_append:
  assumes "length bs = 16 * m"
  shows "dir_entries (bs @ es) = dir_entries bs @ dir_entries es"
proof (rule nth_equalityI)
  have d: "(16 * m + length es) div 16 = m + length es div 16" by simp
  then show "length (dir_entries (bs @ es)) = length (dir_entries bs @ dir_entries es)" using assms by simp
  fix j assume "j < length (dir_entries (bs @ es))"
  then have j: "j < m + length es div 16" using assms d by simp
  show "dir_entries (bs @ es) ! j = (dir_entries bs @ dir_entries es) ! j"
  proof (cases "j < m")
    case True
    then have "16 * j + 16 \<le> length bs" using assms by simp
    then have "take 16 (drop (16 * j) (bs @ es)) = take 16 (drop (16 * j) bs)" by simp
    then show ?thesis using True j assms by (simp add: dir_entries_def nth_append)
  next
    case False
    then have "drop (16 * j) (bs @ es) = drop (16 * (j - m)) es" using assms by (simp add: right_diff_distrib')
    moreover have "j - m < length es div 16" using False j by simp
    ultimately show ?thesis using False j assms by (simp add: dir_entries_def nth_append)
  qed
qed

lemma dir_map_padded:
  assumes "length bs = 16 * m"
  shows "dir_map (padded bs) = dir_map bs"
proof -
  let ?z = "replicate (BSIZE - length bs mod BSIZE) 0 :: byte list"
  have e: "\<not> names nm e" if e: "e \<in> set (dir_entries ?z)" for e nm
  proof -
    obtain k where k: "k < length ?z div 16" "e = dirent (take 16 (drop (16 * k) ?z))" using e by (auto simp: dir_entries_def)
    then have "16 * k + 16 \<le> length ?z" by linarith
    then have "take 16 (drop (16 * k) ?z) = replicate 16 0" by simp
    then have "fst e = 0" unfolding k(2) by (simp add: dirent_def rd16_def mk16_def)
    then show ?thesis by (simp add: names_def)
  qed
  have "dir_find (padded bs) nm = dir_find bs nm" for nm
    using e [of _ nm] unfolding dir_find_def padded_def dir_entries_append [OF assms] by (intro first_idx_append) blast
  moreover have "dir_entries (padded bs) ! k = dir_entries bs ! k" if "dir_find bs nm = Some k" for nm k
    using first_idx_SomeD(1) [OF that [unfolded dir_find_def]] unfolding padded_def dir_entries_append [OF assms] by (simp add: nth_append)
  ultimately show ?thesis unfolding dir_map_def by (auto simp: fun_eq_iff map_option_case split: option.splits)
qed

lemma dir_map_append:
  assumes "length bs = 16 * m" "dir_map bs (dname name) = None" "inum \<noteq> 0"
  shows "dir_map (bs @ enc_dirent inum name) = (dir_map bs)(dname name \<mapsto> inum)"
  using dir_map_write [OF assms(1) order_refl _ assms(2,3)] assms(1) by simp

abbreviation fname :: "byte list \<times> byte list \<Rightarrow> byte list" where
  "fname f \<equiv> dname (strip (fst f))"

lemma dir_map_entries:
  assumes "length bs = 16 * m" "distinct (map fname fs)" "\<forall>f\<in>set fs. dir_map bs (fname f) = None" "0 < n" "n + length fs < 2 ^ 16"
  shows "dir_map (bs @ entries_from n fs) nm =
    (case first_idx (\<lambda>f. fname f = nm) fs of Some k \<Rightarrow> Some (of_nat (n + k)) | None \<Rightarrow> dir_map bs nm)"
  using assms
proof (induction fs arbitrary: bs m n)
  case (Cons f fs)
  let ?bs = "bs @ enc_dirent (of_nat n) (strip (fst f))"
  have "unat (of_nat n :: u16) = n" using Cons.prems(5) by (simp add: unat_of_nat)
  then have "(of_nat n :: u16) \<noteq> 0" using Cons.prems(4) by (metis less_numeral_extra(3) unat_0)
  then have dm: "dir_map ?bs = (dir_map bs)(fname f \<mapsto> of_nat n)" using dir_map_append [OF Cons.prems(1)] Cons.prems(3) by simp
  have l: "length ?bs = 16 * (m + 1)" using Cons.prems(1) by simp
  have ne: "fname g \<noteq> fname f" if g: "g \<in> set fs" for g
  proof -
    have "fname f \<notin> set (map fname fs)" using Cons.prems(2) by simp
    moreover have "fname g \<in> set (map fname fs)" unfolding set_map using imageI [OF g, of fname] .
    ultimately show ?thesis by (elim contrapos_nn) simp
  qed
  have free: "\<forall>g\<in>set fs. dir_map ?bs (fname g) = None" using ne Cons.prems(3) unfolding dm by simp
  have "dir_map (?bs @ entries_from (Suc n) fs) nm =
      (case first_idx (\<lambda>f. fname f = nm) fs of Some k \<Rightarrow> Some (of_nat (Suc n + k)) | None \<Rightarrow> dir_map ?bs nm)"
    using Cons.prems(2,5) by (intro Cons.IH [OF l _ free]) auto
  moreover have "first_idx (\<lambda>g. fname g = nm) fs = None" if "nm = fname f" using ne that by simp
  ultimately show ?case unfolding dm by (auto split: option.splits simp del: first_idx_None)
qed simp

lemma dots:
  "dir_map (enc_dirent 1 [46] @ enc_dirent 1 [46, 46]) = Map.empty([46] \<mapsto> 1, [46, 46] \<mapsto> 1)"
proof -
  have d: "dname [46] = [46]" "dname [46, 46] = [46, 46]" by (simp_all add: dname_def DIRSIZ_def)
  have "dir_map [] = Map.empty" by (simp add: dir_map_def dir_find_def dir_entries_def fun_eq_iff)
  then have one: "dir_map (enc_dirent 1 [46]) = Map.empty([46] \<mapsto> 1)" using dir_map_append [of "[]" 0 "[46]" 1] d by simp
  then show ?thesis using dir_map_append [of "enc_dirent 1 [46]" 1 "[46, 46]" 1] d by simp
qed

text \<open>The names of the command line, without the underscore that the build puts in front of a program.\<close>

definition good_names :: "(byte list \<times> byte list) list \<Rightarrow> bool" where
  "good_names fs \<longleftrightarrow> distinct (map fname fs) \<and> (\<forall>f\<in>set fs. fname f \<noteq> [46] \<and> fname f \<noteq> [46, 46])"

lemma root_map:
  assumes "good_names fs" "length fs < ninodes"
  shows "dir_map (padded (root_bytes fs)) nm =
    (case first_idx (\<lambda>f. fname f = nm) fs of Some k \<Rightarrow> Some (of_nat (k + 2)) | None \<Rightarrow> if nm = [46] \<or> nm = [46, 46] then Some 1 else None)"
proof -
  have "length (root_bytes fs) = 16 * (length fs + 2)" by (simp add: root_bytes_def)
  note p = dir_map_padded [OF this]
  have "dir_map (root_bytes fs) nm =
    (case first_idx (\<lambda>f. fname f = nm) fs of Some k \<Rightarrow> Some (of_nat (2 + k)) | None \<Rightarrow> dir_map (enc_dirent 1 [46] @ enc_dirent 1 [46, 46]) nm)"
    using dir_map_entries [of "enc_dirent 1 [46] @ enc_dirent 1 [46, 46]" 2 fs 2 nm] assms
    by (simp add: root_bytes_def dots good_names_def disk_layout)
  then show ?thesis unfolding p by (cases "first_idx (\<lambda>f. fname f = nm) fs") (auto simp: dots add.commute simp del: first_idx_None)
qed

section \<open>The image and the kernel\<close>

lemma IBLOCK_i2b:
  assumes "n \<le> ninodes"
  shows "IBLOCK (of_nat n) = i2b n"
proof -
  have "unat (of_nat n :: u32) = n" using assms by (intro unat_of_nat32) (simp add: disk_layout)
  then show ?thesis by (simp add: IBLOCK_def i2b_def IPB_def word_arith_nat_div)
qed

lemma mk_bm_blocks: "a \<in> bm_blocks mk_sb \<Longrightarrow> 28 \<le> unat a \<and> unat a < mk_used"
proof -
  assume "a \<in> bm_blocks mk_sb"
  then obtain b where "b < mk_size" "a = bm_block mk_sb b" by (auto simp: bm_blocks_def mk_sb_def disk_layout)
  then show ?thesis using mk_bm_block [of b] by (simp add: disk_layout)
qed

lemma image_file_ok:
  assumes g: "good_image fl s" and n: "n \<in> {1..length fl}"
  shows "file_ok mk_sb (mk_size - nlog) (img s) (disk_file (img s) n)"
proof -
  let ?V = "img s" let ?ip = "disk_file ?V n"
  have o: "own_blocks {1..length fl} (disk_file ?V) ?V (freeblock s)" and fl: "length fl < ninodes"
    and used: "\<And>b. b < mk_size \<Longrightarrow> in_use mk_sb ?V b \<longleftrightarrow> b < freeblock s" and fb: "mk_used \<le> freeblock s" "freeblock s < 4096"
    using g by (auto simp: good_image_def BPB_def)
  have "file_at ?V n (fl ! (n - 1))" using g n by (auto simp: good_image_def dest: spec [of _ "n - 1"])
  then have f: "unat (i_size ?ip) = length (snd (fl ! (n - 1)))" "holds ?ip ?V (snd (fl ! (n - 1)))" by (auto simp: file_at_def disk_file_def)
  have l: "mk_size - nlog = 25035" using disk_layout by (simp add: nlog_def LOGSIZE_def)
  have nn: "n \<le> ninodes" using n fl by simp
  have ib: "IBLOCK (i_inum ?ip) = i2b n" using IBLOCK_i2b [OF nn] by (simp add: disk_file_def)
  note i = i2b_facts(1,2) [OF nn]
  have il: "2 \<le> unat (i2b n)" "unat (i2b n) < 28" using i by (simp_all add: disk_layout(1))
  have own: "mk_used \<le> unat a" "unat a < freeblock s" if "a \<in> owned ?ip ?V" for a
    using that own_blocksD(2) [OF o n] by (auto simp: owned_def)
  have meta: "a \<notin> {1, i2b n} \<union> bm_blocks mk_sb" if "mk_used \<le> unat a" for a
    using that il mk_bm_blocks [of a] by (auto simp: disk_layout(1))
  have "i2b n \<notin> insert 1 (bm_blocks mk_sb)" using il mk_bm_blocks [of "i2b n"] by auto
  moreover have "\<forall>a\<in>owned ?ip ?V. unat a < 25035 \<and> in_use mk_sb ?V (unat a) \<and> a \<notin> {1, i2b n} \<union> bm_blocks mk_sb"
  proof
    fix a assume a: "a \<in> owned ?ip ?V"
    have "unat a < mk_size" using own(2) [OF a] fb(2) by (simp add: disk_layout)
    then show "unat a < 25035 \<and> in_use mk_sb ?V (unat a) \<and> a \<notin> {1, i2b n} \<union> bm_blocks mk_sb"
      using used [of "unat a"] own [OF a] meta [OF own(1) [OF a]] fb(2) by simp
  qed
  moreover have "\<forall>j<NSLOT. \<forall>k<NSLOT. ptr ?ip ?V j \<noteq> 0 \<and> ptr ?ip ?V j = ptr ?ip ?V k \<longrightarrow> j = k"
    using own_blocksD(3) [OF o n n] by blast
  moreover have "in_use mk_sb ?V 0" "in_use mk_sb ?V (unat (i2b n))" using used il fb(1) by (simp_all add: disk_layout)
  ultimately show ?thesis
    unfolding file_ok_def ib l using f(1) holdsD(1,2) [OF f(2)] own_blocksD(1) [OF o n] il by (simp add: disk_file_def)
qed

text \<open>C10: the image that \<open>mkfs\<close> makes holds what it was given. If the names of the files are different (without the underscore, and up
  to 14 bytes) and there is room, \<open>mkfs\<close> runs to its end, and on the image the root directory, inode 1, maps the name of the \<open>k\<close>th file to
  inode \<open>k + 2\<close>, which is a file with the bytes of the host's file; besides, the directory holds \<open>.\<close> and \<open>..\<close> only, and the superblock is the one
  the kernel reads. The number of directory entries must not be a multiple of 32: the size of the directory would then be rounded up to a block that
  does not exist.\<close>

theorem mkfs_files_roundtrip:
  assumes "fits fs" "good_names fs" "(length fs + 2) mod 32 \<noteq> 0"
  shows "returns (mkfs fs) (\<lambda>s. let V = img s; root = disk_file V 1 in
    sb_of (V 1) = mk_sb \<and> i_type root = T_DIR \<and> dom (dir_map (contents root V)) = {[46], [46, 46]} \<union> fname ` set fs \<and>
    (\<forall>k<length fs. dir_map (contents root V) (fname (fs ! k)) = Some (of_nat (k + 2)) \<and>
      i_type (disk_file V (k + 2)) = T_FILE \<and> contents (disk_file V (k + 2)) V = snd (fs ! k)))"
proof -
  let ?fl = "(T_DIR, padded (root_bytes fs)) # files_of fs"
  obtain s where s: "mkfs fs = Ok s" "good_image ?fl s" using mkfs_ok [OF assms(1,3)] by blast
  let ?V = "img s"
  have at: "file_at ?V (Suc k) (?fl ! k)" if "k < length ?fl" for k using s(2) that unfolding good_image_def by blast
  have c: "contents (disk_file ?V (Suc k)) ?V = snd (?fl ! k)" "i_type (disk_file ?V (Suc k)) = fst (?fl ! k)" if "k < length ?fl" for k
    using at [OF that] holds_contents [of "disk_file ?V (Suc k)" ?V "snd (?fl ! k)"] by (auto simp: file_at_def disk_file_def)
  have len: "length fs < ninodes" using assms(1) by (simp add: fits_def)
  have root: "contents (disk_file ?V 1) ?V = padded (root_bytes fs)" "i_type (disk_file ?V 1) = T_DIR" using c [of 0] by simp_all
  note m = root_map [OF assms(2) len]
  have first: "first_idx (\<lambda>f. fname f = fname (fs ! k)) fs = Some k" if "k < length fs" for k
    using that assms(2) nth_eq_iff_index_eq [of "map fname fs"] unfolding good_names_def first_idx_Some by fastforce
  have "dom (dir_map (padded (root_bytes fs))) = {[46], [46, 46]} \<union> fname ` set fs"
  proof (rule set_eqI)
    fix nm
    have "(first_idx (\<lambda>f. fname f = nm) fs = None) = (nm \<notin> fname ` set fs)" by auto
    then show "nm \<in> dom (dir_map (padded (root_bytes fs))) \<longleftrightarrow> nm \<in> {[46], [46, 46]} \<union> fname ` set fs"
      unfolding domIff m by (cases "first_idx (\<lambda>f. fname f = nm) fs") (simp_all del: first_idx_None)
  qed
  moreover have "i_type (disk_file ?V (k + 2)) = T_FILE" "contents (disk_file ?V (k + 2)) ?V = snd (fs ! k)" if "k < length fs" for k
    using c [of "Suc k"] that by (simp_all add: files_of_def)
  moreover have "sb_of (?V 1) = mk_sb" using s(2) by (simp add: good_image_def)
  ultimately show ?thesis using s(1) root m first by (simp add: returns_iff Let_def)
qed

text \<open>C11: if the files fit (at most 198, each of a size that an inode can hold, their blocks and those of the root directory in front of block 4096, no slash in a name) and
  their number plus 2 is not a multiple of 32, \<open>mkfs\<close> runs to its end, and the image that it makes is in the order that the kernel's file system relies on: every
  inode satisfies \<open>file_ok\<close>, so that its blocks exist up to its size, lie in the data area below the log and are marked in the bitmap; no block belongs to two
  files; and the bitmap marks the blocks in front of the first free one and no others.\<close>

theorem mkfs_image_consistent:
  assumes "fits fs" "(length fs + 2) mod 32 \<noteq> 0"
  shows "returns (mkfs fs) (\<lambda>s. let V = img s in
    (\<forall>n\<in>{1..length fs + 1}. file_ok mk_sb (mk_size - nlog) V (disk_file V n)) \<and>
    (\<forall>n\<in>{1..length fs + 1}. \<forall>m\<in>{1..length fs + 1}. n \<noteq> m \<longrightarrow> owned (disk_file V n) V \<inter> owned (disk_file V m) V = {}) \<and>
    (\<forall>b<mk_size. in_use mk_sb V b \<longleftrightarrow> b < freeblock s) \<and> mk_used \<le> freeblock s \<and> freeblock s < mk_size - nlog)"
proof -
  let ?fl = "(T_DIR, padded (root_bytes fs)) # files_of fs"
  obtain s where s: "mkfs fs = Ok s" "good_image ?fl s" using mkfs_ok [OF assms] by blast
  have I: "{1..length ?fl} = {1..length fs + 1}" by (simp add: files_of_def)
  have o: "own_blocks {1..length fs + 1} (disk_file (img s)) (img s) (freeblock s)" using s(2) I unfolding good_image_def by simp
  have "owned (disk_file (img s) n) (img s) \<inter> owned (disk_file (img s) m) (img s) = {}"
    if "n \<in> {1..length fs + 1}" "m \<in> {1..length fs + 1}" "n \<noteq> m" for n m
    using own_blocksD(3) [OF o that(1,2)] that(3) by (fastforce simp: owned_def)
  moreover have "mk_size - nlog = 25035" using disk_layout by (simp add: nlog_def LOGSIZE_def)
  ultimately show ?thesis using s image_file_ok [OF s(2), unfolded I] by (auto simp: returns_iff Let_def good_image_def BPB_def)
qed

text \<open>A kernel that has just been started on the image, and whose buffer cache holds nothing yet that is not on the disk.\<close>

definition image_disk :: "mkfs_st \<Rightarrow> byte list list" where
  "image_disk s = map (\<lambda>i. img s (of_nat i)) [0..<isize s]"

definition booted :: "mkfs_st \<Rightarrow> 'a log_st_scheme \<Rightarrow> bool" where
  "booted s st \<longleftrightarrow> quiet st \<and> dirty_secs st = {} \<and> disk st = image_disk s"

lemma booted_view:
  assumes "booted s st" "unat n < isize s"
  shows "sec_view st n = img s n"
proof -
  have q: "bc_inv st" "\<forall>b<NBUF. \<not> b_busy (bufs st ! b)" and d: "dirty_secs st = {}" "disk st = image_disk s"
    using assms(1) by (auto simp: booted_def quiet_def)
  have e: "disk st ! unat n = img s n" using assms(2) d(2) by (simp add: image_disk_def)
  show ?thesis
  proof (cases "cached 1 n st")
    case (Some b)
    then have "b < NBUF" "b_sector (bufs st ! b) = n" using cached_Some [OF q(1)] by auto
    then show ?thesis using Some q d(1) e by (auto simp: sec_view_def bc_inv_def dirty_secs_def)
  qed (simp add: sec_view_def e)
qed

lemma same_contents:
  assumes "\<And>a. a \<in> owned ip V \<Longrightarrow> V' a = V a"
  shows "blk ip V' k = blk ip V k" "k < MAXFILE \<Longrightarrow> block_data ip V' k = block_data ip V k"
proof -
  have p: "ptr ip V' = ptr ip V" using assms [OF indirect_owned] by (auto simp: ptr_def fun_eq_iff)
  then show "blk ip V' k = blk ip V k" by (simp add: blk_def)
  then show "k < MAXFILE \<Longrightarrow> block_data ip V' k = block_data ip V k" using assms [OF blk_owned] by (simp add: block_data_def)
qed

lemma readable_cong:
  assumes "readable l ip V" "l \<le> l'" "\<And>k. blk ip V' k = blk ip V k"
  shows "readable l' ip V'"
proof -
  have "has_block l' ip V' k" if "has_block l ip V k" for k using that assms(2) by (auto simp: has_block_def assms(3))
  then show ?thesis using assms(1) by (simp add: readable_def)
qed

lemma booted_file:
  assumes g: "good_image fl s" and k: "k < length fl" and b: "booted s st"
  shows "readable (length (disk st)) (disk_file (img s) (Suc k)) (sec_view st)"
    "contents (disk_file (img s) (Suc k)) (sec_view st) = snd (fl ! k)"
proof -
  let ?ip = "disk_file (img s) (Suc k)"
  have i: "isize s = mk_size" "file_at (img s) (Suc k) (fl ! k)" using g k by (auto simp: good_image_def)
  have f: "file_ok mk_sb (mk_size - nlog) (img s) ?ip" using k by (intro image_file_ok [OF g]) simp
  have ow: "unat a < mk_size" if "a \<in> owned ?ip (img s)" for a using file_okD(8) [OF f that] by simp
  then have "sec_view st a = img s a" if "a \<in> owned ?ip (img s)" for a using that booted_view [OF b] i(1) by simp
  note same = same_contents [of ?ip "img s" "sec_view st", OF this]
  have h: "holds ?ip (img s) (snd (fl ! k))" using i(2) by (simp add: file_at_def)
  have "holds ?ip (sec_view st) (snd (fl ! k))" by (rule holds_cong [OF h same(2)]) (simp_all only: same(1) not_False_eq_True)
  then show "contents ?ip (sec_view st) = snd (fl ! k)" using i(2) by (intro holds_contents) (auto simp: file_at_def disk_file_def)
  have "mk_size - nlog \<le> length (disk st)" using b i(1) by (simp add: booted_def image_disk_def)
  then show "readable (length (disk st)) ?ip (sec_view st)" using same(1) by (rule readable_cong [OF file_ok_readable [OF f]])
qed

text \<open>The kernel reads what \<open>mkfs\<close> was given. On a kernel started on the image of \<open>mkfs\<close>, \<open>readi\<close> of the inode of the \<open>k\<close>th file, as it is on
  the disk, returns the bytes of the host's file from the offset on, as many as were asked for or as there are.\<close>

lemma mkfs_kernel_reads_files:
  fixes st :: "'a fs_st_scheme"
  assumes "fits fs" "(length fs + 2) mod 32 \<noteq> 0" "mkfs fs = Ok s" "k < length fs"
    "booted s st" "icache st ! i = disk_file (img s) (k + 2)" "unat off \<le> length (snd (fs ! k))" "unat off + unat n < 2 ^ 32"
  shows "returns (readi devs i off n (st, env)) (\<lambda>((r, bs), st', env').
    bs = take (unat n) (drop (unat off) (snd (fs ! k))) \<and> r = int (length bs) \<and> sec_view st' = sec_view st \<and> env' = env)"
proof -
  let ?fl = "(T_DIR, padded (root_bytes fs)) # files_of fs" and ?ip = "disk_file (img s) (k + 2)"
  have g: "good_image ?fl s" using mkfs_ok [OF assms(1,2)] assms(3) by auto
  have k: "Suc k < length ?fl" "?fl ! Suc k = (T_FILE, snd (fs ! k))" using assms(4) by (simp_all add: files_of_def)
  have at: "file_at (img s) (k + 2) (T_FILE, snd (fs ! k))" using g k unfolding good_image_def by (metis add_2_eq_Suc')
  have sz: "i_type ?ip = T_FILE" "unat (i_size ?ip) = length (snd (fs ! k))" using at by (simp_all add: file_at_def disk_file_def)
  have r: "readable (length (disk st)) ?ip (sec_view st)" "contents ?ip (sec_view st) = snd (fs ! k)"
    using booted_file [OF g k(1) assms(5)] k(2) by simp_all
  have "\<not> i_size ?ip < off" using assms(7) sz(2) by (simp add: word_less_nat_alt)
  moreover have "\<not> off + n < off" using assms(8) by (simp add: word_less_nat_alt unat_plus_if')
  moreover have "quiet st" "card (dirty_secs st) < NBUF" using assms(5) by (auto simp: booted_def NBUF_def)
  ultimately show ?thesis
    using free_reads.readi_ok [of st i off n devs env] r sz assms(6) by (auto simp: T_FILE_def T_DEV_def elim!: returns_mono)
qed

section \<open>An example\<close>

definition demo_files :: "(byte list \<times> byte list) list" where
  "demo_files = [([95, 97], [1, 2, 3])]"

lemma demo_files_ok: "fits demo_files" "good_names demo_files" "(length demo_files + 2) mod 32 \<noteq> 0"
proof -
  have "nblk (Suc (Suc (Suc 0))) = 1" "nblk 48 = 1" by (simp_all add: nblk_def BSIZE_def NDIRECT_def)
  then show "fits demo_files"
    by (simp add: fits_def demo_files_def slash_def disk_layout files_of_def BSIZE_def MAXFILE_def NDIRECT_def NINDIRECT_def)
qed (simp_all add: good_names_def demo_files_def strip_def dname_def DIRSIZ_def)

definition kernel_on :: "mkfs_st \<Rightarrow> inode \<Rightarrow> fs_st" where
  "kernel_on s ip = log_st.extend (cold (image_disk s) (disk_st.extend (demo_disk []) (log_st.fields 0 0 False 0 0 []))) (fs_st.fields [ip])"

lemma kernel_on_booted:
  assumes "good_image fl s"
  shows "booted s (kernel_on s ip)" "icache (kernel_on s ip) = [ip]"
proof -
  let ?b = "cold (image_disk s) (disk_st.extend (demo_disk []) (log_st.fields 0 0 False 0 0 []))"
  have "\<forall>d\<in>set (image_disk s). length d = BSIZE"
    using assms by (auto simp: image_disk_def good_image_def disk_layout unat_of_nat32)
  then have i: "bc_inv ?b" by (rule cold_inv)
  have h: "held ?b = []" "disk ?b = image_disk s"
    by (simp_all add: cold_def binit_def ideinit_def disk_st.defs log_st.defs demo_disk_def demo_st_def proc_st.defs)
  have "quiet ?b" "dirty_secs ?b = {}"
    using i h(1) by (auto simp: quiet_def dirty_secs_def) (simp_all add: zero_buf_def)
  moreover have "bufs (kernel_on s ip) = bufs ?b" "lru (kernel_on s ip) = lru ?b" "disk (kernel_on s ip) = disk ?b" "held (kernel_on s ip) = held ?b"
    by (simp_all add: kernel_on_def log_st.defs fs_st.defs)
  ultimately show "booted s (kernel_on s ip)"
    using quiet_cong [of "kernel_on s ip" ?b] log_view_cong(3) [of "kernel_on s ip" ?b] h(2) by (simp add: booted_def)
  show "icache (kernel_on s ip) = [ip]" by (simp add: kernel_on_def log_st.defs fs_st.defs)
qed

lemma demo_name: "length demo_files = 1" "fname (demo_files ! 0) = [97]" "snd (demo_files ! 0) = [1, 2, 3]"
  by (simp_all add: demo_files_def strip_def dname_def DIRSIZ_def)

theorem mkfs_files_roundtrip_witness:
  "returns (mkfs demo_files) (\<lambda>s. contents (disk_file (img s) 2) (img s) = [1, 2, 3] \<and>
     dir_map (contents (disk_file (img s) 1) (img s)) [97] = Some 2)"
proof (rule returns_mono [OF mkfs_files_roundtrip [OF demo_files_ok]])
  fix s
  assume "let V = img s; root = disk_file V 1 in
    sb_of (V 1) = mk_sb \<and> i_type root = T_DIR \<and> dom (dir_map (contents root V)) = {[46], [46, 46]} \<union> fname ` set demo_files \<and>
    (\<forall>k<length demo_files. dir_map (contents root V) (fname (demo_files ! k)) = Some (of_nat (k + 2)) \<and>
      i_type (disk_file V (k + 2)) = T_FILE \<and> contents (disk_file V (k + 2)) V = snd (demo_files ! k))"
  then have "\<forall>k<length demo_files. dir_map (contents (disk_file (img s) 1) (img s)) (fname (demo_files ! k)) = Some (of_nat (k + 2)) \<and>
      contents (disk_file (img s) (k + 2)) (img s) = snd (demo_files ! k)" by (simp only: Let_def) blast
  from this [rule_format, of 0] show "contents (disk_file (img s) 2) (img s) = [1, 2, 3] \<and> dir_map (contents (disk_file (img s) 1) (img s)) [97] = Some 2"
    unfolding demo_name by (simp add: numeral_2_eq_2)
qed

theorem mkfs_image_consistent_witness:
  "returns (mkfs demo_files) (\<lambda>s. owned (disk_file (img s) 1) (img s) \<inter> owned (disk_file (img s) 2) (img s) = {})"
proof -
  obtain s where s: "mkfs demo_files = Ok s"
    "\<forall>n\<in>{1..length demo_files + 1}. \<forall>m\<in>{1..length demo_files + 1}. n \<noteq> m \<longrightarrow> owned (disk_file (img s) n) (img s) \<inter> owned (disk_file (img s) m) (img s) = {}"
    using mkfs_image_consistent [OF demo_files_ok(1,3)] unfolding returns_iff Let_def by (elim exE conjE)
  show ?thesis using s(1) s(2) [rule_format, of 1 2] by (simp add: returns_iff demo_name)
qed

lemma mkfs_kernel_reads_files_witness:
  "\<exists>s st :: fs_st. mkfs demo_files = Ok s \<and> returns (readi no_devices 0 1 9 (st, [])) (\<lambda>((r, bs), _). r = 2 \<and> bs = [2, 3])"
proof -
  obtain s where s: "mkfs demo_files = Ok s" "good_image ((T_DIR, padded (root_bytes demo_files)) # files_of demo_files) s"
    using mkfs_ok [OF demo_files_ok(1,3)] by blast
  let ?st = "kernel_on s (disk_file (img s) (0 + 2))"
  note k = kernel_on_booted [OF s(2), of "disk_file (img s) (0 + 2)"]
  have ic: "icache ?st ! 0 = disk_file (img s) (0 + 2)" unfolding k(2) by simp
  have "returns (readi no_devices 0 1 9 (?st, [])) (\<lambda>((r, bs), st', env'). bs = take (unat (9 :: u32)) (drop (unat (1 :: u32)) (snd (demo_files ! 0))) \<and>
      r = int (length bs) \<and> sec_view st' = sec_view ?st \<and> env' = [])"
    by (rule mkfs_kernel_reads_files [OF demo_files_ok(1,3) s(1) _ k(1) ic]) (simp_all add: demo_name)
  then have "returns (readi no_devices 0 1 9 (?st, [])) (\<lambda>((r, bs), _). r = 2 \<and> bs = [2, 3])"
    unfolding demo_name by (rule returns_mono) auto
  then show ?thesis using s(1) by blast
qed

end
