(* ===== verification/Boot_Image.thy ===== *)
theory Boot_Image
  imports Namei Mkfs_Image
begin

text \<open>
  Path lookup on a disk, and the way of a file from the host to the kernel: \<open>mkfs\<close> writes it to the image, and the
  kernel that is started on the image finds it by its name and reads it.
\<close>

section \<open>Lookup outside a transaction\<close>

lemma namei_walk:
  fixes s :: "'a fs_st_scheme"
  assumes "quiet s \<and> card (dirty_secs s) < NBUF" "icache_ok (sec_view s) {} (icache s)" "fstree_ok (length (disk s)) (sec_view s) N"
    "path_start s path = Some n" "n \<in> N" "card {m. 0 < refc (icache s) m} + 2 \<le> length (icache s)" "0 \<notin> set path"
  shows "\<exists>r s'. namei path (s, env) = Ok (r, s', env) \<and> free_paths.walk N {} s s' \<and>
    found_path (resolve (sec_view s) n (elems path)) (refc (icache s)) r (icache s')"
proof -
  have "length (replicate DIRSIZ 0 :: byte list) = DIRSIZ" by simp
  from free_paths.namex_ok [OF assms(1-6) this assms(7), of False env] obtain r name' s' where
    "namex path False (replicate DIRSIZ 0) (s, env) = Ok ((r, name'), s', env)" "free_paths.walk N {} s s'"
      "found_path (resolve (sec_view s) n (elems path)) (refc (icache s)) r (icache s')" by (auto simp: path_target_def)
  then show ?thesis by (auto simp: namei_def thn_run)
qed

text \<open>C8: \<open>namei\<close> finds what the directories on the disk say. If the inode cache is in good order and has two entries to spare, the
  current directory is held, and the inodes that can be reached are sound, then \<open>namei\<close> returns: a cached inode with the number that the path leads to, or the
  null pointer if an element is missing or not a directory. No block changes, the cache stays in good order, and of all reference counts just that of the
  inode found has grown, by one.\<close>

theorem namei_resolves_path:
  fixes s :: "'a fs_st_scheme"
  assumes "quiet s" "card (dirty_secs s) < NBUF" "icache_ok (sec_view s) {} (icache s)" "fstree_ok (length (disk s)) (sec_view s) N"
    "path_start s path = Some n" "n \<in> N" "card {m. 0 < refc (icache s) m} + 2 \<le> length (icache s)" "0 \<notin> set path"
  shows "returns (namei path (s, env)) (\<lambda>(r, s', env').
    env' = env \<and> quiet s' \<and> sec_view s' = sec_view s \<and> icache_ok (sec_view s) {} (icache s') \<and>
    (case resolve (sec_view s) n (elems path) of
       None \<Rightarrow> r = None \<and> refc (icache s') = refc (icache s)
     | Some m \<Rightarrow> \<exists>j. r = Some j \<and> j < length (icache s') \<and> i_ref (icache s' ! j) > 0 \<and> i_inum (icache s' ! j) = m \<and>
         refc (icache s') = (refc (icache s))(m := refc (icache s) m + 1)))"
proof -
  obtain r s' where n: "namei path (s, env) = Ok (r, s', env)" "free_paths.walk N {} s s'"
    "found_path (resolve (sec_view s) n (elems path)) (refc (icache s)) r (icache s')"
    using namei_walk [OF conjI [OF assms(1,2)] assms(3-8), of env] by blast
  then show ?thesis using free_paths.walkD(1,2,5) [OF n(2)]
    by (auto simp: returns_iff found_path_def plus_ref_def split: option.splits)
qed

section \<open>The image as a tree\<close>

lemma booted_dinode:
  assumes "booted s st" "isize s = mk_size" "n \<le> ninodes"
  shows "disk_dinode (sec_view st) (of_nat n) = disk_din (img s) n" "unat (IBLOCK (of_nat n)) < 28"
proof -
  have u: "unat (of_nat n :: u32) = n" using assms(3) by (intro unat_of_nat32) (simp add: disk_layout)
  note i = i2b_facts(1,2) [OF assms(3)] and ib = IBLOCK_i2b [OF assms(3)]
  show "unat (IBLOCK (of_nat n)) < 28" unfolding ib using i(2) by (simp add: disk_layout(1))
  then show "disk_dinode (sec_view st) (of_nat n) = disk_din (img s) n"
    using booted_view [OF assms(1), of "i2b n"] assms(2) ib u by (simp add: disk_dinode_def disk_din_def disk_layout)
qed

lemma booted_inode:
  assumes "booted s st" "isize s = mk_size" "n \<le> ninodes"
  shows "dinode_of (disk_inode (sec_view st) (of_nat n)) = dinode_of (disk_file (img s) n)" "i_dev (disk_inode (sec_view st) (of_nat n)) = i_dev (disk_file (img s) n)"
  using booted_dinode(1) [OF assms] by (simp_all add: disk_inode_def disk_file_def) (simp add: din_inode_def dinode_of_def)

lemma root_inode:
  assumes g: "good_image ((T_DIR, padded (root_bytes fs)) # files_of fs) s" and b: "booted s st"
  shows "is_dir (length (disk st)) (disk_inode (sec_view st) 1) (sec_view st)" "contents (disk_inode (sec_view st) 1) (sec_view st) = padded (root_bytes fs)"
proof -
  let ?V = "sec_view st" and ?ip = "disk_file (img s) 1"
  have i: "isize s = mk_size" "1 \<le> ninodes" using g by (simp_all add: good_image_def disk_layout)
  have one: "(1 :: u32) = of_nat 1" by simp
  note same = same_dinode [OF booted_inode [OF b i], folded one]
  have f: "file_at (img s) 1 (T_DIR, padded (root_bytes fs))" using g by (auto simp: good_image_def dest: spec [of _ 0])
  note bf = booted_file [OF g _ b, of 0, simplified]
  show "contents (disk_inode ?V 1) ?V = padded (root_bytes fs)" unfolding same(2) using bf(2) by simp
  have "i_type ?ip = T_DIR" "unat (i_size ?ip) = (length (root_bytes fs) div BSIZE + 1) * BSIZE"
    using f length_padded [of "root_bytes fs"] by (simp_all add: file_at_def disk_file_def)
  moreover have "x * BSIZE mod 16 = 0" for x :: nat by (simp add: BSIZE_def)
  then have "unat (i_size ?ip) mod 16 = 0" using calculation(2) by (simp only:)
  ultimately show "is_dir (length (disk st)) (disk_inode ?V 1) ?V" unfolding same(1) unfolding is_dir_def using bf(1) by simp
qed

lemma ucast_num: "n < 2 ^ 16 \<Longrightarrow> ucast (of_nat n :: u16) = (of_nat n :: u32)"
  by (simp add: unsigned_of_nat take_bit_nat_eq_self)

lemma image_tree:
  assumes g: "good_image ((T_DIR, padded (root_bytes fs)) # files_of fs) s" and b: "booted s st" and names: "good_names fs"
  shows "fstree_ok (length (disk st)) (sec_view st) (of_nat ` {1..length fs + 1})"
  unfolding fstree_ok_def
proof
  let ?V = "sec_view st"
  fix n assume "n \<in> (of_nat :: nat \<Rightarrow> u32) ` {1..length fs + 1}"
  then obtain x where x: "n = of_nat x" "1 \<le> x" "x \<le> length fs + 1" by auto
  define m where "m = x - 1"
  have m: "n = of_nat (Suc m)" "m < length ((T_DIR, padded (root_bytes fs)) # files_of fs)" using x by (simp_all add: m_def files_of_def)
  have i: "isize s = mk_size" "length fs + 1 < ninodes" using g by (simp_all add: good_image_def files_of_def)
  have mn: "Suc m \<le> ninodes" using m(2) i(2) by (simp add: files_of_def)
  note d = booted_dinode [OF b i(1) mn, folded m(1)]
  have f: "file_at (img s) (Suc m) (((T_DIR, padded (root_bytes fs)) # files_of fs) ! m)" using g m(2) unfolding good_image_def by blast
  have len: "length (disk st) = mk_size" using b i(1) by (simp add: booted_def image_disk_def)
  have ty: "fst (((T_DIR, padded (root_bytes fs)) # files_of fs) ! m) = (if m = 0 then T_DIR else T_FILE)"
    using m(2) by (auto simp: files_of_def nth_Cons split: nat.splits)
  have t: "di_type (disk_dinode ?V n) = (if m = 0 then T_DIR else T_FILE)" "di_nlink (disk_dinode ?V n) = 1"
    using f ty by (simp_all add: d(1) file_at_def)
  have to: "ucast k \<in> (of_nat :: nat \<Rightarrow> u32) ` {1..length fs + 1}" if "m = 0" "dir_at ?V n nm = Some k" for nm k
  proof -
    have "dir_map (padded (root_bytes fs)) nm = Some k" using that root_inode(2) [OF g b] m(1) by simp
    then have "\<exists>j. k = of_nat j \<and> 1 \<le> j \<and> j \<le> length fs + 1"
      unfolding root_map [OF names i(2) [THEN Suc_lessD [unfolded Suc_eq_plus1]]]
      by (auto split: option.splits if_splits dest!: first_idx_SomeD(1) intro: exI [of _ "_ + 2"] exI [of _ 1])
    then obtain j where j: "k = of_nat j" "1 \<le> j" "j \<le> length fs + 1" by blast
    then have "ucast k = (of_nat j :: u32)" using ucast_num [of j] i(2) by (simp add: disk_layout)
    then show ?thesis using j by auto
  qed
  have m0: "m = 0" if "di_type (disk_dinode ?V n) = T_DIR" using t(1) that by (auto simp: T_DIR_def T_FILE_def split: if_splits)
  show "unat (IBLOCK n) < length (disk st) \<and> di_type (disk_dinode ?V n) \<noteq> 0 \<and> di_nlink (disk_dinode ?V n) \<noteq> 0 \<and>
     (di_type (disk_dinode ?V n) = T_DIR \<longrightarrow> is_dir (length (disk st)) (disk_inode ?V n) ?V \<and> (\<forall>nm k. dir_at ?V n nm = Some k \<longrightarrow> (ucast k :: u32) \<in> of_nat ` {1..length fs + 1}))"
  proof (intro conjI impI allI)
    show "unat (IBLOCK n) < length (disk st)" using d(2) len by (simp add: disk_layout)
    show "di_type (disk_dinode ?V n) \<noteq> 0" "di_nlink (disk_dinode ?V n) \<noteq> 0" using t by (simp_all add: T_DIR_def T_FILE_def)
    show "is_dir (length (disk st)) (disk_inode ?V n) ?V" if "di_type (disk_dinode ?V n) = T_DIR" using root_inode(1) [OF g b] m(1) m0 [OF that] by simp
  qed (rule to [OF m0])
qed

section \<open>Files by their names\<close>

lemma elems_name: "slash \<notin> set nm \<Longrightarrow> nm \<noteq> [] \<Longrightarrow> elems (slash # nm) = [nm]"
proof -
  assume n: "slash \<notin> set nm" "nm \<noteq> []"
  then have "hd nm \<noteq> slash" by (metis hd_in_set)
  then have "dropWhile (\<lambda>c. c = slash) nm = nm" using n(2) by (cases nm) auto
  moreover have "takeWhile (\<lambda>c. c \<noteq> slash) nm = nm" "dropWhile (\<lambda>c. c \<noteq> slash) nm = []" using n(1) by (auto simp: takeWhile_eq_all_conv)
  moreover have "elems [] = []" by (subst elems.simps) simp
  ultimately show ?thesis using n(2) by (subst elems.simps) (simp add: Let_def del: dropWhile_eq_Nil_conv takeWhile_eq_all_conv)
qed

lemma name_resolves:
  assumes g: "good_image ((T_DIR, padded (root_bytes fs)) # files_of fs) s" and b: "booted s st" and names: "good_names fs"
    and k: "k < length fs" "slash \<notin> set (strip (fst (fs ! k)))" "strip (fst (fs ! k)) \<noteq> []"
  shows "resolve (sec_view st) 1 (elems (slash # strip (fst (fs ! k)))) = Some (of_nat (k + 2))"
proof -
  have l: "length fs < ninodes" using g by (simp add: good_image_def files_of_def)
  have "first_idx (\<lambda>f. fname f = fname (fs ! k)) fs = Some k"
    using k(1) names nth_eq_iff_index_eq [of "map fname fs"] unfolding good_names_def first_idx_Some by fastforce
  then have "dir_at (sec_view st) 1 (fname (fs ! k)) = Some (of_nat (k + 2))" unfolding root_inode(2) [OF g b] root_map [OF names l] by simp
  moreover have "ucast (of_nat (k + 2) :: u16) = (of_nat (k + 2) :: u32)" using ucast_num [of "k + 2"] k(1) l by (simp add: disk_layout)
  moreover have "i_type (disk_inode (sec_view st) 1) = T_DIR" using is_dirD(1) [OF root_inode(1) [OF g b]] .
  ultimately show ?thesis unfolding elems_name [OF k(2,3)] by simp
qed

lemma same_readable:
  assumes "dinode_of ip = dinode_of ip'" "i_dev ip = i_dev ip'"
  shows "readable l ip V = readable l ip' V"
proof -
  have a: "i_size ip = i_size ip'" "i_addrs ip = i_addrs ip'" using assms(1) by (auto simp: dinode_of_def)
  then have "blk ip V = blk ip' V" by (simp add: blk_def ptr_def fun_eq_iff)
  then show ?thesis using a assms(2) by (simp add: readable_def has_block_def)
qed

text \<open>The calls that \<open>open\<close> and \<open>read\<close> make for a file.\<close>

definition read_named :: "byte list \<Rightarrow> u32 \<Rightarrow> u32 \<Rightarrow> ('a fs_st_scheme, int \<times> byte list) prog" where
  "read_named path off n =
     thn (namei path) (\<lambda>r. case r of None \<Rightarrow> ret (-1, []) | Some j \<Rightarrow> thn (ilock j) (\<lambda>_. readi no_devices j off n))"

lemma strip_set: "set (strip nm) \<subseteq> set nm"
  by (auto simp: strip_def split: list.splits if_splits)

lemma locked_file:
  assumes g: "good_image ((T_DIR, padded (root_bytes fs)) # files_of fs) s" and b: "booted s st" and k: "k < length fs"
    and ip: "i_inum ip = of_nat (k + 2)" "i_dev ip = 1"
  shows "readable (length (disk st)) (locked_entry (sec_view st) ip) (sec_view st)" "contents (locked_entry (sec_view st) ip) (sec_view st) = snd (fs ! k)"
    "i_type (locked_entry (sec_view st) ip) = T_FILE"
proof -
  let ?V = "sec_view st" and ?f = "disk_file (img s) (k + 2)"
  have i: "isize s = mk_size" "k + 2 \<le> ninodes" using g k by (simp_all add: good_image_def files_of_def)
  have "dinode_of (locked_entry ?V ip) = dinode_of ?f" using booted_inode(1) [OF b i] ip(1) by (simp add: disk_inode_def)
  moreover have "i_dev (locked_entry ?V ip) = i_dev ?f" using ip(2) by (simp add: disk_file_def)
  ultimately have same: "contents (locked_entry ?V ip) ?V = contents ?f ?V" "i_type (locked_entry ?V ip) = i_type ?f"
    "readable l (locked_entry ?V ip) ?V = readable l ?f ?V" for l
    using same_dinode(2) [of "locked_entry ?V ip" ?f ?V] same_readable [of "locked_entry ?V ip" ?f l ?V] by (simp_all add: dinode_of_def)
  have fl: "Suc k < length ((T_DIR, padded (root_bytes fs)) # files_of fs)" using k by (simp add: files_of_def)
  have "file_at (img s) (Suc (Suc k)) (((T_DIR, padded (root_bytes fs)) # files_of fs) ! Suc k)" using g fl unfolding good_image_def by blast
  then show "i_type (locked_entry ?V ip) = T_FILE" unfolding same(2) using k by (simp add: file_at_def disk_file_def files_of_def)
  show "readable (length (disk st)) (locked_entry ?V ip) ?V" "contents (locked_entry ?V ip) ?V = snd (fs ! k)"
    unfolding same(1,3) using booted_file [OF g fl b] k by (simp_all add: files_of_def)
qed

text \<open>C9: from the host to the kernel. Let \<open>mkfs\<close> have made an image of at most 198 files, each of a size that an inode can hold, whose blocks and those of the
  root directory fit in front of block 4096, whose names have no slash, are different (without the underscore, and up to 14 bytes) and are not \<open>.\<close> or \<open>..\<close>, and
  whose number plus 2 is not a multiple of 32. A kernel started on it, with no buffer busy, dirty or lock held and an inode cache in good order with two entries to spare,
  finds the \<open>k\<close>th file of the command line, if its name is not empty and has no NUL byte, under this name in the root directory, locks its inode and reads
  from it the bytes of the host's file, from an offset not beyond its end, as many as were asked for or as there are (offset and number together below \<open>2^32\<close>); no block changes.\<close>

theorem kernel_reads_file_by_name:
  fixes st :: "'a fs_st_scheme"
  assumes "fits fs" "good_names fs" "(length fs + 2) mod 32 \<noteq> 0" "mkfs fs = Ok s" "booted s st"
    "icache_ok (sec_view st) {} (icache st)" "card {m. 0 < refc (icache st) m} + 2 \<le> length (icache st)"
    "k < length fs" "0 \<notin> set (fst (fs ! k))" "strip (fst (fs ! k)) \<noteq> []" "unat off \<le> length (snd (fs ! k))" "unat off + unat n < 2 ^ 32"
  shows "returns (read_named (slash # strip (fst (fs ! k))) off n (st, env)) (\<lambda>((r, bs), st', env').
    bs = take (unat n) (drop (unat off) (snd (fs ! k))) \<and> r = int (length bs) \<and> sec_view st' = sec_view st \<and> env' = env)"
proof -
  let ?p = "slash # strip (fst (fs ! k))" and ?N = "(of_nat :: nat \<Rightarrow> u32) ` {1..length fs + 1}" and ?V = "sec_view st"
  have g: "good_image ((T_DIR, padded (root_bytes fs)) # files_of fs) s" using mkfs_ok [OF assms(1,3)] assms(4) by auto
  have q: "quiet st \<and> card (dirty_secs st) < NBUF" using assms(5) by (auto simp: booted_def NBUF_def)
  have "slash \<notin> set (fst (fs ! k))" using assms(1) nth_mem [OF assms(8)] by (cases "fs ! k") (force simp: fits_def)
  then have nm: "slash \<notin> set (strip (fst (fs ! k)))" "0 \<notin> set ?p"
    using assms(9) strip_set [of "fst (fs ! k)"] by (auto simp: slash_def)
  have "path_start st ?p = Some 1" by (simp add: path_start_def ROOTINO_def)
  moreover have "1 \<in> ?N" by (rule image_eqI [of _ _ 1]) simp_all
  ultimately obtain r s1 where n: "namei ?p (st, env) = Ok (r, s1, env)" "free_paths.walk ?N {} st s1"
    "found_path (Some (of_nat (k + 2))) (refc (icache st)) r (icache s1)"
    using namei_walk [OF q assms(6) image_tree [OF g assms(5,2)] _ _ assms(7) nm(2), of 1 env] name_resolves [OF g assms(5,2,8) nm(1) assms(10)] by auto
  then obtain j where j: "r = Some j" "j < length (icache s1)" "i_ref (icache s1 ! j) > 0" "i_inum (icache s1 ! j) = of_nat (k + 2)"
    by (auto simp: found_path_def)
  note w = free_paths.walkD [OF n(2)]
  have ww: "free_paths.walk ?N {} s1 s1" using n(2) by (simp add: free_paths.walk_def)
  have "i_inum (icache s1 ! j) \<in> ?N" unfolding j(4) using assms(8) by (intro imageI) simp
  from free_paths.walk_ilock [OF ww j(2,3) this, of env] obtain s2 where
    l: "ilock j (s1, env) = Ok ((), s2, env)" "free_paths.walk ?N {j} s1 s2" "icache s2 = (icache s1)[j := locked_entry ?V (icache s1 ! j)]"
    unfolding w(2) by blast
  note w2 = free_paths.walkD [OF l(2), unfolded w(2,3)]
  have e: "icache s2 ! j = locked_entry ?V (icache s1 ! j)" using l(3) j(2) by simp
  note f = locked_file [OF g assms(5,8) j(4) icache_okD(3) [OF w(5) j(2,3)], folded e]
  have sz: "unat (i_size (icache s2 ! j)) = length (snd (fs ! k))" using f(2) by (metis length_contents)
  have "\<not> off > i_size (icache s2 ! j)" using assms(11) sz by (simp add: word_less_nat_alt)
  moreover have "\<not> off + n < off" using assms(12) by (simp add: word_less_nat_alt unat_plus_if')
  moreover have "readable (length (disk s2)) (icache s2 ! j) (sec_view s2)" using f(1) w2(2,3) by simp
  moreover have "i_type (icache s2 ! j) \<noteq> T_DEV" using f(3) by (simp add: T_FILE_def T_DEV_def)
  ultimately obtain bs s3 where "readi no_devices j off n (s2, env) = Ok ((int (length bs), bs), s3, env)"
    "bs = take (unat n) (drop (unat off) (snd (fs ! k)))" "sec_view s3 = ?V"
    using free_reads.readi_ok [OF w2(1), of j off n no_devices env] f(2) unfolding w2(2) by auto
  then show ?thesis using n(1) j(1) l(1) by (simp add: read_named_def thn_run returns_iff)
qed

section \<open>An example\<close>

definition fresh_kernel :: "mkfs_st \<Rightarrow> fs_st" where
  "fresh_kernel s = (kernel_on s (demo_inode 0 []))\<lparr>icache := replicate NINODE ((demo_inode 0 [])\<lparr>i_ref := 0\<rparr>)\<rparr>"

lemma fresh_kernel_ok:
  assumes "good_image fl s"
  shows "booted s (fresh_kernel s)" "icache_ok V {} (icache (fresh_kernel s))"
    "card {m. 0 < refc (icache (fresh_kernel s)) m} + 2 \<le> length (icache (fresh_kernel s))"
proof -
  let ?k = "kernel_on s (demo_inode 0 [])"
  have c: "bufs (fresh_kernel s) = bufs ?k" "lru (fresh_kernel s) = lru ?k" "disk (fresh_kernel s) = disk ?k" "held (fresh_kernel s) = held ?k"
    by (simp_all add: fresh_kernel_def)
  show "booted s (fresh_kernel s)"
    using kernel_on_booted(1) [OF assms, of "demo_inode 0 []"] quiet_cong [OF c] log_view_cong(3) [OF c(1-3)] c(3) by (simp add: booted_def)
  have n: "i_ref (icache (fresh_kernel s) ! i) = 0" if "i < length (icache (fresh_kernel s))" for i
    using that by (simp add: fresh_kernel_def)
  then show "icache_ok V {} (icache (fresh_kernel s))" by (auto simp: icache_ok_def)
  have "refc (icache (fresh_kernel s)) m = 0" for m using n by (rule refc_zero)
  then show "card {m. 0 < refc (icache (fresh_kernel s)) m} + 2 \<le> length (icache (fresh_kernel s))" by (simp add: fresh_kernel_def NINODE_def)
qed

lemma demo_image: "\<exists>s. mkfs demo_files = Ok s \<and> good_image ((T_DIR, padded (root_bytes demo_files)) # files_of demo_files) s"
  using mkfs_ok [OF demo_files_ok(1,3)] .

lemma demo_path: "slash # strip (fst (demo_files ! 0)) = [47, 97]" "0 \<notin> set (fst (demo_files ! 0))" "strip (fst (demo_files ! 0)) = [97]"
  by (simp_all add: demo_files_def strip_def slash_def)

theorem namei_resolves_path_witness:
  "\<exists>s st :: fs_st. mkfs demo_files = Ok s \<and> returns (namei [47, 97] (st, [])) (\<lambda>(r, st', _). \<exists>j. r = Some j \<and> i_inum (icache st' ! j) = 2)"
proof -
  obtain s where s: "mkfs demo_files = Ok s" "good_image ((T_DIR, padded (root_bytes demo_files)) # files_of demo_files) s" using demo_image by blast
  note f = fresh_kernel_ok [OF s(2)]
  have q: "quiet (fresh_kernel s)" "card (dirty_secs (fresh_kernel s)) < NBUF" using f(1) by (auto simp: booted_def NBUF_def)
  have st: "path_start (fresh_kernel s) [47, 97] = Some 1" by (simp add: path_start_def slash_def ROOTINO_def)
  have one: "1 \<in> (of_nat :: nat \<Rightarrow> u32) ` {1..length demo_files + 1}" by (rule image_eqI [of _ _ 1]) simp_all
  have z: "0 \<notin> set [47, 97 :: byte]" by simp
  have r: "resolve (sec_view (fresh_kernel s)) 1 (elems [47, 97]) = Some 2"
    using name_resolves [OF s(2) f(1) demo_files_ok(2), of 0] unfolding demo_path by (simp add: demo_name slash_def)
  have "returns (namei [47, 97] (fresh_kernel s, [])) (\<lambda>(r, st', _). \<exists>j. r = Some j \<and> i_inum (icache st' ! j) = 2)"
    using namei_resolves_path [OF q f(2) image_tree [OF s(2) f(1) demo_files_ok(2)] st one f(3) z, of "[]"] unfolding r
    by (auto elim!: returns_mono)
  then show ?thesis using s(1) by blast
qed

theorem kernel_reads_file_by_name_witness:
  "\<exists>s st :: fs_st. mkfs demo_files = Ok s \<and> returns (read_named [47, 97] 1 9 (st, [])) (\<lambda>((r, bs), _). r = 2 \<and> bs = [2, 3])"
proof -
  obtain s where s: "mkfs demo_files = Ok s" "good_image ((T_DIR, padded (root_bytes demo_files)) # files_of demo_files) s" using demo_image by blast
  note f = fresh_kernel_ok [OF s(2)]
  have "returns (read_named (slash # strip (fst (demo_files ! 0))) 1 9 (fresh_kernel s, [])) (\<lambda>((r, bs), st', env').
      bs = take (unat (9 :: u32)) (drop (unat (1 :: u32)) (snd (demo_files ! 0))) \<and> r = int (length bs) \<and> sec_view st' = sec_view (fresh_kernel s) \<and> env' = [])"
    by (rule kernel_reads_file_by_name [OF demo_files_ok s(1) f]) (simp_all add: demo_name demo_path)
  then have "returns (read_named [47, 97] 1 9 (fresh_kernel s, [])) (\<lambda>((r, bs), _). r = 2 \<and> bs = [2, 3])"
    unfolding demo_path(1) demo_name by (rule returns_mono) auto
  then show ?thesis using s(1) by blast
qed

end
