(* ===== verification/Ide.thy ===== *)
theory Ide
  imports Bio
begin

text \<open>
  \<open>ide.c\<close>: the driver of the IDE disk, which queues requests and completes them from the
  interrupt handler. The disk controller is an argument: the instructions by which the
  driver talks to its ports, on a state of its own. What the driver needs of it is stated as
  \<open>ata_disk\<close>. Under that contract the driver does what the memory disk of \<open>memide.c\<close> does.
\<close>

section \<open>State\<close>

text \<open>\<open>inb(0x1f7)\<close>, \<open>outb(port, v)\<close>, \<open>outsl(0x1f0, ...)\<close> and \<open>insl(0x1f0, ...)\<close>.\<close>

record 'd ports =
  inb_status :: "'d \<Rightarrow> byte \<times> 'd"
  outb_port :: "u16 \<Rightarrow> byte \<Rightarrow> 'd \<Rightarrow> 'd"
  outsl_data :: "byte list \<Rightarrow> 'd \<Rightarrow> 'd"
  insl_data :: "'d \<Rightarrow> byte list \<times> 'd"

definition IDE_BSY :: byte where "IDE_BSY = 0x80"
definition IDE_DRDY :: byte where "IDE_DRDY = 0x40"
definition IDE_DF :: byte where "IDE_DF = 0x20"
definition IDE_ERR :: byte where "IDE_ERR = 0x01"
definition IDE_CMD_READ :: byte where "IDE_CMD_READ = 0x20"
definition IDE_CMD_WRITE :: byte where "IDE_CMD_WRITE = 0x30"

text \<open>\<open>idequeue\<close>, linked through \<open>qnext\<close> in the source, is the list of its buffers.\<close>

record 'd ide_st = disk_st +
  idequeue :: "nat list"
  havedisk1 :: bool
  ata :: 'd

section \<open>Operations\<close>

partial_function (option) idewait_poll :: "'d ports \<Rightarrow> 'd \<Rightarrow> (byte \<times> 'd) option" where
  "idewait_poll D d =
     (let (r, d) = inb_status D d in
      if r AND (IDE_BSY OR IDE_DRDY) \<noteq> IDE_DRDY then idewait_poll D d else Some (r, d))"

definition idewait :: "'d ports \<Rightarrow> bool \<Rightarrow> ('d, 'a) ide_st_scheme \<Rightarrow> (int \<times> ('d, 'a) ide_st_scheme) res" where
  "idewait D checkerr s =
     (case idewait_poll D (ata s) of
        None \<Rightarrow> Stuck
      | Some (r, d) \<Rightarrow>
          let s = s\<lparr>ata := d\<rparr> in
          if checkerr \<and> r AND (IDE_DF OR IDE_ERR) \<noteq> 0 then Ok (-1, s) else Ok (0, s))"

definition outb :: "'d ports \<Rightarrow> u16 \<Rightarrow> byte \<Rightarrow> ('d, 'a) ide_st_scheme \<Rightarrow> ('d, 'a) ide_st_scheme" where
  "outb D p v s = s\<lparr>ata := outb_port D p v (ata s)\<rparr>"

text \<open>Looking for disk 1, at most 1000 times.\<close>

fun disk1_probe :: "'d ports \<Rightarrow> nat \<Rightarrow> ('d, 'a) ide_st_scheme \<Rightarrow> ('d, 'a) ide_st_scheme" where
  "disk1_probe D 0 s = s"
| "disk1_probe D (Suc n) s =
     (let (r, d) = inb_status D (ata s); s = s\<lparr>ata := d\<rparr> in
      if r \<noteq> 0 then s\<lparr>havedisk1 := True\<rparr> else disk1_probe D n s)"

definition ideinit_ata :: "'d ports \<Rightarrow> ('d, 'a) ide_st_scheme \<Rightarrow> ('d, 'a) ide_st_scheme res" where
  "ideinit_ata D s =
     bnd (idewait D False s) (\<lambda>(_, s).
     let s = outb D 0x1f6 (0xe0 OR push_bit 4 1) s;
         s = disk1_probe D 1000 s in
     Ok (outb D 0x1f6 (0xe0 OR push_bit 4 0) s))"

definition idestart :: "'d ports \<Rightarrow> nat option \<Rightarrow> ('d, 'a) ide_st_scheme \<Rightarrow> ('d, 'a) ide_st_scheme res" where
  "idestart D b s =
     (case b of
        None \<Rightarrow> Panic ''idestart''
      | Some b \<Rightarrow>
          bnd (idewait D False s) (\<lambda>(_, s).
          let bf = bufs s ! b;
              s = outb D 0x3f6 0 s;
              s = outb D 0x1f2 1 s;
              s = outb D 0x1f3 (ucast (b_sector bf AND 0xff)) s;
              s = outb D 0x1f4 (ucast (drop_bit 8 (b_sector bf) AND 0xff)) s;
              s = outb D 0x1f5 (ucast (drop_bit 16 (b_sector bf) AND 0xff)) s;
              s = outb D 0x1f6 (ucast (0xe0 OR push_bit 4 (b_dev bf AND 1) OR (drop_bit 24 (b_sector bf) AND 0x0f))) s in
          if b_dirty bf then
            let s = outb D 0x1f7 IDE_CMD_WRITE s in
            Ok (s\<lparr>ata := outsl_data D (b_data bf) (ata s)\<rparr>)
          else Ok (outb D 0x1f7 IDE_CMD_READ s)))"

definition ideintr_ata :: "'d ports \<Rightarrow> ('d, 'a) ide_st_scheme \<Rightarrow> ('d, 'a) ide_st_scheme res" where
  "ideintr_ata D s =
     bnd (lock L_ide s) (\<lambda>s.
     case idequeue s of
       [] \<Rightarrow> unlock L_ide s
     | b # q \<Rightarrow>
         let s = s\<lparr>idequeue := q\<rparr> in
         bnd (if \<not> b_dirty (bufs s ! b) then
                bnd (idewait D True s) (\<lambda>(r, s).
                if r \<ge> 0 then
                  let (d, c) = insl_data D (ata s) in
                  Ok (upd_buf b (\<lambda>x. x\<lparr>b_data := d\<rparr>) (s\<lparr>ata := c\<rparr>))
                else Ok s)
              else Ok s) (\<lambda>s.
         let s = upd_buf b (\<lambda>x. x\<lparr>b_valid := True\<rparr>) s;
             s = upd_buf b (\<lambda>x. x\<lparr>b_dirty := False\<rparr>) s in
         bnd (wakeup (Ch_buf b) s) (\<lambda>s.
         bnd (if q \<noteq> [] then idestart D (Some (hd q)) s else Ok s) (\<lambda>s.
         unlock L_ide s))))"

function iderw_wait :: "nat \<Rightarrow> (('d, 'a) ide_st_scheme, unit) prog" where
  "iderw_wait b w =
     (if \<not> (b_valid (bufs (fst w) ! b) \<and> \<not> b_dirty (bufs (fst w) ! b))
      then thn (sleep_on (Ch_buf b) L_ide) (\<lambda>_. iderw_wait b) w else Ok ((), w))"
  by pat_completeness auto
termination
  by (relation "measure (\<lambda>(_, w). length (snd w))") (auto dest: sleep_on_env)

definition iderw_ata :: "'d ports \<Rightarrow> nat \<Rightarrow> (('d, 'a) ide_st_scheme, unit) prog" where
  "iderw_ata D b =
     thn (gets (\<lambda>s. bufs s ! b)) (\<lambda>bf.
     if \<not> b_busy bf then panic ''iderw: buf not busy''
     else if b_valid bf \<and> \<not> b_dirty bf then panic ''iderw: nothing to do''
     else
     thn (gets havedisk1) (\<lambda>h.
     if b_dev bf \<noteq> 0 \<and> \<not> h then panic ''iderw: ide disk 1 not present''
     else
     thn (upd (lock L_ide)) (\<lambda>_.
     thn (modify (\<lambda>s. s\<lparr>idequeue := idequeue s @ [b]\<rparr>)) (\<lambda>_.
     thn (upd (\<lambda>s. if hd (idequeue s) = b then idestart D (Some b) s else Ok s)) (\<lambda>_.
     thn (iderw_wait b) (\<lambda>_.
     upd (unlock L_ide)))))))"

section \<open>The disk controller\<close>

text \<open>
  What the driver relies on, in terms of four observations of the controller: for how many
  more polls it is busy, its registers, the last command, and the contents of its sectors.
\<close>

record 'd view =
  delay :: "'d \<Rightarrow> nat"
  reg :: "'d \<Rightarrow> u16 \<Rightarrow> byte"
  cmd :: "'d \<Rightarrow> byte"
  sectors :: "'d \<Rightarrow> bool \<times> u32 \<Rightarrow> byte list"

definition lba :: "(u16 \<Rightarrow> byte) \<Rightarrow> bool \<times> u32" where
  "lba r = (bit (r 0x1f6) 4, mk32 (r 0x1f3) (r 0x1f4) (r 0x1f5) (r 0x1f6 AND 0x0f))"

definition ata_disk :: "'d ports \<Rightarrow> 'd view \<Rightarrow> bool" where
  "ata_disk D W \<longleftrightarrow>
     (\<forall>d. let (r, d') = inb_status D d in reg W d' = reg W d \<and> cmd W d' = cmd W d \<and> sectors W d' = sectors W d \<and>
        (if delay W d = 0 then r AND (IDE_BSY OR IDE_DRDY) = IDE_DRDY \<and> r AND (IDE_DF OR IDE_ERR) = 0
         else r AND (IDE_BSY OR IDE_DRDY) \<noteq> IDE_DRDY \<and> delay W d' < delay W d)) \<and>
     (\<forall>d p v. p \<noteq> 0x1f7 \<longrightarrow> reg W (outb_port D p v d) = (reg W d)(p := v) \<and> sectors W (outb_port D p v d) = sectors W d) \<and>
     (\<forall>d v. reg W (outb_port D 0x1f7 v d) = reg W d \<and> cmd W (outb_port D 0x1f7 v d) = v \<and>
        sectors W (outb_port D 0x1f7 v d) = sectors W d) \<and>
     (\<forall>d bs. cmd W d = IDE_CMD_WRITE \<longrightarrow> reg W (outsl_data D bs d) = reg W d \<and> cmd W (outsl_data D bs d) = cmd W d \<and>
        sectors W (outsl_data D bs d) = (sectors W d)(lba (reg W d) := bs)) \<and>
     (\<forall>d. cmd W d = IDE_CMD_READ \<longrightarrow> (let (bs, d') = insl_data D d in
        bs = sectors W d (lba (reg W d)) \<and> sectors W d' = sectors W d))"

lemma ata_inb:
  assumes "ata_disk D W" "inb_status D d = (r, d')"
  shows "reg W d' = reg W d" "cmd W d' = cmd W d" "sectors W d' = sectors W d"
    "delay W d = 0 \<Longrightarrow> r AND (IDE_BSY OR IDE_DRDY) = IDE_DRDY \<and> r AND (IDE_DF OR IDE_ERR) = 0"
    "delay W d \<noteq> 0 \<Longrightarrow> r AND (IDE_BSY OR IDE_DRDY) \<noteq> IDE_DRDY \<and> delay W d' < delay W d"
  using assms(1) [unfolded ata_disk_def, THEN conjunct1, rule_format, of d] assms(2) by (auto simp: Let_def split: if_splits)

lemma ata_out:
  assumes "ata_disk D W"
  shows "p \<noteq> 0x1f7 \<Longrightarrow> reg W (outb_port D p v d) = (reg W d)(p := v)" "p \<noteq> 0x1f7 \<Longrightarrow> sectors W (outb_port D p v d) = sectors W d"
    "reg W (outb_port D 0x1f7 v d) = reg W d" "cmd W (outb_port D 0x1f7 v d) = v" "sectors W (outb_port D 0x1f7 v d) = sectors W d"
    "cmd W d = IDE_CMD_WRITE \<Longrightarrow> reg W (outsl_data D bs d) = reg W d"
    "cmd W d = IDE_CMD_WRITE \<Longrightarrow> cmd W (outsl_data D bs d) = IDE_CMD_WRITE"
    "cmd W d = IDE_CMD_WRITE \<Longrightarrow> sectors W (outsl_data D bs d) = (sectors W d)(lba (reg W d) := bs)"
  using assms by (simp_all add: ata_disk_def)

lemma ata_insl:
  assumes "ata_disk D W" "cmd W d = IDE_CMD_READ" "insl_data D d = (bs, d')"
  shows "bs = sectors W d (lba (reg W d))" "sectors W d' = sectors W d"
  using assms by (auto simp: ata_disk_def Let_def split: prod.splits)

text \<open>Polling ends, and shows no error.\<close>

lemma poll_ok:
  assumes "ata_disk D W"
  shows "\<exists>r d'. idewait_poll D d = Some (r, d') \<and> r AND (IDE_DF OR IDE_ERR) = 0 \<and> reg W d' = reg W d \<and>
    cmd W d' = cmd W d \<and> sectors W d' = sectors W d"
proof (induction "delay W d" arbitrary: d rule: less_induct)
  case less
  obtain r d' where i: "inb_status D d = (r, d')" by force
  note l = ata_inb [OF assms i]
  show ?case
  proof (cases "delay W d = 0")
    case True
    then show ?thesis using i l by (subst idewait_poll.simps) simp
  next
    case False
    then have "idewait_poll D d = idewait_poll D d'" using i l(5) by (subst idewait_poll.simps) simp
    then show ?thesis using less [of d'] l False by simp
  qed
qed

lemma idewait_ok:
  assumes "ata_disk D W"
  shows "\<exists>d'. idewait D e s = Ok (0, s\<lparr>ata := d'\<rparr>) \<and> reg W d' = reg W (ata s) \<and> cmd W d' = cmd W (ata s) \<and>
    sectors W d' = sectors W (ata s)"
  using poll_ok [OF assms, of "ata s"] by (auto simp: idewait_def)

section \<open>Addresses\<close>

definition req_addr :: "buf \<Rightarrow> bool \<times> u32" where
  "req_addr bf = (bit (b_dev bf) 0, b_sector bf)"

lemma mask_bits:
  assumes "n < 8"
  shows "bit (0xff :: int) n" "bit (0x0f :: int) n \<longleftrightarrow> n < 4" "bit (0xe0 :: int) n \<longleftrightarrow> 5 \<le> n" "bit (0x10 :: int) n \<longleftrightarrow> n = 4"
proof -
  have "n \<in> {0, 1, 2, 3, 4, 5, 6, 7}" using assms by auto
  then show "bit (0xff :: int) n" "bit (0x0f :: int) n \<longleftrightarrow> n < 4" "bit (0xe0 :: int) n \<longleftrightarrow> 5 \<le> n" "bit (0x10 :: int) n \<longleftrightarrow> n = 4"
    by auto
qed

lemma ucast_low: "(ucast (w AND 0xff) :: byte) = ucast w" for w :: u32
  by (rule bit_eqI) (simp add: bit_simps mask_bits)

lemma high_bits: "\<not> bit w k" if "unat w < 2 ^ 28" "28 \<le> k" for w :: u32
proof -
  have "take_bit 28 (unat w) = unat w" using that(1) by (simp add: take_bit_nat_eq_self)
  then have "\<not> bit (unat w) k" using that(2) bit_take_bit_iff [of 28 "unat w" k] by simp
  then show ?thesis using bit_imp_le_length [of w k] by (auto simp: bit_unsigned_iff)
qed

lemma drive_select:
  fixes w dv :: u32
  assumes "unat w < 2 ^ 28"
  defines "v \<equiv> (ucast (0xe0 OR push_bit 4 (dv AND 1) OR (drop_bit 24 w AND 0x0f)) :: byte)"
  shows "bit v 4 = bit dv 0" "v AND 0x0f = byte_of w 3"
proof -
  show "bit v 4 = bit dv 0" by (simp add: v_def bit_simps mask_bits)
  show "v AND 0x0f = byte_of w 3"
  proof (rule bit_eqI)
    fix n assume "possible_bit TYPE(8 word) n"
    then have n: "n < 8" by simp
    show "bit (v AND 0x0f) n = bit (byte_of w 3) n"
      using n high_bits [OF assms(1), of "24 + n"]
      by (cases "n < 4") (auto simp: v_def byte_of_def bit_simps mask_bits [OF n])
  qed
qed

section \<open>Starting a request\<close>

definition rw_cmd :: "buf \<Rightarrow> byte" where
  "rw_cmd bf = (if b_dirty bf then IDE_CMD_WRITE else IDE_CMD_READ)"

definition issue :: "buf \<Rightarrow> (bool \<times> u32 \<Rightarrow> byte list) \<Rightarrow> bool \<times> u32 \<Rightarrow> byte list" where
  "issue bf C = (if b_dirty bf then C(req_addr bf := b_data bf) else C)"

lemma idestart_ok:
  assumes A: "ata_disk D W" and n: "unat (b_sector (bufs s ! b)) < 2 ^ 28"
  shows "\<exists>d. idestart D (Some b) s = Ok (s\<lparr>ata := d\<rparr>) \<and> lba (reg W d) = req_addr (bufs s ! b) \<and>
    cmd W d = rw_cmd (bufs s ! b) \<and> sectors W d = issue (bufs s ! b) (sectors W (ata s))"
proof -
  let ?bf = "bufs s ! b"
  obtain d0 where d0: "idewait D False s = Ok (0, s\<lparr>ata := d0\<rparr>)" "sectors W d0 = sectors W (ata s)"
    using idewait_ok [OF A, of False s] by blast
  let ?v = "ucast (0xe0 OR push_bit 4 (b_dev ?bf AND 1) OR (drop_bit 24 (b_sector ?bf) AND 0x0f)) :: byte"
  define d1 where "d1 = outb_port D 0x1f6 ?v (outb_port D 0x1f5 (ucast (drop_bit 16 (b_sector ?bf) AND 0xff))
    (outb_port D 0x1f4 (ucast (drop_bit 8 (b_sector ?bf) AND 0xff)) (outb_port D 0x1f3 (ucast (b_sector ?bf AND 0xff))
    (outb_port D 0x1f2 1 (outb_port D 0x3f6 0 d0)))))"
  have s1: "sectors W d1 = sectors W (ata s)" unfolding d1_def by (simp add: ata_out(2) [OF A] d0(2))
  have r1: "reg W d1 0x1f6 = ?v" "reg W d1 0x1f3 = byte_of (b_sector ?bf) 0" "reg W d1 0x1f4 = byte_of (b_sector ?bf) 1"
    "reg W d1 0x1f5 = byte_of (b_sector ?bf) 2"
    unfolding d1_def by (simp_all add: ata_out(1) [OF A] ucast_low) (simp_all add: byte_of_def)
  have l1: "lba (reg W d1) = req_addr ?bf"
    unfolding lba_def req_addr_def r1 drive_select [OF n] by simp
  let ?d2 = "outb_port D 0x1f7 (rw_cmd ?bf) d1"
  have d2: "reg W ?d2 = reg W d1" "cmd W ?d2 = rw_cmd ?bf" "sectors W ?d2 = sectors W (ata s)"
    using ata_out(3-5) [OF A] s1 by simp_all
  define d3 where "d3 = (if b_dirty ?bf then outsl_data D (b_data ?bf) ?d2 else ?d2)"
  have run: "idestart D (Some b) s = Ok (s\<lparr>ata := d3\<rparr>)"
    using d0(1) by (simp add: idestart_def outb_def d3_def d1_def rw_cmd_def Let_def)
  have "lba (reg W d3) = req_addr ?bf \<and> cmd W d3 = rw_cmd ?bf \<and> sectors W d3 = issue ?bf (sectors W (ata s))"
    using d2 l1 ata_out(6-8) [OF A, of ?d2] by (auto simp: d3_def rw_cmd_def issue_def)
  then show ?thesis using run by blast
qed

section \<open>The queue\<close>

text \<open>What a request does to the sectors and to the buffers; \<open>memide.c\<close> does the same at once.\<close>

definition serve :: "nat \<Rightarrow> (bool \<times> u32 \<Rightarrow> byte list) \<times> buf list \<Rightarrow> (bool \<times> u32 \<Rightarrow> byte list) \<times> buf list" where
  "serve b = (\<lambda>(C, B). let bf = B ! b in
     (issue bf C, B[b := bf\<lparr>b_data := (if b_dirty bf then b_data bf else C (req_addr bf)), b_valid := True, b_dirty := False\<rparr>]))"

definition ide_inv :: "'d view \<Rightarrow> ('d, 'a) ide_st_scheme \<Rightarrow> bool" where
  "ide_inv W s \<longleftrightarrow> distinct (idequeue s) \<and>
     (\<forall>b\<in>set (idequeue s). b < length (bufs s) \<and> unat (b_sector (bufs s ! b)) < 2 ^ 28) \<and>
     (idequeue s \<noteq> [] \<longrightarrow> (let bf = bufs s ! hd (idequeue s) in
        lba (reg W (ata s)) = req_addr bf \<and> cmd W (ata s) = rw_cmd bf \<and> issue bf (sectors W (ata s)) = sectors W (ata s)))"

text \<open>The state of disk and buffers when all requests of the queue have been served.\<close>

definition served :: "'d view \<Rightarrow> ('d, 'a) ide_st_scheme \<Rightarrow> (bool \<times> u32 \<Rightarrow> byte list) \<times> buf list" where
  "served W s = fold serve (idequeue s) (sectors W (ata s), bufs s)"

lemma issue_idem [simp]: "issue bf (issue bf C) = issue bf C"
  by (simp add: issue_def)

lemma serve_issue: "serve b (issue (B ! b) C, B) = serve b (C, B)"
  by (simp add: serve_def Let_def) (simp add: issue_def)

lemma ideintr_ok:
  fixes s :: "('d, 'a) ide_st_scheme"
  assumes A: "ata_disk D W" and I: "ide_inv W s" and q: "idequeue s = b # q" and h: "held s = []"
  shows "\<exists>s' d. ideintr_ata D s = Ok s' \<and> ide_inv W s' \<and> served W s' = served W s \<and>
    s' = (wakeup1 (Ch_buf b) s)\<lparr>idequeue := q, ata := d, bufs := snd (serve b (sectors W (ata s), bufs s))\<rparr>"
proof -
  let ?bf = "bufs s ! b" and ?C = "sectors W (ata s)"
  have i: "distinct (b # q)" "\<And>c. c \<in> set (b # q) \<Longrightarrow> c < length (bufs s) \<and> unat (b_sector (bufs s ! c)) < 2 ^ 28"
    "lba (reg W (ata s)) = req_addr ?bf" "cmd W (ata s) = rw_cmd ?bf" "issue ?bf ?C = ?C"
    using I q by (auto simp: ide_inv_def Let_def)
  let ?B = "snd (serve b (?C, bufs s))"
  let ?s1 = "s\<lparr>held := [L_ide], idequeue := q\<rparr>"
  define u where "u = (\<lambda>d. (wakeup1 (Ch_buf b) s)\<lparr>held := [L_ide], idequeue := q, ata := d, bufs := ?B\<rparr>)"
  have rd: "\<exists>d. sectors W d = ?C \<and> ideintr_ata D s =
      bnd (if q \<noteq> [] then idestart D (Some (hd q)) (u d) else Ok (u d)) (unlock L_ide)"
  proof (cases "b_dirty ?bf")
    case True
    then have "ideintr_ata D s = bnd (if q \<noteq> [] then idestart D (Some (hd q)) (u (ata s)) else Ok (u (ata s))) (unlock L_ide)"
      using h q i(2) by (simp add: ideintr_ata_def wakeup_def u_def wakeup1_def upd_buf_def serve_def Let_def) (cases s, simp)
    then show ?thesis by blast
  next
    case False
    obtain d1 where w: "idewait D True ?s1 = Ok (0, ?s1\<lparr>ata := d1\<rparr>)" "reg W d1 = reg W (ata s)" "cmd W d1 = cmd W (ata s)"
      "sectors W d1 = ?C" using idewait_ok [OF A, of True ?s1] by auto
    obtain bs d2 where n: "insl_data D d1 = (bs, d2)" by force
    have "cmd W d1 = IDE_CMD_READ" using w(3) i(4) False by (simp add: rw_cmd_def)
    note il = ata_insl [OF A this n]
    then have "ideintr_ata D s = bnd (if q \<noteq> [] then idestart D (Some (hd q)) (u d2) else Ok (u d2)) (unlock L_ide)"
      using h q i(2,3) False w n
      by (simp add: ideintr_ata_def wakeup_def u_def wakeup1_def upd_buf_def serve_def Let_def) (cases s, simp)
    then show ?thesis using il(2) w(4) by auto
  qed
  then obtain d where d: "sectors W d = ?C"
    "ideintr_ata D s = bnd (if q \<noteq> [] then idestart D (Some (hd q)) (u d) else Ok (u d)) (unlock L_ide)" by blast
  have sv: "serve b (?C, bufs s) = (?C, ?B)" using i(5) by (simp add: serve_def Let_def)
  have Bo: "?B ! c = bufs s ! c" if "c \<noteq> b" for c using that by (simp add: serve_def Let_def)
  have Bl: "length ?B = length (bufs s)" by (simp add: serve_def Let_def)
  show ?thesis
  proof (cases "q = []")
    case True
    let ?s' = "(u d)\<lparr>held := []\<rparr>"
    have "ideintr_ata D s = Ok ?s'" using d(2) True by (simp add: u_def)
    moreover have "ide_inv W ?s'" using True by (simp add: ide_inv_def u_def)
    moreover have "served W ?s' = served W s" using True d(1) q sv by (simp add: served_def u_def)
    moreover have "?s' = (wakeup1 (Ch_buf b) s)\<lparr>idequeue := q, ata := d, bufs := ?B\<rparr>" using h by (simp add: u_def wakeup1_def)
    ultimately show ?thesis by blast
  next
    case False
    let ?c = "hd q"
    have c: "?c \<in> set q" "?c \<noteq> b" using False i(1) by auto
    have bc: "bufs (u d) ! ?c = bufs s ! ?c" using Bo c by (simp add: u_def)
    have "unat (b_sector (bufs (u d) ! ?c)) < 2 ^ 28" using i(2) [of ?c] c bc by simp
    from idestart_ok [OF A this] obtain e where e: "idestart D (Some ?c) (u d) = Ok ((u d)\<lparr>ata := e\<rparr>)"
      "lba (reg W e) = req_addr (bufs s ! ?c)" "cmd W e = rw_cmd (bufs s ! ?c)" "sectors W e = issue (bufs s ! ?c) ?C"
      unfolding bc using d(1) by (auto simp: u_def)
    let ?s' = "(u e)\<lparr>held := []\<rparr>"
    have "ideintr_ata D s = Ok ?s'" using d(2) False e(1) by (simp add: u_def)
    moreover have "ide_inv W ?s'"
    proof -
      have "?B ! x = bufs s ! x" if "x \<in> set q" for x using i(1) that by (intro Bo) auto
      then show ?thesis using i(1,2) e(2-4) Bl c by (simp add: ide_inv_def u_def Let_def)
    qed
    moreover have "served W ?s' = served W s"
    proof -
      have "fold serve q (sectors W e, ?B) = fold serve q (?C, ?B)"
        using False serve_issue [of ?c ?B ?C] e(4) Bo [OF c(2)] by (cases q) auto
      then show ?thesis using q sv by (simp add: served_def u_def)
    qed
    moreover have "?s' = (wakeup1 (Ch_buf b) s)\<lparr>idequeue := q, ata := e, bufs := ?B\<rparr>" using h by (simp add: u_def wakeup1_def)
    ultimately show ?thesis by blast
  qed
qed

section \<open>Interrupts\<close>

fun intrs :: "'d ports \<Rightarrow> nat \<Rightarrow> ('d, 'a) ide_st_scheme \<Rightarrow> ('d, 'a) ide_st_scheme res" where
  "intrs D 0 s = Ok s"
| "intrs D (Suc n) s = bnd (ideintr_ata D s) (intrs D n)"

text \<open>The rest of the machine takes \<open>n\<close> disk interrupts while a process sleeps.\<close>

definition disk_irqs :: "'d ports \<Rightarrow> nat \<Rightarrow> ('d, 'a) ide_st_scheme \<Rightarrow> ('d, 'a) ide_st_scheme" where
  "disk_irqs D n s = (case intrs D n (s\<lparr>held := []\<rparr>) of Ok s' \<Rightarrow> s' | _ \<Rightarrow> s)"

definition woken :: "nat set \<Rightarrow> proc \<Rightarrow> proc" where
  "woken Q p = (if pstate p = SLEEPING \<and> pchan p \<in> (\<lambda>b. Some (Ch_buf b)) ` Q then p\<lparr>pstate := RUNNABLE\<rparr> else p)"

lemma woken_twice: "woken Q (woken {b} p) = woken (insert b Q) p"
  by (auto simp: woken_def)

lemma intrs_ok:
  fixes s :: "('d, 'a) ide_st_scheme"
  assumes A: "ata_disk D W"
  shows "ide_inv W s \<Longrightarrow> held s = [] \<Longrightarrow> \<exists>s'. intrs D (length (idequeue s)) s = Ok s' \<and> idequeue s' = [] \<and>
    (sectors W (ata s'), bufs s') = served W s \<and> procs s' = map (woken (set (idequeue s))) (procs s) \<and>
    s' = s\<lparr>procs := procs s', idequeue := [], ata := ata s', bufs := bufs s'\<rparr>"
proof (induction "idequeue s" arbitrary: s)
  case Nil
  have w: "woken {} = id" by (auto simp: woken_def)
  show ?case using Nil(1) [symmetric] by (simp add: served_def w)
next
  case (Cons b q)
  obtain s1 d where s1: "ideintr_ata D s = Ok s1" "ide_inv W s1" "served W s1 = served W s"
    "s1 = (wakeup1 (Ch_buf b) s)\<lparr>idequeue := q, ata := d, bufs := snd (serve b (sectors W (ata s), bufs s))\<rparr>"
    using ideintr_ok [OF A Cons.prems(1) Cons.hyps(2) [symmetric] Cons.prems(2)] by blast
  have q1: "q = idequeue s1" "held s1 = []" using s1(4) Cons.prems(2) by (simp_all add: wakeup1_def)
  obtain s' where s': "intrs D (length (idequeue s1)) s1 = Ok s'" "idequeue s' = []" "(sectors W (ata s'), bufs s') = served W s1"
    "procs s' = map (woken (set (idequeue s1))) (procs s1)"
    "s' = s1\<lparr>procs := procs s', idequeue := [], ata := ata s', bufs := bufs s'\<rparr>"
    using Cons.hyps(1) [OF q1(1) s1(2) q1(2)] by blast
  have p1: "procs s1 = map (woken {b}) (procs s)" unfolding s1(4) by (simp add: wakeup1_def woken_def)
  have "procs s' = map (woken (set (idequeue s))) (procs s)"
    unfolding s'(4) p1 by (simp add: woken_twice q1(1) [symmetric] Cons.hyps(2) [symmetric])
  moreover have "s1\<lparr>procs := x, idequeue := [], ata := y, bufs := z\<rparr> = s\<lparr>procs := x, idequeue := [], ata := y, bufs := z\<rparr>" for x y z
    unfolding s1(4) wakeup1_def by (cases s) simp
  ultimately show ?case
    using s' s1(1,3) q1(1) Cons.hyps(2) [symmetric] by simp
qed

lemma dispatch_ide:
  fixes s :: "('d, 'a) ide_st_scheme"
  assumes "p < length (procs s)" "pgdir (procs s ! p) \<noteq> 0"
  shows "\<exists>t. dispatch p s = Ok t \<and> bufs t = bufs s \<and> idequeue t = idequeue s \<and> ata t = ata s \<and> held t = held s \<and> cur t = Some p"
  using assms by (auto simp: dispatch_def switchuvm_def with_cur_def Let_def upd_proc_def)

text \<open>Adding a request to the queue, and starting it when the disk has nothing else to do.\<close>

lemma enqueue_ok:
  fixes s :: "('d, 'a) ide_st_scheme"
  assumes A: "ata_disk D W" and I: "ide_inv W s" and b: "b \<notin> set (idequeue s)" "b < length (bufs s)"
    "unat (b_sector (bufs s ! b)) < 2 ^ 28"
  defines "s1 \<equiv> s\<lparr>idequeue := idequeue s @ [b]\<rparr>"
  shows "\<exists>d. (if hd (idequeue s1) = b then idestart D (Some b) s1 else Ok s1) = Ok (s1\<lparr>ata := d\<rparr>) \<and>
    ide_inv W (s1\<lparr>ata := d\<rparr>) \<and> served W (s1\<lparr>ata := d\<rparr>) = serve b (served W s)"
proof (cases "idequeue s = []")
  case True
  obtain d where d: "idestart D (Some b) s1 = Ok (s1\<lparr>ata := d\<rparr>)" "lba (reg W d) = req_addr (bufs s ! b)"
    "cmd W d = rw_cmd (bufs s ! b)" "sectors W d = issue (bufs s ! b) (sectors W (ata s))"
    using idestart_ok [OF A, of s1 b] b(3) by (auto simp: s1_def)
  then have "ide_inv W (s1\<lparr>ata := d\<rparr>)" using True b by (simp add: ide_inv_def s1_def Let_def)
  moreover have "served W (s1\<lparr>ata := d\<rparr>) = serve b (served W s)"
    using True d(4) serve_issue [of b "bufs s"] by (simp add: served_def s1_def)
  ultimately show ?thesis using d(1) True by (auto simp: s1_def)
next
  case False
  then have "hd (idequeue s1) \<noteq> b" using b(1) by (cases "idequeue s") (auto simp: s1_def)
  moreover have "s1\<lparr>ata := ata s\<rparr> = s1" by (simp add: s1_def)
  moreover have "ide_inv W s1" using I b False by (auto simp: ide_inv_def s1_def)
  moreover have "served W s1 = serve b (served W s)" by (simp add: served_def s1_def)
  ultimately show ?thesis by (intro exI [of _ "ata s"]) simp
qed

section \<open>A whole request\<close>

lemma serve_done:
  assumes "b < length B"
  shows "b_valid (snd (serve b (C, B)) ! b)" "\<not> b_dirty (snd (serve b (C, B)) ! b)"
  using assms by (simp_all add: serve_def Let_def)

lemma length_serve: "length (snd (fold serve q (C, B))) = length B"
proof (induction q arbitrary: C B)
  case (Cons b q)
  show ?case using Cons.IH by (simp add: serve_def Let_def)
qed simp

lemma iderw_wait_ok:
  fixes s :: "('d, 'a) ide_st_scheme"
  assumes A: "ata_disk D W" and I: "ide_inv W s" and h: "held s = [L_ide]"
    and p: "cur s = Some p" "p < length (procs s)" "pgdir (procs s ! p) \<noteq> 0"
    and b: "b \<in> set (idequeue s)" "\<not> (b_valid (bufs s ! b) \<and> \<not> b_dirty (bufs s ! b))"
    and fin: "b_valid (snd (served W s) ! b)" "\<not> b_dirty (snd (served W s) ! b)"
  shows "\<exists>s'. iderw_wait b (s, disk_irqs D (length (idequeue s)) # env) = Ok ((), s', env) \<and> held s' = [L_ide] \<and> cur s' = Some p \<and>
    idequeue s' = [] \<and> (sectors W (ata s'), bufs s') = served W s"
proof -
  let ?n = "length (idequeue s)"
  let ?s1 = "upd_proc p (\<lambda>q. q\<lparr>pchan := Some (Ch_buf b), pstate := SLEEPING\<rparr>) (s\<lparr>held := [L_ptable]\<rparr>)"
  let ?s0 = "?s1\<lparr>held := []\<rparr>"
  have i: "idequeue ?s0 = idequeue s" "bufs ?s0 = bufs s" "ata ?s0 = ata s" by (simp_all add: upd_proc_def)
  then have "ide_inv W ?s0" "served W ?s0 = served W s" using I by (simp_all add: ide_inv_def served_def)
  then obtain s2 where s2: "intrs D ?n ?s0 = Ok s2" "idequeue s2 = []" "(sectors W (ata s2), bufs s2) = served W s"
    "procs s2 = map (woken (set (idequeue s))) (procs ?s0)"
    using intrs_ok [OF A, of ?s0] i by auto
  have pp: "p < length (procs s2)" "pstate (procs s2 ! p) = RUNNABLE" "pgdir (procs s2 ! p) \<noteq> 0"
    using p b(1) by (auto simp: s2(4) procs_upd_proc woken_def)
  let ?s3 = "s2\<lparr>held := [L_ptable]\<rparr>"
  obtain t where t: "dispatch p ?s3 = Ok t" "bufs t = bufs s2" "idequeue t = []" "ata t = ata s2" "held t = [L_ptable]" "cur t = Some p"
    using dispatch_ide [of p ?s3] pp s2(2) by auto
  have irq: "disk_irqs D ?n ?s1 = s2" using s2(1) by (simp add: disk_irqs_def)
  have "sched ?s1 (disk_irqs D ?n # env) = Ok (t, env)"
    using p pp t(1) irq by (simp add: sched_def with_cur_def Let_def procs_upd_proc)
  then have sl: "sleep_on (Ch_buf b) L_ide (s, disk_irqs D ?n # env) =
      Ok ((), (upd_proc p (\<lambda>q. q\<lparr>pchan := None\<rparr>) t)\<lparr>held := [L_ide]\<rparr>, env)"
    using p(1) h t(5) by (simp add: sleep_on_def sleep_def Let_def)
  let ?s' = "(upd_proc p (\<lambda>q. q\<lparr>pchan := None\<rparr>) t)\<lparr>held := [L_ide]\<rparr>"
  have s': "bufs ?s' = bufs s2" "idequeue ?s' = []" "ata ?s' = ata s2" "cur ?s' = Some p" using t by (simp_all add: upd_proc_def)
  have "bufs s2 = snd (served W s)" using arg_cong [OF s2(3), of snd] by simp
  then have "iderw_wait b (?s', env) = Ok ((), ?s', env)" using fin s' by (subst iderw_wait.simps) simp
  then have "iderw_wait b (s, disk_irqs D ?n # env) = Ok ((), ?s', env)"
    using b(2) sl by (subst iderw_wait.simps) (simp add: thn_run)
  then show ?thesis using s' s2(3) by auto
qed

definition request_ok :: "nat \<Rightarrow> buf list \<Rightarrow> bool" where
  "request_ok b B \<longleftrightarrow> b < length B \<and> b_busy (B ! b) \<and> \<not> (b_valid (B ! b) \<and> \<not> b_dirty (B ! b)) \<and> unat (b_sector (B ! b)) < 2 ^ 28"

lemma iderw_ata_ok:
  fixes s :: "('d, 'a) ide_st_scheme"
  assumes A: "ata_disk D W" and I: "ide_inv W s" and h: "held s = []"
    and p: "cur s = Some p" "p < length (procs s)" "pgdir (procs s ! p) \<noteq> 0"
    and b: "b \<notin> set (idequeue s)" "request_ok b (bufs s)" "b_dev (bufs s ! b) = 0 \<or> havedisk1 s"
  shows "\<exists>s'. iderw_ata D b (s, disk_irqs D (Suc (length (idequeue s))) # env) = Ok ((), s', env) \<and> held s' = [] \<and>
    idequeue s' = [] \<and> (sectors W (ata s'), bufs s') = fold serve (idequeue s @ [b]) (sectors W (ata s), bufs s)"
proof -
  let ?s0 = "s\<lparr>held := [L_ide]\<rparr>" and ?n = "Suc (length (idequeue s))"
  note r = b(2) [unfolded request_ok_def]
  have I0: "ide_inv W ?s0" "served W ?s0 = served W s" using I by (simp_all add: ide_inv_def served_def)
  let ?s1 = "?s0\<lparr>idequeue := idequeue s @ [b]\<rparr>"
  have q0: "idequeue ?s0 = idequeue s" "bufs ?s0 = bufs s" "idequeue ?s1 = idequeue s @ [b]" by simp_all
  have rr: "b < length (bufs s)" "unat (b_sector (bufs s ! b)) < 2 ^ 28" using r by auto
  obtain d where d: "(if hd (idequeue s @ [b]) = b then idestart D (Some b) ?s1 else Ok ?s1) = Ok (?s1\<lparr>ata := d\<rparr>)"
    "ide_inv W (?s1\<lparr>ata := d\<rparr>)" "served W (?s1\<lparr>ata := d\<rparr>) = serve b (served W s)"
    using enqueue_ok [OF A I0(1), of b, unfolded q0 I0(2), OF b(1) rr] by blast
  let ?s2 = "?s1\<lparr>ata := d\<rparr>"
  have "b < length (snd (served W s))" using r length_serve [of "idequeue s"] by (simp add: served_def)
  then have fin: "b_valid (snd (served W ?s2) ! b)" "\<not> b_dirty (snd (served W ?s2) ! b)"
    using d(3) serve_done [of b "snd (served W s)" "fst (served W s)"] by simp_all
  obtain s' where s': "iderw_wait b (?s2, disk_irqs D ?n # env) = Ok ((), s', env)" "held s' = [L_ide]" "idequeue s' = []"
    "(sectors W (ata s'), bufs s') = served W ?s2"
    using iderw_wait_ok [OF A d(2) _ _ _ _ _ _ fin, of p env] p r by auto
  have "iderw_ata D b (s, disk_irqs D ?n # env) = Ok ((), s'\<lparr>held := []\<rparr>, env)"
    using r b(3) h d(1) s'(1,2) by (auto simp: iderw_ata_def thn_run)
  moreover have "served W ?s2 = fold serve (idequeue s @ [b]) (sectors W (ata s), bufs s)" using d(3) by (simp add: served_def)
  ultimately show ?thesis using s' by (intro exI [of _ "s'\<lparr>held := []\<rparr>"]) simp
qed

section \<open>The same as the memory disk\<close>

fun memide_all :: "nat list \<Rightarrow> 'a disk_st_scheme \<Rightarrow> 'a disk_st_scheme res" where
  "memide_all [] s = Ok s"
| "memide_all (b # q) s = bnd (iderw b s) (memide_all q)"

text \<open>The sectors of disk 1 hold a disk image.\<close>

definition holds_image :: "(bool \<times> u32 \<Rightarrow> byte list) \<Rightarrow> byte list list \<Rightarrow> bool" where
  "holds_image C img \<longleftrightarrow> (\<forall>n<length img. C (True, of_nat n) = img ! n)"

definition mem_request :: "nat \<Rightarrow> 'a disk_st_scheme \<Rightarrow> bool" where
  "mem_request b s \<longleftrightarrow> request_ok b (bufs s) \<and> b_dev (bufs s ! b) = 1 \<and> unat (b_sector (bufs s ! b)) < length (disk s)"

lemma memide_serve:
  assumes "mem_request b s" "holds_image C (disk s)" "length (disk s) \<le> 2 ^ 28"
  shows "\<exists>t. iderw b s = Ok t \<and> length (disk t) = length (disk s) \<and>
    holds_image (fst (serve b (C, bufs s))) (disk t) \<and> bufs t = snd (serve b (C, bufs s))"
proof -
  let ?bf = "bufs s ! b" and ?n = "unat (b_sector (bufs s ! b))"
  note r = assms(1) [unfolded mem_request_def request_ok_def]
  have a: "req_addr ?bf = (True, b_sector ?bf)" using r by (simp add: req_addr_def)
  have e: "of_nat n = b_sector ?bf \<longleftrightarrow> n = ?n" if "n < length (disk s)" for n
    using that assms(3) unat_of_nat32 [of n] by auto
  have C: "C (True, b_sector ?bf) = disk s ! ?n" using assms(2) r by (auto simp: holds_image_def dest: spec [of _ ?n])
  show ?thesis
    using r a C assms(2) e
    by (auto simp: iderw_def serve_def issue_def Let_def upd_buf_def holds_image_def nth_list_update)
      (cases "bufs s ! b"; simp)+
qed

lemma serve_other: "c \<noteq> b \<Longrightarrow> snd (serve b (C, B)) ! c = B ! c"
  by (simp add: serve_def Let_def)

lemma memide_all_serve:
  assumes "distinct q" "\<forall>b\<in>set q. mem_request b s" "holds_image C (disk s)" "length (disk s) \<le> 2 ^ 28"
  shows "\<exists>t. memide_all q s = Ok t \<and> length (disk t) = length (disk s) \<and>
    holds_image (fst (fold serve q (C, bufs s))) (disk t) \<and> bufs t = snd (fold serve q (C, bufs s))"
  using assms
proof (induction q arbitrary: s C)
  case (Cons b q)
  obtain t where t: "iderw b s = Ok t" "length (disk t) = length (disk s)"
    "holds_image (fst (serve b (C, bufs s))) (disk t)" "bufs t = snd (serve b (C, bufs s))"
    using memide_serve [of b s C] Cons.prems by auto
  have o: "bufs t ! c = bufs s ! c" "length (bufs t) = length (bufs s)" if "c \<in> set q" for c
    using that Cons.prems(1) unfolding t(4) by (auto intro: serve_other) (simp add: serve_def Let_def)
  have "\<forall>c\<in>set q. mem_request c t" using Cons.prems(2) o t(2) by (auto simp: mem_request_def request_ok_def)
  then obtain u where "memide_all q t = Ok u" "length (disk u) = length (disk t)"
    "holds_image (fst (fold serve q (fst (serve b (C, bufs s)), bufs t))) (disk u)"
    "bufs u = snd (fold serve q (fst (serve b (C, bufs s)), bufs t))"
    using Cons.IH [of t "fst (serve b (C, bufs s))"] Cons.prems t by auto
  then show ?case using t by simp
qed simp

text \<open>C20: on a controller that behaves as an ATA disk, a request by \<open>iderw\<close> of \<open>ide.c\<close> returns once the requests before it in
  the queue and its own have each had their interrupt, and then the disk and the buffers are exactly what the memory disk of
  \<open>memide.c\<close> makes of the same requests one after the other.\<close>

theorem ide_driver_refines_memide:
  fixes s :: "('d, 'a) ide_st_scheme"
  assumes "ata_disk D W" "ide_inv W s" "held s = []" "cur s = Some p" "p < length (procs s)" "pgdir (procs s ! p) \<noteq> 0"
    "b \<notin> set (idequeue s)" "havedisk1 s" "\<forall>c\<in>set (idequeue s @ [b]). mem_request c s"
    "holds_image (sectors W (ata s)) (disk s)" "length (disk s) \<le> 2 ^ 28"
  shows "returns (memide_all (idequeue s @ [b]) s) (\<lambda>t.
    returns (iderw_ata D b (s, disk_irqs D (Suc (length (idequeue s))) # env)) (\<lambda>(_, s', env').
      env' = env \<and> held s' = [] \<and> idequeue s' = [] \<and> bufs s' = bufs t \<and> holds_image (sectors W (ata s')) (disk t)))"
proof -
  have "distinct (idequeue s @ [b])" using assms(2,7) by (auto simp: ide_inv_def)
  then obtain t where t: "memide_all (idequeue s @ [b]) s = Ok t"
    "holds_image (fst (fold serve (idequeue s @ [b]) (sectors W (ata s), bufs s))) (disk t)"
    "bufs t = snd (fold serve (idequeue s @ [b]) (sectors W (ata s), bufs s))"
    using memide_all_serve [of "idequeue s @ [b]" s "sectors W (ata s)"] assms(9-11) by auto
  have "request_ok b (bufs s)" using assms(9) by (simp add: mem_request_def)
  then obtain s' where s': "iderw_ata D b (s, disk_irqs D (Suc (length (idequeue s))) # env) = Ok ((), s', env)" "held s' = []"
    "idequeue s' = []" "(sectors W (ata s'), bufs s') = fold serve (idequeue s @ [b]) (sectors W (ata s), bufs s)"
    using iderw_ata_ok [OF assms(1-6), of b env] assms(7,8) by auto
  have "bufs s' = bufs t" "holds_image (sectors W (ata s')) (disk t)"
    using t(2,3) unfolding s'(4) [symmetric] by simp_all
  then show ?thesis using t(1) s'(1-3) by simp
qed

text \<open>
  A read that the controller ends with an error also marks the buffer valid, with whatever
  data it held: the caller cannot tell.
\<close>

lemma ide_read_error_ignored:
  assumes "held s = []" "idequeue s = [b]" "b < length (bufs s)" "\<not> b_dirty (bufs s ! b)"
    "idewait_poll D (ata s) = Some (r, d)" "r AND (IDE_DF OR IDE_ERR) \<noteq> 0"
  shows "\<exists>s'. ideintr_ata D s = Ok s' \<and> b_valid (bufs s' ! b) \<and> b_data (bufs s' ! b) = b_data (bufs s ! b)"
  using assms by (simp add: ideintr_ata_def idewait_def wakeup_def wakeup1_def upd_buf_def Let_def)

section \<open>A controller\<close>

record demo_ata =
  da_delay :: nat
  da_reg :: "u16 \<Rightarrow> byte"
  da_cmd :: byte
  da_sectors :: "bool \<times> u32 \<Rightarrow> byte list"

definition demo_ports :: "demo_ata ports" where
  "demo_ports = \<lparr>
     inb_status = (\<lambda>d. if da_delay d = 0 then (0x40, d) else (0x80, d\<lparr>da_delay := da_delay d - 1\<rparr>)),
     outb_port = (\<lambda>p v d. if p = 0x1f7 then d\<lparr>da_cmd := v, da_delay := 2\<rparr> else d\<lparr>da_reg := (da_reg d)(p := v)\<rparr>),
     outsl_data = (\<lambda>bs d. if da_cmd d = IDE_CMD_WRITE
        then d\<lparr>da_sectors := (da_sectors d)(lba (da_reg d) := bs), da_delay := 3\<rparr> else d),
     insl_data = (\<lambda>d. (da_sectors d (lba (da_reg d)), d))\<rparr>"

definition demo_view :: "demo_ata view" where
  "demo_view = \<lparr>delay = da_delay, reg = da_reg, cmd = da_cmd, sectors = da_sectors\<rparr>"

lemma demo_ata_disk: "ata_disk demo_ports demo_view"
  by (auto simp: ata_disk_def demo_ports_def demo_view_def Let_def IDE_BSY_def IDE_DRDY_def IDE_DF_def IDE_ERR_def)

text \<open>A disk that is writing sector 1 from buffer 0, while a process wants to read that sector into buffer 1.\<close>

definition ide_demo_buf :: "bool \<Rightarrow> byte \<Rightarrow> buf" where
  "ide_demo_buf dirty x = \<lparr>b_busy = True, b_valid = dirty, b_dirty = dirty, b_dev = 1, b_sector = 1, b_data = replicate 512 x\<rparr>"

definition ide_demo :: "demo_ata ide_st" where
  "ide_demo = disk_st.extend (proc_st.extend ((demo_st [demo_proc 0 0])\<lparr>cur := Some 0\<rparr>)
     (disk_st.fields [replicate 512 0, replicate 512 7] [] [ide_demo_buf True 7, ide_demo_buf False 0] []))
     (ide_st.fields [0] True \<lparr>da_delay = 3, da_reg = (\<lambda>_. 0)(0x1f3 := 1, 0x1f6 := 0xf0), da_cmd = IDE_CMD_WRITE,
        da_sectors = (\<lambda>(_, n). if n = 1 then replicate 512 7 else replicate 512 0)\<rparr>)"

lemma ide_demo_simps [simp]:
  "held ide_demo = []" "cur ide_demo = Some 0" "procs ide_demo = [demo_proc 0 0]" "idequeue ide_demo = [0]" "havedisk1 ide_demo"
  "bufs ide_demo = [ide_demo_buf True 7, ide_demo_buf False 0]" "disk ide_demo = [replicate 512 0, replicate 512 7]"
  by (simp_all add: ide_demo_def disk_st.defs proc_st.defs ide_st.defs demo_st_def)

lemma ide_demo_sectors:
  "sectors demo_view (ata ide_demo) (x, n) = (if n = 1 then replicate 512 7 else replicate 512 0)"
  "reg demo_view (ata ide_demo) = (\<lambda>_. 0)(0x1f3 := 1, 0x1f6 := 0xf0)" "cmd demo_view (ata ide_demo) = IDE_CMD_WRITE"
  by (simp_all add: ide_demo_def ide_st.defs disk_st.defs demo_view_def)

lemma ide_demo_inv: "ide_inv demo_view ide_demo"
proof -
  have "mk32 1 0 0 0 = 1" by (simp add: mk32_def)
  then have "lba (reg demo_view (ata ide_demo)) = (True, 1)" unfolding ide_demo_sectors lba_def by simp
  moreover have "issue (ide_demo_buf True 7) (sectors demo_view (ata ide_demo)) = sectors demo_view (ata ide_demo)"
    by (auto simp: issue_def ide_demo_buf_def req_addr_def fun_eq_iff ide_demo_sectors)
  ultimately show ?thesis
    by (simp add: ide_inv_def ide_demo_sectors Let_def req_addr_def rw_cmd_def) (simp add: ide_demo_buf_def)
qed

theorem ide_driver_refines_memide_witness:
  "returns (iderw_ata demo_ports 1 (ide_demo, [disk_irqs demo_ports 2])) (\<lambda>(_, s', _).
     idequeue s' = [] \<and> b_valid (bufs s' ! 1) \<and> b_data (bufs s' ! 1) = replicate 512 7)"
proof -
  have m: "\<forall>c\<in>set (idequeue ide_demo @ [1]). mem_request c ide_demo"
    by (simp add: mem_request_def request_ok_def ide_demo_buf_def)
  have h: "holds_image (sectors demo_view (ata ide_demo)) (disk ide_demo)"
    by (auto simp: holds_image_def ide_demo_sectors less_Suc_eq)
  have t: "returns (memide_all (idequeue ide_demo @ [1]) ide_demo) (\<lambda>t. b_valid (bufs t ! 1) \<and> b_data (bufs t ! 1) = replicate 512 7)"
    by (simp add: iderw_def ide_demo_buf_def upd_buf_def Let_def)
  have n: "Suc (length (idequeue ide_demo)) = 2" by simp
  from ide_driver_refines_memide [OF demo_ata_disk ide_demo_inv, of 0 1 "[]", unfolded n] m h t show ?thesis
    by (auto simp: returns_iff)
qed

end
