(* ===== verification/Ring.thy ===== *)
theory Ring
  imports Xv6_Prelude
begin

text \<open>
  Circular buffers indexed by free-running 32-bit counters, as the console input buffer
  and the pipes use them: the counters only ever grow (and wrap at \<open>2 ^ 32\<close>), a byte lives
  at its counter modulo the size of the buffer. The size divides \<open>2 ^ 32\<close>, so the
  arithmetic survives the wrap. The interface of a bounded queue of bytes is the locale
  \<open>byte_queue\<close>; its clients are interpreted in the theories of the console and the pipes.
\<close>

section \<open>Contents of a ring\<close>

definition ring_at :: "byte list \<Rightarrow> u32 \<Rightarrow> byte" where
  "ring_at b i = b ! (unat i mod length b)"

definition ring_set :: "byte list \<Rightarrow> u32 \<Rightarrow> byte \<Rightarrow> byte list" where
  "ring_set b i c = b[unat i mod length b := c]"

definition ring_list :: "byte list \<Rightarrow> u32 \<Rightarrow> nat \<Rightarrow> byte list" where
  "ring_list b r n = map (\<lambda>k. ring_at b (r + of_nat k)) [0..<n]"

lemma length_ring_set [simp]: "length (ring_set b i c) = length b"
  by (simp add: ring_set_def)

lemma length_ring_list [simp]: "length (ring_list b r n) = n"
  by (simp add: ring_list_def)

lemma ring_list_0 [simp]: "ring_list b r 0 = []"
  by (simp add: ring_list_def)

lemma ring_list_Suc: "ring_list b r (Suc n) = ring_at b r # ring_list b (r + 1) n"
proof -
  have "[0..<Suc n] = 0 # map Suc [0..<n]" by (simp add: upt_conv_Cons map_Suc_upt del: upt_Suc)
  then show ?thesis by (simp add: ring_list_def comp_def algebra_simps del: upt_Suc)
qed

lemma ring_list_snoc: "ring_list b r (Suc n) = ring_list b r n @ [ring_at b (r + of_nat n)]"
  by (simp add: ring_list_def)

lemma ring_list_append: "ring_list b r (m + n) = ring_list b r m @ ring_list b (r + of_nat m) n"
proof (induction n)
  case (Suc n)
  then show ?case by (simp add: ring_list_snoc algebra_simps)
qed simp

text \<open>The position of a byte is not disturbed when the counter wraps.\<close>

lemma ring_index:
  assumes "N dvd 2 ^ 32"
  shows "unat (r + of_nat k :: u32) mod N = (unat r + k) mod N"
proof -
  have "unat (r + of_nat k :: u32) = (unat r + k) mod 2 ^ 32"
    by (simp add: unat_word_ariths unat_of_nat mod_simps)
  then show ?thesis using assms by (simp add: mod_mod_cancel)
qed

lemma mod_shift_inj: "(u + j) mod N = (u + k) mod N \<Longrightarrow> j < N \<Longrightarrow> k < N \<Longrightarrow> j = (k :: nat)"
proof (induction j k rule: linorder_wlog)
  case (le j k)
  then have "N dvd (u + k) - (u + j)" by (metis add_le_cancel_left mod_eq_dvd_iff_nat)
  then show ?case using le by (auto dest: dvd_imp_le)
qed simp

lemma ring_index_inj:
  assumes "N dvd 2 ^ 32" "j < N" "k < N"
  shows "unat (r + of_nat j :: u32) mod N = unat (r + of_nat k :: u32) mod N \<longleftrightarrow> j = k"
  using mod_shift_inj [OF _ assms(2,3)] ring_index [OF assms(1)] by auto

lemma ring_set_list:
  assumes "length b dvd 2 ^ 32" "n < length b"
  shows "ring_list (ring_set b (r + of_nat n) c) r (Suc n) = ring_list b r n @ [c]"
proof -
  have "unat (r + of_nat n) mod length b < length b" using assms(2) by (intro mod_less_divisor) linarith
  then have "ring_at (ring_set b (r + of_nat n) c) (r + of_nat n) = c"
    by (simp add: ring_at_def ring_set_def)
  moreover have "ring_at (ring_set b (r + of_nat n) c) (r + of_nat k) = ring_at b (r + of_nat k)" if "k < n" for k
    using ring_index_inj [OF assms(1), of k n r] that assms(2)
    by (simp add: ring_at_def ring_set_def)
  then have "ring_list (ring_set b (r + of_nat n) c) r n = ring_list b r n"
    by (simp add: ring_list_def)
  ultimately show ?thesis by (simp add: ring_list_snoc)
qed

lemma unat_diff_Suc: "unat (e + 1 - r :: u32) = Suc (unat (e - r))" if "unat (e - r) < 2 ^ 32 - 1"
proof -
  have "e + 1 - r = (e - r) + 1" by (simp add: algebra_simps)
  also have "unat ((e - r) + 1) = Suc (unat (e - r))" using that by (simp add: unat_word_ariths)
  finally show ?thesis .
qed

lemma unat_diff_pred: "unat (e - (r + 1) :: u32) = unat (e - r) - 1" if "e \<noteq> r"
proof -
  have "e - (r + 1) = (e - r) - 1" by (simp add: algebra_simps)
  also have "unat ((e - r) - 1) = unat (e - r) - 1" using that by (intro unat_minus_one) simp
  finally show ?thesis .
qed

lemma ring_end: "(r :: u32) + of_nat (unat (e - r)) = e"
  by simp

text \<open>Adding at the end and taking from the front of a ring between two counters.\<close>

lemma ring_put:
  assumes "length b dvd 2 ^ 32" "unat (e - r) < length b" "length b < 2 ^ 32"
  shows "ring_list (ring_set b e c) r (unat (e + 1 - r)) = ring_list b r (unat (e - r)) @ [c]"
  using ring_set_list [OF assms(1,2), of r c] assms(2,3) by (simp add: unat_diff_Suc)

lemma ring_get:
  assumes "e \<noteq> r"
  shows "ring_list b r (unat (e - r)) = ring_at b r # ring_list b (r + 1) (unat (e - (r + 1)))"
proof -
  have "unat (e - r) \<noteq> 0" using assms by (simp add: unat_eq_zero)
  then obtain n where "unat (e - r) = Suc n" using not0_implies_Suc by blast
  then show ?thesis using unat_diff_pred [OF assms] by (simp add: ring_list_Suc)
qed

section \<open>Bounded queues of bytes\<close>

datatype qop = Put byte | Get

fun run_ops :: "(byte \<Rightarrow> 's \<Rightarrow> 's) \<Rightarrow> ('s \<Rightarrow> byte \<times> 's) \<Rightarrow> qop list \<Rightarrow> 's \<Rightarrow> byte list \<times> 's" where
  "run_ops put get [] s = ([], s)"
| "run_ops put get (Put c # ops) s = run_ops put get ops (put c s)"
| "run_ops put get (Get # ops) s =
     (let (c, s) = get s; (cs, s) = run_ops put get ops s in (c # cs, s))"

fun puts_of :: "qop list \<Rightarrow> byte list" where
  "puts_of [] = []"
| "puts_of (Put c # ops) = c # puts_of ops"
| "puts_of (Get # ops) = puts_of ops"

text \<open>A sequence of operations that never overflows or underflows a queue of length \<open>n\<close>.\<close>

fun ops_fit :: "nat \<Rightarrow> nat \<Rightarrow> qop list \<Rightarrow> bool" where
  "ops_fit cap n [] = True"
| "ops_fit cap n (Put c # ops) \<longleftrightarrow> n < cap \<and> ops_fit cap (Suc n) ops"
| "ops_fit cap n (Get # ops) \<longleftrightarrow> 0 < n \<and> ops_fit cap (n - 1) ops"

locale byte_queue =
  fixes put :: "byte \<Rightarrow> 's \<Rightarrow> 's"
    and get :: "'s \<Rightarrow> byte \<times> 's"
    and contents :: "'s \<Rightarrow> byte list"
    and cap :: nat
    and ok :: "'s \<Rightarrow> bool"
  assumes put_ok: "ok s \<Longrightarrow> length (contents s) < cap \<Longrightarrow> ok (put c s)"
    and put_contents: "ok s \<Longrightarrow> length (contents s) < cap \<Longrightarrow> contents (put c s) = contents s @ [c]"
    and get_ok: "ok s \<Longrightarrow> contents s \<noteq> [] \<Longrightarrow> ok (snd (get s))"
    and get_contents: "ok s \<Longrightarrow> contents s \<noteq> [] \<Longrightarrow> contents s = fst (get s) # contents (snd (get s))"
begin

lemma put_all:
  "ok s \<Longrightarrow> length (contents s) + length cs \<le> cap \<Longrightarrow>
   ok (fold put cs s) \<and> contents (fold put cs s) = contents s @ cs"
proof (induction cs arbitrary: s)
  case (Cons c cs)
  then show ?case using put_ok [of s c] put_contents [of s c] by (simp add: Cons.IH)
qed simp

text \<open>Bytes come out in the order in which they went in, none is lost and none is invented.\<close>

lemma fifo:
  "ok s \<Longrightarrow> length (contents s) \<le> cap \<Longrightarrow> ops_fit cap (length (contents s)) ops \<Longrightarrow>
   ok (snd (run_ops put get ops s)) \<and>
   contents s @ puts_of ops = fst (run_ops put get ops s) @ contents (snd (run_ops put get ops s))"
proof (induction ops arbitrary: s)
  case (Cons op ops)
  show ?case
  proof (cases op)
    case (Put c)
    then have "ok (put c s)" "contents (put c s) = contents s @ [c]"
      using Cons.prems put_ok [of s c] put_contents [of s c] by auto
    then show ?thesis using Cons.IH [of "put c s"] Cons.prems Put by simp
  next
    case Get
    then have ne: "contents s \<noteq> []" using Cons.prems by auto
    note g = get_ok [OF Cons.prems(1) ne] get_contents [OF Cons.prems(1) ne]
    have "length (contents s) = Suc (length (contents (snd (get s))))" using arg_cong [OF g(2), of length] by simp
    then show ?thesis using Cons.IH [OF g(1)] Cons.prems g(2) Get by (auto simp: split_def Let_def)
  qed
qed simp

end

end
