(* ===== verification/Console.thy ===== *)
theory Console
  imports Fs Ring
begin

text \<open>
  \<open>console.c\<close>, \<open>kbd.c\<close> and the parts of \<open>uart.c\<close> it calls: formatted output to the serial
  port and the CGA screen, the keyboard decoder, line editing of console input and the
  console device. The devices are the state of their ports: bytes waiting in the keyboard
  controller and the serial port, bytes sent, the cells of the screen and the cursor
  register. Characters passed as C \<open>int\<close> are \<open>int\<close>, because \<open>BACKSPACE\<close> is 0x100.
\<close>

section \<open>State\<close>

record cons_st = fs_st +
  panicked :: bool
  cons_locking :: bool
  crt :: "nat \<Rightarrow> u16"
  crt_pos :: u16
  uart :: bool
  uart_out :: "byte list"
  uart_in :: "byte list"
  kbd_in :: "byte list"
  kbd_shift :: byte
  in_buf :: "byte list"
  in_r :: u32
  in_w :: u32
  in_e :: u32

definition BACKSPACE :: int where "BACKSPACE = 0x100"
definition INPUT_BUF :: nat where "INPUT_BUF = 128"

section \<open>Output\<close>

definition uartputc :: "int \<Rightarrow> 'a cons_st_scheme \<Rightarrow> 'a cons_st_scheme" where
  "uartputc c s = (if uart s then s\<lparr>uart_out := uart_out s @ [word_of_int c]\<rparr> else s)"

text \<open>
  \<open>crt\<close> is an array of cells; the cursor is \<open>col + 80 * row\<close>. When the cursor is more than
  one row below the screen, the count of the clearing \<open>memset\<close> is negative and wraps: the
  call overwrites memory until the machine faults.
\<close>

definition cga_advance :: "int \<Rightarrow> nat \<Rightarrow> (nat \<Rightarrow> u16) \<Rightarrow> nat \<times> (nat \<Rightarrow> u16)" where
  "cga_advance c pos m =
     (if c = 10 then (pos + (80 - pos mod 80), m)
      else if c = BACKSPACE then (if pos > 0 then pos - 1 else pos, m)
      else (pos + 1, m(pos := (word_of_int c AND 0xff) OR 0x0700)))"

definition cga_show :: "nat \<Rightarrow> (nat \<Rightarrow> u16) \<Rightarrow> 'a cons_st_scheme \<Rightarrow> 'a cons_st_scheme res" where
  "cga_show pos m s =
     (if pos div 80 \<ge> 24 then
        let m = (\<lambda>i. if i < 23 * 80 then m (i + 80) else m i);
            pos = pos - 80 in
        if pos > 24 * 80 then Stuck else
        let m = (\<lambda>i. if pos \<le> i \<and> i < 24 * 80 then 0 else m i) in
        Ok (s\<lparr>crt_pos := of_nat pos, crt := m(pos := 0x0720)\<rparr>)
      else Ok (s\<lparr>crt_pos := of_nat pos, crt := m(pos := 0x0720)\<rparr>))"

definition cgaputc :: "int \<Rightarrow> 'a cons_st_scheme \<Rightarrow> 'a cons_st_scheme res" where
  "cgaputc c s = (let (pos, m) = cga_advance c (unat (crt_pos s)) (crt s) in cga_show pos m s)"

definition consputc :: "int \<Rightarrow> 'a cons_st_scheme \<Rightarrow> 'a cons_st_scheme res" where
  "consputc c s =
     (if panicked s then Stuck
      else cgaputc c (if c = BACKSPACE then uartputc 8 (uartputc 32 (uartputc 8 s)) else uartputc c s))"

fun consputs :: "int list \<Rightarrow> 'a cons_st_scheme \<Rightarrow> 'a cons_st_scheme res" where
  "consputs [] s = Ok s"
| "consputs (c # xs) s = bnd (consputc c s) (consputs xs)"

text \<open>The digits of a number, lowest first; \<open>base\<close> is 10 or 16 in every call.\<close>

function rev_digits :: "nat \<Rightarrow> nat \<Rightarrow> nat list" where
  "rev_digits base x = (if x div base = 0 \<or> base < 2 then [x mod base] else x mod base # rev_digits base (x div base))"
  by pat_completeness auto
termination
  by (relation "measure snd") (auto intro!: div_less_dividend gr0I)

declare rev_digits.simps [simp del]

definition digit_char :: "nat \<Rightarrow> nat \<Rightarrow> int" where
  "digit_char hexa d = (if d < 10 then 48 + int d else int hexa + int d - 10)"

text \<open>\<open>printint\<close> of the kernel (hexadecimal digits from 'a') and of user programs (from 'A').\<close>

definition int_chars :: "nat \<Rightarrow> u32 \<Rightarrow> nat \<Rightarrow> bool \<Rightarrow> int list" where
  "int_chars hexa xx base sg =
     (let neg = (sg \<and> sint xx < 0);
          x = (if neg then - xx else xx);
          ds = map (digit_char hexa) (rev_digits base (unat x)) in
      rev (ds @ (if neg then [45] else [])))"

definition printint :: "u32 \<Rightarrow> nat \<Rightarrow> bool \<Rightarrow> 'a cons_st_scheme \<Rightarrow> 'a cons_st_scheme res" where
  "printint xx base sg = consputs (int_chars 97 xx base sg)"

text \<open>
  An argument of \<open>cprintf\<close>: an integer, or a pointer to a string (\<open>None\<close> the null pointer).
  Fetching an argument that is not there, or of the wrong kind, is undefined behaviour.
\<close>

datatype fmt_arg = A_int u32 | A_str "byte list option"

definition null_str :: "byte list" where "null_str = [40, 110, 117, 108, 108, 41]"

definition chars :: "byte list \<Rightarrow> int list" where
  "chars bs = map sint bs"

fun cprintf_loop :: "byte list \<Rightarrow> fmt_arg list \<Rightarrow> 'a cons_st_scheme \<Rightarrow> 'a cons_st_scheme res" where
  "cprintf_loop [] args s = Ok s"
| "cprintf_loop (c # fmt) args s =
     (if c \<noteq> 37 then bnd (consputc (uint c) s) (cprintf_loop fmt args)
      else case fmt of
        [] \<Rightarrow> Ok s
      | c # fmt \<Rightarrow>
          if c = 100 then
            (case args of A_int n # args \<Rightarrow> bnd (printint n 10 True s) (cprintf_loop fmt args) | _ \<Rightarrow> Stuck)
          else if c = 120 \<or> c = 112 then
            (case args of A_int n # args \<Rightarrow> bnd (printint n 16 False s) (cprintf_loop fmt args) | _ \<Rightarrow> Stuck)
          else if c = 115 then
            (case args of A_str p # args \<Rightarrow>
               bnd (consputs (chars (case p of None \<Rightarrow> null_str | Some t \<Rightarrow> t)) s) (cprintf_loop fmt args)
             | _ \<Rightarrow> Stuck)
          else if c = 37 then bnd (consputc 37 s) (cprintf_loop fmt args)
          else bnd (consputc 37 s) (\<lambda>s. bnd (consputc (uint c) s) (cprintf_loop fmt args)))"

definition cprintf :: "byte list \<Rightarrow> fmt_arg list \<Rightarrow> 'a cons_st_scheme \<Rightarrow> 'a cons_st_scheme res" where
  "cprintf fmt args s =
     (if cons_locking s then
        bnd (lock L_cons s) (\<lambda>s. bnd (cprintf_loop fmt args s) (unlock L_cons))
      else cprintf_loop fmt args s)"

text \<open>String literals of the source.\<close>

definition lit :: "string \<Rightarrow> byte list" where
  "lit str = map (\<lambda>c. word_of_nat (of_char c)) str"

text \<open>
  What \<open>panic\<close> prints, and the flag by which it stops every other CPU at its next
  character; \<open>pcs\<close> are the ten return addresses of the call stack. Elsewhere in the
  development a call of \<open>panic\<close> is the result \<open>Panic\<close>.
\<close>

fun print_pcs :: "u32 list \<Rightarrow> 'a cons_st_scheme \<Rightarrow> 'a cons_st_scheme res" where
  "print_pcs [] s = Ok s"
| "print_pcs (pc # pcs) s = bnd (cprintf (lit '' %p'') [A_int pc] s) (print_pcs pcs)"

definition panic_print :: "u32 \<Rightarrow> byte list \<Rightarrow> u32 list \<Rightarrow> 'a cons_st_scheme \<Rightarrow> 'a cons_st_scheme res" where
  "panic_print cpuid msg pcs s =
     bnd (cprintf (lit ''cpu%d: panic: '') [A_int cpuid] (s\<lparr>cons_locking := False\<rparr>)) (\<lambda>s.
     bnd (cprintf msg [] s) (\<lambda>s.
     bnd (cprintf [10] [] s) (\<lambda>s.
     bnd (print_pcs pcs s) (\<lambda>s. Ok (s\<lparr>panicked := True\<rparr>)))))"

definition state_name :: "procstate \<Rightarrow> byte list" where
  "state_name st = lit (case st of UNUSED \<Rightarrow> ''unused'' | EMBRYO \<Rightarrow> ''embryo'' | SLEEPING \<Rightarrow> ''sleep ''
     | RUNNABLE \<Rightarrow> ''runble'' | RUNNING \<Rightarrow> ''run   '' | ZOMBIE \<Rightarrow> ''zombie'')"

definition procdump_one :: "proc \<Rightarrow> 'a cons_st_scheme \<Rightarrow> 'a cons_st_scheme res" where
  "procdump_one p s =
     (if pstate p = UNUSED then Ok s else
      bnd (cprintf (lit ''%d %s %s'') [A_int (of_int (pid p)), A_str (Some (state_name (pstate p))),
             A_str (Some (takeWhile (\<lambda>c. c \<noteq> 0) (pname p)))] s) (\<lambda>s.
      bnd (if pstate p = SLEEPING
           then print_pcs (takeWhile (\<lambda>pc. pc \<noteq> 0) (getcallerpcs (load32 (mem s)) (ctx_ebp (ctx p) + 8))) s
           else Ok s) (cprintf [10] [])))"

fun procdump_loop :: "proc list \<Rightarrow> 'a cons_st_scheme \<Rightarrow> 'a cons_st_scheme res" where
  "procdump_loop [] s = Ok s"
| "procdump_loop (p # ps) s = bnd (procdump_one p s) (procdump_loop ps)"

definition procdump :: "'a cons_st_scheme \<Rightarrow> 'a cons_st_scheme res" where
  "procdump s = procdump_loop (procs s) s"

section \<open>Keyboard\<close>

definition SHIFT :: byte where "SHIFT = 1"
definition CTL :: byte where "CTL = 2"
definition ALT :: byte where "ALT = 4"
definition CAPSLOCK :: byte where "CAPSLOCK = 8"
definition NUMLOCK :: byte where "NUMLOCK = 16"
definition SCROLLLOCK :: byte where "SCROLLLOCK = 32"
definition E0ESC :: byte where "E0ESC = 64"

text \<open>
  The 256-entry tables of \<open>kbd.h\<close>: the entries given in order from index 0, then the
  designated ones; every other entry is 0.
\<close>

definition table :: "byte list \<Rightarrow> (nat \<times> byte) list \<Rightarrow> byte \<Rightarrow> byte" where
  "table prefix rest d =
     (if unat d < length prefix then prefix ! unat d
      else case map_of rest (unat d) of None \<Rightarrow> 0 | Some c \<Rightarrow> c)"

definition shiftcode :: "byte \<Rightarrow> byte" where
  "shiftcode = table [] [(0x1D, CTL), (0x2A, SHIFT), (0x36, SHIFT), (0x38, ALT), (0x9D, CTL), (0xB8, ALT)]"

definition togglecode :: "byte \<Rightarrow> byte" where
  "togglecode = table [] [(0x3A, CAPSLOCK), (0x45, NUMLOCK), (0x46, SCROLLLOCK)]"

definition special_keys :: "(nat \<times> byte) list" where
  "special_keys = [(0xC8, 0xE2), (0xD0, 0xE3), (0xC9, 0xE6), (0xD1, 0xE7), (0xCB, 0xE4), (0xCD, 0xE5),
     (0x97, 0xE0), (0xCF, 0xE1), (0xD2, 0xE8), (0xD3, 0xE9)]"

definition normalmap :: "byte \<Rightarrow> byte" where
  "normalmap = table (concat [
     [0, 0x1B] @ lit ''123456'', lit ''7890-='' @ [8, 9],
     lit ''qwertyui'', lit ''op[]'' @ [10, 0] @ lit ''as'',
     lit ''dfghjkl;'', [39] @ lit ''`'' @ [0, 92] @ lit ''zxcv'',
     lit ''bnm,./'' @ [0] @ lit ''*'', [0, 32, 0, 0, 0, 0, 0, 0],
     [0, 0, 0, 0, 0, 0, 0] @ lit ''7'', lit ''89-456+1'',
     lit ''230.'' @ [0, 0, 0, 0]]) ([(0x9C, 10), (0xB5, 47)] @ special_keys)"

definition shiftmap :: "byte \<Rightarrow> byte" where
  "shiftmap = table (concat [
     [0, 27] @ lit ''!@#$%^'', lit ''&*()_+'' @ [8, 9],
     lit ''QWERTYUI'', lit ''OP{}'' @ [10, 0] @ lit ''AS'',
     lit ''DFGHJKL:'', [34] @ lit ''~'' @ [0] @ lit ''|ZXCV'',
     lit ''BNM<>?'' @ [0] @ lit ''*'', [0, 32, 0, 0, 0, 0, 0, 0],
     [0, 0, 0, 0, 0, 0, 0] @ lit ''7'', lit ''89-456+1'',
     lit ''230.'' @ [0, 0, 0, 0]]) ([(0x9C, 10), (0xB5, 47)] @ special_keys)"

definition ctl :: "string \<Rightarrow> byte list" where
  "ctl str = map (\<lambda>c. c - 64) (lit str)"

definition ctlmap :: "byte \<Rightarrow> byte" where
  "ctlmap = table (concat [
     replicate 16 0,
     ctl ''QWERTYUI'', ctl ''OP'' @ [0, 0, 13, 0] @ ctl ''AS'',
     ctl ''DFGHJKL'' @ [0], [0, 0, 0, 28] @ ctl ''ZXCV'',
     ctl ''BNM'' @ [0, 0] @ ctl ''/'' @ [0, 0]]) ([(0x9C, 13), (0xB5, 47 - 64)] @ special_keys)"

definition charcode :: "byte \<Rightarrow> byte \<Rightarrow> byte" where
  "charcode sel = (if sel = 0 then normalmap else if sel = SHIFT then shiftmap else ctlmap)"

text \<open>
  One scan code. A set bit of \<open>shift\<close> is a modifier that is down (or a lock that is on);
  the result is the character, 0 for none.
\<close>

definition kbd_decode :: "byte \<Rightarrow> byte \<Rightarrow> int \<times> byte" where
  "kbd_decode data shift =
     (if data = 0xE0 then (0, shift OR E0ESC)
      else if data AND 0x80 \<noteq> 0 then
        let data = (if shift AND E0ESC \<noteq> 0 then data else data AND 0x7F) in
        (0, shift AND NOT (shiftcode data OR E0ESC))
      else
        let (data, shift) = (if shift AND E0ESC \<noteq> 0 then (data OR 0x80, shift AND NOT E0ESC) else (data, shift));
            shift = shift OR shiftcode data;
            shift = shift XOR togglecode data;
            c = charcode (shift AND (CTL OR SHIFT)) data;
            c = (if shift AND CAPSLOCK \<noteq> 0 then
                   if 97 \<le> c \<and> c \<le> 122 then c - 32
                   else if 65 \<le> c \<and> c \<le> 90 then c + 32 else c
                 else c) in
        (uint c, shift))"

definition kbdgetc :: "'a cons_st_scheme \<Rightarrow> int \<times> 'a cons_st_scheme" where
  "kbdgetc s =
     (case kbd_in s of
        [] \<Rightarrow> (-1, s)
      | data # rest \<Rightarrow>
          let (c, shift) = kbd_decode data (kbd_shift s) in (c, s\<lparr>kbd_in := rest, kbd_shift := shift\<rparr>))"

definition uartgetc :: "'a cons_st_scheme \<Rightarrow> int \<times> 'a cons_st_scheme" where
  "uartgetc s =
     (if \<not> uart s then (-1, s) else
      case uart_in s of [] \<Rightarrow> (-1, s) | c # rest \<Rightarrow> (uint c, s\<lparr>uart_in := rest\<rparr>))"

section \<open>Input\<close>

text \<open>\<open>input.buf[input.e++ % INPUT_BUF] = c\<close> and \<open>input.buf[input.r++ % INPUT_BUF]\<close>.\<close>

definition input_put :: "byte \<Rightarrow> 'a cons_st_scheme \<Rightarrow> 'a cons_st_scheme" where
  "input_put c s = s\<lparr>in_buf := (in_buf s)[unat (in_e s) mod INPUT_BUF := c], in_e := in_e s + 1\<rparr>"

definition input_get :: "'a cons_st_scheme \<Rightarrow> byte \<times> 'a cons_st_scheme" where
  "input_get s = (in_buf s ! (unat (in_r s) mod INPUT_BUF), s\<lparr>in_r := in_r s + 1\<rparr>)"

text \<open>Kill line: back to the last newline or the start of the line being edited.\<close>

function kill_line :: "'a cons_st_scheme \<Rightarrow> 'a cons_st_scheme res" where
  "kill_line s =
     (if in_e s \<noteq> in_w s \<and> in_buf s ! (unat (in_e s - 1) mod INPUT_BUF) \<noteq> 10
      then bnd (consputc BACKSPACE (s\<lparr>in_e := in_e s - 1\<rparr>)) kill_line
      else Ok s)"
  by pat_completeness auto

text \<open>Printing changes the serial output, the screen and the cursor, and nothing else.\<close>

lemma uartputc_shape: "\<exists>o'. uartputc c s = s\<lparr>uart_out := o'\<rparr>"
  by (cases "uart s") (auto simp: uartputc_def intro: exI [of _ "uart_out s"])

lemma cgaputc_shape: "cgaputc c s = Ok s' \<Longrightarrow> s' = s\<lparr>crt_pos := crt_pos s', crt := crt s'\<rparr>"
  unfolding cgaputc_def cga_show_def Let_def split_def by (auto split: if_split_asm)

lemma consputc_shape:
  assumes "consputc c s = Ok s'"
  shows "\<exists>o' p m. s' = s\<lparr>uart_out := o', crt_pos := p, crt := m\<rparr>"
proof -
  obtain o' where "cgaputc c (s\<lparr>uart_out := o'\<rparr>) = Ok s'"
  proof (cases "c = BACKSPACE")
    case True
    obtain o1 where o1: "uartputc 8 s = s\<lparr>uart_out := o1\<rparr>" using uartputc_shape by blast
    obtain o2 where o2: "uartputc 32 (s\<lparr>uart_out := o1\<rparr>) = s\<lparr>uart_out := o1, uart_out := o2\<rparr>" using uartputc_shape by blast
    obtain o3 where o3: "uartputc 8 (s\<lparr>uart_out := o2\<rparr>) = s\<lparr>uart_out := o2, uart_out := o3\<rparr>" using uartputc_shape by blast
    show ?thesis using assms True o1 o2 o3 that [of o3] by (auto simp: consputc_def split: if_splits)
  next
    case False
    obtain o1 where "uartputc c s = s\<lparr>uart_out := o1\<rparr>" using uartputc_shape by blast
    then show ?thesis using assms False that [of o1] by (auto simp: consputc_def split: if_splits)
  qed
  then show ?thesis using cgaputc_shape [of c "s\<lparr>uart_out := o'\<rparr>" s'] by blast
qed

lemma consputc_keeps:
  assumes "consputc c s = Ok s'"
  shows "in_e s' = in_e s" "in_w s' = in_w s" "in_r s' = in_r s" "in_buf s' = in_buf s" "kbd_in s' = kbd_in s"
    "uart_in s' = uart_in s" "uart s' = uart s" "kbd_shift s' = kbd_shift s" "held s' = held s" "procs s' = procs s"
    "panicked s' = panicked s" "cons_locking s' = cons_locking s" "cur s' = cur s" "mem s' = mem s"
  using consputc_shape [OF assms] by auto

termination kill_line
proof (relation "measure (\<lambda>s. unat (in_e s - in_w s))")
  fix s v :: "'a cons_st_scheme"
  assume c: "in_e s \<noteq> in_w s \<and> in_buf s ! (unat (in_e s - 1) mod INPUT_BUF) \<noteq> 10"
    and "consputc BACKSPACE (s\<lparr>in_e := in_e s - 1\<rparr>) = Ok v"
  then have "in_e v = in_e s - 1" "in_w v = in_w s" using consputc_keeps(1,2) by fastforce+
  moreover have "unat (in_e s - 1 - in_w s) < unat (in_e s - in_w s)"
    using c unat_minus_one [of "in_e s - in_w s"] by (simp add: diff_diff_eq add.commute unat_gt_0)
  ultimately show "(v, s) \<in> measure (\<lambda>s. unat (in_e s - in_w s))" by simp
qed simp

declare kill_line.simps [simp del]

text \<open>What \<open>consoleintr\<close> does with one character.\<close>

definition console_char :: "int \<Rightarrow> 'a cons_st_scheme \<Rightarrow> 'a cons_st_scheme res" where
  "console_char c s =
     (if c = 16 then procdump s
      else if c = 21 then kill_line s
      else if c = 8 \<or> c = 127 then
        if in_e s \<noteq> in_w s then consputc BACKSPACE (s\<lparr>in_e := in_e s - 1\<rparr>) else Ok s
      else if c \<noteq> 0 \<and> in_e s - in_r s < of_nat INPUT_BUF then
        let c = (if c = 13 then 10 else c) in
        bnd (consputc c (input_put (word_of_int c) s)) (\<lambda>s.
        if c = 10 \<or> c = 4 \<or> in_e s = in_r s + of_nat INPUT_BUF
        then wakeup Ch_input (s\<lparr>in_w := in_e s\<rparr>) else Ok s)
      else Ok s)"

text \<open>\<open>n\<close> bounds the number of characters the device delivers during the interrupt.\<close>

fun intr_loop :: "nat \<Rightarrow> ('a cons_st_scheme \<Rightarrow> int \<times> 'a cons_st_scheme) \<Rightarrow> 'a cons_st_scheme \<Rightarrow> 'a cons_st_scheme res" where
  "intr_loop 0 getc s = Stuck"
| "intr_loop (Suc n) getc s =
     (let (c, s) = getc s in if c < 0 then Ok s else bnd (console_char c s) (intr_loop n getc))"

definition consoleintr :: "nat \<Rightarrow> ('a cons_st_scheme \<Rightarrow> int \<times> 'a cons_st_scheme) \<Rightarrow> 'a cons_st_scheme \<Rightarrow>
    'a cons_st_scheme res" where
  "consoleintr n getc s = bnd (lock L_input s) (\<lambda>s. bnd (intr_loop n getc s) (unlock L_input))"

definition kbdintr :: "'a cons_st_scheme \<Rightarrow> 'a cons_st_scheme res" where
  "kbdintr s = consoleintr (Suc (length (kbd_in s))) kbdgetc s"

definition uartintr :: "'a cons_st_scheme \<Rightarrow> 'a cons_st_scheme res" where
  "uartintr s = consoleintr (Suc (length (uart_in s))) uartgetc s"

text \<open>
  Waiting for input: \<open>True\<close> when there is a byte to read, \<open>False\<close> when the process has been
  killed meanwhile.
\<close>

function input_wait :: "('a cons_st_scheme, bool) prog" where
  "input_wait w =
     (if in_r (fst w) = in_w (fst w) then
        bnd (with_cur (fst w) (\<lambda>p. Ok (killed (procs (fst w) ! p)))) (\<lambda>k.
        if k then Ok (False, w) else thn (sleep_on Ch_input L_input) (\<lambda>_. input_wait) w)
      else Ok (True, w))"
  by pat_completeness auto
termination
  by (relation "measure (\<lambda>w. length (snd w))") (auto dest: sleep_on_env)

declare input_wait.simps [simp del]

text \<open>
  The loop of \<open>consoleread\<close> with \<open>n\<close> bytes still wanted; \<open>first\<close> says that none has been
  stored yet. The result is whether the process is alive, and the bytes stored.
\<close>

fun consoleread_loop :: "nat \<Rightarrow> bool \<Rightarrow> ('a cons_st_scheme, bool \<times> byte list) prog" where
  "consoleread_loop 0 first = ret (True, [])"
| "consoleread_loop (Suc n) first =
     thn input_wait (\<lambda>ok.
     if \<not> ok then ret (False, []) else
     thn (call (\<lambda>s. Ok (input_get s))) (\<lambda>c.
     if c = 4 then thn (whenp (\<not> first) (modify (\<lambda>s. s\<lparr>in_r := in_r s - 1\<rparr>))) (\<lambda>_. ret (True, []))
     else if c = 10 then ret (True, [c])
     else thn (consoleread_loop n False) (\<lambda>(alive, bs). ret (alive, c # bs))))"

definition consoleread :: "nat \<Rightarrow> int \<Rightarrow> ('a cons_st_scheme, int \<times> byte list) prog" where
  "consoleread ip n =
     thn (upd (iunlock ip)) (\<lambda>_.
     thn (upd (lock L_input)) (\<lambda>_.
     thn (consoleread_loop (nat n) True) (\<lambda>(alive, bs).
     thn (upd (unlock L_input)) (\<lambda>_.
     thn (ilock ip) (\<lambda>_.
     ret (if alive then int (length bs) else -1, bs))))))"

definition consolewrite :: "nat \<Rightarrow> byte list \<Rightarrow> int \<Rightarrow> ('a cons_st_scheme, int) prog" where
  "consolewrite ip src n =
     thn (upd (iunlock ip)) (\<lambda>_.
     thn (upd (lock L_cons)) (\<lambda>_.
     thn (upd (consputs (map uint (take (nat n) src)))) (\<lambda>_.
     thn (upd (unlock L_cons)) (\<lambda>_.
     thn (ilock ip) (\<lambda>_. ret n)))))"

definition CONSOLE :: int where "CONSOLE = 1"

definition devsw :: "'a cons_st_scheme devsw" where
  "devsw major = (if major = CONSOLE then Some (consoleread, consolewrite) else None)"

definition consoleinit :: "'a cons_st_scheme \<Rightarrow> 'a cons_st_scheme" where
  "consoleinit s = s\<lparr>cons_locking := True\<rparr>"

section \<open>The screen\<close>

definition screen_ok :: "'a cons_st_scheme \<Rightarrow> bool" where
  "screen_ok s \<longleftrightarrow> \<not> panicked s \<and> unat (crt_pos s) < 24 * 80"

lemma unat_of_nat16: "n < 2 ^ 16 \<Longrightarrow> unat (of_nat n :: u16) = n"
  by (simp add: unat_of_nat)

lemma next_row: "pos < 24 * 80 \<Longrightarrow> pos + (80 - pos mod 80) \<le> 24 * (80 :: nat)"
proof -
  assume "pos < 24 * 80"
  then have "pos div 80 < 24" by (simp add: less_mult_imp_div_less)
  moreover have "pos + (80 - pos mod 80) = 80 * (pos div 80) + 80"
    using div_mult_mod_eq [of pos 80] mod_less_divisor [of 80 pos] by linarith
  ultimately show ?thesis by simp
qed

lemma cgaputc_ok:
  assumes "unat (crt_pos s) < 24 * 80"
  shows "\<exists>s'. cgaputc c s = Ok s' \<and> unat (crt_pos s') < 24 * 80 \<and> (\<forall>i\<ge>24 * 80. crt s' i = crt s i)"
proof -
  obtain q m where a: "cga_advance c (unat (crt_pos s)) (crt s) = (q, m)" by fastforce
  have q: "q \<le> 24 * 80" using a assms next_row [OF assms] by (auto simp: cga_advance_def split: if_splits)
  have m: "m i = crt s i" if "24 * 80 \<le> i" for i
    using a that assms by (auto simp: cga_advance_def split: if_splits)
  show ?thesis
  proof (cases "q div 80 \<ge> 24")
    case True
    then have "q = 24 * 80" using q by (simp add: less_eq_div_iff_mult_less_eq)
    then show ?thesis using a m by (simp add: cgaputc_def cga_show_def unat_of_nat16)
  next
    case False
    then have "q < 24 * 80" by (simp add: not_le div_less_iff_less_mult)
    then show ?thesis using a False m by (simp add: cgaputc_def cga_show_def unat_of_nat16)
  qed
qed

lemma consputc_ok:
  assumes "screen_ok s"
  shows "\<exists>s'. consputc c s = Ok s' \<and> screen_ok s' \<and> (\<forall>i\<ge>24 * 80. crt s' i = crt s i)"
proof -
  let ?t = "if c = BACKSPACE then uartputc 8 (uartputc 32 (uartputc 8 s)) else uartputc c s"
  have t: "crt_pos ?t = crt_pos s" "crt ?t = crt s" by (auto simp: uartputc_def)
  have "consputc c s = cgaputc c ?t" using assms by (simp add: consputc_def screen_ok_def)
  moreover have "unat (crt_pos ?t) < 24 * 80" using assms t by (simp add: screen_ok_def)
  ultimately obtain s' where s': "consputc c s = Ok s'" "unat (crt_pos s') < 24 * 80" "\<forall>i\<ge>24 * 80. crt s' i = crt s i"
    using cgaputc_ok [of ?t c] t by metis
  then show ?thesis using consputc_keeps(11) [OF s'(1)] assms by (auto simp: screen_ok_def)
qed

text \<open>Code that prints: it returns, keeps the screen in order, and changes nothing but the screen and the serial port.\<close>

definition same_but_screen :: "'a cons_st_scheme \<Rightarrow> 'a cons_st_scheme \<Rightarrow> bool" where
  "same_but_screen s s' \<longleftrightarrow> s' = s\<lparr>uart_out := uart_out s', crt_pos := crt_pos s', crt := crt s'\<rparr>"

lemma same_but_screen_refl [simp]: "same_but_screen s s"
  by (simp add: same_but_screen_def)

lemma same_but_screen_trans:
  assumes "same_but_screen s s'" "same_but_screen s' s''"
  shows "same_but_screen s s''"
proof -
  let ?F = "\<lambda>z x. z\<lparr>uart_out := uart_out x, crt_pos := crt_pos x, crt := crt x\<rparr>"
  have "s'' = ?F s' s''" using assms(2) unfolding same_but_screen_def .
  also have "\<dots> = ?F (?F s s') s''"
    using assms(1) unfolding same_but_screen_def by (rule arg_cong [where f = "\<lambda>z. ?F z s''"])
  also have "\<dots> = ?F s s''" by simp
  finally show ?thesis unfolding same_but_screen_def .
qed

lemma same_but_screenD:
  assumes "same_but_screen s s'"
  shows "in_e s' = in_e s" "in_w s' = in_w s" "in_r s' = in_r s" "in_buf s' = in_buf s" "kbd_in s' = kbd_in s"
    "uart_in s' = uart_in s" "uart s' = uart s" "kbd_shift s' = kbd_shift s" "held s' = held s" "procs s' = procs s"
    "panicked s' = panicked s" "cons_locking s' = cons_locking s" "cur s' = cur s" "mem s' = mem s"
  by (subst assms [unfolded same_but_screen_def], simp)+

definition prints :: "('a cons_st_scheme \<Rightarrow> 'a cons_st_scheme res) \<Rightarrow> 'a cons_st_scheme \<Rightarrow> bool" where
  "prints f s \<longleftrightarrow> (\<exists>t. f s = Ok t \<and> same_but_screen s t \<and> screen_ok t \<and> (\<forall>i\<ge>24 * 80. crt t i = crt s i))"

lemma prints_cong: "f s = g s \<Longrightarrow> prints g s \<Longrightarrow> prints f s"
  by (simp add: prints_def)

lemma prints_consputc: "screen_ok s \<Longrightarrow> prints (consputc c) s"
proof -
  assume "screen_ok s"
  then obtain t where t: "consputc c s = Ok t" "screen_ok t" "\<forall>i\<ge>24 * 80. crt t i = crt s i"
    using consputc_ok by blast
  moreover have "same_but_screen s t"
  proof -
    obtain o' p m where "t = s\<lparr>uart_out := o', crt_pos := p, crt := m\<rparr>" using consputc_shape [OF t(1)] by blast
    then show ?thesis by (simp add: same_but_screen_def)
  qed
  ultimately show ?thesis by (auto simp: prints_def)
qed

lemma prints_Ok: "screen_ok s \<Longrightarrow> prints Ok s"
  by (simp add: prints_def)

lemma prints_then:
  assumes "prints f s" "\<And>t. screen_ok t \<Longrightarrow> same_but_screen s t \<Longrightarrow> prints g t"
  shows "prints (\<lambda>s. bnd (f s) g) s"
proof -
  obtain t where f: "f s = Ok t" "same_but_screen s t" "screen_ok t" "\<forall>i\<ge>24 * 80. crt t i = crt s i"
    using assms(1) by (auto simp: prints_def)
  then obtain u where "g t = Ok u" "same_but_screen t u" "screen_ok u" "\<forall>i\<ge>24 * 80. crt u i = crt t i"
    using assms(2) [OF f(3,2)] by (auto simp: prints_def)
  then show ?thesis using f same_but_screen_trans [OF f(2)] by (auto simp: prints_def)
qed

lemma prints_consputs: "screen_ok s \<Longrightarrow> prints (consputs xs) s"
proof (induction xs arbitrary: s)
  case Nil
  then show ?case using prints_Ok [of s] by (simp add: prints_def)
next
  case (Cons c xs)
  show ?case
    by (rule prints_cong [OF _ prints_then [OF prints_consputc [OF Cons.prems], of "consputs xs"]])
       (use Cons.IH in auto)
qed

text \<open>The arguments a format asks for.\<close>

fun args_fit :: "byte list \<Rightarrow> fmt_arg list \<Rightarrow> bool" where
  "args_fit [] args = True"
| "args_fit [c] args = True"
| "args_fit (c # d # fmt) args =
     (if c \<noteq> 37 then args_fit (d # fmt) args
      else if d = 100 \<or> d = 120 \<or> d = 112 then (case args of A_int _ # args \<Rightarrow> args_fit fmt args | _ \<Rightarrow> False)
      else if d = 115 then (case args of A_str _ # args \<Rightarrow> args_fit fmt args | _ \<Rightarrow> False)
      else args_fit fmt args)"

lemma prints_bnd:
  "f s = bnd (g s) h \<Longrightarrow> prints g s \<Longrightarrow> (\<And>t. screen_ok t \<Longrightarrow> same_but_screen s t \<Longrightarrow> prints h t) \<Longrightarrow> prints f s"
  by (rule prints_cong [OF _ prints_then]) auto

lemma prints_cprintf_loop:
  fixes s :: "'a cons_st_scheme"
  shows "screen_ok s \<Longrightarrow> args_fit fmt args \<Longrightarrow> prints (cprintf_loop fmt args) s"
proof (induction fmt args arbitrary: s rule: args_fit.induct)
  case (1 args)
  then show ?case using prints_Ok [of s] by (simp add: prints_def)
next
  case (2 c args)
  show ?case
  proof (cases "c = 37")
    case True
    then show ?thesis using prints_Ok [OF 2(1)] by (simp add: prints_def)
  next
    case False
    then show ?thesis using prints_consputc [OF 2(1), of "uint c"] by (cases "consputc (uint c) s") (auto simp: prints_def)
  qed
next
  case (3 c d fmt args)
  note ps = prints_consputs [OF 3(5)] and pc = prints_consputc [OF 3(5)]
  show ?case
  proof (cases "c = 37")
    case False
    show ?thesis
    proof (rule prints_bnd [OF _ pc])
      show "cprintf_loop (c # d # fmt) args s = bnd (consputc (uint c) s) (cprintf_loop (d # fmt) args)" using False by simp
      show "prints (cprintf_loop (d # fmt) args) t" if "screen_ok t" for t :: "'a cons_st_scheme"
        by (rule 3(1) [OF False that]) (use 3(6) False in simp)
    qed
  next
    case c: True
    consider (d) "d = 100" | (x) "d \<noteq> 100" "d = 120 \<or> d = 112" | (s) "d = 115" | (p) "d = 37"
      | (o) "d \<noteq> 100" "d \<noteq> 120" "d \<noteq> 112" "d \<noteq> 115" "d \<noteq> 37" by blast
    then show ?thesis
    proof cases
      case d
      then obtain n rest where a: "args = A_int n # rest" "args_fit fmt rest"
        using 3(6) c by (auto split: list.splits fmt_arg.splits)
      show ?thesis
        by (rule prints_bnd [where g = "printint n 10 True" and h = "cprintf_loop fmt rest"])
           (use c d a ps 3(2) in \<open>auto simp: printint_def\<close>)
    next
      case x
      then obtain n rest where a: "args = A_int n # rest" "args_fit fmt rest"
        using 3(6) c by (auto split: list.splits fmt_arg.splits)
      show ?thesis
        by (rule prints_bnd [where g = "printint n 16 False" and h = "cprintf_loop fmt rest"])
           (use c x a ps 3(2) in \<open>auto simp: printint_def\<close>)
    next
      case s
      then obtain p rest where a: "args = A_str p # rest" "args_fit fmt rest"
        using 3(6) c by (auto split: list.splits fmt_arg.splits)
      show ?thesis
        by (rule prints_bnd [where g = "consputs (chars (case p of None \<Rightarrow> null_str | Some t \<Rightarrow> t))"
              and h = "cprintf_loop fmt rest"]) (use c s a ps 3(3) in auto)
    next
      case p
      show ?thesis
        by (rule prints_bnd [where g = "consputc 37" and h = "cprintf_loop fmt args"])
           (use c p pc 3(4,6) in auto)
    next
      case o
      have g: "prints (\<lambda>s. bnd (consputc (uint d) s) (cprintf_loop fmt args)) t" if "screen_ok t" for t :: "'a cons_st_scheme"
        by (rule prints_then [OF prints_consputc [OF that]]) (use c o 3(4,6) in auto)
      have e: "cprintf_loop (c # d # fmt) args s = bnd (consputc 37 s) (\<lambda>s. bnd (consputc (uint d) s) (cprintf_loop fmt args))"
        using c o by simp
      show ?thesis by (rule prints_bnd, rule e, rule pc, rule g)
    qed
  qed
qed

text \<open>Code run under a lock that it takes and gives back.\<close>

lemma prints_locked:
  assumes "\<And>t. screen_ok t \<Longrightarrow> prints f t" "screen_ok s" "l \<notin> set (held s)"
  shows "prints (\<lambda>s. bnd (lock l s) (\<lambda>s. bnd (f s) (unlock l))) s"
proof -
  let ?s = "s\<lparr>held := l # held s\<rparr>"
  have "screen_ok ?s" using assms(2) by (simp add: screen_ok_def)
  then obtain t where t: "f ?s = Ok t" "same_but_screen ?s t" "screen_ok t" "\<forall>i\<ge>24 * 80. crt t i = crt s i"
    using assms(1) [of ?s] by (auto simp: prints_def)
  obtain o' p m where e: "t = s\<lparr>held := l # held s, uart_out := o', crt_pos := p, crt := m\<rparr>"
    using t(2) unfolding same_but_screen_def by metis
  let ?t = "t\<lparr>held := held s\<rparr>"
  have "bnd (lock l s) (\<lambda>s. bnd (f s) (unlock l)) = Ok ?t" using assms(3) t(1) by (simp add: e)
  moreover have "same_but_screen s ?t" by (simp add: e same_but_screen_def)
  moreover have "screen_ok ?t" "\<forall>i\<ge>24 * 80. crt ?t i = crt s i" using t(3,4) by (simp_all add: screen_ok_def)
  ultimately show ?thesis by (auto simp: prints_def)
qed

lemma prints_cprintf:
  assumes "screen_ok s" "args_fit fmt args" "cons_locking s \<longrightarrow> L_cons \<notin> set (held s)"
  shows "prints (cprintf fmt args) s"
proof (cases "cons_locking s")
  case True
  then show ?thesis
    using prints_locked [OF prints_cprintf_loop [OF _ assms(2)] assms(1), of L_cons] assms(3)
    by (intro prints_cong [of "cprintf fmt args"]) (auto simp: cprintf_def)
next
  case False
  then show ?thesis using prints_cprintf_loop [OF assms(1,2)] by (simp add: cprintf_def prints_def)
qed

definition cons_free :: "'a cons_st_scheme \<Rightarrow> bool" where
  "cons_free s \<longleftrightarrow> screen_ok s \<and> L_cons \<notin> set (held s)"

lemma cons_free_same: "cons_free s \<Longrightarrow> same_but_screen s t \<Longrightarrow> screen_ok t \<Longrightarrow> cons_free t"
  by (simp add: cons_free_def same_but_screenD(9))

lemma prints_cprintf': "cons_free s \<Longrightarrow> args_fit fmt args \<Longrightarrow> prints (cprintf fmt args) s"
  by (simp add: prints_cprintf cons_free_def)

lemma prints_print_pcs: "cons_free s \<Longrightarrow> prints (print_pcs pcs) s"
proof (induction pcs arbitrary: s)
  case Nil
  then show ?case using prints_Ok [of s] by (simp add: prints_def cons_free_def)
next
  case (Cons pc pcs)
  have fit: "args_fit (lit '' %p'') [A_int pc]" by (simp add: lit_def)
  show ?case
    by (rule prints_bnd [OF _ prints_cprintf' [OF Cons.prems fit], of _ "print_pcs pcs"])
       (use Cons.prems Cons.IH cons_free_same in auto)
qed

lemma prints_procdump_one:
  fixes s :: "'a cons_st_scheme"
  assumes "cons_free s"
  shows "prints (procdump_one p) s"
proof (cases "pstate p = UNUSED")
  case True
  then show ?thesis using prints_Ok [of s] assms by (simp add: procdump_one_def prints_def cons_free_def)
next
  case False
  let ?f = "cprintf (lit ''%d %s %s'') [A_int (of_int (pid p)), A_str (Some (state_name (pstate p))),
             A_str (Some (takeWhile (\<lambda>c. c \<noteq> 0) (pname p)))]"
  let ?g = "\<lambda>s. bnd (if pstate p = SLEEPING
           then print_pcs (takeWhile (\<lambda>pc. pc \<noteq> 0) (getcallerpcs (load32 (mem s)) (ctx_ebp (ctx p) + 8))) s
           else Ok s) (cprintf [10] [])"
  have f: "prints ?f s" by (rule prints_cprintf' [OF assms]) (simp add: lit_def)
  have g: "prints ?g t" if t: "screen_ok t" "same_but_screen s t" for t :: "'a cons_st_scheme"
  proof (rule prints_then)
    have cf: "cons_free t" using cons_free_same [OF assms] t by blast
    show "prints (\<lambda>s. if pstate p = SLEEPING
           then print_pcs (takeWhile (\<lambda>pc. pc \<noteq> 0) (getcallerpcs (load32 (mem s)) (ctx_ebp (ctx p) + 8))) s
           else Ok s) t"
      using prints_print_pcs [OF cf] prints_Ok [OF t(1)] by (auto simp: prints_def)
    show "prints (cprintf [10] []) u" if "screen_ok u" "same_but_screen t u" for u :: "'a cons_st_scheme"
      using cons_free_same [OF cf that(2,1)] by (rule prints_cprintf') simp
  qed
  have e: "procdump_one p s = bnd (?f s) (?g :: 'a cons_st_scheme \<Rightarrow> _)" using False by (simp only: procdump_one_def if_False)
  show ?thesis by (rule prints_bnd, rule e, rule f, rule g)
qed

lemma prints_procdump: "cons_free s \<Longrightarrow> prints procdump s"
proof -
  assume c: "cons_free s"
  have "cons_free s \<Longrightarrow> prints (procdump_loop ps) s" for ps
  proof (induction ps arbitrary: s)
    case Nil
    then show ?case using prints_Ok [of s] by (simp add: prints_def cons_free_def)
  next
    case (Cons p ps)
    show ?case
      by (rule prints_bnd [where g = "procdump_one p" and h = "procdump_loop ps"])
         (use prints_procdump_one [OF Cons.prems] Cons.prems Cons.IH cons_free_same in auto)
  qed
  from this [OF c] show ?thesis by (simp add: procdump_def prints_def)
qed

end
