(* ===== verification/Tty.thy ===== *)
theory Tty
  imports Console
begin

text \<open>
  The console input buffer as a line discipline. The concrete state is a ring of 128 bytes
  with three free-running counters; the specification is a pair of byte lists, the input
  that readers may take and the line that is still being edited.
\<close>

section \<open>Specification\<close>

type_synonym line_st = "byte list \<times> byte list"

definition ld_char :: "int \<Rightarrow> line_st \<Rightarrow> line_st" where
  "ld_char c = (\<lambda>(com, ed).
     if c = 16 \<or> c = 0 then (com, ed)
     else if c = 21 then (com, [])
     else if c = 8 \<or> c = 127 then (com, butlast ed)
     else if length com + length ed < INPUT_BUF then
       let c = (if c = 13 then 10 else word_of_int c); ed = ed @ [c] in
       if c = 10 \<or> c = 4 \<or> length com + length ed = INPUT_BUF then (com @ ed, []) else (com, ed)
     else (com, ed))"

text \<open>What a read of up to \<open>n\<close> bytes takes: the rest of the input, and the bytes delivered.\<close>

fun ld_read :: "nat \<Rightarrow> bool \<Rightarrow> byte list \<Rightarrow> byte list \<times> byte list" where
  "ld_read 0 first com = ([], com)"
| "ld_read (Suc n) first [] = ([], [])"
| "ld_read (Suc n) first (c # com) =
     (if c = 4 then ([], if first then com else c # com)
      else if c = 10 then ([c], com)
      else let (bs, com) = ld_read n False com in (c # bs, com))"

section \<open>Abstraction\<close>

definition ready :: "'a cons_st_scheme \<Rightarrow> byte list" where
  "ready s = ring_list (in_buf s) (in_r s) (unat (in_w s - in_r s))"

definition editing :: "'a cons_st_scheme \<Rightarrow> byte list" where
  "editing s = ring_list (in_buf s) (in_w s) (unat (in_e s - in_w s))"

definition line :: "'a cons_st_scheme \<Rightarrow> line_st" where
  "line s = (ready s, editing s)"

definition input_wf :: "'a cons_st_scheme \<Rightarrow> bool" where
  "input_wf s \<longleftrightarrow> length (in_buf s) = INPUT_BUF \<and> unat (in_w s - in_r s) + unat (in_e s - in_w s) \<le> INPUT_BUF"

text \<open>A newline ends the line, so the line being edited has none.\<close>

definition input_inv :: "'a cons_st_scheme \<Rightarrow> bool" where
  "input_inv s \<longleftrightarrow> input_wf s \<and> 10 \<notin> set (editing s)"

lemma unat_add_small: "unat (a :: u32) + unat b < 2 ^ 32 \<Longrightarrow> unat (a + b) = unat a + unat b"
  by (simp add: unat_word_ariths)

lemma input_size: "unat (in_e s - in_r s) = unat (in_w s - in_r s) + unat (in_e s - in_w s)" if "input_wf s"
proof -
  have "unat (in_w s - in_r s) + unat (in_e s - in_w s) < 2 ^ 32" using that by (simp add: input_wf_def INPUT_BUF_def)
  from unat_add_small [OF this] show ?thesis by (simp add: algebra_simps)
qed

lemma line_lengths: "length (ready s) = unat (in_w s - in_r s)" "length (editing s) = unat (in_e s - in_w s)"
  by (simp_all add: ready_def editing_def)

text \<open>The input buffer between its outer counters is a bounded queue of bytes.\<close>

definition input_all :: "'a cons_st_scheme \<Rightarrow> byte list" where
  "input_all s = ring_list (in_buf s) (in_r s) (unat (in_e s - in_r s))"

lemma input_all_line: "input_wf s \<Longrightarrow> input_all s = ready s @ editing s"
  by (simp add: input_all_def ready_def editing_def input_size ring_list_append)

definition input_ring :: "'a cons_st_scheme \<Rightarrow> bool" where
  "input_ring s \<longleftrightarrow> length (in_buf s) = INPUT_BUF"

lemma input_put_ring: "length (in_buf s) = INPUT_BUF \<Longrightarrow>
    input_put c s = s\<lparr>in_buf := ring_set (in_buf s) (in_e s) c, in_e := in_e s + 1\<rparr>"
  by (simp add: input_put_def ring_set_def)

lemma input_get_ring: "length (in_buf s) = INPUT_BUF \<Longrightarrow> input_get s = (ring_at (in_buf s) (in_r s), s\<lparr>in_r := in_r s + 1\<rparr>)"
  by (simp add: input_get_def ring_at_def)

interpretation cons_queue: byte_queue input_put input_get input_all INPUT_BUF input_ring
proof
  fix s :: "'a cons_st_scheme" and c
  assume s: "input_ring s"
  then have l: "length (in_buf s) = INPUT_BUF" by (simp add: input_ring_def)
  { assume n: "length (input_all s) < INPUT_BUF"
    show "input_ring (input_put c s)" using l by (simp add: input_ring_def input_put_ring)
    have "unat (in_e s - in_r s) < length (in_buf s)" using n l by (simp add: input_all_def)
    then show "input_all (input_put c s) = input_all s @ [c]"
      using ring_put [of "in_buf s" "in_e s" "in_r s" c] l by (simp add: input_all_def input_put_ring INPUT_BUF_def) }
  { assume ne: "input_all s \<noteq> []"
    show "input_ring (snd (input_get s))" using l by (simp add: input_ring_def input_get_ring)
    have "in_e s \<noteq> in_r s" using ne by (auto simp: input_all_def)
    then show "input_all s = fst (input_get s) # input_all (snd (input_get s))"
      using ring_get [of "in_e s" "in_r s" "in_buf s"] l by (simp add: input_all_def input_get_ring) }
qed

section \<open>Editing\<close>

lemma line_put:
  assumes "input_wf s" "length (ready s) + length (editing s) < INPUT_BUF"
  shows "input_wf (input_put c s)" "line (input_put c s) = (ready s, editing s @ [c])"
proof -
  have l: "length (in_buf s) = INPUT_BUF" using assms(1) by (simp add: input_wf_def)
  have "unat (in_e s - in_w s) < 128" using assms(2) by (simp add: line_lengths INPUT_BUF_def)
  then have e: "unat (in_e s + 1 - in_w s) = Suc (unat (in_e s - in_w s))" by (intro unat_diff_Suc) simp
  show wf: "input_wf (input_put c s)"
    using l e assms(2) by (simp add: input_wf_def input_put_ring line_lengths)
  have "length (input_all s) < INPUT_BUF" using assms(2) input_all_line [OF assms(1)] by simp
  then have "input_all (input_put c s) = input_all s @ [c]"
    using l by (intro cons_queue.put_contents) (simp_all add: input_ring_def)
  then have "ready (input_put c s) @ editing (input_put c s) = ready s @ editing s @ [c]"
    using input_all_line [OF wf] input_all_line [OF assms(1)] by simp
  moreover have "length (ready (input_put c s)) = length (ready s)"
    using l by (simp add: line_lengths input_put_ring)
  ultimately show "line (input_put c s) = (ready s, editing s @ [c])" by (simp add: line_def)
qed

lemma line_backspace:
  assumes "input_wf s" "in_e s \<noteq> in_w s"
  defines "t \<equiv> s\<lparr>in_e := in_e s - 1\<rparr>"
  shows "input_wf t" "line t = (ready s, butlast (editing s))" "editing s \<noteq> []"
    "last (editing s) = in_buf s ! (unat (in_e s - 1) mod INPUT_BUF)"
proof -
  have m: "unat (in_e s - 1 - in_w s) = unat (in_e s - in_w s) - 1"
    using assms(2) unat_minus_one [of "in_e s - in_w s"] by (simp add: algebra_simps)
  have "unat (in_e s - in_w s) \<noteq> 0" using assms(2) by (simp add: unat_eq_zero)
  then obtain n where n: "unat (in_e s - in_w s) = Suc n" using not0_implies_Suc by blast
  show "input_wf t" using assms(1) m by (auto simp: input_wf_def t_def)
  have "ring_list (in_buf s) (in_w s) (Suc n) = ring_list (in_buf s) (in_w s) n @ [ring_at (in_buf s) (in_w s + of_nat n)]"
    by (rule ring_list_snoc)
  then have e: "editing s = ring_list (in_buf s) (in_w s) n @ [ring_at (in_buf s) (in_w s + of_nat n)]"
    by (simp add: editing_def n)
  then show "editing s \<noteq> []" by simp
  show "line t = (ready s, butlast (editing s))"
    unfolding line_def using e m n by (simp add: t_def ready_def editing_def)
  have "in_w s + of_nat n = in_e s - 1"
  proof -
    have "(of_nat (Suc n) :: u32) = in_e s - in_w s" using arg_cong [OF n, of "of_nat :: nat \<Rightarrow> u32"] by simp
    then show ?thesis by (simp add: algebra_simps eq_diff_eq)
  qed
  then show "last (editing s) = in_buf s ! (unat (in_e s - 1) mod INPUT_BUF)"
    using e assms(1) by (simp add: ring_at_def input_wf_def)
qed

lemma line_cong:
  "in_buf t = in_buf s \<Longrightarrow> in_r t = in_r s \<Longrightarrow> in_w t = in_w s \<Longrightarrow> in_e t = in_e s \<Longrightarrow>
   line t = line s \<and> input_wf t = input_wf s"
  by (simp add: line_def ready_def editing_def input_wf_def)

lemma same_but_screen_upd:
  "same_but_screen (s\<lparr>in_e := e\<rparr>) t \<Longrightarrow> same_but_screen (s\<lparr>in_e := e'\<rparr>) (t\<lparr>in_e := e'\<rparr>)"
proof -
  assume "same_but_screen (s\<lparr>in_e := e\<rparr>) t"
  then obtain a b c where "t = s\<lparr>in_e := e, uart_out := a, crt_pos := b, crt := c\<rparr>"
    unfolding same_but_screen_def by metis
  then show ?thesis by (simp add: same_but_screen_def)
qed

lemma kill_line_ok:
  assumes "input_inv s" "screen_ok s"
  shows "returns (kill_line s) (\<lambda>t. same_but_screen (s\<lparr>in_e := in_w s\<rparr>) t \<and> screen_ok t)"
  using assms
proof (induction s rule: kill_line.induct)
  case (1 s)
  show ?case
  proof (cases "in_e s = in_w s")
    case True
    have "s\<lparr>in_e := in_w s\<rparr> = s" unfolding True [symmetric] by simp
    then have "same_but_screen (s\<lparr>in_e := in_w s\<rparr>) s" by simp
    then show ?thesis using 1(3) True by (subst kill_line.simps) simp
  next
    case False
    have wf: "input_wf s" using 1(2) by (simp add: input_inv_def)
    note b = line_backspace [OF wf False]
    have "last (editing s) \<noteq> 10" using b(3) 1(2) last_in_set by (fastforce simp: input_inv_def)
    then have c: "in_e s \<noteq> in_w s \<and> in_buf s ! (unat (in_e s - 1) mod INPUT_BUF) \<noteq> 10" using b(4) False by simp
    let ?s = "s\<lparr>in_e := in_e s - 1\<rparr>"
    have sc: "screen_ok ?s" using 1(3) by (simp add: screen_ok_def)
    then obtain t where t: "consputc BACKSPACE ?s = Ok t" "same_but_screen ?s t" "screen_ok t"
      using prints_consputc [OF sc, of BACKSPACE] by (auto simp: prints_def)
    have lt: "line t = line ?s" "input_wf t = input_wf ?s"
      using line_cong [of t ?s] same_but_screenD [OF t(2)] by simp_all
    have "input_inv t"
      using lt b(1,2) 1(2) by (auto simp: input_inv_def line_def dest: in_set_butlastD)
    then have r: "returns (kill_line t) (\<lambda>u. same_but_screen (t\<lparr>in_e := in_w t\<rparr>) u \<and> screen_ok u)"
      using 1(1) [OF c t(1)] t(3) by blast
    have w: "in_w t = in_w s" using same_but_screenD(2) [OF t(2)] by simp
    have "same_but_screen (s\<lparr>in_e := in_w s\<rparr>) (t\<lparr>in_e := in_w s\<rparr>)" by (rule same_but_screen_upd [OF t(2)])
    then have "returns (kill_line t) (\<lambda>u. same_but_screen (s\<lparr>in_e := in_w s\<rparr>) u \<and> screen_ok u)"
      using r w by (auto elim!: returns_mono intro: same_but_screen_trans)
    then show ?thesis using c t(1) by (subst kill_line.simps) simp
  qed
qed

text \<open>What an interrupt handler may touch besides the input buffer: the screen, the serial port and who is awake.\<close>

definition intr_frame :: "'a cons_st_scheme \<Rightarrow> 'a cons_st_scheme \<Rightarrow> bool" where
  "intr_frame s t \<longleftrightarrow> held t = held s \<and> kbd_in t = kbd_in s \<and> uart_in t = uart_in s \<and> uart t = uart s \<and>
     kbd_shift t = kbd_shift s \<and> mem t = mem s \<and> cur t = cur s"

lemma intr_frame_same: "same_but_screen s t \<Longrightarrow> intr_frame s t"
  by (simp add: intr_frame_def same_but_screenD)

lemma wakeup_input:
  assumes "L_ptable \<notin> set (held s)" "screen_ok s"
  obtains t where "wakeup Ch_input s = Ok t" "line t = line s" "input_wf t = input_wf s" "intr_frame s t" "screen_ok t"
proof -
  let ?t = "s\<lparr>procs := map (\<lambda>p. if pstate p = SLEEPING \<and> pchan p = Some Ch_input then p\<lparr>pstate := RUNNABLE\<rparr> else p) (procs s)\<rparr>"
  have "wakeup Ch_input s = Ok ?t" using assms(1) by (simp add: wakeup_def wakeup1_def)
  moreover have "line ?t = line s \<and> input_wf ?t = input_wf s" by (rule line_cong) simp_all
  moreover have "intr_frame s ?t" "screen_ok ?t" using assms(2) by (simp_all add: intr_frame_def screen_ok_def)
  ultimately show thesis using that by blast
qed

lemma byte_of_char:
  assumes "0 \<le> k" "k < 256" "0 \<le> c" "c < 256"
  shows "(word_of_int c :: byte) = word_of_int k \<longleftrightarrow> c = k"
proof
  assume "(word_of_int c :: byte) = word_of_int k"
  then have "uint (word_of_int c :: byte) = uint (word_of_int k :: byte)" by simp
  then show "c = k" using assms by (simp only: uint_word_of_int) simp
qed simp

definition intr_ok :: "'a cons_st_scheme \<Rightarrow> bool" where
  "intr_ok s \<longleftrightarrow> cons_free s \<and> L_ptable \<notin> set (held s) \<and> input_inv s"

lemma console_char_put:
  assumes s: "intr_ok s" and c: "0 < c" "c < 256" "c \<noteq> 13" and room: "length (ready s) + length (editing s) < INPUT_BUF"
  shows "returns (bnd (consputc c (input_put (word_of_int c) s)) (\<lambda>s.
        if c = 10 \<or> c = 4 \<or> in_e s = in_r s + of_nat INPUT_BUF
        then wakeup Ch_input (s\<lparr>in_w := in_e s\<rparr>) else Ok s))
     (\<lambda>t. intr_frame s t \<and> intr_ok t \<and> line t =
        (let ed = editing s @ [word_of_int c] in
         if c = 10 \<or> c = 4 \<or> length (ready s) + length ed = INPUT_BUF
         then (ready s @ ed, []) else (ready s, ed)))"
proof -
  have wf: "input_wf s" "screen_ok s" "L_cons \<notin> set (held s)" "L_ptable \<notin> set (held s)" "10 \<notin> set (editing s)"
    using s by (auto simp: intr_ok_def cons_free_def input_inv_def)
  let ?u = "input_put (word_of_int c) s" and ?ed = "editing s @ [word_of_int c]"
  note u = line_put [OF wf(1) room, of "word_of_int c"]
  have fu: "intr_frame s ?u" by (simp add: intr_frame_def input_put_def)
  have "screen_ok ?u" using wf(2) by (simp add: screen_ok_def input_put_def)
  then obtain t where t: "consputc c ?u = Ok t" "same_but_screen ?u t" "screen_ok t"
    using prints_consputc [of ?u c] by (auto simp: prints_def)
  have lt: "line t = (ready s, ?ed)" "input_wf t"
    using line_cong [of t ?u] same_but_screenD [OF t(2)] u by simp_all
  then have ct: "ready t = ready s" "editing t = ?ed" by (simp_all add: line_def)
  have ft: "intr_frame s t" using intr_frame_same [OF t(2)] fu by (simp add: intr_frame_def)
  then have ht: "held t = held s" by (simp add: intr_frame_def)
  have full: "in_e t = in_r t + of_nat INPUT_BUF \<longleftrightarrow> length (ready s) + length ?ed = INPUT_BUF"
  proof -
    have "unat (in_e t - in_r t) = length (ready s) + length ?ed"
      using input_size [OF lt(2)] ct by (metis line_lengths)
    moreover have "in_e t = in_r t + of_nat INPUT_BUF \<longleftrightarrow> unat (in_e t - in_r t) = INPUT_BUF"
      using unat_eq_of_nat32 [of INPUT_BUF "in_e t - in_r t"] by (auto simp: INPUT_BUF_def diff_eq_eq add.commute)
    ultimately show ?thesis by simp
  qed
  show ?thesis
  proof (cases "c = 10 \<or> c = 4 \<or> length (ready s) + length ?ed = INPUT_BUF")
    case True
    let ?w = "t\<lparr>in_w := in_e t\<rparr>"
    have "input_all t = ready s @ ?ed" using input_all_line [OF lt(2)] ct by simp
    then have lw: "line ?w = (ready s @ ?ed, [])" by (simp add: line_def ready_def editing_def input_all_def)
    have ww: "input_wf ?w" using lt(2) input_size [OF lt(2)] by (simp add: input_wf_def)
    have "L_ptable \<notin> set (held ?w)" "screen_ok ?w" using ht wf(4) t(3) by (simp_all add: screen_ok_def)
    then obtain v where v: "wakeup Ch_input ?w = Ok v" "line v = line ?w" "input_wf v = input_wf ?w" "intr_frame ?w v" "screen_ok v"
      using wakeup_input by blast
    have fv: "intr_frame s v" using v(4) ft by (simp add: intr_frame_def)
    have "editing v = []" using v(2) lw by (simp add: line_def)
    then have "intr_ok v"
      using v(3,5) ww fv wf(3,4) by (simp add: intr_ok_def cons_free_def input_inv_def intr_frame_def)
    then show ?thesis using t(1) True full v(1,2) lw fv by (simp add: Let_def)
  next
    case False
    have "intr_ok t"
      using lt(2) t(3) ht wf(3-5) ct False c byte_of_char [of 10 c]
      by (simp add: intr_ok_def cons_free_def input_inv_def)
    then show ?thesis using t(1) False full lt(1) ft by (simp add: Let_def)
  qed
qed

lemma console_char_ok:
  assumes s: "intr_ok s" and c: "0 \<le> c" "c < 256"
  shows "returns (console_char c s) (\<lambda>t. intr_frame s t \<and> intr_ok t \<and> line t = ld_char c (line s))"
proof -
  have i: "cons_free s" "screen_ok s" "input_wf s" "input_inv s" "L_ptable \<notin> set (held s)" "L_cons \<notin> set (held s)"
    using s by (auto simp: intr_ok_def cons_free_def input_inv_def)
  have same: "intr_frame s t \<and> intr_ok t \<and> line t = line s" if "same_but_screen s t" "screen_ok t" for t
    using that i line_cong [of t s] same_but_screenD [OF that(1)] intr_frame_same [OF that(1)]
    by (auto simp: intr_ok_def input_inv_def cons_free_def line_def)
  have le: "line s = (ready s, editing s)" by (simp add: line_def)
  consider (dump) "c = 16" | (kill) "c = 21" | (bs) "c = 8 \<or> c = 127" | (nul) "c = 0"
    | (ch) "c \<noteq> 16" "c \<noteq> 21" "c \<noteq> 8" "c \<noteq> 127" "c \<noteq> 0" by blast
  then show ?thesis
  proof cases
    case dump
    then show ?thesis using prints_procdump [OF i(1)] same le
      by (auto simp: console_char_def prints_def ld_char_def)
  next
    case kill
    have k: "returns (kill_line s) (\<lambda>t. same_but_screen (s\<lparr>in_e := in_w s\<rparr>) t \<and> screen_ok t)"
      by (rule kill_line_ok [OF i(4,2)])
    have "intr_frame s t \<and> intr_ok t \<and> line t = (ready s, [])"
      if t: "same_but_screen (s\<lparr>in_e := in_w s\<rparr>) t" "screen_ok t" for t
    proof -
      note d = same_but_screenD [OF t(1)]
      have "line t = (ready s, [])" using d by (simp add: line_def ready_def editing_def)
      moreover have "input_wf t" using i(3) d by (simp add: input_wf_def)
      moreover have "intr_frame s t" using d by (simp add: intr_frame_def)
      ultimately show ?thesis using t(2) i(5,6) d by (simp add: intr_ok_def cons_free_def input_inv_def line_def)
    qed
    then show ?thesis using k kill le by (auto simp: console_char_def ld_char_def elim!: returns_mono)
  next
    case bs
    show ?thesis
    proof (cases "in_e s = in_w s")
      case True
      then have "editing s = []" by (simp add: editing_def)
      then show ?thesis using same [of s] i(2) bs True le by (auto simp: console_char_def ld_char_def)
    next
      case False
      let ?u = "s\<lparr>in_e := in_e s - 1\<rparr>"
      note b = line_backspace [OF i(3) False]
      have "screen_ok ?u" using i(2) by (simp add: screen_ok_def)
      then obtain t where t: "consputc BACKSPACE ?u = Ok t" "same_but_screen ?u t" "screen_ok t"
        using prints_consputc [of ?u BACKSPACE] by (auto simp: prints_def)
      note d = same_but_screenD [OF t(2)]
      have lt: "line t = (ready s, butlast (editing s))" "input_wf t"
        using line_cong [of t ?u] d b(1,2) by simp_all
      moreover have "intr_frame s t" using d by (simp add: intr_frame_def)
      moreover have "10 \<notin> set (editing t)" using lt(1) i(4) by (auto simp: line_def input_inv_def dest: in_set_butlastD)
      ultimately show ?thesis
        using bs False t(1,3) d i(5,6) le
        by (auto simp: console_char_def ld_char_def intr_ok_def cons_free_def input_inv_def)
    qed
  next
    case nul
    then show ?thesis using same [of s] i(2) le by (auto simp: console_char_def ld_char_def)
  next
    case ch
    let ?c = "if c = 13 then 10 else c"
    have cc: "0 < ?c" "?c < 256" "?c \<noteq> 13" using ch c by auto
    have w: "(if c = 13 then 10 else word_of_int c) = (word_of_int ?c :: byte)" by simp
    have eq: "(word_of_int ?c :: byte) = 10 \<longleftrightarrow> ?c = 10" "(word_of_int ?c :: byte) = 4 \<longleftrightarrow> ?c = 4"
      using byte_of_char [of 10 ?c] byte_of_char [of 4 ?c] cc by simp_all
    have sz: "in_e s - in_r s < of_nat INPUT_BUF \<longleftrightarrow> length (ready s) + length (editing s) < INPUT_BUF"
      using input_size [OF i(3)] by (simp add: word_less_nat_alt line_lengths INPUT_BUF_def)
    show ?thesis
    proof (cases "length (ready s) + length (editing s) < INPUT_BUF")
      case True
      have "console_char c s = bnd (consputc ?c (input_put (word_of_int ?c) s)) (\<lambda>s.
        if ?c = 10 \<or> ?c = 4 \<or> in_e s = in_r s + of_nat INPUT_BUF
        then wakeup Ch_input (s\<lparr>in_w := in_e s\<rparr>) else Ok s)"
        using ch sz True by (simp add: console_char_def Let_def)
      moreover have "ld_char c (line s) = (let ed = editing s @ [word_of_int ?c] in
         if ?c = 10 \<or> ?c = 4 \<or> length (ready s) + length ed = INPUT_BUF
         then (ready s @ ed, []) else (ready s, ed))"
        using ch True le unfolding ld_char_def w Let_def eq by simp
      ultimately show ?thesis using console_char_put [OF s cc True] by simp
    next
      case False
      then show ?thesis using ch sz same [of s] i(2) le by (simp add: console_char_def ld_char_def)
    qed
  qed
qed

section \<open>Interrupts\<close>

definition dev_same :: "'a cons_st_scheme \<Rightarrow> 'a cons_st_scheme \<Rightarrow> bool" where
  "dev_same s t \<longleftrightarrow> kbd_in t = kbd_in s \<and> uart_in t = uart_in s \<and> uart t = uart s \<and> kbd_shift t = kbd_shift s"

lemma dev_same_intr: "intr_frame s t \<Longrightarrow> dev_same s t"
  by (simp add: intr_frame_def dev_same_def)

text \<open>
  A character device as \<open>consoleintr\<close> uses it: \<open>pending\<close> are the characters it will deliver
  before it reports that there are no more.
\<close>

locale char_device =
  fixes getc :: "'a cons_st_scheme \<Rightarrow> int \<times> 'a cons_st_scheme"
    and pending :: "'a cons_st_scheme \<Rightarrow> int list"
  assumes getc_none: "pending s = [] \<Longrightarrow> getc s = (-1, s)"
    and getc_char: "pending s = c # rest \<Longrightarrow> fst (getc s) = c \<and> 0 \<le> c \<and> c < 256 \<and> pending (snd (getc s)) = rest"
    and getc_line: "line (snd (getc s)) = line s" "intr_ok s \<Longrightarrow> intr_ok (snd (getc s))" "held (snd (getc s)) = held s"
    and pending_same: "dev_same s t \<Longrightarrow> pending t = pending s"
begin

lemma intr_loop_ok:
  "intr_ok s \<Longrightarrow> length (pending s) < n \<Longrightarrow> returns (intr_loop n getc s)
     (\<lambda>t. pending t = [] \<and> intr_ok t \<and> held t = held s \<and> line t = fold ld_char (pending s) (line s))"
proof (induction n arbitrary: s)
  case (Suc n)
  show ?case
  proof (cases "pending s")
    case Nil
    then show ?thesis using getc_none Suc.prems by simp
  next
    case (Cons c rest)
    obtain u where g: "getc s = (c, u)" "0 \<le> c" "c < 256" "pending u = rest"
      using getc_char [OF Cons] by (metis prod.collapse)
    have u: "line u = line s" "intr_ok u" "held u = held s"
      using getc_line [of s] Suc.prems(1) g(1) by simp_all
    have "returns (bnd (console_char c u) (intr_loop n getc))
      (\<lambda>t. pending t = [] \<and> intr_ok t \<and> held t = held s \<and> line t = fold ld_char (pending s) (line s))"
    proof (rule returns_bndI [OF console_char_ok [OF u(2) g(2,3)]])
      fix v assume v: "intr_frame u v \<and> intr_ok v \<and> line v = ld_char c (line u)"
      then have p: "pending v = rest" using pending_same [OF dev_same_intr] g(4) by blast
      have "length (pending v) < n" using Suc.prems(2) Cons p by simp
      then show "returns (intr_loop n getc v)
          (\<lambda>t. pending t = [] \<and> intr_ok t \<and> held t = held s \<and> line t = fold ld_char (pending s) (line s))"
        using Suc.IH [of v] v u Cons p by (auto simp: intr_frame_def elim!: returns_mono)
    qed
    then show ?thesis using g by simp
  qed
qed simp

lemma consoleintr_ok:
  assumes "intr_ok s" "L_input \<notin> set (held s)" "length (pending s) < n"
  shows "returns (consoleintr n getc s)
     (\<lambda>t. pending t = [] \<and> intr_ok t \<and> held t = held s \<and> line t = fold ld_char (pending s) (line s))"
proof -
  let ?s = "s\<lparr>held := L_input # held s\<rparr>"
  have lk: "line (t\<lparr>held := h\<rparr>) = line t" "input_wf (t\<lparr>held := h\<rparr>) = input_wf t"
    for t :: "'a cons_st_scheme" and h
    using line_cong [of "t\<lparr>held := h\<rparr>" t] by simp_all
  have pl: "pending (t\<lparr>held := h\<rparr>) = pending t" for t h
    by (rule pending_same) (simp add: dev_same_def)
  have il: "intr_ok (t\<lparr>held := h\<rparr>)" if "intr_ok t" "set h \<subseteq> insert L_input (set (held t))"
    for t :: "'a cons_st_scheme" and h
    using that lk
    by (auto simp: intr_ok_def cons_free_def screen_ok_def input_inv_def line_def)
  have ok: "intr_ok ?s" by (rule il [OF assms(1)]) simp
  have "returns (bnd (intr_loop n getc ?s) (unlock L_input))
     (\<lambda>t. pending t = [] \<and> intr_ok t \<and> held t = held s \<and> line t = fold ld_char (pending s) (line s))"
  proof (rule returns_bndI [OF intr_loop_ok [OF ok]])
    show "length (pending ?s) < n" using assms(3) pl by simp
    fix t assume t: "pending t = [] \<and> intr_ok t \<and> held t = held ?s \<and> line t = fold ld_char (pending ?s) (line ?s)"
    then have "unlock L_input t = Ok (t\<lparr>held := held s\<rparr>)" by simp
    moreover have "intr_ok (t\<lparr>held := held s\<rparr>)" by (rule il) (use t in auto)
    ultimately show "returns (unlock L_input t)
       (\<lambda>t. pending t = [] \<and> intr_ok t \<and> held t = held s \<and> line t = fold ld_char (pending s) (line s))"
      using t pl lk by simp
  qed
  then show ?thesis using assms(2) by (simp add: consoleintr_def)
qed

end

text \<open>The keyboard and the serial port are such devices.\<close>

fun kbd_chars :: "byte \<Rightarrow> byte list \<Rightarrow> int list" where
  "kbd_chars shift [] = []"
| "kbd_chars shift (d # ds) = fst (kbd_decode d shift) # kbd_chars (snd (kbd_decode d shift)) ds"

lemma length_kbd_chars [simp]: "length (kbd_chars shift ds) = length ds"
  by (induction ds arbitrary: shift) auto

lemma kbd_decode_range: "0 \<le> fst (kbd_decode d shift) \<and> fst (kbd_decode d shift) < 256"
proof -
  have "uint (c :: byte) < 256" for c using uint_lt2p [of c] by simp
  then show ?thesis by (simp add: kbd_decode_def Let_def split_def)
qed

lemma intr_ok_cong:
  "in_buf t = in_buf s \<Longrightarrow> in_r t = in_r s \<Longrightarrow> in_w t = in_w s \<Longrightarrow> in_e t = in_e s \<Longrightarrow> held t = held s \<Longrightarrow>
   panicked t = panicked s \<Longrightarrow> crt_pos t = crt_pos s \<Longrightarrow> intr_ok t = intr_ok s"
  using line_cong [of t s] by (simp add: intr_ok_def cons_free_def screen_ok_def input_inv_def line_def)

interpretation kbd: char_device kbdgetc "\<lambda>s. kbd_chars (kbd_shift s) (kbd_in s)"
proof
  fix s t :: "'a cons_st_scheme" and c rest
  show "kbd_chars (kbd_shift s) (kbd_in s) = [] \<Longrightarrow> kbdgetc s = (-1, s)"
    by (cases "kbd_in s") (auto simp: kbdgetc_def)
  show "fst (kbdgetc s) = c \<and> 0 \<le> c \<and> c < 256 \<and> kbd_chars (kbd_shift (snd (kbdgetc s))) (kbd_in (snd (kbdgetc s))) = rest"
    if "kbd_chars (kbd_shift s) (kbd_in s) = c # rest"
    using that kbd_decode_range by (cases "kbd_in s") (auto simp: kbdgetc_def Let_def split_def)
  have k: "in_buf (snd (kbdgetc s)) = in_buf s" "in_r (snd (kbdgetc s)) = in_r s" "in_w (snd (kbdgetc s)) = in_w s"
    "in_e (snd (kbdgetc s)) = in_e s" "held (snd (kbdgetc s)) = held s" "panicked (snd (kbdgetc s)) = panicked s"
    "crt_pos (snd (kbdgetc s)) = crt_pos s"
    by (cases "kbd_in s"; simp add: kbdgetc_def Let_def split_def)+
  then show "line (snd (kbdgetc s)) = line s" "held (snd (kbdgetc s)) = held s"
    using line_cong [of "snd (kbdgetc s)" s] by auto
  show "intr_ok (snd (kbdgetc s))" if "intr_ok s" using k that intr_ok_cong [of "snd (kbdgetc s)" s] by auto
  show "kbd_chars (kbd_shift t) (kbd_in t) = kbd_chars (kbd_shift s) (kbd_in s)" if "dev_same s t"
    using that by (simp add: dev_same_def)
qed

interpretation uart: char_device uartgetc "\<lambda>s. if uart s then map uint (uart_in s) else []"
proof
  fix s t :: "'a cons_st_scheme" and c rest
  show "(if uart s then map uint (uart_in s) else []) = [] \<Longrightarrow> uartgetc s = (-1, s)"
    by (cases "uart_in s") (auto simp: uartgetc_def split: if_splits)
  have "uint (c :: byte) < 256" for c using uint_lt2p [of c] by simp
  then show "fst (uartgetc s) = c \<and> 0 \<le> c \<and> c < 256 \<and>
      (if uart (snd (uartgetc s)) then map uint (uart_in (snd (uartgetc s))) else []) = rest"
    if "(if uart s then map uint (uart_in s) else []) = c # rest"
    using that by (cases "uart_in s") (auto simp: uartgetc_def split: if_splits)
  have k: "in_buf (snd (uartgetc s)) = in_buf s" "in_r (snd (uartgetc s)) = in_r s" "in_w (snd (uartgetc s)) = in_w s"
    "in_e (snd (uartgetc s)) = in_e s" "held (snd (uartgetc s)) = held s" "panicked (snd (uartgetc s)) = panicked s"
    "crt_pos (snd (uartgetc s)) = crt_pos s"
    by (cases "uart_in s"; simp add: uartgetc_def)+
  then show "line (snd (uartgetc s)) = line s" "held (snd (uartgetc s)) = held s"
    using line_cong [of "snd (uartgetc s)" s] by auto
  show "intr_ok (snd (uartgetc s))" if "intr_ok s" using k that intr_ok_cong [of "snd (uartgetc s)" s] by auto
  show "(if uart t then map uint (uart_in t) else []) = (if uart s then map uint (uart_in s) else [])" if "dev_same s t"
    using that by (simp add: dev_same_def)
qed

text \<open>C22: the keyboard interrupt handler takes every pending scan code and returns, and it implements the line
  discipline: afterwards the input that readers may take and the line being edited are what the
  specification makes of the decoded characters (backspace, kill line, commit on newline, end of file or a full
  buffer). No counter wrap, echo or process listing disturbs this.\<close>

theorem kbdintr_implements_line_discipline:
  assumes "intr_ok s" "L_input \<notin> set (held s)"
  shows "returns (kbdintr s) (\<lambda>t. kbd_in t = [] \<and> intr_ok t \<and> held t = held s \<and>
     line t = fold ld_char (kbd_chars (kbd_shift s) (kbd_in s)) (line s))"
  unfolding kbdintr_def
  by (rule returns_mono [OF kbd.consoleintr_ok [OF assms]])
     (auto simp: length_0_conv [symmetric] simp del: length_0_conv)

section \<open>Reading\<close>

text \<open>Enough input that a read of \<open>n\<close> bytes need not wait.\<close>

definition readable_now :: "nat \<Rightarrow> byte list \<Rightarrow> bool" where
  "readable_now n com \<longleftrightarrow> n \<le> length com \<or> (\<exists>c\<in>set (take n com). c = 4 \<or> c = 10)"

lemma ready_get:
  assumes "input_wf s" "ready s = c # rest"
  shows "in_r s \<noteq> in_w s" "input_get s = (c, s\<lparr>in_r := in_r s + 1\<rparr>)" "ready (s\<lparr>in_r := in_r s + 1\<rparr>) = rest"
    "input_wf (s\<lparr>in_r := in_r s + 1\<rparr>)"
proof -
  show ne: "in_r s \<noteq> in_w s" using assms(2) by (auto simp: ready_def)
  have "ready s = ring_at (in_buf s) (in_r s) # ready (s\<lparr>in_r := in_r s + 1\<rparr>)"
    using ring_get [of "in_w s" "in_r s" "in_buf s"] ne by (simp add: ready_def)
  then show "input_get s = (c, s\<lparr>in_r := in_r s + 1\<rparr>)" "ready (s\<lparr>in_r := in_r s + 1\<rparr>) = rest"
    using assms by (auto simp: input_get_ring input_wf_def)
  show "input_wf (s\<lparr>in_r := in_r s + 1\<rparr>)"
    using assms(1) unat_diff_pred [of "in_w s" "in_r s"] ne by (auto simp: input_wf_def)
qed

lemma consoleread_loop_ok:
  assumes "input_wf s" "readable_now n (ready s)"
  shows "consoleread_loop n first (s, env) =
     Ok ((True, fst (ld_read n first (ready s))),
         s\<lparr>in_r := in_r s + of_nat (length (ready s) - length (snd (ld_read n first (ready s))))\<rparr>, env)"
  using assms
proof (induction n arbitrary: first s)
  case (Suc n)
  obtain c rest where r: "ready s = c # rest" using Suc.prems(2) by (cases "ready s") (auto simp: readable_now_def)
  note g = ready_get [OF Suc.prems(1) r]
  let ?t = "s\<lparr>in_r := in_r s + 1\<rparr>"
  have w: "input_wait (s, env) = Ok (True, s, env)" using g(1) by (simp add: input_wait.simps)
  have run: "consoleread_loop (Suc n) first (s, env) =
    (if c = 4 then thn (whenp (\<not> first) (modify (\<lambda>s. s\<lparr>in_r := in_r s - 1\<rparr>))) (\<lambda>_. ret (True, [])) (?t, env)
     else if c = 10 then Ok ((True, [c]), ?t, env)
     else thn (consoleread_loop n False) (\<lambda>(alive, bs). ret (alive, c # bs)) (?t, env))"
    using w g(2) by (simp add: thn_run)
  have le: "length (snd (ld_read n f com)) \<le> length com" for n f com
    by (induction n f com rule: ld_read.induct) (auto simp: split_def Let_def le_SucI)
  show ?case
  proof (cases "c = 4 \<or> c = 10")
    case True
    then show ?thesis using run r by (cases first) auto
  next
    case False
    have n: "readable_now n (ready ?t)" using Suc.prems(2) False r g(3) by (auto simp: readable_now_def)
    have l: "length (ready ?t) - length (snd (ld_read n False (ready ?t))) + 1 =
       length (ready s) - length (snd (ld_read (Suc n) first (ready s)))"
      using False r g(3) le [of n False rest] by (simp add: split_def Let_def Suc_diff_le)
    show ?thesis
      using run False r g(3) Suc.IH [OF g(4) n, of False] l [symmetric]
      by (simp add: thn_run split_def Let_def algebra_simps)
  qed
qed simp

lemma ld_read_suffix: "\<exists>k \<le> length com. snd (ld_read n f com) = drop k com"
proof (induction n f com rule: ld_read.induct)
  case (3 n first c com)
  show ?case
  proof (cases "c = 4 \<or> c = 10")
    case True
    then show ?thesis by (auto intro: exI [of _ 0] exI [of _ "Suc 0"])
  next
    case False
    then obtain k where "k \<le> length com" "snd (ld_read n False com) = drop k com" using 3 by blast
    then show ?thesis using False by (intro exI [of _ "Suc k"]) (simp add: split_def Let_def)
  qed
qed auto

lemma ready_advance:
  assumes "input_wf s" "k \<le> length (ready s)"
  shows "ready (s\<lparr>in_r := in_r s + of_nat k\<rparr>) = drop k (ready s) \<and> input_wf (s\<lparr>in_r := in_r s + of_nat k\<rparr>)"
  using assms(2)
proof (induction k)
  case (Suc k)
  let ?u = "s\<lparr>in_r := in_r s + of_nat k\<rparr>"
  have u: "ready ?u = drop k (ready s)" "input_wf ?u" using Suc by auto
  have "ready ?u = ready s ! k # drop (Suc k) (ready s)" using u(1) Suc.prems by (simp add: Cons_nth_drop_Suc Suc_le_eq)
  from ready_get(3,4) [OF u(2) this] show ?case by (simp add: algebra_simps)
qed (simp add: assms(1))

definition locked_inode :: "nat \<Rightarrow> 'a fs_st_scheme \<Rightarrow> bool" where
  "locked_inode i s \<longleftrightarrow> i < length (icache s) \<and> i_busy (icache s ! i) \<and> i_valid (icache s ! i) \<and> 1 \<le> i_ref (icache s ! i)"

text \<open>C23: reading the console when the input is there takes exactly what the line discipline delivers: at most \<open>n\<close> bytes,
  up to and including the first newline, stopping before an end-of-file character, which is itself consumed only by a
  read that returns no bytes. The rest stays for the next reader, and the caller holds its inode lock again.\<close>

theorem consoleread_returns_line:
  assumes "input_wf s" "readable_now (nat n) (ready s)" "locked_inode ip s" "held s = []"
  shows "returns (consoleread ip n (s, env)) (\<lambda>((r, bs), t, env'). env' = env \<and> r = int (length bs) \<and>
     (bs, ready t) = ld_read (nat n) True (ready s) \<and> editing t = editing s \<and> locked_inode ip t \<and> held t = [] \<and> input_wf t)"
proof -
  have ip: "ip < length (icache s)" "i_busy (icache s ! ip)" "i_valid (icache s ! ip)" "1 \<le> i_ref (icache s ! ip)"
    using assms(3) by (auto simp: locked_inode_def)
  let ?m = "map (\<lambda>p. if pstate p = SLEEPING \<and> pchan p = Some (Ch_inode ip) then p\<lparr>pstate := RUNNABLE\<rparr> else p) (procs s)"
  let ?ip = "(icache s ! ip)\<lparr>i_busy := False\<rparr>"
  let ?u = "s\<lparr>icache := (icache s)[ip := ?ip], procs := ?m\<rparr>"
  have un: "iunlock ip s = Ok ?u"
    using ip assms(4) by (simp add: iunlock_def wakeup_def wakeup1_def upd_inode_def)
  let ?l = "?u\<lparr>held := [L_input]\<rparr>"
  obtain bs rest where ld: "ld_read (nat n) True (ready s) = (bs, rest)" by fastforce
  define k where "k = length (ready s) - length rest"
  have cl: "ready ?l = ready s" "input_wf ?l" using assms(1) by (simp_all add: ready_def input_wf_def)
  have "consoleread_loop (nat n) True (?l, env) = Ok ((True, bs), ?l\<lparr>in_r := in_r s + of_nat k\<rparr>, env)"
    using consoleread_loop_ok [OF cl(2), of "nat n" True env] assms(2) cl(1) ld by (simp add: k_def)
  note rd = this
  let ?t = "s\<lparr>icache := (icache s)[ip := (icache s ! ip)\<lparr>i_busy := True\<rparr>], procs := ?m, in_r := in_r s + of_nat k, held := []\<rparr>"
  have ilk: "ilock ip (?u\<lparr>in_r := in_r s + of_nat k, held := []\<rparr>, env) = Ok ((), ?t, env)"
    using ip assms(4)
    by (simp add: ilock_def thn_run the_inode_def set_inode_def upd_inode_def)
  have "consoleread ip n (s, env) = Ok ((int (length bs), bs), ?t, env)"
    using un rd ilk assms(4) by (simp add: consoleread_def thn_run)
  moreover obtain j where "j \<le> length (ready s)" "rest = drop j (ready s)"
    using ld_read_suffix [of "ready s" "nat n" True] ld by auto
  then have "k \<le> length (ready s)" "drop k (ready s) = rest" by (simp_all add: k_def)
  then have "ready (s\<lparr>in_r := in_r s + of_nat k\<rparr>) = rest" "input_wf (s\<lparr>in_r := in_r s + of_nat k\<rparr>)"
    using ready_advance [OF assms(1), of k] by auto
  then have "ready ?t = rest" "input_wf ?t" by (simp_all add: ready_def input_wf_def)
  moreover have "editing ?t = editing s" "locked_inode ip ?t" "held ?t = []"
    using ip assms(4) by (simp_all add: editing_def locked_inode_def)
  ultimately show ?thesis using ld by simp
qed

section \<open>Examples\<close>

text \<open>A console whose counters are about to wrap, with \<open>ab\<close> and a newline ready and the given scan codes waiting.\<close>

definition demo_inode :: inode where
  "demo_inode = \<lparr>i_dev = 1, i_inum = 2, i_ref = 1, i_busy = True, i_valid = True, i_type = T_DEV, i_major = 1, i_minor = 1,
     i_nlink = 1, i_size = 0, i_addrs = replicate 13 0\<rparr>"

definition demo_fs :: "inode list \<Rightarrow> fs_st" where
  "demo_fs ips = log_st.extend demo_log (fs_st.fields ips)"

definition demo_cons :: "byte list \<Rightarrow> cons_st" where
  "demo_cons scans = fs_st.extend (demo_fs [demo_inode]) (cons_st.fields False True (\<lambda>_. 0) 0 True [] [] scans 0
     ((replicate INPUT_BUF 0)[126 := 97, 127 := 98, 0 := 10]) 0xfffffffe 1 1)"

lemma demo_cons_simps [simp]:
  "held (demo_cons k) = []" "icache (demo_cons k) = [demo_inode]" "kbd_in (demo_cons k) = k" "kbd_shift (demo_cons k) = 0"
  "in_r (demo_cons k) = 0xfffffffe" "in_w (demo_cons k) = 1" "in_e (demo_cons k) = 1" "panicked (demo_cons k) = False"
  "crt_pos (demo_cons k) = 0" "in_buf (demo_cons k) = (replicate INPUT_BUF 0)[126 := 97, 127 := 98, 0 := 10]"
  by (simp_all add: demo_cons_def demo_fs_def fs_st.defs cons_st.defs log_st.defs demo_log_def cold_def binit_def ideinit_def
      disk_st.defs demo_disk_def demo_st_def proc_st.defs)

lemma demo_cons_ready: "ready (demo_cons k) = [97, 98, 10]" "editing (demo_cons k) = []"
proof -
  show "editing (demo_cons k) = []" by (simp add: editing_def)
  have "unat (1 - 0xfffffffe :: u32) = 3" by simp
  moreover have "ring_list b r 3 = [ring_at b r, ring_at b (r + 1), ring_at b (r + 2)]" for b r
    by (simp add: ring_list_def upt_rec)
  ultimately show "ready (demo_cons k) = [97, 98, 10]"
    by (simp add: ready_def ring_at_def INPUT_BUF_def nth_list_update)
qed

lemma demo_cons_ok: "input_wf (demo_cons k)" "intr_ok (demo_cons k)"
proof -
  show "input_wf (demo_cons k)" by (simp add: input_wf_def INPUT_BUF_def)
  then show "intr_ok (demo_cons k)"
    by (simp add: intr_ok_def cons_free_def screen_ok_def input_inv_def demo_cons_ready)
qed

text \<open>The keys \<open>h\<close>, \<open>x\<close>, backspace, \<open>i\<close> and Enter.\<close>

theorem kbdintr_implements_line_discipline_witness:
  "returns (kbdintr (demo_cons [0x23, 0x2d, 0x0e, 0x17, 0x1c])) (\<lambda>t. kbd_in t = [] \<and>
     line t = ([97, 98, 10, 104, 105, 10], []))"
proof -
  have k: "kbd_chars 0 [0x23, 0x2d, 0x0e, 0x17, 0x1c] = [104, 120, 8, 105, 10]"
    by code_simp
  have l: "fold ld_char [104, 120, 8, 105, 10] ([97, 98, 10], []) = ([97, 98, 10, 104, 105, 10], [])"
    by code_simp
  have "L_input \<notin> set (held (demo_cons [0x23, 0x2d, 0x0e, 0x17, 0x1c]))" by simp
  from kbdintr_implements_line_discipline [OF demo_cons_ok(2) this] show ?thesis
    by (rule returns_mono) (use k l in \<open>auto simp: line_def demo_cons_ready\<close>)
qed

theorem consoleread_returns_line_witness:
  "returns (consoleread 0 100 (demo_cons [], [])) (\<lambda>((r, bs), t, _). r = 3 \<and> bs = [97, 98, 10] \<and> ready t = [])"
proof -
  have "readable_now (nat 100) (ready (demo_cons []))" by (simp add: readable_now_def demo_cons_ready)
  moreover have "locked_inode 0 (demo_cons [])" by (simp add: locked_inode_def demo_inode_def)
  moreover have "ld_read 100 True [97, 98, 10] = ([97, 98, 10], [])" by code_simp
  ultimately show ?thesis
    using consoleread_returns_line [of "demo_cons []" 100 0 "[]"] demo_cons_ok(1)
    by (auto simp: demo_cons_ready elim!: returns_mono)
qed

end
