(* ===== verification/Vm.thy ===== *)
theory Vm
  imports Console
begin

text \<open>
  \<open>vm.c\<close>: two-level page tables in the kernel's memory, the kernel's own mappings, and the
  creation, growth, copying and freeing of user address spaces. Memory is indexed by
  kernel virtual addresses; a page table entry is the 32-bit word stored there. A null
  pointer is address 0. The address loops run over natural numbers: sizes of user memory
  stay below \<open>KERNBASE\<close>, so the 32-bit counters of the source do not wrap.
\<close>

section \<open>Page table entries\<close>

definition PTE_P :: u32 where "PTE_P = 0x001"
definition PTE_W :: u32 where "PTE_W = 0x002"
definition PTE_U :: u32 where "PTE_U = 0x004"
definition NPDENTRIES :: nat where "NPDENTRIES = 1024"
definition NPTENTRIES :: nat where "NPTENTRIES = 1024"

definition PDX :: "u32 \<Rightarrow> u32" where "PDX va = drop_bit 22 va AND 0x3FF"
definition PTX :: "u32 \<Rightarrow> u32" where "PTX va = drop_bit 12 va AND 0x3FF"
definition PTE_ADDR :: "u32 \<Rightarrow> u32" where "PTE_ADDR pte = pte AND NOT 0xFFF"
definition PTE_FLAGS :: "u32 \<Rightarrow> u32" where "PTE_FLAGS pte = pte AND 0xFFF"

text \<open>The linker places the kernel's data at \<open>data\<close>, at a page boundary.\<close>

record vm_st = cons_st +
  data_addr :: u32

definition set_word :: "u32 \<Rightarrow> u32 \<Rightarrow> 'a mem_st_scheme \<Rightarrow> 'a mem_st_scheme" where
  "set_word p w s = s\<lparr>mem := store32 (mem s) p w\<rparr>"

section \<open>Building page tables\<close>

definition walkpgdir :: "u32 \<Rightarrow> u32 \<Rightarrow> bool \<Rightarrow> 'a mem_st_scheme \<Rightarrow> (u32 \<times> 'a mem_st_scheme) res" where
  "walkpgdir pgdr va alloc s =
     (let pde = pgdr + 4 * PDX va; e = load32 (mem s) pde in
      if e AND PTE_P \<noteq> 0 then Ok (p2v (PTE_ADDR e) + 4 * PTX va, s)
      else if \<not> alloc then Ok (0, s)
      else bnd (kalloc s) (\<lambda>(pgtab, s).
        if pgtab = 0 then Ok (0, s) else
        let s = s\<lparr>mem := memset (mem s) pgtab 0 PGSIZE\<rparr>;
            s = set_word pde (v2p pgtab OR PTE_P OR PTE_W OR PTE_U) s in
        Ok (pgtab + 4 * PTX va, s)))"

text \<open>
  The loop of \<open>mappages\<close>: \<open>a\<close> goes up page by page until it is \<open>last\<close>; \<open>n\<close> is the number of
  pages from \<open>a\<close> to \<open>last\<close>, both page aligned, the distance taken modulo \<open>2 ^ 32\<close>.
\<close>

fun mappages_loop :: "nat \<Rightarrow> u32 \<Rightarrow> u32 \<Rightarrow> u32 \<Rightarrow> u32 \<Rightarrow> u32 \<Rightarrow> 'a mem_st_scheme \<Rightarrow> (int \<times> 'a mem_st_scheme) res" where
  "mappages_loop 0 pgdr a lst pa perm s = Stuck"
| "mappages_loop (Suc n) pgdr a lst pa perm s =
     bnd (walkpgdir pgdr a True s) (\<lambda>(pte, s).
     if pte = 0 then Ok (-1, s)
     else if load32 (mem s) pte AND PTE_P \<noteq> 0 then Panic ''remap''
     else let s = set_word pte (pa OR perm OR PTE_P) s in
       if a = lst then Ok (0, s)
       else mappages_loop n pgdr (a + PGSIZE) lst (pa + PGSIZE) perm s)"

definition mappages :: "u32 \<Rightarrow> u32 \<Rightarrow> u32 \<Rightarrow> u32 \<Rightarrow> u32 \<Rightarrow> 'a mem_st_scheme \<Rightarrow> (int \<times> 'a mem_st_scheme) res" where
  "mappages pgdr va n pa perm s =
     (let a = PGROUNDDOWN va; lst = PGROUNDDOWN (va + n - 1) in
      mappages_loop (Suc (unat (lst - a) div 4096)) pgdr a lst pa perm s)"

record kmap_entry =
  virt :: u32
  phys_start :: u32
  phys_end :: u32
  kperm :: u32

definition KERNLINK :: u32 where "KERNLINK = KERNBASE + EXTMEM"

definition kmap :: "u32 \<Rightarrow> kmap_entry list" where
  "kmap data =
     [\<lparr>virt = KERNBASE, phys_start = 0, phys_end = EXTMEM, kperm = PTE_W\<rparr>,
      \<lparr>virt = KERNLINK, phys_start = v2p KERNLINK, phys_end = v2p data, kperm = 0\<rparr>,
      \<lparr>virt = data, phys_start = v2p data, phys_end = PHYSTOP, kperm = PTE_W\<rparr>,
      \<lparr>virt = DEVSPACE, phys_start = DEVSPACE, phys_end = 0, kperm = PTE_W\<rparr>]"

fun setupkvm_loop :: "u32 \<Rightarrow> kmap_entry list \<Rightarrow> 'a mem_st_scheme \<Rightarrow> (u32 \<times> 'a mem_st_scheme) res" where
  "setupkvm_loop pgdr [] s = Ok (pgdr, s)"
| "setupkvm_loop pgdr (k # ks) s =
     bnd (mappages pgdr (virt k) (phys_end k - phys_start k) (phys_start k) (kperm k) s) (\<lambda>(r, s).
     if r < 0 then Ok (0, s) else setupkvm_loop pgdr ks s)"

definition setupkvm :: "'a vm_st_scheme \<Rightarrow> (u32 \<times> 'a vm_st_scheme) res" where
  "setupkvm s =
     bnd (kalloc s) (\<lambda>(pgdr, s).
     if pgdr = 0 then Ok (0, s) else
     let s = s\<lparr>mem := memset (mem s) pgdr 0 PGSIZE\<rparr> in
     if p2v PHYSTOP > DEVSPACE then Panic ''PHYSTOP too high''
     else setupkvm_loop pgdr (kmap (data_addr s)) s)"

definition kvmalloc :: "'a vm_st_scheme \<Rightarrow> 'a vm_st_scheme res" where
  "kvmalloc s = bnd (setupkvm s) (\<lambda>(pgdr, s). Ok (switchkvm (s\<lparr>kpgdir := pgdr\<rparr>)))"

section \<open>User memory\<close>

text \<open>Bytes copied into memory from outside it.\<close>

fun store_bytes :: "memory \<Rightarrow> u32 \<Rightarrow> byte list \<Rightarrow> memory" where
  "store_bytes m p [] = m"
| "store_bytes m p (b # bs) = store_bytes (m(p := b)) (p + 1) bs"

text \<open>\<open>inituvm\<close> runs on the kernel page table, which does not map address 0.\<close>

definition inituvm :: "u32 \<Rightarrow> byte list \<Rightarrow> 'a mem_st_scheme \<Rightarrow> 'a mem_st_scheme res" where
  "inituvm pgdr code s =
     (if length code \<ge> unat PGSIZE then Panic ''inituvm: more than a page'' else
      bnd (kalloc s) (\<lambda>(p, s).
      if p = 0 then Panic ''trap'' else
      bnd (mappages pgdr 0 PGSIZE (v2p p) (PTE_W OR PTE_U) (s\<lparr>mem := memset (mem s) p 0 PGSIZE\<rparr>)) (\<lambda>(_, s).
      Ok (s\<lparr>mem := store_bytes (mem s) p code\<rparr>))))"

function loaduvm_loop :: "u32 \<Rightarrow> u32 \<Rightarrow> nat \<Rightarrow> u32 \<Rightarrow> u32 \<Rightarrow> nat \<Rightarrow> ('a cons_st_scheme, int) prog" where
  "loaduvm_loop pgdr addr ip offset fsz i =
     (if i < unat fsz then
        thn (call (walkpgdir pgdr (addr + of_nat i) False)) (\<lambda>pte.
        if pte = 0 then panic ''loaduvm: address should exist'' else
        thn (gets (\<lambda>s. PTE_ADDR (load32 (mem s) pte))) (\<lambda>pa.
        let n = (if fsz - of_nat i < PGSIZE then fsz - of_nat i else PGSIZE) in
        thn (readi devsw ip (offset + of_nat i) n) (\<lambda>(r, bs).
        thn (modify (\<lambda>s. s\<lparr>mem := store_bytes (mem s) (p2v pa) bs\<rparr>)) (\<lambda>_.
        if r \<noteq> uint n then ret (-1)
        else loaduvm_loop pgdr addr ip offset fsz (i + 4096)))))
      else ret 0)"
  by pat_completeness auto
termination
  by (relation "measure (\<lambda>(_, _, _, _, fsz, i). unat fsz - i)") auto

definition loaduvm :: "u32 \<Rightarrow> u32 \<Rightarrow> nat \<Rightarrow> u32 \<Rightarrow> u32 \<Rightarrow> ('a cons_st_scheme, int) prog" where
  "loaduvm pgdr addr ip offset fsz =
     (if addr mod PGSIZE \<noteq> 0 then panic ''loaduvm: addr must be page aligned''
      else loaduvm_loop pgdr addr ip offset fsz 0)"

text \<open>
  When there is no page table page, \<open>deallocuvm\<close> goes forward by the size of a whole page
  table from wherever it is.
\<close>

function deallocuvm_loop :: "u32 \<Rightarrow> nat \<Rightarrow> nat \<Rightarrow> 'a mem_st_scheme \<Rightarrow> 'a mem_st_scheme res" where
  "deallocuvm_loop pgdr oldsz a s =
     (if a < oldsz then
        bnd (walkpgdir pgdr (of_nat a) False s) (\<lambda>(pte, s).
        if pte = 0 then deallocuvm_loop pgdr oldsz (a + (NPTENTRIES - 1) * 4096 + 4096) s
        else if load32 (mem s) pte AND PTE_P \<noteq> 0 then
          let pa = PTE_ADDR (load32 (mem s) pte) in
          if pa = 0 then Panic ''kfree'' else
          bnd (kfree (p2v pa) s) (\<lambda>s. deallocuvm_loop pgdr oldsz (a + 4096) (set_word pte 0 s))
        else deallocuvm_loop pgdr oldsz (a + 4096) s)
      else Ok s)"
  by pat_completeness auto
termination
  by (relation "measure (\<lambda>(_, oldsz, a, _). oldsz - a)") auto

definition deallocuvm :: "u32 \<Rightarrow> u32 \<Rightarrow> u32 \<Rightarrow> 'a mem_st_scheme \<Rightarrow> (u32 \<times> 'a mem_st_scheme) res" where
  "deallocuvm pgdr oldsz newsz s =
     (if newsz \<ge> oldsz then Ok (oldsz, s) else
      bnd (deallocuvm_loop pgdr (unat oldsz) (unat (PGROUNDUP newsz)) s) (\<lambda>s. Ok (newsz, s)))"

function allocuvm_loop :: "u32 \<Rightarrow> u32 \<Rightarrow> u32 \<Rightarrow> nat \<Rightarrow> 'a cons_st_scheme \<Rightarrow> (u32 \<times> 'a cons_st_scheme) res" where
  "allocuvm_loop pgdr oldsz newsz a s =
     (if a < unat newsz then
        bnd (kalloc s) (\<lambda>(p, s).
        if p = 0 then
          bnd (cprintf (lit ''allocuvm out of memory'' @ [10]) [] s) (\<lambda>s.
          bnd (deallocuvm pgdr newsz oldsz s) (\<lambda>(_, s). Ok (0, s)))
        else
          bnd (mappages pgdr (of_nat a) PGSIZE (v2p p) (PTE_W OR PTE_U) (s\<lparr>mem := memset (mem s) p 0 PGSIZE\<rparr>)) (\<lambda>(_, s).
          allocuvm_loop pgdr oldsz newsz (a + 4096) s))
      else Ok (newsz, s))"
  by pat_completeness auto
termination
  by (relation "measure (\<lambda>(_, _, newsz, a, _). unat newsz - a)") auto

definition allocuvm :: "u32 \<Rightarrow> u32 \<Rightarrow> u32 \<Rightarrow> 'a cons_st_scheme \<Rightarrow> (u32 \<times> 'a cons_st_scheme) res" where
  "allocuvm pgdr oldsz newsz s =
     (if newsz \<ge> KERNBASE then Ok (0, s)
      else if newsz < oldsz then Ok (oldsz, s)
      else allocuvm_loop pgdr oldsz newsz (unat (PGROUNDUP oldsz)) s)"

fun freevm_loop :: "u32 \<Rightarrow> nat \<Rightarrow> nat \<Rightarrow> 'a mem_st_scheme \<Rightarrow> 'a mem_st_scheme res" where
  "freevm_loop pgdr i 0 s = Ok s"
| "freevm_loop pgdr i (Suc n) s =
     (let e = load32 (mem s) (pgdr + 4 * of_nat i) in
      bnd (if e AND PTE_P \<noteq> 0 then kfree (p2v (PTE_ADDR e)) s else Ok s) (freevm_loop pgdr (Suc i) n))"

definition freevm :: "u32 \<Rightarrow> 'a mem_st_scheme \<Rightarrow> 'a mem_st_scheme res" where
  "freevm pgdr s =
     (if pgdr = 0 then Panic ''freevm: no pgdir'' else
      bnd (deallocuvm pgdr KERNBASE 0 s) (\<lambda>(_, s).
      bnd (freevm_loop pgdr 0 NPDENTRIES s) (kfree pgdr)))"

definition clearpteu :: "u32 \<Rightarrow> u32 \<Rightarrow> 'a mem_st_scheme \<Rightarrow> 'a mem_st_scheme res" where
  "clearpteu pgdr uva s =
     bnd (walkpgdir pgdr uva False s) (\<lambda>(pte, s).
     if pte = 0 then Panic ''clearpteu'' else Ok (set_word pte (load32 (mem s) pte AND NOT PTE_U) s))"

function copyuvm_loop :: "u32 \<Rightarrow> u32 \<Rightarrow> u32 \<Rightarrow> nat \<Rightarrow> 'a mem_st_scheme \<Rightarrow> (u32 \<times> 'a mem_st_scheme) res" where
  "copyuvm_loop pgdr d fsz i s =
     (if i < unat fsz then
        bnd (walkpgdir pgdr (of_nat i) False s) (\<lambda>(pte, s).
        if pte = 0 then Panic ''copyuvm: pte should exist''
        else if load32 (mem s) pte AND PTE_P = 0 then Panic ''copyuvm: page not present''
        else
          let pa = PTE_ADDR (load32 (mem s) pte);
              flags = PTE_FLAGS (load32 (mem s) pte) in
          bnd (kalloc s) (\<lambda>(p, s).
          if p = 0 then bnd (freevm d s) (\<lambda>s. Ok (0, s)) else
          bnd (mappages d (of_nat i) PGSIZE (v2p p) flags (s\<lparr>mem := memmove (mem s) p (p2v pa) PGSIZE\<rparr>)) (\<lambda>(r, s).
          if r < 0 then bnd (freevm d s) (\<lambda>s. Ok (0, s))
          else copyuvm_loop pgdr d fsz (i + 4096) s)))
      else Ok (d, s))"
  by pat_completeness auto
termination
  by (relation "measure (\<lambda>(_, _, fsz, i, _). unat fsz - i)") auto

definition copyuvm :: "u32 \<Rightarrow> u32 \<Rightarrow> 'a vm_st_scheme \<Rightarrow> (u32 \<times> 'a vm_st_scheme) res" where
  "copyuvm pgdr fsz s =
     bnd (setupkvm s) (\<lambda>(d, s). if d = 0 then Ok (0, s) else copyuvm_loop pgdr d fsz 0 s)"

section \<open>Access through a page table\<close>

text \<open>
  Translation by the hardware, as kernel code sees user addresses: both levels must be
  present; the result is the kernel address of the byte.
\<close>

definition hw_walk :: "memory \<Rightarrow> u32 \<Rightarrow> u32 \<Rightarrow> u32 option" where
  "hw_walk m pgdr va =
     (let e = load32 m (pgdr + 4 * PDX va) in
      if e AND PTE_P = 0 then None else
      let f = load32 m (p2v (PTE_ADDR e) + 4 * PTX va) in
      if f AND PTE_P = 0 then None else Some (p2v (PTE_ADDR f) + (va AND 0xFFF)))"

text \<open>User bytes read and written by the kernel on the current page table; a fault is fatal.\<close>

fun load_user :: "u32 \<Rightarrow> nat \<Rightarrow> 'a proc_st_scheme \<Rightarrow> byte list res" where
  "load_user va 0 s = Ok []"
| "load_user va (Suc n) s =
     (case hw_walk (mem s) (p2v (cr3 s)) va of
        None \<Rightarrow> Panic ''trap''
      | Some k \<Rightarrow> bnd (load_user (va + 1) n s) (\<lambda>bs. Ok (mem s k # bs)))"

fun store_user :: "u32 \<Rightarrow> byte list \<Rightarrow> 'a proc_st_scheme \<Rightarrow> 'a proc_st_scheme res" where
  "store_user va [] s = Ok s"
| "store_user va (b # bs) s =
     (case hw_walk (mem s) (p2v (cr3 s)) va of
        None \<Rightarrow> Panic ''trap''
      | Some k \<Rightarrow> store_user (va + 1) bs (s\<lparr>mem := (mem s)(k := b)\<rparr>))"

text \<open>\<open>uva2ka\<close> does not check the pointer it gets from \<open>walkpgdir\<close>: a null one is read at user address 0.\<close>

definition uva2ka :: "u32 \<Rightarrow> u32 \<Rightarrow> 'a proc_st_scheme \<Rightarrow> u32 res" where
  "uva2ka pgdr uva s =
     bnd (walkpgdir pgdr uva False s) (\<lambda>(pte, _).
     bnd (if pte = 0 then bnd (load_user 0 4 s) (\<lambda>bs. Ok (rd32 bs 0)) else Ok (load32 (mem s) pte)) (\<lambda>e.
     if e AND PTE_P = 0 then Ok 0
     else if e AND PTE_U = 0 then Ok 0
     else Ok (p2v (PTE_ADDR e))))"

function copyout :: "u32 \<Rightarrow> u32 \<Rightarrow> byte list \<Rightarrow> 'a proc_st_scheme \<Rightarrow> (int \<times> 'a proc_st_scheme) res" where
  "copyout pgdr va bs s =
     (if bs = [] then Ok (0, s) else
      let va0 = PGROUNDDOWN va in
      bnd (uva2ka pgdr va0 s) (\<lambda>pa0.
      if pa0 = 0 then Ok (-1, s) else
      let n = min (unat (PGSIZE - (va - va0))) (length bs) in
      copyout pgdr (va0 + PGSIZE) (drop n bs) (s\<lparr>mem := store_bytes (mem s) (pa0 + (va - va0)) (take n bs)\<rparr>)))"
  by pat_completeness auto

lemma unat_page_offset: "unat (va - PGROUNDDOWN va) = unat va mod 4096"
proof -
  have "PGROUNDDOWN va \<le> va" by (simp add: word_le_nat_alt unat_PGROUNDDOWN)
  then have "unat (va - PGROUNDDOWN va) = unat va - unat va div 4096 * 4096"
    by (simp add: unat_sub unat_PGROUNDDOWN)
  then show ?thesis by (metis minus_div_mult_eq_mod)
qed

lemma page_rest: "unat (PGSIZE - (va - PGROUNDDOWN va)) = 4096 - unat va mod 4096"
proof -
  have "unat (va - PGROUNDDOWN va) \<le> 4096" by (simp add: unat_page_offset less_imp_le)
  then have "va - PGROUNDDOWN va \<le> PGSIZE" by (simp add: word_le_nat_alt PGSIZE_def)
  then show ?thesis by (simp add: unat_sub unat_page_offset PGSIZE_def)
qed

termination copyout
  by (relation "measure (\<lambda>(_, _, bs, _). length bs)") (auto simp: page_rest)

declare copyout.simps [simp del] copyuvm_loop.simps [simp del] allocuvm_loop.simps [simp del]
  deallocuvm_loop.simps [simp del] loaduvm_loop.simps [simp del]

end
