(* ===== verification/Pagetable.thy ===== *)
theory Pagetable
  imports Vm
begin

text \<open>
  Correctness of the page table operations of \<open>vm.c\<close>, stated as changes of the function
  \<open>hw_walk\<close> by which the hardware translates addresses. The page directory and the page
  table pages are pages of memory of their own (\<open>pt_ok\<close>).
\<close>

section \<open>Slots of a page\<close>

lemma unat_4_times: "unat (4 * i :: u32) = 4 * unat i" if "unat i < 1024"
proof -
  have "unat (4 * i :: u32) = (4 * unat i) mod 2 ^ 32" by (simp add: unat_word_ariths)
  then show ?thesis using that by simp
qed

lemma unat_plus_small: "unat (a :: u32) + unat b < 2 ^ 32 \<Longrightarrow> unat (a + b) = unat a + unat b"
  by (simp add: unat_word_ariths)

lemma slot_offset:
  assumes "unat i < 1024" "in_range a (p + 4 * i) 4"
  obtains u where "u < 4" "unat (a - p) = 4 * unat i + u"
proof -
  let ?u = "unat (a - (p + 4 * i))"
  have u: "?u < 4" using assms(2) by (simp add: in_range_def)
  have "a - p = 4 * i + (a - (p + 4 * i))" by (simp add: algebra_simps)
  then have "unat (a - p) = unat (4 * i + (a - (p + 4 * i)))" by simp
  also have "\<dots> = 4 * unat i + ?u" using u assms(1) unat_4_times [OF assms(1)] by (subst unat_plus_small) auto
  finally show thesis using u that by blast
qed

lemma slot_in_page:
  assumes "unat i < 1024" "in_range a (p + 4 * i) 4"
  shows "in_range a p 4096"
proof -
  obtain u where "u < 4" "unat (a - p) = 4 * unat i + u" using slot_offset [OF assms] .
  then show ?thesis using assms(1) by (simp add: in_range_def)
qed

lemma slots_disjoint:
  assumes "unat i < 1024" "unat j < 1024" "in_range a (p + 4 * i) 4" "in_range a (p + 4 * j) 4"
  shows "i = j"
proof -
  obtain u v where "u < 4" "v < 4" "4 * unat i + u = 4 * unat j + v"
    using slot_offset [OF assms(1,3)] slot_offset [OF assms(2,4)] by metis
  then have "unat i = unat j" by presburger
  then show ?thesis by (simp add: word_unat_eq_iff)
qed

lemma load_store_slot:
  assumes "p mod PGSIZE = 0" "q mod PGSIZE = 0" "unat i < 1024" "unat j < 1024"
  shows "load32 (store32 m (p + 4 * i) w) (q + 4 * j) = (if p = q \<and> i = j then w else load32 m (q + 4 * j))"
proof (cases "p = q \<and> i = j")
  case False
  have "load32 (store32 m (p + 4 * i) w) (q + 4 * j) = load32 m (q + 4 * j)"
  proof (rule load32_cong)
    fix a assume a: "in_range a (q + 4 * j) 4"
    have "\<not> in_range a (p + 4 * i) 4"
    proof
      assume b: "in_range a (p + 4 * i) 4"
      then have "p = q" using pages_disjoint [OF assms(1,2)] slot_in_page [OF assms(3) b] slot_in_page [OF assms(4) a] by blast
      then show False using slots_disjoint [OF assms(3,4) b] a False by blast
    qed
    then show "store32 m (p + 4 * i) w a = m a" by simp
  qed
  then show ?thesis using False by auto
qed auto

lemma load_memset_slot:
  assumes "p mod PGSIZE = 0" "q mod PGSIZE = 0" "unat j < 1024"
  shows "load32 (memset m p 0 PGSIZE) (q + 4 * j) = (if p = q then 0 else load32 m (q + 4 * j))"
proof (cases "p = q")
  case True
  have "memset m p 0 PGSIZE a = 0" if "in_range a (q + 4 * j) 4" for a
    using slot_in_page [OF assms(3) that] True by (simp add: memset_eq)
  then have "load32 (memset m p 0 PGSIZE) (q + 4 * j) = load32 (\<lambda>_. 0) (q + 4 * j)" by (rule load32_cong)
  then show ?thesis using True by (simp add: load32_def mk32_def)
next
  case False
  have "load32 (memset m p 0 PGSIZE) (q + 4 * j) = load32 m (q + 4 * j)"
  proof (rule load32_cong)
    fix a assume "in_range a (q + 4 * j) 4"
    then have "\<not> in_range a p 4096" using pages_disjoint [OF assms(1,2) False] slot_in_page [OF assms(3)] by blast
    then show "memset m p 0 PGSIZE a = m a" by (simp add: memset_eq)
  qed
  then show ?thesis using False by simp
qed

section \<open>Indices and entries\<close>

lemma unat_and_3FF: "unat (w AND 0x3FF :: u32) < 1024"
proof -
  have "w AND 0x3FF = w AND mask 10" by (simp add: mask_eq_exp_minus_1)
  also have "\<dots> = take_bit 10 w" by (rule take_bit_eq_mask [symmetric])
  finally show ?thesis by (simp add: unsigned_take_bit_eq take_bit_nat_eq_self_iff [symmetric] take_bit_nat_def)
qed

lemma PDX_PTX_bound [simp]: "unat (PDX va) < 1024" "unat (PTX va) < 1024"
  by (simp_all add: PDX_def PTX_def unat_and_3FF)

lemma PTE_ADDR_down: "PTE_ADDR e = PGROUNDDOWN e"
  by (simp add: PTE_ADDR_def PGROUNDDOWN_def PGSIZE_def)

lemma aligned_p2v: "v mod PGSIZE = 0 \<Longrightarrow> p2v v mod PGSIZE = 0"
  by (auto simp: aligned_unat p2v_def KERNBASE_def unat_word_ariths dvd_mod_iff)

lemma table_aligned [simp]: "p2v (PTE_ADDR e) mod PGSIZE = 0"
  by (intro aligned_p2v) (simp add: PTE_ADDR_down PGROUNDDOWN_aligned)

lemma mask_cases: "(NOT 0xFFF :: u32) = NOT (mask 12)"
  by (simp add: mask_eq_exp_minus_1)

lemma aligned_low_bits: "v mod PGSIZE = 0 \<Longrightarrow> \<not> bit v n" if "n < 12"
proof
  assume v: "v mod PGSIZE = 0" and b: "bit v n"
  have "PGSIZE = 2 ^ 12" by (simp add: PGSIZE_def)
  then have "take_bit 12 v = 0" using v by (simp add: take_bit_eq_mod)
  then have "\<not> bit (take_bit 12 v) n" by simp
  then show False using b that by (simp add: bit_take_bit_iff)
qed

lemma bit_nonzero: "bit (w :: u32) n \<Longrightarrow> w \<noteq> 0"
  by auto

lemma PTE_ADDR_flags:
  assumes "pa mod PGSIZE = 0" "perm AND NOT 0xFFF = 0"
  shows "PTE_ADDR (pa OR perm OR PTE_P) = pa" "(pa OR perm OR PTE_P) AND PTE_P \<noteq> 0"
proof -
  have "\<not> bit perm n" if "12 \<le> n" for n
  proof
    assume "bit perm n"
    then have "bit (perm AND NOT 0xFFF) n" using that unfolding mask_cases by (auto simp: bit_simps dest: bit_imp_le_length)
    then show False using assms(2) by simp
  qed
  then show "PTE_ADDR (pa OR perm OR PTE_P) = pa"
    unfolding PTE_ADDR_def PTE_P_def mask_cases using aligned_low_bits [OF _ assms(1)]
    by (intro bit_word_eqI) (auto simp: bit_simps not_less dest: leI)
  have "bit ((pa OR perm OR PTE_P) AND PTE_P) 0" by (simp add: bit_simps PTE_P_def)
  then show "(pa OR perm OR PTE_P) AND PTE_P \<noteq> 0" by (rule bit_nonzero)
qed

lemma same_page_iff: "PDX a = PDX b \<and> PTX a = PTX b \<longleftrightarrow> PGROUNDDOWN a = PGROUNDDOWN b"
proof -
  have idx: "bit (PDX a) n \<longleftrightarrow> n < 10 \<and> bit a (n + 22)" "bit (PTX a) n \<longleftrightarrow> n < 10 \<and> bit a (n + 12)" for a n
  proof -
    have m: "(0x3FF :: u32) = mask 10" by (simp add: mask_eq_exp_minus_1)
    show "bit (PDX a) n \<longleftrightarrow> n < 10 \<and> bit a (n + 22)" "bit (PTX a) n \<longleftrightarrow> n < 10 \<and> bit a (n + 12)"
      unfolding PDX_def PTX_def m by (auto simp: bit_simps ac_simps)
  qed
  have dn: "bit (PGROUNDDOWN a) n \<longleftrightarrow> 12 \<le> n \<and> bit a n" for a n
  proof -
    have "PGROUNDDOWN a = a AND NOT (mask 12)" by (simp add: PGROUNDDOWN_def PGSIZE_def mask_eq_exp_minus_1)
    then show ?thesis by (auto simp: bit_simps not_less dest: bit_imp_le_length)
  qed
  show ?thesis
  proof
    assume h: "PDX a = PDX b \<and> PTX a = PTX b"
    show "PGROUNDDOWN a = PGROUNDDOWN b"
    proof (rule bit_word_eqI)
      fix n assume "n < LENGTH(32)"
      then consider "n < 12" | "12 \<le> n" "n < 22" | "22 \<le> n" "n < 32" by fastforce
      then show "bit (PGROUNDDOWN a) n = bit (PGROUNDDOWN b) n"
      proof cases
        case 2
        then have "bit (PTX a) (n - 12) = bit (PTX b) (n - 12)" using h by simp
        moreover have "n - 12 < 10" using 2 by simp
        ultimately show ?thesis using 2 by (simp add: idx dn)
      next
        case 3
        then have "bit (PDX a) (n - 22) = bit (PDX b) (n - 22)" using h by simp
        moreover have "n - 22 < 10" using 3 by simp
        ultimately show ?thesis using 3 by (simp add: idx dn)
      qed (simp add: dn)
    qed
  next
    assume h: "PGROUNDDOWN a = PGROUNDDOWN b"
    have ab: "bit a n = bit b n" if "12 \<le> n" for n using arg_cong [OF h, of "\<lambda>w. bit w n"] that by (simp add: dn)
    show "PDX a = PDX b \<and> PTX a = PTX b"
      by (auto intro!: bit_word_eqI simp: idx ab)
  qed
qed

section \<open>Well-formed page tables\<close>

definition pde :: "memory \<Rightarrow> u32 \<Rightarrow> u32 \<Rightarrow> u32" where
  "pde m pgdr d = load32 m (pgdr + 4 * d)"

definition table_of :: "memory \<Rightarrow> u32 \<Rightarrow> u32 \<Rightarrow> u32" where
  "table_of m pgdr d = p2v (PTE_ADDR (pde m pgdr d))"

definition has_table :: "memory \<Rightarrow> u32 \<Rightarrow> u32 \<Rightarrow> bool" where
  "has_table m pgdr d \<longleftrightarrow> unat d < 1024 \<and> pde m pgdr d AND PTE_P \<noteq> 0"

text \<open>The pages a page table consists of are distinct.\<close>

definition pt_ok :: "memory \<Rightarrow> u32 \<Rightarrow> bool" where
  "pt_ok m pgdr \<longleftrightarrow> pgdr mod PGSIZE = 0 \<and>
     (\<forall>d. has_table m pgdr d \<longrightarrow> table_of m pgdr d \<noteq> pgdr \<and>
        (\<forall>d'. has_table m pgdr d' \<and> table_of m pgdr d' = table_of m pgdr d \<longrightarrow> d' = d))"

definition pt_pages :: "memory \<Rightarrow> u32 \<Rightarrow> u32 set" where
  "pt_pages m pgdr = insert pgdr (table_of m pgdr ` {d. has_table m pgdr d})"

lemma table_of_aligned [simp]: "table_of m pgdr d mod PGSIZE = 0"
  by (simp add: table_of_def)

lemma hw_walk_alt:
  "hw_walk m pgdr va =
     (if has_table m pgdr (PDX va) then
        let f = load32 m (table_of m pgdr (PDX va) + 4 * PTX va) in
        if f AND PTE_P = 0 then None else Some (p2v (PTE_ADDR f) + (va AND 0xFFF))
      else None)"
  by (simp add: hw_walk_def has_table_def table_of_def pde_def Let_def)

lemma pt_okD:
  assumes "pt_ok m pgdr"
  shows "pgdr mod PGSIZE = 0" "has_table m pgdr d \<Longrightarrow> table_of m pgdr d \<noteq> pgdr"
    "has_table m pgdr d \<Longrightarrow> has_table m pgdr d' \<Longrightarrow> table_of m pgdr d' = table_of m pgdr d \<longleftrightarrow> d' = d"
  using assms by (auto simp: pt_ok_def)

text \<open>Writing one entry of a page table page changes the translation of that page only.\<close>

lemma set_pte:
  fixes w :: u32
  assumes ok: "pt_ok m pgdr" and d: "has_table m pgdr (PDX va)"
  defines "m' \<equiv> store32 m (table_of m pgdr (PDX va) + 4 * PTX va) w"
  shows "pde m' pgdr e = (if unat e < 1024 then pde m pgdr e else pde m' pgdr e)"
    "pt_ok m' pgdr" "pt_pages m' pgdr = pt_pages m pgdr"
    "hw_walk m' pgdr va' =
       (if PGROUNDDOWN va' = PGROUNDDOWN va
        then if w AND PTE_P = 0 then None else Some (p2v (PTE_ADDR w) + (va' AND 0xFFF))
        else hw_walk m pgdr va')"
proof -
  note pt = pt_okD [OF ok]
  have p: "pde m' pgdr e = pde m pgdr e" if "unat e < 1024" for e
    unfolding pde_def m'_def using load_store_slot [OF table_of_aligned pt(1) PDX_PTX_bound(2) that] pt(2) [OF d] by metis
  then show "pde m' pgdr e = (if unat e < 1024 then pde m pgdr e else pde m' pgdr e)" by simp
  have h: "has_table m' pgdr e = has_table m pgdr e" for e by (auto simp: has_table_def p)
  have t: "table_of m' pgdr e = table_of m pgdr e" if "has_table m pgdr e" for e
    using that p by (auto simp: table_of_def has_table_def)
  show "pt_ok m' pgdr" using ok h t unfolding pt_ok_def by metis
  show "pt_pages m' pgdr = pt_pages m pgdr" using h t by (auto simp: pt_pages_def)
  have e: "load32 m' (table_of m pgdr (PDX va') + 4 * PTX va') =
      (if PDX va' = PDX va \<and> PTX va' = PTX va then w else load32 m (table_of m pgdr (PDX va') + 4 * PTX va'))"
    if "has_table m pgdr (PDX va')"
    unfolding m'_def using load_store_slot [OF table_of_aligned table_of_aligned PDX_PTX_bound(2) PDX_PTX_bound(2)] pt(3) [OF that d] by metis
  show "hw_walk m' pgdr va' =
       (if PGROUNDDOWN va' = PGROUNDDOWN va
        then if w AND PTE_P = 0 then None else Some (p2v (PTE_ADDR w) + (va' AND 0xFFF))
        else hw_walk m pgdr va')"
  proof (cases "has_table m pgdr (PDX va')")
    case True
    then show ?thesis using e [OF True] t [OF True] h same_page_iff [of va' va] by (auto simp: hw_walk_alt Let_def)
  next
    case False
    then have "PGROUNDDOWN va' \<noteq> PGROUNDDOWN va" using d same_page_iff by metis
    then show ?thesis using False h by (simp add: hw_walk_alt)
  qed
qed

text \<open>Adding an empty page table page changes no translation.\<close>

lemma p2v_v2p [simp]: "p2v (v2p a) = a"
  by (simp add: p2v_def v2p_def)

lemma aligned_v2p: "v mod PGSIZE = 0 \<Longrightarrow> v2p v mod PGSIZE = 0"
proof -
  assume v: "v mod PGSIZE = 0"
  have "v2p v = p2v v"
  proof -
    have "- KERNBASE = KERNBASE" by (simp add: KERNBASE_def)
    then show ?thesis by (metis diff_conv_add_uminus p2v_def v2p_def)
  qed
  then show ?thesis using aligned_p2v [OF v] by simp
qed

lemma new_table:
  assumes ok: "pt_ok m pgdr" and n: "\<not> has_table m pgdr (PDX va)" and p: "p mod PGSIZE = 0" "p \<notin> pt_pages m pgdr"
  defines "m' \<equiv> store32 (memset m p 0 PGSIZE) (pgdr + 4 * PDX va) (v2p p OR PTE_P OR PTE_W OR PTE_U)"
  shows "has_table m' pgdr (PDX va)" "table_of m' pgdr (PDX va) = p" "pt_ok m' pgdr"
    "pt_pages m' pgdr = insert p (pt_pages m pgdr)" "hw_walk m' pgdr va' = hw_walk m pgdr va'"
proof -
  note pt = pt_okD [OF ok]
  let ?w = "v2p p OR PTE_P OR PTE_W OR PTE_U"
  have pd: "p \<noteq> pgdr" using p(2) by (auto simp: pt_pages_def)
  have w: "?w = v2p p OR (PTE_W OR PTE_U) OR PTE_P" by (simp add: ac_simps)
  have "(PTE_W OR PTE_U) AND NOT 0xFFF = 0" by (simp add: PTE_W_def PTE_U_def)
  note a = PTE_ADDR_flags [OF aligned_v2p [OF p(1)] this, folded w]
  have e: "pde m' pgdr d = (if d = PDX va then ?w else pde m pgdr d)" if "unat d < 1024" for d
    unfolding pde_def m'_def
    using load_store_slot [OF pt(1) pt(1) PDX_PTX_bound(1) that] load_memset_slot [OF p(1) pt(1) that] pd by metis
  show h: "has_table m' pgdr (PDX va)" using a(2) by (simp add: has_table_def e)
  show t: "table_of m' pgdr (PDX va) = p" using a(1) by (simp add: table_of_def e)
  have h': "has_table m' pgdr d = (has_table m pgdr d \<or> d = PDX va)" for d
    using h by (auto simp: has_table_def e split: if_splits)
  have t': "table_of m' pgdr d = table_of m pgdr d" if "has_table m pgdr d" for d
    using that n by (auto simp: table_of_def e has_table_def)
  have np: "table_of m pgdr d \<noteq> p" if "has_table m pgdr d" for d using p(2) that by (auto simp: pt_pages_def)
  show "pt_pages m' pgdr = insert p (pt_pages m pgdr)"
  proof -
    have "{d. has_table m' pgdr d} = insert (PDX va) {d. has_table m pgdr d}" using h' by auto
    moreover have "table_of m' pgdr ` {d. has_table m pgdr d} = table_of m pgdr ` {d. has_table m pgdr d}"
      by (rule image_cong) (use t' in auto)
    ultimately show ?thesis using t by (auto simp: pt_pages_def)
  qed
  show "pt_ok m' pgdr"
    unfolding pt_ok_def using pt(1) pd h' t' t np pt(2,3) by metis
  show "hw_walk m' pgdr va' = hw_walk m pgdr va'"
  proof (cases "PDX va' = PDX va")
    case True
    have "load32 m' (p + 4 * PTX va') = 0"
      unfolding m'_def
      using load_store_slot [OF pt(1) p(1) PDX_PTX_bound(1) PDX_PTX_bound(2)] load_memset_slot [OF p(1) p(1) PDX_PTX_bound(2)] pd by metis
    then show ?thesis using True n h t by (simp add: hw_walk_alt Let_def)
  next
    case False
    have "load32 m' (table_of m pgdr (PDX va') + 4 * PTX va') = load32 m (table_of m pgdr (PDX va') + 4 * PTX va')"
      if "has_table m pgdr (PDX va')"
      unfolding m'_def
      using load_store_slot [OF pt(1) table_of_aligned PDX_PTX_bound(1) PDX_PTX_bound(2)]
        load_memset_slot [OF p(1) table_of_aligned PDX_PTX_bound(2)] np [OF that] pt(2) [OF that] by metis
    then show ?thesis using False h' t' by (auto simp: hw_walk_alt Let_def)
  qed
qed

section \<open>Mapping a page\<close>

lemma walkpgdir_present:
  "has_table (mem s) pgdr (PDX va) \<Longrightarrow>
   walkpgdir pgdr va alloc s = Ok (table_of (mem s) pgdr (PDX va) + 4 * PTX va, s)"
  by (simp add: walkpgdir_def has_table_def table_of_def pde_def Let_def)

lemma walkpgdir_absent:
  "\<not> has_table (mem s) pgdr (PDX va) \<Longrightarrow> walkpgdir pgdr va False s = Ok (0, s)"
  by (simp add: walkpgdir_def has_table_def pde_def Let_def)

lemma slot_nonzero: "q mod PGSIZE = 0 \<Longrightarrow> q \<noteq> 0 \<Longrightarrow> unat i < 1024 \<Longrightarrow> q + 4 * i \<noteq> 0"
proof
  assume a: "q mod PGSIZE = 0" "q \<noteq> 0" "unat i < 1024" "q + 4 * i = 0"
  have "(0 :: u32) mod PGSIZE = 0" by simp
  have "in_range 0 q 4096" using slot_in_page [OF a(3), of 0 q] a(4) by (simp add: in_range_def)
  then show False using a(1,2) in_page [OF a(1), of 0] by (simp add: unat_eq_zero)
qed

text \<open>
  A page table together with the free list: the free pages are not part of the page table,
  and no page table page is page 0.
\<close>

definition vm_ok :: "u32 \<Rightarrow> u32 list \<Rightarrow> 'a mem_st_scheme \<Rightarrow> bool" where
  "vm_ok pgdr xs s \<longleftrightarrow> kmem_inv s xs \<and> pt_ok (mem s) pgdr \<and> pt_pages (mem s) pgdr \<inter> set xs = {} \<and>
     0 \<notin> pt_pages (mem s) pgdr"

lemma kmem_inv_write:
  assumes "kmem_inv s xs" "\<And>a x. x \<in> set xs \<Longrightarrow> in_range a x 4 \<Longrightarrow> m a = mem s a"
  shows "kmem_inv (s\<lparr>mem := m\<rparr>) xs"
proof -
  have "chain m (freelist s) xs = chain (mem s) (freelist s) xs"
    by (rule chain_cong) (auto intro!: load32_cong assms(2))
  then show ?thesis using assms(1) by (simp add: kmem_inv_def page_ok_def)
qed

lemma kmem_inv_store:
  assumes "kmem_inv s xs" "q mod PGSIZE = 0" "q \<notin> set xs" "unat i < 1024"
  shows "kmem_inv (set_word (q + 4 * i) w s) xs"
  unfolding set_word_def
proof (rule kmem_inv_write [OF assms(1)])
  fix a x assume x: "x \<in> set xs" "in_range a x 4"
  have al: "x mod PGSIZE = 0" using assms(1) x(1) by (auto simp: kmem_inv_def page_ok_def)
  have "in_range a x 4096" using in_range_mono [OF x(2)] by simp
  then have "\<not> in_range a q 4096" using pages_disjoint [OF al assms(2)] x(1) assms(3) by blast
  then have "\<not> in_range a (q + 4 * i) 4" using slot_in_page [OF assms(4)] by blast
  then show "store32 (mem s) (q + 4 * i) w a = mem s a" by simp
qed

lemma kmem_inv_memset:
  assumes "kmem_inv s xs" "q mod PGSIZE = 0" "q \<notin> set xs"
  shows "kmem_inv (s\<lparr>mem := memset (mem s) q c PGSIZE\<rparr>) xs"
proof (rule kmem_inv_write [OF assms(1)])
  fix a x assume x: "x \<in> set xs" "in_range a x 4"
  have al: "x mod PGSIZE = 0" using assms(1) x(1) by (auto simp: kmem_inv_def page_ok_def)
  have "in_range a x 4096" using in_range_mono [OF x(2)] by simp
  then have "\<not> in_range a q 4096" using pages_disjoint [OF al assms(2)] x(1) assms(3) by blast
  then show "memset (mem s) q c PGSIZE a = mem s a" by (simp add: memset_eq)
qed

text \<open>
  A step from free list \<open>xs\<close> to \<open>xs'\<close> that may turn free pages into page table pages and
  writes to page table pages only.
\<close>

definition pt_step :: "u32 \<Rightarrow> u32 list \<Rightarrow> u32 list \<Rightarrow> 'a mem_st_scheme \<Rightarrow> 'a mem_st_scheme \<Rightarrow> bool" where
  "pt_step pgdr xs xs' s s' \<longleftrightarrow> pt_pages (mem s) pgdr \<subseteq> pt_pages (mem s') pgdr \<and>
     pt_pages (mem s') pgdr \<subseteq> pt_pages (mem s) pgdr \<union> (set xs - set xs') \<and>
     (\<forall>a. (\<forall>q\<in>pt_pages (mem s') pgdr. \<not> in_range a q 4096) \<longrightarrow> mem s' a = mem s a)"

text \<open>\<open>walkpgdir\<close> with \<open>alloc\<close>: it finds or makes the page table page, without changing any translation.\<close>

lemma walkpgdir_alloc:
  assumes v: "vm_ok pgdr xs s"
  shows "\<not> has_table (mem s) pgdr (PDX va) \<Longrightarrow> xs = [] \<Longrightarrow> walkpgdir pgdr va True s = Ok (0, s)"
    and "has_table (mem s) pgdr (PDX va) \<or> xs \<noteq> [] \<Longrightarrow>
      \<exists>s' xs'. walkpgdir pgdr va True s = Ok (table_of (mem s') pgdr (PDX va) + 4 * PTX va, s') \<and>
        vm_ok pgdr xs' s' \<and> has_table (mem s') pgdr (PDX va) \<and> set xs' \<subseteq> set xs \<and> length xs \<le> length xs' + 1 \<and>
        (\<forall>va'. hw_walk (mem s') pgdr va' = hw_walk (mem s) pgdr va') \<and>
        s' = s\<lparr>mem := mem s', freelist := freelist s'\<rparr> \<and> pt_step pgdr xs xs' s s'"
proof -
  have k: "kmem_inv s xs" "pt_ok (mem s) pgdr" "pt_pages (mem s) pgdr \<inter> set xs = {}" "0 \<notin> pt_pages (mem s) pgdr"
    using v by (auto simp: vm_ok_def)
  show "\<not> has_table (mem s) pgdr (PDX va) \<Longrightarrow> xs = [] \<Longrightarrow> walkpgdir pgdr va True s = Ok (0, s)"
    using k(1) by (simp add: walkpgdir_def has_table_def pde_def Let_def kalloc_None)
  assume h: "has_table (mem s) pgdr (PDX va) \<or> xs \<noteq> []"
  show "\<exists>s' xs'. walkpgdir pgdr va True s = Ok (table_of (mem s') pgdr (PDX va) + 4 * PTX va, s') \<and>
        vm_ok pgdr xs' s' \<and> has_table (mem s') pgdr (PDX va) \<and> set xs' \<subseteq> set xs \<and> length xs \<le> length xs' + 1 \<and>
        (\<forall>va'. hw_walk (mem s') pgdr va' = hw_walk (mem s) pgdr va') \<and>
        s' = s\<lparr>mem := mem s', freelist := freelist s'\<rparr> \<and> pt_step pgdr xs xs' s s'"
  proof (cases "has_table (mem s) pgdr (PDX va)")
    case True
    then show ?thesis using walkpgdir_present [OF True] v by (intro exI [of _ s] exI [of _ xs]) (simp add: pt_step_def)
  next
    case False
    then obtain p ys where xs: "xs = p # ys" using h by (cases xs) auto
    have p: "p mod PGSIZE = 0" "p \<noteq> 0" "p \<notin> set ys" "p \<notin> pt_pages (mem s) pgdr"
      using k xs by (auto simp: kmem_inv_def page_ok_def)
    let ?s1 = "s\<lparr>freelist := load32 (mem s) p\<rparr>"
    have ka: "kalloc s = Ok (p, ?s1)" "kmem_inv ?s1 ys" using kalloc_Some k(1) xs by auto
    let ?m = "store32 (memset (mem s) p 0 PGSIZE) (pgdr + 4 * PDX va) (v2p p OR PTE_P OR PTE_W OR PTE_U)"
    note nt = new_table [OF k(2) False p(1,4)]
    let ?s2 = "?s1\<lparr>mem := ?m\<rparr>"
    have walk: "walkpgdir pgdr va True s = Ok (p + 4 * PTX va, ?s2)"
      using False ka(1) p(2) by (simp add: walkpgdir_def has_table_def pde_def Let_def set_word_def)
    have pg: "pgdr mod PGSIZE = 0" "pgdr \<notin> set ys" using k(2,3) xs by (auto simp: pt_ok_def pt_pages_def)
    have "kmem_inv (?s1\<lparr>mem := memset (mem s) p 0 PGSIZE\<rparr>) ys" using kmem_inv_memset [OF ka(2) p(1,3)] by simp
    from kmem_inv_store [OF this pg PDX_PTX_bound(1) [of va]] have "kmem_inv ?s2 ys" by (simp add: set_word_def)
    then have "vm_ok pgdr ys ?s2" using nt(3,4) k(3,4) xs p(2,3) by (auto simp: vm_ok_def)
    moreover have "pt_step pgdr xs ys s ?s2"
      unfolding pt_step_def
    proof (intro conjI allI impI)
      show "pt_pages (mem s) pgdr \<subseteq> pt_pages (mem ?s2) pgdr" "pt_pages (mem ?s2) pgdr \<subseteq> pt_pages (mem s) pgdr \<union> (set xs - set ys)"
        using nt(4) xs p(3) by auto
      fix a assume a: "\<forall>q\<in>pt_pages (mem ?s2) pgdr. \<not> in_range a q 4096"
      moreover have "p \<in> pt_pages (mem ?s2) pgdr" "pgdr \<in> pt_pages (mem ?s2) pgdr" using nt(4) by (simp_all add: pt_pages_def)
      ultimately have "\<not> in_range a p 4096" "\<not> in_range a pgdr 4096" by auto
      moreover from this have "\<not> in_range a (pgdr + 4 * PDX va) 4" using slot_in_page [OF PDX_PTX_bound(1)] by blast
      ultimately show "mem ?s2 a = mem s a" by (simp add: memset_eq)
    qed
    ultimately show ?thesis using walk nt xs by (intro exI [of _ ?s2] exI [of _ ys]) auto
  qed
qed

lemma mappages_page:
  "va mod PGSIZE = 0 \<Longrightarrow> mappages pgdr va PGSIZE pa perm s = mappages_loop (Suc 0) pgdr va va pa perm s"
proof -
  assume a: "va mod PGSIZE = 0"
  then obtain k where k: "unat va = 4096 * k" by (auto simp: aligned_unat dvd_def)
  have "PGROUNDDOWN va = va" using unat_PGROUNDDOWN [of va] k by (simp add: word_unat_eq_iff)
  moreover have "4096 * k < 2 ^ 32" using unat_word_less32 [of va] k by simp
  then have "unat (va + 4095) = 4096 * k + 4095" using k by (subst unat_plus_small) auto
  then have "unat (PGROUNDDOWN (va + 4095)) = 4096 * k" by (simp add: unat_PGROUNDDOWN)
  then have "PGROUNDDOWN (va + PGSIZE - 1) = va" using k by (simp add: PGSIZE_def word_unat_eq_iff add.commute)
  ultimately show ?thesis by (simp add: mappages_def Let_def del: mappages_loop.simps)
qed

lemma mappages_one:
  assumes v: "vm_ok pgdr xs s" and va: "va mod PGSIZE = 0" and pa: "pa mod PGSIZE = 0" and perm: "perm AND NOT 0xFFF = 0"
  shows "hw_walk (mem s) pgdr va \<noteq> None \<Longrightarrow> mappages pgdr va PGSIZE pa perm s = Panic ''remap''"
    and "hw_walk (mem s) pgdr va = None \<Longrightarrow> \<not> has_table (mem s) pgdr (PDX va) \<Longrightarrow> xs = [] \<Longrightarrow>
       mappages pgdr va PGSIZE pa perm s = Ok (-1, s)"
    and "hw_walk (mem s) pgdr va = None \<Longrightarrow> has_table (mem s) pgdr (PDX va) \<or> xs \<noteq> [] \<Longrightarrow>
       \<exists>s' xs'. mappages pgdr va PGSIZE pa perm s = Ok (0, s') \<and> vm_ok pgdr xs' s' \<and>
         set xs' \<subseteq> set xs \<and> length xs \<le> length xs' + 1 \<and>
         (\<forall>va'. hw_walk (mem s') pgdr va' =
            (if PGROUNDDOWN va' = va then Some (p2v pa + (va' AND 0xFFF)) else hw_walk (mem s) pgdr va')) \<and>
         s' = s\<lparr>mem := mem s', freelist := freelist s'\<rparr> \<and> pt_step pgdr xs xs' s s'"
proof -
  obtain k where k: "unat va = 4096 * k" using va by (auto simp: aligned_unat dvd_def)
  have down: "PGROUNDDOWN va = va" using unat_PGROUNDDOWN [of va] k by (simp add: word_unat_eq_iff)
  note w = PTE_ADDR_flags [OF pa perm]
  show "mappages pgdr va PGSIZE pa perm s = Ok (-1, s)"
    if "\<not> has_table (mem s) pgdr (PDX va)" "xs = []"
    using walkpgdir_alloc(1) [OF v that] by (simp add: mappages_page [OF va])
  have found: "\<exists>s' xs'. walkpgdir pgdr va True s = Ok (table_of (mem s') pgdr (PDX va) + 4 * PTX va, s') \<and>
        vm_ok pgdr xs' s' \<and> has_table (mem s') pgdr (PDX va) \<and> set xs' \<subseteq> set xs \<and> length xs \<le> length xs' + 1 \<and>
        (\<forall>va'. hw_walk (mem s') pgdr va' = hw_walk (mem s) pgdr va') \<and> s' = s\<lparr>mem := mem s', freelist := freelist s'\<rparr> \<and>
        pt_step pgdr xs xs' s s' \<and> table_of (mem s') pgdr (PDX va) + 4 * PTX va \<noteq> 0 \<and>
        (load32 (mem s') (table_of (mem s') pgdr (PDX va) + 4 * PTX va) AND PTE_P = 0 \<longleftrightarrow> hw_walk (mem s) pgdr va = None)"
    if h: "has_table (mem s) pgdr (PDX va) \<or> xs \<noteq> []"
  proof -
    obtain s' xs' where s': "walkpgdir pgdr va True s = Ok (table_of (mem s') pgdr (PDX va) + 4 * PTX va, s')"
      "vm_ok pgdr xs' s'" "has_table (mem s') pgdr (PDX va)" "set xs' \<subseteq> set xs" "length xs \<le> length xs' + 1"
      "\<forall>va'. hw_walk (mem s') pgdr va' = hw_walk (mem s) pgdr va'" "s' = s\<lparr>mem := mem s', freelist := freelist s'\<rparr>"
      "pt_step pgdr xs xs' s s'"
      using walkpgdir_alloc(2) [OF v h] by blast
    have "table_of (mem s') pgdr (PDX va) \<noteq> 0" using s'(2,3) by (auto simp: vm_ok_def pt_pages_def)
    then have n: "table_of (mem s') pgdr (PDX va) + 4 * PTX va \<noteq> 0" by (intro slot_nonzero) simp_all
    have l: "load32 (mem s') (table_of (mem s') pgdr (PDX va) + 4 * PTX va) AND PTE_P = 0 \<longleftrightarrow> hw_walk (mem s) pgdr va = None"
      using s'(6) [rule_format, of va, symmetric] s'(3) by (simp add: hw_walk_alt Let_def)
    show ?thesis by (intro exI [of _ s'] exI [of _ xs'] conjI) (fact s' n l)+
  qed
  show "mappages pgdr va PGSIZE pa perm s = Panic ''remap''" if "hw_walk (mem s) pgdr va \<noteq> None"
  proof -
    have h: "has_table (mem s) pgdr (PDX va) \<or> xs \<noteq> []" using that by (auto simp: hw_walk_alt split: if_splits)
    from found [OF h] that show ?thesis by (auto simp: mappages_page [OF va])
  qed
  assume none: "hw_walk (mem s) pgdr va = None" and h: "has_table (mem s) pgdr (PDX va) \<or> xs \<noteq> []"
  obtain s' xs' where s': "walkpgdir pgdr va True s = Ok (table_of (mem s') pgdr (PDX va) + 4 * PTX va, s')"
    "vm_ok pgdr xs' s'" "has_table (mem s') pgdr (PDX va)" "set xs' \<subseteq> set xs" "length xs \<le> length xs' + 1"
    "\<forall>va'. hw_walk (mem s') pgdr va' = hw_walk (mem s) pgdr va'" "s' = s\<lparr>mem := mem s', freelist := freelist s'\<rparr>"
    "table_of (mem s') pgdr (PDX va) + 4 * PTX va \<noteq> 0"
    "load32 (mem s') (table_of (mem s') pgdr (PDX va) + 4 * PTX va) AND PTE_P = 0" "pt_step pgdr xs xs' s s'"
    using found [OF h] none by blast
  let ?t = "table_of (mem s') pgdr (PDX va)"
  let ?s = "set_word (?t + 4 * PTX va) (pa OR perm OR PTE_P) s'"
  have run: "mappages pgdr va PGSIZE pa perm s = Ok (0, ?s)"
    using s'(1,8,9) by (simp add: mappages_page [OF va] Let_def)
  have ok: "pt_ok (mem s') pgdr" using s'(2) by (simp add: vm_ok_def)
  note sp = set_pte [OF ok s'(3), of "pa OR perm OR PTE_P"]
  have m: "mem ?s = store32 (mem s') (?t + 4 * PTX va) (pa OR perm OR PTE_P)" by (simp add: set_word_def)
  have "?t \<in> pt_pages (mem s') pgdr" using s'(3) by (simp add: pt_pages_def)
  then have "?t \<notin> set xs'" using s'(2) by (auto simp: vm_ok_def)
  then have "kmem_inv ?s xs'" using s'(2) by (intro kmem_inv_store) (simp_all add: vm_ok_def)
  then have "vm_ok pgdr xs' ?s" using sp(2,3) s'(2) unfolding vm_ok_def m by simp
  moreover have "hw_walk (mem ?s) pgdr va' =
      (if PGROUNDDOWN va' = va then Some (p2v pa + (va' AND 0xFFF)) else hw_walk (mem s) pgdr va')" for va'
    unfolding m sp(4) down using w s'(6) by simp
  moreover have step: "pt_step pgdr xs xs' s ?s"
    unfolding pt_step_def m sp(3)
  proof (intro conjI allI impI)
    show "pt_pages (mem s) pgdr \<subseteq> pt_pages (mem s') pgdr" "pt_pages (mem s') pgdr \<subseteq> pt_pages (mem s) pgdr \<union> (set xs - set xs')"
      using s'(10) by (auto simp: pt_step_def)
    fix a assume a: "\<forall>q\<in>pt_pages (mem s') pgdr. \<not> in_range a q 4096"
    then have "\<not> in_range a ?t 4096" using s'(3) by (simp add: pt_pages_def)
    then have "store32 (mem s') (?t + 4 * PTX va) (pa OR perm OR PTE_P) a = mem s' a"
      using slot_in_page [OF PDX_PTX_bound(2), of a ?t va] by (intro store32_outside) blast
    then show "store32 (mem s') (?t + 4 * PTX va) (pa OR perm OR PTE_P) a = mem s a"
      using s'(10) a by (simp add: pt_step_def)
  qed
  moreover have "?s = s\<lparr>mem := mem ?s, freelist := freelist ?s\<rparr>"
    by (subst (1) s'(7)) (simp add: set_word_def)
  ultimately show "\<exists>s' xs'. mappages pgdr va PGSIZE pa perm s = Ok (0, s') \<and> vm_ok pgdr xs' s' \<and>
         set xs' \<subseteq> set xs \<and> length xs \<le> length xs' + 1 \<and>
         (\<forall>va'. hw_walk (mem s') pgdr va' =
            (if PGROUNDDOWN va' = va then Some (p2v pa + (va' AND 0xFFF)) else hw_walk (mem s) pgdr va')) \<and>
         s' = s\<lparr>mem := mem s', freelist := freelist s'\<rparr> \<and> pt_step pgdr xs xs' s s'"
    using run s'(4,5) step by blast
qed

section \<open>Growing a process\<close>

lemma pt_page_aligned: "pt_ok m pgdr \<Longrightarrow> q \<in> pt_pages m pgdr \<Longrightarrow> q mod PGSIZE = 0"
  unfolding pt_pages_def using pt_okD(1) table_of_aligned by blast

text \<open>Memory outside the page table pages has no influence on translation.\<close>

lemma pt_cong:
  assumes ok: "pt_ok m pgdr" and same: "\<And>q a. q \<in> pt_pages m pgdr \<Longrightarrow> in_range a q 4096 \<Longrightarrow> m' a = m a"
  shows "hw_walk m' pgdr = hw_walk m pgdr" "pt_ok m' pgdr" "pt_pages m' pgdr = pt_pages m pgdr"
proof -
  have ld: "load32 m' (q + 4 * i) = load32 m (q + 4 * i)" if "q \<in> pt_pages m pgdr" "unat i < 1024" for q i
    by (rule load32_cong) (use same [OF that(1)] slot_in_page [OF that(2)] in blast)
  have p: "pde m' pgdr d = pde m pgdr d" if "unat d < 1024" for d
    unfolding pde_def using that by (intro ld) (simp_all add: pt_pages_def)
  have h: "has_table m' pgdr d = has_table m pgdr d" for d by (auto simp: has_table_def p)
  have t: "table_of m' pgdr d = table_of m pgdr d" if "has_table m pgdr d" for d
    using that by (simp add: table_of_def has_table_def p)
  show "pt_ok m' pgdr" using ok h t unfolding pt_ok_def by metis
  show "pt_pages m' pgdr = pt_pages m pgdr" using h t by (auto simp: pt_pages_def)
  have "load32 m' (table_of m pgdr (PDX va) + 4 * PTX va) = load32 m (table_of m pgdr (PDX va) + 4 * PTX va)"
    if "has_table m pgdr (PDX va)" for va using that by (intro ld) (simp_all add: pt_pages_def)
  then show "hw_walk m' pgdr = hw_walk m pgdr" using h t by (intro ext) (simp add: hw_walk_alt Let_def)
qed

text \<open>Taking a page off the free list and clearing it.\<close>

lemma take_page:
  assumes v: "vm_ok pgdr (p # ys) s"
  defines "s1 \<equiv> s\<lparr>freelist := load32 (mem s) p, mem := memset (mem s) p 0 PGSIZE\<rparr>"
  shows "kalloc s = Ok (p, s\<lparr>freelist := load32 (mem s) p\<rparr>)" "vm_ok pgdr ys s1" "p \<noteq> 0" "p mod PGSIZE = 0" "p \<notin> set ys"
    "hw_walk (mem s1) pgdr = hw_walk (mem s) pgdr" "pt_pages (mem s1) pgdr = pt_pages (mem s) pgdr"
    "in_range a p 4096 \<Longrightarrow> mem s1 a = 0" "\<not> in_range a p 4096 \<Longrightarrow> mem s1 a = mem s a" "p \<notin> pt_pages (mem s) pgdr"
proof -
  have k: "kmem_inv s (p # ys)" "pt_ok (mem s) pgdr" "pt_pages (mem s) pgdr \<inter> set (p # ys) = {}" "0 \<notin> pt_pages (mem s) pgdr"
    using v by (auto simp: vm_ok_def)
  show "kalloc s = Ok (p, s\<lparr>freelist := load32 (mem s) p\<rparr>)" using kalloc_Some [OF k(1)] by simp
  show p: "p \<noteq> 0" "p mod PGSIZE = 0" "p \<notin> set ys" using k(1) by (auto simp: kmem_inv_def page_ok_def)
  show np: "p \<notin> pt_pages (mem s) pgdr" using k(3) by auto
  show out: "mem s1 a = mem s a" if "\<not> in_range a p 4096" for a using that by (simp add: s1_def memset_eq)
  show "in_range a p 4096 \<Longrightarrow> mem s1 a = 0" by (simp add: s1_def memset_eq)
  have "mem s1 a = mem s a" if "q \<in> pt_pages (mem s) pgdr" "in_range a q 4096" for q a
    using out pages_disjoint [OF pt_page_aligned [OF k(2) that(1)] p(2)] that np by blast
  note c = pt_cong [OF k(2), of "mem s1", OF this]
  show "hw_walk (mem s1) pgdr = hw_walk (mem s) pgdr" "pt_pages (mem s1) pgdr = pt_pages (mem s) pgdr" using c by simp_all
  have "kmem_inv (s\<lparr>freelist := load32 (mem s) p\<rparr>) ys" using kalloc_Some [OF k(1)] by simp
  from kmem_inv_memset [OF this p(2,3)] have "kmem_inv s1 ys" by (simp add: s1_def)
  then show "vm_ok pgdr ys s1" using c k(3,4) by (simp add: vm_ok_def)
qed

text \<open>
  What a process gets: \<open>n\<close> pages from page \<open>k\<close> on, page \<open>k + i\<close> at \<open>f i\<close>; the pages are
  distinct, come from the free list, are not part of the page table and contain zeros.
\<close>

definition grown :: "u32 \<Rightarrow> nat \<Rightarrow> nat \<Rightarrow> u32 list \<Rightarrow> u32 list \<Rightarrow> 'a mem_st_scheme \<Rightarrow> 'a mem_st_scheme \<Rightarrow> bool" where
  "grown pgdr k n xs xs' s s' \<longleftrightarrow> vm_ok pgdr xs' s' \<and> set xs' \<subseteq> set xs \<and>
     pt_pages (mem s) pgdr \<subseteq> pt_pages (mem s') pgdr \<and> pt_pages (mem s') pgdr \<subseteq> pt_pages (mem s) pgdr \<union> (set xs - set xs') \<and>
     (\<exists>f. inj_on f {0..<n} \<and> (\<forall>i<n. f i \<in> set xs - set xs' \<and> f i \<notin> pt_pages (mem s') pgdr \<and>
            (\<forall>a. in_range a (f i) 4096 \<longrightarrow> mem s' a = 0)) \<and>
        (\<forall>a. (\<forall>q\<in>pt_pages (mem s') pgdr. \<not> in_range a q 4096) \<and> (\<forall>i<n. \<not> in_range a (f i) 4096) \<longrightarrow> mem s' a = mem s a) \<and>
        (\<forall>va. hw_walk (mem s') pgdr va =
          (if k \<le> unat va div 4096 \<and> unat va div 4096 < k + n
           then Some (f (unat va div 4096 - k) + (va AND 0xFFF)) else hw_walk (mem s) pgdr va)))"

lemma down_page: "PGROUNDDOWN va = of_nat (4096 * k) \<longleftrightarrow> unat va div 4096 = k" if "k < 2 ^ 20"
proof -
  have "unat (of_nat (4096 * k) :: u32) = 4096 * k" using that by (intro unat_of_nat32) simp
  then show ?thesis by (auto simp: word_unat_eq_iff unat_PGROUNDDOWN)
qed

lemma grown_0: "vm_ok pgdr xs s \<Longrightarrow> grown pgdr k 0 xs xs s s"
  by (auto simp: grown_def)

lemma in_range_base: "in_range p p 4096"
  by (simp add: in_range_def)

lemma grown_Suc:
  assumes t: "vm_ok pgdr (p # ys) s" and k: "k < 2 ^ 20"
    and s1: "s1 = s\<lparr>freelist := load32 (mem s) p, mem := memset (mem s) p 0 PGSIZE\<rparr>"
    and m: "vm_ok pgdr zs s2" "set zs \<subseteq> set ys" "pt_step pgdr ys zs s1 s2"
      "\<forall>va. hw_walk (mem s2) pgdr va =
         (if PGROUNDDOWN va = of_nat (4096 * k) then Some (p + (va AND 0xFFF)) else hw_walk (mem s1) pgdr va)"
    and g: "grown pgdr (Suc k) n zs xs' s2 s'"
  shows "grown pgdr k (Suc n) (p # ys) xs' s s'"
proof -
  note tp = take_page [OF t, folded s1]
  obtain f where f: "inj_on f {0..<n}"
    "\<And>i. i < n \<Longrightarrow> f i \<in> set zs - set xs' \<and> f i \<notin> pt_pages (mem s') pgdr \<and> (\<forall>a. in_range a (f i) 4096 \<longrightarrow> mem s' a = 0)"
    "\<And>a. (\<forall>q\<in>pt_pages (mem s') pgdr. \<not> in_range a q 4096) \<Longrightarrow> (\<forall>i<n. \<not> in_range a (f i) 4096) \<Longrightarrow> mem s' a = mem s2 a"
    "\<And>va. hw_walk (mem s') pgdr va =
       (if Suc k \<le> unat va div 4096 \<and> unat va div 4096 < Suc k + n
        then Some (f (unat va div 4096 - Suc k) + (va AND 0xFFF)) else hw_walk (mem s2) pgdr va)"
    using g unfolding grown_def by blast
  have gg: "vm_ok pgdr xs' s'" "set xs' \<subseteq> set zs" "pt_pages (mem s2) pgdr \<subseteq> pt_pages (mem s') pgdr"
    "pt_pages (mem s') pgdr \<subseteq> pt_pages (mem s2) pgdr \<union> (set zs - set xs')"
    using g by (simp_all add: grown_def)
  have ps: "pt_pages (mem s) pgdr \<subseteq> pt_pages (mem s2) pgdr" "pt_pages (mem s2) pgdr \<subseteq> pt_pages (mem s) pgdr \<union> (set ys - set zs)"
    "\<And>a. (\<forall>q\<in>pt_pages (mem s2) pgdr. \<not> in_range a q 4096) \<Longrightarrow> mem s2 a = mem s1 a"
    using m(3) tp(7) by (auto simp: pt_step_def)
  have pp: "p \<notin> pt_pages (mem s') pgdr" using gg(4) ps(2) tp(5,10) m(2) by auto
  have ok': "pt_ok (mem s') pgdr" using gg(1) by (simp add: vm_ok_def)
  let ?f = "case_nat p f"
  have fz: "f i \<noteq> p" if "i < n" for i using f(2) [OF that] m(2) tp(5) by auto
  have fa: "f i mod PGSIZE = 0" if "i < n" for i
    using f(2) [OF that] m(1) by (auto simp: vm_ok_def kmem_inv_def page_ok_def)
  have inj: "inj_on ?f {0..<Suc n}"
    using f(1) fz by (fastforce simp: inj_on_def split: nat.splits)
  have unch: "mem s' a = mem s1 a" if "\<forall>q\<in>pt_pages (mem s') pgdr. \<not> in_range a q 4096" "\<forall>i<n. \<not> in_range a (f i) 4096" for a
    using f(3) [OF that] ps(3) [of a] that(1) gg(3) by auto
  have zero: "mem s' a = 0" if a: "in_range a p 4096" for a
  proof -
    have "\<not> in_range a q 4096" if "q \<in> pt_pages (mem s') pgdr" for q
      using pages_disjoint [OF tp(4) pt_page_aligned [OF ok' that]] a pp that by blast
    moreover have "\<not> in_range a (f i) 4096" if "i < n" for i
      using pages_disjoint [OF tp(4) fa [OF that]] a fz [OF that] by metis
    ultimately show ?thesis using unch tp(8) [OF a] by auto
  qed
  have pages: "?f i \<in> set (p # ys) - set xs' \<and> ?f i \<notin> pt_pages (mem s') pgdr \<and> (\<forall>a. in_range a (?f i) 4096 \<longrightarrow> mem s' a = 0)"
    if "i < Suc n" for i
  proof (cases i)
    case 0
    then show ?thesis using pp zero gg(2) m(2) tp(5) by auto
  next
    case (Suc j)
    then show ?thesis using f(2) [of j] that m(2) by auto
  qed
  have other: "mem s' a = mem s a"
    if "\<forall>q\<in>pt_pages (mem s') pgdr. \<not> in_range a q 4096" "\<forall>i<Suc n. \<not> in_range a (?f i) 4096" for a
  proof -
    have "\<not> in_range a p 4096" using that(2) by (metis nat.case(1) zero_less_Suc)
    moreover have "\<forall>i<n. \<not> in_range a (f i) 4096" using that(2) by (metis Suc_less_eq nat.case(2))
    ultimately show ?thesis using unch [OF that(1)] tp(9) by simp
  qed
  have walk: "hw_walk (mem s') pgdr va =
      (if k \<le> unat va div 4096 \<and> unat va div 4096 < k + Suc n
       then Some (?f (unat va div 4096 - k) + (va AND 0xFFF)) else hw_walk (mem s) pgdr va)" for va
  proof -
    consider "unat va div 4096 = k" | "Suc k \<le> unat va div 4096" "unat va div 4096 < Suc k + n"
      | "unat va div 4096 < k \<or> Suc k + n \<le> unat va div 4096" by linarith
    then show ?thesis
    proof cases
      case 2
      then have "unat va div 4096 - k = Suc (unat va div 4096 - Suc k)" by simp
      then show ?thesis using f(4) [of va] 2 by simp
    qed (use f(4) [of va] m(4) tp(6) down_page [OF k, of va] in auto)
  qed
  show ?thesis
    unfolding grown_def
  proof (intro conjI exI [of _ ?f] allI impI)
    show "vm_ok pgdr xs' s'" "inj_on ?f {0..<Suc n}" by (fact gg(1) inj)+
    show "set xs' \<subseteq> set (p # ys)" "pt_pages (mem s) pgdr \<subseteq> pt_pages (mem s') pgdr"
      "pt_pages (mem s') pgdr \<subseteq> pt_pages (mem s) pgdr \<union> (set (p # ys) - set xs')"
      using gg(2-4) ps(1,2) m(2) tp(5) by auto
  qed (use pages other walk in blast)+
qed

lemma allocuvm_loop_grows:
  assumes "vm_ok pgdr xs s" "newsz \<le> KERNBASE" "n = (unat newsz + 4095) div 4096 - k" "2 * n \<le> length xs"
    "\<And>va. k \<le> unat va div 4096 \<Longrightarrow> unat va div 4096 < k + n \<Longrightarrow> hw_walk (mem s) pgdr va = None"
  shows "\<exists>s' xs'. allocuvm_loop pgdr oldsz newsz (4096 * k) s = Ok (newsz, s') \<and> grown pgdr k n xs xs' s s'"
  using assms
proof (induction n arbitrary: k xs s)
  case 0
  have "\<not> k < (unat newsz + 4095) div 4096" using 0(3) by linarith
  then have "\<not> 4096 * k < unat newsz" by (simp add: Suc_le_eq [symmetric] less_eq_div_iff_mult_less_eq)
  then show ?case using grown_0 [OF 0(1)] by (subst allocuvm_loop.simps) auto
next
  case (Suc n)
  have "k < (unat newsz + 4095) div 4096" using Suc.prems(3) by linarith
  then have lt: "4096 * k < unat newsz" by (simp add: Suc_le_eq [symmetric] less_eq_div_iff_mult_less_eq)
  obtain p ys where xs: "xs = p # ys" using Suc.prems(4) by (cases xs) auto
  have k: "k < 2 ^ 20" and ku: "unat (of_nat (4096 * k) :: u32) = 4096 * k"
  proof -
    have "unat newsz \<le> unat KERNBASE" using Suc.prems(2) by (simp add: word_le_nat_alt)
    then have b: "4096 * k < 2 ^ 31" using lt by (simp add: KERNBASE_def)
    then show "k < 2 ^ 20" by simp
    show "unat (of_nat (4096 * k) :: u32) = 4096 * k" by (rule unat_of_nat32) (use b in simp)
  qed
  note tp = take_page [OF Suc.prems(1) [unfolded xs]]
  define s1 where "s1 = s\<lparr>freelist := load32 (mem s) p, mem := memset (mem s) p 0 PGSIZE\<rparr>"
  have v1: "vm_ok pgdr ys s1" using tp(2) by (simp add: s1_def)
  have al: "(of_nat (4096 * k) :: u32) mod PGSIZE = 0" using ku by (simp only: aligned_unat) simp
  have w1: "hw_walk (mem s1) pgdr (of_nat (4096 * k)) = None"
    using Suc.prems(5) [of "of_nat (4096 * k)"] tp(6) ku by (simp add: s1_def)
  have perm: "(PTE_W OR PTE_U) AND NOT 0xFFF = 0" by (simp add: PTE_W_def PTE_U_def)
  have "ys \<noteq> []" using Suc.prems(4) xs by auto
  then obtain s2 zs where m: "mappages pgdr (of_nat (4096 * k)) PGSIZE (v2p p) (PTE_W OR PTE_U) s1 = Ok (0, s2)"
    "vm_ok pgdr zs s2" "set zs \<subseteq> set ys" "length ys \<le> length zs + 1"
    "\<forall>va. hw_walk (mem s2) pgdr va =
       (if PGROUNDDOWN va = of_nat (4096 * k) then Some (p + (va AND 0xFFF)) else hw_walk (mem s1) pgdr va)"
    "pt_step pgdr ys zs s1 s2"
    using mappages_one(3) [OF v1 al aligned_v2p [OF tp(4)] perm w1] unfolding p2v_v2p by blast
  have un: "hw_walk (mem s2) pgdr va = None" if "Suc k \<le> unat va div 4096" "unat va div 4096 < Suc k + n" for va
    using m(5) down_page [OF k, of va] that Suc.prems(5) [of va] tp(6) by (simp add: s1_def)
  have "n = (unat newsz + 4095) div 4096 - Suc k" using Suc.prems(3) by simp
  moreover have "2 * n \<le> length zs" using Suc.prems(4) m(4) xs by simp
  ultimately obtain s' xs' where r: "allocuvm_loop pgdr oldsz newsz (4096 * Suc k) s2 = Ok (newsz, s')"
    "grown pgdr (Suc k) n zs xs' s2 s'"
    using Suc.IH [OF m(2) Suc.prems(2), of "Suc k"] un by blast
  have "allocuvm_loop pgdr oldsz newsz (4096 * k) s = Ok (newsz, s')"
    using lt tp(1,3) m(1) r(1) by (subst allocuvm_loop.simps) (simp add: s1_def add.commute)
  moreover have "grown pgdr k (Suc n) xs xs' s s'"
    unfolding xs by (rule grown_Suc [OF Suc.prems(1) [unfolded xs] k s1_def m(2,3,6,5) r(2)])
  ultimately show ?case by blast
qed

text \<open>C24: growing a process from \<open>oldsz\<close> to \<open>newsz\<close> bytes with enough free pages succeeds, and gives it exactly the pages
  from the old to the new end: each maps to a page of its own that came off the free list, is not a page table page
  and contains only zeros (no other process's data); every other address translates as before and no other memory
  changes. A size that reaches into the kernel half is refused with nothing changed.\<close>

theorem allocuvm_maps_fresh_zeroed_pages:
  assumes "vm_ok pgdr xs s" "k = (unat oldsz + 4095) div 4096" "n = (unat newsz + 4095) div 4096 - k"
    "2 * n \<le> length xs" "oldsz \<le> newsz"
    "\<forall>va. k \<le> unat va div 4096 \<and> unat va div 4096 < k + n \<longrightarrow> hw_walk (mem s) pgdr va = None"
  shows "if newsz < KERNBASE then \<exists>s' xs'. allocuvm pgdr oldsz newsz s = Ok (newsz, s') \<and> grown pgdr k n xs xs' s s'
    else allocuvm pgdr oldsz newsz s = Ok (0, s)"
proof (cases "newsz < KERNBASE")
  case True
  have "unat oldsz \<le> unat newsz" "unat newsz < unat KERNBASE"
    using assms(5) True by (simp_all add: word_le_nat_alt word_less_nat_alt)
  then have "unat oldsz + 4095 < 2 ^ 32" by (simp add: KERNBASE_def)
  then have r: "unat (PGROUNDUP oldsz) = 4096 * k" using assms(2) by (simp add: unat_PGROUNDUP)
  have "newsz \<le> KERNBASE" using True by (rule order.strict_implies_order)
  from allocuvm_loop_grows [OF assms(1) this assms(3,4), of oldsz] assms(6)
  have e: "\<exists>s' xs'. allocuvm_loop pgdr oldsz newsz (4096 * k) s = Ok (newsz, s') \<and> grown pgdr k n xs xs' s s'" by blast
  have "allocuvm pgdr oldsz newsz s = allocuvm_loop pgdr oldsz newsz (4096 * k) s"
    using leD [OF assms(5)] leD [where x = KERNBASE and y = newsz] True r unfolding allocuvm_def by auto
  then show ?thesis using e True by simp
next
  case False
  then have "KERNBASE \<le> newsz" by (simp add: not_less)
  then have "allocuvm pgdr oldsz newsz s = Ok (0, s)" by (simp add: allocuvm_def)
  then show ?thesis using False by simp
qed

text \<open>A machine with two free pages and an empty page directory.\<close>

definition vm_demo :: cons_st where
  "vm_demo = fs_st.extend (log_st.extend demo_log (fs_st.fields []))
     (cons_st.fields False True (\<lambda>_. 0) 0 True [] [] [] 0 (replicate INPUT_BUF 0) 0 0 0)
     \<lparr>mem := mem kmem_demo, freelist := freelist kmem_demo\<rparr>"

lemma vm_demo_simps [simp]:
  "mem vm_demo = mem kmem_demo" "freelist vm_demo = freelist kmem_demo" "held vm_demo = []" "kernel_end vm_demo = 0x80110000"
  by (simp_all add: vm_demo_def fs_st.defs cons_st.defs log_st.defs demo_log_def cold_def binit_def ideinit_def
      disk_st.defs demo_disk_def demo_st_def proc_st.defs)

lemma vm_demo_dir: "pde (mem kmem_demo) 0x80400000 d = 0" if "unat d < 1024"
proof -
  have z: "mem kmem_demo a = 0" if "in_range a (0x80400000 + 4 * d) 4" for a
  proof -
    have "(0x80400000 :: u32) mod PGSIZE = 0" "(0x80200000 :: u32) mod PGSIZE = 0" by (simp_all add: PGSIZE_def)
    then have "\<not> in_range a 0x80200000 4096"
      using pages_disjoint [of "0x80400000" "0x80200000" a] slot_in_page [OF \<open>unat d < 1024\<close> that] by auto
    then have "\<not> in_range a 0x80200000 4" using in_range_mono [of a "0x80200000" 4 4096] by auto
    then show ?thesis by (simp add: kmem_demo_def)
  qed
  have "load32 (mem kmem_demo) (0x80400000 + 4 * d) = load32 (\<lambda>_. 0) (0x80400000 + 4 * d)"
    by (rule load32_cong) (rule z)
  then show ?thesis by (simp add: pde_def load32_def mk32_def)
qed

lemma vm_demo_ok: "vm_ok 0x80400000 [0x80200000, 0x80300000] vm_demo" "hw_walk (mem vm_demo) 0x80400000 va = None"
proof -
  have n: "\<not> has_table (mem kmem_demo) 0x80400000 d" for d by (auto simp: has_table_def vm_demo_dir)
  then show "hw_walk (mem vm_demo) 0x80400000 va = None" by (simp add: hw_walk_alt)
  have "kmem_inv vm_demo [0x80200000, 0x80300000]"
    using kmem_demo_inv by (simp add: kmem_inv_def page_ok_def kmem_demo_def)
  then show "vm_ok 0x80400000 [0x80200000, 0x80300000] vm_demo"
    using n by (simp add: vm_ok_def pt_ok_def pt_pages_def PGSIZE_def)
qed

theorem allocuvm_maps_fresh_zeroed_pages_witness:
  "\<exists>s' q. allocuvm 0x80400000 0 100 vm_demo = Ok (100, s') \<and> hw_walk (mem s') 0x80400000 50 = Some (q + 50) \<and>
     q \<in> {0x80200000, 0x80300000} \<and> mem s' q = 0 \<and> hw_walk (mem s') 0x80400000 5000 = None"
proof -
  have "(0 :: nat) = (unat (0 :: u32) + 4095) div 4096" "(1 :: nat) = (unat (100 :: u32) + 4095) div 4096 - 0"
    "2 * 1 \<le> length [0x80200000, 0x80300000 :: u32]" "(0 :: u32) \<le> 100" by simp_all
  from allocuvm_maps_fresh_zeroed_pages [OF vm_demo_ok(1) this] vm_demo_ok(2)
  have "if (100 :: u32) < KERNBASE then \<exists>s' xs'. allocuvm 0x80400000 0 100 vm_demo = Ok (100, s') \<and>
      grown 0x80400000 0 1 [0x80200000, 0x80300000] xs' vm_demo s' else allocuvm 0x80400000 0 100 vm_demo = Ok (0, vm_demo)"
    by blast
  then obtain s' xs' where a: "allocuvm 0x80400000 0 100 vm_demo = Ok (100, s')"
    "grown 0x80400000 0 1 [0x80200000, 0x80300000] xs' vm_demo s'" by (auto simp: KERNBASE_def)
  then obtain f where f: "f 0 \<in> set [0x80200000, 0x80300000 :: u32]" "\<forall>a. in_range a (f 0) 4096 \<longrightarrow> mem s' a = 0"
    "\<forall>va. hw_walk (mem s') 0x80400000 va = (if 0 \<le> unat va div 4096 \<and> unat va div 4096 < 0 + 1
       then Some (f (unat va div 4096 - 0) + (va AND 0xFFF)) else hw_walk (mem vm_demo) 0x80400000 va)"
    unfolding grown_def by (metis DiffD1 zero_less_one)
  have "(50 AND 0xFFF :: u32) = 50" "unat (50 :: u32) = 50" "unat (5000 :: u32) = 5000" by simp_all
  then have "hw_walk (mem s') 0x80400000 50 = Some (f 0 + 50)" "hw_walk (mem s') 0x80400000 5000 = None"
    using f(3) vm_demo_ok(2) by simp_all
  then show ?thesis using a(1) f(1,2) in_range_base by (intro exI [of _ s'] exI [of _ "f 0"]) auto
qed

end
