(* ===== verification/File.thy ===== *)
theory File
  imports Vm
begin

text \<open>
  \<open>file.c\<close> and \<open>pipe.c\<close>: the table of open files and the pipes behind some of them. A pipe
  lives in a page of memory and is found by the address of the page. Reads return what
  they store at the destination, writes take the bytes at the source.
\<close>

section \<open>State\<close>

definition NFILE :: nat where "NFILE = 100"
definition PIPESIZE :: nat where "PIPESIZE = 512"

datatype ftype = FD_NONE | FD_PIPE | FD_INODE

record kfile =
  f_type :: ftype
  f_ref :: int
  f_readable :: bool
  f_writable :: bool
  f_pipe :: u32
  f_ip :: nat
  f_off :: u32

record pipe =
  p_data :: "byte list"
  nread :: u32
  nwrite :: u32
  readopen :: bool
  writeopen :: bool

record file_st = vm_st +
  ftable :: "kfile list"
  pipes :: "u32 \<Rightarrow> pipe"

definition upd_file :: "nat \<Rightarrow> (kfile \<Rightarrow> kfile) \<Rightarrow> 'a file_st_scheme \<Rightarrow> 'a file_st_scheme" where
  "upd_file f g s = s\<lparr>ftable := (ftable s)[f := g (ftable s ! f)]\<rparr>"

definition upd_pipe :: "u32 \<Rightarrow> (pipe \<Rightarrow> pipe) \<Rightarrow> 'a file_st_scheme \<Rightarrow> 'a file_st_scheme" where
  "upd_pipe p g s = s\<lparr>pipes := (pipes s)(p := g (pipes s p))\<rparr>"

section \<open>The file table\<close>

definition filealloc :: "'a file_st_scheme \<Rightarrow> (nat option \<times> 'a file_st_scheme) res" where
  "filealloc s =
     bnd (lock L_ftable s) (\<lambda>s.
     case first_idx (\<lambda>f. f_ref f = 0) (ftable s) of
       Some f \<Rightarrow> bnd (unlock L_ftable (upd_file f (\<lambda>f. f\<lparr>f_ref := 1\<rparr>) s)) (\<lambda>s. Ok (Some f, s))
     | None \<Rightarrow> bnd (unlock L_ftable s) (\<lambda>s. Ok (None, s)))"

definition filedup :: "nat \<Rightarrow> 'a file_st_scheme \<Rightarrow> (nat \<times> 'a file_st_scheme) res" where
  "filedup f s =
     bnd (lock L_ftable s) (\<lambda>s.
     if f_ref (ftable s ! f) < 1 then Panic ''filedup'' else
     bnd (unlock L_ftable (upd_file f (\<lambda>f. f\<lparr>f_ref := f_ref f + 1\<rparr>) s)) (\<lambda>s. Ok (f, s)))"

section \<open>Pipes\<close>

definition pipeclose :: "u32 \<Rightarrow> bool \<Rightarrow> 'a file_st_scheme \<Rightarrow> 'a file_st_scheme res" where
  "pipeclose p wr s =
     bnd (lock (L_pipe p) s) (\<lambda>s.
     bnd (if wr then wakeup (Ch_nread p) (upd_pipe p (\<lambda>q. q\<lparr>writeopen := False\<rparr>) s)
          else wakeup (Ch_nwrite p) (upd_pipe p (\<lambda>q. q\<lparr>readopen := False\<rparr>) s)) (\<lambda>s.
     if \<not> readopen (pipes s p) \<and> \<not> writeopen (pipes s p)
     then bnd (unlock (L_pipe p) s) (kfree p)
     else unlock (L_pipe p) s))"

text \<open>\<open>p->data[p->nwrite++ % PIPESIZE] = c\<close> and \<open>p->data[p->nread++ % PIPESIZE]\<close>.\<close>

definition pipe_put :: "byte \<Rightarrow> pipe \<Rightarrow> pipe" where
  "pipe_put c q = q\<lparr>p_data := (p_data q)[unat (nwrite q) mod PIPESIZE := c], nwrite := nwrite q + 1\<rparr>"

definition pipe_get :: "pipe \<Rightarrow> byte \<times> pipe" where
  "pipe_get q = (p_data q ! (unat (nread q) mod PIPESIZE), q\<lparr>nread := nread q + 1\<rparr>)"

definition cur_killed :: "('a proc_st_scheme, bool) prog" where
  "cur_killed = call (\<lambda>s. with_cur s (\<lambda>p. Ok (killed (procs s ! p), s)))"

text \<open>Waiting for room in a pipe; \<open>False\<close> when the write has to fail.\<close>

function pipe_room :: "u32 \<Rightarrow> ('a file_st_scheme, bool) prog" where
  "pipe_room p w =
     (if nwrite (pipes (fst w) p) = nread (pipes (fst w) p) + of_nat PIPESIZE then
        bnd (if readopen (pipes (fst w) p) then with_cur (fst w) (\<lambda>c. Ok (killed (procs (fst w) ! c))) else Ok True) (\<lambda>fail.
        if fail then Ok (False, w) else
        bnd (wakeup (Ch_nread p) (fst w)) (\<lambda>s.
        thn (sleep_on (Ch_nwrite p) (L_pipe p)) (\<lambda>_. pipe_room p) (s, snd w)))
      else Ok (True, w))"
  by pat_completeness auto
termination
  by (relation "measure (\<lambda>(_, w). length (snd w))") (auto dest: sleep_on_env)

declare pipe_room.simps [simp del]

fun pipewrite_loop :: "u32 \<Rightarrow> byte list \<Rightarrow> ('a file_st_scheme, bool) prog" where
  "pipewrite_loop p [] = ret True"
| "pipewrite_loop p (c # bs) =
     thn (pipe_room p) (\<lambda>ok.
     if \<not> ok then ret False else
     thn (modify (upd_pipe p (pipe_put c))) (\<lambda>_. pipewrite_loop p bs))"

definition pipewrite :: "u32 \<Rightarrow> byte list \<Rightarrow> int \<Rightarrow> ('a file_st_scheme, int) prog" where
  "pipewrite p src n =
     thn (upd (lock (L_pipe p))) (\<lambda>_.
     thn (pipewrite_loop p (take (nat n) src)) (\<lambda>ok.
     if \<not> ok then thn (upd (unlock (L_pipe p))) (\<lambda>_. ret (-1)) else
     thn (upd (wakeup (Ch_nread p))) (\<lambda>_.
     thn (upd (unlock (L_pipe p))) (\<lambda>_. ret n))))"

text \<open>Waiting for data or the end of the data; \<open>False\<close> when the reader has been killed.\<close>

function pipe_data_wait :: "u32 \<Rightarrow> ('a file_st_scheme, bool) prog" where
  "pipe_data_wait p w =
     (if nread (pipes (fst w) p) = nwrite (pipes (fst w) p) \<and> writeopen (pipes (fst w) p) then
        bnd (with_cur (fst w) (\<lambda>c. Ok (killed (procs (fst w) ! c)))) (\<lambda>k.
        if k then Ok (False, w)
        else thn (sleep_on (Ch_nread p) (L_pipe p)) (\<lambda>_. pipe_data_wait p) w)
      else Ok (True, w))"
  by pat_completeness auto
termination
  by (relation "measure (\<lambda>(_, w). length (snd w))") (auto dest: sleep_on_env)

declare pipe_data_wait.simps [simp del]

fun pipe_copy :: "nat \<Rightarrow> pipe \<Rightarrow> byte list \<times> pipe" where
  "pipe_copy 0 q = ([], q)"
| "pipe_copy (Suc n) q =
     (if nread q = nwrite q then ([], q)
      else let (c, q) = pipe_get q; (bs, q) = pipe_copy n q in (c # bs, q))"

definition piperead :: "u32 \<Rightarrow> int \<Rightarrow> ('a file_st_scheme, int \<times> byte list) prog" where
  "piperead p n =
     thn (upd (lock (L_pipe p))) (\<lambda>_.
     thn (pipe_data_wait p) (\<lambda>ok.
     if \<not> ok then thn (upd (unlock (L_pipe p))) (\<lambda>_. ret (-1, [])) else
     thn (gets (\<lambda>s. pipe_copy (nat n) (pipes s p))) (\<lambda>(bs, q).
     thn (modify (upd_pipe p (\<lambda>_. q))) (\<lambda>_.
     thn (upd (wakeup (Ch_nwrite p))) (\<lambda>_.
     thn (upd (unlock (L_pipe p))) (\<lambda>_. ret (int (length bs), bs)))))))"

section \<open>Open files\<close>

definition fileclose :: "nat \<Rightarrow> ('a file_st_scheme, unit) prog" where
  "fileclose f =
     thn (upd (lock L_ftable)) (\<lambda>_.
     thn (gets (\<lambda>s. ftable s ! f)) (\<lambda>ff.
     if f_ref ff < 1 then panic ''fileclose'' else
     thn (modify (upd_file f (\<lambda>g. g\<lparr>f_ref := f_ref g - 1\<rparr>))) (\<lambda>_.
     if f_ref ff - 1 > 0 then upd (unlock L_ftable) else
     thn (modify (upd_file f (\<lambda>g. g\<lparr>f_ref := 0, f_type := FD_NONE\<rparr>))) (\<lambda>_.
     thn (upd (unlock L_ftable)) (\<lambda>_.
     case f_type ff of
       FD_PIPE \<Rightarrow> upd (pipeclose (f_pipe ff) (f_writable ff))
     | FD_INODE \<Rightarrow>
         thn begin_trans (\<lambda>_.
         thn (iput (f_ip ff)) (\<lambda>_.
         commit_trans))
     | FD_NONE \<Rightarrow> ret ())))))"

definition set_pipe_file :: "u32 \<Rightarrow> bool \<Rightarrow> kfile \<Rightarrow> kfile" where
  "set_pipe_file p wr f = f\<lparr>f_type := FD_PIPE, f_readable := \<not> wr, f_writable := wr, f_pipe := p\<rparr>"

text \<open>\<open>None\<close> is the failure return -1.\<close>

definition pipealloc :: "('a file_st_scheme, (nat \<times> nat) option) prog" where
  "pipealloc =
     thn (call filealloc) (\<lambda>f0.
     case f0 of
       None \<Rightarrow> ret None
     | Some f0 \<Rightarrow>
         thn (call filealloc) (\<lambda>f1.
         case f1 of
           None \<Rightarrow> thn (fileclose f0) (\<lambda>_. ret None)
         | Some f1 \<Rightarrow>
             thn (call kalloc) (\<lambda>p.
             if p = 0 then thn (fileclose f0) (\<lambda>_. thn (fileclose f1) (\<lambda>_. ret None)) else
             thn (modify (upd_pipe p (\<lambda>q. q\<lparr>readopen := True, writeopen := True, nwrite := 0, nread := 0\<rparr>))) (\<lambda>_.
             thn (modify (upd_file f0 (set_pipe_file p False))) (\<lambda>_.
             thn (modify (upd_file f1 (set_pipe_file p True))) (\<lambda>_.
             ret (Some (f0, f1))))))))"

definition filestat :: "nat \<Rightarrow> ('a file_st_scheme, stat option) prog" where
  "filestat f =
     thn (gets (\<lambda>s. ftable s ! f)) (\<lambda>ff.
     if f_type ff = FD_INODE then
       thn (ilock (f_ip ff)) (\<lambda>_.
       thn (the_inode (f_ip ff)) (\<lambda>ip.
       thn (upd (iunlock (f_ip ff))) (\<lambda>_. ret (Some (stati ip)))))
     else ret None)"

definition fileread :: "nat \<Rightarrow> int \<Rightarrow> ('a file_st_scheme, int \<times> byte list) prog" where
  "fileread f n =
     thn (gets (\<lambda>s. ftable s ! f)) (\<lambda>ff.
     if \<not> f_readable ff then ret (-1, [])
     else case f_type ff of
       FD_PIPE \<Rightarrow> piperead (f_pipe ff) n
     | FD_INODE \<Rightarrow>
         thn (ilock (f_ip ff)) (\<lambda>_.
         thn (gets (\<lambda>s. f_off (ftable s ! f))) (\<lambda>off.
         thn (readi devsw (f_ip ff) off (word_of_int n)) (\<lambda>(r, bs).
         thn (whenp (r > 0) (modify (upd_file f (\<lambda>g. g\<lparr>f_off := f_off g + word_of_int r\<rparr>)))) (\<lambda>_.
         thn (upd (iunlock (f_ip ff))) (\<lambda>_. ret (r, bs))))))
     | FD_NONE \<Rightarrow> panic ''fileread'')"

definition write_max :: nat where "write_max = ((LOGSIZE - 1 - 1 - 2) div 2) * 512"

text \<open>The bytes still to write; the result says whether all of them were written.\<close>

function filewrite_loop :: "nat \<Rightarrow> nat \<Rightarrow> byte list \<Rightarrow> ('a file_st_scheme, bool) prog" where
  "filewrite_loop f i bs =
     (if bs = [] then ret True else
      let n1 = min (length bs) write_max in
      thn begin_trans (\<lambda>_.
      thn (ilock i) (\<lambda>_.
      thn (gets (\<lambda>s. f_off (ftable s ! f))) (\<lambda>off.
      thn (writei devsw i (take n1 bs) off (of_nat n1)) (\<lambda>r.
      thn (whenp (r > 0) (modify (upd_file f (\<lambda>g. g\<lparr>f_off := f_off g + word_of_int r\<rparr>)))) (\<lambda>_.
      thn (upd (iunlock i)) (\<lambda>_.
      thn commit_trans (\<lambda>_.
      if r < 0 then ret False
      else if r \<noteq> int n1 then panic ''short filewrite''
      else filewrite_loop f i (drop n1 bs)))))))))"
  by pat_completeness auto
termination
  by (relation "measure (\<lambda>(_, _, bs). length bs)") (auto simp: write_max_def LOGSIZE_def)

declare filewrite_loop.simps [simp del]

definition filewrite :: "nat \<Rightarrow> byte list \<Rightarrow> int \<Rightarrow> ('a file_st_scheme, int) prog" where
  "filewrite f src n =
     thn (gets (\<lambda>s. ftable s ! f)) (\<lambda>ff.
     if \<not> f_writable ff then ret (-1)
     else case f_type ff of
       FD_PIPE \<Rightarrow> pipewrite (f_pipe ff) src n
     | FD_INODE \<Rightarrow>
         if n < 0 then ret (-1)
         else thn (filewrite_loop f (f_ip ff) (take (nat n) src)) (\<lambda>ok. ret (if ok then n else -1))
     | FD_NONE \<Rightarrow> panic ''filewrite'')"

end
