(* ===== verification/Pipe.thy ===== *)
theory Pipe
  imports File
begin

text \<open>
  Correctness of the pipes: a pipe is a bounded first-in first-out queue of bytes whose
  ends can be closed.
\<close>

section \<open>A pipe as a queue\<close>

definition pipe_bytes :: "pipe \<Rightarrow> byte list" where
  "pipe_bytes q = ring_list (p_data q) (nread q) (unat (nwrite q - nread q))"

definition pipe_ok :: "pipe \<Rightarrow> bool" where
  "pipe_ok q \<longleftrightarrow> length (p_data q) = PIPESIZE \<and> unat (nwrite q - nread q) \<le> PIPESIZE"

lemma length_pipe_bytes: "length (pipe_bytes q) = unat (nwrite q - nread q)"
  by (simp add: pipe_bytes_def)

lemma pipe_empty_iff: "nread q = nwrite q \<longleftrightarrow> pipe_bytes q = []"
proof
  assume "pipe_bytes q = []"
  then have "unat (nwrite q - nread q) = 0" using length_pipe_bytes [of q] by simp
  then show "nread q = nwrite q" by (simp add: unat_eq_zero)
qed (simp add: pipe_bytes_def)

lemma pipe_full_iff:
  assumes "pipe_ok q"
  shows "nwrite q = nread q + of_nat PIPESIZE \<longleftrightarrow> length (pipe_bytes q) = PIPESIZE"
proof -
  have "unat (nwrite q - nread q) = PIPESIZE \<longleftrightarrow> nwrite q - nread q = of_nat PIPESIZE"
    by (rule unat_eq_of_nat32) (simp add: PIPESIZE_def)
  then show ?thesis by (auto simp: length_pipe_bytes diff_eq_eq add.commute)
qed

interpretation pipe_queue: byte_queue pipe_put pipe_get pipe_bytes PIPESIZE pipe_ok
proof
  fix q :: pipe and c
  assume q: "pipe_ok q"
  then have l: "length (p_data q) = PIPESIZE" by (simp add: pipe_ok_def)
  have put: "pipe_put c q = q\<lparr>p_data := ring_set (p_data q) (nwrite q) c, nwrite := nwrite q + 1\<rparr>"
    using l by (simp add: pipe_put_def ring_set_def)
  have get: "pipe_get q = (ring_at (p_data q) (nread q), q\<lparr>nread := nread q + 1\<rparr>)"
    using l by (simp add: pipe_get_def ring_at_def)
  { assume "length (pipe_bytes q) < PIPESIZE"
    then have n: "unat (nwrite q - nread q) < length (p_data q)" using l by (simp add: length_pipe_bytes)
    then have "unat (nwrite q + 1 - nread q) = Suc (unat (nwrite q - nread q))"
      using l by (intro unat_diff_Suc) (simp add: PIPESIZE_def)
    then show "pipe_ok (pipe_put c q)" using n l by (simp add: put pipe_ok_def)
    show "pipe_bytes (pipe_put c q) = pipe_bytes q @ [c]"
      using ring_put [of "p_data q" "nwrite q" "nread q" c] n l by (simp add: put pipe_bytes_def PIPESIZE_def) }
  { assume "pipe_bytes q \<noteq> []"
    then have ne: "nwrite q \<noteq> nread q" by (metis pipe_empty_iff)
    then show "pipe_ok (snd (pipe_get q))"
      using q unat_diff_pred [OF ne] by (auto simp: get pipe_ok_def)
    show "pipe_bytes q = fst (pipe_get q) # pipe_bytes (snd (pipe_get q))"
      using ring_get [OF ne] by (simp add: get pipe_bytes_def) }
qed

lemma pipe_copy_ok:
  "pipe_ok q \<Longrightarrow> fst (pipe_copy n q) = take n (pipe_bytes q) \<and> pipe_bytes (snd (pipe_copy n q)) = drop n (pipe_bytes q) \<and>
     pipe_ok (snd (pipe_copy n q)) \<and> readopen (snd (pipe_copy n q)) = readopen q \<and> writeopen (snd (pipe_copy n q)) = writeopen q"
proof (induction n arbitrary: q)
  case (Suc n)
  show ?case
  proof (cases "nread q = nwrite q")
    case True
    then show ?thesis using Suc.prems by (simp add: pipe_empty_iff)
  next
    case False
    then have ne: "pipe_bytes q \<noteq> []" by (simp add: pipe_empty_iff)
    obtain c q' where g: "pipe_get q = (c, q')" by fastforce
    have "pipe_ok q'" "pipe_bytes q = c # pipe_bytes q'"
      using pipe_queue.get_ok [OF Suc.prems ne] pipe_queue.get_contents [OF Suc.prems ne] g by auto
    moreover have "readopen q' = readopen q" "writeopen q' = writeopen q" using g by (auto simp: pipe_get_def)
    ultimately show ?thesis using Suc.IH [of q'] g False by (auto simp: split_def Let_def)
  qed
qed simp

lemma pipe_put_open [simp]: "readopen (pipe_put c q) = readopen q" "writeopen (pipe_put c q) = writeopen q"
  by (simp_all add: pipe_put_def)

lemma fold_pipe_put_open [simp]:
  "readopen (fold pipe_put bs q) = readopen q" "writeopen (fold pipe_put bs q) = writeopen q"
  by (induction bs arbitrary: q) auto

section \<open>Writing\<close>

definition sleepers_awake :: "chan \<Rightarrow> 'a proc_st_scheme \<Rightarrow> bool" where
  "sleepers_awake ch s \<longleftrightarrow> (\<forall>p\<in>set (procs s). \<not> (pstate p = SLEEPING \<and> pchan p = Some ch))"

lemma wakeup_run:
  assumes "L_ptable \<notin> set (held s)"
  shows "wakeup ch s = Ok (wakeup1 ch s)"
  using assms by (simp add: wakeup_def wakeup1_def)

lemma wakeup1_awake: "sleepers_awake ch (wakeup1 ch s)"
  by (auto simp: sleepers_awake_def wakeup1_def)

lemma upd_pipe_simps [simp]:
  "pipes (upd_pipe p g s) = (pipes s)(p := g (pipes s p))" "held (upd_pipe p g s) = held s"
  "procs (upd_pipe p g s) = procs s" "cur (upd_pipe p g s) = cur s"
  by (simp_all add: upd_pipe_def)

lemma upd_pipe_id: "upd_pipe p (\<lambda>q. q) s = s"
  by (simp add: upd_pipe_def)

lemma upd_pipe_upd: "upd_pipe p g (upd_pipe p f s) = upd_pipe p (\<lambda>q. g (f q)) s"
  by (simp add: upd_pipe_def)

lemma wakeup1_pipe_simps [simp]:
  "pipes (wakeup1 ch s) = pipes s" "held (wakeup1 ch t) = held t" "cur (wakeup1 ch t) = cur t"
  by (simp_all add: wakeup1_def)

lemma pipewrite_loop_room:
  assumes "pipe_ok (pipes s p)" "length (pipe_bytes (pipes s p)) + length bs \<le> PIPESIZE"
  shows "pipewrite_loop p bs (s, env) = Ok (True, upd_pipe p (fold pipe_put bs) s, env)"
  using assms
proof (induction bs arbitrary: s)
  case Nil
  show ?case by (simp add: upd_pipe_id)
next
  case (Cons c bs)
  have "pipe_room p (s, env) = Ok (True, s, env)"
    using Cons.prems pipe_full_iff [OF Cons.prems(1)] by (subst pipe_room.simps) simp
  moreover have "pipe_ok (pipe_put c (pipes s p))" "pipe_bytes (pipe_put c (pipes s p)) = pipe_bytes (pipes s p) @ [c]"
    using Cons.prems by (auto intro!: pipe_queue.put_ok pipe_queue.put_contents)
  ultimately show ?case
    using Cons.IH [of "upd_pipe p (pipe_put c) s"] Cons.prems(2) by (simp add: thn_run upd_pipe_upd)
qed

text \<open>A full pipe whose read end is closed.\<close>

lemma pipewrite_loop_full:
  assumes "pipe_ok (pipes s p)" "length (pipe_bytes (pipes s p)) + k = PIPESIZE" "k < length bs" "\<not> readopen (pipes s p)"
  shows "pipewrite_loop p bs (s, env) = Ok (False, upd_pipe p (fold pipe_put (take k bs)) s, env)"
  using assms
proof (induction k arbitrary: s bs)
  case 0
  then obtain c rest where bs: "bs = c # rest" by (cases bs) auto
  have "pipe_room p (s, env) = Ok (False, s, env)"
    using 0 pipe_full_iff [OF 0(1)] by (subst pipe_room.simps) simp
  then show ?case using bs by (simp add: thn_run upd_pipe_id)
next
  case (Suc k)
  then obtain c rest where bs: "bs = c # rest" by (cases bs) auto
  have "pipe_room p (s, env) = Ok (True, s, env)"
    using Suc.prems pipe_full_iff [OF Suc.prems(1)] by (subst pipe_room.simps) simp
  moreover have "pipe_ok (pipe_put c (pipes s p))" "pipe_bytes (pipe_put c (pipes s p)) = pipe_bytes (pipes s p) @ [c]"
    using Suc.prems by (auto intro!: pipe_queue.put_ok pipe_queue.put_contents)
  ultimately show ?case
    using Suc.IH [of "upd_pipe p (pipe_put c) s" rest] Suc.prems bs by (simp add: thn_run upd_pipe_upd)
qed

text \<open>C25: writing \<open>n\<close> bytes to a pipe that has room for them returns \<open>n\<close>, appends exactly these bytes to the contents of
  the pipe, and leaves no reader asleep. Writing more than fits into a pipe whose read end is closed fails: the bytes
  that fit are stored, and the call returns -1 instead of sleeping for ever.\<close>

theorem pipewrite_appends_or_fails:
  assumes "pipe_ok (pipes s p)" "0 \<le> n" "length src = nat n" "L_ptable \<notin> set (held s)" "L_pipe p \<notin> set (held s)"
  shows "(length (pipe_bytes (pipes s p)) + length src \<le> PIPESIZE \<longrightarrow>
      returns (pipewrite p src n (s, env)) (\<lambda>(r, s', env'). r = n \<and> env' = env \<and> pipe_ok (pipes s' p) \<and>
        pipe_bytes (pipes s' p) = pipe_bytes (pipes s p) @ src \<and> sleepers_awake (Ch_nread p) s' \<and> held s' = held s)) \<and>
    (length (pipe_bytes (pipes s p)) + length src > PIPESIZE \<and> \<not> readopen (pipes s p) \<longrightarrow>
      returns (pipewrite p src n (s, env)) (\<lambda>(r, s', env'). r = -1 \<and> env' = env \<and> pipe_ok (pipes s' p) \<and>
        pipe_bytes (pipes s' p) = take PIPESIZE (pipe_bytes (pipes s p) @ src) \<and> held s' = held s))"
proof (intro conjI impI)
  let ?s = "s\<lparr>held := L_pipe p # held s\<rparr>"
  have pl: "pipes ?s = pipes s" by simp
  {
    assume room: "length (pipe_bytes (pipes s p)) + length src \<le> PIPESIZE"
    let ?t = "upd_pipe p (fold pipe_put src) ?s"
    have run: "pipewrite_loop p src (?s, env) = Ok (True, ?t, env)"
      using assms(1) room by (intro pipewrite_loop_room) simp_all
    have "L_ptable \<notin> set (held ?t)" using assms(4) by simp
    then have "pipewrite p src n (s, env) = Ok (n, (wakeup1 (Ch_nread p) ?t)\<lparr>held := held s\<rparr>, env)"
      using run assms(3,5) by (simp add: pipewrite_def thn_run wakeup_run)
    moreover have "sleepers_awake (Ch_nread p) ((wakeup1 (Ch_nread p) ?t)\<lparr>held := held s\<rparr>)"
      using wakeup1_awake [of "Ch_nread p" ?t] by (simp add: sleepers_awake_def)
    ultimately show "returns (pipewrite p src n (s, env)) (\<lambda>(r, s', env'). r = n \<and> env' = env \<and> pipe_ok (pipes s' p) \<and>
        pipe_bytes (pipes s' p) = pipe_bytes (pipes s p) @ src \<and> sleepers_awake (Ch_nread p) s' \<and> held s' = held s)"
      using pipe_queue.put_all [OF assms(1) room] by simp
  next
    assume f: "length (pipe_bytes (pipes s p)) + length src > PIPESIZE \<and> \<not> readopen (pipes s p)"
    define k where "k = PIPESIZE - length (pipe_bytes (pipes s p))"
    have k: "length (pipe_bytes (pipes s p)) + k = PIPESIZE" "k < length src"
      using f assms(1) by (auto simp: k_def pipe_ok_def length_pipe_bytes)
    let ?t = "upd_pipe p (fold pipe_put (take k src)) ?s"
    have "pipewrite_loop p src (?s, env) = Ok (False, ?t, env)"
      using assms(1) k f by (intro pipewrite_loop_full) simp_all
    then have "pipewrite p src n (s, env) = Ok (-1, ?t\<lparr>held := held s\<rparr>, env)"
      using assms(3,5) by (simp add: pipewrite_def thn_run)
    moreover have "take PIPESIZE (pipe_bytes (pipes s p) @ src) = pipe_bytes (pipes s p) @ take k src"
      using k by (simp add: k_def)
    ultimately show "returns (pipewrite p src n (s, env)) (\<lambda>(r, s', env'). r = -1 \<and> env' = env \<and> pipe_ok (pipes s' p) \<and>
        pipe_bytes (pipes s' p) = take PIPESIZE (pipe_bytes (pipes s p) @ src) \<and> held s' = held s)"
      using pipe_queue.put_all [OF assms(1), of "take k src"] k by simp
  }
qed

section \<open>Reading\<close>

text \<open>C26: reading from a pipe that has data, or whose write end is closed, returns at once with the first bytes of the
  pipe, at most \<open>n\<close> of them, removes exactly those, and leaves no writer asleep; a result of 0 bytes for a positive \<open>n\<close>
  means that the pipe is empty and nobody can write to it any more.\<close>

theorem piperead_takes_prefix:
  assumes "pipe_ok (pipes s p)" "0 \<le> n" "L_ptable \<notin> set (held s)" "L_pipe p \<notin> set (held s)"
    "pipe_bytes (pipes s p) \<noteq> [] \<or> \<not> writeopen (pipes s p)"
  shows "returns (piperead p n (s, env)) (\<lambda>((r, bs), s', env'). env' = env \<and> r = int (length bs) \<and>
     bs = take (nat n) (pipe_bytes (pipes s p)) \<and> pipe_bytes (pipes s' p) = drop (nat n) (pipe_bytes (pipes s p)) \<and>
     pipe_ok (pipes s' p) \<and> sleepers_awake (Ch_nwrite p) s' \<and> held s' = held s \<and>
     (r = 0 \<and> 0 < n \<longrightarrow> pipe_bytes (pipes s' p) = [] \<and> \<not> writeopen (pipes s' p)))"
proof -
  let ?s = "s\<lparr>held := L_pipe p # held s\<rparr>"
  obtain bs q where c: "pipe_copy (nat n) (pipes s p) = (bs, q)" by fastforce
  note pc = pipe_copy_ok [OF assms(1), of "nat n", unfolded c fst_conv snd_conv]
  have w: "pipe_data_wait p (?s, env) = Ok (True, ?s, env)"
    using assms(5) by (subst pipe_data_wait.simps) (auto simp: pipe_empty_iff)
  let ?t = "upd_pipe p (\<lambda>_. q) ?s"
  have "L_ptable \<notin> set (held ?t)" using assms(3) by simp
  then have run: "piperead p n (s, env) = Ok ((int (length bs), bs), (wakeup1 (Ch_nwrite p) ?t)\<lparr>held := held s\<rparr>, env)"
    using w c assms(4) by (simp add: piperead_def thn_run wakeup_run)
  have aw: "sleepers_awake (Ch_nwrite p) ((wakeup1 (Ch_nwrite p) ?t)\<lparr>held := held s\<rparr>)"
    using wakeup1_awake [of "Ch_nwrite p" ?t] by (simp add: sleepers_awake_def)
  have pt: "pipes ((wakeup1 (Ch_nwrite p) ?t)\<lparr>held := held s\<rparr>) p = q" by simp
  have eof: "pipe_bytes q = [] \<and> \<not> writeopen q" if "int (length bs) = 0 \<and> 0 < n"
  proof -
    have "pipe_bytes (pipes s p) = []" using pc that by (cases "pipe_bytes (pipes s p)") auto
    then show ?thesis using pc assms(5) by simp
  qed
  show ?thesis
    unfolding run returns_simps prod.case pt using pc aw eof by (intro conjI) simp_all
qed

section \<open>Examples\<close>

text \<open>A pipe holding two bytes whose counters are about to wrap.\<close>

definition demo_pipe :: pipe where
  "demo_pipe = \<lparr>p_data = (replicate PIPESIZE 0)[510 := 7, 511 := 8], nread = 0xfffffffe, nwrite = 0,
     readopen = False, writeopen = True\<rparr>"

definition demo_file :: file_st where
  "demo_file = vm_st.extend (cons_st.extend
     (fs_st.extend (log_st.extend demo_log (fs_st.fields []))
       (cons_st.fields False True (\<lambda>_. 0) 0 True [] [] [] 0 (replicate INPUT_BUF 0) 0 0 0))
     (vm_st.fields 0x80108000)) (file_st.fields [] (\<lambda>_. demo_pipe))"

lemma demo_file_simps [simp]: "pipes demo_file p = demo_pipe" "held demo_file = []"
  by (simp_all add: demo_file_def vm_st.defs file_st.defs fs_st.defs cons_st.defs log_st.defs demo_log_def cold_def binit_def
      ideinit_def disk_st.defs demo_disk_def demo_st_def proc_st.defs)

lemma demo_pipe_ok: "pipe_ok demo_pipe" "pipe_bytes demo_pipe = [7, 8]"
proof -
  have u: "unat (0 - 0xfffffffe :: u32) = 2" by simp
  then show "pipe_ok demo_pipe" by (simp add: pipe_ok_def demo_pipe_def PIPESIZE_def)
  have "ring_list b r 2 = [ring_at b r, ring_at b (r + 1)]" for b r by (simp add: ring_list_def upt_rec)
  then show "pipe_bytes demo_pipe = [7, 8]"
    using u by (simp add: pipe_bytes_def demo_pipe_def ring_at_def PIPESIZE_def nth_list_update)
qed

theorem pipewrite_appends_or_fails_witness:
  "returns (pipewrite 5 [1, 2, 3] 3 (demo_file, [])) (\<lambda>(r, s', _). r = 3 \<and> pipe_bytes (pipes s' 5) = [7, 8, 1, 2, 3]) \<and>
   returns (pipewrite 5 (replicate 600 9) 600 (demo_file, [])) (\<lambda>(r, s', _). r = -1 \<and>
     length (pipe_bytes (pipes s' 5)) = 512)"
proof (intro conjI)
  have "pipe_ok (pipes demo_file 5)" "0 \<le> (3 :: int)" "length [1, 2, 3 :: byte] = nat 3"
    "L_ptable \<notin> set (held demo_file)" "L_pipe 5 \<notin> set (held demo_file)" by (simp_all add: demo_pipe_ok)
  from pipewrite_appends_or_fails [OF this, of "[]"]
  show "returns (pipewrite 5 [1, 2, 3] 3 (demo_file, [])) (\<lambda>(r, s', _). r = 3 \<and> pipe_bytes (pipes s' 5) = [7, 8, 1, 2, 3])"
    by (auto simp: demo_pipe_ok PIPESIZE_def elim!: returns_mono)
  have "pipe_ok (pipes demo_file 5)" "0 \<le> (600 :: int)" "length (replicate 600 (9 :: byte)) = nat 600"
    "L_ptable \<notin> set (held demo_file)" "L_pipe 5 \<notin> set (held demo_file)" by (simp_all add: demo_pipe_ok)
  from pipewrite_appends_or_fails [OF this, of "[]"]
  show "returns (pipewrite 5 (replicate 600 9) 600 (demo_file, [])) (\<lambda>(r, s', _). r = -1 \<and>
     length (pipe_bytes (pipes s' 5)) = 512)"
    by (auto simp: demo_pipe_ok PIPESIZE_def demo_pipe_def elim!: returns_mono)
qed

theorem piperead_takes_prefix_witness:
  "returns (piperead 5 1 (demo_file, [])) (\<lambda>((r, bs), s', _). r = 1 \<and> bs = [7] \<and> pipe_bytes (pipes s' 5) = [8])"
proof -
  have "pipe_ok (pipes demo_file 5)" "0 \<le> (1 :: int)" "L_ptable \<notin> set (held demo_file)" "L_pipe 5 \<notin> set (held demo_file)"
    "pipe_bytes (pipes demo_file 5) \<noteq> [] \<or> \<not> writeopen (pipes demo_file 5)" by (simp_all add: demo_pipe_ok)
  from piperead_takes_prefix [OF this, of "[]"] show ?thesis by (auto simp: demo_pipe_ok elim!: returns_mono)
qed

end
