(* ===== verification/Proc_Life.thy ===== *)
theory Proc_Life
  imports Pipe
begin

text \<open>
  The life of a process: the rest of \<open>proc.c\<close> (\<open>userinit\<close>, \<open>growproc\<close>, \<open>fork\<close>, \<open>exit\<close>, \<open>wait\<close>,
  \<open>forkret\<close>), which rests on the memory and file components, and \<open>exec.c\<close>.
\<close>

section \<open>State\<close>

text \<open>
  \<open>forkret_first\<close> is the static variable of \<open>forkret\<close>; \<open>cpu_id\<close> is the number of the running
  CPU, \<open>cr2\<close> the register with the address of the last page fault, and \<open>stack_junk\<close> the
  bytes that an uninitialised local buffer on the kernel stack happens to hold.
\<close>

record kernel_st = file_st +
  forkret_first :: bool
  cpu_id :: u32
  cr2 :: u32
  stack_junk :: "byte list"

definition SEG_UCODE :: u32 where "SEG_UCODE = 4"
definition SEG_UDATA :: u32 where "SEG_UDATA = 5"
definition DPL_USER :: u32 where "DPL_USER = 3"
definition FL_IF :: u32 where "FL_IF = 0x200"

definition cur_proc :: "('a proc_st_scheme, nat) prog" where
  "cur_proc = call (\<lambda>s. with_cur s (\<lambda>p. Ok (p, s)))"

definition the_proc :: "nat \<Rightarrow> ('a proc_st_scheme, proc) prog" where
  "the_proc p = gets (\<lambda>s. procs s ! p)"

definition set_proc :: "nat \<Rightarrow> (proc \<Rightarrow> proc) \<Rightarrow> ('a proc_st_scheme, unit) prog" where
  "set_proc p f = modify (upd_proc p f)"

section \<open>The first process\<close>

definition userinit :: "byte list \<Rightarrow> ('a kernel_st_scheme, unit) prog" where
  "userinit initcode =
     thn (call (allocproc 500)) (\<lambda>p.
     thn (modify (\<lambda>s. s\<lparr>initproc := p\<rparr>)) (\<lambda>_.
     case p of
       None \<Rightarrow> panic ''trap''
     | Some p \<Rightarrow>
         thn (call setupkvm) (\<lambda>pd.
         thn (set_proc p (\<lambda>q. q\<lparr>pgdir := pd\<rparr>)) (\<lambda>_.
         if pd = 0 then panic ''userinit: out of memory?'' else
         thn (upd (inituvm pd initcode)) (\<lambda>_.
         thn (set_proc p (\<lambda>q. q\<lparr>sz := PGSIZE,
                tf := zero_trapframe\<lparr>tf_cs := ucast (push_bit 3 SEG_UCODE OR DPL_USER),
                  tf_ds := ucast (push_bit 3 SEG_UDATA OR DPL_USER), tf_es := ucast (push_bit 3 SEG_UDATA OR DPL_USER),
                  tf_ss := ucast (push_bit 3 SEG_UDATA OR DPL_USER), tf_eflags := FL_IF, tf_esp := PGSIZE, tf_eip := 0\<rparr>,
                pname := safestrcpy (pname q) (cs (lit ''initcode'')) 16\<rparr>)) (\<lambda>_.
         thn (namei [slash]) (\<lambda>i.
         set_proc p (\<lambda>q. q\<lparr>cwd := i, pstate := RUNNABLE\<rparr>))))))))"

section \<open>Growing\<close>

definition growproc :: "int \<Rightarrow> ('a kernel_st_scheme, int) prog" where
  "growproc n =
     thn cur_proc (\<lambda>p.
     thn (the_proc p) (\<lambda>q.
     thn (if n > 0 then call (allocuvm (pgdir q) (sz q) (sz q + word_of_int n))
          else if n < 0 then call (deallocuvm (pgdir q) (sz q) (sz q + word_of_int n))
          else ret (sz q)) (\<lambda>nsz.
     if n \<noteq> 0 \<and> nsz = 0 then ret (-1) else
     thn (set_proc p (\<lambda>q. q\<lparr>sz := nsz\<rparr>)) (\<lambda>_.
     thn (upd (switchuvm p)) (\<lambda>_. ret 0)))))"

section \<open>Fork\<close>

definition dup_file :: "nat \<Rightarrow> nat \<Rightarrow> nat \<Rightarrow> ('a kernel_st_scheme, unit) prog" where
  "dup_file p np i =
     thn (gets (\<lambda>s. ofile (procs s ! p) ! i)) (\<lambda>f.
     case f of
       None \<Rightarrow> ret ()
     | Some f \<Rightarrow> thn (call (filedup f)) (\<lambda>g. set_proc np (\<lambda>q. q\<lparr>ofile := (ofile q)[i := Some g]\<rparr>)))"

text \<open>\<open>fork\<close> once the memory has been copied (\<open>q\<close> is the parent), and when it could not be.\<close>

definition fork_child :: "nat \<Rightarrow> nat \<Rightarrow> proc \<Rightarrow> ('a kernel_st_scheme, int) prog" where
  "fork_child p np q =
     thn (set_proc np (\<lambda>r. r\<lparr>sz := sz q, parent := Some p, tf := (tf q)\<lparr>tf_eax := 0\<rparr>\<rparr>)) (\<lambda>_.
     thn (for_up 0 NOFILE (dup_file p np)) (\<lambda>_.
     thn (gets (\<lambda>s. cwd (procs s ! p))) (\<lambda>c.
     thn (case c of None \<Rightarrow> panic ''trap'' | Some i \<Rightarrow> call (idup i)) (\<lambda>i.
     thn (set_proc np (\<lambda>r. r\<lparr>cwd := Some i, pstate := RUNNABLE,
            pname := safestrcpy (pname r) (cs (pname q)) 16\<rparr>)) (\<lambda>_.
     thn (the_proc np) (\<lambda>r. ret (pid r)))))))"

definition fork_fail :: "nat \<Rightarrow> ('a kernel_st_scheme, int) prog" where
  "fork_fail np =
     thn (the_proc np) (\<lambda>r.
     thn (upd (kfree (kstack r))) (\<lambda>_.
     thn (set_proc np (\<lambda>r. r\<lparr>kstack := 0, pstate := UNUSED\<rparr>)) (\<lambda>_. ret (-1))))"

definition fork :: "int \<Rightarrow> ('a kernel_st_scheme, int) prog" where
  "fork tickets =
     thn (call (allocproc tickets)) (\<lambda>np.
     case np of
       None \<Rightarrow> ret (-1)
     | Some np \<Rightarrow>
         thn cur_proc (\<lambda>p.
         thn (the_proc p) (\<lambda>q.
         thn (call (copyuvm (pgdir q) (sz q))) (\<lambda>pd.
         thn (set_proc np (\<lambda>r. r\<lparr>pgdir := pd\<rparr>)) (\<lambda>_.
         if pd = 0 then fork_fail np else fork_child p np q)))))"

section \<open>Exit\<close>

definition close_fd :: "nat \<Rightarrow> nat \<Rightarrow> ('a kernel_st_scheme, unit) prog" where
  "close_fd p fd =
     thn (gets (\<lambda>s. ofile (procs s ! p) ! fd)) (\<lambda>f.
     case f of
       None \<Rightarrow> ret ()
     | Some f \<Rightarrow> thn (fileclose f) (\<lambda>_. set_proc p (\<lambda>q. q\<lparr>ofile := (ofile q)[fd := None]\<rparr>)))"

text \<open>Children of an exiting process go to \<open>init\<close>, which is woken for each that is a zombie.\<close>

definition wake_proc :: "nat option \<Rightarrow> 'a proc_st_scheme \<Rightarrow> 'a proc_st_scheme" where
  "wake_proc q s = (case q of None \<Rightarrow> s | Some q \<Rightarrow> wakeup1 (Ch_proc q) s)"

fun reparent :: "nat \<Rightarrow> nat \<Rightarrow> nat \<Rightarrow> 'a proc_st_scheme \<Rightarrow> 'a proc_st_scheme" where
  "reparent p i 0 s = s"
| "reparent p i (Suc n) s =
     (let s = (if parent (procs s ! i) = Some p then
                 let s = upd_proc i (\<lambda>q. q\<lparr>parent := initproc s\<rparr>) s in
                 if pstate (procs s ! i) = ZOMBIE then wake_proc (initproc s) s else s
               else s) in
      reparent p (Suc i) n s)"

text \<open>What \<open>exit\<close> does to the process table, under its lock.\<close>

definition exit_table :: "nat \<Rightarrow> 'a proc_st_scheme \<Rightarrow> 'a proc_st_scheme" where
  "exit_table p s =
     (let s = wake_proc (parent (procs s ! p)) s;
          s = reparent p 0 NPROC s in
      upd_proc p (\<lambda>q. q\<lparr>pstate := ZOMBIE\<rparr>) s)"

text \<open>Everything \<open>exit\<close> does before it gives up the CPU for the last time.\<close>

definition exit_prepare :: "('a kernel_st_scheme, unit) prog" where
  "exit_prepare =
     thn cur_proc (\<lambda>p.
     thn (gets initproc) (\<lambda>ini.
     if ini = Some p then panic ''init exiting'' else
     thn (for_up 0 NOFILE (close_fd p)) (\<lambda>_.
     thn (gets (\<lambda>s. cwd (procs s ! p))) (\<lambda>c.
     thn (case c of None \<Rightarrow> panic ''trap'' | Some i \<Rightarrow> iput i) (\<lambda>_.
     thn (set_proc p (\<lambda>q. q\<lparr>cwd := None\<rparr>)) (\<lambda>_.
     thn (upd (lock L_ptable)) (\<lambda>_.
     modify (exit_table p))))))))"

definition sched_p :: "('a proc_st_scheme, unit) prog" where
  "sched_p w = bnd (sched (fst w) (snd w)) (\<lambda>w. Ok ((), w))"

definition exit :: "('a kernel_st_scheme, unit) prog" where
  "exit = thn exit_prepare (\<lambda>_. thn sched_p (\<lambda>_. panic ''zombie exit''))"

section \<open>Wait\<close>

definition is_child :: "nat \<Rightarrow> proc \<Rightarrow> bool" where
  "is_child p q \<longleftrightarrow> parent q = Some p"

text \<open>Freeing a zombie child; \<open>clear_proc\<close> is what becomes of its slot.\<close>

definition clear_proc :: "proc \<Rightarrow> proc" where
  "clear_proc q = q\<lparr>pstate := UNUSED, pid := 0, parent := None, pname := (pname q)[0 := 0], killed := False\<rparr>"

definition reap :: "nat \<Rightarrow> ('a kernel_st_scheme, int) prog" where
  "reap i =
     thn (the_proc i) (\<lambda>q.
     thn (upd (kfree (kstack q))) (\<lambda>_.
     thn (set_proc i (\<lambda>q. q\<lparr>kstack := 0\<rparr>)) (\<lambda>_.
     thn (upd (freevm (pgdir q))) (\<lambda>_.
     thn (set_proc i clear_proc) (\<lambda>_.
     thn (upd (unlock L_ptable)) (\<lambda>_. ret (pid q)))))))"

definition zombie_child :: "nat \<Rightarrow> proc \<Rightarrow> bool" where
  "zombie_child p q \<longleftrightarrow> is_child p q \<and> pstate q = ZOMBIE"

function wait_loop :: "nat \<Rightarrow> ('a kernel_st_scheme, int) prog" where
  "wait_loop p w =
     (case first_idx (zombie_child p) (procs (fst w)) of
        Some i \<Rightarrow> reap i w
      | None \<Rightarrow>
          if (\<forall>q\<in>set (procs (fst w)). \<not> is_child p q) \<or> killed (procs (fst w) ! p)
          then thn (upd (unlock L_ptable)) (\<lambda>_. ret (-1)) w
          else thn (sleep_on (Ch_proc p) L_ptable) (\<lambda>_. wait_loop p) w)"
  by pat_completeness auto
termination
  by (relation "measure (\<lambda>(_, w). length (snd w))") (auto dest: sleep_on_env)

declare wait_loop.simps [simp del]

definition wait :: "('a kernel_st_scheme, int) prog" where
  "wait = thn (upd (lock L_ptable)) (\<lambda>_. thn cur_proc wait_loop)"

section \<open>The first run of a child\<close>

definition forkret :: "('a kernel_st_scheme, unit) prog" where
  "forkret =
     thn (upd (unlock L_ptable)) (\<lambda>_.
     thn (gets forkret_first) (\<lambda>fst'.
     whenp fst' (thn (modify (\<lambda>s. s\<lparr>forkret_first := False\<rparr>)) (\<lambda>_. initlog))))"

section \<open>Exec\<close>

definition MAXARG :: nat where "MAXARG = 32"
definition ELF_MAGIC :: u32 where "ELF_MAGIC = 0x464C457F"
definition ELF_PROG_LOAD :: u32 where "ELF_PROG_LOAD = 1"

text \<open>The fields of \<open>struct elfhdr\<close> (52 bytes) and \<open>struct proghdr\<close> (32 bytes) that \<open>exec\<close> uses.\<close>

record elfhdr =
  elf_magic :: u32
  elf_entry :: u32
  elf_phoff :: u32
  elf_phnum :: u16

record proghdr =
  ph_type :: u32
  ph_off :: u32
  ph_vaddr :: u32
  ph_filesz :: u32
  ph_memsz :: u32

definition dec_elfhdr :: "byte list \<Rightarrow> elfhdr" where
  "dec_elfhdr d = \<lparr>elf_magic = rd32 d 0, elf_entry = rd32 d 24, elf_phoff = rd32 d 28, elf_phnum = rd16 d 44\<rparr>"

definition dec_proghdr :: "byte list \<Rightarrow> proghdr" where
  "dec_proghdr d = \<lparr>ph_type = rd32 d 0, ph_off = rd32 d 4, ph_vaddr = rd32 d 8, ph_filesz = rd32 d 16, ph_memsz = rd32 d 20\<rparr>"

text \<open>The loop over the program headers; \<open>None\<close> is \<open>goto bad\<close>, otherwise the new size.\<close>

fun exec_load :: "nat \<Rightarrow> nat \<Rightarrow> u32 \<Rightarrow> u32 \<Rightarrow> u32 \<Rightarrow> ('a kernel_st_scheme, u32 option) prog" where
  "exec_load 0 ip pd off usz = ret (Some usz)"
| "exec_load (Suc n) ip pd off usz =
     thn (readi devsw ip off 32) (\<lambda>(r, bs).
     if r \<noteq> 32 then ret None else
     let ph = dec_proghdr bs in
     if ph_type ph \<noteq> ELF_PROG_LOAD then exec_load n ip pd (off + 32) usz
     else if ph_memsz ph < ph_filesz ph then ret None else
     thn (call (allocuvm pd usz (ph_vaddr ph + ph_memsz ph))) (\<lambda>usz.
     if usz = 0 then ret None else
     thn (loaduvm pd (ph_vaddr ph) ip (ph_off ph) (ph_filesz ph)) (\<lambda>r.
     if r < 0 then ret None else exec_load n ip pd (off + 32) usz)))"

text \<open>Pushing the argument strings: the new stack pointer and the addresses of the strings.\<close>

fun push_args :: "nat \<Rightarrow> u32 \<Rightarrow> byte list list \<Rightarrow> u32 \<Rightarrow> ('a kernel_st_scheme, (u32 \<times> u32 list) option) prog" where
  "push_args argc pd [] sp = ret (Some (sp, []))"
| "push_args argc pd (a # args) sp =
     (if argc \<ge> MAXARG then ret None else
      let sp = (sp - (of_nat (length a) + 1)) AND NOT 3 in
      thn (call (copyout pd sp (a @ [0]))) (\<lambda>r.
      if r < 0 then ret None else
      thn (push_args (Suc argc) pd args sp) (\<lambda>res.
      ret (map_option (\<lambda>(sp', ps). (sp', sp # ps)) res))))"

definition enc_words :: "u32 list \<Rightarrow> byte list" where
  "enc_words ws = concat (map (\<lambda>w. [byte_of w 0, byte_of w 1, byte_of w 2, byte_of w 3]) ws)"

definition last_elem :: "byte list \<Rightarrow> byte list" where
  "last_elem path = rev (takeWhile (\<lambda>c. c \<noteq> slash) (rev path))"

text \<open>From the loaded image on: stack, arguments, and the switch to the new image.\<close>

definition exec_stack :: "byte list \<Rightarrow> byte list list \<Rightarrow> u32 \<Rightarrow> u32 \<Rightarrow> u32 \<Rightarrow> ('a kernel_st_scheme, int) prog" where
  "exec_stack path argv pd entry usz =
     (let bad = thn (upd (freevm pd)) (\<lambda>_. ret (-1)) in
      let usz = PGROUNDUP usz in
      thn (call (allocuvm pd usz (usz + 2 * PGSIZE))) (\<lambda>usz.
      if usz = 0 then bad else
      thn (upd (clearpteu pd (usz - 2 * PGSIZE))) (\<lambda>_.
      thn (push_args 0 pd argv usz) (\<lambda>res.
      case res of
        None \<Rightarrow> bad
      | Some (sp, ps) \<Rightarrow>
          let argc = of_nat (length ps);
              ustack = [0xffffffff, argc, sp - (argc + 1) * 4] @ ps @ [0];
              sp = sp - (3 + argc + 1) * 4 in
          thn (call (copyout pd sp (enc_words ustack))) (\<lambda>r.
          if r < 0 then bad else
          thn cur_proc (\<lambda>p.
          thn (the_proc p) (\<lambda>q.
          thn (set_proc p (\<lambda>q. q\<lparr>pname := safestrcpy (pname q) (cs (last_elem path)) 16, pgdir := pd, sz := usz,
                 tf := (tf q)\<lparr>tf_eip := entry, tf_esp := sp\<rparr>\<rparr>)) (\<lambda>_.
          thn (upd (switchuvm p)) (\<lambda>_.
          thn (upd (freevm (pgdir q))) (\<lambda>_. ret 0))))))))))"

text \<open>
  The size check compares a signed result with an unsigned size, so a failed \<open>readi\<close> passes
  it, and the header is then what the stack happened to hold.
\<close>

definition exec :: "byte list \<Rightarrow> byte list list \<Rightarrow> ('a kernel_st_scheme, int) prog" where
  "exec path argv =
     thn (namei path) (\<lambda>found.
     case found of
       None \<Rightarrow> ret (-1)
     | Some ip \<Rightarrow>
         thn (ilock ip) (\<lambda>_.
         thn (readi devsw ip 0 52) (\<lambda>(r, bs).
         thn (gets stack_junk) (\<lambda>junk.
         let elf = dec_elfhdr (bs @ drop (length bs) junk) in
         if (word_of_int r :: u32) < 52 \<or> elf_magic elf \<noteq> ELF_MAGIC then
           thn (iunlockput ip) (\<lambda>_. ret (-1))
         else
         thn (call setupkvm) (\<lambda>pd.
         if pd = 0 then thn (iunlockput ip) (\<lambda>_. ret (-1)) else
         thn (exec_load (unat (elf_phnum elf)) ip pd (elf_phoff elf) 0) (\<lambda>usz.
         case usz of
           None \<Rightarrow> thn (upd (freevm pd)) (\<lambda>_. thn (iunlockput ip) (\<lambda>_. ret (-1)))
         | Some usz \<Rightarrow>
             thn (iunlockput ip) (\<lambda>_. exec_stack path argv pd (elf_entry elf) usz)))))))"

end
