(* ===== verification/Syscall.thy ===== *)
theory Syscall
  imports Proc_Life
begin

text \<open>
  \<open>syscall.c\<close> without the dispatch table, and \<open>sysproc.c\<close>: fetching system call arguments
  from user memory, and the system calls on processes. A failed fetch (return value -1) is
  \<open>None\<close>. User memory is read through the current page table.
\<close>

section \<open>Arguments\<close>

definition fetchint :: "u32 \<Rightarrow> ('a proc_st_scheme, u32 option) prog" where
  "fetchint addr =
     thn cur_proc (\<lambda>p.
     thn (the_proc p) (\<lambda>q.
     if addr \<ge> sz q \<or> addr + 4 > sz q then ret None else
     thn (call (\<lambda>s. bnd (load_user addr 4 s) (\<lambda>bs. Ok (bs, s)))) (\<lambda>bs. ret (Some (rd32 bs 0)))))"

text \<open>The bytes up to the next NUL, at most \<open>n\<close> of them looked at.\<close>

fun user_str :: "nat \<Rightarrow> u32 \<Rightarrow> 'a proc_st_scheme \<Rightarrow> byte list option res" where
  "user_str 0 va s = Ok None"
| "user_str (Suc n) va s =
     (case hw_walk (mem s) (p2v (cr3 s)) va of
        None \<Rightarrow> Panic ''trap''
      | Some k \<Rightarrow>
          if mem s k = 0 then Ok (Some [])
          else bnd (user_str n (va + 1) s) (\<lambda>r. Ok (map_option (\<lambda>bs. mem s k # bs) r)))"

definition fetchstr :: "u32 \<Rightarrow> ('a proc_st_scheme, byte list option) prog" where
  "fetchstr addr =
     thn cur_proc (\<lambda>p.
     thn (the_proc p) (\<lambda>q.
     if addr \<ge> sz q then ret None else
     call (\<lambda>s. bnd (user_str (unat (sz q) - unat addr) addr s) (\<lambda>r. Ok (r, s)))))"

definition argint :: "nat \<Rightarrow> ('a proc_st_scheme, u32 option) prog" where
  "argint n =
     thn cur_proc (\<lambda>p.
     thn (the_proc p) (\<lambda>q. fetchint (tf_esp (tf q) + 4 + 4 * of_nat n)))"

definition argptr :: "nat \<Rightarrow> u32 \<Rightarrow> ('a proc_st_scheme, u32 option) prog" where
  "argptr n len =
     thn (argint n) (\<lambda>i.
     case i of
       None \<Rightarrow> ret None
     | Some i \<Rightarrow>
         thn cur_proc (\<lambda>p.
         thn (the_proc p) (\<lambda>q.
         if i \<ge> sz q \<or> i + len > sz q then ret None else ret (Some i))))"

definition argstr :: "nat \<Rightarrow> ('a proc_st_scheme, byte list option) prog" where
  "argstr n = thn (argint n) (\<lambda>a. case a of None \<Rightarrow> ret None | Some a \<Rightarrow> fetchstr a)"

section \<open>System calls on processes\<close>

definition sys_fork :: "('a kernel_st_scheme, int) prog" where
  "sys_fork = fork 500"

definition sys_exit :: "('a kernel_st_scheme, int) prog" where
  "sys_exit = thn exit (\<lambda>_. ret 0)"

definition sys_wait :: "('a kernel_st_scheme, int) prog" where
  "sys_wait = wait"

definition sys_kill :: "('a kernel_st_scheme, int) prog" where
  "sys_kill = thn (argint 0) (\<lambda>a. case a of None \<Rightarrow> ret (-1) | Some a \<Rightarrow> call (kill (sint a)))"

definition sys_getpid :: "('a kernel_st_scheme, int) prog" where
  "sys_getpid = thn cur_proc (\<lambda>p. thn (the_proc p) (\<lambda>q. ret (pid q)))"

definition sys_sbrk :: "('a kernel_st_scheme, int) prog" where
  "sys_sbrk =
     thn (argint 0) (\<lambda>n.
     case n of
       None \<Rightarrow> ret (-1)
     | Some n \<Rightarrow>
         thn cur_proc (\<lambda>p.
         thn (the_proc p) (\<lambda>q.
         thn (growproc (sint n)) (\<lambda>r.
         if r < 0 then ret (-1) else ret (sint (sz q))))))"

function sleep_loop :: "u32 \<Rightarrow> u32 \<Rightarrow> ('a kernel_st_scheme, int) prog" where
  "sleep_loop ticks0 n w =
     (if ticks (fst w) - ticks0 < n then
        bnd (with_cur (fst w) (\<lambda>p. Ok (killed (procs (fst w) ! p)))) (\<lambda>k.
        if k then thn (upd (unlock L_ticks)) (\<lambda>_. ret (-1)) w
        else thn (sleep_on Ch_ticks L_ticks) (\<lambda>_. sleep_loop ticks0 n) w)
      else thn (upd (unlock L_ticks)) (\<lambda>_. ret 0) w)"
  by pat_completeness auto
termination
  by (relation "measure (\<lambda>(_, _, w). length (snd w))") (auto dest: sleep_on_env)

declare sleep_loop.simps [simp del]

definition sys_sleep :: "('a kernel_st_scheme, int) prog" where
  "sys_sleep =
     thn (argint 0) (\<lambda>n.
     case n of
       None \<Rightarrow> ret (-1)
     | Some n \<Rightarrow>
         thn (upd (lock L_ticks)) (\<lambda>_.
         thn (gets ticks) (\<lambda>ticks0. sleep_loop ticks0 n)))"

definition sys_uptime :: "('a kernel_st_scheme, int) prog" where
  "sys_uptime =
     thn (upd (lock L_ticks)) (\<lambda>_.
     thn (gets ticks) (\<lambda>xticks.
     thn (upd (unlock L_ticks)) (\<lambda>_. ret (sint xticks))))"

end
