(* ===== verification/Sysfile.thy ===== *)
theory Sysfile
  imports Syscall
begin

text \<open>\<open>sysfile.c\<close>: the system calls on files, directories and pipes.\<close>

definition O_RDONLY :: u32 where "O_RDONLY = 0"
definition O_WRONLY :: u32 where "O_WRONLY = 1"
definition O_RDWR :: u32 where "O_RDWR = 2"
definition O_CREATE :: u32 where "O_CREATE = 0x200"

section \<open>File descriptors\<close>

text \<open>The descriptor and the file, or \<open>None\<close>.\<close>

definition argfd :: "nat \<Rightarrow> ('a kernel_st_scheme, (nat \<times> nat) option) prog" where
  "argfd n =
     thn (argint n) (\<lambda>fd.
     case fd of
       None \<Rightarrow> ret None
     | Some fd \<Rightarrow>
         if sint fd < 0 \<or> sint fd \<ge> int NOFILE then ret None else
         thn cur_proc (\<lambda>p.
         thn (gets (\<lambda>s. ofile (procs s ! p) ! nat (sint fd))) (\<lambda>f.
         ret (map_option (\<lambda>f. (nat (sint fd), f)) f))))"

definition set_ofile :: "nat \<Rightarrow> nat \<Rightarrow> nat option \<Rightarrow> ('a kernel_st_scheme, unit) prog" where
  "set_ofile p fd f = set_proc p (\<lambda>q. q\<lparr>ofile := (ofile q)[fd := f]\<rparr>)"

definition fdalloc :: "nat \<Rightarrow> ('a kernel_st_scheme, nat option) prog" where
  "fdalloc f =
     thn cur_proc (\<lambda>p.
     thn (gets (\<lambda>s. first_idx (\<lambda>g. g = None) (ofile (procs s ! p)))) (\<lambda>fd.
     case fd of
       None \<Rightarrow> ret None
     | Some fd \<Rightarrow> thn (set_ofile p fd (Some f)) (\<lambda>_. ret (Some fd))))"

definition sys_dup :: "('a kernel_st_scheme, int) prog" where
  "sys_dup =
     thn (argfd 0) (\<lambda>a.
     case a of
       None \<Rightarrow> ret (-1)
     | Some (_, f) \<Rightarrow>
         thn (fdalloc f) (\<lambda>fd.
         case fd of
           None \<Rightarrow> ret (-1)
         | Some fd \<Rightarrow> thn (call (filedup f)) (\<lambda>_. ret (int fd))))"

text \<open>The arguments of \<open>read\<close> and \<open>write\<close>: the file, the address and the count.\<close>

definition rw_args :: "('a kernel_st_scheme, (nat \<times> u32 \<times> u32) option) prog" where
  "rw_args =
     thn (argfd 0) (\<lambda>a.
     case a of
       None \<Rightarrow> ret None
     | Some (_, f) \<Rightarrow>
         thn (argint 2) (\<lambda>n.
         case n of
           None \<Rightarrow> ret None
         | Some n \<Rightarrow> thn (argptr 1 n) (\<lambda>p. ret (map_option (\<lambda>p. (f, p, n)) p))))"

definition sys_read :: "('a kernel_st_scheme, int) prog" where
  "sys_read =
     thn rw_args (\<lambda>a.
     case a of
       None \<Rightarrow> ret (-1)
     | Some (f, p, n) \<Rightarrow>
         thn (fileread f (sint n)) (\<lambda>(r, bs).
         thn (upd (store_user p bs)) (\<lambda>_. ret r)))"

definition sys_write :: "('a kernel_st_scheme, int) prog" where
  "sys_write =
     thn rw_args (\<lambda>a.
     case a of
       None \<Rightarrow> ret (-1)
     | Some (f, p, n) \<Rightarrow>
         thn (gets (\<lambda>s. f_writable (ftable s ! f))) (\<lambda>wr.
         if \<not> wr then ret (-1) else
         thn (call (\<lambda>s. bnd (load_user p (nat (sint n)) s) (\<lambda>bs. Ok (bs, s)))) (\<lambda>bs.
         filewrite f bs (sint n))))"

definition sys_close :: "('a kernel_st_scheme, int) prog" where
  "sys_close =
     thn (argfd 0) (\<lambda>a.
     case a of
       None \<Rightarrow> ret (-1)
     | Some (fd, f) \<Rightarrow>
         thn cur_proc (\<lambda>p.
         thn (set_ofile p fd None) (\<lambda>_.
         thn (fileclose f) (\<lambda>_. ret 0))))"

text \<open>\<open>struct stat\<close> at a user address: 20 bytes, the two paddings are not written.\<close>

definition store_stat :: "u32 \<Rightarrow> stat \<Rightarrow> 'a proc_st_scheme \<Rightarrow> 'a proc_st_scheme res" where
  "store_stat va st s =
     bnd (store_user va [ucast (st_type st), ucast (drop_bit 8 (st_type st))] s) (\<lambda>s.
     bnd (store_user (va + 4) (enc_words [st_dev st, st_ino st]) s) (\<lambda>s.
     bnd (store_user (va + 12) [ucast (st_nlink st), ucast (drop_bit 8 (st_nlink st))] s) (\<lambda>s.
     store_user (va + 16) (enc_words [st_size st]) s)))"

definition sys_fstat :: "('a kernel_st_scheme, int) prog" where
  "sys_fstat =
     thn (argfd 0) (\<lambda>a.
     case a of
       None \<Rightarrow> ret (-1)
     | Some (_, f) \<Rightarrow>
         thn (argptr 1 20) (\<lambda>p.
         case p of
           None \<Rightarrow> ret (-1)
         | Some p \<Rightarrow>
             thn (filestat f) (\<lambda>st.
             case st of
               None \<Rightarrow> ret (-1)
             | Some st \<Rightarrow> thn (upd (store_stat p st)) (\<lambda>_. ret 0))))"

section \<open>Links\<close>

text \<open>Undoing the link count when the new name cannot be made.\<close>

definition link_bad :: "nat \<Rightarrow> ('a kernel_st_scheme, int) prog" where
  "link_bad i =
     thn (ilock i) (\<lambda>_.
     thn (set_inode i (\<lambda>ip. ip\<lparr>i_nlink := i_nlink ip - 1\<rparr>)) (\<lambda>_.
     thn (iupdate i) (\<lambda>_.
     thn (iunlockput i) (\<lambda>_.
     thn commit_trans (\<lambda>_. ret (-1))))))"

definition sys_link :: "('a kernel_st_scheme, int) prog" where
  "sys_link =
     thn (argstr 0) (\<lambda>old.
     case old of None \<Rightarrow> ret (-1) | Some old \<Rightarrow>
     thn (argstr 1) (\<lambda>new.
     case new of None \<Rightarrow> ret (-1) | Some new \<Rightarrow>
     thn (namei old) (\<lambda>found.
     case found of None \<Rightarrow> ret (-1) | Some i \<Rightarrow>
     thn begin_trans (\<lambda>_.
     thn (ilock i) (\<lambda>_.
     thn (the_inode i) (\<lambda>ip.
     if i_type ip = T_DIR then thn (iunlockput i) (\<lambda>_. thn commit_trans (\<lambda>_. ret (-1))) else
     thn (set_inode i (\<lambda>ip. ip\<lparr>i_nlink := i_nlink ip + 1\<rparr>)) (\<lambda>_.
     thn (iupdate i) (\<lambda>_.
     thn (upd (iunlock i)) (\<lambda>_.
     thn (nameiparent new (replicate DIRSIZ 0)) (\<lambda>(dp, name).
     case dp of None \<Rightarrow> link_bad i | Some d \<Rightarrow>
     thn (ilock d) (\<lambda>_.
     thn (gets (\<lambda>s. (icache s ! d, icache s ! i))) (\<lambda>(dp, ip).
     thn (if i_dev dp \<noteq> i_dev ip then ret (-1) else dirlink d name (i_inum ip)) (\<lambda>r.
     if r < 0 then thn (iunlockput d) (\<lambda>_. link_bad i) else
     thn (iunlockput d) (\<lambda>_.
     thn (iput i) (\<lambda>_.
     thn commit_trans (\<lambda>_. ret 0))))))))))))))))"

function isdirempty_loop :: "nat \<Rightarrow> nat \<Rightarrow> nat \<Rightarrow> ('a kernel_st_scheme, bool) prog" where
  "isdirempty_loop i n off =
     (if off < n then
        thn (readi no_devices i (of_nat off) 16) (\<lambda>(r, de).
        if r \<noteq> 16 then panic ''isdirempty: readi''
        else if rd16 de 0 \<noteq> 0 then ret False
        else isdirempty_loop i n (off + 16))
      else ret True)"
  by pat_completeness auto
termination
  by (relation "measure (\<lambda>(_, n, off). n - off)") auto

definition isdirempty :: "nat \<Rightarrow> ('a kernel_st_scheme, bool) prog" where
  "isdirempty i = thn (the_inode i) (\<lambda>dp. isdirempty_loop i (unat (i_size dp)) 32)"

definition unlink_bad :: "nat \<Rightarrow> ('a kernel_st_scheme, int) prog" where
  "unlink_bad d = thn (iunlockput d) (\<lambda>_. thn commit_trans (\<lambda>_. ret (-1)))"

definition sys_unlink :: "('a kernel_st_scheme, int) prog" where
  "sys_unlink =
     thn (argstr 0) (\<lambda>path.
     case path of None \<Rightarrow> ret (-1) | Some path \<Rightarrow>
     thn (nameiparent path (replicate DIRSIZ 0)) (\<lambda>(dp, name).
     case dp of None \<Rightarrow> ret (-1) | Some d \<Rightarrow>
     thn begin_trans (\<lambda>_.
     thn (ilock d) (\<lambda>_.
     if namecmp name (lit ''.'') = 0 \<or> namecmp name (lit ''..'') = 0 then unlink_bad d else
     thn (dirlookup d name) (\<lambda>found.
     case found of None \<Rightarrow> unlink_bad d | Some (i, off) \<Rightarrow>
     thn (ilock i) (\<lambda>_.
     thn (the_inode i) (\<lambda>ip.
     if sint (i_nlink ip) < 1 then panic ''unlink: nlink < 1'' else
     thn (if i_type ip = T_DIR then isdirempty i else ret True) (\<lambda>ok.
     if \<not> ok then thn (iunlockput i) (\<lambda>_. unlink_bad d) else
     thn (writei no_devices d (replicate 16 0) off 16) (\<lambda>r.
     if r \<noteq> 16 then panic ''unlink: writei'' else
     thn (whenp (i_type ip = T_DIR)
       (thn (set_inode d (\<lambda>dp. dp\<lparr>i_nlink := i_nlink dp - 1\<rparr>)) (\<lambda>_. iupdate d))) (\<lambda>_.
     thn (iunlockput d) (\<lambda>_.
     thn (set_inode i (\<lambda>ip. ip\<lparr>i_nlink := i_nlink ip - 1\<rparr>)) (\<lambda>_.
     thn (iupdate i) (\<lambda>_.
     thn (iunlockput i) (\<lambda>_.
     thn commit_trans (\<lambda>_. ret 0)))))))))))))))"

section \<open>Creating and opening\<close>

text \<open>The new inode is returned locked; \<open>None\<close> is the null pointer.\<close>

definition create :: "byte list \<Rightarrow> u16 \<Rightarrow> u16 \<Rightarrow> u16 \<Rightarrow> ('a kernel_st_scheme, nat option) prog" where
  "create path type major minor =
     thn (nameiparent path (replicate DIRSIZ 0)) (\<lambda>(dp, name).
     case dp of None \<Rightarrow> ret None | Some d \<Rightarrow>
     thn (ilock d) (\<lambda>_.
     thn (dirlookup d name) (\<lambda>found.
     case found of
       Some (i, _) \<Rightarrow>
         thn (iunlockput d) (\<lambda>_.
         thn (ilock i) (\<lambda>_.
         thn (the_inode i) (\<lambda>ip.
         if type = T_FILE \<and> i_type ip = T_FILE then ret (Some i)
         else thn (iunlockput i) (\<lambda>_. ret None))))
     | None \<Rightarrow>
         thn (the_inode d) (\<lambda>dp.
         thn (ialloc (i_dev dp) type) (\<lambda>i.
         thn (ilock i) (\<lambda>_.
         thn (set_inode i (\<lambda>ip. ip\<lparr>i_major := major, i_minor := minor, i_nlink := 1\<rparr>)) (\<lambda>_.
         thn (iupdate i) (\<lambda>_.
         thn (whenp (type = T_DIR)
           (thn (set_inode d (\<lambda>dp. dp\<lparr>i_nlink := i_nlink dp + 1\<rparr>)) (\<lambda>_.
            thn (iupdate d) (\<lambda>_.
            thn (gets (\<lambda>s. (i_inum (icache s ! i), i_inum (icache s ! d)))) (\<lambda>(ino, dno).
            thn (dirlink i (lit ''.'') ino) (\<lambda>r.
            if r < 0 then panic ''create dots'' else
            thn (dirlink i (lit ''..'') dno) (\<lambda>r.
            if r < 0 then panic ''create dots'' else ret ()))))))) (\<lambda>_.
         thn (the_inode i) (\<lambda>ip.
         thn (dirlink d name (i_inum ip)) (\<lambda>r.
         if r < 0 then panic ''create: dirlink'' else
         thn (iunlockput d) (\<lambda>_. ret (Some i)))))))))))))"

text \<open>Giving an open inode a file and a descriptor; the inode is locked on entry.\<close>

definition open_file :: "nat \<Rightarrow> u32 \<Rightarrow> ('a kernel_st_scheme, int) prog" where
  "open_file i omode =
     thn (call filealloc) (\<lambda>f.
     case f of None \<Rightarrow> thn (iunlockput i) (\<lambda>_. ret (-1)) | Some f \<Rightarrow>
     thn (fdalloc f) (\<lambda>fd.
     case fd of None \<Rightarrow> thn (fileclose f) (\<lambda>_. thn (iunlockput i) (\<lambda>_. ret (-1))) | Some fd \<Rightarrow>
     thn (upd (iunlock i)) (\<lambda>_.
     thn (modify (upd_file f (\<lambda>g. g\<lparr>f_type := FD_INODE, f_ip := i, f_off := 0, f_readable := (omode AND O_WRONLY = 0),
            f_writable := (omode AND O_WRONLY \<noteq> 0 \<or> omode AND O_RDWR \<noteq> 0)\<rparr>))) (\<lambda>_.
     ret (int fd)))))"

definition sys_open :: "('a kernel_st_scheme, int) prog" where
  "sys_open =
     thn (argstr 0) (\<lambda>path.
     case path of None \<Rightarrow> ret (-1) | Some path \<Rightarrow>
     thn (argint 1) (\<lambda>omode.
     case omode of None \<Rightarrow> ret (-1) | Some omode \<Rightarrow>
     if omode AND O_CREATE \<noteq> 0 then
       thn begin_trans (\<lambda>_.
       thn (create path T_FILE 0 0) (\<lambda>i.
       thn commit_trans (\<lambda>_.
       case i of None \<Rightarrow> ret (-1) | Some i \<Rightarrow> open_file i omode)))
     else
       thn (namei path) (\<lambda>i.
       case i of None \<Rightarrow> ret (-1) | Some i \<Rightarrow>
       thn (ilock i) (\<lambda>_.
       thn (the_inode i) (\<lambda>ip.
       if i_type ip = T_DIR \<and> omode \<noteq> O_RDONLY then thn (iunlockput i) (\<lambda>_. ret (-1))
       else open_file i omode)))))"

definition sys_mkdir :: "('a kernel_st_scheme, int) prog" where
  "sys_mkdir =
     thn begin_trans (\<lambda>_.
     thn (argstr 0) (\<lambda>path.
     thn (case path of None \<Rightarrow> ret None | Some path \<Rightarrow> create path T_DIR 0 0) (\<lambda>i.
     case i of
       None \<Rightarrow> thn commit_trans (\<lambda>_. ret (-1))
     | Some i \<Rightarrow> thn (iunlockput i) (\<lambda>_. thn commit_trans (\<lambda>_. ret 0)))))"

definition sys_mknod :: "('a kernel_st_scheme, int) prog" where
  "sys_mknod =
     thn begin_trans (\<lambda>_.
     thn (argstr 0) (\<lambda>path.
     thn (argint 1) (\<lambda>major.
     thn (argint 2) (\<lambda>minor.
     thn (case (path, major, minor) of
            (Some path, Some major, Some minor) \<Rightarrow> create path T_DEV (ucast major) (ucast minor)
          | _ \<Rightarrow> ret None) (\<lambda>i.
     case i of
       None \<Rightarrow> thn commit_trans (\<lambda>_. ret (-1))
     | Some i \<Rightarrow> thn (iunlockput i) (\<lambda>_. thn commit_trans (\<lambda>_. ret 0)))))))"

definition sys_chdir :: "('a kernel_st_scheme, int) prog" where
  "sys_chdir =
     thn (argstr 0) (\<lambda>path.
     case path of None \<Rightarrow> ret (-1) | Some path \<Rightarrow>
     thn (namei path) (\<lambda>i.
     case i of None \<Rightarrow> ret (-1) | Some i \<Rightarrow>
     thn (ilock i) (\<lambda>_.
     thn (the_inode i) (\<lambda>ip.
     if i_type ip \<noteq> T_DIR then thn (iunlockput i) (\<lambda>_. ret (-1)) else
     thn (upd (iunlock i)) (\<lambda>_.
     thn cur_proc (\<lambda>p.
     thn (gets (\<lambda>s. cwd (procs s ! p))) (\<lambda>c.
     thn (case c of None \<Rightarrow> panic ''trap'' | Some c \<Rightarrow> iput c) (\<lambda>_.
     thn (set_proc p (\<lambda>q. q\<lparr>cwd := Some i\<rparr>)) (\<lambda>_. ret 0)))))))))"

section \<open>Exec and pipes\<close>

text \<open>The argument vector: at most \<open>MAXARG\<close> pointers including the null at the end.\<close>

fun fetch_args :: "nat \<Rightarrow> u32 \<Rightarrow> ('a kernel_st_scheme, byte list list option) prog" where
  "fetch_args 0 uargv = ret None"
| "fetch_args (Suc n) uargv =
     thn (fetchint uargv) (\<lambda>uarg.
     case uarg of None \<Rightarrow> ret None | Some uarg \<Rightarrow>
     if uarg = 0 then ret (Some []) else
     thn (fetchstr uarg) (\<lambda>a.
     case a of None \<Rightarrow> ret None | Some a \<Rightarrow>
     thn (fetch_args n (uargv + 4)) (\<lambda>as. ret (map_option (\<lambda>as. a # as) as))))"

definition sys_exec :: "('a kernel_st_scheme, int) prog" where
  "sys_exec =
     thn (argstr 0) (\<lambda>path.
     case path of None \<Rightarrow> ret (-1) | Some path \<Rightarrow>
     thn (argint 1) (\<lambda>uargv.
     case uargv of None \<Rightarrow> ret (-1) | Some uargv \<Rightarrow>
     thn (fetch_args MAXARG uargv) (\<lambda>argv.
     case argv of None \<Rightarrow> ret (-1) | Some argv \<Rightarrow> exec path argv)))"

definition sys_pipe :: "('a kernel_st_scheme, int) prog" where
  "sys_pipe =
     thn (argptr 0 8) (\<lambda>fd.
     case fd of None \<Rightarrow> ret (-1) | Some fd \<Rightarrow>
     thn pipealloc (\<lambda>fs.
     case fs of None \<Rightarrow> ret (-1) | Some (rf, wrf) \<Rightarrow>
     thn (fdalloc rf) (\<lambda>fd0.
     case fd0 of None \<Rightarrow> thn (fileclose rf) (\<lambda>_. thn (fileclose wrf) (\<lambda>_. ret (-1))) | Some fd0 \<Rightarrow>
     thn (fdalloc wrf) (\<lambda>fd1.
     case fd1 of
       None \<Rightarrow>
         thn cur_proc (\<lambda>p.
         thn (set_ofile p fd0 None) (\<lambda>_.
         thn (fileclose rf) (\<lambda>_. thn (fileclose wrf) (\<lambda>_. ret (-1)))))
     | Some fd1 \<Rightarrow>
         thn (upd (store_user fd (enc_words [of_nat fd0, of_nat fd1]))) (\<lambda>_. ret 0)))))"

end
