(* ===== verification/Trap.thy ===== *)
theory Trap
  imports Sysfile
begin

text \<open>
  The entry into the kernel: segment and gate descriptors (\<open>mmu.h\<close>, \<open>seginit\<close> of \<open>vm.c\<close>,
  \<open>tvinit\<close> of \<open>trap.c\<close>), the system call table and \<open>syscall\<close> of \<open>syscall.c\<close>, and \<open>trap\<close>. The
  acknowledgement of an interrupt to the local APIC (\<open>lapiceoi\<close>) has no effect on the state.
\<close>

section \<open>Segments\<close>

record segdesc =
  sd_lim_15_0 :: u32
  sd_base_15_0 :: u32
  sd_base_23_16 :: u32
  sd_type :: u32
  sd_s :: u32
  sd_dpl :: u32
  sd_p :: u32
  sd_lim_19_16 :: u32
  sd_avl :: u32
  sd_rsv1 :: u32
  sd_db :: u32
  sd_g :: u32
  sd_base_31_24 :: u32

definition SEG_KCODE :: u32 where "SEG_KCODE = 1"
definition SEG_KCPU :: u32 where "SEG_KCPU = 3"
definition NSEGS :: nat where "NSEGS = 7"
definition STA_X :: u32 where "STA_X = 8"
definition STA_W :: u32 where "STA_W = 2"
definition STA_R :: u32 where "STA_R = 2"
definition STS_IG32 :: u32 where "STS_IG32 = 0xE"
definition STS_TG32 :: u32 where "STS_TG32 = 0xF"

definition SEG :: "u32 \<Rightarrow> u32 \<Rightarrow> u32 \<Rightarrow> u32 \<Rightarrow> segdesc" where
  "SEG type base lim dpl = \<lparr>sd_lim_15_0 = drop_bit 12 lim AND 0xffff, sd_base_15_0 = base AND 0xffff,
     sd_base_23_16 = drop_bit 16 base AND 0xff, sd_type = type, sd_s = 1, sd_dpl = dpl, sd_p = 1,
     sd_lim_19_16 = drop_bit 28 lim, sd_avl = 0, sd_rsv1 = 0, sd_db = 1, sd_g = 1, sd_base_31_24 = drop_bit 24 base\<rparr>"

text \<open>The descriptor table that \<open>seginit\<close> gives to a CPU whose \<open>struct cpu\<close> has its \<open>cpu\<close> field at \<open>cpuaddr\<close>.\<close>

definition seginit :: "u32 \<Rightarrow> segdesc list \<Rightarrow> segdesc list" where
  "seginit cpuaddr gdt = gdt
     [unat SEG_KCODE := SEG (STA_X OR STA_R) 0 0xffffffff 0, unat SEG_KDATA := SEG STA_W 0 0xffffffff 0,
      unat SEG_UCODE := SEG (STA_X OR STA_R) 0 0xffffffff DPL_USER, unat SEG_UDATA := SEG STA_W 0 0xffffffff DPL_USER,
      unat SEG_KCPU := SEG STA_W cpuaddr 8 0]"

section \<open>Gates\<close>

record gatedesc =
  gd_off_15_0 :: u32
  gd_cs :: u32
  gd_args :: u32
  gd_rsv1 :: u32
  gd_type :: u32
  gd_s :: u32
  gd_dpl :: u32
  gd_p :: u32
  gd_off_31_16 :: u32

definition SETGATE :: "bool \<Rightarrow> u32 \<Rightarrow> u32 \<Rightarrow> u32 \<Rightarrow> gatedesc" where
  "SETGATE istrap sel off d = \<lparr>gd_off_15_0 = off AND 0xffff, gd_cs = sel, gd_args = 0, gd_rsv1 = 0,
     gd_type = (if istrap then STS_TG32 else STS_IG32), gd_s = 0, gd_dpl = d, gd_p = 1, gd_off_31_16 = drop_bit 16 off\<rparr>"

definition T_SYSCALL :: u32 where "T_SYSCALL = 64"
definition T_IRQ0 :: u32 where "T_IRQ0 = 32"
definition IRQ_TIMER :: u32 where "IRQ_TIMER = 0"
definition IRQ_KBD :: u32 where "IRQ_KBD = 1"
definition IRQ_COM1 :: u32 where "IRQ_COM1 = 4"
definition IRQ_IDE :: u32 where "IRQ_IDE = 14"
definition IRQ_SPURIOUS :: u32 where "IRQ_SPURIOUS = 31"

text \<open>\<open>vectors\<close> are the 256 entry points that a script generates.\<close>

definition tvinit :: "u32 list \<Rightarrow> gatedesc list" where
  "tvinit vectors =
     (map (\<lambda>i. SETGATE False (push_bit 3 SEG_KCODE) (vectors ! i) 0) [0..<256])
       [unat T_SYSCALL := SETGATE True (push_bit 3 SEG_KCODE) (vectors ! unat T_SYSCALL) DPL_USER]"

section \<open>System calls\<close>

definition SYS_fork :: nat where "SYS_fork = 1"
definition SYS_exit :: nat where "SYS_exit = 2"
definition SYS_wait :: nat where "SYS_wait = 3"
definition SYS_pipe :: nat where "SYS_pipe = 4"
definition SYS_read :: nat where "SYS_read = 5"
definition SYS_kill :: nat where "SYS_kill = 6"
definition SYS_exec :: nat where "SYS_exec = 7"
definition SYS_fstat :: nat where "SYS_fstat = 8"
definition SYS_chdir :: nat where "SYS_chdir = 9"
definition SYS_dup :: nat where "SYS_dup = 10"
definition SYS_getpid :: nat where "SYS_getpid = 11"
definition SYS_sbrk :: nat where "SYS_sbrk = 12"
definition SYS_sleep :: nat where "SYS_sleep = 13"
definition SYS_uptime :: nat where "SYS_uptime = 14"
definition SYS_open :: nat where "SYS_open = 15"
definition SYS_write :: nat where "SYS_write = 16"
definition SYS_mknod :: nat where "SYS_mknod = 17"
definition SYS_unlink :: nat where "SYS_unlink = 18"
definition SYS_link :: nat where "SYS_link = 19"
definition SYS_mkdir :: nat where "SYS_mkdir = 20"
definition SYS_close :: nat where "SYS_close = 21"

lemmas SYS_defs = SYS_fork_def SYS_exit_def SYS_wait_def SYS_pipe_def SYS_read_def SYS_kill_def SYS_exec_def
  SYS_fstat_def SYS_chdir_def SYS_dup_def SYS_getpid_def SYS_sbrk_def SYS_sleep_def SYS_uptime_def SYS_open_def
  SYS_write_def SYS_mknod_def SYS_unlink_def SYS_link_def SYS_mkdir_def SYS_close_def

definition syscalls :: "(nat \<times> ('a kernel_st_scheme, int) prog) list" where
  "syscalls =
    [(SYS_fork, sys_fork), (SYS_exit, sys_exit), (SYS_wait, sys_wait), (SYS_pipe, sys_pipe), (SYS_read, sys_read),
     (SYS_kill, sys_kill), (SYS_exec, sys_exec), (SYS_fstat, sys_fstat), (SYS_chdir, sys_chdir), (SYS_dup, sys_dup),
     (SYS_getpid, sys_getpid), (SYS_sbrk, sys_sbrk), (SYS_sleep, sys_sleep), (SYS_uptime, sys_uptime),
     (SYS_open, sys_open), (SYS_write, sys_write), (SYS_mknod, sys_mknod), (SYS_unlink, sys_unlink),
     (SYS_link, sys_link), (SYS_mkdir, sys_mkdir), (SYS_close, sys_close)]"

definition set_eax :: "nat \<Rightarrow> int \<Rightarrow> ('a proc_st_scheme, unit) prog" where
  "set_eax p r = set_proc p (\<lambda>q. q\<lparr>tf := (tf q)\<lparr>tf_eax := word_of_int r\<rparr>\<rparr>)"

definition proc_name :: "proc \<Rightarrow> fmt_arg" where
  "proc_name q = A_str (Some (takeWhile (\<lambda>c. c \<noteq> 0) (pname q)))"

definition syscall :: "('a kernel_st_scheme, unit) prog" where
  "syscall =
     thn cur_proc (\<lambda>p.
     thn (the_proc p) (\<lambda>q.
     let num = sint (tf_eax (tf q)) in
     case if num > 0 then map_of syscalls (nat num) else None of
       Some f \<Rightarrow> thn f (set_eax p)
     | None \<Rightarrow>
         thn (upd (cprintf (lit ''%d %s: unknown sys call %d'' @ [10])
                [A_int (word_of_int (pid q)), proc_name q, A_int (word_of_int num)])) (\<lambda>_.
         set_eax p (-1))))"

section \<open>Traps\<close>

definition yield_p :: "('a proc_st_scheme, unit) prog" where
  "yield_p w = bnd (yield (fst w) (snd w)) (\<lambda>w. Ok ((), w))"

definition timer_tick :: "('a kernel_st_scheme, unit) prog" where
  "timer_tick =
     thn (upd (lock L_ticks)) (\<lambda>_.
     thn (modify (\<lambda>s. s\<lparr>ticks := ticks s + 1\<rparr>)) (\<lambda>_.
     thn (upd (wakeup Ch_ticks)) (\<lambda>_. upd (unlock L_ticks))))"

text \<open>The interrupts and faults, for the trap frame \<open>t\<close>. The memory disk does not interrupt: its handler is empty.\<close>

definition trap_switch :: "trapframe \<Rightarrow> ('a kernel_st_scheme, unit) prog" where
  "trap_switch t =
     (if tf_trapno t = T_IRQ0 + IRQ_TIMER then thn (gets cpu_id) (\<lambda>c. whenp (c = 0) timer_tick)
      else if tf_trapno t = T_IRQ0 + IRQ_IDE then ret ()
      else if tf_trapno t = T_IRQ0 + IRQ_IDE + 1 then ret ()
      else if tf_trapno t = T_IRQ0 + IRQ_KBD then upd kbdintr
      else if tf_trapno t = T_IRQ0 + IRQ_COM1 then upd uartintr
      else if tf_trapno t = T_IRQ0 + 7 \<or> tf_trapno t = T_IRQ0 + IRQ_SPURIOUS then
        thn (gets cpu_id) (\<lambda>c.
        upd (cprintf (lit ''cpu%d: spurious interrupt at %x:%x'' @ [10])
          [A_int c, A_int (ucast (tf_cs t)), A_int (tf_eip t)]))
      else
        thn (gets (\<lambda>s. (cpu_id s, cr2 s, cur s))) (\<lambda>(c, fault, p).
        case p of
          Some p \<Rightarrow>
            if tf_cs t AND 3 = 0 then
              thn (upd (cprintf (lit ''unexpected trap %d from cpu %d eip %x (cr2=0x%x)'' @ [10])
                [A_int (tf_trapno t), A_int c, A_int (tf_eip t), A_int fault])) (\<lambda>_. panic ''trap'')
            else
              thn (the_proc p) (\<lambda>q.
              thn (upd (cprintf (lit ''pid %d %s: trap %d err %d on cpu %d eip 0x%x addr 0x%x--kill proc'' @ [10])
                [A_int (word_of_int (pid q)), proc_name q, A_int (tf_trapno t), A_int (tf_err t), A_int c,
                 A_int (tf_eip t), A_int fault])) (\<lambda>_.
              set_proc p (\<lambda>q. q\<lparr>killed := True\<rparr>)))
        | None \<Rightarrow>
            thn (upd (cprintf (lit ''unexpected trap %d from cpu %d eip %x (cr2=0x%x)'' @ [10])
              [A_int (tf_trapno t), A_int c, A_int (tf_eip t), A_int fault])) (\<lambda>_. panic ''trap'')))"

text \<open>Forced exit of a process that has been killed and was in user space.\<close>

definition exit_if_killed :: "trapframe \<Rightarrow> ('a kernel_st_scheme, unit) prog" where
  "exit_if_killed t =
     thn (gets (\<lambda>s. case cur s of None \<Rightarrow> False | Some p \<Rightarrow> killed (procs s ! p))) (\<lambda>k.
     whenp (k \<and> tf_cs t AND 3 = ucast DPL_USER) exit)"

definition trap :: "trapframe \<Rightarrow> ('a kernel_st_scheme, unit) prog" where
  "trap t =
     (if tf_trapno t = T_SYSCALL then
        thn cur_proc (\<lambda>p.
        thn (the_proc p) (\<lambda>q.
        thn (whenp (killed q) exit) (\<lambda>_.
        thn (set_proc p (\<lambda>q. q\<lparr>tf := t\<rparr>)) (\<lambda>_.
        thn syscall (\<lambda>_.
        thn (the_proc p) (\<lambda>q. whenp (killed q) exit))))))
      else
        thn (trap_switch t) (\<lambda>_.
        thn (exit_if_killed t) (\<lambda>_.
        thn (gets (\<lambda>s. case cur s of None \<Rightarrow> False | Some p \<Rightarrow> pstate (procs s ! p) = RUNNING)) (\<lambda>running.
        thn (whenp (running \<and> tf_trapno t = T_IRQ0 + IRQ_TIMER) yield_p) (\<lambda>_. exit_if_killed t)))))"

end
