(* ===== verification/Lifecycle.thy ===== *)
theory Lifecycle
  imports Trap
begin

text \<open>
  The process table as a state machine. The steps of \<open>ptable_step\<close> are the changes that the
  operations of \<open>proc.c\<close> make to the table while they hold \<open>ptable.lock\<close> (or, in \<open>fork\<close>, to the
  embryo only the forking process knows), in any order and on behalf of any running
  process; \<open>fork\<close>, \<open>wait\<close> and \<open>sleep\<close> are shown to be sequences of such steps. The invariant
  gives unique process ids, a tree without orphans, and no lost wakeup between \<open>exit\<close> and
  \<open>wait\<close>.
\<close>

section \<open>Steps\<close>

definition running :: "'a proc_st_scheme \<Rightarrow> nat \<Rightarrow> bool" where
  "running s p \<longleftrightarrow> p < length (procs s) \<and> pstate (procs s ! p) = RUNNING"

definition embryo :: "'a proc_st_scheme \<Rightarrow> nat \<Rightarrow> bool" where
  "embryo s p \<longleftrightarrow> p < length (procs s) \<and> pstate (procs s ! p) = EMBRYO"

text \<open>Changes of the fields that play no part in the life cycle of a process.\<close>

definition local_upd :: "(proc \<Rightarrow> proc) \<Rightarrow> bool" where
  "local_upd f \<longleftrightarrow> (\<forall>q. pstate (f q) = pstate q \<and> pid (f q) = pid q \<and> parent (f q) = parent q \<and> pchan (f q) = pchan q)"

definition same_life :: "proc \<Rightarrow> proc \<Rightarrow> bool" where
  "same_life q q' \<longleftrightarrow> pstate q' = pstate q \<and> pid q' = pid q \<and> parent q' = parent q \<and> pchan q' = pchan q"

definition calm :: "'a proc_st_scheme \<Rightarrow> 'a proc_st_scheme \<Rightarrow> bool" where
  "calm s s' \<longleftrightarrow> list_all2 same_life (procs s) (procs s') \<and> initproc s' = initproc s \<and> nextpid s' = nextpid s \<and> cur s' = cur s"

inductive ptable_step :: "'a proc_st_scheme \<Rightarrow> 'a proc_st_scheme \<Rightarrow> bool" where
  st_alloc: "allocproc t s = Ok (r, s') \<Longrightarrow> ptable_step s s'"
| st_fork_fail: "embryo s np \<Longrightarrow> parent (procs s ! np) = None \<Longrightarrow>
    ptable_step s (upd_proc np (\<lambda>r. r\<lparr>kstack := 0, pstate := UNUSED\<rparr>) s)"
| st_fork_parent: "embryo s np \<Longrightarrow> running s p \<Longrightarrow>
    ptable_step s (upd_proc np (\<lambda>r. r\<lparr>sz := z, parent := Some p, tf := t\<rparr>) s)"
| st_fork_ready: "embryo s np \<Longrightarrow> parent (procs s ! np) = Some p \<Longrightarrow>
    ptable_step s (upd_proc np (\<lambda>r. r\<lparr>cwd := c, pstate := RUNNABLE, pname := nm r\<rparr>) s)"
| st_exit: "running s p \<Longrightarrow> initproc s \<noteq> Some p \<Longrightarrow> ptable_step s (exit_table p s)"
| st_reap: "running s p \<Longrightarrow> first_idx (zombie_child p) (procs s) = Some i \<Longrightarrow>
    ptable_step s (upd_proc i clear_proc s)"
| st_wait: "running s p \<Longrightarrow> first_idx (zombie_child p) (procs s) = None \<Longrightarrow>
    ptable_step s (upd_proc p (\<lambda>q. q\<lparr>pchan := Some (Ch_proc p), pstate := SLEEPING\<rparr>) s)"
| st_sleep: "running s p \<Longrightarrow> (\<forall>q. ch \<noteq> Ch_proc q) \<Longrightarrow>
    ptable_step s (upd_proc p (\<lambda>q. q\<lparr>pchan := Some ch, pstate := SLEEPING\<rparr>) s)"
| st_resume: "running s p \<Longrightarrow> ptable_step s (upd_proc p (\<lambda>q. q\<lparr>pchan := None\<rparr>) s)"
| st_yield: "running s p \<Longrightarrow> ptable_step s (upd_proc p (\<lambda>q. q\<lparr>pstate := RUNNABLE\<rparr>) s)"
| st_dispatch: "i < length (procs s) \<Longrightarrow> pstate (procs s ! i) = RUNNABLE \<Longrightarrow> dispatch i s = Ok s' \<Longrightarrow> ptable_step s s'"
| st_wakeup: "ptable_step s (wakeup1 ch s)"
| st_kill: "kill pd s = Ok (r, s') \<Longrightarrow> ptable_step s s'"
| st_calm: "calm s s' \<Longrightarrow> ptable_step s s'"

abbreviation ptable_steps :: "'a proc_st_scheme \<Rightarrow> 'a proc_st_scheme \<Rightarrow> bool" where
  "ptable_steps \<equiv> ptable_step\<^sup>*\<^sup>*"

section \<open>The invariant\<close>

definition is_live :: "proc \<Rightarrow> bool" where
  "is_live q \<longleftrightarrow> pstate q \<noteq> UNUSED"

text \<open>A process that can have children: it has finished being forked and has not exited.\<close>

definition is_adult :: "proc \<Rightarrow> bool" where
  "is_adult q \<longleftrightarrow> pstate q \<in> {SLEEPING, RUNNABLE, RUNNING}"

definition pids_ok :: "int \<Rightarrow> proc list \<Rightarrow> bool" where
  "pids_ok n ps \<longleftrightarrow>
     (\<forall>i<length ps. is_live (ps ! i) \<longrightarrow> 0 < pid (ps ! i) \<and> pid (ps ! i) < n) \<and>
     (\<forall>i<length ps. \<forall>j<length ps. is_live (ps ! i) \<and> is_live (ps ! j) \<and> pid (ps ! i) = pid (ps ! j) \<longrightarrow> i = j)"

definition tree_ok :: "nat \<Rightarrow> proc list \<Rightarrow> bool" where
  "tree_ok ini ps \<longleftrightarrow> ini < length ps \<and> is_adult (ps ! ini) \<and> parent (ps ! ini) = None \<and>
     (\<forall>i<length ps. pstate (ps ! i) = UNUSED \<longrightarrow> parent (ps ! i) = None) \<and>
     (\<forall>i<length ps. i \<noteq> ini \<and> pstate (ps ! i) \<notin> {UNUSED, EMBRYO} \<longrightarrow> parent (ps ! i) \<noteq> None) \<and>
     (\<forall>i<length ps. \<forall>p. parent (ps ! i) = Some p \<longrightarrow> p < length ps \<and> p \<noteq> i \<and> is_adult (ps ! p))"

lemma tree_okD:
  assumes "tree_ok ini ps"
  shows "ini < length ps" "is_adult (ps ! ini)" "parent (ps ! ini) = None"
    "i < length ps \<Longrightarrow> pstate (ps ! i) = UNUSED \<Longrightarrow> parent (ps ! i) = None"
    "i < length ps \<Longrightarrow> i \<noteq> ini \<Longrightarrow> pstate (ps ! i) \<notin> {UNUSED, EMBRYO} \<Longrightarrow> parent (ps ! i) \<noteq> None"
    "i < length ps \<Longrightarrow> parent (ps ! i) = Some p \<Longrightarrow> p < length ps \<and> p \<noteq> i \<and> is_adult (ps ! p)"
  using assms unfolding tree_ok_def by blast+

text \<open>No process sleeps in \<open>wait\<close> while it has a zombie to reap.\<close>

definition waits_ok :: "proc list \<Rightarrow> bool" where
  "waits_ok ps \<longleftrightarrow> (\<forall>p<length ps. \<forall>q. pstate (ps ! p) = SLEEPING \<and> pchan (ps ! p) = Some (Ch_proc q) \<longrightarrow>
     q = p \<and> (\<forall>i<length ps. \<not> zombie_child p (ps ! i)))"

definition ptree_inv :: "'a proc_st_scheme \<Rightarrow> bool" where
  "ptree_inv s \<longleftrightarrow> length (procs s) = NPROC \<and> (\<exists>ini. initproc s = Some ini \<and> tree_ok ini (procs s)) \<and> waits_ok (procs s)"

text \<open>The table once \<open>userinit\<close> has made the first process.\<close>

definition booted :: "'a proc_st_scheme \<Rightarrow> bool" where
  "booted s \<longleftrightarrow> length (procs s) = NPROC \<and> initproc s = Some 0 \<and> pstate (procs s ! 0) = RUNNABLE \<and>
     parent (procs s ! 0) = None \<and> 0 < pid (procs s ! 0) \<and> pid (procs s ! 0) < nextpid s \<and>
     (\<forall>i<NPROC. i \<noteq> 0 \<longrightarrow> pstate (procs s ! i) = UNUSED \<and> parent (procs s ! i) = None)"

lemma booted_inv:
  "booted s \<Longrightarrow> ptree_inv s" "booted s \<Longrightarrow> 0 < nextpid s \<and> pids_ok (nextpid s) (procs s)"
proof -
  assume b: "booted s"
  have len: "length (procs s) = NPROC" and ini: "initproc s = Some 0" using b by (auto simp: booted_def)
  have only: "pstate (procs s ! i) = UNUSED \<and> parent (procs s ! i) = None" if "i < NPROC" "i \<noteq> 0" for i
    using b that by (auto simp: booted_def)
  have zero: "pstate (procs s ! 0) = RUNNABLE" "parent (procs s ! 0) = None" "0 < pid (procs s ! 0)"
    "pid (procs s ! 0) < nextpid s" using b by (auto simp: booted_def)
  have cases0: "i < NPROC \<Longrightarrow> i = 0 \<or> pstate (procs s ! i) = UNUSED \<and> parent (procs s ! i) = None" for i
    using only by blast
  have "pids_ok (nextpid s) (procs s)"
    unfolding pids_ok_def len is_live_def using cases0 zero by metis
  then show "0 < nextpid s \<and> pids_ok (nextpid s) (procs s)" using zero by simp
  have "parent (procs s ! i) = None" if "i < NPROC" for i using cases0 [OF that] zero by auto
  then have "tree_ok 0 (procs s)"
    unfolding tree_ok_def len is_adult_def using cases0 zero by (auto simp: NPROC_def)
  moreover have "waits_ok (procs s)"
    unfolding waits_ok_def len using cases0 zero by fastforce
  ultimately show "ptree_inv s" using len ini by (auto simp: ptree_inv_def)
qed

section \<open>Steps that keep the tree\<close>

text \<open>Changes of one process that cannot break the tree, or the whole invariant, whatever the rest of the table is.\<close>

definition tree_le :: "proc \<Rightarrow> proc \<Rightarrow> bool" where
  "tree_le q q' \<longleftrightarrow> (is_live q' \<longrightarrow> is_live q \<and> pid q' = pid q) \<and> parent q' = parent q \<and>
     (is_adult q \<longrightarrow> is_adult q') \<and> (pstate q' = UNUSED \<longrightarrow> pstate q = UNUSED \<or> parent q = None) \<and>
     (pstate q' \<notin> {UNUSED, EMBRYO} \<longrightarrow> pstate q \<notin> {UNUSED, EMBRYO} \<or> parent q \<noteq> None)"

definition life_le :: "proc \<Rightarrow> proc \<Rightarrow> bool" where
  "life_le q q' \<longleftrightarrow> tree_le q q' \<and>
     (\<forall>c. pstate q' = SLEEPING \<and> pchan q' = Some (Ch_proc c) \<longrightarrow> pstate q = SLEEPING \<and> pchan q = Some (Ch_proc c)) \<and>
     (pstate q' = ZOMBIE \<longrightarrow> pstate q = ZOMBIE)"

lemmas life_defs = life_le_def tree_le_def is_live_def is_adult_def

lemma le_refl [simp]: "tree_le q q" "life_le q q"
  by (auto simp: life_le_def tree_le_def)

lemma tree_leD:
  assumes "tree_le q q'"
  shows "is_live q' \<Longrightarrow> is_live q" "is_live q' \<Longrightarrow> pid q' = pid q" "parent q' = parent q" "is_adult q \<Longrightarrow> is_adult q'"
    "pstate q' = UNUSED \<Longrightarrow> pstate q \<noteq> UNUSED \<Longrightarrow> parent q = None"
    "pstate q' \<noteq> UNUSED \<Longrightarrow> pstate q' \<noteq> EMBRYO \<Longrightarrow> pstate q = UNUSED \<or> pstate q = EMBRYO \<Longrightarrow> parent q \<noteq> None"
  using assms by (auto simp: tree_le_def)

lemma life_leD:
  assumes "life_le q q'"
  shows "tree_le q q'"
    "pstate q' = SLEEPING \<Longrightarrow> pchan q' = Some (Ch_proc c) \<Longrightarrow> pstate q = SLEEPING \<and> pchan q = Some (Ch_proc c)"
    "zombie_child p q' \<Longrightarrow> zombie_child p q"
  using assms by (auto simp: life_le_def tree_le_def zombie_child_def is_child_def)

text \<open>Nobody is born, and nobody's process id changes.\<close>

definition pid_le :: "proc \<Rightarrow> proc \<Rightarrow> bool" where
  "pid_le q q' \<longleftrightarrow> (is_live q' \<longrightarrow> is_live q \<and> pid q' = pid q)"

lemma tree_le_pid: "tree_le q q' \<Longrightarrow> pid_le q q'"
  by (simp add: tree_le_def pid_le_def)

lemma pids_ok_le:
  assumes "pids_ok n ps" "list_all2 pid_le ps ps'"
  shows "pids_ok n ps'"
proof -
  have l: "length ps' = length ps" and le: "i < length ps \<Longrightarrow> pid_le (ps ! i) (ps' ! i)" for i
    using assms(2) by (auto simp: list_all2_conv_all_nth)
  show ?thesis
    unfolding pids_ok_def l using assms(1) [unfolded pids_ok_def] le [unfolded pid_le_def] by metis
qed

lemma tree_ok_le:
  assumes t: "tree_ok ini ps" and "list_all2 tree_le ps ps'"
  shows "tree_ok ini ps'"
proof -
  have l: "length ps' = length ps" and le: "i < length ps \<Longrightarrow> tree_le (ps ! i) (ps' ! i)" for i
    using assms(2) by (auto simp: list_all2_conv_all_nth)
  note t = tree_okD [OF t] and par = tree_leD(3) [OF le]
  show ?thesis unfolding tree_ok_def l
  proof (intro conjI allI impI)
    show "ini < length ps" "is_adult (ps' ! ini)" "parent (ps' ! ini) = None"
      using t(1-3) par tree_leD(4) [OF le] by auto
    fix i assume i: "i < length ps"
    show "pstate (ps' ! i) = UNUSED \<Longrightarrow> parent (ps' ! i) = None"
      using t(4) [OF i] par [OF i] tree_leD(5) [OF le [OF i]] by auto
    show "i \<noteq> ini \<and> pstate (ps' ! i) \<notin> {UNUSED, EMBRYO} \<Longrightarrow> parent (ps' ! i) \<noteq> None"
      using t(5) [OF i] par [OF i] tree_leD(6) [OF le [OF i]] by auto
    fix p assume "parent (ps' ! i) = Some p"
    then have "p < length ps \<and> p \<noteq> i \<and> is_adult (ps ! p)" using t(6) [OF i] par [OF i] by auto
    then show "p < length ps" "p \<noteq> i" "is_adult (ps' ! p)" using tree_leD(4) [OF le] by auto
  qed
qed

lemma waits_ok_le:
  assumes "waits_ok ps" "list_all2 life_le ps ps'"
  shows "waits_ok ps'"
proof -
  have l: "length ps' = length ps" and le: "i < length ps \<Longrightarrow> life_le (ps ! i) (ps' ! i)" for i
    using assms(2) by (auto simp: list_all2_conv_all_nth)
  show ?thesis
    unfolding waits_ok_def l using assms(1) [unfolded waits_ok_def] life_leD(2,3) [OF le] by metis
qed

text \<open>Steps that change the processes one by one, none in a way that could break the invariant.\<close>

definition life_keeps :: "'a proc_st_scheme \<Rightarrow> 'a proc_st_scheme \<Rightarrow> bool" where
  "life_keeps s s' \<longleftrightarrow> list_all2 life_le (procs s) (procs s') \<and> initproc s' = initproc s \<and> nextpid s' = nextpid s"

lemma life_keeps_inv:
  assumes "ptree_inv s" "life_keeps s s'"
  shows "ptree_inv s'"
proof -
  have l: "list_all2 life_le (procs s) (procs s')" using assms(2) by (simp add: life_keeps_def)
  then have "list_all2 tree_le (procs s) (procs s')" by (rule list_all2_mono) (rule life_leD)
  then show ?thesis using assms l tree_ok_le waits_ok_le by (auto simp: ptree_inv_def life_keeps_def dest: list_all2_lengthD)
qed

lemma life_keeps_pids: "life_keeps s s' \<Longrightarrow> list_all2 pid_le (procs s) (procs s')"
  unfolding life_keeps_def by (auto elim!: list_all2_mono intro: tree_le_pid life_leD(1))

lemma list_all2_upd:
  "(\<And>x. R x x) \<Longrightarrow> (i < length ps \<Longrightarrow> R (ps ! i) q) \<Longrightarrow> list_all2 R ps (ps[i := q])"
  by (simp add: list_all2_conv_all_nth) (metis nth_list_update_eq nth_list_update_neq)

lemma life_keeps_upd:
  "(i < length (procs s) \<Longrightarrow> life_le (procs s ! i) (f (procs s ! i))) \<Longrightarrow> life_keeps s (upd_proc i f s)"
  by (auto simp: life_keeps_def procs_upd_proc upd_proc_def intro: list_all2_upd)

lemma life_keeps_wakeup1: "life_keeps s (wakeup1 ch s)"
  by (auto simp: life_keeps_def wakeup1_def list_all2_conv_all_nth life_defs)

lemma life_keeps_kill:
  assumes "kill pd s = Ok (r, s')"
  shows "life_keeps s s'"
proof (cases "first_idx (\<lambda>p. pid p = pd) (procs s)")
  case None
  with assms show ?thesis by (auto simp: kill_def res_simps life_keeps_def list_all2_same)
next
  case (Some i)
  let ?f = "\<lambda>p. p\<lparr>killed := True, pstate := (if pstate p = SLEEPING then RUNNABLE else pstate p)\<rparr>"
  have "procs s' = (procs s)[i := ?f (procs s ! i)]" "initproc s' = initproc s" "nextpid s' = nextpid s"
    using assms Some first_idx_SomeD(1) [OF Some] by (auto simp: kill_def res_simps Let_def upd_proc_def)
  then show ?thesis by (auto simp: life_keeps_def intro!: list_all2_upd) (auto simp: life_defs)
qed

lemma dispatch_table:
  assumes "dispatch i s = Ok s'" "i < length (procs s)"
  shows "\<exists>f. procs s' = (procs s)[i := (f (procs s ! i))\<lparr>pstate := RUNNING\<rparr>] \<and> local_upd f \<and>
    initproc s' = initproc s \<and> nextpid s' = nextpid s"
proof (cases "sched_s s = 0")
  case True
  with assms show ?thesis
    by (intro exI [of _ "\<lambda>p. p\<lparr>step := step p + sizeStep p\<rparr>"])
      (auto simp: dispatch_def switchuvm_def with_cur_def Let_def upd_proc_def local_upd_def split: if_splits)
next
  case False
  with assms show ?thesis
    by (intro exI [of _ "\<lambda>p. p"])
      (auto simp: dispatch_def switchuvm_def with_cur_def Let_def upd_proc_def local_upd_def res_simps split: if_splits)
qed

lemma life_keeps_dispatch:
  assumes "pstate (procs s ! i) = RUNNABLE" "dispatch i s = Ok s'" "i < length (procs s)"
  shows "life_keeps s s'"
proof -
  obtain f where f: "procs s' = (procs s)[i := (f (procs s ! i))\<lparr>pstate := RUNNING\<rparr>]" "local_upd f"
    "initproc s' = initproc s" "nextpid s' = nextpid s" using dispatch_table [OF assms(2,3)] by blast
  have "life_le (procs s ! i) ((f (procs s ! i))\<lparr>pstate := RUNNING\<rparr>)"
    using f(2) assms(1) by (auto simp: local_upd_def life_defs)
  then show ?thesis by (auto simp: life_keeps_def f intro: list_all2_upd)
qed

section \<open>Allocation, forking and reaping\<close>

lemma pids_ok_fresh:
  assumes "pids_ok n ps" "pid q = n" "0 < n" "i < length ps"
  shows "pids_ok (n + 1) (ps[i := q])"
proof -
  have old: "j < length ps \<Longrightarrow> is_live (ps ! j) \<Longrightarrow> 0 < pid (ps ! j) \<and> pid (ps ! j) < n" for j
    using assms(1) by (auto simp: pids_ok_def)
  have "0 < pid (ps[i := q] ! j) \<and> pid (ps[i := q] ! j) < n + 1" if "j < length ps" "is_live (ps[i := q] ! j)" for j
    using that assms old [of j] by (cases "j = i") auto
  moreover have "j = k" if "j < length ps" "k < length ps" "is_live (ps[i := q] ! j)" "is_live (ps[i := q] ! k)"
    "pid (ps[i := q] ! j) = pid (ps[i := q] ! k)" for j k
  proof (cases "j = i \<or> k = i")
    case True
    then show ?thesis using that assms(2) old [of j] old [of k] by (cases "j = i"; cases "k = i") auto
  next
    case False
    then show ?thesis using that assms(1) unfolding pids_ok_def by (metis nth_list_update_neq)
  qed
  ultimately show ?thesis by (simp add: pids_ok_def)
qed

lemma tree_ok_upd:
  assumes t: "tree_ok ini ps" and i: "\<not> is_adult (ps ! i)"
    and q: "pstate q = UNUSED \<Longrightarrow> parent q = None" "pstate q \<notin> {UNUSED, EMBRYO} \<Longrightarrow> parent q \<noteq> None"
      "\<And>p. parent q = Some p \<Longrightarrow> p < length ps \<and> is_adult (ps ! p)"
  shows "tree_ok ini (ps[i := q])"
proof -
  note t = tree_okD [OF t]
  have adult: "is_adult (ps ! j) \<Longrightarrow> ps[i := q] ! j = ps ! j" for j
    using i by (cases "j = i") auto
  show ?thesis unfolding tree_ok_def length_list_update
  proof (intro conjI allI impI)
    show "ini < length ps" "is_adult (ps[i := q] ! ini)" "parent (ps[i := q] ! ini) = None"
      using t(1-3) adult by auto
    fix j assume j: "j < length ps"
    show "pstate (ps[i := q] ! j) = UNUSED \<Longrightarrow> parent (ps[i := q] ! j) = None"
      using j t(4) [OF j] q(1) by (cases "j = i") auto
    show "j \<noteq> ini \<and> pstate (ps[i := q] ! j) \<notin> {UNUSED, EMBRYO} \<Longrightarrow> parent (ps[i := q] ! j) \<noteq> None"
      using j t(5) [OF j] q(2) by (cases "j = i") auto
    fix p assume p: "parent (ps[i := q] ! j) = Some p"
    have "p < length ps \<and> p \<noteq> j \<and> is_adult (ps ! p)"
      using j t(6) [OF j] q(3) p i by (cases "j = i") auto
    then show "p < length ps" "p \<noteq> j" "is_adult (ps[i := q] ! p)" using adult by auto
  qed
qed

lemma waits_ok_upd:
  assumes "waits_ok ps" "pstate q = SLEEPING \<Longrightarrow> \<forall>c. pchan q \<noteq> Some (Ch_proc c)" "pstate q \<noteq> ZOMBIE"
  shows "waits_ok (ps[i := q])"
  unfolding waits_ok_def length_list_update
proof (intro allI impI)
  fix p c assume p: "p < length ps" "pstate (ps[i := q] ! p) = SLEEPING \<and> pchan (ps[i := q] ! p) = Some (Ch_proc c)"
  then have "p \<noteq> i" using assms(2) by auto
  with p assms(1) have "c = p \<and> (\<forall>i<length ps. \<not> zombie_child p (ps ! i))"
    by (auto simp: waits_ok_def)
  then show "c = p \<and> (\<forall>j<length ps. \<not> zombie_child p (ps[i := q] ! j))"
    using assms(3) by (metis nth_list_update_eq nth_list_update_neq zombie_child_def)
qed

lemma ptree_inv_replace:
  assumes inv: "ptree_inv s" and i: "\<not> is_adult (procs s ! i)"
    and q: "pstate q = UNUSED \<Longrightarrow> parent q = None" "pstate q \<in> {UNUSED, EMBRYO}"
      "\<And>p. parent q = Some p \<Longrightarrow> p < length (procs s) \<and> is_adult (procs s ! p)"
    and s': "procs s' = (procs s)[i := q]" "initproc s' = initproc s"
  shows "ptree_inv s'"
  using assms tree_ok_upd [of _ "procs s" i q] waits_ok_upd [of "procs s" q i] by (auto simp: ptree_inv_def)

lemma kalloc_more: "kalloc s = Ok (r, s') \<Longrightarrow> mem_st.more s' = mem_st.more s"
  by (auto simp: kalloc_def Let_def res_simps split: if_splits)

lemma more_procs:
  fixes s s' :: "'a proc_st_scheme"
  shows "mem_st.more s' = mem_st.more s \<Longrightarrow> procs s' = procs s \<and> initproc s' = initproc s \<and> nextpid s' = nextpid s \<and> cur s' = cur s"
  by (cases s, cases s') simp

lemma inv_same: "ptree_inv s \<Longrightarrow> procs s' = procs s \<Longrightarrow> initproc s' = initproc s \<Longrightarrow> ptree_inv s'"
  by (simp add: ptree_inv_def)

lemma local_upd_comp: "local_upd f \<Longrightarrow> local_upd g \<Longrightarrow> local_upd (\<lambda>q. f (g q))"
  by (simp add: local_upd_def)

text \<open>What \<open>allocproc\<close> does to the table: nothing when it is full, otherwise the first free slot
  becomes an embryo with the next process id, or stays free when there is no stack.\<close>

lemma allocproc_table:
  assumes "allocproc t s = Ok (r, s')"
  shows "initproc s' = initproc s \<and> cur s' = cur s \<and> (case first_idx (\<lambda>p. pstate p = UNUSED) (procs s) of
     None \<Rightarrow> r = None \<and> procs s' = procs s \<and> nextpid s' = nextpid s
   | Some i \<Rightarrow> nextpid s' = c_int (nextpid s + 1) \<and> (\<exists>f. local_upd f \<and> (\<forall>q. killed (f q) = killed q) \<and>
       procs s' = (procs s)[i := (f ((procs s ! i)\<lparr>pid := nextpid s\<rparr>))\<lparr>pstate := (if r = None then UNUSED else EMBRYO)\<rparr>] \<and>
       r \<in> {None, Some i}))"
proof (cases "first_idx (\<lambda>p. pstate p = UNUSED) (procs s)")
  case None
  then have "\<forall>p\<in>set (procs s). pstate p \<noteq> UNUSED" by simp
  with assms None have "s' = s \<and> r = None" by (auto simp: allocproc_def res_simps Let_def split: option.splits)
  then show ?thesis unfolding None by simp
next
  case (Some i)
  then have i: "i < length (procs s)" by (rule first_idx_SomeD)
  let ?s = "s\<lparr>procs := (procs s)[i := (procs s ! i)\<lparr>pstate := EMBRYO, pid := nextpid s\<rparr>], nextpid := c_int (nextpid s + 1)\<rparr>"
  from assms have h: "L_ptable \<notin> set (held s)" by (auto simp: allocproc_def res_simps)
  from assms Some h obtain s2 stk where k: "kalloc ?s = Ok (stk, s2)"
    by (auto simp: allocproc_def res_simps Let_def upd_proc_def)
  with assms Some h have s': "if stk = 0 then r = None \<and> s' = upd_proc i (\<lambda>p. p\<lparr>pstate := UNUSED\<rparr>) (upd_proc i (\<lambda>p. p\<lparr>kstack := stk\<rparr>) s2)
      else r = Some i \<and> (\<exists>a m b c. s' = upd_proc i (\<lambda>p. p\<lparr>sizeStep := stride_of t, step := 0\<rparr>)
        (upd_proc i (\<lambda>p. p\<lparr>ctxp := b, ctx := c\<rparr>) ((upd_proc i (\<lambda>p. p\<lparr>tfp := a\<rparr>) (upd_proc i (\<lambda>p. p\<lparr>kstack := stk\<rparr>) s2))\<lparr>mem := m\<rparr>)))"
    by (auto simp: allocproc_def res_simps Let_def upd_proc_def) ((rule exI)+, rule refl)
  have p2: "procs s2 = (procs s)[i := (procs s ! i)\<lparr>pstate := EMBRYO, pid := nextpid s\<rparr>]"
    "initproc s2 = initproc s" "nextpid s2 = c_int (nextpid s + 1)" "cur s2 = cur s"
    using more_procs [OF kalloc_more [OF k]] by (auto simp: procs_upd_proc)
  show ?thesis
  proof (cases "stk = 0")
    case True
    with s' p2 i have "procs s' = (procs s)[i := (((procs s ! i)\<lparr>pid := nextpid s\<rparr>)\<lparr>kstack := stk\<rparr>)\<lparr>pstate := UNUSED\<rparr>]"
      by (simp add: upd_proc_def)
    with True s' p2 Some show ?thesis
      by (auto intro!: exI [of _ "\<lambda>p. p\<lparr>kstack := 0\<rparr>"] simp: local_upd_def upd_proc_def)
  next
    case False
    with s' obtain a m b c where e: "s' = upd_proc i (\<lambda>p. p\<lparr>sizeStep := stride_of t, step := 0\<rparr>)
        (upd_proc i (\<lambda>p. p\<lparr>ctxp := b, ctx := c\<rparr>) ((upd_proc i (\<lambda>p. p\<lparr>tfp := a\<rparr>) (upd_proc i (\<lambda>p. p\<lparr>kstack := stk\<rparr>) s2))\<lparr>mem := m\<rparr>))"
      "r = Some i" by auto
    let ?f = "\<lambda>p. p\<lparr>kstack := stk, tfp := a, ctxp := b, ctx := c, sizeStep := stride_of t, step := 0\<rparr>"
    have "procs s' = (procs s)[i := (?f ((procs s ! i)\<lparr>pid := nextpid s\<rparr>))\<lparr>pstate := EMBRYO\<rparr>]"
      using e p2 i by (cases "procs s ! i") (simp add: upd_proc_def)
    moreover have "local_upd ?f" "\<forall>q. killed (?f q) = killed q" by (simp_all add: local_upd_def)
    moreover have "initproc s' = initproc s" "nextpid s' = c_int (nextpid s + 1)" "cur s' = cur s"
      using e p2 by simp_all
    ultimately show ?thesis using Some e(2) by auto
  qed
qed

lemma inv_alloc:
  assumes inv: "ptree_inv s" and a: "allocproc t s = Ok (r, s')"
  shows "ptree_inv s'"
proof (cases "first_idx (\<lambda>p. pstate p = UNUSED) (procs s)")
  case None
  with allocproc_table [OF a, unfolded None] show ?thesis by (intro inv_same [OF inv]) auto
next
  case (Some i)
  then have i: "i < length (procs s)" "pstate (procs s ! i) = UNUSED" by (auto dest: first_idx_SomeD)
  obtain f where f: "local_upd f" "initproc s' = initproc s"
    "procs s' = (procs s)[i := (f ((procs s ! i)\<lparr>pid := nextpid s\<rparr>))\<lparr>pstate := (if r = None then UNUSED else EMBRYO)\<rparr>]"
    using allocproc_table [OF a] Some by auto
  let ?q = "(f ((procs s ! i)\<lparr>pid := nextpid s\<rparr>))\<lparr>pstate := (if r = None then UNUSED else EMBRYO)\<rparr>"
  have "parent ?q = None" using f(1) inv i by (auto simp: local_upd_def ptree_inv_def tree_ok_def)
  then show ?thesis
    by (intro ptree_inv_replace [OF inv, of i ?q]) (use i f in \<open>auto simp: is_adult_def\<close>)
qed

lemma inv_fork_parent:
  assumes inv: "ptree_inv s" and np: "embryo s np" and p: "running s p"
  shows "ptree_inv (upd_proc np (\<lambda>r. r\<lparr>sz := z, parent := Some p, tf := t\<rparr>) s)"
  by (rule ptree_inv_replace [OF inv])
    (use np p in \<open>auto simp: is_adult_def embryo_def running_def procs_upd_proc\<close>)

lemma inv_reap:
  assumes inv: "ptree_inv s" and i: "first_idx (zombie_child p) (procs s) = Some i"
  shows "ptree_inv (upd_proc i clear_proc s)"
  by (rule ptree_inv_replace [OF inv])
    (use first_idx_SomeD [OF i] in \<open>auto simp: is_adult_def procs_upd_proc clear_proc_def zombie_child_def\<close>)

lemma inv_wait:
  assumes inv: "ptree_inv s" and p: "running s p" and none: "first_idx (zombie_child p) (procs s) = None"
  shows "ptree_inv (upd_proc p (\<lambda>q. q\<lparr>pchan := Some (Ch_proc p), pstate := SLEEPING\<rparr>) s)"
proof -
  let ?q = "(procs s ! p)\<lparr>pchan := Some (Ch_proc p), pstate := SLEEPING\<rparr>"
  have le: "list_all2 tree_le (procs s) ((procs s)[p := ?q])"
    by (rule list_all2_upd) (use p in \<open>auto simp: running_def life_defs\<close>)
  have z: "\<not> zombie_child j ((procs s)[p := ?q] ! k)" if "\<not> zombie_child j (procs s ! k)" for j k
    using that p by (cases "k = p") (auto simp: zombie_child_def running_def)
  have "waits_ok ((procs s)[p := ?q])"
    unfolding waits_ok_def length_list_update
  proof (intro allI impI)
    fix j c assume j: "j < length (procs s)" "pstate ((procs s)[p := ?q] ! j) = SLEEPING \<and> pchan ((procs s)[p := ?q] ! j) = Some (Ch_proc c)"
    have "c = j \<and> (\<forall>i<length (procs s). \<not> zombie_child j (procs s ! i))"
    proof (cases "j = p")
      case True
      then show ?thesis using j none by auto
    next
      case False
      then show ?thesis using j inv by (auto simp: ptree_inv_def waits_ok_def)
    qed
    then show "c = j \<and> (\<forall>i<length (procs s). \<not> zombie_child j ((procs s)[p := ?q] ! i))" using z by auto
  qed
  then show ?thesis
    using inv tree_ok_le [OF _ le] by (auto simp: ptree_inv_def procs_upd_proc)
qed

section \<open>Exit\<close>

text \<open>\<open>awake q q'\<close>: nothing but a wakeup, and perhaps a new parent, lies between \<open>q\<close> and \<open>q'\<close>.\<close>

definition awake :: "proc \<Rightarrow> proc \<Rightarrow> bool" where
  "awake q q' \<longleftrightarrow> pid q' = pid q \<and> pchan q' = pchan q \<and>
     (pstate q' = pstate q \<or> pstate q = SLEEPING \<and> pstate q' = RUNNABLE)"

definition in_wait :: "nat \<Rightarrow> proc \<Rightarrow> bool" where
  "in_wait p q \<longleftrightarrow> pstate q = SLEEPING \<and> pchan q = Some (Ch_proc p)"

lemma awake_refl [simp]: "awake q q"
  by (simp add: awake_def)

lemma awake_trans: "awake q r \<Longrightarrow> awake r t \<Longrightarrow> awake q t"
  by (auto simp: awake_def)

lemma awakeD:
  assumes "awake q r"
  shows "pstate r = SLEEPING \<Longrightarrow> pstate q = SLEEPING" "in_wait p r \<Longrightarrow> in_wait p q" "is_adult q \<longleftrightarrow> is_adult r"
    "is_live q \<longleftrightarrow> is_live r" "pid r = pid q" "pstate q = ZOMBIE \<longleftrightarrow> pstate r = ZOMBIE"
    "pstate q = UNUSED \<longleftrightarrow> pstate r = UNUSED" "pstate q = EMBRYO \<longleftrightarrow> pstate r = EMBRYO"
  using assms by (auto simp: awake_def is_adult_def is_live_def in_wait_def)

lemma wakeup1_table_simps [simp]:
  "length (procs (wakeup1 ch s)) = length (procs s)" "initproc (wakeup1 ch s) = initproc s"
  "nextpid (wakeup1 ch s) = nextpid s" "cur (wakeup1 ch s) = cur s" "held (wakeup1 ch s) = held s"
  by (simp_all add: wakeup1_def)

text \<open>A process after wakeups on some channels, and after its parent \<open>p\<close> has handed it to \<open>ini\<close>.\<close>

definition roused :: "chan set \<Rightarrow> proc \<Rightarrow> proc" where
  "roused C q = (if pstate q = SLEEPING \<and> (\<exists>c\<in>C. pchan q = Some c) then q\<lparr>pstate := RUNNABLE\<rparr> else q)"

definition adopted :: "nat \<Rightarrow> nat \<Rightarrow> proc \<Rightarrow> proc" where
  "adopted p ini q = (if parent q = Some p then q\<lparr>parent := Some ini\<rparr> else q)"

lemma roused_simps [simp]:
  "roused {} q = q" "roused C (roused D q) = roused (C \<union> D) q" "roused C (adopted p ini q) = adopted p ini (roused C q)"
  "parent (roused C q) = parent q" "pid (roused C q) = pid q" "pchan (roused C q) = pchan q"
  "zombie_child p (roused C q) \<longleftrightarrow> zombie_child p q" "pstate (adopted p ini q) = pstate q" "pid (adopted p ini q) = pid q" "pchan (adopted p ini q) = pchan q"
  by (auto simp: roused_def adopted_def zombie_child_def is_child_def)

lemma roused_awake: "awake q (roused C q)" "awake q (adopted p ini (roused C q))"
  "Ch_proc r \<in> C \<Longrightarrow> \<not> in_wait r (adopted p ini (roused C q))"
  by (auto simp: awake_def roused_def in_wait_def adopted_def)

lemma map_roused_empty [simp]: "map (roused {}) qs = qs"
  by (induction qs) simp_all

lemma wake_proc_eq: "wake_proc q s = s\<lparr>procs := map (roused (Ch_proc ` set_option q)) (procs s)\<rparr>"
  by (cases q) (auto simp: wake_proc_def wakeup1_def roused_def)

definition adopt :: "nat \<Rightarrow> nat \<Rightarrow> 'a proc_st_scheme \<Rightarrow> 'a proc_st_scheme" where
  "adopt p i s = (if parent (procs s ! i) = Some p then
     let s = upd_proc i (\<lambda>q. q\<lparr>parent := initproc s\<rparr>) s in
     if pstate (procs s ! i) = ZOMBIE then wake_proc (initproc s) s else s else s)"

lemma reparent_Suc: "reparent p i (Suc n) s = reparent p (Suc i) n (adopt p i s)"
  by (simp add: adopt_def Let_def)

text \<open>Whether init is woken for a zombie among the children that are handed over.\<close>

definition init_woken :: "nat \<Rightarrow> nat \<Rightarrow> nat \<Rightarrow> nat \<Rightarrow> proc list \<Rightarrow> chan set" where
  "init_woken p ini i n ps = (if \<exists>k\<in>{i..<i + n}. zombie_child p (ps ! k) then {Ch_proc ini} else {})"

lemma adopt_eq:
  assumes "initproc s = Some ini" "i < length (procs s)"
  shows "adopt p i s = s\<lparr>procs := (map (roused (init_woken p ini i 1 (procs s))) (procs s))
    [i := adopted p ini (roused (init_woken p ini i 1 (procs s)) (procs s ! i))]\<rparr>"
  using assms
  by (auto simp: adopt_def Let_def upd_proc_def wake_proc_eq init_woken_def zombie_child_def is_child_def adopted_def map_update
      roused_def list_update_same_conv list_update_id)

lemma init_woken_Suc:
  assumes "\<And>k. i < k \<Longrightarrow> k < i + Suc n \<Longrightarrow> zombie_child p (ps' ! k) \<longleftrightarrow> zombie_child p (ps ! k)"
  shows "init_woken p ini (Suc i) n ps' \<union> init_woken p ini i 1 ps = init_woken p ini i (Suc n) ps"
proof -
  have "(\<exists>k\<in>{Suc i..<Suc i + n}. zombie_child p (ps' ! k)) \<longleftrightarrow> (\<exists>k\<in>{Suc i..<Suc i + n}. zombie_child p (ps ! k))"
    using assms by (intro bex_cong) auto
  moreover have "{i..<i + Suc n} = insert i {Suc i..<Suc i + n}" by auto
  ultimately show ?thesis by (auto simp: init_woken_def)
qed

lemma reparent_eq:
  assumes "initproc s = Some ini" "i + n \<le> length (procs s)"
  shows "\<exists>ps. reparent p i n s = s\<lparr>procs := ps\<rparr> \<and> length ps = length (procs s) \<and> (\<forall>j<length (procs s). ps ! j =
    (let q = roused (init_woken p ini i n (procs s)) (procs s ! j) in if i \<le> j \<and> j < i + n then adopted p ini q else q))"
  using assms
proof (induction n arbitrary: i s)
  case 0
  show ?case by (rule exI [of _ "procs s"]) (auto simp: init_woken_def Let_def)
next
  case (Suc n)
  let ?w = "init_woken p ini i 1 (procs s)"
  let ?qs = "(map (roused ?w) (procs s))[i := adopted p ini (roused ?w (procs s ! i))]"
  have i: "i < length (procs s)" using Suc.prems by simp
  have a: "adopt p i s = s\<lparr>procs := ?qs\<rparr>" by (rule adopt_eq [OF Suc.prems(1) i])
  obtain ps where ps: "reparent p (Suc i) n (adopt p i s) = s\<lparr>procs := ps\<rparr>" "length ps = length (procs s)"
    and nth: "\<And>j. j < length (procs s) \<Longrightarrow> ps ! j =
      (let q = roused (init_woken p ini (Suc i) n ?qs) (?qs ! j) in if Suc i \<le> j \<and> j < Suc i + n then adopted p ini q else q)"
    using Suc.IH [of "s\<lparr>procs := ?qs\<rparr>" "Suc i"] Suc.prems unfolding a by auto
  have w: "init_woken p ini (Suc i) n ?qs \<union> ?w = init_woken p ini i (Suc n) (procs s)"
    by (rule init_woken_Suc) (use Suc.prems in auto)
  have "ps ! j = (let q = roused (init_woken p ini i (Suc n) (procs s)) (procs s ! j) in if i \<le> j \<and> j < i + Suc n then adopted p ini q else q)"
    if "j < length (procs s)" for j
    using nth [OF that] that i by (cases "j = i") (auto simp: Let_def simp flip: w)
  then show ?case using ps unfolding reparent_Suc by blast
qed

text \<open>
  What \<open>exit\<close> does to the table: the exiting process becomes a zombie, its children become
  children of init, and those who sleep on the channels \<open>exit_wakes\<close> are runnable again: its parent's and,
  if one of its children is a zombie, init's.
\<close>

definition exit_wakes :: "nat \<Rightarrow> nat \<Rightarrow> proc list \<Rightarrow> chan set" where
  "exit_wakes p ini ps = Ch_proc ` set_option (parent (ps ! p)) \<union> init_woken p ini 0 NPROC ps"

definition after_exit :: "nat \<Rightarrow> nat \<Rightarrow> proc list \<Rightarrow> nat \<Rightarrow> proc" where
  "after_exit p ini ps j = (let q = adopted p ini (roused (exit_wakes p ini ps) (ps ! j)) in
     if j = p then q\<lparr>pstate := ZOMBIE\<rparr> else q)"

lemma exit_table_eq:
  assumes "initproc s = Some ini" "length (procs s) = NPROC" "p < NPROC"
  shows "exit_table p s = s\<lparr>procs := map (after_exit p ini (procs s)) [0..<NPROC]\<rparr>"
proof -
  let ?c = "Ch_proc ` set_option (parent (procs s ! p))"
  let ?s1 = "wake_proc (parent (procs s ! p)) s"
  have s1: "?s1 = s\<lparr>procs := map (roused ?c) (procs s)\<rparr>" by (rule wake_proc_eq)
  have w: "init_woken p ini 0 NPROC (map (roused ?c) (procs s)) = init_woken p ini 0 NPROC (procs s)"
    using assms(2) by (auto simp: init_woken_def)
  obtain ps where ps: "reparent p 0 NPROC ?s1 = s\<lparr>procs := ps\<rparr>" "length ps = NPROC"
    "\<And>j. j < NPROC \<Longrightarrow> ps ! j = adopted p ini (roused (init_woken p ini 0 NPROC (procs s)) (roused ?c (procs s ! j)))"
    using reparent_eq [of ?s1 ini 0 NPROC p] assms unfolding s1 w [symmetric] by (auto simp: Let_def)
  have "ps[p := (ps ! p)\<lparr>pstate := ZOMBIE\<rparr>] = map (after_exit p ini (procs s)) [0..<NPROC]"
    by (rule nth_equalityI) (use ps(2,3) assms(3) in \<open>auto simp: after_exit_def exit_wakes_def Un_commute nth_list_update\<close>)
  then show ?thesis using ps(1) by (simp add: exit_table_def Let_def upd_proc_def)
qed

text \<open>What \<open>exit\<close> leaves behind: a zombie without children, everybody else as before but for wakeups and new parents.\<close>

lemma exit_table_spec:
  assumes ini: "initproc s = Some ini" and len: "length (procs s) = NPROC" and p: "p < NPROC"
  shows "length (procs (exit_table p s)) = NPROC" "initproc (exit_table p s) = initproc s" "nextpid (exit_table p s) = nextpid s"
    "pstate (procs (exit_table p s) ! p) = ZOMBIE"
    "j < NPROC \<Longrightarrow> parent (procs (exit_table p s) ! j) = (if parent (procs s ! j) = Some p then Some ini else parent (procs s ! j))"
    "j < NPROC \<Longrightarrow> pid (procs (exit_table p s) ! j) = pid (procs s ! j)"
    "j < NPROC \<Longrightarrow> j \<noteq> p \<Longrightarrow> awake (procs s ! j) (procs (exit_table p s) ! j)"
    "j < NPROC \<Longrightarrow> j \<noteq> p \<Longrightarrow> parent (procs s ! p) = Some q \<Longrightarrow> \<not> in_wait q (procs (exit_table p s) ! j)"
    "j < NPROC \<Longrightarrow> j \<noteq> p \<Longrightarrow> k < NPROC \<Longrightarrow> zombie_child p (procs s ! k) \<Longrightarrow> \<not> in_wait ini (procs (exit_table p s) ! j)"
proof -
  let ?C = "exit_wakes p ini (procs s)"
  note e = exit_table_eq [OF assms]
  have nth: "procs (exit_table p s) ! j = after_exit p ini (procs s) j" if "j < NPROC" for j using that by (simp add: e)
  show "length (procs (exit_table p s)) = NPROC" "initproc (exit_table p s) = initproc s" "nextpid (exit_table p s) = nextpid s"
    by (simp_all add: e)
  show "pstate (procs (exit_table p s) ! p) = ZOMBIE" using nth [OF p] by (simp add: after_exit_def Let_def)
  show "j < NPROC \<Longrightarrow> parent (procs (exit_table p s) ! j) = (if parent (procs s ! j) = Some p then Some ini else parent (procs s ! j))"
    "j < NPROC \<Longrightarrow> pid (procs (exit_table p s) ! j) = pid (procs s ! j)"
    using nth [of j] by (auto simp: after_exit_def Let_def adopted_def)
  have other: "procs (exit_table p s) ! j = adopted p ini (roused ?C (procs s ! j))" if "j < NPROC" "j \<noteq> p"
    using nth [OF that(1)] that(2) by (simp add: after_exit_def Let_def)
  show "j < NPROC \<Longrightarrow> j \<noteq> p \<Longrightarrow> awake (procs s ! j) (procs (exit_table p s) ! j)" using other roused_awake(2) by simp
  show "j < NPROC \<Longrightarrow> j \<noteq> p \<Longrightarrow> parent (procs s ! p) = Some q \<Longrightarrow> \<not> in_wait q (procs (exit_table p s) ! j)"
    using other roused_awake(3) [of q ?C] by (simp add: exit_wakes_def)
  assume j: "j < NPROC" "j \<noteq> p" "k < NPROC" "zombie_child p (procs s ! k)"
  then have "Ch_proc ini \<in> ?C" by (auto simp: exit_wakes_def init_woken_def)
  then show "\<not> in_wait ini (procs (exit_table p s) ! j)" using other [OF j(1,2)] roused_awake(3) by simp
qed

lemma inv_exit:
  assumes inv: "ptree_inv s" and p: "running s p" "initproc s \<noteq> Some p"
  shows "ptree_inv (exit_table p s)"
proof -
  obtain ini where ini: "initproc s = Some ini" and t: "tree_ok ini (procs s)" using inv by (auto simp: ptree_inv_def)
  have len: "length (procs s) = NPROC" using inv by (simp add: ptree_inv_def)
  have pn: "p < NPROC" "ini \<noteq> p" using p ini len by (auto simp: running_def)
  note e = exit_table_spec [OF ini len pn(1)] and t = tree_okD [OF t, unfolded len]
  let ?ps = "procs (exit_table p s)"
  have aw: "awake (procs s ! j) (?ps ! j)" if "j < NPROC" "j \<noteq> p" for j using e(7) that by blast
  have pp: "parent (procs s ! p) \<noteq> None" using t(5) [OF pn(1)] p pn by (auto simp: running_def)
  have tree: "tree_ok ini ?ps" unfolding tree_ok_def e(1)
  proof (intro conjI allI impI)
    show "ini < NPROC" by (rule t(1))
    show "is_adult (?ps ! ini)" "parent (?ps ! ini) = None"
      using t(2,3) e(5) [OF t(1)] awakeD(3) [OF aw [OF t(1) pn(2)]] by auto
    fix j assume j: "j < NPROC"
    show "pstate (?ps ! j) = UNUSED \<Longrightarrow> parent (?ps ! j) = None"
      using e(4) e(5) [OF j] t(4) [OF j] awakeD(7) [OF aw [OF j]] by (cases "j = p") auto
    show "j \<noteq> ini \<and> pstate (?ps ! j) \<notin> {UNUSED, EMBRYO} \<Longrightarrow> parent (?ps ! j) \<noteq> None"
      using e(5) [OF j] t(5) [OF j] pp awakeD(7,8) [OF aw [OF j]] by (cases "j = p") auto
    fix q assume "parent (?ps ! j) = Some q"
    then have "q < NPROC \<and> q \<noteq> j \<and> q \<noteq> p \<and> is_adult (procs s ! q)"
      using e(5) [OF j] t(6) [OF j] t(1-3) pn(2) by (auto split: if_splits)
    then show "q < NPROC" "q \<noteq> j" "is_adult (?ps ! q)" using awakeD(3) [OF aw] by auto
  qed
  have "waits_ok ?ps" unfolding waits_ok_def e(1)
  proof (intro allI impI)
    fix j c assume j: "j < NPROC" and sl: "pstate (?ps ! j) = SLEEPING \<and> pchan (?ps ! j) = Some (Ch_proc c)"
    then have w: "in_wait c (?ps ! j)" and jp: "j \<noteq> p" using e(4) by (auto simp: in_wait_def)
    then have "in_wait c (procs s ! j)" using awakeD(2) [OF aw [OF j]] by blast
    then have c: "c = j" and nz: "\<forall>i<NPROC. \<not> zombie_child j (procs s ! i)"
      using inv j len by (auto simp: ptree_inv_def waits_ok_def in_wait_def)
    have "\<not> zombie_child j (?ps ! k)" if k: "k < NPROC" for k
    proof
      assume z: "zombie_child j (?ps ! k)"
      show False
      proof (cases "parent (procs s ! k) = Some p")
        case True
        then have "j = ini" and "k \<noteq> p" using z e(5) [OF k] t(6) [OF k] by (auto simp: zombie_child_def is_child_def)
        moreover from this have "zombie_child p (procs s ! k)"
          using True z awakeD(6) [OF aw [OF k]] by (auto simp: zombie_child_def is_child_def)
        ultimately show False using e(9) [OF j jp k] w c by auto
      next
        case False
        then have kj: "parent (procs s ! k) = Some j" using z e(5) [OF k] by (auto simp: zombie_child_def is_child_def)
        show False
        proof (cases "k = p")
          case True
          then show False using e(8) [OF j jp] kj w c by auto
        next
          case False
          then have "zombie_child j (procs s ! k)" using kj z awakeD(6) [OF aw [OF k]] by (auto simp: zombie_child_def is_child_def)
          then show False using nz k by auto
        qed
      qed
    qed
    then show "c = j \<and> (\<forall>i<NPROC. \<not> zombie_child j (?ps ! i))" using c by auto
  qed
  with tree show ?thesis using inv ini e by (auto simp: ptree_inv_def)
qed

section \<open>Every reachable table\<close>

lemma ptable_step_cases:
  assumes "ptable_step s s'"
  obtains (alloc) t r where "allocproc t s = Ok (r, s')"
  | (parent) np p z t where "embryo s np" "running s p" "s' = upd_proc np (\<lambda>r. r\<lparr>sz := z, parent := Some p, tf := t\<rparr>) s"
  | (exit) p where "running s p" "initproc s \<noteq> Some p" "s' = exit_table p s"
  | (reap) p i where "running s p" "first_idx (zombie_child p) (procs s) = Some i" "s' = upd_proc i clear_proc s"
  | (wait) p where "running s p" "first_idx (zombie_child p) (procs s) = None"
      "s' = upd_proc p (\<lambda>q. q\<lparr>pchan := Some (Ch_proc p), pstate := SLEEPING\<rparr>) s"
  | (keeps) "life_keeps s s'"
  using assms
proof cases
  case st_calm
  then have "life_keeps s s'"
    by (auto simp: calm_def life_keeps_def same_life_def life_defs elim!: list_all2_mono)
  then show thesis by (rule keeps)
next
  case (st_fork_fail np)
  show thesis by (rule keeps) (use st_fork_fail in \<open>auto intro!: life_keeps_upd simp: embryo_def life_defs\<close>)
next
  case (st_fork_ready np)
  show thesis by (rule keeps) (use st_fork_ready in \<open>auto intro!: life_keeps_upd simp: embryo_def life_defs\<close>)
next
  case (st_sleep p ch)
  show thesis by (rule keeps) (use st_sleep in \<open>auto intro!: life_keeps_upd simp: running_def life_defs\<close>)
next
  case (st_resume p)
  show thesis by (rule keeps) (use st_resume in \<open>auto intro!: life_keeps_upd simp: running_def life_defs\<close>)
next
  case (st_yield p)
  show thesis by (rule keeps) (use st_yield in \<open>auto intro!: life_keeps_upd simp: running_def life_defs\<close>)
next
  case (st_wakeup ch)
  show thesis by (rule keeps) (simp add: st_wakeup life_keeps_wakeup1)
qed (rule alloc parent exit reap wait keeps [OF life_keeps_kill] keeps [OF life_keeps_dispatch]; assumption)+

lemma ptable_step_inv:
  assumes "ptable_step s s'" "ptree_inv s"
  shows "ptree_inv s'"
  using assms(1)
proof (cases rule: ptable_step_cases)
  case keeps then show ?thesis by (rule life_keeps_inv [OF assms(2)])
qed (use assms(2) inv_alloc inv_fork_parent inv_exit inv_reap inv_wait in blast)+

lemma ptable_steps_inv: "ptable_steps s s' \<Longrightarrow> ptree_inv s \<Longrightarrow> ptree_inv s'"
  by (induction rule: rtranclp_induct) (auto dest: ptable_step_inv)

section \<open>Process ids\<close>

text \<open>
  \<open>ptable_run n s s'\<close>: a sequence of steps in which \<open>n\<close> process ids have been given out. The
  counter is a C \<open>int\<close>; as long as it has not wrapped, ids are unique.
\<close>

inductive ptable_run :: "nat \<Rightarrow> 'a proc_st_scheme \<Rightarrow> 'a proc_st_scheme \<Rightarrow> bool" where
  run_none: "ptable_run 0 s s"
| run_step: "ptable_run n s t \<Longrightarrow> ptable_step t u \<Longrightarrow> ptable_run (if nextpid u = nextpid t then n else Suc n) s u"

lemma ptable_run_steps: "ptable_run n s t \<Longrightarrow> ptable_steps s t"
  by (induction rule: ptable_run.induct) auto

lemma exit_pids:
  assumes "ptree_inv s" "running s p"
  shows "list_all2 pid_le (procs s) (procs (exit_table p s))" "nextpid (exit_table p s) = nextpid s"
proof -
  obtain ini where ini: "initproc s = Some ini" using assms(1) by (auto simp: ptree_inv_def)
  have len: "length (procs s) = NPROC" and p: "p < NPROC" using assms by (auto simp: ptree_inv_def running_def)
  note e = exit_table_spec [OF ini len p]
  have "pid_le (procs s ! j) (procs (exit_table p s) ! j)" if "j < NPROC" for j
    using e(6,7) [OF that] awakeD(4,5) assms(2) by (cases "j = p") (auto simp: pid_le_def is_live_def running_def)
  then show "list_all2 pid_le (procs s) (procs (exit_table p s))" "nextpid (exit_table p s) = nextpid s"
    using e(1,3) len by (auto simp: list_all2_conv_all_nth)
qed

text \<open>A step leaves the ids of the living alone, or gives out the next one.\<close>

lemma ptable_step_pids:
  assumes "ptable_step s s'" "ptree_inv s"
  shows "list_all2 pid_le (procs s) (procs s') \<and> nextpid s' = nextpid s \<or>
    (\<exists>i<length (procs s). \<exists>q. procs s' = (procs s)[i := q] \<and> pid q = nextpid s \<and> nextpid s' = c_int (nextpid s + 1))"
  using assms(1)
proof (cases rule: ptable_step_cases)
  case (alloc t r)
  show ?thesis
  proof (cases "first_idx (\<lambda>p. pstate p = UNUSED) (procs s)")
    case None
    then show ?thesis using allocproc_table [OF alloc] unfolding None by (simp add: pid_le_def list_all2_same)
  next
    case (Some i)
    then obtain f where "local_upd f" "nextpid s' = c_int (nextpid s + 1)"
      "procs s' = (procs s)[i := (f ((procs s ! i)\<lparr>pid := nextpid s\<rparr>))\<lparr>pstate := (if r = None then UNUSED else EMBRYO)\<rparr>]"
      using allocproc_table [OF alloc] by auto
    then show ?thesis using first_idx_SomeD(1) [OF Some]
      by (intro disjI2 exI [of _ i] conjI exI) (auto simp: local_upd_def)
  qed
next
  case (parent np p z t)
  then show ?thesis by (auto simp: procs_upd_proc upd_proc_def pid_le_def is_live_def intro!: list_all2_upd)
next
  case (exit p)
  then show ?thesis using exit_pids [OF assms(2)] by simp
next
  case (reap p i)
  then show ?thesis by (auto simp: procs_upd_proc upd_proc_def pid_le_def is_live_def clear_proc_def intro!: list_all2_upd)
next
  case (wait p)
  then show ?thesis by (auto simp: procs_upd_proc upd_proc_def pid_le_def is_live_def running_def intro!: list_all2_upd)
next
  case keeps
  then show ?thesis using life_keeps_pids by (auto simp: life_keeps_def)
qed

lemma ptable_run_pids:
  assumes "ptable_run n s t" "ptree_inv s" "0 < nextpid s" "pids_ok (nextpid s) (procs s)" "nextpid s + int n < 2 ^ 31"
  shows "nextpid t = nextpid s + int n \<and> pids_ok (nextpid t) (procs t)"
  using assms
proof (induction rule: ptable_run.induct)
  case (run_step n s t u)
  let ?n = "if nextpid u = nextpid t then n else Suc n"
  have t: "nextpid t = nextpid s + int n" "pids_ok (nextpid t) (procs t)"
    using run_step.IH [OF run_step.prems(1-3)] run_step.prems(4) by (auto split: if_splits)
  have inv: "ptree_inv t" using ptable_steps_inv [OF ptable_run_steps [OF run_step.hyps(1)] run_step.prems(1)] .
  show ?case
  proof (cases "nextpid u = nextpid t")
    case True
    have "nextpid t < 2 ^ 31" "0 < nextpid t" using t(1) run_step.prems(2,4) True by auto
    then have "c_int (nextpid t + 1) \<noteq> nextpid t" by (rule c_int_Suc)
    then have "list_all2 pid_le (procs t) (procs u)" using ptable_step_pids [OF run_step.hyps(2) inv] True by metis
    then show ?thesis using pids_ok_le [OF t(2)] t(1) True by simp
  next
    case False
    have lt: "nextpid t + 1 < 2 ^ 31" "0 < nextpid t" using t(1) run_step.prems(2,4) False by auto
    obtain i q where q: "i < length (procs t)" "procs u = (procs t)[i := q]" "pid q = nextpid t" "nextpid u = c_int (nextpid t + 1)"
      using ptable_step_pids [OF run_step.hyps(2) inv] False by metis
    moreover have "c_int (nextpid t + 1) = nextpid t + 1" using lt by (intro c_int_id) auto
    ultimately show ?thesis using pids_ok_fresh [OF t(2) q(3) lt(2) q(1)] t(1) False by simp
  qed
qed simp

section \<open>Forking and waiting are sequences of steps\<close>

text \<open>Memory operations do not see the process table.\<close>

lemma set_word_more [simp]: "mem_st.more (set_word p v s) = mem_st.more s"
  by (simp add: set_word_def)

lemma kalloc_more': "ensures (kalloc s) (\<lambda>(r, s'). mem_st.more s' = mem_st.more s)"
  by (auto simp: ensures_iff dest: kalloc_more)

lemma kfree_more: "ensures (kfree v s) (\<lambda>s'. mem_st.more s' = mem_st.more s)"
  by (auto simp: ensures_iff kfree_def Let_def res_simps split: if_splits)

lemma walkpgdir_more: "ensures (walkpgdir d va al s) (\<lambda>(r, s'). mem_st.more s' = mem_st.more s)"
  by (auto simp: walkpgdir_def Let_def intro!: ensures_bndI [OF kalloc_more'])

lemma mappages_loop_more: "ensures (mappages_loop n d a l pa pm s) (\<lambda>(r, s'). mem_st.more s' = mem_st.more s)"
proof (induction n arbitrary: a pa s)
  case (Suc n)
  show ?case
    by (auto simp: Let_def intro!: ensures_bndI [OF walkpgdir_more] ensures_mono [OF Suc.IH])
qed simp

lemma mappages_more: "ensures (mappages d va n pa pm s) (\<lambda>(r, s'). mem_st.more s' = mem_st.more s)"
  unfolding mappages_def Let_def by (rule mappages_loop_more)

lemma setupkvm_loop_more: "ensures (setupkvm_loop d ks s) (\<lambda>(r, s'). mem_st.more s' = mem_st.more s)"
proof (induction ks arbitrary: s)
  case (Cons k ks)
  show ?case by (auto intro!: ensures_bndI [OF mappages_more] ensures_mono [OF Cons.IH])
qed simp

lemma setupkvm_more: "ensures (setupkvm s) (\<lambda>(r, s'). mem_st.more s' = mem_st.more s)"
  by (auto simp: setupkvm_def Let_def intro!: ensures_bndI [OF kalloc_more'] ensures_mono [OF setupkvm_loop_more])

lemma deallocuvm_loop_more:
  fixes s :: "'a mem_st_scheme"
  shows "ensures (deallocuvm_loop d n a s) (\<lambda>s'. mem_st.more s' = mem_st.more s)"
proof (induction "n - a" arbitrary: a s rule: less_induct)
  case less
  have ih: "a < n \<Longrightarrow> 0 < k \<Longrightarrow> ensures (deallocuvm_loop d n (a + k) t) (\<lambda>s'. mem_st.more s' = mem_st.more t)"
    for k and t :: "'a mem_st_scheme"
    using less [of "a + k" t] by simp
  show ?case
    by (subst deallocuvm_loop.simps)
      (auto simp: Let_def add.assoc intro!: ensures_bndI [OF walkpgdir_more] ensures_bndI [OF kfree_more] ensures_mono [OF ih])
qed

lemma freevm_loop_more: "ensures (freevm_loop d i n s) (\<lambda>s'. mem_st.more s' = mem_st.more s)"
proof (induction n arbitrary: i s)
  case (Suc n)
  show ?case by (auto simp: Let_def intro!: ensures_bndI [OF kfree_more] ensures_mono [OF Suc.IH])
qed simp

lemma freevm_more: "ensures (freevm d s) (\<lambda>s'. mem_st.more s' = mem_st.more s)"
  by (auto simp: freevm_def deallocuvm_def bnd_assoc
      intro!: ensures_bndI [OF deallocuvm_loop_more] ensures_bndI [OF freevm_loop_more] ensures_mono [OF kfree_more])

lemma copyuvm_loop_more:
  fixes s :: "'a mem_st_scheme"
  shows "ensures (copyuvm_loop g d n i s) (\<lambda>(r, s'). mem_st.more s' = mem_st.more s)"
proof (induction "unat n - i" arbitrary: i s rule: less_induct)
  case less
  have ih: "i < unat n \<Longrightarrow> ensures (copyuvm_loop g d n (i + 4096) t) (\<lambda>(r, s'). mem_st.more s' = mem_st.more t)"
    for t :: "'a mem_st_scheme"
    using less [of "i + 4096" t] by simp
  show ?case
    by (subst copyuvm_loop.simps)
      (auto simp: Let_def intro!: ensures_bndI [OF walkpgdir_more] ensures_bndI [OF kalloc_more']
        ensures_bndI [OF mappages_more] ensures_bndI [OF freevm_more] ensures_mono [OF ih])
qed

lemma copyuvm_more: "ensures (copyuvm g n s) (\<lambda>(r, s'). mem_st.more s' = mem_st.more s)"
  by (auto simp: copyuvm_def intro!: ensures_bndI [OF setupkvm_more] ensures_mono [OF copyuvm_loop_more])

lemma calm_refl [simp]: "calm s s"
  by (simp add: calm_def same_life_def list_all2_same)

lemma calm_trans:
  assumes "calm s t" "calm t u"
  shows "calm s u"
proof -
  have "list_all2 same_life (procs s) (procs u)"
    by (rule list_all2_trans [of same_life same_life])
      (use assms in \<open>auto simp: calm_def same_life_def\<close>)
  with assms show ?thesis by (simp add: calm_def)
qed

lemma calm_same: "procs s' = procs s \<Longrightarrow> initproc s' = initproc s \<Longrightarrow> nextpid s' = nextpid s \<Longrightarrow> cur s' = cur s \<Longrightarrow> calm s s'"
  by (simp add: calm_def same_life_def list_all2_same)

lemma calm_more: "mem_st.more s' = mem_st.more s \<Longrightarrow> calm s s'"
  for s s' :: "'a proc_st_scheme"
  using more_procs [of s' s] by (auto intro: calm_same)

lemma calm_upd: "(\<And>q. same_life q (f q)) \<Longrightarrow> calm s (upd_proc p f s)"
  unfolding calm_def procs_upd_proc upd_proc_simps
  by (intro conjI list_all2_upd) (simp_all add: same_life_def upd_proc_def)

lemma calmD:
  assumes "calm s s'"
  shows "length (procs s') = length (procs s)" "embryo s' np \<longleftrightarrow> embryo s np" "running s' p \<longleftrightarrow> running s p" "cur s' = cur s"
    "np < length (procs s) \<Longrightarrow> parent (procs s' ! np) = parent (procs s ! np)"
    "np < length (procs s) \<Longrightarrow> zombie_child p (procs s' ! np) \<longleftrightarrow> zombie_child p (procs s ! np)"
proof -
  have l: "length (procs s') = length (procs s)" and n: "i < length (procs s) \<Longrightarrow> same_life (procs s ! i) (procs s' ! i)" for i
    using assms by (auto simp: calm_def list_all2_conv_all_nth)
  show "length (procs s') = length (procs s)" "cur s' = cur s" using l assms by (auto simp: calm_def)
  show "embryo s' np \<longleftrightarrow> embryo s np" "running s' p \<longleftrightarrow> running s p"
    using l n by (auto simp: embryo_def running_def same_life_def)
  assume "np < length (procs s)"
  then show "parent (procs s' ! np) = parent (procs s ! np)" "zombie_child p (procs s' ! np) \<longleftrightarrow> zombie_child p (procs s ! np)"
    using n by (auto simp: same_life_def zombie_child_def is_child_def)
qed

lemma calm_lock:
  "ensures (lock l s) (calm s)" "ensures (unlock l s) (calm s)"
  by (auto simp: ensures_iff lock_eq_Ok intro: calm_same)

lemma ensures_thnI:
  "ensures (m w) (\<lambda>(a, w'). P a w') \<Longrightarrow> (\<And>a w'. P a w' \<Longrightarrow> ensures (f a w') Q) \<Longrightarrow> ensures (thn m f w) Q"
  by (cases "m w") (auto simp: thn_def)

lemma thn_proc_run [prog_simps]:
  "cur s = Some p \<Longrightarrow> thn cur_proc f (s, env) = f p (s, env)"
  "thn (the_proc p) g (s, env) = g (procs s ! p) (s, env)"
  "thn (set_proc p h) k (s, env) = k () (upd_proc p h s, env)"
  by (simp_all add: cur_proc_def the_proc_def set_proc_def with_cur_def)

lemma filedup_calm: "ensures (filedup f s) (\<lambda>(g, s'). calm s s')"
  by (auto simp: ensures_iff filedup_def res_simps upd_file_def split: if_splits intro!: calm_same)

lemma idup_calm: "ensures (idup i s) (\<lambda>(g, s'). calm s s')"
  by (auto simp: ensures_iff idup_def res_simps upd_inode_def intro!: calm_same)

lemma dup_file_calm: "ensures (dup_file p np i (s, env)) (\<lambda>(_, s', env'). calm s s' \<and> env' = env)"
proof (cases "ofile (procs s ! p) ! i")
  case (Some f)
  then show ?thesis
    by (auto simp: dup_file_def set_proc_def intro!: ensures_bndI [OF filedup_calm] calm_trans [OF _ calm_upd] simp: same_life_def)
qed (simp add: dup_file_def)

lemma dup_files_calm: "ensures (for_up i n (dup_file p np) (s, env)) (\<lambda>(_, s', env'). calm s s' \<and> env' = env)"
proof (induction n arbitrary: i s)
  case (Suc n)
  show ?case
    by (simp only: for_up.simps, rule ensures_thnI, rule dup_file_calm)
      (auto intro!: ensures_mono [OF Suc.IH] intro: calm_trans)
qed simp

lemma steps_calm: "ptable_steps s t \<Longrightarrow> calm t u \<Longrightarrow> ptable_steps s u"
  by (meson rtranclp.rtrancl_into_rtrancl st_calm)

lemma allocproc_embryo:
  assumes inv: "ptree_inv s" and a: "allocproc t s = Ok (Some np, s')" and p: "running s p"
  shows "embryo s' np \<and> parent (procs s' ! np) = None \<and> running s' p \<and> cur s' = cur s"
proof -
  obtain i where i: "first_idx (\<lambda>p. pstate p = UNUSED) (procs s) = Some i"
    using allocproc_table [OF a] by (cases "first_idx (\<lambda>p. pstate p = UNUSED) (procs s)") auto
  then have u: "i < length (procs s)" "pstate (procs s ! i) = UNUSED" by (auto dest: first_idx_SomeD)
  obtain f where f: "local_upd f" "np = i"
    "procs s' = (procs s)[i := (f ((procs s ! i)\<lparr>pid := nextpid s\<rparr>))\<lparr>pstate := EMBRYO\<rparr>]" "cur s' = cur s"
    using allocproc_table [OF a] i by auto
  obtain ini where "tree_ok ini (procs s)" using inv by (auto simp: ptree_inv_def)
  from tree_okD(4) [OF this u] have "parent (procs s' ! np) = None" using f u by (simp add: local_upd_def)
  moreover have "p \<noteq> i" using p u by (auto simp: running_def)
  ultimately show ?thesis using f u p by (auto simp: embryo_def running_def)
qed

lemma fork_child_steps:
  assumes np: "embryo s np" and p: "running s p" "cur s = Some p"
  shows "ensures (fork_child p np q (s, env)) (\<lambda>(_, s', env'). ptable_steps s s' \<and> env' = env)"
proof -
  let ?s = "upd_proc np (\<lambda>r. r\<lparr>sz := sz q, parent := Some p, tf := (tf q)\<lparr>tf_eax := 0\<rparr>\<rparr>) s"
  have s: "ptable_step s ?s" by (rule st_fork_parent [OF np p(1)])
  have np': "embryo ?s np" "parent (procs ?s ! np) = Some p" using np by (auto simp: embryo_def procs_upd_proc)
  have fin: "ptable_steps s (upd_proc np (\<lambda>r. r\<lparr>cwd := Some i, pstate := RUNNABLE, pname := safestrcpy (pname r) (cs nm) 16\<rparr>) u)"
    if c: "calm ?s u" for i u nm
  proof -
    have e: "embryo u np" "parent (procs u ! np) = Some p" using calmD(2,5) [OF c] np' by (auto simp: embryo_def)
    have "ptable_steps s u" using s c by (meson r_into_rtranclp steps_calm)
    moreover have "ptable_step u (upd_proc np (\<lambda>r. r\<lparr>cwd := Some i, pstate := RUNNABLE, pname := safestrcpy (pname r) (cs nm) 16\<rparr>) u)"
      by (rule st_fork_ready [OF e])
    ultimately show ?thesis by (rule rtranclp.rtrancl_into_rtrancl)
  qed
  have idup: "ensures ((case c of None \<Rightarrow> panic ''trap'' | Some i \<Rightarrow> call (idup i)) (u, env))
    (\<lambda>(i, s', env'). calm u s' \<and> env' = env)" for c u
    by (cases c) (auto intro!: ensures_bndI [OF idup_calm])
  have idup': "ensures (thn (case c of None \<Rightarrow> panic ''trap'' | Some i \<Rightarrow> call (idup i)) (\<lambda>i.
     thn (set_proc np (\<lambda>r. r\<lparr>cwd := Some i, pstate := RUNNABLE,
            pname := safestrcpy (pname r) (cs (pname q)) 16\<rparr>)) (\<lambda>_.
     thn (the_proc np) (\<lambda>r. ret (pid r)))) (u, env)) (\<lambda>(_, s', env'). ptable_steps s s' \<and> env' = env)"
    if "calm ?s u" for c u
    by (rule ensures_thnI, rule idup) (use that in \<open>auto simp: thn_proc_run intro!: fin intro: calm_trans\<close>)
  show ?thesis unfolding fork_child_def
    by (simp only: thn_proc_run, rule ensures_thnI, rule dup_files_calm) (auto intro!: idup')
qed

lemma fork_fail_steps:
  assumes np: "embryo s np" "parent (procs s ! np) = None"
  shows "ensures (fork_fail np (s, env)) (\<lambda>(_, s', env'). ptable_steps s s' \<and> env' = env)"
proof -
  have "ptable_steps s (upd_proc np (\<lambda>r. r\<lparr>kstack := 0, pstate := UNUSED\<rparr>) u)" if "calm s u" for u
  proof -
    have "embryo u np" "parent (procs u ! np) = None" using calmD(2,5) [OF that] np by (auto simp: embryo_def)
    then have "ptable_step u (upd_proc np (\<lambda>r. r\<lparr>kstack := 0, pstate := UNUSED\<rparr>) u)" by (rule st_fork_fail)
    with st_calm [OF that] show ?thesis by (meson converse_rtranclp_into_rtranclp r_into_rtranclp)
  qed
  then show ?thesis
    by (auto simp: fork_fail_def thn_proc_run intro!: ensures_bndI [OF kfree_more] dest: calm_more)
qed

lemma fork_steps:
  assumes inv: "ptree_inv s" and p: "running s p" "cur s = Some p"
  shows "ensures (fork t (s, env)) (\<lambda>(_, s', env'). ptable_steps s s' \<and> env' = env)"
proof (cases "allocproc t s")
  case (Ok r)
  obtain np s1 where a: "allocproc t s = Ok (np, s1)" using Ok by (cases r) auto
  have s1: "ptable_steps s s1" using st_alloc [OF a] by blast
  show ?thesis
  proof (cases np)
    case None
    with a s1 show ?thesis by (simp add: fork_def)
  next
    case (Some c)
    note e = allocproc_embryo [OF inv a [unfolded Some] p(1)]
    have kid: "embryo u c \<and> parent (procs u ! c) = None \<and> running u p \<and> cur u = Some p \<and> ptable_steps s u" if "calm s1 u" for u
      using calmD [OF that] e p(2) steps_calm [OF s1 that] by (auto simp: embryo_def)
    have "ensures (fork_fail c (u, env)) (\<lambda>(_, s', env'). ptable_steps s s' \<and> env' = env)"
      "ensures (fork_child p c q (u, env)) (\<lambda>(_, s', env'). ptable_steps s s' \<and> env' = env)"
      if "calm s1 u" for q u
      using kid [OF that] rtranclp_trans [of ptable_step s u]
      by (auto intro!: ensures_mono [OF fork_fail_steps] ensures_mono [OF fork_child_steps])
    moreover have "calm s1 (upd_proc c (\<lambda>r. r\<lparr>pgdir := pd\<rparr>) u)" if "mem_st.more u = mem_st.more s1" for pd u
      by (rule calm_trans [OF calm_more calm_upd]) (use that in \<open>auto simp: same_life_def\<close>)
    ultimately show ?thesis using a Some e p(2)
      by (auto simp: fork_def thn_proc_run intro!: ensures_bndI [OF copyuvm_more])
  qed
qed (simp_all add: fork_def)

lemma ptable_step_length: "ptable_step s s' \<Longrightarrow> ptree_inv s \<Longrightarrow> length (procs s') = length (procs s)"
  using ptable_step_inv by (auto simp: ptree_inv_def)

lemma calm_first_zombie:
  assumes "calm s s'"
  shows "first_idx (zombie_child p) (procs s') = first_idx (zombie_child p) (procs s)"
proof -
  have "list_all2 same_life (procs s) (procs s')" using assms by (simp add: calm_def)
  then show ?thesis
    by (induction rule: list_all2_induct) (auto simp: same_life_def zombie_child_def is_child_def)
qed

text \<open>
  What \<open>wait\<close> returns, seen from the table \<open>ps\<close> of its last round: the process id of the first zombie child,
  whose slot it has freed, or -1 when there is no child, or the caller has been killed.
\<close>

definition wait_done :: "nat \<Rightarrow> proc list \<Rightarrow> int \<Rightarrow> proc list \<Rightarrow> bool" where
  "wait_done p ps r ps' \<longleftrightarrow> (case first_idx (zombie_child p) ps of
     Some i \<Rightarrow> r = pid (ps ! i) \<and> ps' = ps[i := clear_proc ((ps ! i)\<lparr>kstack := 0\<rparr>)]
   | None \<Rightarrow> r = -1 \<and> ((\<forall>q\<in>set ps. \<not> is_child p q) \<or> killed (ps ! p)) \<and> ps' = ps)"

lemma reap_steps:
  assumes p: "running s p" and i: "first_idx (zombie_child p) (procs s) = Some i"
  shows "ensures (reap i (s, env)) (\<lambda>(r, s', env'). ptable_steps s s' \<and> wait_done p (procs s) r (procs s'))"
proof -
  have il: "i < length (procs s)" using first_idx_SomeD(1) [OF i] .
  have fin: "ensures (bnd (unlock L_ptable (upd_proc i clear_proc u)) (\<lambda>s. Ok (r, s, env)))
      (\<lambda>(r, s', env'). ptable_steps s s' \<and> wait_done p (procs s) r (procs s'))"
    if t: "mem_st.more t = mem_st.more s" and u: "mem_st.more u = mem_st.more (upd_proc i (\<lambda>q. q\<lparr>kstack := 0\<rparr>) t)"
      and r: "r = pid (procs s ! i)" for t u r
  proof -
    have c: "calm s u" using calm_more [OF t] calm_more [OF u] calm_upd [of "\<lambda>q. q\<lparr>kstack := 0\<rparr>" t i]
      by (auto simp: same_life_def intro: calm_trans)
    have ps: "procs u = (procs s)[i := (procs s ! i)\<lparr>kstack := 0\<rparr>]"
      using more_procs [OF t] more_procs [OF u] by (simp add: procs_upd_proc)
    have "ptable_step u (upd_proc i clear_proc u)"
      by (rule st_reap [of u p i]) (use calmD(3) [OF c] calm_first_zombie [OF c] p i in auto)
    with st_calm [OF c] have st: "ptable_steps s (upd_proc i clear_proc u)" by (meson converse_rtranclp_into_rtranclp r_into_rtranclp)
    have "ptable_steps s w \<and> procs w = procs (upd_proc i clear_proc u)" if "unlock L_ptable (upd_proc i clear_proc u) = Ok w" for w
    proof -
      have w: "w = (upd_proc i clear_proc u)\<lparr>held := remove1 L_ptable (held (upd_proc i clear_proc u))\<rparr>" using that by (simp add: lock_eq_Ok)
      have "calm (upd_proc i clear_proc u) w" unfolding w by (rule calm_same) simp_all
      then show ?thesis using steps_calm [OF st] unfolding w by simp
    qed
    moreover have "wait_done p (procs s) r (procs (upd_proc i clear_proc u))"
      using il by (simp add: wait_done_def i r procs_upd_proc ps)
    ultimately show ?thesis by (cases "unlock L_ptable (upd_proc i clear_proc u)") auto
  qed
  show ?thesis
    by (auto simp: reap_def thn_proc_run intro!: ensures_bndI [OF kfree_more] ensures_bndI [OF freevm_more] fin)
qed

lemma dispatch_running:
  assumes "dispatch i s = Ok s'" "i < length (procs s)"
  shows "running s' i" "cur s' = Some i"
  using assms by (auto simp: dispatch_def running_def switchuvm_def with_cur_def Let_def res_simps upd_proc_def split: if_splits)

lemma wait_sleep_steps:
  assumes inv: "ptree_inv s" and env: "\<forall>e\<in>set env. \<forall>s. ptable_steps s (e s)"
    and p: "running s p" "cur s = Some p" "first_idx (zombie_child p) (procs s) = None"
  shows "ensures (sleep_on (Ch_proc p) L_ptable (s, env))
     (\<lambda>(_, s', env'). ptable_steps s s' \<and> running s' p \<and> cur s' = Some p \<and> set env' \<subseteq> set env \<and> length env' < length env)"
proof -
  let ?s = "upd_proc p (\<lambda>q. q\<lparr>pchan := Some (Ch_proc p), pstate := SLEEPING\<rparr>) s"
  have s1: "ptable_steps s ?s" using st_wait [OF p(1,3)] by blast
  have "ensures (sched ?s env) (\<lambda>(t, env'). ptable_steps s t \<and> running t p \<and> cur t = Some p \<and>
    set env' \<subseteq> set env \<and> length env' < length env)"
  proof (cases env)
    case (Cons e es)
    let ?t = "(e ?s)\<lparr>held := [L_ptable]\<rparr>"
    have "ptable_steps ?s (e ?s)" using env Cons by simp
    with s1 have "ptable_steps s (e ?s)" by (rule rtranclp_trans)
    then have t: "ptable_steps s ?t" by (rule steps_calm) (simp add: calm_same)
    have pl: "p < length (procs ?t)"
      using ptable_steps_inv [OF t inv] inv p(1) by (simp add: ptree_inv_def running_def)
    have "ptable_steps s u \<and> running u p \<and> cur u = Some p" if "dispatch p ?t = Ok u" "pstate (procs ?t ! p) = RUNNABLE" for u
      using rtranclp.rtrancl_into_rtrancl [OF t st_dispatch [OF pl that(2,1)]] dispatch_running [OF that(1) pl] by simp
    then show ?thesis using Cons p(2)
      by (auto simp: sched_def with_cur_def Let_def ensures_iff res_simps split: if_splits)
  qed (use p(2) in \<open>auto simp: sched_def with_cur_def\<close>)
  moreover have "ptable_steps s (upd_proc p (\<lambda>q. q\<lparr>pchan := None\<rparr>) t) \<and> running (upd_proc p (\<lambda>q. q\<lparr>pchan := None\<rparr>) t) p"
    if "ptable_steps s t" "running t p" for t
    using rtranclp.rtrancl_into_rtrancl [OF that(1) st_resume [OF that(2)]] that(2) by (auto simp: running_def procs_upd_proc)
  ultimately show ?thesis using p(2)
    by (auto simp: sleep_on_def sleep_def Let_def ensures_iff res_simps)
qed

lemma wait_loop_steps:
  assumes "ptree_inv s" "\<forall>e\<in>set env. \<forall>s. ptable_steps s (e s)" "running s p" "cur s = Some p"
  shows "ensures (wait_loop p (s, env)) (\<lambda>(r, t, _). \<exists>u. ptable_steps s u \<and> running u p \<and> ptable_steps u t \<and> wait_done p (procs u) r (procs t))"
  using assms
proof (induction env arbitrary: s rule: length_induct)
  case (1 env)
  show ?case
  proof (cases "first_idx (zombie_child p) (procs s)")
    case (Some i)
    then show ?thesis
      by (subst wait_loop.simps) (use 1(4) in \<open>auto intro: ensures_mono [OF reap_steps [OF 1(4) Some]]\<close>)
  next
    case None
    let ?Q = "\<lambda>(r, t, _). \<exists>u. ptable_steps s u \<and> running u p \<and> ptable_steps u t \<and> wait_done p (procs u) r (procs t)"
    have un: "ensures (thn (upd (unlock L_ptable)) (\<lambda>_. ret (-1)) (s, env)) ?Q"
      if "(\<forall>q\<in>set (procs s). \<not> is_child p q) \<or> killed (procs s ! p)"
    proof -
      have "ptable_steps s u \<and> wait_done p (procs s) (-1) (procs u)" if "unlock L_ptable s = Ok u" for u
        using that \<open>_ \<or> killed _\<close> unfolding wait_done_def None
        by (auto simp: lock_eq_Ok intro!: r_into_rtranclp st_calm calm_same)
      then show ?thesis using 1(4) by (cases "unlock L_ptable s") auto
    qed
    have sl: "ensures (thn (sleep_on (Ch_proc p) L_ptable) (\<lambda>_. wait_loop p) (s, env)) ?Q"
    proof (rule ensures_thnI, rule wait_sleep_steps [OF 1(2,3,4,5) None])
      fix a and w' :: "'a kernel_st_scheme \<times> 'a kernel_st_scheme env"
      assume w: "case w' of (s', env') \<Rightarrow> ptable_steps s s' \<and> running s' p \<and> cur s' = Some p \<and> set env' \<subseteq> set env \<and> length env' < length env"
      then obtain s' env' where e: "w' = (s', env')" by (cases w')
      have "ensures (wait_loop p (s', env')) (\<lambda>(r, t, _). \<exists>u. ptable_steps s' u \<and> running u p \<and> ptable_steps u t \<and> wait_done p (procs u) r (procs t))"
        by (rule 1(1) [rule_format]) (use w e ptable_steps_inv [OF _ 1(2)] 1(3) in auto)
      then show "ensures (wait_loop p w') ?Q"
        unfolding e by (rule ensures_mono) (use w e in \<open>auto intro: rtranclp_trans\<close>)
    qed
    show ?thesis unfolding wait_loop.simps [of p "(s, env)"] fst_conv None option.case using sl un by simp
  qed
qed

lemma wait_steps:
  assumes "ptree_inv s" "\<forall>e\<in>set env. \<forall>s. ptable_steps s (e s)" "running s p" "cur s = Some p"
  shows "ensures (wait (s, env)) (\<lambda>(r, t, _). \<exists>u. ptable_steps s u \<and> running u p \<and> ptable_steps u t \<and> wait_done p (procs u) r (procs t))"
proof -
  let ?Q = "\<lambda>s (r, t, _). \<exists>u. ptable_steps s u \<and> running u p \<and> ptable_steps u t \<and> wait_done p (procs u) r (procs t)"
  have "ensures (wait_loop p (u, env)) (?Q s)" if "calm s u" for u
  proof -
    have "ptree_inv u" using ptable_step_inv [OF st_calm [OF that] assms(1)] .
    then have "ensures (wait_loop p (u, env)) (?Q u)"
      by (rule wait_loop_steps) (use assms calmD [OF that] in auto)
    then show ?thesis
      by (rule ensures_mono) (use st_calm [OF that] in \<open>auto intro: converse_rtranclp_into_rtranclp\<close>)
  qed
  moreover have "cur u = Some p" if "calm s u" for u using calmD(4) [OF that] assms(4) by simp
  ultimately show ?thesis
    by (auto simp: wait_def cur_proc_def with_cur_def intro!: ensures_bndI [OF calm_lock(1)])
qed

end
