(* ===== verification/Proc_Spec.thy ===== *)
theory Proc_Spec
  imports Lifecycle Tty Pagetable
begin

text \<open>
  What \<open>proc.c\<close> guarantees: process ids, the process tree, \<open>wait\<close> against \<open>exit\<close>, the end of a
  process, and the error cases of \<open>fork\<close>, \<open>wait\<close> and \<open>kill\<close>.
\<close>

section \<open>Reachable tables\<close>

text \<open>C29: in every process table that can arise from the one \<open>userinit\<close> leaves, by any sequence of
  allocations, forks, exits, waits, sleeps, wakeups, kills and context switches in which \<open>n\<close> process ids
  have been given out and the counter \<open>nextpid\<close>, a 32-bit \<open>int\<close>, has stayed below \<open>2^31\<close>, the processes that
  exist have distinct process ids, all positive and below the next one to be given, which is the first one plus \<open>n\<close>.\<close>

theorem process_ids_unique:
  assumes "booted s" "ptable_run n s t" "nextpid s + int n < 2 ^ 31"
  shows "nextpid t = nextpid s + int n \<and>
    (\<forall>i<NPROC. pstate (procs t ! i) \<noteq> UNUSED \<longrightarrow> 0 < pid (procs t ! i) \<and> pid (procs t ! i) < nextpid t \<and>
      (\<forall>j<NPROC. pstate (procs t ! j) \<noteq> UNUSED \<and> pid (procs t ! j) = pid (procs t ! i) \<longrightarrow> j = i))"
proof -
  have "length (procs t) = NPROC"
    using ptable_steps_inv [OF ptable_run_steps [OF assms(2)] booted_inv(1) [OF assms(1)]] by (simp add: ptree_inv_def)
  moreover have "nextpid t = nextpid s + int n" "pids_ok (nextpid t) (procs t)"
    using ptable_run_pids [OF assms(2) booted_inv(1) [OF assms(1)]] booted_inv(2) [OF assms(1)] assms(3) by auto
  ultimately show ?thesis unfolding pids_ok_def is_live_def by metis
qed

text \<open>C28: in every reachable table there are no orphans: init exists, has no parent and has not exited, and
  every other process that has been forked (zombies too) has a parent that is a process still running,
  runnable or sleeping; free slots have no parent.\<close>

theorem process_tree_no_orphans:
  assumes "booted s" "ptable_steps s t"
  shows "\<exists>ini. initproc t = Some ini \<and> ini < NPROC \<and> pstate (procs t ! ini) \<in> {SLEEPING, RUNNABLE, RUNNING} \<and>
    parent (procs t ! ini) = None \<and>
    (\<forall>i<NPROC. (pstate (procs t ! i) = UNUSED \<longrightarrow> parent (procs t ! i) = None) \<and>
       (i \<noteq> ini \<and> pstate (procs t ! i) \<notin> {UNUSED, EMBRYO} \<longrightarrow>
          (\<exists>p<NPROC. parent (procs t ! i) = Some p \<and> p \<noteq> i \<and> pstate (procs t ! p) \<in> {SLEEPING, RUNNABLE, RUNNING})))"
proof -
  obtain ini where i: "initproc t = Some ini" and len: "length (procs t) = NPROC" and t: "tree_ok ini (procs t)"
    using ptable_steps_inv [OF assms(2) booted_inv(1) [OF assms(1)]] by (auto simp: ptree_inv_def)
  note tr = tree_okD [OF t, unfolded len is_adult_def]
  have "\<exists>p<NPROC. parent (procs t ! i) = Some p \<and> p \<noteq> i \<and> pstate (procs t ! p) \<in> {SLEEPING, RUNNABLE, RUNNING}"
    if "i < NPROC" "i \<noteq> ini" "pstate (procs t ! i) \<notin> {UNUSED, EMBRYO}" for i
    using tr(5) [OF that] tr(6) [OF that(1)] by blast
  then show ?thesis using i tr(1-4) by blast
qed

text \<open>C27: no lost wakeup between \<open>exit\<close> and \<open>wait\<close>: in no reachable table does a process sleep in \<open>wait\<close> (on
  its own process structure) while one of its children is a zombie it could reap; and nobody sleeps on
  another process's structure.\<close>

theorem wait_exit_no_lost_wakeup:
  assumes "booted s" "ptable_steps s t"
  shows "\<forall>p<NPROC. \<forall>q. pstate (procs t ! p) = SLEEPING \<and> pchan (procs t ! p) = Some (Ch_proc q) \<longrightarrow>
    q = p \<and> (\<forall>i<NPROC. parent (procs t ! i) = Some p \<longrightarrow> pstate (procs t ! i) \<noteq> ZOMBIE)"
  using ptable_steps_inv [OF assms(2) booted_inv(1) [OF assms(1)]]
  unfolding ptree_inv_def waits_ok_def zombie_child_def is_child_def by metis

text \<open>C31: \<open>wait\<close>, the whole function with its memory and lock operations, changes the process table only by the
  steps of the table machine, provided the rest of the machine does so while it sleeps; so the tree keeps its
  invariant. When it returns, then because in a table it had reached it found the first of the caller's zombie
  children: it returns that one's process id, and has freed its slot and changed no other; or because the caller had no child
  there, or had been killed: then it returns -1 and has changed no slot.\<close>

theorem wait_returns_reaped_child:
  assumes "ptree_inv s" "running s p" "cur s = Some p" "\<forall>e\<in>set env. \<forall>s. ptable_steps s (e s)"
  shows "ensures (wait (s, env)) (\<lambda>(r, t, _). ptree_inv t \<and> (\<exists>u. ptable_steps s u \<and> running u p \<and> ptable_steps u t \<and>
    (case first_idx (\<lambda>q. parent q = Some p \<and> pstate q = ZOMBIE) (procs u) of
       Some i \<Rightarrow> r = pid (procs u ! i) \<and> procs t = (procs u)[i := (procs u ! i)\<lparr>kstack := 0, pstate := UNUSED, pid := 0,
           parent := None, pname := (pname (procs u ! i))[0 := 0], killed := False\<rparr>]
     | None \<Rightarrow> r = -1 \<and> ((\<forall>q\<in>set (procs u). parent q \<noteq> Some p) \<or> killed (procs u ! p)) \<and> procs t = procs u)))"
proof (rule ensures_mono [OF wait_steps [OF assms(1,4,2,3)]], clarify)
  fix r t u and env' :: "'a kernel_st_scheme env"
  assume u: "ptable_steps s u" "running u p" "ptable_steps u t" "wait_done p (procs u) r (procs t)"
  have "ptree_inv t" using ptable_steps_inv [OF rtranclp_trans [OF u(1,3)] assms(1)] .
  moreover have z: "zombie_child p = (\<lambda>q. parent q = Some p \<and> pstate q = ZOMBIE)"
    by (simp add: zombie_child_def is_child_def fun_eq_iff)
  moreover have c: "clear_proc (q\<lparr>kstack := 0\<rparr>) = q\<lparr>kstack := 0, pstate := UNUSED, pid := 0,
      parent := None, pname := (pname q)[0 := 0], killed := False\<rparr>" for q by (simp add: clear_proc_def)
  ultimately show "ptree_inv t \<and> (\<exists>u. ptable_steps s u \<and> running u p \<and> ptable_steps u t \<and>
    (case first_idx (\<lambda>q. parent q = Some p \<and> pstate q = ZOMBIE) (procs u) of
       Some i \<Rightarrow> r = pid (procs u ! i) \<and> procs t = (procs u)[i := (procs u ! i)\<lparr>kstack := 0, pstate := UNUSED, pid := 0,
           parent := None, pname := (pname (procs u ! i))[0 := 0], killed := False\<rparr>]
     | None \<Rightarrow> r = -1 \<and> ((\<forall>q\<in>set (procs u). parent q \<noteq> Some p) \<or> killed (procs u ! p)) \<and> procs t = procs u))"
    using u unfolding wait_done_def z is_child_def c by blast
qed

section \<open>Errors\<close>

text \<open>C32: \<open>wait\<close> of a process without children, and \<open>fork\<close> when the process table is full, return -1 at once
  and leave the kernel state exactly as it was.\<close>

theorem fork_wait_errors:
  assumes "L_ptable \<notin> set (held s)" "cur s = Some p"
  shows "((\<forall>q\<in>set (procs s). parent q \<noteq> Some p) \<longrightarrow> wait (s, env) = Ok (-1, s, env)) \<and>
    ((\<forall>q\<in>set (procs s). pstate q \<noteq> UNUSED) \<longrightarrow> fork k (s, env) = Ok (-1, s, env))"
proof (intro conjI impI)
  assume c: "\<forall>q\<in>set (procs s). parent q \<noteq> Some p"
  then have "first_idx (zombie_child p) (procs s) = None" by (auto simp: zombie_child_def is_child_def)
  then show "wait (s, env) = Ok (-1, s, env)" using assms c
    by (simp add: wait_def thn_proc_run cur_proc_def with_cur_def wait_loop.simps is_child_def del: first_idx_None)
next
  assume "\<forall>q\<in>set (procs s). pstate q \<noteq> UNUSED"
  then have "first_idx (\<lambda>p. pstate p = UNUSED) (procs s) = None" by simp
  then show "fork k (s, env) = Ok (-1, s, env)" using assms by (simp add: fork_def allocproc_def del: first_idx_None)
qed

text \<open>\<open>kill(0)\<close> succeeds as soon as the table has a slot that was never used or has been reaped before any
  process, since such a slot has process id 0: it marks the free slot as killed, and the next process
  allocated there is born killed, for \<open>allocproc\<close> does not reset the mark.\<close>

theorem kill_zero_kills_next_process:
  assumes "L_ptable \<notin> set (held s)" "pstate (procs s ! i) = UNUSED" "pid (procs s ! i) = 0" "i < length (procs s)"
    "\<forall>j<i. pstate (procs s ! j) \<noteq> UNUSED \<and> pid (procs s ! j) \<noteq> 0"
  shows "returns (kill 0 s) (\<lambda>(r, t). r = 0 \<and>
    ensures (allocproc k t) (\<lambda>(np, u). np \<noteq> None \<longrightarrow> np = Some i \<and> pstate (procs u ! i) = EMBRYO \<and> killed (procs u ! i)))"
proof -
  let ?t = "upd_proc i (\<lambda>p. p\<lparr>killed := True\<rparr>) s"
  have i: "first_idx (\<lambda>p. pid p = 0) (procs s) = Some i" using assms by (auto simp: first_idx_Some)
  have j: "first_idx (\<lambda>p. pstate p = UNUSED) (procs ?t) = Some i"
    using assms by (auto simp: first_idx_Some procs_upd_proc)
  have k: "kill 0 s = Ok (0, ?t)"
    using assms(1,2,4) i by (simp add: kill_def Let_def upd_proc_def)
  have "np \<noteq> None \<longrightarrow> np = Some i \<and> pstate (procs u ! i) = EMBRYO \<and> killed (procs u ! i)"
    if a: "allocproc k ?t = Ok (np, u)" for np u
  proof -
    obtain f where "\<forall>q. killed (f q) = killed q" "np \<in> {None, Some i}"
      "procs u = (procs ?t)[i := (f ((procs ?t ! i)\<lparr>pid := nextpid ?t\<rparr>))\<lparr>pstate := (if np = None then UNUSED else EMBRYO)\<rparr>]"
      using allocproc_table [OF a] unfolding j option.case by blast
    with assms(4) show ?thesis by (auto simp: procs_upd_proc)
  qed
  then show ?thesis by (auto simp: k ensures_iff)
qed

section \<open>The end of a process\<close>

lemma close_fds_none:
  "\<forall>fd<i + n. ofile (procs s ! p) ! fd = None \<Longrightarrow> for_up i n (close_fd p) (s, env) = Ok ((), s, env)"
  by (induction n arbitrary: i) (simp_all add: close_fd_def thn_assoc)

text \<open>C30: when a process other than init exits (its files closed and its working directory still used by
  others), its slot becomes a zombie without working directory, its children, zombies included, become children of init, those who sleep in \<open>wait\<close> on
  its parent's process structure are runnable again, and so are those who sleep on init's if one of the children is a zombie;
  nothing else in the table changes, and outside it only the reference count of the directory and the table lock, which it holds. The
  zombie never runs again: \<open>exit\<close> does not return, whatever the other processes do, its being reaped by
  its parent included, unless the slot has become that of a runnable process again.\<close>

theorem exit_leaves_zombie:
  assumes s: "held s = []" "cur s = Some p" "p < NPROC" "length (procs s) = NPROC"
      "initproc s = Some ini" "ini \<noteq> p"
    and files: "\<forall>fd<NOFILE. ofile (procs s ! p) ! fd = None"
    and dir: "cwd (procs s ! p) = Some d" "i_ref (icache s ! d) > 1"
    and env: "\<forall>e\<in>set env. \<forall>u. pstate (procs u ! p) = ZOMBIE \<longrightarrow> pstate (procs (e u) ! p) \<noteq> RUNNABLE"
  shows "returns (exit_prepare (s, env)) (\<lambda>(_, t, env'). env' = env \<and> length (procs t) = NPROC \<and>
       t = s\<lparr>held := [L_ptable], icache := (icache s)[d := (icache s ! d)\<lparr>i_ref := i_ref (icache s ! d) - 1\<rparr>], procs := procs t\<rparr> \<and>
       (\<forall>j<NPROC. let q = procs s ! j in procs t ! j = q
          \<lparr>parent := (if parent q = Some p then Some ini else parent q),
           cwd := (if j = p then None else cwd q),
           pstate := (if j = p then ZOMBIE
             else if pstate q = SLEEPING \<and> (\<exists>c. pchan q = Some (Ch_proc c) \<and> (parent (procs s ! p) = Some c \<or>
               c = ini \<and> (\<exists>k<NPROC. parent (procs s ! k) = Some p \<and> pstate (procs s ! k) = ZOMBIE))) then RUNNABLE
             else pstate q)\<rparr>)) \<and>
    exit (s, env) = Stuck"
proof -
  let ?u = "upd_inode d (\<lambda>ip. ip\<lparr>i_ref := i_ref ip - 1\<rparr>) s"
  let ?v = "(upd_proc p (\<lambda>q. q\<lparr>cwd := None\<rparr>) ?u)\<lparr>held := [L_ptable]\<rparr>"
  let ?t = "exit_table p ?v"
  have put: "iput d (s, env) = Ok ((), ?u, env)"
    using s(1) dir by (simp add: iput_def the_inode_def set_inode_def upd_inode_def)
  have close: "for_up 0 NOFILE (close_fd p) (s, env) = Ok ((), s, env)" by (rule close_fds_none) (use files in simp)
  have prep: "exit_prepare (s, env) = Ok ((), ?t, env)"
    using s dir by (simp add: exit_prepare_def thn_proc_run upd_inode_def upd_proc_def thn_eq [of "iput d" "(s, env)", OF put]
      thn_eq [of "for_up 0 NOFILE (close_fd p)" "(s, env)", OF close])
  have v: "initproc ?v = Some ini" "length (procs ?v) = NPROC" using s by (simp_all add: upd_inode_def)
  note e = exit_table_eq [OF v s(3)]
  have ps: "procs ?v = (procs s)[p := (procs s ! p)\<lparr>cwd := None\<rparr>]" using s(3,4) by (simp add: upd_proc_def upd_inode_def)
  have z: "zombie_child p (procs ?v ! k) \<longleftrightarrow> parent (procs s ! k) = Some p \<and> pstate (procs s ! k) = ZOMBIE" if "k < NPROC" for k
    using that s(4) unfolding ps by (cases "k = p") (auto simp: zombie_child_def is_child_def)
  have C: "exit_wakes p ini (procs ?v) = {Ch_proc c |c. parent (procs s ! p) = Some c \<or>
      c = ini \<and> (\<exists>k<NPROC. parent (procs s ! k) = Some p \<and> pstate (procs s ! k) = ZOMBIE)}"
    using z s(3,4) by (auto simp: exit_wakes_def init_woken_def ps)
  have nth: "procs ?t ! j = after_exit p ini (procs ?v) j" if "j < NPROC" for j using that by (simp add: e)
  have "exit (s, env) = Stuck"
  proof -
    have h: "held ?t = [L_ptable]" and c: "cur ?t = Some p" unfolding e using s(2) by (simp_all add: upd_inode_def)
    have "pstate (procs ?t ! p) = ZOMBIE" using nth [OF s(3)] by (simp add: after_exit_def Let_def)
    then have "sched ?t env = Stuck" using env h c by (auto simp: sched_def with_cur_def Let_def split: list.splits)
    then show ?thesis using prep by (simp add: exit_def thn_run sched_p_def)
  qed
  moreover have "procs ?t ! j = (procs s ! j)
      \<lparr>parent := (if parent (procs s ! j) = Some p then Some ini else parent (procs s ! j)),
       cwd := (if j = p then None else cwd (procs s ! j)),
       pstate := (if j = p then ZOMBIE
         else if pstate (procs s ! j) = SLEEPING \<and> (\<exists>c. pchan (procs s ! j) = Some (Ch_proc c) \<and> (parent (procs s ! p) = Some c \<or>
           c = ini \<and> (\<exists>k<NPROC. parent (procs s ! k) = Some p \<and> pstate (procs s ! k) = ZOMBIE))) then RUNNABLE
         else pstate (procs s ! j))\<rparr>" if j: "j < NPROC" for j
    unfolding nth [OF j] after_exit_def C using s(4) j
    by (cases "j = p") (auto simp: ps Let_def adopted_def roused_def)
  moreover have "?t = s\<lparr>held := [L_ptable], icache := (icache s)[d := (icache s ! d)\<lparr>i_ref := i_ref (icache s ! d) - 1\<rparr>], procs := procs ?t\<rparr>"
    unfolding e by (simp add: upd_inode_def upd_proc_def)
  moreover have "length (procs ?t) = NPROC" by (simp add: e)
  ultimately show ?thesis by (simp add: prep Let_def)
qed

section \<open>Examples\<close>

text \<open>Init asleep in \<open>wait\<close>, with one running child that has no children, files or parent but init.\<close>

definition demo_table :: "proc list" where
  "demo_table = (replicate NPROC unused_proc)
     [0 := (demo_proc 0 20)\<lparr>pid := 1, pstate := SLEEPING, pchan := Some (Ch_proc 0)\<rparr>,
      1 := (demo_proc 0 20)\<lparr>pid := 2, pstate := RUNNING, parent := Some 0, cwd := Some 0\<rparr>]"

definition demo_kernel :: "proc list \<Rightarrow> kernel_st" where
  "demo_kernel ps = (file_st.extend demo_file (kernel_st.fields True 0 0 []))
     \<lparr>procs := ps, cur := Some 1, initproc := Some 0, nextpid := 3, icache := [demo_inode\<lparr>i_ref := 2\<rparr>]\<rparr>"

lemma demo_kernel_simps [simp]:
  "procs (demo_kernel ps) = ps" "cur (demo_kernel ps) = Some 1" "initproc (demo_kernel ps) = Some 0"
  "nextpid (demo_kernel ps) = 3" "icache (demo_kernel ps) = [demo_inode\<lparr>i_ref := 2\<rparr>]" "held (demo_kernel ps) = []"
  by (simp_all add: demo_kernel_def file_st.defs kernel_st.defs demo_file_def vm_st.defs fs_st.defs cons_st.defs log_st.defs
      demo_log_def cold_def binit_def ideinit_def disk_st.defs demo_disk_def demo_st_def proc_st.defs)

lemma demo_table_nth:
  "demo_table ! 0 = (demo_proc 0 20)\<lparr>pid := 1, pstate := SLEEPING, pchan := Some (Ch_proc 0)\<rparr>"
  "demo_table ! 1 = (demo_proc 0 20)\<lparr>pid := 2, pstate := RUNNING, parent := Some 0, cwd := Some 0\<rparr>"
  "i < NPROC \<Longrightarrow> i \<noteq> 0 \<Longrightarrow> i \<noteq> 1 \<Longrightarrow> demo_table ! i = unused_proc"
  "length demo_table = NPROC"
  by (simp_all add: demo_table_def NPROC_def nth_list_update)

lemma demo_proc_fields [simp]:
  "parent (demo_proc a b) = None" "pchan (demo_proc a b) = None" "ofile (demo_proc a b) = replicate NOFILE None"
  "pstate unused_proc = UNUSED" "parent unused_proc = None" "pid unused_proc = 0"
  by (simp_all add: demo_proc_def unused_proc_def)

lemma demo_table_fields:
  "pstate (demo_table ! 0) = SLEEPING" "pid (demo_table ! 0) = 1" "parent (demo_table ! 0) = None" "pchan (demo_table ! 0) = Some (Ch_proc 0)"
  "pstate (demo_table ! 1) = RUNNING" "pid (demo_table ! 1) = 2" "parent (demo_table ! 1) = Some 0"
  using demo_table_nth(1,2) by simp_all

lemma demo_kernel_inv: "ptree_inv (demo_kernel demo_table)"
proof -
  let ?L = "\<lambda>i. demo_table ! i"
  have c: "i < NPROC \<Longrightarrow> i = 0 \<or> i = 1 \<or> pstate (?L i) = UNUSED \<and> parent (?L i) = None" for i
    using demo_table_nth(3) by (cases "i = 0"; cases "i = 1") auto
  have n: "(0 :: nat) < NPROC" "1 < NPROC" by (simp_all add: NPROC_def)
  have "tree_ok 0 demo_table"
    unfolding tree_ok_def demo_table_nth(4)
  proof (intro conjI allI impI)
    show "0 < NPROC" "is_adult (?L 0)" "parent (?L 0) = None" using n demo_table_fields by (simp_all add: is_adult_def)
    fix i assume i: "i < NPROC"
    show "pstate (?L i) = UNUSED \<Longrightarrow> parent (?L i) = None" using c [OF i] demo_table_fields by (elim disjE) simp_all
    show "i \<noteq> 0 \<and> pstate (?L i) \<notin> {UNUSED, EMBRYO} \<Longrightarrow> parent (?L i) \<noteq> None"
      using c [OF i] demo_table_fields by (elim disjE) simp_all
    fix p assume "parent (?L i) = Some p"
    then have "i = 1 \<and> p = 0" using c [OF i] demo_table_fields by (elim disjE) simp_all
    then show "p < NPROC" "p \<noteq> i" "is_adult (?L p)" using n demo_table_fields by (simp_all add: is_adult_def)
  qed
  moreover have "\<not> zombie_child p (?L i)" if "i < NPROC" for i p
    using c [OF that] demo_table_fields by (elim disjE) (simp_all add: zombie_child_def)
  moreover have "q = p" if "p < NPROC" "pstate (?L p) = SLEEPING" "pchan (?L p) = Some (Ch_proc q)" for p q
    using c [OF that(1)] that demo_table_fields by (elim disjE) simp_all
  ultimately show ?thesis by (simp add: ptree_inv_def demo_table_nth(4) waits_ok_def)
qed

definition boot_demo :: proc_st where
  "boot_demo = (demo_st ((replicate NPROC unused_proc)[0 := (demo_proc 0 20)\<lparr>pid := 1\<rparr>]))\<lparr>initproc := Some 0, nextpid := 2\<rparr>"

lemma boot_demo_booted: "booted boot_demo"
  by (simp add: booted_def boot_demo_def NPROC_def nth_list_update)

text \<open>Init has been scheduled, found no child, and sleeps in \<open>wait\<close>.\<close>

lemma boot_demo_run: "\<exists>t. ptable_steps boot_demo t \<and> pstate (procs t ! 0) = SLEEPING \<and> pchan (procs t ! 0) = Some (Ch_proc 0) \<and>
  pid (procs t ! 0) = 1"
proof -
  have n: "0 < length (procs boot_demo)" "pstate (procs boot_demo ! 0) = RUNNABLE" by (simp_all add: boot_demo_def NPROC_def)
  obtain u where u: "dispatch 0 boot_demo = Ok u"
    by (auto simp: dispatch_def boot_demo_def switchuvm_def with_cur_def Let_def upd_proc_def NPROC_def)
  obtain f where f: "procs u = (procs boot_demo)[0 := (f (procs boot_demo ! 0))\<lparr>pstate := RUNNING\<rparr>]" "local_upd f"
    using dispatch_table [OF u n(1)] by blast
  have "first_idx (zombie_child 0) (procs u) = None"
    unfolding f by (auto simp: boot_demo_def zombie_child_def dest!: subsetD [OF set_update_subset_insert])
  from st_wait [OF dispatch_running(1) [OF u n(1)] this]
  have "ptable_steps boot_demo (upd_proc 0 (\<lambda>q. q\<lparr>pchan := Some (Ch_proc 0), pstate := SLEEPING\<rparr>) u)"
    using st_dispatch [OF n u] by (meson converse_rtranclp_into_rtranclp r_into_rtranclp)
  then show ?thesis
    by (intro exI conjI) (assumption, use f n in \<open>auto simp: procs_upd_proc local_upd_def boot_demo_def NPROC_def\<close>)
qed

text \<open>The first allocation, with a page for the kernel stack.\<close>

definition boot_page :: proc_st where
  "boot_page = boot_demo\<lparr>freelist := 0x80200000\<rparr>"

lemma allocproc_ok:
  "held s = [] \<Longrightarrow> freelist s \<noteq> 0 \<Longrightarrow> first_idx (\<lambda>p. pstate p = UNUSED) (procs s) = Some i \<Longrightarrow> \<exists>t. allocproc k s = Ok (Some i, t)"
  by (auto simp: allocproc_def kalloc_def Let_def upd_proc_def)

lemma boot_page_alloc: "\<exists>t. allocproc 500 boot_page = Ok (Some 1, t) \<and> nextpid t = 3 \<and> pstate (procs t ! 1) = EMBRYO \<and> pid (procs t ! 1) = 2"
proof -
  have i: "first_idx (\<lambda>p. pstate p = UNUSED) (procs boot_page) = Some 1"
    by (simp add: first_idx_Some boot_page_def boot_demo_def NPROC_def nth_list_update)
  have b: "held boot_page = []" "freelist boot_page \<noteq> 0" "nextpid boot_page = 2" "1 < length (procs boot_page)"
    by (simp_all add: boot_page_def boot_demo_def NPROC_def)
  obtain t where t: "allocproc 500 boot_page = Ok (Some 1, t)" using allocproc_ok [OF b(1,2) i] by blast
  have "c_int 3 = 3" by (rule c_int_id) simp_all
  then show ?thesis using allocproc_table [OF t] b(3,4) t unfolding i by (auto simp: local_upd_def)
qed

theorem process_ids_unique_witness:
  "\<exists>t. ptable_run 1 boot_page t \<and> nextpid t = 3 \<and> pstate (procs t ! 1) = EMBRYO \<and> pid (procs t ! 1) = 2 \<and>
     (\<forall>j<NPROC. pstate (procs t ! j) \<noteq> UNUSED \<and> pid (procs t ! j) = 2 \<longrightarrow> j = 1)"
proof -
  obtain t where t: "allocproc 500 boot_page = Ok (Some 1, t)" "nextpid t = 3" "pstate (procs t ! 1) = EMBRYO" "pid (procs t ! 1) = 2"
    using boot_page_alloc by blast
  have b: "booted boot_page" using boot_demo_booted by (simp add: booted_def boot_page_def)
  have n: "nextpid boot_page = 2" by (simp add: boot_page_def boot_demo_def)
  have r: "ptable_run 1 boot_page t"
    using run_step [OF run_none st_alloc [OF t(1)]] t(2) n by simp
  have "(1 :: nat) < NPROC" by (simp add: NPROC_def)
  moreover have "nextpid boot_page + int 1 < 2 ^ 31" by (simp add: n)
  ultimately have "\<forall>j<NPROC. pstate (procs t ! j) \<noteq> UNUSED \<and> pid (procs t ! j) = pid (procs t ! 1) \<longrightarrow> j = 1"
    using process_ids_unique [OF b r] t(3) by (metis procstate.distinct(1))
  then show ?thesis using r t by auto
qed

theorem process_tree_no_orphans_witness:
  "\<exists>t. ptable_steps boot_demo t \<and> pstate (procs t ! 0) = SLEEPING \<and> (\<exists>ini<NPROC. initproc t = Some ini \<and> parent (procs t ! ini) = None)"
  using boot_demo_run process_tree_no_orphans [OF boot_demo_booted] by meson

theorem wait_exit_no_lost_wakeup_witness:
  "\<exists>t. ptable_steps boot_demo t \<and> pstate (procs t ! 0) = SLEEPING \<and> pchan (procs t ! 0) = Some (Ch_proc 0) \<and>
     (\<forall>i<NPROC. parent (procs t ! i) = Some 0 \<longrightarrow> pstate (procs t ! i) \<noteq> ZOMBIE)"
proof -
  obtain t where t: "ptable_steps boot_demo t" "pstate (procs t ! 0) = SLEEPING" "pchan (procs t ! 0) = Some (Ch_proc 0)"
    using boot_demo_run by blast
  have "(0 :: nat) < NPROC" by (simp add: NPROC_def)
  with wait_exit_no_lost_wakeup [OF boot_demo_booted t(1)] t show ?thesis by blast
qed

theorem fork_wait_errors_witness:
  "wait (demo_kernel demo_table, []) = Ok (-1, demo_kernel demo_table, []) \<and>
   fork 500 (demo_kernel (replicate NPROC (demo_proc 0 20)), []) = Ok (-1, demo_kernel (replicate NPROC (demo_proc 0 20)), [])"
proof -
  have "\<forall>q\<in>set (procs (demo_kernel demo_table)). parent q \<noteq> Some 1"
    by (auto simp: demo_table_def dest!: subsetD [OF set_update_subset_insert])
  then show ?thesis
    using fork_wait_errors [of "demo_kernel demo_table" 1 "[]" 500]
      fork_wait_errors [of "demo_kernel (replicate NPROC (demo_proc 0 20))" 1 "[]" 500] by simp
qed

theorem kill_zero_kills_next_process_witness:
  "returns (kill 0 boot_demo) (\<lambda>(r, t). r = 0 \<and>
    ensures (allocproc 500 t) (\<lambda>(np, u). np \<noteq> None \<longrightarrow> np = Some 1 \<and> killed (procs u ! 1)))"
proof -
  have "L_ptable \<notin> set (held boot_demo)" "pstate (procs boot_demo ! 1) = UNUSED" "pid (procs boot_demo ! 1) = 0"
    "1 < length (procs boot_demo)" "\<forall>j<1. pstate (procs boot_demo ! j) \<noteq> UNUSED \<and> pid (procs boot_demo ! j) \<noteq> 0"
    by (simp_all add: boot_demo_def NPROC_def)
  from kill_zero_kills_next_process [OF this, of 500] show ?thesis by (auto elim!: returns_mono ensures_mono)
qed

text \<open>The parent has reaped the zombie by the time the CPU would come back to it.\<close>

theorem exit_leaves_zombie_witness:
  "returns (exit_prepare (demo_kernel demo_table, [upd_proc 1 clear_proc])) (\<lambda>(_, t, _). pstate (procs t ! 1) = ZOMBIE \<and>
     pstate (procs t ! 0) = RUNNABLE) \<and> exit (demo_kernel demo_table, [upd_proc 1 clear_proc]) = Stuck"
proof -
  let ?s = "demo_kernel demo_table"
  note n = demo_table_nth(1,2,4)
  have "pstate (procs (upd_proc 1 clear_proc u) ! 1) \<noteq> RUNNABLE" if "pstate (procs u ! 1) = ZOMBIE" for u :: kernel_st
    using that by (cases "1 < length (procs u)") (auto simp: procs_upd_proc clear_proc_def list_update_beyond)
  then have "held ?s = []" "cur ?s = Some 1" "1 < NPROC" "length (procs ?s) = NPROC" "initproc ?s = Some 0" "(0 :: nat) \<noteq> 1"
    "\<forall>fd<NOFILE. ofile (procs ?s ! 1) ! fd = None" "cwd (procs ?s ! 1) = Some 0" "i_ref (icache ?s ! 0) > 1"
    "\<forall>e\<in>set [upd_proc 1 clear_proc]. \<forall>u :: kernel_st. pstate (procs u ! 1) = ZOMBIE \<longrightarrow> pstate (procs (e u) ! 1) \<noteq> RUNNABLE"
    using n by (simp_all add: NPROC_def)
  note e = exit_leaves_zombie [OF this]
  have "(0 :: nat) < NPROC" "1 < NPROC" by (simp_all add: NPROC_def)
  then show ?thesis using e n by (auto elim!: returns_mono simp: Let_def)
qed

section \<open>A child that exits while its parent waits\<close>

text \<open>An address space without page tables is freed in one piece.\<close>

lemma deallocuvm_loop_empty:
  fixes s :: "'a mem_st_scheme"
  assumes "\<And>d. \<not> has_table (mem s) pgdr d"
  shows "deallocuvm_loop pgdr n a s = Ok s"
proof (induction "n - a" arbitrary: a rule: less_induct)
  case less
  show ?case
    by (subst deallocuvm_loop.simps) (use less walkpgdir_absent [OF assms] in \<open>auto simp: NPTENTRIES_def\<close>)
qed

lemma freevm_loop_empty: "(\<And>d. \<not> has_table (mem s) pgdr d) \<Longrightarrow> i + n \<le> 1024 \<Longrightarrow> freevm_loop pgdr i n s = Ok s"
proof (induction n arbitrary: i)
  case (Suc n)
  have "unat (of_nat i :: u32) < 1024" using Suc.prems(2) by (simp add: unat_of_nat32)
  then have "load32 (mem s) (pgdr + 4 * of_nat i) AND PTE_P = 0"
    using Suc.prems(1) [of "of_nat i"] by (simp add: has_table_def pde_def)
  then show ?case using Suc by (simp add: Let_def)
qed simp

lemma freevm_empty:
  "(\<And>d. \<not> has_table (mem s) pgdr d) \<Longrightarrow> pgdr \<noteq> 0 \<Longrightarrow> freevm pgdr s = kfree pgdr s"
  by (simp add: freevm_def deallocuvm_def KERNBASE_def deallocuvm_loop_empty freevm_loop_empty NPDENTRIES_def)

lemma reap_ok:
  fixes s :: "'a kernel_st_scheme"
  assumes "L_ptable \<in> set (held s)" "L_kmem \<notin> set (held s)" "page_ok s (kstack (procs s ! i))" "page_ok s (pgdir (procs s ! i))"
    "pgdir (procs s ! i) \<noteq> 0" "kstack (procs s ! i) \<noteq> pgdir (procs s ! i)" "\<And>d. \<not> has_table (mem s) (pgdir (procs s ! i)) d"
  shows "\<exists>t. reap i (s, env) = Ok (pid (procs s ! i), t, env)"
proof -
  let ?k = "kstack (procs s ! i)" and ?d = "pgdir (procs s ! i)"
  let ?u = "upd_proc i (\<lambda>q. q\<lparr>kstack := 0\<rparr>) (kfree_result ?k s)"
  have "mem ?u a = mem s a" if "in_range a ?d 4096" for a
    using that pages_disjoint [of ?k ?d a] assms(3,4,6) kfree_result_outside [of a ?k s] by (auto simp: page_ok_def)
  then have "pde (mem ?u) ?d d = pde (mem s) ?d d" if "unat d < 1024" for d
    unfolding pde_def by (intro load32_cong) (use slot_in_page [OF that] in blast)
  then have "\<not> has_table (mem ?u) ?d d" for d using assms(7) [of d] by (auto simp: has_table_def)
  then have "freevm ?d ?u = kfree ?d ?u" by (rule freevm_empty) (rule assms(5))
  also have "\<dots> = Ok (kfree_result ?d ?u)" using assms(2,4) by (intro kfree_eq) (simp_all add: page_ok_def kfree_result_def)
  finally have "freevm ?d ?u = Ok (kfree_result ?d ?u)" .
  moreover have "kfree ?k s = Ok (kfree_result ?k s)" using assms(2,3) by (intro kfree_eq)
  moreover have "held (upd_proc i clear_proc (kfree_result ?d ?u)) = held s" by (simp add: kfree_result_def)
  ultimately show ?thesis using assms(1) by (simp add: reap_def thn_proc_run)
qed

lemma dispatch_runs:
  assumes "sched_s s = 0" "pgdir (procs s ! i) \<noteq> 0" "i < length (procs s)"
  shows "\<exists>t. dispatch i s = Ok t \<and> mem t = mem s \<and> held t = held s \<and> kernel_end t = kernel_end s"
  using assms by (simp add: dispatch_def switchuvm_def with_cur_def Let_def upd_proc_def)

text \<open>Init calls \<open>wait\<close> while its child runs on another CPU; the child exits while init sleeps.\<close>

definition wait_demo :: kernel_st where
  "wait_demo = (demo_kernel (demo_table[0 := (demo_table ! 0)\<lparr>pstate := RUNNING, pchan := None\<rparr>,
     1 := (demo_table ! 1)\<lparr>kstack := 0x80200000, pgdir := 0x80500000\<rparr>]))\<lparr>cur := Some 0\<rparr>"

definition child_exits :: "kernel_st \<Rightarrow> kernel_st" where
  "child_exits s = (if running s 1 \<and> initproc s \<noteq> Some 1 then exit_table 1 s else s)"

lemma child_exits_steps: "ptable_steps s (child_exits s)"
  by (auto simp: child_exits_def intro: st_exit)

lemma wait_demo_simps:
  "initproc wait_demo = Some 0" "cur wait_demo = Some 0" "held wait_demo = []" "length (procs wait_demo) = NPROC"
  "procs wait_demo ! 0 = (demo_table ! 0)\<lparr>pstate := RUNNING, pchan := None\<rparr>"
  "procs wait_demo ! 1 = (demo_table ! 1)\<lparr>kstack := 0x80200000, pgdir := 0x80500000\<rparr>"
  "mem wait_demo = (\<lambda>_. 0)" "kernel_end wait_demo = 0x80110000" "sched_s wait_demo = 0"
  using demo_table_nth(4)
  by (simp_all add: wait_demo_def NPROC_def)
    (simp_all add: demo_kernel_def file_st.defs kernel_st.defs demo_file_def vm_st.defs fs_st.defs cons_st.defs log_st.defs
      demo_log_def cold_def binit_def ideinit_def disk_st.defs demo_disk_def demo_st_def proc_st.defs)

lemma wait_demo_other: "i < NPROC \<Longrightarrow> i \<noteq> 0 \<Longrightarrow> i \<noteq> 1 \<Longrightarrow> procs wait_demo ! i = unused_proc"
  by (simp add: wait_demo_def demo_table_nth(3))

lemma wait_demo_inv: "ptree_inv wait_demo"
proof (rule life_keeps_inv [OF demo_kernel_inv])
  let ?q = "(demo_table ! 0)\<lparr>pstate := RUNNING, pchan := None\<rparr>" and ?r = "(demo_table ! 1)\<lparr>kstack := 0x80200000, pgdir := 0x80500000\<rparr>"
  have "life_le (demo_table ! 0) ?q" "life_le (demo_table ! 1) ?r" using demo_table_fields by (simp_all add: life_defs)
  then have "life_le (demo_table ! i) (demo_table[0 := ?q, 1 := ?r] ! i)" if "i < NPROC" for i
    using that demo_table_nth(4) by (cases "i = 1"; cases "i = 0") simp_all
  then have "list_all2 life_le demo_table (demo_table[0 := ?q, 1 := ?r])"
    by (simp add: list_all2_conv_all_nth demo_table_nth(4))
  then show "life_keeps (demo_kernel demo_table) wait_demo" by (simp add: life_keeps_def wait_demo_def)
qed

lemma wait_demo_runs: "\<exists>t. wait (wait_demo, [child_exits]) = Ok (2, t, [])"
proof -
  note w = wait_demo_simps and f = demo_table_fields
  have n: "(0 :: nat) < NPROC" "(1 :: nat) < NPROC" by (simp_all add: NPROC_def)
  define s0 where "s0 = wait_demo\<lparr>held := [L_ptable]\<rparr>"
  define s1 where "s1 = upd_proc 0 (\<lambda>q. q\<lparr>pchan := Some (Ch_proc 0), pstate := SLEEPING\<rparr>) s0"
  have p1: "procs s1 ! 0 = (procs wait_demo ! 0)\<lparr>pchan := Some (Ch_proc 0), pstate := SLEEPING\<rparr>" "procs s1 ! 1 = procs wait_demo ! 1"
    "length (procs s1) = NPROC" "initproc s1 = Some 0" "cur s1 = Some 0" "held s1 = [L_ptable]"
    using w(1-4) n by (simp_all add: s1_def s0_def procs_upd_proc)
  define s2 where "s2 = s1\<lparr>procs := map (after_exit 1 0 (procs s1)) [0..<NPROC]\<rparr>"
  have e: "child_exits s1 = s2"
    using exit_table_eq [of s1 0 1] p1 n w(6) f by (simp add: child_exits_def running_def s2_def)
  have "Ch_proc 0 \<in> exit_wakes 1 0 (procs s1)" using p1(2) w(6) f by (simp add: exit_wakes_def)
  then have p2: "pstate (procs s2 ! 0) = RUNNABLE" "pgdir (procs s2 ! 0) \<noteq> 0" "parent (procs s2 ! 0) = None" "killed (procs s2 ! 0) = False"
    "pstate (procs s2 ! 1) = ZOMBIE" "parent (procs s2 ! 1) = Some 0" "pid (procs s2 ! 1) = 2"
    "kstack (procs s2 ! 1) = 0x80200000" "pgdir (procs s2 ! 1) = 0x80500000"
    using n p1(1,2) w(5,6) demo_table_nth(1,2) by (auto simp: s2_def after_exit_def adopted_def roused_def Let_def demo_proc_def unused_proc_def)
  have m2: "mem s2 = (\<lambda>_. 0)" "held s2 = [L_ptable]" "kernel_end s2 = 0x80110000" "sched_s s2 = 0" "length (procs s2) = NPROC"
    using w(7-9) p1(6) by (simp_all add: s2_def s1_def s0_def)
  obtain s3 where s3: "dispatch 0 s2 = Ok s3" "mem s3 = mem s2" "held s3 = held s2" "kernel_end s3 = kernel_end s2"
    using dispatch_runs [of s2 0] m2(4,5) p2(2) n by auto
  obtain g where g: "procs s3 = (procs s2)[0 := (g (procs s2 ! 0))\<lparr>pstate := RUNNING\<rparr>]" "local_upd g"
    using dispatch_table [OF s3(1)] m2(5) n by auto
  define s4 where "s4 = upd_proc 0 (\<lambda>q. q\<lparr>pchan := None\<rparr>) s3"
  have h: "s2\<lparr>held := [L_ptable]\<rparr> = s2" unfolding m2(2) [symmetric] by simp
  have sl: "sleep_on (Ch_proc 0) L_ptable (s0, [child_exits]) = Ok ((), s4, [])"
    using p1(1,5,6) w(2) p2(1) s3(1) e h
    by (simp add: sleep_on_def sleep_def sched_def with_cur_def Let_def s4_def s0_def flip: s1_def [unfolded s0_def])
  have p4: "length (procs s4) = NPROC" "procs s4 ! 1 = procs s2 ! 1" "\<not> zombie_child 0 (procs s4 ! 0)"
    using g m2(5) n by (auto simp: s4_def procs_upd_proc zombie_child_def)
  have "first_idx (zombie_child 0) (procs s4) = Some 1"
    using p4 p2(5,6) n by (auto simp: first_idx_Some zombie_child_def is_child_def)
  then have "wait_loop 0 (s4, []) = reap 1 (s4, [])" by (subst wait_loop.simps) simp
  moreover have "load32 (\<lambda>_. 0) a = 0" for a by (simp add: load32_def mk32_def)
  then have "\<exists>t. reap 1 (s4, []) = Ok (2, t, [])"
    using reap_ok [of s4 1 "[]"] s3 m2 p2(7-9) p4(2)
    by (simp add: s4_def page_ok_def PGSIZE_def v2p_def KERNBASE_def PHYSTOP_def has_table_def pde_def)
  moreover have "wait_loop 0 (s0, [child_exits]) = wait_loop 0 (s4, [])"
  proof -
    have "\<not> zombie_child 0 (procs wait_demo ! i)" if "i < NPROC" for i
      using wait_demo_other [OF that] w(5,6) f by (cases "i = 0"; cases "i = 1") (auto simp: zombie_child_def)
    then have "first_idx (zombie_child 0) (procs s0) = None" using w(4) by (auto simp: s0_def in_set_conv_nth)
    moreover have "procs wait_demo ! 1 \<in> set (procs s0)" using w(4) n by (simp add: s0_def)
    then have "\<exists>q\<in>set (procs s0). is_child 0 q" by (rule bexI [rotated]) (use w(6) f in \<open>simp add: is_child_def\<close>)
    moreover have "\<not> killed (procs s0 ! 0)" using w(5) demo_table_nth(1) by (simp add: s0_def demo_proc_def unused_proc_def)
    ultimately show ?thesis using sl by (subst wait_loop.simps) (auto simp: thn_run simp del: first_idx_None)
  qed
  ultimately show ?thesis using w(2,3) by (simp add: wait_def thn_proc_run s0_def)
qed

theorem wait_returns_reaped_child_witness:
  "\<exists>t u i. wait (wait_demo, [child_exits]) = Ok (2, t, []) \<and> ptable_steps wait_demo u \<and> parent (procs u ! i) = Some 0 \<and>
     pstate (procs u ! i) = ZOMBIE \<and> pid (procs u ! i) = 2 \<and> pstate (procs t ! i) = UNUSED"
proof -
  obtain t where t: "wait (wait_demo, [child_exits]) = Ok (2, t, [])" using wait_demo_runs by blast
  have "running wait_demo 0" using wait_demo_simps(4,5) by (simp add: running_def NPROC_def)
  from wait_returns_reaped_child [OF wait_demo_inv this wait_demo_simps(2), of "[child_exits]"] t
  obtain u where u: "ptable_steps wait_demo u"
    "case first_idx (\<lambda>q. parent q = Some 0 \<and> pstate q = ZOMBIE) (procs u) of
       Some i \<Rightarrow> 2 = pid (procs u ! i) \<and> procs t = (procs u)[i := (procs u ! i)\<lparr>kstack := 0, pstate := UNUSED, pid := 0,
           parent := None, pname := (pname (procs u ! i))[0 := 0], killed := False\<rparr>]
     | None \<Rightarrow> 2 = (-1 :: int) \<and> ((\<forall>q\<in>set (procs u). parent q \<noteq> Some 0) \<or> killed (procs u ! 0)) \<and> procs t = procs u"
    by (auto simp: child_exits_steps simp del: first_idx_None)
  then obtain i where i: "first_idx (\<lambda>q. parent q = Some 0 \<and> pstate q = ZOMBIE) (procs u) = Some i"
    "pid (procs u ! i) = 2" "procs t = (procs u)[i := (procs u ! i)\<lparr>kstack := 0, pstate := UNUSED, pid := 0,
           parent := None, pname := (pname (procs u ! i))[0 := 0], killed := False\<rparr>]"
    by (cases "first_idx (\<lambda>q. parent q = Some 0 \<and> pstate q = ZOMBIE) (procs u)") (auto simp del: first_idx_None)
  show ?thesis using t u(1) i(2,3) first_idx_SomeD(1,2) [OF i(1)] by (intro exI [of _ t] exI [of _ u] exI [of _ i]) simp
qed

end
