(* ===== verification/Trap_Spec.thy ===== *)
theory Trap_Spec
  imports Proc_Spec
begin

text \<open>
  What the entry into the kernel guarantees: which gates user code can use, what the
  descriptors mean to the hardware, that the dispatcher runs the right system call, that
  checked user pointers lie in user memory, that a killed process does not get back to user
  code, and when \<open>sleep\<close> returns.
\<close>

section \<open>Descriptors\<close>

text \<open>The base address and the limit (in pages) that the hardware reads out of a segment descriptor.\<close>

definition seg_base :: "segdesc \<Rightarrow> u32" where
  "seg_base d = sd_base_15_0 d OR push_bit 16 (sd_base_23_16 d) OR push_bit 24 (sd_base_31_24 d)"

definition seg_limit :: "segdesc \<Rightarrow> u32" where
  "seg_limit d = sd_lim_15_0 d OR push_bit 16 (sd_lim_19_16 d)"

text \<open>Every field fits into its bits.\<close>

definition segdesc_wf :: "segdesc \<Rightarrow> bool" where
  "segdesc_wf d \<longleftrightarrow> sd_lim_15_0 d < 2 ^ 16 \<and> sd_base_15_0 d < 2 ^ 16 \<and> sd_base_23_16 d < 2 ^ 8 \<and> sd_type d < 2 ^ 4 \<and>
     sd_s d < 2 \<and> sd_dpl d < 2 ^ 2 \<and> sd_p d < 2 \<and> sd_lim_19_16 d < 2 ^ 4 \<and> sd_avl d < 2 \<and> sd_rsv1 d < 2 \<and> sd_db d < 2 \<and>
     sd_g d < 2 \<and> sd_base_31_24 d < 2 ^ 8"

lemma and_low: "w AND 0xffff = take_bit 16 w" "w AND 0xff = take_bit 8 w" for w :: u32
  by (simp_all add: take_bit_eq_mask mask_eq_exp_minus_1)

lemma word_split:
  "(w AND 0xffff) OR push_bit 16 (drop_bit 16 w AND 0xff) OR push_bit 24 (drop_bit 24 w) = w" (is "?a = w")
  "(w AND 0xffff) OR push_bit 16 (drop_bit 16 w) = w" for w :: u32
proof -
  show "?a = w"
  proof (rule bit_word_eqI)
    fix n show "n < LENGTH(32) \<Longrightarrow> bit ?a n \<longleftrightarrow> bit w n"
      unfolding and_low by (cases "24 \<le> n"; cases "16 \<le> n")
        (auto simp: bit_or_iff bit_take_bit_iff bit_push_bit_iff bit_drop_bit_eq)
  qed
  show "(w AND 0xffff) OR push_bit 16 (drop_bit 16 w) = w"
  proof (rule bit_word_eqI)
    fix n show "n < LENGTH(32) \<Longrightarrow> bit ((w AND 0xffff) OR push_bit 16 (drop_bit 16 w)) n \<longleftrightarrow> bit w n"
      unfolding and_low by (cases "16 \<le> n") (auto simp: bit_or_iff bit_take_bit_iff bit_push_bit_iff bit_drop_bit_eq)
  qed
qed

lemma word_parts_less:
  "w AND 0xffff < (2 ^ 16 :: u32)" "w AND 0xff < (2 ^ 8 :: u32)" "drop_bit 16 w < (2 ^ 16 :: u32)"
  "drop_bit 24 w < (2 ^ 8 :: u32)" "drop_bit 28 w < (2 ^ 4 :: u32)" for w :: u32
  using unsigned_less [of w, where 'a = nat]
  by (simp_all add: and_low word_less_nat_alt unsigned_take_bit_eq unsigned_drop_bit_eq take_bit_nat_def drop_bit_nat_def div_less_iff_less_mult)

text \<open>The segment table that \<open>seginit\<close> sets up is well typed and means what it should: every field fits into
  its bits, user and kernel code and data segments start at 0, cover all 4 gigabytes and are distinguished
  by their privilege level, and the segment of the CPU's own data starts at the given address.\<close>

lemma seginit_segments:
  assumes "length gdt = NSEGS"
  shows "let g = seginit cpuaddr gdt in
     (\<forall>i\<in>{1, 2, 3, 4, 5}. segdesc_wf (g ! i) \<and> sd_p (g ! i) = 1 \<and> sd_g (g ! i) = 1) \<and>
     (\<forall>i\<in>{1, 2, 4, 5}. seg_base (g ! i) = 0 \<and> seg_limit (g ! i) = 0xfffff) \<and>
     (\<forall>i\<in>{1, 2, 3}. sd_dpl (g ! i) = 0) \<and> (\<forall>i\<in>{4, 5}. sd_dpl (g ! i) = 3) \<and>
     (\<forall>i\<in>{1, 4}. sd_type (g ! i) = 0xA) \<and> (\<forall>i\<in>{2, 3, 5}. sd_type (g ! i) = 2) \<and>
     seg_base (g ! 3) = cpuaddr"
proof -
  have wf: "segdesc_wf (SEG t b l d)" if "t < 2 ^ 4" "d < 2 ^ 2" for t b l d
    using that word_parts_less by (simp add: segdesc_wf_def SEG_def)
  have base: "seg_base (SEG t b l d) = b" for t b l d
    using word_split(1) [of b] by (simp add: seg_base_def SEG_def)
  have lim: "seg_limit (SEG t b 0xffffffff d) = 0xfffff" for t b d by (simp add: seg_limit_def SEG_def)
  have f: "sd_p (SEG t b l d) = 1" "sd_g (SEG t b l d) = 1" "sd_dpl (SEG t b l d) = d" "sd_type (SEG t b l d) = t" for t b l d
    by (simp_all add: SEG_def)
  have i: "unat SEG_KCODE = 1" "unat SEG_KDATA = 2" "unat SEG_KCPU = 3" "unat SEG_UCODE = 4" "unat SEG_UDATA = 5"
    by (simp_all add: SEG_KCODE_def SEG_KDATA_def SEG_KCPU_def SEG_UCODE_def SEG_UDATA_def)
  have x: "STA_X OR STA_R = 0xA" "STA_W = 2" "DPL_USER = 3" by (simp_all add: STA_X_def STA_R_def STA_W_def DPL_USER_def)
  have g: "seginit cpuaddr gdt ! 1 = SEG 0xA 0 0xffffffff 0" "seginit cpuaddr gdt ! 2 = SEG 2 0 0xffffffff 0"
    "seginit cpuaddr gdt ! 3 = SEG 2 cpuaddr 8 0" "seginit cpuaddr gdt ! 4 = SEG 0xA 0 0xffffffff 3"
    "seginit cpuaddr gdt ! 5 = SEG 2 0 0xffffffff 3"
    using assms by (simp_all add: seginit_def i x NSEGS_def nth_list_update)
  show ?thesis unfolding Let_def by (simp add: g base lim f wf del: One_nat_def)
qed

text \<open>The handler address that the hardware reads out of a gate.\<close>

definition gate_offset :: "gatedesc \<Rightarrow> u32" where
  "gate_offset g = gd_off_15_0 g OR push_bit 16 (gd_off_31_16 g)"

text \<open>After \<open>tvinit\<close> all 256 gates are present and lead to their own vector in the kernel's code segment;
  user code can enter through the system call gate only, which is also the only one that leaves interrupts
  enabled.\<close>

lemma tvinit_gates:
  "length (tvinit vectors) = 256 \<and> (\<forall>i<256. let g = tvinit vectors ! i in
     gd_p g = 1 \<and> gd_s g = 0 \<and> gd_cs g = 8 \<and> gate_offset g = vectors ! i \<and> gd_off_15_0 g < 2 ^ 16 \<and> gd_off_31_16 g < 2 ^ 16 \<and>
     (gd_dpl g = 3 \<longleftrightarrow> i = 64) \<and> (gd_dpl g \<noteq> 3 \<longrightarrow> gd_dpl g = 0) \<and> (gd_type g = STS_TG32 \<longleftrightarrow> i = 64))"
proof -
  have nth: "tvinit vectors ! i = SETGATE (i = 64) 8 (vectors ! i) (if i = 64 then 3 else 0)" if "i < 256" for i
    using that by (simp add: tvinit_def T_SYSCALL_def DPL_USER_def SEG_KCODE_def nth_list_update)
  have "gate_offset (SETGATE a b w d) = w" for a b w d
    using word_split(2) [of w] by (simp add: gate_offset_def SETGATE_def)
  moreover have "length (tvinit vectors) = 256" by (simp add: tvinit_def)
  ultimately show ?thesis
    using word_parts_less(1,3) by (simp add: nth Let_def) (simp add: SETGATE_def STS_TG32_def STS_IG32_def)
qed

section \<open>Arguments\<close>

lemma cur_run [prog_simps]: "cur s = Some p \<Longrightarrow> cur_proc (s, env) = Ok (p, s, env)"
  by (simp add: cur_proc_def with_cur_def)

lemma nonneg_unat: "0 \<le> sint w \<Longrightarrow> unat w < 2 ^ 31" for w :: u32
proof -
  assume "0 \<le> sint w"
  moreover have "sint w < 2 ^ 31" using sint_lt [of w] by simp
  moreover have "uint w = take_bit 32 (sint w)" using uint_word_of_int_eq [where 'a = 32, of "sint w"] by simp
  ultimately have "uint w = sint w" by (simp add: take_bit_int_eq_self)
  then show ?thesis using \<open>sint w < 2 ^ 31\<close> by (simp add: nat_uint_eq [symmetric])
qed

text \<open>For a process whose memory ends at or below \<open>KERNBASE\<close> and a size that is not negative, \<open>argptr\<close> accepts
  the n-th argument exactly when all the bytes it points to lie in the memory of the process, without
  wrap-around, and fails otherwise; it changes nothing.\<close>

lemma argptr_checks_range:
  assumes "cur s = Some p" "sz (procs s ! p) \<le> KERNBASE" "0 \<le> sint len" "argint n (s, env) = Ok (Some a, s, env)"
  shows "argptr n len (s, env) =
    Ok (if unat a < unat (sz (procs s ! p)) \<and> unat a + unat len \<le> unat (sz (procs s ! p)) then Some a else None, s, env)"
proof -
  let ?z = "sz (procs s ! p)"
  have z: "unat ?z \<le> 2 ^ 31" using assms(2) by (simp add: word_le_nat_alt KERNBASE_def)
  have "unat (a + len) = unat a + unat len" if "unat a < unat ?z"
    using that z nonneg_unat [OF assms(3)] by (simp add: unat_word_ariths)
  then have "(a \<ge> ?z \<or> a + len > ?z) \<longleftrightarrow> \<not> (unat a < unat ?z \<and> unat a + unat len \<le> unat ?z)"
    by (cases "unat a < unat ?z") (auto simp: word_le_nat_alt word_less_nat_alt)
  then show ?thesis using assms(1,4)
    by (simp add: argptr_def thn_eq [of "argint n" "(s, env)", OF assms(4)] thn_proc_run)
qed

text \<open>A negative size defeats the check of \<open>argptr\<close>: the sum of pointer and size wraps around, so a pointer into
  the memory of the process is accepted whenever it is not smaller than the size's absolute value, however
  little memory follows it.\<close>

theorem argptr_negative_size_accepted:
  assumes "cur s = Some p" "argint n (s, env) = Ok (Some a, s, env)" "a < sz (procs s ! p)" "sint len < 0" "- len \<le> a"
  shows "argptr n len (s, env) = Ok (Some a, s, env)"
proof -
  have "a + len = a - (- len)" by simp
  also have "\<dots> \<le> a" unfolding word_le_nat_alt unat_sub [OF assms(5)] by simp
  finally have "\<not> a + len > sz (procs s ! p)" using assms(3) by simp
  then show ?thesis using assms(1,3)
    by (simp add: argptr_def thn_eq [of "argint n" "(s, env)", OF assms(2)] thn_proc_run)
qed

section \<open>Dispatch\<close>

text \<open>\<open>syscall\<close> runs exactly the table's function for the numbers 1 to 21 and stores its result in the saved
  \<open>eax\<close>; any other number, negative ones included, makes the process see -1 and changes nothing else but the
  message on the screen.\<close>

lemma syscall_dispatch:
  fixes s :: "'a kernel_st_scheme"
  assumes "cur s = Some p" "p < length (procs s)" "cons_free s"
  shows "let num = sint (tf_eax (tf (procs s ! p))) in
    if 1 \<le> num \<and> num \<le> 21 then
      \<exists>f. (nat num, f) \<in> set syscalls \<and> (\<forall>g. (nat num, g) \<in> set syscalls \<longrightarrow> g = f) \<and> syscall (s, env) = thn f (set_eax p) (s, env)
    else returns (syscall (s, env)) (\<lambda>(_, t, env'). env' = env \<and>
      (\<exists>u. same_but_screen s u \<and> t = upd_proc p (\<lambda>q. q\<lparr>tf := (tf q)\<lparr>tf_eax := -1\<rparr>\<rparr>) u))"
proof -
  let ?n = "sint (tf_eax (tf (procs s ! p)))"
  have run: "syscall (s, env) = (case if ?n > 0 then map_of syscalls (nat ?n) else None of
       Some f \<Rightarrow> thn f (set_eax p) (s, env)
     | None \<Rightarrow> thn (upd (cprintf (lit ''%d %s: unknown sys call %d'' @ [10])
                [A_int (word_of_int (pid (procs s ! p))), proc_name (procs s ! p), A_int (word_of_int ?n)])) (\<lambda>_. set_eax p (-1)) (s, env))"
    using assms(1) by (simp add: syscall_def thn_proc_run Let_def split: option.splits)
  have dist: "distinct (map fst (syscalls :: (nat \<times> ('a kernel_st_scheme, int) prog) list))" by (simp add: syscalls_def SYS_defs)
  have dom: "fst ` set (syscalls :: (nat \<times> ('a kernel_st_scheme, int) prog) list) = set [1..<22]"
    by (simp add: syscalls_def SYS_defs upt_rec eval_nat_numeral)
  show ?thesis
  proof (cases "1 \<le> ?n \<and> ?n \<le> 21")
    case True
    then have "nat ?n \<in> fst ` set (syscalls :: (nat \<times> ('a kernel_st_scheme, int) prog) list)" unfolding dom by auto
    then obtain f :: "('a kernel_st_scheme, int) prog" where f: "(nat ?n, f) \<in> set syscalls" by auto
    then have m: "map_of syscalls (nat ?n) = Some f" using dist by simp
    moreover have "g = f" if "(nat ?n, g) \<in> set syscalls" for g :: "('a kernel_st_scheme, int) prog"
      using map_of_is_SomeI [OF dist that] m by simp
    moreover have "syscall (s, env) = thn f (set_eax p) (s, env)" using run True m by simp
    ultimately show ?thesis unfolding Let_def if_P [OF True] using f by blast
  next
    case False
    then have "(if ?n > 0 then map_of (syscalls :: (nat \<times> ('a kernel_st_scheme, int) prog) list) (nat ?n) else None) = None"
      using dom by (auto simp: map_of_eq_None_iff)
    moreover have "prints (cprintf (lit ''%d %s: unknown sys call %d'' @ [10])
        [A_int (word_of_int (pid (procs s ! p))), proc_name (procs s ! p), A_int (word_of_int ?n)]) s"
      by (rule prints_cprintf' [OF assms(3)]) (simp add: lit_def proc_name_def)
    ultimately show ?thesis using False run
      by (auto simp: Let_def prints_def set_eax_def set_proc_def)
  qed
qed

section \<open>Killed processes\<close>

text \<open>\<open>marks s t\<close>: the same process is current, and whoever is marked killed stays so.\<close>

definition marks :: "'a proc_st_scheme \<Rightarrow> 'a proc_st_scheme \<Rightarrow> bool" where
  "marks s t \<longleftrightarrow> cur t = cur s \<and> list_all2 (\<lambda>q r. killed q \<longrightarrow> killed r) (procs s) (procs t)"

lemma marks_refl: "procs t = procs s \<Longrightarrow> cur t = cur s \<Longrightarrow> marks s t"
  by (simp add: marks_def list_all2_same)

lemma marks_trans: "marks s t \<Longrightarrow> marks t u \<Longrightarrow> marks s u"
  by (simp add: marks_def list_all2_conv_all_nth)

lemma marks_killed: "marks s t \<Longrightarrow> p < length (procs s) \<Longrightarrow> killed (procs s ! p) \<Longrightarrow> killed (procs t ! p)"
  by (auto simp: marks_def list_all2_conv_all_nth)

lemma marks_lock: "ensures (lock l s) (marks s)" "ensures (unlock l s) (marks s)"
  by (auto simp: ensures_iff lock_eq_Ok intro: marks_refl)

lemma marks_bnd: "ensures m (marks s) \<Longrightarrow> (\<And>t. marks s t \<Longrightarrow> ensures (f t) (marks t)) \<Longrightarrow> ensures (bnd m f) (marks s)"
  by (auto simp: ensures_iff res_simps intro: marks_trans)

lemma marks_wakeup: "ensures (wakeup ch s) (marks s)"
  by (auto simp: wakeup_def wakeup1_def ensures_iff res_simps marks_def list_all2_conv_all_nth)

lemma marks_consputc: "ensures (consputc c s) (marks s)"
  by (auto simp: ensures_iff intro: marks_refl dest: consputc_keeps)

lemma marks_consputs: "ensures (consputs xs s) (marks s)"
  by (induction xs arbitrary: s) (auto intro!: marks_bnd marks_consputc simp: marks_refl)

lemma marks_cprintf_loop:
  fixes s :: "'a cons_st_scheme"
  shows "ensures (cprintf_loop fmt args s) (marks s)"
proof (induction "length fmt" arbitrary: fmt args s rule: less_induct)
  case less
  have ih: "ensures (cprintf_loop f a u) (marks u)" if "length f < length fmt" for f a and u :: "'a cons_st_scheme"
    using less [of f a u] that by simp
  have seq: "ensures (bnd m (cprintf_loop f a)) (marks s)" if "ensures m (marks s)" "length f < length fmt" for f a m
    by (rule marks_bnd [OF that(1) ih [OF that(2)]])
  show ?case
  proof (cases fmt)
    case (Cons c rest)
    note m = marks_consputc marks_consputs
    have two: "ensures (bnd (consputc 37 s) (\<lambda>u. bnd (consputc (uint d) u) (cprintf_loop f a))) (marks s)"
      if "length f < length fmt" for d f a
      by (rule marks_bnd [OF m(1) marks_bnd [OF m(1) ih [OF that]]])
    show ?thesis
    proof (cases "c = 37")
      case True
      show ?thesis
      proof (cases rest)
        case (Cons d f)
        then have l: "length f < length fmt" using \<open>fmt = c # rest\<close> by simp
        show ?thesis unfolding \<open>fmt = c # rest\<close> Cons True
          using seq [OF m(1) l] seq [OF m(2) l] two [OF l]
          by (auto simp: printint_def split: list.split fmt_arg.split)
      qed (simp add: Cons True marks_refl)
    qed (use Cons seq [OF m(1), of rest] in simp)
  qed (simp add: marks_refl)
qed

lemma marks_cprintf: "ensures (cprintf fmt args s) (marks s)"
  by (auto simp: cprintf_def intro!: marks_bnd marks_lock marks_cprintf_loop)

lemma marks_print_pcs: "ensures (print_pcs pcs s) (marks s)"
  by (induction pcs arbitrary: s) (auto intro!: marks_bnd marks_cprintf simp: marks_refl)

lemma marks_procdump: "ensures (procdump_loop ps s) (marks s)"
  by (induction ps arbitrary: s) (auto simp: procdump_one_def marks_refl intro!: marks_bnd marks_cprintf marks_print_pcs)

lemma marks_pre: "procs u = procs s \<Longrightarrow> cur u = cur s \<Longrightarrow> ensures m (marks u) \<Longrightarrow> ensures m (marks s)"
  by (auto simp: marks_def ensures_iff)

lemma marks_kill_line:
  fixes s :: "'a cons_st_scheme"
  shows "ensures (kill_line s) (marks s)"
proof (induction s rule: kill_line.induct)
  case (1 s)
  show ?case
  proof (subst kill_line.simps, simp add: marks_refl, intro impI)
    assume c: "in_e s \<noteq> in_w s \<and> in_buf s ! (unat (in_e s - 1) mod INPUT_BUF) \<noteq> 10"
    let ?m = "consputc BACKSPACE (s\<lparr>in_e := in_e s - 1\<rparr>)"
    have "ensures ?m (marks s)" by (rule marks_pre [OF _ _ marks_consputc]) simp_all
    then show "ensures (bnd ?m kill_line) (marks s)"
      using 1 [OF c] by (auto simp: ensures_iff res_simps intro: marks_trans)
  qed
qed

lemma marks_console_char: "ensures (console_char c s) (marks s)"
proof -
  have w: "ensures (wakeup Ch_input (t\<lparr>in_w := v\<rparr>)) (marks t)" for t :: "'a cons_st_scheme" and v
    by (rule marks_pre [OF _ _ marks_wakeup]) simp_all
  have p: "ensures (consputc d (input_put b s)) (marks s)" for d b
    by (rule marks_pre [OF _ _ marks_consputc]) (simp_all add: input_put_def)
  have q: "ensures (consputc d (s\<lparr>in_e := v\<rparr>)) (marks s)" for d v
    by (rule marks_pre [OF _ _ marks_consputc]) simp_all
  show ?thesis
    by (auto simp: console_char_def Let_def procdump_def marks_refl intro!: marks_bnd w p q marks_procdump marks_kill_line)
qed

lemma marks_intr_loop:
  fixes s :: "'a cons_st_scheme"
  assumes "\<And>u :: 'a cons_st_scheme. marks u (snd (getc u))"
  shows "ensures (intr_loop n getc s) (marks s)"
proof (induction n arbitrary: s)
  case (Suc n)
  obtain c u where g: "getc s = (c, u)" by fastforce
  have m: "marks s u" using assms [of s] g by simp
  have "ensures (bnd (console_char c u) (intr_loop n getc)) (marks u)"
    by (rule marks_bnd [OF marks_console_char Suc.IH])
  then show ?case using m by (auto simp: g ensures_iff intro: marks_trans)
qed simp

lemma marks_consoleintr:
  fixes s :: "'a cons_st_scheme"
  assumes "\<And>u :: 'a cons_st_scheme. marks u (snd (getc u))"
  shows "ensures (consoleintr n getc s) (marks s)"
  unfolding consoleintr_def by (intro marks_bnd marks_lock marks_intr_loop assms)

lemma marks_kbdintr: "ensures (kbdintr s) (marks s)" "ensures (uartintr s) (marks s)"
  unfolding kbdintr_def uartintr_def
  by (rule marks_consoleintr, auto simp: kbdgetc_def uartgetc_def marks_refl split: list.split prod.split)+

lemma marks_trap_switch: "ensures (trap_switch t (s, env)) (\<lambda>(_, s', _). marks s s')"
proof -
  have u: "ensures (upd f (s, env)) (\<lambda>(_, s', _). marks s s')" if "ensures (f s) (marks s)"
    for f :: "'a kernel_st_scheme \<Rightarrow> 'a kernel_st_scheme res"
    using that by (auto simp: ensures_iff res_simps)
  have tick: "ensures (timer_tick (s, env)) (\<lambda>(_, s', _). marks s s')"
  proof -
    have "ensures (bnd (lock L_ticks s) (\<lambda>s. bnd (wakeup Ch_ticks (s\<lparr>ticks := ticks s + 1\<rparr>)) (unlock L_ticks))) (marks s)"
    proof (rule marks_bnd [OF marks_lock(1)], rule marks_bnd)
      fix t :: "'a kernel_st_scheme"
      show "ensures (wakeup Ch_ticks (t\<lparr>ticks := ticks t + 1\<rparr>)) (marks t)" by (rule marks_pre [OF _ _ marks_wakeup]) simp_all
    qed (rule marks_lock)
    then show ?thesis by (auto simp: timer_tick_def ensures_iff res_simps)
  qed
  have kill: "ensures (thn (the_proc p) (\<lambda>q. thn (upd (cprintf fmt (args q))) (\<lambda>_. set_proc p (\<lambda>q. q\<lparr>killed := True\<rparr>))) (s, env))
    (\<lambda>(_, s', _). marks s s')" for p fmt args
  proof -
    have "marks u (upd_proc p (\<lambda>q. q\<lparr>killed := True\<rparr>) u)" for u :: "'a kernel_st_scheme"
      by (auto simp: marks_def procs_upd_proc intro!: list_all2_upd)
    then show ?thesis using marks_cprintf [of fmt "args (procs s ! p)" s]
      by (auto simp: thn_proc_run set_proc_def ensures_iff res_simps intro: marks_trans)
  qed
  have die: "ensures (bnd m (\<lambda>_. Panic e)) Q" for m :: "'a kernel_st_scheme res" and e and Q :: "unit \<times> 'a kernel_st_scheme \<times> 'a kernel_st_scheme env \<Rightarrow> bool"
    by (cases m) auto
  show ?thesis
    by (auto simp: trap_switch_def whenp_def marks_refl thn_assoc
        intro!: u [simplified] marks_kbdintr marks_cprintf tick kill die split: option.split)
qed

lemma exit_no_return: "exit w \<noteq> Ok v" "thn exit f w \<noteq> Ok u"
proof -
  show e: "exit w \<noteq> Ok v" for v by (auto simp: exit_def thn_def res_simps)
  then show "thn exit f w \<noteq> Ok u" by (auto simp: thn_def res_simps)
qed

text \<open>C33: a process that has been killed does not get back to user code: a system call, or an interrupt or fault
  that comes while it runs user code, never returns to it, whatever else happens during the trap.\<close>

theorem killed_process_never_resumes:
  assumes "cur s = Some p" "p < length (procs s)" "killed (procs s ! p)" "tf_trapno t = T_SYSCALL \<or> tf_cs t AND 3 = 3"
  shows "trap t (s, env) \<noteq> Ok v"
proof (cases "tf_trapno t = T_SYSCALL")
  case True
  then show ?thesis using assms(1,3) by (simp add: trap_def thn_proc_run exit_no_return)
next
  case False
  have "thn (exit_if_killed t) f (u, e) \<noteq> Ok v" if "marks s u" for f :: "unit \<Rightarrow> ('a kernel_st_scheme, unit) prog" and u e
  proof -
    have "cur u = Some p" "killed (procs u ! p)" using that assms(1) marks_killed [OF that assms(2,3)] by (auto simp: marks_def)
    then show ?thesis using assms(4) False by (simp add: exit_if_killed_def thn_assoc DPL_USER_def exit_no_return)
  qed
  then show ?thesis using False marks_trap_switch [of t s env]
    by (auto simp: trap_def thn_def [of "trap_switch t"] res_simps ensures_iff)
qed

section \<open>Sleeping for a time\<close>

text \<open>What the rest of the machine does between two looks at the clock: exactly one tick, which makes the process
  runnable, and nobody kills it.\<close>

definition one_tick :: "nat \<Rightarrow> ('a proc_st_scheme \<Rightarrow> 'a proc_st_scheme) \<Rightarrow> bool" where
  "one_tick p e \<longleftrightarrow> (\<forall>u. p < length (procs u) \<longrightarrow> ticks (e u) = ticks u + 1 \<and> length (procs (e u)) = length (procs u) \<and>
     pstate (procs (e u) ! p) = RUNNABLE \<and> pgdir (procs (e u) ! p) \<noteq> 0 \<and> \<not> killed (procs (e u) ! p))"

definition asleep_ready :: "nat \<Rightarrow> 'a proc_st_scheme \<Rightarrow> bool" where
  "asleep_ready p s \<longleftrightarrow> cur s = Some p \<and> held s = [L_ticks] \<and> p < length (procs s) \<and> \<not> killed (procs s ! p)"

lemma dispatch_ok:
  assumes "p < length (procs s)" "pgdir (procs s ! p) \<noteq> 0"
  shows "\<exists>t. dispatch p s = Ok t \<and> ticks t = ticks s \<and> held t = held s \<and> cur t = Some p \<and>
    length (procs t) = length (procs s) \<and> killed (procs t ! p) = killed (procs s ! p)"
  using assms by (auto simp: dispatch_def switchuvm_def with_cur_def Let_def upd_proc_def)

lemma sleep_one_tick:
  assumes "asleep_ready p s" "one_tick p e"
  shows "\<exists>t. sleep_on Ch_ticks L_ticks (s, e # env) = Ok ((), t, env) \<and> asleep_ready p t \<and> ticks t = ticks s + 1"
proof -
  let ?s = "upd_proc p (\<lambda>q. q\<lparr>pchan := Some Ch_ticks, pstate := SLEEPING\<rparr>) (s\<lparr>held := [L_ptable]\<rparr>)"
  let ?e = "(e ?s)\<lparr>held := [L_ptable]\<rparr>"
  note a = assms(1) [unfolded asleep_ready_def]
  then have e: "ticks (e ?s) = ticks ?s + 1" "length (procs (e ?s)) = length (procs ?s)" "pstate (procs (e ?s) ! p) = RUNNABLE"
    "pgdir (procs (e ?s) ! p) \<noteq> 0" "\<not> killed (procs (e ?s) ! p)" using assms(2) [unfolded one_tick_def, rule_format, of ?s] by simp_all
  obtain t where t: "dispatch p ?e = Ok t" "ticks t = ticks ?e" "held t = [L_ptable]" "cur t = Some p"
    "length (procs t) = length (procs ?e)" "killed (procs t ! p) = killed (procs ?e ! p)"
    using dispatch_ok [of p ?e] a e by auto
  have "sched ?s (e # env) = Ok (t, env)" using a e t(1) by (simp add: sched_def with_cur_def Let_def procs_upd_proc)
  then have "sleep_on Ch_ticks L_ticks (s, e # env) =
      Ok ((), (upd_proc p (\<lambda>q. q\<lparr>pchan := None\<rparr>) t)\<lparr>held := [L_ticks]\<rparr>, env)"
    using a t(3) by (simp add: sleep_on_def sleep_def Let_def)
  moreover have "ticks ?s = ticks s" by (simp add: upd_proc_def)
  ultimately show ?thesis using a e t by (auto simp: asleep_ready_def procs_upd_proc upd_proc_def)
qed

lemma unat_suc: "Suc (unat x) < 2 ^ 32 \<Longrightarrow> unat (x + 1) = Suc (unat x)" for x :: u32
  by (simp add: unat_word_ariths)

lemma sleep_loop_ticks:
  assumes "asleep_ready p s" "\<forall>e\<in>set env. one_tick p e" "unat n - unat (ticks s - t0) \<le> length env" "unat (ticks s - t0) \<le> unat n"
  shows "\<exists>t. sleep_loop t0 n (s, env) = Ok (0, t, drop (unat n - unat (ticks s - t0)) env) \<and> ticks t = t0 + n \<and> held t = []"
  using assms
proof (induction env arbitrary: s)
  case Nil
  then have "ticks s - t0 = n" by (simp add: word_eq_iff_unsigned word_unat_eq_iff)
  then have "ticks s = t0 + n" by (simp add: algebra_simps)
  with Nil show ?case by (auto simp: sleep_loop.simps [of t0 n "(s, [])"] asleep_ready_def)
next
  case (Cons e env)
  show ?case
  proof (cases "ticks s - t0 = n")
    case True
    then have "ticks s = t0 + n" by (simp add: algebra_simps)
    with Cons.prems show ?thesis by (auto simp: sleep_loop.simps [of t0 n "(s, e # env)"] asleep_ready_def)
  next
    case False
    then have lt: "ticks s - t0 < n" using Cons.prems(4) by (simp add: word_less_nat_alt word_unat_eq_iff le_neq_implies_less)
    obtain t where t: "sleep_on Ch_ticks L_ticks (s, e # env) = Ok ((), t, env)" "asleep_ready p t" "ticks t = ticks s + 1"
      using sleep_one_tick [OF Cons.prems(1), of e env] Cons.prems(2) by auto
    have u: "unat (ticks t - t0) = Suc (unat (ticks s - t0))"
    proof -
      have eq: "ticks t - t0 = (ticks s - t0) + 1" using t(3) by simp
      have "Suc (unat (ticks s - t0)) \<le> unat n" using lt by (simp add: word_less_nat_alt Suc_le_eq)
      then have "Suc (unat (ticks s - t0)) < 2 ^ 32" using unsigned_less [of n, where 'a = nat] by simp
      then show ?thesis unfolding eq by (rule unat_suc)
    qed
    have "sleep_loop t0 n (s, e # env) = sleep_loop t0 n (t, env)"
      using lt Cons.prems(1) t(1) by (subst sleep_loop.simps)
        (simp add: asleep_ready_def with_cur_def thn_eq [of "sleep_on Ch_ticks L_ticks" "(s, e # env)"])
    moreover have "unat (ticks s - t0) < unat n" using lt by (simp add: word_less_nat_alt)
    ultimately show ?thesis using Cons.IH [OF t(2)] Cons.prems(2,3) u by (auto simp: Suc_diff_Suc [symmetric])
  qed
qed

text \<open>C34: \<open>sleep(n)\<close> ends: when the clock ticks at least \<open>n\<close> times (once per time the process is off the CPU) and nobody
  kills the process, the call returns 0 after exactly \<open>n\<close> ticks, even if the clock wraps around meanwhile,
  and leaves no lock held.\<close>

theorem sleep_returns_after_ticks:
  assumes "cur s = Some p" "held s = []" "p < length (procs s)" "\<not> killed (procs s ! p)" "argint 0 (s, env) = Ok (Some n, s, env)"
    "\<forall>e\<in>set env. one_tick p e" "unat n \<le> length env"
  shows "returns (sys_sleep (s, env)) (\<lambda>(r, t, env'). r = 0 \<and> ticks t = ticks s + n \<and> held t = [] \<and> env' = drop (unat n) env)"
proof -
  let ?s = "s\<lparr>held := [L_ticks]\<rparr>"
  have "asleep_ready p ?s" using assms(1-4) by (simp add: asleep_ready_def)
  from sleep_loop_ticks [OF this assms(6), of n "ticks s"] assms(7)
  obtain t where "sleep_loop (ticks s) n (?s, env) = Ok (0, t, drop (unat n) env)" "ticks t = ticks s + n" "held t = []" by auto
  then show ?thesis using assms(2) by (simp add: sys_sleep_def thn_eq [of "argint 0" "(s, env)", OF assms(5)])
qed

section \<open>Shrinking to nothing\<close>

lemma deallocuvm_loop_procs:
  fixes s :: "'a proc_st_scheme"
  assumes "deallocuvm_loop d n a s = Ok t"
  shows "procs t = procs s \<and> cur t = cur s"
  using deallocuvm_loop_more [of d n a s] more_procs [of t s] assms by (simp add: ensures_iff)

text \<open>\<open>sbrk\<close> cannot give back the whole memory of a process: when the decrement equals the size, \<open>growproc\<close> frees
  every page and then takes the new size 0 for a failure; the call returns -1 and the process keeps its old
  size with no memory behind it.\<close>

theorem growproc_to_zero_fails:
  assumes "cur s = Some p" "0 < sint (sz (procs s ! p))" "deallocuvm_loop (pgdir (procs s ! p)) (unat (sz (procs s ! p))) 0 s = Ok t"
  shows "growproc (- sint (sz (procs s ! p))) (s, env) = Ok (-1, t, env) \<and> sz (procs t ! p) = sz (procs s ! p)"
proof -
  let ?z = "sz (procs s ! p)"
  have z: "?z + word_of_int (- sint ?z) = 0" by simp
  have "0 < ?z" using assms(2) by (metis less_irrefl sint_0 word_gt_0)
  then have "deallocuvm (pgdir (procs s ! p)) ?z 0 s = Ok (0, t)"
    using assms(3) by (simp add: deallocuvm_def PGROUNDUP_def PGSIZE_def)
  then show ?thesis using assms(1,2) z deallocuvm_loop_procs [OF assms(3)]
    by (simp add: growproc_def thn_proc_run)
qed

section \<open>Examples\<close>

text \<open>
  A process with one page of memory at physical address 0x402000, whose stack pointer is 0
  and whose first two arguments are 16 and 5.
\<close>

definition user_mem :: memory where
  "user_mem a = (if a = 0x80400000 then 7 else if a = 0x80400001 then 0x10 else if a = 0x80400002 then 0x40
     else if a = 0x80401000 then 7 else if a = 0x80401001 then 0x20 else if a = 0x80401002 then 0x40
     else if a = 0x80402004 then 16 else if a = 0x80402008 then 5 else 0)"

definition user_demo :: "proc \<Rightarrow> kernel_st" where
  "user_demo q = (demo_kernel (demo_table[1 := q]))\<lparr>mem := user_mem, cr3 := 0x400000\<rparr>"

definition user_proc :: proc where
  "user_proc = (demo_proc 0 20)\<lparr>pid := 2, pstate := RUNNING, parent := Some 0, sz := 4096\<rparr>"

lemma user_demo_simps [simp]:
  "cur (user_demo q) = Some 1" "held (user_demo q) = []" "mem (user_demo q) = user_mem" "cr3 (user_demo q) = 0x400000"
  "length (procs (user_demo q)) = NPROC" "procs (user_demo q) ! Suc 0 = q"
  by (simp_all add: user_demo_def demo_table_nth(4), simp add: demo_table_def NPROC_def)

lemma user_proc_simps [simp]:
  "sz user_proc = 4096" "tf_esp (tf user_proc) = 0" "tf_eax (tf user_proc) = 0" "\<not> killed user_proc" "pgdir user_proc = 0x80400000"
  by (simp_all add: user_proc_def demo_proc_def unused_proc_def zero_trapframe_def)

lemma user_mem_walk:
  "hw_walk user_mem 0x80400000 4 = Some 0x80402004" "hw_walk user_mem 0x80400000 5 = Some 0x80402005"
  "hw_walk user_mem 0x80400000 6 = Some 0x80402006" "hw_walk user_mem 0x80400000 7 = Some 0x80402007"
  by code_simp+

lemma user_demo_arg0: "argint 0 (user_demo user_proc, env) = Ok (Some 16, user_demo user_proc, env)"
proof -
  have v: "p2v 0x400000 = 0x80400000" by code_simp
  have four: "(4 :: nat) = Suc (Suc (Suc (Suc 0)))" by simp
  have l: "load_user 4 4 (user_demo user_proc) = Ok [16, 0, 0, 0]"
    unfolding four using user_mem_walk by (simp add: v) (simp add: user_mem_def)
  have "rd32 [16, 0, 0, 0] 0 = 16" by code_simp
  then show ?thesis
    by (simp add: argint_def fetchint_def thn_proc_run l)
qed

lemma seginit_segments_witness:
  "sd_dpl (seginit 0x80112000 (replicate NSEGS (SEG 0 0 0 0)) ! 4) = 3 \<and>
   seg_base (seginit 0x80112000 (replicate NSEGS (SEG 0 0 0 0)) ! 3) = 0x80112000"
proof -
  have "length (replicate NSEGS (SEG 0 0 0 0)) = NSEGS" by simp
  from seginit_segments [OF this, of "0x80112000"] show ?thesis by (simp add: Let_def)
qed

lemma tvinit_gates_witness:
  "gd_dpl (tvinit (replicate 256 0x80105000) ! 64) = 3 \<and> gd_dpl (tvinit (replicate 256 0x80105000) ! 14) = 0 \<and>
   gate_offset (tvinit (replicate 256 0x80105000) ! 14) = 0x80105000"
proof -
  have "(64 :: nat) < 256" "(14 :: nat) < 256" by simp_all
  with tvinit_gates [of "replicate 256 0x80105000"] show ?thesis by (auto simp: Let_def)
qed

lemma argptr_checks_range_witness:
  "argptr 0 100 (user_demo user_proc, []) = Ok (Some 16, user_demo user_proc, []) \<and>
   argptr 0 4096 (user_demo user_proc, []) = Ok (None, user_demo user_proc, [])"
proof -
  have "cur (user_demo user_proc) = Some 1" "sz (procs (user_demo user_proc) ! 1) \<le> KERNBASE"
    by (simp_all add: KERNBASE_def)
  note r = argptr_checks_range [OF this _ user_demo_arg0]
  have "0 \<le> sint (100 :: u32)" "0 \<le> sint (4096 :: u32)" by simp_all
  from r [OF this(1)] r [OF this(2)] show ?thesis by simp
qed

theorem argptr_negative_size_accepted_witness:
  "argptr 0 0xffffffff (user_demo user_proc, []) = Ok (Some 16, user_demo user_proc, [])"
proof -
  have "cur (user_demo user_proc) = Some 1" "16 < sz (procs (user_demo user_proc) ! 1)" "sint (0xffffffff :: u32) < 0"
    "- (0xffffffff :: u32) \<le> 16" by simp_all
  from argptr_negative_size_accepted [OF this(1) user_demo_arg0 this(2-4)] show ?thesis .
qed

lemma syscall_dispatch_witness:
  "returns (syscall (user_demo user_proc, [])) (\<lambda>(_, t, _). tf_eax (tf (procs t ! 1)) = -1)"
proof -
  have "cons_free (user_demo user_proc)"
    by (simp add: cons_free_def screen_ok_def user_demo_def demo_kernel_def file_st.defs kernel_st.defs demo_file_def vm_st.defs
        fs_st.defs cons_st.defs log_st.defs demo_log_def cold_def binit_def ideinit_def disk_st.defs demo_disk_def demo_st_def proc_st.defs)
  moreover have "cur (user_demo user_proc) = Some 1" "1 < length (procs (user_demo user_proc))" by (simp_all add: NPROC_def)
  ultimately show ?thesis
    using syscall_dispatch [of "user_demo user_proc" 1 "[]"]
    by (auto simp: Let_def procs_upd_proc NPROC_def elim!: returns_mono dest: same_but_screenD)
qed

theorem killed_process_never_resumes_witness:
  "(\<forall>v. trap (zero_trapframe\<lparr>tf_trapno := T_SYSCALL\<rparr>) (user_demo (user_proc\<lparr>killed := True\<rparr>), []) \<noteq> Ok v) \<and>
   (\<forall>v. trap (zero_trapframe\<lparr>tf_trapno := 14, tf_cs := 0x23\<rparr>) (user_demo (user_proc\<lparr>killed := True\<rparr>), []) \<noteq> Ok v)"
proof -
  let ?s = "user_demo (user_proc\<lparr>killed := True\<rparr>)"
  have "cur ?s = Some 1" "1 < length (procs ?s)" "killed (procs ?s ! 1)" by (simp_all add: NPROC_def)
  from killed_process_never_resumes [OF this] show ?thesis by simp
qed

theorem sleep_returns_after_ticks_witness:
  "let e = (\<lambda>u. u\<lparr>ticks := ticks u + 1, procs := (procs u)[1 := (procs u ! 1)\<lparr>pstate := RUNNABLE, pgdir := 0x80400000, killed := False\<rparr>]\<rparr>) in
   returns (sys_sleep (user_demo user_proc, replicate 20 e)) (\<lambda>(r, t, env'). r = 0 \<and> ticks t = ticks (user_demo user_proc) + 16 \<and> length env' = 4)"
proof -
  let ?e = "\<lambda>u :: kernel_st. u\<lparr>ticks := ticks u + 1, procs := (procs u)[1 := (procs u ! 1)\<lparr>pstate := RUNNABLE, pgdir := 0x80400000, killed := False\<rparr>]\<rparr>"
  have "one_tick 1 ?e" by (simp add: one_tick_def)
  then have "cur (user_demo user_proc) = Some 1" "held (user_demo user_proc) = []" "1 < length (procs (user_demo user_proc))"
    "\<not> killed (procs (user_demo user_proc) ! 1)" "\<forall>e\<in>set (replicate 20 ?e). one_tick 1 e" "unat (16 :: u32) \<le> length (replicate 20 ?e)"
    by (simp_all add: NPROC_def)
  from sleep_returns_after_ticks [OF this(1-4) user_demo_arg0 this(5,6)] show ?thesis by (auto simp: Let_def elim!: returns_mono)
qed

theorem growproc_to_zero_fails_witness:
  "growproc (-4096) (demo_kernel (demo_table[1 := user_proc]), []) = Ok (-1, demo_kernel (demo_table[1 := user_proc]), []) \<and>
   sz (procs (demo_kernel (demo_table[1 := user_proc])) ! 1) = 4096"
proof -
  let ?s = "demo_kernel (demo_table[1 := user_proc])"
  have p: "procs ?s ! 1 = user_proc" by (simp add: demo_table_def NPROC_def)
  have m: "mem (demo_kernel ps) = (\<lambda>_. 0)" for ps
    by (simp add: demo_kernel_def file_st.defs kernel_st.defs demo_file_def vm_st.defs fs_st.defs cons_st.defs log_st.defs
        demo_log_def cold_def binit_def ideinit_def disk_st.defs demo_disk_def demo_st_def proc_st.defs)
  have "load32 (\<lambda>_. 0) a = 0" for a by (simp add: load32_def mk32_def)
  then have "walkpgdir d a False ?s = Ok (0, ?s)" for d a by (simp add: walkpgdir_def m Let_def)
  then have "deallocuvm_loop (pgdir (procs ?s ! 1)) (unat (sz (procs ?s ! 1))) 0 ?s = Ok ?s"
    unfolding p by (simp add: deallocuvm_loop.simps NPTENTRIES_def)
  moreover have "cur ?s = Some 1" "0 < sint (sz (procs ?s ! 1))" unfolding p by simp_all
  ultimately show ?thesis using growproc_to_zero_fails [of ?s 1 ?s "[]"] by (simp only: p user_proc_simps) simp
qed

end
