(* ===== verification/Ulib.thy ===== *)
theory Ulib
  imports Console "HOL-Library.Monad_Syntax"
begin

text \<open>
  The library of user programs: \<open>ulib.c\<close> (strings, \<open>gets\<close>, \<open>atoi\<close>) and \<open>printf.c\<close>. A loop that
  runs until it meets a NUL byte is a partial function on memory: \<open>None\<close> says that it runs
  forever, round the address space. Functions that only read a string take the
  list of its bytes before the NUL.
\<close>

section \<open>Strings\<close>

partial_function (option) strcpy :: "memory \<Rightarrow> u32 \<Rightarrow> u32 \<Rightarrow> memory option" where
  "strcpy m s t =
     (let m' = m(s := m t) in if m t \<noteq> 0 then strcpy m' (s + 1) (t + 1) else Some m')"

fun strcmp :: "byte list \<Rightarrow> byte list \<Rightarrow> int" where
  "strcmp [] [] = 0"
| "strcmp [] (d # q) = 0 - uint d"
| "strcmp (c # p) [] = uint c"
| "strcmp (c # p) (d # q) = (if c = d then strcmp p q else uint c - uint d)"

partial_function (option) strchr :: "memory \<Rightarrow> u32 \<Rightarrow> byte \<Rightarrow> u32 option option" where
  "strchr m s c =
     (if m s \<noteq> 0 then if m s = c then Some (Some s) else strchr m (s + 1) c else Some None)"

definition umemmove :: "memory \<Rightarrow> u32 \<Rightarrow> u32 \<Rightarrow> int \<Rightarrow> memory" where
  "umemmove m dst src n = (if n > 0 then move_up m dst src (nat n) else m)"

definition umemset :: "memory \<Rightarrow> u32 \<Rightarrow> u32 \<Rightarrow> u32 \<Rightarrow> memory" where
  "umemset m dst c n = stosb m dst (ucast c) (unat n)"

text \<open>
  \<open>gets(buf, max)\<close> reads a line byte by byte from file descriptor 0; \<open>rd\<close> is \<open>read(0, &c, 1)\<close>,
  with \<open>None\<close> for a result below 1. The result is what \<open>buf\<close> holds up to and including the NUL.
\<close>

fun gets_loop :: "('f \<Rightarrow> byte option \<times> 'f) \<Rightarrow> nat \<Rightarrow> 'f \<Rightarrow> byte list \<times> 'f" where
  "gets_loop rd 0 f = ([], f)"
| "gets_loop rd (Suc k) f =
     (case rd f of
        (None, f) \<Rightarrow> ([], f)
      | (Some c, f) \<Rightarrow> if c = 10 \<or> c = 13 then ([c], f) else (let (bs, f) = gets_loop rd k f in (c # bs, f)))"

definition ugets :: "('f \<Rightarrow> byte option \<times> 'f) \<Rightarrow> int \<Rightarrow> 'f \<Rightarrow> byte list \<times> 'f" where
  "ugets rd mx f = (let (bs, f) = gets_loop rd (nat (mx - 1)) f in (bs @ [0], f))"

text \<open>\<open>atoi\<close> computes in 32-bit arithmetic.\<close>

fun atoi_from :: "u32 \<Rightarrow> byte list \<Rightarrow> u32" where
  "atoi_from n [] = n"
| "atoi_from n (c # s) = (if 48 \<le> c \<and> c \<le> 57 then atoi_from (n * 10 + ucast c - 48) s else n)"

definition atoi :: "byte list \<Rightarrow> u32" where
  "atoi s = atoi_from 0 s"

section \<open>printf\<close>

text \<open>The characters that \<open>printint\<close> hands to \<open>putc\<close>, in their order.\<close>

definition uprintint :: "u32 \<Rightarrow> nat \<Rightarrow> bool \<Rightarrow> byte list" where
  "uprintint xx base sg = map of_int (int_chars 65 xx base sg)"

text \<open>
  The bytes that \<open>printf\<close> writes, one \<open>write\<close> each; the first argument says whether the last
  character was a \<open>%\<close>.
\<close>

fun printf_loop :: "bool \<Rightarrow> byte list \<Rightarrow> fmt_arg list \<Rightarrow> byte list option" where
  "printf_loop pc [] args = Some []"
| "printf_loop pc (c # fmt) args =
     (if \<not> pc then
        if c = 37 then printf_loop True fmt args else map_option (Cons c) (printf_loop False fmt args)
      else if c = 100 then
        (case args of A_int n # args \<Rightarrow> map_option (append (uprintint n 10 True)) (printf_loop False fmt args) | _ \<Rightarrow> None)
      else if c = 120 \<or> c = 112 then
        (case args of A_int n # args \<Rightarrow> map_option (append (uprintint n 16 False)) (printf_loop False fmt args) | _ \<Rightarrow> None)
      else if c = 115 then
        (case args of A_str p # args \<Rightarrow>
           map_option (append (case p of None \<Rightarrow> null_str | Some t \<Rightarrow> t)) (printf_loop False fmt args) | _ \<Rightarrow> None)
      else if c = 99 then
        (case args of A_int n # args \<Rightarrow> map_option (Cons (ucast n)) (printf_loop False fmt args) | _ \<Rightarrow> None)
      else if c = 37 then map_option (Cons c) (printf_loop False fmt args)
      else map_option (append [37, c]) (printf_loop False fmt args))"

definition printf :: "byte list \<Rightarrow> fmt_arg list \<Rightarrow> byte list option" where
  "printf fmt args = printf_loop False fmt args"

section \<open>Searching memory\<close>

lemma strchr_finds:
  assumes "\<And>i. i < k \<Longrightarrow> m (p + of_nat i) \<noteq> 0 \<and> m (p + of_nat i) \<noteq> c" "m (p + of_nat k) = c" "c \<noteq> 0"
  shows "strchr m p c = Some (Some (p + of_nat k))"
  using assms
proof (induction k arbitrary: p)
  case 0
  then show ?case by (subst strchr.simps) simp
next
  case (Suc k)
  have "strchr m (p + 1) c = Some (Some (p + 1 + of_nat k))"
  proof (rule Suc.IH)
    show "m (p + 1 + of_nat i) \<noteq> 0 \<and> m (p + 1 + of_nat i) \<noteq> c" if "i < k" for i
      using Suc.prems(1) [of "Suc i"] that by (simp add: add.assoc)
  qed (use Suc.prems(2,3) in \<open>simp_all add: add.assoc\<close>)
  then show ?case using Suc.prems(1) [of 0] by (subst strchr.simps) (simp add: add.assoc)
qed

lemma strchr_fails:
  assumes "\<And>i. i < k \<Longrightarrow> m (p + of_nat i) \<noteq> 0 \<and> m (p + of_nat i) \<noteq> c" "m (p + of_nat k) = 0"
  shows "strchr m p c = Some None"
  using assms
proof (induction k arbitrary: p)
  case 0
  then show ?case by (subst strchr.simps) simp
next
  case (Suc k)
  have "strchr m (p + 1) c = Some None"
  proof (rule Suc.IH)
    show "m (p + 1 + of_nat i) \<noteq> 0 \<and> m (p + 1 + of_nat i) \<noteq> c" if "i < k" for i
      using Suc.prems(1) [of "Suc i"] that by (simp add: add.assoc)
  qed (use Suc.prems(2) in \<open>simp add: add.assoc\<close>)
  then show ?case using Suc.prems(1) [of 0] by (subst strchr.simps) simp
qed

section \<open>Printing and reading numbers\<close>

lemma rev_digits_length:
  assumes "x < base ^ Suc k" "2 \<le> base"
  shows "length (rev_digits base x) \<le> Suc k"
  using assms
proof (induction k arbitrary: x)
  case 0
  then show ?case by (subst rev_digits.simps) simp
next
  case (Suc k)
  have "x div base < base ^ Suc k" using Suc.prems by (simp add: less_mult_imp_div_less mult.commute)
  from Suc.IH [OF this Suc.prems(2)] show ?case by (subst rev_digits.simps) simp
qed

lemma rev_digits_less: "d \<in> set (rev_digits base x) \<Longrightarrow> 2 \<le> base \<Longrightarrow> d < base"
proof (induction base x rule: rev_digits.induct)
  case (1 base x)
  then show ?case by (subst (asm) (2) rev_digits.simps) (auto split: if_splits)
qed

lemma digit_byte:
  assumes "d < 10"
  shows "48 \<le> (of_nat (48 + d) :: byte)" "(of_nat (48 + d) :: byte) \<le> 57" "(ucast (of_nat (48 + d) :: byte) :: u32) = of_nat (48 + d)"
proof -
  have u: "unat (of_nat (48 + d) :: byte) = 48 + d" using assms by (simp add: unat_of_nat del: of_nat_add)
  then show "48 \<le> (of_nat (48 + d) :: byte)" "(of_nat (48 + d) :: byte) \<le> 57"
    using assms by (simp_all add: word_le_nat_alt del: of_nat_add)
  have "unat (ucast (of_nat (48 + d) :: byte) :: u32) = 48 + d"
    using assms by (simp add: unsigned_ucast_eq u take_bit_nat_eq_self del: of_nat_add)
  moreover have "unat (of_nat (48 + d) :: u32) = 48 + d" using assms by (intro unat_of_nat32) simp
  ultimately show "(ucast (of_nat (48 + d) :: byte) :: u32) = of_nat (48 + d)" by (metis word_eq_iff_unsigned)
qed

lemma atoi_digit: "d < 10 \<Longrightarrow> atoi_from n (of_nat (48 + d) # t) = atoi_from (n * 10 + of_nat d) t"
  using digit_byte [of d] by (simp del: of_nat_add) simp

lemma atoi_digits:
  "atoi_from 0 (map (\<lambda>d. of_nat (48 + d)) (rev (rev_digits 10 x)) @ t) = atoi_from (of_nat x) t"
proof (induction x arbitrary: t rule: less_induct)
  case (less x)
  let ?f = "\<lambda>d. of_nat (48 + d) :: byte"
  show ?case
  proof (cases "x div 10 = 0")
    case True
    then have "rev_digits 10 x = [x]" "x < 10" by (simp_all add: rev_digits.simps [of 10 x])
    then show ?thesis using atoi_digit [of x 0 t] by (simp del: of_nat_add)
  next
    case False
    have r: "rev_digits 10 x = x mod 10 # rev_digits 10 (x div 10)" using False by (simp add: rev_digits.simps [of 10 x])
    have "atoi_from 0 (map ?f (rev (rev_digits 10 (x div 10))) @ ?f (x mod 10) # t) =
        atoi_from (of_nat (x div 10)) (?f (x mod 10) # t)"
      using less.IH [of "x div 10"] False by simp
    also have "\<dots> = atoi_from (of_nat (x div 10) * 10 + of_nat (x mod 10)) t" by (rule atoi_digit) simp
    also have "(of_nat (x div 10) * 10 + of_nat (x mod 10) :: u32) = of_nat (x div 10 * 10 + x mod 10)"
      by (simp only: of_nat_add of_nat_mult of_nat_numeral)
    finally show ?thesis unfolding r by (simp del: of_nat_add)
  qed
qed

text \<open>The digits that \<open>printf\<close> prints for a number that is not negative are read back by \<open>atoi\<close> as that number,
  whatever follows that is not a digit; and no number needs more than 11 of the 16 bytes of \<open>printint\<close>'s buffer.\<close>

lemma atoi_of_printed:
  assumes "0 \<le> sint n" "t = [] \<or> \<not> (48 \<le> hd t \<and> hd t \<le> 57)" "base = 10 \<or> base = 16"
  shows "atoi (uprintint n 10 True @ t) = n \<and> length (uprintint xx base sg) \<le> 11"
proof

  have "digit_char 65 d = int (48 + d)" if "d \<in> set (rev_digits 10 (unat n))" for d
    using rev_digits_less [OF that] by (simp add: digit_char_def)
  then have "map (of_int \<circ> digit_char 65) (rev (rev_digits 10 (unat n))) = map (\<lambda>d. of_nat (48 + d) :: byte) (rev (rev_digits 10 (unat n)))"
    by (intro map_cong) (auto simp del: of_nat_add)
  then have "uprintint n 10 True = map (\<lambda>d. of_nat (48 + d)) (rev (rev_digits 10 (unat n)))"
    using assms(1) by (simp add: uprintint_def int_chars_def rev_map del: of_nat_add)
  then have "atoi (uprintint n 10 True @ t) = atoi_from n t" using atoi_digits [of "unat n" t] by (simp add: atoi_def)
  then show "atoi (uprintint n 10 True @ t) = n" using assms(2) by (cases t) auto
  have "length (rev_digits base (unat w)) \<le> 10" for w :: u32
    using rev_digits_length [of "unat w" base 9] assms(3) unat_word_less32 [of w] by auto
  from this [of xx] this [of "- xx"] show "length (uprintint xx base sg) \<le> 11"
    by (simp add: uprintint_def int_chars_def Let_def)
qed

lemma atoi_of_printed_witness:
  "atoi (uprintint 1984 10 True @ [32]) = 1984 \<and> length (uprintint 0xDEADBEEF 16 False) \<le> 11"
  using atoi_of_printed [of 1984 "[32]" 16 "0xDEADBEEF" False] by simp

end
