(* ===== verification/Grep.thy ===== *)
theory Grep
  imports Ulib
begin

text \<open>
  The user program \<open>grep.c\<close>: its regular expression matcher, proved equal to the language of
  the pattern, and its loop over the lines of a buffer. A C string argument is the list
  of its bytes before the NUL; the buffer is memory.
\<close>

section \<open>The matcher\<close>

text \<open>The bytes \<open>^\<close>, \<open>$\<close>, \<open>.\<close>, \<open>*\<close> and newline.\<close>

abbreviation "caret \<equiv> (94 :: byte)"
abbreviation "dollar \<equiv> (36 :: byte)"
abbreviation "dot \<equiv> (46 :: byte)"
abbreviation "star \<equiv> (42 :: byte)"
abbreviation "newline \<equiv> (10 :: byte)"

function matchhere :: "byte list \<Rightarrow> byte list \<Rightarrow> bool"
  and matchstar :: "byte \<Rightarrow> byte list \<Rightarrow> byte list \<Rightarrow> bool" where
  "matchhere [] str = True"
| "matchhere (c # r) str =
     (if r \<noteq> [] \<and> hd r = star then matchstar c (tl r) str
      else if c = dollar \<and> r = [] then str = []
      else if str \<noteq> [] \<and> (c = dot \<or> c = hd str) then matchhere r (tl str)
      else False)"
| "matchstar c re str =
     (if matchhere re str then True
      else if str \<noteq> [] \<and> (hd str = c \<or> c = dot) then matchstar c re (tl str)
      else False)"
  by pat_completeness auto
termination
  by (relation "measure (\<lambda>x. case x of Inl (re, t) \<Rightarrow> 2 * (length re + length t)
      | Inr (_, re, t) \<Rightarrow> 2 * (length re + length t) + 1)")
    (auto simp: neq_Nil_conv)

fun match_from :: "byte list \<Rightarrow> byte list \<Rightarrow> bool" where
  "match_from re [] = matchhere re []"
| "match_from re (x # str) = (matchhere re (x # str) \<or> match_from re str)"

definition match :: "byte list \<Rightarrow> byte list \<Rightarrow> bool" where
  "match re str = (if re \<noteq> [] \<and> hd re = caret then matchhere (tl re) str else match_from re str)"

section \<open>The language of a pattern\<close>

text \<open>
  A pattern is a sequence of items, a byte or a starred byte, with \<open>.\<close> for any byte; a \<open>$\<close> at
  the end asks for the end of the text.
\<close>

datatype item = One byte | Many byte

fun items :: "byte list \<Rightarrow> item list \<times> bool" where
  "items [] = ([], False)"
| "items [c] = (if c = dollar then ([], True) else ([One c], False))"
| "items (c # d # re) =
     (if d = star then apfst (Cons (Many c)) (items re) else apfst (Cons (One c)) (items (d # re)))"

definition fits :: "byte \<Rightarrow> byte \<Rightarrow> bool" where
  "fits c x \<longleftrightarrow> c = dot \<or> x = c"

fun lang :: "item list \<Rightarrow> byte list set" where
  "lang [] = {[]}"
| "lang (One c # is) = {x # u |x u. fits c x \<and> u \<in> lang is}"
| "lang (Many c # is) = {v @ u |v u. (\<forall>x\<in>set v. fits c x) \<and> u \<in> lang is}"

text \<open>A match that starts at the beginning of the text, and one that starts anywhere.\<close>

definition occurs_at :: "byte list \<Rightarrow> byte list \<Rightarrow> bool" where
  "occurs_at re str \<longleftrightarrow> (\<exists>u v. str = u @ v \<and> u \<in> lang (fst (items re)) \<and> (snd (items re) \<longrightarrow> v = []))"

definition occurs :: "byte list \<Rightarrow> byte list \<Rightarrow> bool" where
  "occurs re str \<longleftrightarrow> (if re \<noteq> [] \<and> hd re = caret then occurs_at (tl re) str
     else \<exists>w t. str = w @ t \<and> occurs_at re t)"

lemma occurs_at_Nil [simp]: "occurs_at [] str"
  by (auto simp: occurs_at_def)

lemma occurs_at_One:
  assumes "items re = apfst (Cons (One c)) (items r)"
  shows "occurs_at re str \<longleftrightarrow> str \<noteq> [] \<and> fits c (hd str) \<and> occurs_at r (tl str)"
proof -
  have i: "fst (items re) = One c # fst (items r)" "snd (items re) = snd (items r)" by (simp_all add: assms)
  show ?thesis
  proof
    assume "occurs_at re str"
    then obtain u v where uv: "str = u @ v" "u \<in> lang (One c # fst (items r))" "snd (items r) \<longrightarrow> v = []"
      unfolding occurs_at_def i by blast
    then obtain x u' where "u = x # u'" "fits c x" "u' \<in> lang (fst (items r))" by auto
    then show "str \<noteq> [] \<and> fits c (hd str) \<and> occurs_at r (tl str)" using uv by (auto simp: occurs_at_def)
  next
    assume a: "str \<noteq> [] \<and> fits c (hd str) \<and> occurs_at r (tl str)"
    then obtain u v where uv: "tl str = u @ v" "u \<in> lang (fst (items r))" "snd (items r) \<longrightarrow> v = []"
      unfolding occurs_at_def by blast
    have "str = (hd str # u) @ v" using a uv(1) by (cases str) auto
    moreover have "hd str # u \<in> lang (One c # fst (items r))" using a uv(2) by simp
    ultimately show "occurs_at re str" unfolding occurs_at_def i using uv(3) by blast
  qed
qed

lemma occurs_at_Many:
  assumes "items re = apfst (Cons (Many c)) (items r)"
  shows "occurs_at re str \<longleftrightarrow> (\<exists>v t. str = v @ t \<and> (\<forall>x\<in>set v. fits c x) \<and> occurs_at r t)"
proof -
  have i: "fst (items re) = Many c # fst (items r)" "snd (items re) = snd (items r)" by (simp_all add: assms)
  show ?thesis
  proof
    assume "occurs_at re str"
    then obtain u v where uv: "str = u @ v" "u \<in> lang (Many c # fst (items r))" "snd (items r) \<longrightarrow> v = []"
      unfolding occurs_at_def i by blast
    then obtain p u' where p: "u = p @ u'" "\<forall>x\<in>set p. fits c x" "u' \<in> lang (fst (items r))" by auto
    then have "occurs_at r (u' @ v)" unfolding occurs_at_def using uv(3) by blast
    then show "\<exists>v t. str = v @ t \<and> (\<forall>x\<in>set v. fits c x) \<and> occurs_at r t" using p uv(1) by auto
  next
    assume "\<exists>v t. str = v @ t \<and> (\<forall>x\<in>set v. fits c x) \<and> occurs_at r t"
    then obtain p u v where p: "str = p @ u @ v" "\<forall>x\<in>set p. fits c x" "u \<in> lang (fst (items r))" "snd (items r) \<longrightarrow> v = []"
      unfolding occurs_at_def by blast
    then have "p @ u \<in> lang (Many c # fst (items r))" by auto
    then show "occurs_at re str" unfolding occurs_at_def i using p by (metis append.assoc)
  qed
qed

definition run_then :: "byte \<Rightarrow> (byte list \<Rightarrow> bool) \<Rightarrow> byte list \<Rightarrow> bool" where
  "run_then c P str \<longleftrightarrow> (\<exists>v t. str = v @ t \<and> (\<forall>x\<in>set v. fits c x) \<and> P t)"

lemma run_then_unfold:
  "run_then c P str \<longleftrightarrow> P str \<or> str \<noteq> [] \<and> fits c (hd str) \<and> run_then c P (tl str)"
proof
  assume "run_then c P str"
  then obtain v t where v: "str = v @ t" "\<forall>x\<in>set v. fits c x" "P t" by (auto simp: run_then_def)
  show "P str \<or> str \<noteq> [] \<and> fits c (hd str) \<and> run_then c P (tl str)"
    by (cases v) (use v in \<open>auto simp: run_then_def\<close>)
next
  assume "P str \<or> str \<noteq> [] \<and> fits c (hd str) \<and> run_then c P (tl str)"
  then show "run_then c P str"
  proof
    assume "str \<noteq> [] \<and> fits c (hd str) \<and> run_then c P (tl str)"
    then obtain v t where "str = (hd str # v) @ t" "\<forall>x\<in>set (hd str # v). fits c x" "P t"
      by (cases str) (auto simp: run_then_def)
    then show ?thesis unfolding run_then_def by blast
  qed (force simp: run_then_def)
qed

lemma matcher_ok:
  "matchhere re str \<longleftrightarrow> occurs_at re str"
  "matchstar c re str \<longleftrightarrow> run_then c (occurs_at re) str"
proof (induction re str and c re str rule: matchhere_matchstar.induct)
  case (2 c r str)
  consider "r \<noteq> [] \<and> hd r = star" | "r = []" "c = dollar" | "items (c # r) = apfst (Cons (One c)) (items r)"
    "\<not> (r \<noteq> [] \<and> hd r = star)" "\<not> (c = dollar \<and> r = [])"
    by (cases r) auto
  then show ?case
  proof cases
    case 1
    then obtain r' where r: "r = star # r'" by (cases r) auto
    then have "items (c # r) = apfst (Cons (Many c)) (items r')" by simp
    from occurs_at_Many [OF this] show ?thesis using "2.IH"(1) [OF 1] r by (simp add: run_then_def)
  next
    case 2
    then show ?thesis by (auto simp: occurs_at_def)
  next
    case 3
    have "matchhere (c # r) str \<longleftrightarrow> str \<noteq> [] \<and> fits c (hd str) \<and> matchhere r (tl str)"
      unfolding matchhere.simps(2) fits_def using 3(2,3) by argo
    moreover have "matchhere r (tl str) = occurs_at r (tl str)" if "str \<noteq> []" "fits c (hd str)"
      by (rule "2.IH"(2) [OF 3(2,3)]) (use that in \<open>auto simp: fits_def\<close>)
    ultimately show ?thesis unfolding occurs_at_One [OF 3(1)] by blast
  qed
next
  case (3 c re str)
  have "matchstar c re str \<longleftrightarrow> matchhere re str \<or> str \<noteq> [] \<and> fits c (hd str) \<and> matchstar c re (tl str)"
    unfolding matchstar.simps [of c re str] fits_def by argo
  moreover have "matchstar c re (tl str) = run_then c (occurs_at re) (tl str)"
    if "\<not> matchhere re str" "str \<noteq> []" "fits c (hd str)"
    by (rule "3.IH"(2) [OF that(1)]) (use that in \<open>auto simp: fits_def\<close>)
  ultimately show ?case unfolding run_then_unfold [of c "occurs_at re" str] "3.IH"(1) by blast
qed simp

lemma match_from_ok: "match_from re str \<longleftrightarrow> (\<exists>w t. str = w @ t \<and> occurs_at re t)"
proof (induction str)
  case (Cons x str)
  have "(\<exists>w t. x # str = w @ t \<and> occurs_at re t) \<longleftrightarrow> occurs_at re (x # str) \<or> (\<exists>w t. str = w @ t \<and> occurs_at re t)"
    by (auto simp: Cons_eq_append_conv)
  then show ?case using Cons.IH by (simp add: matcher_ok(1))
qed (simp add: matcher_ok(1))

text \<open>C40: the matcher of \<open>grep\<close> decides exactly whether a word of the pattern's language occurs in the text, at its
  beginning for a pattern that starts with \<open>^\<close>, and up to its end for one that ends in \<open>$\<close>.\<close>

theorem match_is_regular_expression: "match re str \<longleftrightarrow> occurs re str"
  by (simp add: match_def occurs_def matcher_ok(1) match_from_ok)

section \<open>The lines of a file\<close>

text \<open>The string at an address, as \<open>match\<close> reads it.\<close>

partial_function (option) cstr :: "memory \<Rightarrow> u32 \<Rightarrow> byte list option" where
  "cstr m p = (if m p = 0 then Some [] else Option.bind (cstr m (p + 1)) (\<lambda>s. Some (m p # s)))"

text \<open>The inner loop: the lines that the buffer holds from \<open>p\<close> on, with what has been written so far.\<close>

partial_function (option) grep_lines ::
  "byte list \<Rightarrow> memory \<Rightarrow> u32 \<Rightarrow> byte list \<Rightarrow> (memory \<times> u32 \<times> byte list) option" where
  "grep_lines pattern m p out =
     Option.bind (strchr m p newline) (\<lambda>q.
     case q of
       None \<Rightarrow> Some (m, p, out)
     | Some q \<Rightarrow>
         Option.bind (cstr (m(q := 0)) p) (\<lambda>line.
         if match pattern line then
           grep_lines pattern (m(q := newline)) (q + 1)
             (out @ map (\<lambda>i. (m(q := newline)) (p + of_nat i)) [0..<unat (q + 1 - p)])
         else grep_lines pattern (m(q := 0)) (q + 1) out))"

text \<open>
  \<open>read(fd, buf + m, sizeof(buf) - m)\<close> is the argument \<open>rd\<close>: the bytes it returns, none at the end of
  the file and on an error, and the state of the file after it. \<open>m\<close> and the pointer difference are C \<open>int\<close>s.
\<close>

partial_function (option) grep_loop ::
  "(int \<Rightarrow> 'f \<Rightarrow> byte list \<times> 'f) \<Rightarrow> byte list \<Rightarrow> u32 \<Rightarrow> memory \<Rightarrow> int \<Rightarrow> 'f \<Rightarrow> byte list \<Rightarrow> (memory \<times> byte list) option" where
  "grep_loop rd pattern buf a m f out =
     (let (bs, f) = rd (1024 - m) f in
      if bs = [] then Some (a, out)
      else
        let a = fold (\<lambda>i a. a(buf + of_int m + of_nat i := bs ! i)) [0..<length bs] a;
            m = m + int (length bs) in
        Option.bind (grep_lines pattern a buf out) (\<lambda>(a, p, out).
        let m = (if p = buf then 0 else m) in
        if m > 0 then
          let m = m - sint (p - buf) in
          grep_loop rd pattern buf (umemmove a buf p m) m f out
        else grep_loop rd pattern buf a m f out))"

definition grep :: "(int \<Rightarrow> 'f \<Rightarrow> byte list \<times> 'f) \<Rightarrow> byte list \<Rightarrow> u32 \<Rightarrow> memory \<Rightarrow> 'f \<Rightarrow> (memory \<times> byte list) option" where
  "grep rd pattern buf a f = grep_loop rd pattern buf a 0 f []"

text \<open>The complete lines of a text, without their newlines, and the selection that \<open>grep\<close> is to make.\<close>

fun lines :: "byte list \<Rightarrow> byte list list" where
  "lines [] = []"
| "lines (c # str) =
     (if c = newline then [] # lines str
      else case lines str of [] \<Rightarrow> [] | l # ls \<Rightarrow> (c # l) # ls)"

definition selected :: "byte list \<Rightarrow> byte list \<Rightarrow> byte list" where
  "selected pattern str = concat (map (\<lambda>l. l @ [newline]) (filter (match pattern) (lines str)))"

definition holds :: "memory \<Rightarrow> u32 \<Rightarrow> byte list \<Rightarrow> bool" where
  "holds a p str \<longleftrightarrow> (\<forall>i<length str. a (p + of_nat i) = str ! i) \<and> a (p + of_nat (length str)) = 0 \<and> 0 \<notin> set str \<and>
     length str < 2 ^ 31"

lemma cstr_holds: "holds a p str \<Longrightarrow> cstr a p = Some str"
proof (induction str arbitrary: p)
  case Nil
  then show ?case by (subst cstr.simps) (simp add: holds_def)
next
  case (Cons c str)
  then have "a p = c" "c \<noteq> 0" by (force simp: holds_def)+
  moreover have "holds a (p + 1) str"
    unfolding holds_def
  proof (intro conjI allI impI)
    show "a (p + 1 + of_nat i) = str ! i" if "i < length str" for i
      using Cons.prems that by (auto simp: holds_def add.assoc dest: spec [of _ "Suc i"])
  qed (use Cons.prems in \<open>auto simp: holds_def add.assoc\<close>)
  ultimately show ?case using Cons.IH [of "p + 1"] by (subst cstr.simps) simp
qed

lemma offset_inj:
  assumes "i < 2 ^ 32" "j < 2 ^ 32"
  shows "p + of_nat i = p + (of_nat j :: u32) \<longleftrightarrow> i = j"
proof -
  have "of_nat i = (of_nat j :: u32) \<longleftrightarrow> i = j" using assms by (metis unat_of_nat32)
  then show ?thesis by simp
qed

lemma lines_split: "newline \<notin> set l \<Longrightarrow> lines (l @ newline # str) = l # lines str" "newline \<notin> set l \<Longrightarrow> lines l = []"
  by (induction l) auto

lemma selected_line:
  "newline \<notin> set l \<Longrightarrow> selected pat (l @ newline # str) = (if match pat l then l @ [newline] else []) @ selected pat str"
  "newline \<notin> set l \<Longrightarrow> selected pat l = []"
  by (simp_all add: selected_def lines_split)

text \<open>A buffer that holds a first line and more.\<close>

lemma holds_line:
  assumes h: "holds a p (l @ newline # str)"
  defines "q \<equiv> p + of_nat (length l)"
  shows "newline \<notin> set l \<Longrightarrow> strchr a p newline = Some (Some q)" "a q = newline" "cstr (a(q := 0)) p = Some l"
    "holds (a(q := x)) (q + 1) str" "map (\<lambda>i. a (p + of_nat i)) [0..<unat (q + 1 - p)] = l @ [newline]"
proof -
  have ln: "length l + 1 + length str < 2 ^ 31" using h by (simp add: holds_def)
  have at: "a (p + of_nat i) = (l @ newline # str) ! i" if "i < length l + 1 + length str" for i
    using h that by (simp add: holds_def)
  have nz: "0 \<notin> set l" "0 \<notin> set str" using h by (auto simp: holds_def)
  show q: "a q = newline" using at [of "length l"] by (simp add: q_def)
  show "strchr a p newline = Some (Some q)" if nl: "newline \<notin> set l"
    unfolding q_def
  proof (rule strchr_finds)
    show "a (p + of_nat i) \<noteq> 0 \<and> a (p + of_nat i) \<noteq> newline" if "i < length l" for i
      using at [of i] that nl nz(1) by (simp add: nth_append) (metis nth_mem)
  qed (use q in \<open>simp_all add: q_def\<close>)
  have "holds (a(q := 0)) p l"
    unfolding holds_def
  proof (intro conjI allI impI)
    show "(a(q := 0)) (p + of_nat i) = l ! i" if "i < length l" for i
      using at [of i] that ln offset_inj [of i "length l" p] by (simp add: q_def nth_append)
  qed (use nz ln in \<open>auto simp: q_def\<close>)
  then show "cstr (a(q := 0)) p = Some l" by (rule cstr_holds)
  have q1: "q + 1 + of_nat i = p + of_nat (length l + 1 + i)" for i by (simp add: q_def add_ac)
  have other: "q + 1 + of_nat i \<noteq> q" if "i \<le> length str" for i
    unfolding q1 using offset_inj [of "length l + 1 + i" "length l" p] ln that by (simp add: q_def del: of_nat_add)
  show "holds (a(q := x)) (q + 1) str"
    unfolding holds_def
  proof (intro conjI allI impI)
    show "(a(q := x)) (q + 1 + of_nat i) = str ! i" if "i < length str" for i
      using at [of "length l + 1 + i"] other [of i] that unfolding q1 by (simp add: nth_append del: of_nat_add)
    show "(a(q := x)) (q + 1 + of_nat (length str)) = 0"
      using h other [of "length str"] unfolding q1 by (simp add: holds_def add_ac)
  qed (use nz ln in auto)
  have "unat (q + 1 - p) = unat (of_nat (length l + 1) :: u32)" by (simp add: q_def add_ac)
  also have "\<dots> = length l + 1" using ln by (intro unat_of_nat32) simp
  finally have u: "unat (q + 1 - p) = length l + 1" .
  show "map (\<lambda>i. a (p + of_nat i)) [0..<unat (q + 1 - p)] = l @ [newline]"
    unfolding u by (rule nth_equalityI) (use at in \<open>auto simp: nth_append\<close>)
qed

text \<open>The number of bytes in the complete lines.\<close>

definition taken :: "byte list \<Rightarrow> nat" where
  "taken str = length (concat (map (\<lambda>l. l @ [newline]) (lines str)))"

lemma taken_line:
  "newline \<notin> set l \<Longrightarrow> taken (l @ newline # str) = length l + 1 + taken str" "newline \<notin> set l \<Longrightarrow> taken l = 0"
  by (simp_all add: taken_def lines_split)

lemma grep_lines_ok:
  "holds a p str \<Longrightarrow> \<exists>a'. grep_lines pat a p out = Some (a', p + of_nat (taken str), out @ selected pat str) \<and>
     taken str \<le> length str \<and> ((\<forall>l\<in>set (lines str). match pat l) \<longrightarrow> a' = a)"
proof (induction "length str" arbitrary: a p str out rule: less_induct)
  case less
  show ?case
  proof (cases "newline \<in> set str")
    case False
    have "strchr a p newline = Some None"
    proof (rule strchr_fails)
      show "a (p + of_nat i) \<noteq> 0 \<and> a (p + of_nat i) \<noteq> newline" if "i < length str" for i
        using less.prems False that by (simp add: holds_def) (metis nth_mem)
    qed (use less.prems in \<open>simp add: holds_def\<close>)
    then have "grep_lines pat a p out = Some (a, p + of_nat (taken str), out @ selected pat str)"
      using False by (subst grep_lines.simps) (simp add: selected_line taken_line)
    then show ?thesis using taken_line(2) [OF False] by simp
  next
    case True
    then obtain l str' where str: "str = l @ newline # str'" and nl: "newline \<notin> set l" by (auto dest: split_list_first)
    note hl = holds_line [OF less.prems [unfolded str]]
    let ?q = "p + of_nat (length l)"
    define x where "x = (if match pat l then newline else 0)"
    define out' where "out' = out @ (if match pat l then l @ [newline] else [])"
    have same: "a(?q := newline) = a" using hl(2) by auto
    have step: "grep_lines pat a p out = grep_lines pat (a(?q := x)) (?q + 1) out'"
      using hl(1) [OF nl] hl(3,5) same by (subst grep_lines.simps) (simp add: x_def out'_def)
    obtain a' where r: "grep_lines pat (a(?q := x)) (?q + 1) out' = Some (a', ?q + 1 + of_nat (taken str'), out' @ selected pat str')"
      "taken str' \<le> length str'" "(\<forall>l\<in>set (lines str'). match pat l) \<longrightarrow> a' = a(?q := x)"
      using less.hyps [OF _ hl(4) [of x], of out'] str by auto
    have "grep_lines pat a p out = Some (a', p + of_nat (taken str), out @ selected pat str)"
      unfolding step r(1) str using nl by (simp add: selected_line(1) taken_line(1) out'_def add_ac)
    moreover have "(\<forall>l\<in>set (lines str). match pat l) \<longrightarrow> a' = a"
      using r(3) same lines_split(1) [OF nl, of str'] by (simp add: str x_def)
    moreover have "taken str \<le> length str" using r(2) taken_line(1) [OF nl, of str'] by (simp add: str)
    ultimately show ?thesis by blast
  qed
qed

text \<open>The bytes of a read, stored in the buffer.\<close>

lemma store_bytes:
  assumes "n \<le> 2 ^ 31" "j < 2 ^ 31"
  shows "fold (\<lambda>i a. a(p + of_nat i := bs ! i)) [0..<n] a (p + (of_nat j :: u32)) = (if j < n then bs ! j else a (p + of_nat j))"
  using assms(1)
proof (induction n)
  case (Suc n)
  then show ?case using offset_inj [of j n p] assms(2) by (auto simp: less_Suc_eq)
qed simp

lemma holds_stored:
  assumes "0 \<notin> set bs" "length bs < 2 ^ 31" "a (p + of_nat (length bs)) = 0"
  shows "holds (fold (\<lambda>i a. a(p + of_nat i := bs ! i)) [0..<length bs] a) p bs"
  using assms store_bytes [of "length bs" _ p bs a] by (simp add: holds_def)

lemma sint_of_nat32: "n < 2 ^ 31 \<Longrightarrow> sint (of_nat n :: u32) = int n"
  using sint_of_int32 [of "int n"] by simp

text \<open>One turn of the loop, with nothing left over in the buffer before it.\<close>

lemma grep_turn:
  assumes "rd 1024 f = (bs, f')" "bs \<noteq> []" "0 \<notin> set bs" "length bs < 1024" "a (buf + of_nat (length bs)) = 0"
  defines "a1 \<equiv> fold (\<lambda>i a. a(buf + of_nat i := bs ! i)) [0..<length bs] a"
  shows "\<exists>a2. grep_loop rd pat buf a 0 f out =
      (let m = (if taken bs = 0 then 0 else int (length bs) - int (taken bs)) in
       grep_loop rd pat buf (umemmove a2 buf (buf + of_nat (taken bs)) m) m f' (out @ selected pat bs)) \<and>
     ((\<forall>l\<in>set (lines bs). match pat l) \<longrightarrow> a2 = a1)"
proof -
  have h: "holds a1 buf bs" unfolding a1_def by (rule holds_stored) (use assms(3-5) in auto)
  obtain a2 where g: "grep_lines pat a1 buf out = Some (a2, buf + of_nat (taken bs), out @ selected pat bs)"
    "taken bs \<le> length bs" "(\<forall>l\<in>set (lines bs). match pat l) \<longrightarrow> a2 = a1"
    using grep_lines_ok [OF h, of pat out] by blast
  have t: "buf + of_nat (taken bs) = buf \<longleftrightarrow> taken bs = 0" using offset_inj [of "taken bs" 0 buf] g(2) assms(4) by simp
  have s: "sint (of_nat (taken bs) :: u32) = int (taken bs)" using g(2) assms(4) by (intro sint_of_nat32) simp
  have "grep_loop rd pat buf a 0 f out =
      (let m = (if taken bs = 0 then 0 else int (length bs) - int (taken bs)) in
       grep_loop rd pat buf (umemmove a2 buf (buf + of_nat (taken bs)) m) m f' (out @ selected pat bs))"
    using assms(1,2) g(1) t s by (subst grep_loop.simps) (simp add: a1_def Let_def umemmove_def)
  with g(3) show ?thesis by blast
qed

text \<open>On a file of fewer than 1024 bytes without NUL bytes that one \<open>read\<close> delivers, \<open>grep\<close> comes to an end and writes
  exactly the lines that match, each with its newline, in their order (text after the last newline is not a line for it).\<close>

lemma grep_prints_matching_lines:
  assumes "rd 1024 f = (bs, f')" "\<And>k. fst (rd k f') = []" "0 \<notin> set bs" "length bs < 1024" "\<And>i. i < 1024 \<Longrightarrow> a (buf + of_nat i) = 0"
  shows "\<exists>a'. grep rd pat buf a f = Some (a', selected pat bs)"
proof (cases "bs = []")
  case True
  then show ?thesis using assms(1) unfolding grep_def by (subst grep_loop.simps) (simp add: selected_def)
next
  case False
  have e: "grep_loop rd pat buf x m f' out = Some (x, out)" for x m out
    using assms(2) [of "1024 - m"] by (subst grep_loop.simps) (simp add: case_prod_beta)
  have "a (buf + of_nat (length bs)) = 0" using assms(4,5) by simp
  then show ?thesis using grep_turn [of rd f bs f' a buf pat "[]"] assms(1,3,4) False
    unfolding grep_def by (auto simp: Let_def e)
qed

text \<open>A file descriptor that delivers given pieces, as a pipe does.\<close>

definition pieces :: "int \<Rightarrow> byte list list \<Rightarrow> byte list \<times> byte list list" where
  "pieces k f = (case f of [] \<Rightarrow> ([], []) | x # xs \<Rightarrow> (x, xs))"

lemma grep_prints_matching_lines_witness:
  "\<exists>a'. grep pieces [98] 0x2000 (\<lambda>_. 0) [[97, 10, 98, 99, 10]] = Some (a', [98, 99, 10])"
  using grep_prints_matching_lines [of pieces "[[97, 10, 98, 99, 10]]" "[97, 10, 98, 99, 10]" "[]" "\<lambda>_. 0" "0x2000" "[98]"]
  by (simp add: pieces_def selected_def match_def)

text \<open>
  \<open>grep\<close> does not end the contents of its buffer with a NUL, so that lines of an earlier, longer piece
  are searched again behind a shorter one: from the pieces \<open>abc\<close> and \<open>x\<close>, each a line, the
  pattern \<open>c\<close> selects the line \<open>abc\<close> and then a line \<open>c\<close> that is not in the file.
\<close>

lemma grep_searches_stale_bytes:
  "\<exists>a'. grep pieces [99] 0x2000 (\<lambda>_. 0) [[97, 98, 99, 10], [120, 10]] = Some (a', [97, 98, 99, 10, 99, 10])"
  "selected [99] ([97, 98, 99, 10] @ [120, 10]) = [97, 98, 99, 10]"
proof -
  show "selected [99] ([97, 98, 99, 10] @ [120, 10]) = [97, 98, 99, 10]" by (simp add: selected_def match_def)
  let ?b = "0x2000 :: u32" and ?z = "\<lambda>_ :: u32. 0 :: byte"
  let ?a1 = "?z(?b := 97, ?b + 1 := 98, ?b + 2 := 99, ?b + 3 := 10)"
  let ?a2 = "?a1(?b := 120, ?b + 1 := 10)"
  have "grep pieces [99] ?b ?z [[97, 98, 99, 10], [120, 10]] =
      grep_loop pieces [99] ?b ?a1 0 [[120, 10]] [97, 98, 99, 10]"
    using grep_turn [of pieces "[[97, 98, 99, 10], [120, 10]]" "[97, 98, 99, 10]" "[[120, 10]]" ?z ?b "[99]" "[]"]
    by (auto simp: grep_def pieces_def selected_def match_def taken_def upt_rec umemmove_def)
  moreover have "holds ?a2 ?b [120, 10, 99, 10]"
    unfolding holds_def
  proof (intro conjI allI impI)
    fix i assume "i < length [120 :: byte, 10, 99, 10]"
    then consider "i = 0" | "i = 1" | "i = 2" | "i = 3" by force
    then show "?a2 (?b + of_nat i) = [120, 10, 99, 10] ! i" by cases simp_all
  qed simp_all
  then obtain a3 where "grep_lines [99] ?a2 ?b [97, 98, 99, 10] = Some (a3, ?b + 4, [97, 98, 99, 10, 99, 10])"
    using grep_lines_ok [of ?a2 ?b "[120, 10, 99, 10]" "[99]" "[97, 98, 99, 10]"]
    by (auto simp: selected_def match_def taken_def)
  then have "grep_loop pieces [99] ?b ?a1 0 [[120, 10]] [97, 98, 99, 10] =
      grep_loop pieces [99] ?b a3 (-2) [] [97, 98, 99, 10, 99, 10]"
    by (subst grep_loop.simps) (simp add: pieces_def upt_rec umemmove_def)
  moreover have "grep_loop pieces [99] ?b a3 (-2) [] [97, 98, 99, 10, 99, 10] = Some (a3, [97, 98, 99, 10, 99, 10])"
    by (subst grep_loop.simps) (simp add: pieces_def)
  ultimately show "\<exists>a'. grep pieces [99] ?b ?z [[97, 98, 99, 10], [120, 10]] = Some (a', [97, 98, 99, 10, 99, 10])" by simp
qed

end
