(* ===== verification/Shell.thy ===== *)
theory Shell
  imports Ulib "HOL-Library.Sublist"
begin

text \<open>
  The parser of the shell \<open>sh.c\<close>. A pointer into the command line is the rest of the line from
  there on; a token is the pair of pointers to its beginning and its end. The recursive descent
  takes fuel; the length of the line is always enough. A syntax error is \<open>Panic\<close>.
\<close>

section \<open>Commands\<close>

type_synonym ptr = "byte list"

datatype cmd =
    EXEC "(ptr \<times> ptr) list"
  | REDIR cmd ptr ptr u32 int
  | PIPE cmd cmd
  | LIST cmd cmd
  | BACK cmd

definition MAXARGS :: nat where "MAXARGS = 10"

definition O_RD :: u32 where "O_RD = 0"
definition O_WR_CREATE :: u32 where "O_WR_CREATE = 0x001 OR 0x200"

section \<open>Tokens\<close>

definition whitespace :: "byte list" where "whitespace = [32, 9, 13, 10, 11]"
definition symbols :: "byte list" where "symbols = [60, 124, 62, 38, 59, 40, 41]"

abbreviation ws :: "byte \<Rightarrow> bool" where "ws c \<equiv> c \<in> set whitespace"

definition skip :: "ptr \<Rightarrow> ptr" where
  "skip s = dropWhile ws s"

text \<open>The result, where the token begins and ends, and where the next one begins.\<close>

definition gettoken :: "ptr \<Rightarrow> byte \<times> ptr \<times> ptr \<times> ptr" where
  "gettoken s =
     (let q = skip s;
          (ret, e) = (case q of
              [] \<Rightarrow> (0, q)
            | c # r \<Rightarrow>
                if c \<in> {124, 40, 41, 59, 38, 60} then (c, r)
                else if c = 62 then (if r \<noteq> [] \<and> hd r = 62 then (43, tl r) else (c, r))
                else (97, dropWhile (\<lambda>c. \<not> ws c \<and> c \<notin> set symbols) q)) in
      (ret, q, e, skip e))"

text \<open>\<open>peek\<close> also moves the pointer to \<open>skip s\<close>.\<close>

definition peek :: "ptr \<Rightarrow> byte list \<Rightarrow> bool" where
  "peek s toks = (case skip s of [] \<Rightarrow> False | c # _ \<Rightarrow> c \<in> set toks)"

lemma skip_skip [simp]: "skip (skip s) = skip s"
  by (induction s) (auto simp: skip_def)

lemma skip_length: "length (skip s) \<le> length s"
  by (simp add: skip_def length_dropWhile_le)

lemma skip_hd: "skip s = c # r \<Longrightarrow> \<not> ws c"
  using hd_dropWhile [of ws s] by (auto simp: skip_def)

lemma gettoken_shrinks:
  assumes "gettoken s = (tok, q, e, s')"
  shows "length s' \<le> length e" "length e \<le> length q" "q = skip s" "s' = skip e" "tok \<noteq> 0 \<Longrightarrow> length e < length q"
proof -
  have g: "q = skip s" "s' = skip e"
    using assms by (auto simp: gettoken_def Let_def split: list.splits if_splits prod.splits)
  then show "q = skip s" "s' = skip e" "length s' \<le> length e" using skip_length by auto
  have "length e \<le> length q \<and> (tok \<noteq> 0 \<longrightarrow> length e < length q)"
  proof (cases "skip s")
    case Nil
    then show ?thesis using assms by (auto simp: gettoken_def Let_def)
  next
    case (Cons c r)
    note w = skip_hd [OF Cons]
    have "length (dropWhile P r) < Suc (length r)" for P using length_dropWhile_le [of P r] by simp
    then show ?thesis
      using assms w unfolding g(1) gettoken_def Let_def Cons symbols_def
      by (auto split: if_splits intro: less_imp_le)
  qed
  then show "length e \<le> length q" "tok \<noteq> 0 \<Longrightarrow> length e < length q" by auto
qed

lemma peek_token:
  assumes "peek s toks" "set toks \<subseteq> {124, 40, 41, 59, 38, 60, 62}" "gettoken s = (tok, q, e, s')"
  shows "length s' < length (skip s)" "tok \<noteq> 0"
proof -
  obtain c r where "skip s = c # r" "c \<in> set toks" using assms(1) by (auto simp: peek_def split: list.splits)
  then show r: "tok \<noteq> 0" using assms(2,3) by (auto simp: gettoken_def Let_def split: if_splits)
  show "length s' < length (skip s)" using gettoken_shrinks [OF assms(3)] r by auto
qed

section \<open>The parser\<close>

text \<open>Every turn of a loop uses up some of the line.\<close>

lemma redir_step:
  assumes "(tok, q0, e0, s') = gettoken s" "(97, q, eq, s'') = gettoken s'" "peek s [60, 62]"
  shows "length s'' < length s"
  using peek_token(1) [OF assms(3) _ assms(1) [symmetric]] gettoken_shrinks(1-3) [OF assms(2) [symmetric]]
    skip_length [of s'] skip_length [of s] by auto

lemma back_step: "(tok, q, e, s') = gettoken s \<Longrightarrow> peek s [38] \<Longrightarrow> length s' < length s"
  using peek_token(1) [of s "[38]" tok q e s'] skip_length [of s] by simp

function parseredirs :: "(ptr \<times> ptr \<times> u32 \<times> int) list \<Rightarrow> ptr \<Rightarrow> ((ptr \<times> ptr \<times> u32 \<times> int) list \<times> ptr) res" where
  "parseredirs rs s =
     (if peek s [60, 62] then
        let (tok, _, _, s') = gettoken s in
        let (tok2, q, eq, s'') = gettoken s' in
        if tok2 \<noteq> 97 then Panic ''missing file for redirection''
        else parseredirs
          (if tok = 60 then rs @ [(q, eq, O_RD, 0)]
           else if tok = 62 then rs @ [(q, eq, O_WR_CREATE, 1)]
           else if tok = 43 then rs @ [(q, eq, O_WR_CREATE, 1)]
           else rs) s''
      else Ok (rs, skip s))"
  by pat_completeness auto
termination
  by (relation "measure (\<lambda>(_, s). length s)") (auto dest: redir_step)

declare parseredirs.simps [simp del]

lemma parseredirs_shrinks: "parseredirs rs s = Ok (rs', s') \<Longrightarrow> length s' \<le> length (skip s)"
proof (induction rs s rule: parseredirs.induct)
  case (1 rs s)
  obtain tok q0 e0 s1 where g1: "gettoken s = (tok, q0, e0, s1)" by (metis prod_cases4)
  obtain tok2 q eq s2 where g2: "gettoken s1 = (tok2, q, eq, s2)" by (metis prod_cases4)
  show ?case
  proof (cases "peek s [60, 62]")
    case True
    then have "tok2 = 97" using "1.prems" g1 g2 by (subst (asm) parseredirs.simps) (auto split: if_splits)
    then have "length s' \<le> length (skip s2)"
      using "1.IH" [OF True g1 [symmetric] refl refl refl g2 [symmetric] refl refl refl] "1.prems" True g1 g2
      by (simp add: parseredirs.simps [of rs s])
    then show ?thesis
      using peek_token(1) [OF True _ g1] gettoken_shrinks(1-3) [OF g2] skip_length [of s1] skip_length [of s2] by auto
  next
    case False
    then show ?thesis using "1.prems" by (subst (asm) parseredirs.simps) simp
  qed
qed

lemma arg_step:
  assumes "(97, q, eq, s') = gettoken s" "parseredirs rs s' = Ok (rs', s'')"
  shows "length s'' < length s"
  using gettoken_shrinks(1,2,3,5) [OF assms(1) [symmetric]] parseredirs_shrinks [OF assms(2)] skip_length [of s] skip_length [of s']
  by auto

text \<open>
  \<open>redircmd\<close> wraps the command so far, which in \<open>parseexec\<close> is the \<open>execcmd\<close> whose argument vector is
  still being filled in: the redirections are collected and put around it at the end.
\<close>

definition redirect :: "cmd \<Rightarrow> (ptr \<times> ptr \<times> u32 \<times> int) list \<Rightarrow> cmd" where
  "redirect c rs = foldl (\<lambda>c (q, eq, mode, fd). REDIR c q eq mode fd) c rs"

function parseargs :: "(ptr \<times> ptr) list \<Rightarrow> (ptr \<times> ptr \<times> u32 \<times> int) list \<Rightarrow> ptr \<Rightarrow> (cmd \<times> ptr) res" where
  "parseargs argv rs s =
     (if peek s [124, 41, 38, 59] then Ok (redirect (EXEC argv) rs, skip s)
      else
        let (tok, q, eq, s') = gettoken s in
        if tok = 0 then Ok (redirect (EXEC argv) rs, s')
        else if tok \<noteq> 97 then Panic ''syntax''
        else if length argv + 1 \<ge> MAXARGS then Panic ''too many args''
        else bnd (parseredirs rs s') (\<lambda>(rs, s''). parseargs (argv @ [(q, eq)]) rs s''))"
  by pat_completeness auto
termination
  by (relation "measure (\<lambda>(_, _, s). length s)") (auto dest: arg_step)

function parsebacks :: "cmd \<Rightarrow> ptr \<Rightarrow> cmd \<times> ptr" where
  "parsebacks c s =
     (if peek s [38] then let (_, _, _, s') = gettoken s in parsebacks (BACK c) s' else (c, skip s))"
  by pat_completeness auto
termination
  by (relation "measure (\<lambda>(_, s). length s)") (auto dest: back_step)

declare parseargs.simps [simp del] parsebacks.simps [simp del]

fun parseline :: "nat \<Rightarrow> ptr \<Rightarrow> (cmd \<times> ptr) res"
  and parsepipe :: "nat \<Rightarrow> ptr \<Rightarrow> (cmd \<times> ptr) res"
  and parseexec :: "nat \<Rightarrow> ptr \<Rightarrow> (cmd \<times> ptr) res"
  and parseblock :: "nat \<Rightarrow> ptr \<Rightarrow> (cmd \<times> ptr) res" where
  "parseline 0 s = Stuck"
| "parseline (Suc f) s =
     bnd (parsepipe f s) (\<lambda>(c, s).
     let (c, s) = parsebacks c s in
     if peek s [59] then
       let (_, _, _, s) = gettoken s in
       bnd (parseline f s) (\<lambda>(r, s). Ok (LIST c r, s))
     else Ok (c, skip s))"
| "parsepipe 0 s = Stuck"
| "parsepipe (Suc f) s =
     bnd (parseexec f s) (\<lambda>(c, s).
     if peek s [124] then
       let (_, _, _, s) = gettoken s in
       bnd (parsepipe f s) (\<lambda>(r, s). Ok (PIPE c r, s))
     else Ok (c, skip s))"
| "parseexec 0 s = Stuck"
| "parseexec (Suc f) s =
     (if peek s [40] then parseblock f (skip s)
      else bnd (parseredirs [] (skip s)) (\<lambda>(rs, s). parseargs [] rs s))"
| "parseblock 0 s = Stuck"
| "parseblock (Suc f) s =
     (if \<not> peek s [40] then Panic ''parseblock''
      else
        let (_, _, _, s) = gettoken s in
        bnd (parseline f s) (\<lambda>(c, s).
        if \<not> peek s [41] then Panic ''syntax - missing )''
        else
          let (_, _, _, s) = gettoken s in
          bnd (parseredirs [] s) (\<lambda>(rs, s). Ok (redirect c rs, s))))"

text \<open>The line with its NUL is \<open>buf\<close>; \<open>n\<close> is the length of the line, so that a pointer \<open>p\<close> is the address \<open>n - length p\<close>.\<close>

fun nulterminate :: "nat \<Rightarrow> cmd \<Rightarrow> byte list \<Rightarrow> byte list" where
  "nulterminate n (EXEC argv) buf = fold (\<lambda>(_, eq) buf. buf[n - length eq := 0]) argv buf"
| "nulterminate n (REDIR c q eq mode fd) buf = (nulterminate n c buf)[n - length eq := 0]"
| "nulterminate n (PIPE l r) buf = nulterminate n r (nulterminate n l buf)"
| "nulterminate n (LIST l r) buf = nulterminate n r (nulterminate n l buf)"
| "nulterminate n (BACK c) buf = nulterminate n c buf"

definition parsecmd :: "byte list \<Rightarrow> (cmd \<times> byte list) res" where
  "parsecmd s =
     bnd (parseline (4 * length s + 4) s) (\<lambda>(c, s').
     if skip s' \<noteq> [] then Panic ''syntax''
     else Ok (c, nulterminate (length s) c (s @ [0])))"

section \<open>The parser always comes to an end\<close>

lemma parseredirs_ends: "parseredirs rs s \<noteq> Stuck"
proof (induction rs s rule: parseredirs.induct)
  case (1 rs s)
  obtain tok q0 e0 s1 where g1: "gettoken s = (tok, q0, e0, s1)" by (metis prod_cases4)
  obtain tok2 q eq s2 where g2: "gettoken s1 = (tok2, q, eq, s2)" by (metis prod_cases4)
  note IH = "1.IH" [OF _ g1 [symmetric] refl refl refl g2 [symmetric] refl refl refl]
  show ?case using IH g1 g2 by (simp add: parseredirs.simps [of rs s])
qed

lemma parseargs_ends: "parseargs argv rs s \<noteq> Stuck"
proof (induction argv rs s rule: parseargs.induct)
  case (1 argv rs s)
  obtain tok q eq s1 where g: "gettoken s = (tok, q, eq, s1)" by (metis prod_cases4)
  note IH = "1.IH" [OF _ g [symmetric] refl refl refl]
  show ?case using IH g by (auto simp: parseargs.simps [of argv rs s] res_simps parseredirs_ends)
qed

lemma parseargs_shrinks: "parseargs argv rs s = Ok (c, s') \<Longrightarrow> length s' \<le> length (skip s)"
proof (induction argv rs s rule: parseargs.induct)
  case (1 argv rs s)
  obtain tok q eq s1 where g: "gettoken s = (tok, q, eq, s1)" by (metis prod_cases4)
  note gs = gettoken_shrinks [OF g]
  show ?case
  proof (cases "peek s [124, 41, 38, 59] \<or> tok = 0")
    case True
    then show ?thesis using "1.prems" g gs(1-3) by (subst (asm) parseargs.simps) (auto split: if_splits)
  next
    case False
    then obtain rs1 s2 where p: "parseredirs rs s1 = Ok (rs1, s2)" "parseargs (argv @ [(q, eq)]) rs1 s2 = Ok (c, s')" "tok = 97"
        "\<not> length argv + 1 \<ge> MAXARGS"
      using "1.prems" g by (subst (asm) parseargs.simps) (auto simp: res_simps split: if_splits)
    have "length s' \<le> length (skip s2)"
      using "1.IH" [OF _ g [symmetric] refl refl refl] False p by auto
    then show ?thesis using parseredirs_shrinks [OF p(1)] gs(1-3) skip_length [of s2] skip_length [of s1] by auto
  qed
qed

lemma parsebacks_shrinks: "parsebacks c s = (c', s') \<Longrightarrow> length s' \<le> length (skip s)"
proof (induction c s rule: parsebacks.induct)
  case (1 c s)
  obtain tok q e s1 where g: "gettoken s = (tok, q, e, s1)" by (metis prod_cases4)
  show ?case
  proof (cases "peek s [38]")
    case True
    then have "length s' \<le> length (skip s1)"
      using "1.IH" [OF True g [symmetric] refl refl refl] "1.prems" True g by (simp add: parsebacks.simps [of c s])
    then show ?thesis using peek_token(1) [OF True _ g] skip_length [of s1] by auto
  next
    case False
    then show ?thesis using "1.prems" by (subst (asm) parsebacks.simps) simp
  qed
qed

lemma token_after_peek:
  assumes "peek s toks" "set toks \<subseteq> {124, 40, 41, 59, 38, 60, 62}" "gettoken s = (tok, q, e, s')"
  shows "length (skip s') < length (skip s)"
  using peek_token(1) [OF assms] skip_length [of s'] by simp

lemma parse_shrinks:
  "parseline f s = Ok (c, s') \<Longrightarrow> length s' \<le> length (skip s)"
  "parsepipe f s = Ok (c, s') \<Longrightarrow> length s' \<le> length (skip s)"
  "parseexec f s = Ok (c, s') \<Longrightarrow> length s' \<le> length (skip s)"
  "parseblock f s = Ok (c, s') \<Longrightarrow> length s' \<le> length (skip s)"
proof (induction f s and f s and f s and f s arbitrary: c s' and c s' and c s' and c s'
    rule: parseline_parsepipe_parseexec_parseblock.induct)
  case (2 f s)
  obtain c1 s1 where p: "parsepipe f s = Ok (c1, s1)" using "2.prems" by (auto simp: res_simps)
  obtain c2 s2 where b: "parsebacks c1 s1 = (c2, s2)" by force
  obtain tok q e s3 where g: "gettoken s2 = (tok, q, e, s3)" by (metis prod_cases4)
  have le: "length s2 \<le> length (skip s)" using "2.IH"(1) [OF p] parsebacks_shrinks [OF b] skip_length [of s1] by simp
  show ?case
  proof (cases "peek s2 [59]")
    case True
    then obtain r where r: "parseline f s3 = Ok (r, s')" using "2.prems" p b g by (auto simp: res_simps)
    have "length s' \<le> length (skip s3)"
      using "2.IH"(2) [OF p refl b [symmetric] refl True g [symmetric] refl refl refl r] .
    then show ?thesis using token_after_peek [OF True _ g] le skip_length [of s2] by simp
  next
    case False
    then show ?thesis using "2.prems" p b le skip_length [of s2] by (auto simp: res_simps)
  qed
next
  case (4 f s)
  obtain c1 s1 where p: "parseexec f s = Ok (c1, s1)" using "4.prems" by (auto simp: res_simps)
  obtain tok q e s3 where g: "gettoken s1 = (tok, q, e, s3)" by (metis prod_cases4)
  note le = "4.IH"(1) [OF p]
  show ?case
  proof (cases "peek s1 [124]")
    case True
    then obtain r where r: "parsepipe f s3 = Ok (r, s')" using "4.prems" p g by (auto simp: res_simps)
    have "length s' \<le> length (skip s3)" using "4.IH"(2) [OF p refl True g [symmetric] refl refl refl r] .
    then show ?thesis using token_after_peek [OF True _ g] le skip_length [of s1] by simp
  next
    case False
    then show ?thesis using "4.prems" p le skip_length [of s1] by (auto simp: res_simps)
  qed
next
  case (6 f s)
  show ?case
  proof (cases "peek s [40]")
    case True
    then show ?thesis using "6.IH" [OF True] "6.prems" by simp
  next
    case False
    then obtain rs s1 where r: "parseredirs [] (skip s) = Ok (rs, s1)" "parseargs [] rs s1 = Ok (c, s')"
      using "6.prems" by (auto simp: res_simps)
    then show ?thesis using parseredirs_shrinks [OF r(1)] parseargs_shrinks [OF r(2)] skip_length [of s1] by simp
  qed
next
  case (8 f s)
  obtain tok q e s1 where g: "gettoken s = (tok, q, e, s1)" by (metis prod_cases4)
  have pk: "peek s [40]" using "8.prems" by (auto split: if_splits)
  obtain c1 s2 where l: "parseline f s1 = Ok (c1, s2)" using "8.prems" pk g by (auto simp: res_simps)
  obtain tok' q' e' s3 where g': "gettoken s2 = (tok', q', e', s3)" by (metis prod_cases4)
  have pk2: "peek s2 [41]" and "\<exists>rs. parseredirs [] s3 = Ok (rs, s')"
    using "8.prems" pk g g' l by (auto simp: res_simps split: if_splits)
  then obtain rs where r: "parseredirs [] s3 = Ok (rs, s')" by blast
  have "length s2 \<le> length (skip s1)" using "8.IH" [of _ _ _ _ _ _ s1, OF _ g [symmetric] refl refl refl l] pk by simp
  then show ?case
    using parseredirs_shrinks [OF r] token_after_peek [OF pk2 _ g'] token_after_peek [OF pk _ g] skip_length [of s2] by simp
qed simp_all

lemma parse_ends:
  "4 * length (skip s) + 4 \<le> f \<Longrightarrow> parseline f s \<noteq> Stuck"
  "4 * length (skip s) + 3 \<le> f \<Longrightarrow> parsepipe f s \<noteq> Stuck"
  "4 * length (skip s) + 2 \<le> f \<Longrightarrow> parseexec f s \<noteq> Stuck"
  "4 * length (skip s) + 1 \<le> f \<Longrightarrow> parseblock f s \<noteq> Stuck"
proof (induction f s and f s and f s and f s rule: parseline_parsepipe_parseexec_parseblock.induct)
  case (2 f s)
  have "parsepipe f s \<noteq> Stuck" using "2.IH"(1) "2.prems" by simp
  moreover have "parseline f s3 \<noteq> Stuck"
    if p: "parsepipe f s = Ok (c1, s1)" "parsebacks c1 s1 = (c2, s2)" "peek s2 [59]" "gettoken s2 = (tok, q, e, s3)"
    for c1 s1 c2 s2 tok q e s3
  proof -
    have "length (skip s3) < length (skip s)"
      using token_after_peek [OF p(3) _ p(4)] parsebacks_shrinks [OF p(2)] parse_shrinks(2) [OF p(1)] skip_length [of s1]
        skip_length [of s2] by simp
    then show ?thesis using "2.IH"(2) [OF p(1) refl p(2) [symmetric] refl p(3) p(4) [symmetric] refl refl refl] "2.prems" by simp
  qed
  ultimately show ?case by (auto simp: res_simps Let_def split: prod.splits)
next
  case (4 f s)
  have "parseexec f s \<noteq> Stuck" using "4.IH"(1) "4.prems" by simp
  moreover have "parsepipe f s3 \<noteq> Stuck"
    if p: "parseexec f s = Ok (c1, s1)" "peek s1 [124]" "gettoken s1 = (tok, q, e, s3)" for c1 s1 tok q e s3
  proof -
    have "length (skip s3) < length (skip s)"
      using token_after_peek [OF p(2) _ p(3)] parse_shrinks(3) [OF p(1)] skip_length [of s1] by simp
    then show ?thesis using "4.IH"(2) [OF p(1) refl p(2) p(3) [symmetric] refl refl refl] "4.prems" by simp
  qed
  ultimately show ?case by (auto simp: res_simps Let_def split: prod.splits)
next
  case (6 f s)
  then show ?case by (auto simp: res_simps parseredirs_ends parseargs_ends)
next
  case (8 f s)
  obtain tok q e s1 where g: "gettoken s = (tok, q, e, s1)" by (metis prod_cases4)
  have "parseline f s1 \<noteq> Stuck" if pk: "peek s [40]"
    using "8.IH" [of _ _ _ _ _ _ s1, OF _ g [symmetric] refl refl refl] token_after_peek [OF pk _ g] "8.prems" pk by simp
  then show ?case using g by (auto simp: res_simps Let_def parseredirs_ends split: prod.splits)
qed simp_all

text \<open>C39: the parser of command lines comes to an end on every input, with a command or a syntax error; its fuel
  never runs out.\<close>

theorem parsecmd_terminates: "parsecmd s \<noteq> Stuck"
  using parse_ends(1) [of s "4 * length s + 4"] skip_length [of s] by (auto simp: parsecmd_def res_simps)

section \<open>Commands as trees of words\<close>

datatype tree =
    T_EXEC "byte list list"
  | T_REDIR tree "byte list" u32 int
  | T_PIPE tree tree
  | T_LIST tree tree
  | T_BACK tree

definition tok_text :: "ptr \<Rightarrow> ptr \<Rightarrow> byte list" where
  "tok_text q eq = take (length q - length eq) q"

fun texts :: "cmd \<Rightarrow> tree" where
  "texts (EXEC argv) = T_EXEC (map (\<lambda>(q, eq). tok_text q eq) argv)"
| "texts (REDIR c q eq mode fd) = T_REDIR (texts c) (tok_text q eq) mode fd"
| "texts (PIPE l r) = T_PIPE (texts l) (texts r)"
| "texts (LIST l r) = T_LIST (texts l) (texts r)"
| "texts (BACK c) = T_BACK (texts c)"

definition good_word :: "byte list \<Rightarrow> bool" where
  "good_word w \<longleftrightarrow> w \<noteq> [] \<and> (\<forall>c\<in>set w. \<not> ws c \<and> c \<notin> set symbols)"

definition good_redir :: "byte list \<Rightarrow> u32 \<Rightarrow> int \<Rightarrow> bool" where
  "good_redir w mode fd \<longleftrightarrow> good_word w \<and> (mode = O_RD \<and> fd = 0 \<or> mode = O_WR_CREATE \<and> fd = 1)"

fun good_tree :: "tree \<Rightarrow> bool" where
  "good_tree (T_EXEC args) \<longleftrightarrow> (\<forall>w\<in>set args. good_word w) \<and> length args < MAXARGS"
| "good_tree (T_REDIR t w mode fd) \<longleftrightarrow> good_tree t \<and> good_redir w mode fd"
| "good_tree (T_PIPE l r) \<longleftrightarrow> good_tree l \<and> good_tree r"
| "good_tree (T_LIST l r) \<longleftrightarrow> good_tree l \<and> good_tree r"
| "good_tree (T_BACK t) \<longleftrightarrow> good_tree t"

text \<open>
  Printing. The level says what the place calls for: 0 a line, 1 a pipeline with \<open>&\<close>, 2 a pipeline,
  3 a command; everything else goes into parentheses.
\<close>

definition show_args :: "byte list list \<Rightarrow> byte list" where
  "show_args args = concat (map (\<lambda>w. w @ [32]) args)"

definition show_redir :: "byte list \<Rightarrow> int \<Rightarrow> byte list" where
  "show_redir w fd = [if fd = 0 then 60 else 62, 32] @ w @ [32]"

definition par :: "bool \<Rightarrow> byte list \<Rightarrow> byte list" where
  "par c str = (if c then [40, 32] @ str @ [41, 32] else str)"

fun show_cmd :: "nat \<Rightarrow> tree \<Rightarrow> byte list" where
  "show_cmd k (T_EXEC args) = show_args args"
| "show_cmd k (T_REDIR t w mode fd) = show_cmd 3 t @ show_redir w fd"
| "show_cmd k (T_PIPE l r) = par (k > 2) (show_cmd 3 l @ [124, 32] @ show_cmd 2 r)"
| "show_cmd k (T_BACK t) = par (k > 1) (show_cmd 1 t @ [38, 32])"
| "show_cmd k (T_LIST l r) = par (k > 0) (show_cmd 1 l @ [59, 32] @ show_cmd 0 r)"

section \<open>Parsing what has been printed\<close>

lemma skip_simps [simp]: "skip (32 # s) = skip s" "skip [] = []"
  by (simp_all add: skip_def whitespace_def)

lemma skip_nonws: "\<not> ws c \<Longrightarrow> skip (c # s) = c # s"
  by (simp add: skip_def)

lemma symbols_nonws: "c \<in> set symbols \<Longrightarrow> \<not> ws c"
  by (auto simp: symbols_def whitespace_def)

lemma good_word_hd: "good_word w \<Longrightarrow> \<exists>c w'. w = c # w' \<and> \<not> ws c \<and> c \<notin> set symbols"
  by (cases w) (auto simp: good_word_def)

lemma gettoken_word:
  assumes "good_word w" "skip s = skip (w @ 32 # rest)"
  shows "gettoken s = (97, w @ 32 # rest, 32 # rest, skip rest)" "\<not> peek s [60, 62]" "\<not> peek s [124, 41, 38, 59]" "\<not> peek s [40]"
proof -
  obtain c w' where w: "w = c # w'" "\<not> ws c" "c \<notin> set symbols" using good_word_hd [OF assms(1)] by blast
  have s: "skip s = c # w' @ 32 # rest" using assms(2) w by (simp add: skip_nonws)
  have d: "dropWhile (\<lambda>c. \<not> ws c \<and> c \<notin> set symbols) (w @ 32 # rest) = 32 # rest"
    using assms(1) by (subst dropWhile_append2) (auto simp: good_word_def whitespace_def)
  then show "gettoken s = (97, w @ 32 # rest, 32 # rest, skip rest)"
    using w s by (simp add: gettoken_def symbols_def)
  show "\<not> peek s [60, 62]" "\<not> peek s [124, 41, 38, 59]" "\<not> peek s [40]" using w(3) s by (auto simp: peek_def symbols_def)
qed

lemma gettoken_sym:
  assumes "c \<in> set symbols" "skip s = skip (c # 32 # rest)"
  shows "gettoken s = (c, c # 32 # rest, 32 # rest, skip rest)" "peek s toks \<longleftrightarrow> c \<in> set toks"
proof -
  have "skip s = c # 32 # rest" using assms symbols_nonws [of c] by (simp add: skip_nonws)
  then show "gettoken s = (c, c # 32 # rest, 32 # rest, skip rest)" "peek s toks \<longleftrightarrow> c \<in> set toks"
    using assms(1) by (auto simp: gettoken_def peek_def symbols_def)
qed

text \<open>The parts of the parser do not look at white space in front.\<close>

lemma peek_skip: "skip s = skip s' \<Longrightarrow> peek s toks = peek s' toks" "skip s = skip s' \<Longrightarrow> gettoken s = gettoken s'"
  by (simp_all add: peek_def gettoken_def)

lemma parse_skip:
  assumes "skip s = skip s'"
  shows "parseredirs rs s = parseredirs rs s'" "parseargs argv rs s = parseargs argv rs s'" "parsebacks c s = parsebacks c s'"
  using peek_skip [OF assms] assms
  by (simp_all add: parseredirs.simps [of rs s] parseredirs.simps [of rs s'] parseargs.simps [of argv rs s]
      parseargs.simps [of argv rs s'] parsebacks.simps [of c s] parsebacks.simps [of c s'])

text \<open>What may follow: nothing, or one of the given symbols.\<close>

definition follow :: "byte list \<Rightarrow> byte list \<Rightarrow> bool" where
  "follow toks s \<longleftrightarrow> skip s = [] \<or> peek s toks"

definition rtext :: "ptr \<times> ptr \<times> u32 \<times> int \<Rightarrow> byte list \<times> u32 \<times> int" where
  "rtext = (\<lambda>(q, eq, mode, fd). (tok_text q eq, mode, fd))"

definition show_redirs :: "(byte list \<times> u32 \<times> int) list \<Rightarrow> byte list" where
  "show_redirs rs = concat (map (\<lambda>(w, mode, fd). show_redir w fd) rs)"

lemma tok_text_word [simp]: "tok_text (w @ 32 # rest) (32 # rest) = w"
  by (simp add: tok_text_def)

lemma follow_not_peek: "follow toks s \<Longrightarrow> set toks \<inter> set toks' = {} \<Longrightarrow> \<not> peek s toks'"
  by (auto simp: follow_def peek_def split: list.splits)

lemma redirs_parse:
  assumes "\<forall>(w, mode, fd)\<in>set rs. good_redir w mode fd" "\<not> peek rest [60, 62]" "skip s = skip (show_redirs rs @ rest)"
  shows "\<exists>ts. parseredirs rs0 s = Ok (rs0 @ ts, skip rest) \<and> map rtext ts = rs"
  using assms
proof (induction rs arbitrary: rs0 s)
  case Nil
  then have "parseredirs rs0 s = Ok (rs0, skip rest)"
    using peek_skip(1) [of s rest "[60, 62]"] by (simp add: parseredirs.simps [of rs0 s] show_redirs_def)
  then show ?case by simp
next
  case (Cons r rs)
  obtain w mode fd where r: "r = (w, mode, fd)" by (cases r)
  let ?c = "if fd = 0 then 60 else 62 :: byte" and ?s1 = "w @ 32 # show_redirs rs @ rest"
  have gr: "good_word w" "mode = O_RD \<and> fd = 0 \<or> mode = O_WR_CREATE \<and> fd = 1" using Cons.prems(1) r by (auto simp: good_redir_def)
  have s: "skip s = skip (?c # 32 # ?s1)" using Cons.prems(3) by (simp add: r show_redirs_def show_redir_def)
  have c: "?c \<in> set symbols" by (simp add: symbols_def)
  note g1 = gettoken_sym [OF c s]
  have g2: "gettoken (skip ?s1) = (97, ?s1, 32 # show_redirs rs @ rest, skip (show_redirs rs @ rest))"
    using gettoken_word(1) [OF gr(1), of "skip ?s1"] by simp
  have step: "parseredirs rs0 s = parseredirs (rs0 @ [(?s1, 32 # show_redirs rs @ rest, mode, fd)]) (skip (show_redirs rs @ rest))"
    using g1 g2 gr(2) by (auto simp: parseredirs.simps [of rs0 s])
  obtain ts where "parseredirs (rs0 @ [(?s1, 32 # show_redirs rs @ rest, mode, fd)]) (skip (show_redirs rs @ rest)) =
      Ok ((rs0 @ [(?s1, 32 # show_redirs rs @ rest, mode, fd)]) @ ts, skip rest)" "map rtext ts = rs"
    using Cons.IH [of "skip (show_redirs rs @ rest)" "rs0 @ [(?s1, 32 # show_redirs rs @ rest, mode, fd)]"] Cons.prems(1,2)
    by auto
  then show ?case unfolding step by (intro exI [of _ "(?s1, 32 # show_redirs rs @ rest, mode, fd) # ts"]) (simp add: rtext_def r)
qed

lemma args_parse:
  assumes "\<forall>w\<in>set args. good_word w" "length argv + length args < MAXARGS" "args = [] \<longrightarrow> rs = []"
    "\<forall>(w, mode, fd)\<in>set rs. good_redir w mode fd" "follow [124, 41, 38, 59] rest"
    "skip s = skip (show_args args @ show_redirs rs @ rest)"
  shows "\<exists>ts us. parseargs argv rs0 s = Ok (redirect (EXEC (argv @ ts)) (rs0 @ us), skip rest) \<and>
    map (\<lambda>(q, eq). tok_text q eq) ts = args \<and> map rtext us = rs"
  using assms
proof (induction args arbitrary: argv rs rs0 s)
  case Nil
  then have s: "skip s = skip rest" by (simp add: show_args_def show_redirs_def)
  have "parseargs argv rs0 s = Ok (redirect (EXEC argv) rs0, skip rest)"
  proof (cases "skip rest = []")
    case True
    then have "\<not> peek s [124, 41, 38, 59]" "gettoken s = (0, [], [], [])" using s by (simp_all add: peek_def gettoken_def)
    then show ?thesis using True by (simp add: parseargs.simps [of argv rs0 s])
  next
    case False
    then show ?thesis using Nil.prems(5) s peek_skip(1) [OF s] by (simp add: parseargs.simps [of argv rs0 s] follow_def)
  qed
  then show ?case using Nil.prems(3) by simp
next
  case (Cons w args)
  let ?r = "show_args args @ show_redirs rs @ rest"
  have gw: "good_word w" using Cons.prems(1) by simp
  have s: "skip s = skip (w @ 32 # ?r)" using Cons.prems(6) by (simp add: show_args_def)
  note g = gettoken_word [OF gw s]
  have nr: "\<not> peek rest [60, 62]" using Cons.prems(5) by (rule follow_not_peek) auto
  obtain us rs' where p: "parseredirs rs0 (skip ?r) = Ok (rs0 @ us, skip (show_args args @ show_redirs rs' @ rest))"
    "rs' = (if args = [] then [] else rs)" "map rtext us = (if args = [] then rs else [])"
  proof (cases args)
    case Nil
    then show ?thesis using that [of _ "[]"] redirs_parse [OF Cons.prems(4) nr, of "skip ?r" rs0]
      by (auto simp: show_args_def show_redirs_def)
  next
    case (Cons w' args')
    have "good_word w'" using Cons Cons.prems(1) by simp
    then have "\<not> peek (skip ?r) [60, 62]"
      using gettoken_word(2) [of w' "skip ?r" "show_args args' @ show_redirs rs @ rest"] Cons by (simp add: show_args_def)
    then have "parseredirs rs0 (skip ?r) = Ok (rs0, skip ?r)" by (simp add: parseredirs.simps [of rs0 "skip ?r"])
    then show ?thesis using that [of "[]" rs] Cons by simp
  qed
  let ?a = "(w @ 32 # ?r, 32 # ?r)"
  have step: "parseargs argv rs0 s = parseargs (argv @ [?a]) (rs0 @ us) (skip (show_args args @ show_redirs rs' @ rest))"
    using g Cons.prems(2) p(1) by (simp add: parseargs.simps [of argv rs0 s])
  have gr: "\<forall>(w, mode, fd)\<in>set rs'. good_redir w mode fd" "args = [] \<longrightarrow> rs' = []"
    using Cons.prems(4) p(2) by (simp_all split: if_splits)
  have ga: "\<forall>w\<in>set args. good_word w" "length (argv @ [?a]) + length args < MAXARGS" using Cons.prems(1,2) by simp_all
  obtain ts us' where "parseargs (argv @ [?a]) (rs0 @ us) (skip (show_args args @ show_redirs rs' @ rest)) =
      Ok (redirect (EXEC ((argv @ [?a]) @ ts)) ((rs0 @ us) @ us'), skip rest)"
    "map (\<lambda>(q, eq). tok_text q eq) ts = args" "map rtext us' = rs'"
    using Cons.IH [OF ga gr(2,1) Cons.prems(5) skip_skip, of "rs0 @ us"] by blast
  then show ?case unfolding step using p(2,3)
    by (intro exI [of _ "?a # ts"] exI [of _ "us @ us'"]) auto
qed

text \<open>A command with its redirections taken off.\<close>

definition t_redirect :: "tree \<Rightarrow> (byte list \<times> u32 \<times> int) list \<Rightarrow> tree" where
  "t_redirect t rs = foldl (\<lambda>t (w, mode, fd). T_REDIR t w mode fd) t rs"

lemma texts_redirect: "texts (redirect c us) = t_redirect (texts c) (map rtext us)"
  by (induction us arbitrary: c) (auto simp: redirect_def t_redirect_def rtext_def)

lemma show_redirect: "show_cmd 3 (t_redirect t rs) = show_cmd 3 t @ show_redirs rs"
  by (induction rs arbitrary: t) (auto simp: t_redirect_def show_redirs_def)

lemma t_redirect_snoc: "t_redirect t (rs @ [(w, mode, fd)]) = T_REDIR (t_redirect t rs) w mode fd"
  by (simp add: t_redirect_def)

lemma t_redirect_Nil [simp]: "t_redirect t [] = t"
  by (simp add: t_redirect_def)

definition redirected :: "tree \<Rightarrow> bool" where
  "redirected t = (case t of T_REDIR _ _ _ _ \<Rightarrow> True | _ \<Rightarrow> False)"

lemma tree_strip:
  "\<exists>b rs. t = t_redirect b rs \<and> \<not> redirected b \<and> size b \<le> size t \<and> (rs \<noteq> [] \<longrightarrow> size b < size t) \<and>
    (good_tree t \<longrightarrow> good_tree b \<and> (\<forall>(w, mode, fd)\<in>set rs. good_redir w mode fd))"
proof (induction t)
  case (T_REDIR t w m d)
  then obtain b rs where "t = t_redirect b rs" "\<not> redirected b" "size b \<le> size t"
    "good_tree t \<longrightarrow> good_tree b \<and> (\<forall>(w, mode, fd)\<in>set rs. good_redir w mode fd)" by blast
  then show ?case by (intro exI [of _ b] exI [of _ "rs @ [(w, m, d)]"]) (auto simp: t_redirect_snoc)
next
  case (T_EXEC args)
  show ?case by (intro exI [of _ "T_EXEC args"] exI [of _ "[]"]) (simp add: redirected_def)
next
  case (T_PIPE l r)
  show ?case by (intro exI [of _ "T_PIPE l r"] exI [of _ "[]"]) (simp add: redirected_def)
next
  case (T_LIST l r)
  show ?case by (intro exI [of _ "T_LIST l r"] exI [of _ "[]"]) (simp add: redirected_def)
next
  case (T_BACK t)
  show ?case by (intro exI [of _ "T_BACK t"] exI [of _ "[]"]) (simp add: redirected_def)
qed

definition parses_exec :: "tree \<Rightarrow> bool" where
  "parses_exec t \<longleftrightarrow> (\<forall>s rest f. skip s = skip (show_cmd 3 t @ rest) \<and> follow [124, 41, 38, 59] rest \<and> 4 * length (skip s) + 2 \<le> f \<longrightarrow>
     (\<exists>c. parseexec f s = Ok (c, skip rest) \<and> texts c = t))"

definition parses_pipe :: "tree \<Rightarrow> bool" where
  "parses_pipe t \<longleftrightarrow> (\<forall>s rest f. skip s = skip (show_cmd 2 t @ rest) \<and> follow [41, 38, 59] rest \<and> 4 * length (skip s) + 3 \<le> f \<longrightarrow>
     (\<exists>c. parsepipe f s = Ok (c, skip rest) \<and> texts c = t))"

definition parses_back :: "tree \<Rightarrow> bool" where
  "parses_back t \<longleftrightarrow> (\<forall>s rest f. skip s = skip (show_cmd 1 t @ rest) \<and> follow [41, 38, 59] rest \<and> 4 * length (skip s) + 3 \<le> f \<longrightarrow>
     (\<exists>c s1 c'. parsepipe f s = Ok (c, s1) \<and> parsebacks c s1 = parsebacks c' rest \<and> texts c' = t))"

definition parses_line :: "tree \<Rightarrow> bool" where
  "parses_line t \<longleftrightarrow> (\<forall>s rest f. skip s = skip (show_cmd 0 t @ rest) \<and> follow [41] rest \<and> 4 * length (skip s) + 4 \<le> f \<longrightarrow>
     (\<exists>c. parseline f s = Ok (c, skip rest) \<and> texts c = t))"

lemma follow_mono: "follow toks s \<Longrightarrow> set toks \<subseteq> set toks' \<Longrightarrow> follow toks' s"
  by (auto simp: follow_def peek_def split: list.splits)

lemma follow_skip [simp]: "follow toks (skip s) = follow toks s"
  using peek_skip(1) [of "skip s" s] by (simp add: follow_def)

lemma pipe_of_exec:
  assumes "parses_exec t" "show_cmd 2 t = show_cmd 3 t"
  shows "parses_pipe t"
  unfolding parses_pipe_def
proof (intro allI impI, elim conjE)
  fix s rest f assume a: "skip s = skip (show_cmd 2 t @ rest)" "follow [41, 38, 59] rest" "4 * length (skip s) + 3 \<le> f"
  obtain f' where f: "f = Suc f'" "4 * length (skip s) + 2 \<le> f'" using a(3) by (cases f) auto
  have fo: "follow [124, 41, 38, 59] rest" using follow_mono [OF a(2)] by auto
  obtain c where c: "parseexec f' s = Ok (c, skip rest)" "texts c = t"
    using assms(1) a(1) fo f(2) unfolding parses_exec_def assms(2) by blast
  have "\<not> peek (skip rest) [124]" using follow_not_peek [of "[41, 38, 59]" "skip rest"] a(2) by simp
  then show "\<exists>c. parsepipe f s = Ok (c, skip rest) \<and> texts c = t" using c f by simp
qed

lemma back_of_pipe:
  assumes "parses_pipe t" "show_cmd 1 t = show_cmd 2 t"
  shows "parses_back t"
  unfolding parses_back_def
proof (intro allI impI, elim conjE)
  fix s rest f assume a: "skip s = skip (show_cmd 1 t @ rest)" "follow [41, 38, 59] rest" "4 * length (skip s) + 3 \<le> f"
  then obtain c where "parsepipe f s = Ok (c, skip rest)" "texts c = t"
    using assms(1) unfolding parses_pipe_def assms(2) by blast
  then show "\<exists>c s1 c'. parsepipe f s = Ok (c, s1) \<and> parsebacks c s1 = parsebacks c' rest \<and> texts c' = t"
    using parse_skip(3) [of "skip rest" rest] by auto
qed

lemma parsebacks_none: "\<not> peek s [38] \<Longrightarrow> parsebacks c s = (c, skip s)"
  by (simp add: parsebacks.simps [of c s])

lemma line_of_back:
  assumes "parses_back t" "show_cmd 0 t = show_cmd 1 t"
  shows "parses_line t"
  unfolding parses_line_def
proof (intro allI impI, elim conjE)
  fix s rest f assume a: "skip s = skip (show_cmd 0 t @ rest)" "follow [41] rest" "4 * length (skip s) + 4 \<le> f"
  obtain f' where f: "f = Suc f'" "4 * length (skip s) + 3 \<le> f'" using a(3) by (cases f) auto
  have fo: "follow [41, 38, 59] rest" using follow_mono [OF a(2)] by auto
  obtain c s1 c' where c: "parsepipe f' s = Ok (c, s1)" "parsebacks c s1 = parsebacks c' rest" "texts c' = t"
    using assms(1) a(1) fo f(2) unfolding parses_back_def assms(2) by blast
  have n: "\<not> peek rest [38]" "\<not> peek (skip rest) [59]"
    using follow_not_peek [OF a(2)] follow_not_peek [of "[41]" "skip rest"] a(2) by simp_all
  have "parseline f s = Ok (c', skip rest)" using c(1,2) f n by (simp add: parsebacks_none)
  then show "\<exists>c. parseline f s = Ok (c, skip rest) \<and> texts c = t" using c(3) by blast
qed

lemma exec_words:
  assumes "good_tree (T_EXEC args)" "\<forall>(w, mode, fd)\<in>set rs. good_redir w mode fd"
  shows "parses_exec (t_redirect (T_EXEC args) rs)"
  unfolding parses_exec_def
proof (intro allI impI, elim conjE)
  fix s rest f
  assume a: "skip s = skip (show_cmd 3 (t_redirect (T_EXEC args) rs) @ rest)" "follow [124, 41, 38, 59] rest"
    "4 * length (skip s) + 2 \<le> f"
  obtain f' where f: "f = Suc f'" using a(3) by (cases f) auto
  have s: "skip s = skip (show_args args @ show_redirs rs @ rest)" using a(1) by (simp add: show_redirect)
  have g: "\<forall>w\<in>set args. good_word w" "length args < MAXARGS" using assms(1) by simp_all
  have "\<exists>ts us. parseexec f s = Ok (redirect (EXEC ts) us, skip rest) \<and>
    map (\<lambda>(q, eq). tok_text q eq) ts = args \<and> map rtext us = rs"
  proof (cases args)
    case Nil
    then have s: "skip s = skip (show_redirs rs @ rest)" using s by (simp add: show_args_def)
    have nr: "\<not> peek rest [60, 62]" using a(2) by (rule follow_not_peek) auto
    have "\<not> peek s [40]"
    proof (cases rs)
      case Nil
      then show ?thesis using follow_not_peek [OF a(2), of "[40]"] peek_skip(1) [of s rest "[40]"] s by (simp add: show_redirs_def)
    next
      case (Cons r rs')
      obtain w mode fd where r: "r = (w, mode, fd)" by (cases r)
      have "skip s = skip ((if fd = 0 then 60 else 62) # 32 # w @ 32 # show_redirs rs' @ rest)"
        using s Cons r by (simp add: show_redirs_def show_redir_def)
      from gettoken_sym(2) [OF _ this, of "[40]"] show ?thesis by (simp add: symbols_def)
    qed
    moreover obtain us where us: "parseredirs [] (skip s) = Ok (us, skip rest)" "map rtext us = rs"
      using redirs_parse [OF assms(2) nr, of "skip s" "[]"] s by auto
    moreover have "parseargs [] us (skip rest) = Ok (redirect (EXEC []) us, skip rest)"
      using args_parse [of "[]" "[]" "[]" rest "skip rest" us] a(2) by (simp add: MAXARGS_def show_args_def show_redirs_def)
    ultimately show ?thesis using f Nil by auto
  next
    case (Cons w args')
    have "skip s = skip (w @ 32 # show_args args' @ show_redirs rs @ rest)" using s Cons by (simp add: show_args_def)
    note n = gettoken_word(2,4) [OF _ this]
    have "\<not> peek s [40]" "\<not> peek (skip s) [60, 62]" using n g(1) Cons peek_skip(1) [of "skip s" s] by auto
    moreover have "parseredirs [] (skip s) = Ok ([], skip s)" using calculation by (simp add: parseredirs.simps [of "[]" "skip s"])
    moreover obtain ts us where "parseargs [] [] (skip s) = Ok (redirect (EXEC ts) us, skip rest)"
      "map (\<lambda>(q, eq). tok_text q eq) ts = args" "map rtext us = rs"
      using args_parse [OF g(1) _ _ assms(2) a(2), of "[]" "skip s" "[]"] g(2) s Cons by auto
    ultimately show ?thesis using f by auto
  qed
  then show "\<exists>c. parseexec f s = Ok (c, skip rest) \<and> texts c = t_redirect (T_EXEC args) rs"
    by (auto simp: texts_redirect)
qed

lemma exec_block:
  assumes "parses_line b" "show_cmd 3 b = [40, 32] @ show_cmd 0 b @ [41, 32]" "\<forall>(w, mode, fd)\<in>set rs. good_redir w mode fd"
  shows "parses_exec (t_redirect b rs)"
  unfolding parses_exec_def
proof (intro allI impI, elim conjE)
  fix s rest f
  assume a: "skip s = skip (show_cmd 3 (t_redirect b rs) @ rest)" "follow [124, 41, 38, 59] rest" "4 * length (skip s) + 2 \<le> f"
  obtain f' where f: "f = Suc (Suc f')" "4 * length (skip s) \<le> f'" using a(3) by (cases f; cases "f - 1") auto
  let ?r = "show_redirs rs @ rest" let ?l = "show_cmd 0 b @ 41 # 32 # ?r"
  have s: "skip s = skip (40 # 32 # ?l)" using a(1) assms(2) by (simp add: show_redirect)
  have sy: "(40::byte) \<in> set symbols" "(41::byte) \<in> set symbols" by (simp_all add: symbols_def)
  note g = gettoken_sym [OF sy(1) s]
  note gs = peek_skip [OF skip_skip, of s]
  have "length (skip (skip ?l)) < length (skip s)" using token_after_peek [OF _ _ g(1), of "[40]"] g(2) by simp
  then have le: "4 * length (skip (skip ?l)) + 4 \<le> f'" using f(2) by simp
  have fo: "follow [41] (41 # 32 # ?r)" using gettoken_sym(2) [OF sy(2) refl] by (simp add: follow_def)
  obtain c where c: "parseline f' (skip ?l) = Ok (c, skip (41 # 32 # ?r))" "texts c = b"
    using assms(1) fo le unfolding parses_line_def by (metis skip_skip)
  note g2 = gettoken_sym [OF sy(2), of "skip (41 # 32 # ?r)" ?r]
  have nr: "\<not> peek rest [60, 62]" using a(2) by (rule follow_not_peek) auto
  obtain us where us: "parseredirs [] (skip ?r) = Ok (us, skip rest)" "map rtext us = rs"
    using redirs_parse [OF assms(3) nr, of "skip ?r" "[]"] by auto
  have "parseexec f s = Ok (redirect c us, skip rest)" using f(1) g gs g2 c(1) us(1) by simp
  then show "\<exists>c. parseexec f s = Ok (c, skip rest) \<and> texts c = t_redirect b rs"
    using c(2) us(2) by (auto simp: texts_redirect)
qed

lemma pipe_parses:
  assumes "parses_exec l" "parses_pipe r"
  shows "parses_pipe (T_PIPE l r)"
  unfolding parses_pipe_def
proof (intro allI impI, elim conjE)
  fix s rest f
  assume a: "skip s = skip (show_cmd 2 (T_PIPE l r) @ rest)" "follow [41, 38, 59] rest" "4 * length (skip s) + 3 \<le> f"
  let ?r = "show_cmd 2 r @ rest"
  obtain f' where f: "f = Suc f'" "4 * length (skip s) + 2 \<le> f'" using a(3) by (cases f) auto
  have s: "skip s = skip (show_cmd 3 l @ 124 # 32 # ?r)" using a(1) by (simp add: par_def)
  have sy: "(124::byte) \<in> set symbols" by (simp add: symbols_def)
  have "follow [124, 41, 38, 59] (124 # 32 # ?r)" using gettoken_sym(2) [OF sy refl] by (simp add: follow_def)
  then obtain c where c: "parseexec f' s = Ok (c, skip (124 # 32 # ?r))" "texts c = l"
    using assms(1) s f(2) unfolding parses_exec_def by blast
  note g = gettoken_sym [OF sy, of "skip (124 # 32 # ?r)" ?r, simplified]
  have "length (skip (skip ?r)) < length (skip (skip (124 # 32 # ?r)))"
    using token_after_peek [OF _ _ g(1), of "[124]"] g(2) by simp
  also have "\<dots> \<le> length (skip s)" using parse_shrinks(3) [OF c(1)] skip_length [of "skip (124 # 32 # ?r)"] by simp
  finally have le: "4 * length (skip (skip ?r)) + 3 \<le> f'" using f(2) by simp
  then obtain d where "parsepipe f' (skip ?r) = Ok (d, skip rest)" "texts d = r"
    using assms(2) a(2) unfolding parses_pipe_def by (metis skip_skip)
  then show "\<exists>c. parsepipe f s = Ok (c, skip rest) \<and> texts c = T_PIPE l r" using f(1) c g by simp
qed

lemma back_parses:
  assumes "parses_back t"
  shows "parses_back (T_BACK t)"
  unfolding parses_back_def
proof (intro allI impI, elim conjE)
  fix s rest f
  assume a: "skip s = skip (show_cmd 1 (T_BACK t) @ rest)" "follow [41, 38, 59] rest" "4 * length (skip s) + 3 \<le> f"
  have s: "skip s = skip (show_cmd 1 t @ 38 # 32 # rest)" using a(1) by (simp add: par_def)
  have sy: "(38::byte) \<in> set symbols" by (simp add: symbols_def)
  note g = gettoken_sym [OF sy refl, of rest]
  have "follow [41, 38, 59] (38 # 32 # rest)" using g(2) by (simp add: follow_def)
  then obtain c s1 c' where c: "parsepipe f s = Ok (c, s1)" "parsebacks c s1 = parsebacks c' (38 # 32 # rest)" "texts c' = t"
    using assms s a(3) unfolding parses_back_def by blast
  have "parsebacks c' (38 # 32 # rest) = parsebacks (BACK c') rest"
    using g parse_skip(3) [of "skip rest" rest "BACK c'"] by (simp add: parsebacks.simps [of c' "38 # 32 # rest"])
  then show "\<exists>c s1 c'. parsepipe f s = Ok (c, s1) \<and> parsebacks c s1 = parsebacks c' rest \<and> texts c' = T_BACK t"
    using c by (metis texts.simps(5))
qed

lemma list_parses:
  assumes "parses_back l" "parses_line r"
  shows "parses_line (T_LIST l r)"
  unfolding parses_line_def
proof (intro allI impI, elim conjE)
  fix s rest f
  assume a: "skip s = skip (show_cmd 0 (T_LIST l r) @ rest)" "follow [41] rest" "4 * length (skip s) + 4 \<le> f"
  let ?r = "show_cmd 0 r @ rest" let ?e = "59 # 32 # ?r"
  obtain f' where f: "f = Suc f'" "4 * length (skip s) + 3 \<le> f'" using a(3) by (cases f) auto
  have s: "skip s = skip (show_cmd 1 l @ ?e)" using a(1) by (simp add: par_def)
  have sy: "(59::byte) \<in> set symbols" by (simp add: symbols_def)
  note g = gettoken_sym [OF sy, of "skip ?e" ?r, simplified] and g0 = gettoken_sym(2) [OF sy refl, of ?r]
  have "follow [41, 38, 59] ?e" using g0 by (simp add: follow_def)
  then obtain c s1 c' where c: "parsepipe f' s = Ok (c, s1)" "parsebacks c s1 = parsebacks c' ?e" "texts c' = l"
    using assms(1) s f(2) unfolding parses_back_def by blast
  have b: "parsebacks c s1 = (c', skip ?e)" using c(2) g0 by (simp add: parsebacks_none)
  have "length (skip (skip ?r)) < length (skip (skip ?e))"
    using token_after_peek [OF _ _ g(1), of "[59]"] g(2) by simp
  also have "\<dots> \<le> length (skip s)"
    using parse_shrinks(2) [OF c(1)] parsebacks_shrinks [OF b] skip_length [of s1] by simp
  finally have le: "4 * length (skip (skip ?r)) + 4 \<le> f'" using f(2) by simp
  then obtain d where "parseline f' (skip ?r) = Ok (d, skip rest)" "texts d = r"
    using assms(2) a(2) unfolding parses_line_def by (metis skip_skip)
  then show "\<exists>c. parseline f s = Ok (c, skip rest) \<and> texts c = T_LIST l r" using f(1) c(1,3) b g by simp
qed

definition parses :: "tree \<Rightarrow> bool" where
  "parses t \<longleftrightarrow> parses_exec t \<and> parses_pipe t \<and> parses_back t \<and> parses_line t"

lemma level_free: "rs \<noteq> [] \<Longrightarrow> show_cmd k (t_redirect b rs) = show_cmd 3 (t_redirect b rs)"
  by (cases rs rule: rev_cases) (auto simp: t_redirect_snoc)

lemma parses_of_exec:
  assumes "parses_exec t" "\<And>k. show_cmd k t = show_cmd 3 t"
  shows "parses t"
  unfolding parses_def
  using assms pipe_of_exec back_of_pipe line_of_back by metis

text \<open>Everything but words and redirections is printed in parentheses where a command is called for.\<close>

lemma redirected_parses:
  assumes "parses b" "\<not> redirected b" "good_tree b" "\<forall>(w, mode, fd)\<in>set rs. good_redir w mode fd" "rs \<noteq> []"
  shows "parses (t_redirect b rs)"
proof -
  have "parses_exec (t_redirect b rs)"
  proof (cases "\<exists>args. b = T_EXEC args")
    case True
    then show ?thesis using exec_words assms(3,4) by blast
  next
    case False
    then show ?thesis using assms(1,2) exec_block [OF _ _ assms(4), of b] by (cases b) (auto simp: par_def parses_def redirected_def)
  qed
  then show ?thesis using parses_of_exec level_free [OF assms(5)] by blast
qed

lemma good_tree_parses: "good_tree t \<Longrightarrow> parses t"
proof (induction "size t" arbitrary: t rule: less_induct)
  case less
  obtain b rs where b: "t = t_redirect b rs" "\<not> redirected b" "rs \<noteq> [] \<Longrightarrow> size b < size t"
    and g: "good_tree b" "\<forall>(w, mode, fd)\<in>set rs. good_redir w mode fd"
    using tree_strip [of t] less.prems by auto
  show ?case
  proof (cases "rs = []")
    case False
    then show ?thesis using redirected_parses [OF less.hyps [OF b(3) g(1)] b(2) g] b(1) by simp
  next
    case True
    then have t: "t = b" using b(1) by simp
    show ?thesis
    proof (cases b)
      case (T_EXEC args)
      then show ?thesis using parses_of_exec [of t] exec_words [of args "[]"] g(1) t by simp
    next
      case (T_REDIR t w m d)
      then show ?thesis using b(2) by (simp add: redirected_def)
    next
      case (T_PIPE l r)
      then have "parses l" "parses r" using less.hyps [of l] less.hyps [of r] t g by auto
      then have p: "parses_pipe b" using pipe_parses T_PIPE by (auto simp: parses_def)
      have l: "parses_back b" "parses_line b" using back_of_pipe [OF p] line_of_back T_PIPE by (auto simp: par_def)
      show ?thesis using exec_block [OF l(2), of "[]"] p l t T_PIPE by (simp add: par_def parses_def)
    next
      case (T_LIST l r)
      then have "parses l" "parses r" using less.hyps [of l] less.hyps [of r] t g by auto
      then have l: "parses_line b" using list_parses T_LIST by (auto simp: parses_def)
      have "parses_exec b" using exec_block [OF l, of "[]"] T_LIST by (simp add: par_def)
      then show ?thesis using l t pipe_of_exec [of b] back_of_pipe [of b] T_LIST by (simp add: parses_def par_def)
    next
      case (T_BACK u)
      then have "parses u" using less.hyps [of u] t g by auto
      then have l: "parses_back b" using back_parses T_BACK by (auto simp: parses_def)
      have l2: "parses_line b" using line_of_back [OF l] T_BACK by (simp add: par_def)
      have "parses_exec b" using exec_block [OF l2, of "[]"] T_BACK by (simp add: par_def)
      then show ?thesis using l l2 t pipe_of_exec [of b] T_BACK by (simp add: parses_def par_def)
    qed
  qed
qed

text \<open>C37: parsing a command line that was printed from a tree of words gives the tree back: precedence of pipes,
  background and sequences, parentheses and the order of redirections are what the printer means.\<close>

theorem parsecmd_show:
  assumes "good_tree t"
  shows "\<exists>c buf. parsecmd (show_cmd 0 t) = Ok (c, buf) \<and> texts c = t"
proof -
  have "parses_line t" using good_tree_parses [OF assms] by (simp add: parses_def)
  moreover have "follow [41] []" by (simp add: follow_def)
  ultimately obtain c where "parseline (4 * length (show_cmd 0 t) + 4) (show_cmd 0 t) = Ok (c, [])" "texts c = t"
    unfolding parses_line_def using skip_length [of "show_cmd 0 t"]
    by (metis add_le_cancel_right append_Nil2 mult_le_mono2 skip_simps(2))
  then show ?thesis by (simp add: parsecmd_def)
qed

theorem parsecmd_show_witness:
  "\<exists>c buf. parsecmd (show_cmd 0 (T_LIST (T_BACK (T_PIPE (T_REDIR (T_EXEC [[99, 97, 116]]) [102] O_RD 0) (T_EXEC [[119, 99]])))
      (T_EXEC [[108, 115]]))) = Ok (c, buf) \<and>
    texts c = T_LIST (T_BACK (T_PIPE (T_REDIR (T_EXEC [[99, 97, 116]]) [102] O_RD 0) (T_EXEC [[119, 99]]))) (T_EXEC [[108, 115]])"
  by (rule parsecmd_show) (simp add: good_word_def good_redir_def MAXARGS_def O_RD_def whitespace_def symbols_def)

section \<open>The tokens as C strings\<close>

abbreviation wordc :: "byte \<Rightarrow> bool" where "wordc c \<equiv> \<not> ws c \<and> c \<notin> set symbols"

definition good_tok :: "byte list \<Rightarrow> ptr \<times> ptr \<Rightarrow> bool" where
  "good_tok s0 = (\<lambda>(q, eq). suffix q s0 \<and> (\<exists>w. q = w @ eq \<and> good_word w) \<and> (eq = [] \<or> \<not> wordc (hd eq)))"

fun tokens :: "cmd \<Rightarrow> (ptr \<times> ptr) list" where
  "tokens (EXEC argv) = argv"
| "tokens (REDIR c q eq mode fd) = tokens c @ [(q, eq)]"
| "tokens (PIPE l r) = tokens l @ tokens r"
| "tokens (LIST l r) = tokens l @ tokens r"
| "tokens (BACK c) = tokens c"

lemma nulterminate_tokens: "nulterminate n c buf = fold (\<lambda>(_, eq) buf. buf[n - length eq := 0]) (tokens c) buf"
  by (induction c arbitrary: buf) auto

lemma skip_suffix: "suffix s s0 \<Longrightarrow> suffix (skip s) s0"
  using suffix_dropWhile [of ws s] suffix_order.trans by (auto simp: skip_def)

lemma gettoken_suffix:
  assumes "gettoken s = (tok, q, e, s')" "suffix s s0"
  shows "suffix s' s0" "tok = 97 \<Longrightarrow> good_tok s0 (q, e)"
proof -
  have q: "q = skip s" "s' = skip e" using gettoken_shrinks(3,4) [OF assms(1)] .
  have sq: "suffix q s0" using q skip_suffix [OF assms(2)] by simp
  have "suffix e q"
    using assms(1) q suffix_dropWhile
    by (auto simp: gettoken_def Let_def suffix_tl intro: suffix_ConsI split: list.splits if_splits)
  then show "suffix s' s0" using q sq skip_suffix suffix_order.trans by blast
  show "good_tok s0 (q, e)" if word: "tok = 97"
  proof -
    obtain c r where c: "q = c # r" "e = dropWhile wordc q" "wordc c"
      using assms(1) word q skip_hd [of s] by (auto simp: gettoken_def Let_def symbols_def split: list.splits if_splits)
    have "q = takeWhile wordc q @ e" using c(2) by simp
    moreover have "good_word (takeWhile wordc q)" using c(1,3) by (auto simp: good_word_def dest: set_takeWhileD)
    moreover have "e = [] \<or> \<not> wordc (hd e)" using c(2) hd_dropWhile by blast
    ultimately show ?thesis using sq unfolding good_tok_def by blast
  qed
qed

abbreviation good_reds :: "byte list \<Rightarrow> (ptr \<times> ptr \<times> u32 \<times> int) list \<Rightarrow> bool" where
  "good_reds s0 rs \<equiv> \<forall>(q, eq, _, fd)\<in>set rs. good_tok s0 (q, eq) \<and> fd \<in> {0, 1}"

text \<open>Only standard input and standard output are ever redirected.\<close>

fun std_fds :: "cmd \<Rightarrow> bool" where
  "std_fds (EXEC argv) = True"
| "std_fds (REDIR c q eq mode fd) = (std_fds c \<and> fd \<in> {0, 1})"
| "std_fds (PIPE l r) = (std_fds l \<and> std_fds r)"
| "std_fds (LIST l r) = (std_fds l \<and> std_fds r)"
| "std_fds (BACK c) = std_fds c"

lemma tokens_redirect: "tokens (redirect c rs) = tokens c @ map (\<lambda>(q, eq, _). (q, eq)) rs"
  by (induction rs arbitrary: c) (auto simp: redirect_def)

lemma std_fds_redirect: "std_fds (redirect c rs) \<longleftrightarrow> std_fds c \<and> (\<forall>(_, _, _, fd)\<in>set rs. fd \<in> {0, 1})"
  by (induction rs arbitrary: c) (auto simp: redirect_def)

lemma parseredirs_tokens:
  "parseredirs rs s = Ok (rs', s') \<Longrightarrow> suffix s s0 \<Longrightarrow> good_reds s0 rs \<Longrightarrow> good_reds s0 rs' \<and> suffix s' s0"
proof (induction rs s rule: parseredirs.induct)
  case (1 rs s)
  obtain tok q0 e0 s1 where g1: "gettoken s = (tok, q0, e0, s1)" by (metis prod_cases4)
  obtain tok2 q eq s2 where g2: "gettoken s1 = (tok2, q, eq, s2)" by (metis prod_cases4)
  note x = gettoken_suffix(1) [OF g1 "1.prems"(2)]
  note y = gettoken_suffix [OF g2 x]
  show ?case
  proof (cases "peek s [60, 62]")
    case True
    then have t: "tok2 = 97" using "1.prems" g1 g2 by (simp add: parseredirs.simps [of rs s] split: if_splits)
    let ?rs = "if tok = 60 then rs @ [(q, eq, O_RD, 0)] else if tok = 62 then rs @ [(q, eq, O_WR_CREATE, 1)]
      else if tok = 43 then rs @ [(q, eq, O_WR_CREATE, 1)] else rs"
    have "parseredirs ?rs s2 = Ok (rs', s')" using "1.prems"(1) True g1 g2 t by (simp add: parseredirs.simps [of rs s])
    moreover have "good_reds s0 ?rs" using "1.prems"(3) y(2) [OF t] by simp
    ultimately show ?thesis
      using "1.IH" [OF True g1 [symmetric] refl refl refl g2 [symmetric] refl refl refl] t y(1) by simp
  next
    case False
    then show ?thesis using "1.prems" skip_suffix by (simp add: parseredirs.simps [of rs s]) blast
  qed
qed

lemma parseargs_tokens:
  "parseargs argv rs s = Ok (c, s') \<Longrightarrow> suffix s s0 \<Longrightarrow> good_reds s0 rs \<Longrightarrow> \<forall>x\<in>set argv. good_tok s0 x \<Longrightarrow>
     (\<forall>x\<in>set (tokens c). good_tok s0 x) \<and> suffix s' s0 \<and> std_fds c"
proof (induction argv rs s rule: parseargs.induct)
  case (1 argv rs s)
  obtain tok q eq s1 where g: "gettoken s = (tok, q, eq, s1)" by (metis prod_cases4)
  note x = gettoken_suffix [OF g "1.prems"(2)]
  show ?case
  proof (cases "peek s [124, 41, 38, 59] \<or> tok = 0")
    case True
    then show ?thesis
      using "1.prems" g x(1) skip_suffix [OF "1.prems"(2)]
      by (auto simp: parseargs.simps [of argv rs s] tokens_redirect std_fds_redirect split: if_splits)
  next
    case False
    then obtain rs1 s2 where p: "parseredirs rs s1 = Ok (rs1, s2)" "parseargs (argv @ [(q, eq)]) rs1 s2 = Ok (c, s')" "tok = 97"
        "\<not> length argv + 1 \<ge> MAXARGS"
      using "1.prems" g by (auto simp: parseargs.simps [of argv rs s] res_simps split: if_splits)
    note y = parseredirs_tokens [OF p(1) x(1) "1.prems"(3)]
    have av: "\<forall>x\<in>set (argv @ [(q, eq)]). good_tok s0 x" using x(2) [OF p(3)] "1.prems"(4) by simp
    show ?thesis
      by (rule "1.IH" [OF _ g [symmetric] refl refl refl _ _ _ p(1) refl p(2) conjunct2 [OF y] conjunct1 [OF y] av])
        (use False p(3,4) in simp_all)
  qed
qed

lemma parsebacks_tokens:
  "parsebacks c s = (c', s') \<Longrightarrow> suffix s s0 \<Longrightarrow> tokens c' = tokens c \<and> suffix s' s0 \<and> std_fds c' = std_fds c"
proof (induction c s rule: parsebacks.induct)
  case (1 c s)
  obtain tok q e s1 where g: "gettoken s = (tok, q, e, s1)" by (metis prod_cases4)
  show ?case
    using "1.IH" [OF _ g [symmetric] refl refl refl] "1.prems" g gettoken_suffix(1) [OF g "1.prems"(2)] skip_suffix [OF "1.prems"(2)]
    by (simp add: parsebacks.simps [of c s] split: if_splits)
qed

abbreviation tokens_in :: "byte list \<Rightarrow> cmd \<times> ptr \<Rightarrow> bool" where
  "tokens_in s0 r \<equiv> (\<forall>x\<in>set (tokens (fst r)). good_tok s0 x) \<and> suffix (snd r) s0 \<and> std_fds (fst r)"

lemma parse_tokens:
  "parseline f s = Ok r \<Longrightarrow> suffix s s0 \<Longrightarrow> tokens_in s0 r"
  "parsepipe f s = Ok r \<Longrightarrow> suffix s s0 \<Longrightarrow> tokens_in s0 r"
  "parseexec f s = Ok r \<Longrightarrow> suffix s s0 \<Longrightarrow> tokens_in s0 r"
  "parseblock f s = Ok r \<Longrightarrow> suffix s s0 \<Longrightarrow> tokens_in s0 r"
proof (induction f s and f s and f s and f s arbitrary: r and r and r and r
    rule: parseline_parsepipe_parseexec_parseblock.induct)
  case (2 f s)
  obtain c1 s1 where p: "parsepipe f s = Ok (c1, s1)" using "2.prems" by (auto simp: res_simps)
  obtain c2 s2 where b: "parsebacks c1 s1 = (c2, s2)" by force
  obtain tok q e s3 where g: "gettoken s2 = (tok, q, e, s3)" by (metis prod_cases4)
  have i1: "tokens_in s0 (c1, s1)" using "2.IH"(1) [OF p "2.prems"(2)] .
  then have i2: "tokens_in s0 (c2, s2)" using parsebacks_tokens [OF b, of s0] by simp
  note s3 = gettoken_suffix(1) [OF g, of s0]
  show ?case
  proof (cases "peek s2 [59]")
    case True
    then obtain l where r: "parseline f s3 = Ok l" "r = (LIST c2 (fst l), snd l)" using "2.prems" p b g by (auto simp: res_simps)
    have "tokens_in s0 l" using "2.IH"(2) [OF p refl b [symmetric] refl True g [symmetric] refl refl refl r(1)] s3 i2 by simp
    then show ?thesis using r(2) i2 by auto
  next
    case False
    then show ?thesis using "2.prems" p b i2 skip_suffix by (auto simp: res_simps)
  qed
next
  case (4 f s)
  obtain c1 s1 where p: "parseexec f s = Ok (c1, s1)" using "4.prems" by (auto simp: res_simps)
  obtain tok q e s3 where g: "gettoken s1 = (tok, q, e, s3)" by (metis prod_cases4)
  have i1: "tokens_in s0 (c1, s1)" using "4.IH"(1) [OF p "4.prems"(2)] .
  note s3 = gettoken_suffix(1) [OF g, of s0]
  show ?case
  proof (cases "peek s1 [124]")
    case True
    then obtain l where r: "parsepipe f s3 = Ok l" "r = (PIPE c1 (fst l), snd l)" using "4.prems" p g by (auto simp: res_simps)
    have "tokens_in s0 l" using "4.IH"(2) [OF p refl True g [symmetric] refl refl refl r(1)] s3 i1 by simp
    then show ?thesis using r(2) i1 by auto
  next
    case False
    then show ?thesis using "4.prems" p i1 skip_suffix by (auto simp: res_simps)
  qed
next
  case (6 f s)
  show ?case
  proof (cases "peek s [40]")
    case True
    then show ?thesis using "6.IH" [OF True] "6.prems" skip_suffix by simp
  next
    case False
    then obtain rs s1 where r: "parseredirs [] (skip s) = Ok (rs, s1)" "parseargs [] rs s1 = Ok r"
      using "6.prems" by (auto simp: res_simps)
    have "good_reds s0 rs \<and> suffix s1 s0" using parseredirs_tokens [OF r(1)] skip_suffix [OF "6.prems"(2)] by simp
    then show ?thesis using parseargs_tokens [of "[]" rs s1 "fst r" "snd r" s0] r(2) by simp
  qed
next
  case (8 f s)
  obtain tok q e s1 where g: "gettoken s = (tok, q, e, s1)" by (metis prod_cases4)
  have pk: "peek s [40]" using "8.prems" by (auto split: if_splits)
  obtain c1 s2 where l: "parseline f s1 = Ok (c1, s2)" using "8.prems" pk g by (auto simp: res_simps)
  obtain tok' q' e' s3 where g': "gettoken s2 = (tok', q', e', s3)" by (metis prod_cases4)
  obtain rs where r: "parseredirs [] s3 = Ok (rs, snd r)" "fst r = redirect c1 rs"
    using "8.prems" pk g g' l by (auto simp: res_simps split: if_splits)
  have "tokens_in s0 (c1, s2)"
    using "8.IH" [of _ _ _ _ _ _ s1, OF _ g [symmetric] refl refl refl l gettoken_suffix(1) [OF g "8.prems"(2)]] pk by simp
  then show ?case using parseredirs_tokens [OF r(1), of s0] gettoken_suffix(1) [OF g', of s0] r(2) by (auto simp: tokens_redirect std_fds_redirect)
qed simp_all

text \<open>Zeros are written only behind tokens, where no character of a word is.\<close>

lemma zeros_spare_words:
  assumes "\<forall>x\<in>set ts. good_tok s x" "i < length s" "wordc (s ! i)"
  shows "fold (\<lambda>(_, eq) buf. buf[length s - length eq := 0]) ts buf ! i = buf ! i"
  using assms(1)
proof (induction ts arbitrary: buf)
  case (Cons t ts)
  obtain q eq where t: "t = (q, eq)" by (cases t)
  obtain p w where p: "s = p @ w @ eq" "eq = [] \<or> \<not> wordc (hd eq)"
    using Cons.prems t by (auto simp: good_tok_def suffix_def)
  have "i \<noteq> length s - length eq"
  proof
    assume i: "i = length s - length eq"
    then have "eq \<noteq> []" using assms(2) by auto
    then have "s ! i = hd eq" using i p(1) by (simp add: nth_append hd_conv_nth)
    then show False using p(2) \<open>eq \<noteq> []\<close> assms(3) by simp
  qed
  then show ?case using Cons.IH [of "buf[length s - length eq := 0]"] Cons.prems t by simp
qed simp

lemma zeros_length [simp]: "length (fold (\<lambda>(_, eq) buf. buf[n - length eq := 0]) ts buf) = length buf"
  by (induction ts arbitrary: buf) auto

lemma zero_stays:
  "i < length buf \<Longrightarrow> buf ! i = 0 \<Longrightarrow> fold (\<lambda>(_, eq) buf. buf[n - length eq := 0]) ts buf ! i = (0::byte)"
proof (induction ts arbitrary: buf)
  case (Cons t ts)
  obtain q eq where t: "t = (q, eq)" by (cases t)
  have "buf[n - length eq := 0] ! i = 0" using Cons.prems by (cases "n - length eq = i") simp_all
  then show ?case using Cons.IH [of "buf[n - length eq := 0]"] Cons.prems(1) t by simp
qed simp

lemma zero_written:
  assumes "(q, eq) \<in> set ts" "n - length eq < length buf"
  shows "fold (\<lambda>(_, eq) buf. buf[n - length eq := (0::byte)]) ts buf ! (n - length eq) = 0"
  using assms
proof (induction ts arbitrary: buf)
  case (Cons t ts)
  then show ?case by (cases "t = (q, eq)") (auto simp: zero_stays split: prod.splits)
qed simp

lemma c_string_at:
  assumes "take (length w) (drop k b) = w" "b ! (k + length w) = 0" "k + length w < length b" "0 \<notin> set w"
  shows "takeWhile (\<lambda>x. x \<noteq> 0) (drop k b) = (w :: byte list)"
proof -
  have "drop (k + length w) b = 0 # drop (Suc (k + length w)) b" using Cons_nth_drop_Suc [OF assms(3)] assms(2) by simp
  then have "drop k b = w @ 0 # drop (Suc (k + length w)) b"
    using append_take_drop_id [of "length w" "drop k b"] assms(1) by (simp add: add.commute)
  moreover have "\<forall>x\<in>set w. x \<noteq> 0" using assms(4) by auto
  ultimately show ?thesis by (simp add: takeWhile_append2)
qed

definition cstring :: "nat \<Rightarrow> byte list \<Rightarrow> ptr \<Rightarrow> byte list" where
  "cstring n buf q = takeWhile (\<lambda>x. x \<noteq> 0) (drop (n - length q) buf)"

lemma token_string:
  assumes "parsecmd s = Ok (c, buf)" "0 \<notin> set s" "(q, eq) \<in> set (tokens c)"
  shows "cstring (length s) buf q = tok_text q eq \<and> good_word (tok_text q eq)"
proof -
  obtain s' where p: "parseline (4 * length s + 4) s = Ok (c, s')" "buf = nulterminate (length s) c (s @ [0])"
    using assms(1) by (auto simp: parsecmd_def res_simps split: if_splits)
  have ts: "\<forall>x\<in>set (tokens c). good_tok s x" using parse_tokens(1) [OF p(1), of s] by simp
  let ?buf = "fold (\<lambda>(_, eq) buf. buf[length s - length eq := 0]) (tokens c) (s @ [0])"
  obtain u w where s: "s = u @ w @ eq" "q = w @ eq" "good_word w" using ts assms(3) by (auto simp: good_tok_def suffix_def)
  have w: "tok_text q eq = w" using s(2) by (simp add: tok_text_def)
  have len: "length s - length q = length u" "length s - length eq = length u + length w" using s(1,2) by simp_all
  have z: "?buf ! (length u + length w) = 0" using zero_written [OF assms(3), of "length s" "s @ [0]"] len s(1) by simp
  have "take (length w) (drop (length u) ?buf) = w"
  proof (rule nth_equalityI)
    fix i assume "i < length (take (length w) (drop (length u) ?buf))"
    then have i: "i < length w" by simp
    have si: "s ! (length u + i) = w ! i" "length u + i < length s" using i s(1) by (simp_all add: nth_append)
    have "wordc (w ! i)" using s(3) i by (simp add: good_word_def)
    then have "?buf ! (length u + i) = w ! i" using zeros_spare_words [OF ts si(2), of "s @ [0]"] si by (simp add: nth_append)
    then show "take (length w) (drop (length u) ?buf) ! i = w ! i" using i s(1) by simp
  qed (use s(1) in simp)
  then show ?thesis
    using c_string_at [of w "length u" ?buf] z assms(2) w s(1,3) len(1) p(2) by (simp add: nulterminate_tokens cstring_def)
qed

text \<open>In the buffer that \<open>parsecmd\<close> leaves behind, the C string at every argument and every file name of the
  command is the text of its token: \<open>nulterminate\<close> cuts no token short, even where a token is followed by a symbol
  without a blank between them.\<close>

lemma parsecmd_strings:
  assumes "parsecmd s = Ok (c, buf)" "0 \<notin> set s" "(q, eq) \<in> set (tokens c)"
  shows "cstring (length s) buf q = tok_text q eq \<and> good_word (tok_text q eq)"
  using assms by (rule token_string)

lemma parsecmd_strings_witness:
  "\<exists>c buf. parsecmd [97, 98, 62, 99] = Ok (c, buf) \<and> (\<forall>(q, eq)\<in>set (tokens c).
     cstring 4 buf q = tok_text q eq \<and> good_word (tok_text q eq)) \<and>
     texts c = T_REDIR (T_EXEC [[97, 98]]) [99] O_WR_CREATE 1"
proof -
  let ?c = "REDIR (EXEC [([97, 98, 62, 99], [62, 99])]) [99] [] O_WR_CREATE 1"
  have p: "parsecmd [97, 98, 62, 99] = Ok (?c, [97, 98, 0, 99, 0])" by code_simp
  have "\<forall>(q, eq)\<in>set (tokens ?c). cstring 4 [97, 98, 0, 99, 0] q = tok_text q eq \<and>
      good_word (tok_text q eq)"
    using parsecmd_strings [OF p] by (auto simp: cstring_def tok_text_def good_word_def whitespace_def symbols_def)
  moreover have "texts ?c = T_REDIR (T_EXEC [[97, 98]]) [99] O_WR_CREATE 1" by (simp add: tok_text_def)
  ultimately show ?thesis using p by blast
qed

end
