(* ===== verification/Shell_Run.thy ===== *)
theory Shell_Run
  imports Shell
begin

text \<open>
  What the shell \<open>sh.c\<close> does with a command: \<open>runcmd\<close> and the loop of \<open>main\<close>. A process that makes system
  calls is the tree of its calls, one branch for each way a call can come out; the branches of \<open>fork\<close>
  are the child, the parent and the failure. The trees are run on a table of descriptors as the kernel keeps
  it: \<open>open\<close>, \<open>dup\<close> and \<open>pipe\<close> take the lowest free slot, as \<open>fdalloc\<close> does.
\<close>

section \<open>Processes as trees of system calls\<close>

datatype act =
    Exit
  | Exec "byte list" "byte list list" act
  | Close nat act
  | Dup nat act
  | Open "byte list" u32 "nat \<Rightarrow> act" act
  | Pipe "nat \<Rightarrow> nat \<Rightarrow> act" act
  | Fork u32 act act act
  | Wait act
  | Chdir "byte list" act act
  | Print "byte list" act

definition panic_act :: "byte list \<Rightarrow> act" where
  "panic_act str = Print (str @ [10]) Exit"

definition fork1 :: "act \<Rightarrow> act \<Rightarrow> act" where
  "fork1 child parnt = Fork 500 child parnt (panic_act (lit ''fork''))"

text \<open>The strings of the command are in the line of length \<open>n\<close> that \<open>parsecmd\<close> has left in \<open>buf\<close>.\<close>

primrec runcmd :: "nat \<Rightarrow> byte list \<Rightarrow> cmd \<Rightarrow> act" where
  "runcmd n buf (EXEC argv) =
     (case argv of
        [] \<Rightarrow> Exit
      | a # _ \<Rightarrow>
          Exec (cstring n buf (fst a)) (map (\<lambda>a. cstring n buf (fst a)) argv)
            (Print (lit ''exec '' @ cstring n buf (fst a) @ lit '' failed'' @ [10]) Exit))"
| "runcmd n buf (REDIR c q eq mode fd) =
     Close (nat fd)
       (Open (cstring n buf q) mode (\<lambda>_. runcmd n buf c)
          (Print (lit ''open '' @ cstring n buf q @ lit '' failed'' @ [10]) Exit))"
| "runcmd n buf (LIST l r) = fork1 (runcmd n buf l) (Wait (runcmd n buf r))"
| "runcmd n buf (PIPE l r) =
     Pipe (\<lambda>p0 p1.
         fork1 (Close 1 (Dup p1 (Close p0 (Close p1 (runcmd n buf l)))))
           (fork1 (Close 0 (Dup p0 (Close p0 (Close p1 (runcmd n buf r)))))
             (Close p0 (Close p1 (Wait (Wait Exit))))))
       (panic_act (lit ''pipe''))"
| "runcmd n buf (BACK c) = fork1 (runcmd n buf c) Exit"

text \<open>The child that the main loop forks for a line. The message about leftovers is not kept apart from the panic.\<close>

definition run_line :: "byte list \<Rightarrow> act" where
  "run_line l =
     (case parsecmd l of
        Ok (c, buf) \<Rightarrow> runcmd (length l) buf c
      | Panic m \<Rightarrow> panic_act (lit m)
      | Stuck \<Rightarrow> Exit)"

text \<open>The lines are the strings that \<open>gets\<close> returns one after the other; the empty one is the end of the input.\<close>

fun main_loop :: "byte list list \<Rightarrow> act" where
  "main_loop [] = Print (lit ''$ '') Exit"
| "main_loop (l # ls) = Print (lit ''$ '')
     (if l = [] then Exit
      else if take 3 l = lit ''cd '' then
        let dir = drop 3 (butlast l) in
        Chdir dir (main_loop ls) (Print (lit ''cannot cd '' @ dir @ [10]) (main_loop ls))
      else fork1 (run_line l) (Wait (main_loop ls)))"

text \<open>The descriptors that \<open>open\<close> returns go up, so that the loop ends after four turns.\<close>

fun open_console :: "nat \<Rightarrow> act \<Rightarrow> act" where
  "open_console 0 k = k"
| "open_console (Suc i) k =
     Open (lit ''console'') 2 (\<lambda>fd. if fd \<ge> 3 then Close fd k else open_console i k) k"

definition sh_main :: "byte list list \<Rightarrow> act" where
  "sh_main ls = open_console 4 (main_loop ls)"

section \<open>Descriptors\<close>

datatype desc = Given nat | Opened "byte list" u32 | Read_end nat | Write_end nat

type_synonym fd_table = "desc option list"

abbreviation free_fd :: "fd_table \<Rightarrow> nat option" where
  "free_fd t \<equiv> first_idx (\<lambda>d. d = None) t"

text \<open>
  What a process and its children come to do: the programs that they execute, each with its arguments and its
  descriptors, and the times that they wait for a child, with the descriptors that they keep open meanwhile. \<open>fork\<close>, \<open>exec\<close>
  and \<open>chdir\<close> succeed, and \<open>open\<close> and \<open>pipe\<close> fail only for want of a free slot; \<open>n\<close> is the number of pipes so far.
\<close>

datatype event = Runs "byte list list" fd_table | Waits fd_table

type_synonym started = "event list \<times> nat"

primrec launch :: "act \<Rightarrow> fd_table \<Rightarrow> nat \<Rightarrow> started" where
  "launch Exit t n = ([], n)"
| "launch (Exec path argv k) t n = ([Runs argv t], n)"
| "launch (Close fd k) t n = launch k (t[fd := None]) n"
| "launch (Dup fd k) t n =
     launch k (if fd < length t \<and> t ! fd \<noteq> None then (case free_fd t of None \<Rightarrow> t | Some i \<Rightarrow> t[i := t ! fd]) else t) n"
| "launch (Open path mode k bad) t n =
     (case free_fd t of None \<Rightarrow> launch bad t n | Some i \<Rightarrow> launch (k i) (t[i := Some (Opened path mode)]) n)"
| "launch (Pipe k bad) t n =
     (case free_fd t of None \<Rightarrow> launch bad t n | Some i \<Rightarrow>
      let t1 = t[i := Some (Read_end n)] in
      case free_fd t1 of None \<Rightarrow> launch bad t n | Some j \<Rightarrow>
      launch (k i j) (t1[j := Some (Write_end n)]) (n + 1))"
| "launch (Fork tickets child parnt bad) t n =
     (let (a, n1) = launch child t n; (b, n2) = launch parnt t n1 in (a @ b, n2))"
| "launch (Wait k) t n = (let (b, n1) = launch k t n in (Waits t # b, n1))"
| "launch (Chdir dir ok bad) t n = launch ok t n"
| "launch (Print str k) t n = launch k t n"

text \<open>What a command means. The process that waits for the two sides of a pipe holds no end of it.\<close>

fun plumb :: "tree \<Rightarrow> fd_table \<Rightarrow> nat \<Rightarrow> started" where
  "plumb (T_EXEC args) t n = ((if args = [] then [] else [Runs args t]), n)"
| "plumb (T_REDIR c w mode fd) t n = plumb c (t[nat fd := Some (Opened w mode)]) n"
| "plumb (T_LIST l r) t n = (let (a, n1) = plumb l t n; (b, n2) = plumb r t n1 in (a @ Waits t # b, n2))"
| "plumb (T_PIPE l r) t n =
     (let (a, n1) = plumb l (t[1 := Some (Write_end n)]) (n + 1);
          (b, n2) = plumb r (t[0 := Some (Read_end n)]) n1 in
      (a @ b @ [Waits t, Waits t], n2))"
| "plumb (T_BACK c) t n = plumb c t n"

text \<open>Standard input and output are open and there is room for a pipe.\<close>

definition ready :: "fd_table \<Rightarrow> bool" where
  "ready t \<longleftrightarrow> 2 \<le> length t \<and> t ! 0 \<noteq> None \<and> t ! 1 \<noteq> None \<and>
     (\<exists>i j. i < j \<and> j < length t \<and> t ! i = None \<and> t ! j = None)"

lemma upd_nth: "xs[i := x] ! j = (if i = j \<and> j < length xs then x else xs ! j)"
  by (cases "j < length xs") (simp_all add: nth_list_update list_update_beyond nth_list_update_neq, metis linorder_not_less list_update_beyond nth_list_update_neq)

lemma readyD: "ready t \<Longrightarrow> 0 < length t \<and> 1 < length t \<and> t ! 0 \<noteq> None \<and> t ! 1 \<noteq> None"
  by (auto simp: ready_def)

lemma free_fd_at: "i < length t \<Longrightarrow> t ! i = None \<Longrightarrow> \<forall>j<i. t ! j \<noteq> None \<Longrightarrow> free_fd t = Some i"
  by (simp add: first_idx_Some)

lemma ready_update:
  assumes "ready t" "fd \<in> {0, 1}"
  shows "ready (t[fd := Some d])"
proof -
  obtain i j where ij: "i < j" "j < length t" "t ! i = None" "t ! j = None" and o: "2 \<le> length t" "t ! 0 \<noteq> None" "t ! 1 \<noteq> None"
    using assms(1) by (auto simp: ready_def)
  then have "i \<noteq> fd" "j \<noteq> fd" using assms(2) by (metis insertE singletonD)+
  then have "t[fd := Some d] ! i = None \<and> t[fd := Some d] ! j = None" using ij by simp
  moreover have "t[fd := Some d] ! 0 \<noteq> None" "t[fd := Some d] ! 1 \<noteq> None"
    using assms(2) readyD [OF assms(1)] by (auto simp: upd_nth)
  ultimately show ?thesis using ij o(1) unfolding ready_def by (metis length_list_update)
qed

text \<open>Closing a standard descriptor makes it the next one to be handed out.\<close>

lemma free_fd_closed: "ready t \<Longrightarrow> fd \<in> {0, 1} \<Longrightarrow> free_fd (t[fd := None]) = Some fd"
  by (drule readyD, rule free_fd_at) (auto simp: less_Suc_eq upd_nth)

lemma ready_pipe:
  assumes "ready t"
  obtains i j where "free_fd t = Some i" "free_fd (t[i := Some a]) = Some j" "2 \<le> i" "2 \<le> j" "i \<noteq> j"
    "i < length t" "j < length t" "t ! i = None" "t ! j = None"
proof -
  obtain x y where xy: "x < y" "y < length t" "t ! x = None" "t ! y = None" and o: "2 \<le> length t" "t ! 0 \<noteq> None" "t ! 1 \<noteq> None"
    using assms by (auto simp: ready_def)
  have "free_fd t \<noteq> None" using xy by (auto simp: in_set_conv_nth)
  then obtain i where i: "free_fd t = Some i" by blast
  note fi = first_idx_SomeD [OF i]
  have "\<exists>z. z \<noteq> i \<and> z < length t \<and> t ! z = None" using xy by (metis less_trans nat_neq_iff)
  then have "free_fd (t[i := Some a]) \<noteq> None" by (auto simp: in_set_conv_nth nth_list_update)
  then obtain j where j: "free_fd (t[i := Some a]) = Some j" by blast
  note fj = first_idx_SomeD [OF j]
  have "i \<noteq> j" using fi(1) fj(2) by auto
  then have tj: "t ! j = None" "j < length t" using fj by auto
  have "2 \<le> k" if "t ! k = None" for k using o that by (cases "k = 0"; cases "k = 1") auto
  then show thesis using that i j fi(1,2) tj \<open>i \<noteq> j\<close> by blast
qed

lemma launch_redirect:
  "ready t \<Longrightarrow> fd \<in> {0, 1} \<Longrightarrow> launch (Close fd (Open path mode k bad)) t n = launch (k fd) (t[fd := Some (Opened path mode)]) n"
  by (simp add: free_fd_closed)

lemma launch_fork1: "launch (fork1 child parnt) t n = (let (a, n1) = launch child t n; (b, n2) = launch parnt t n1 in (a @ b, n2))"
  by (simp add: fork1_def)

lemma closed_again: "i \<noteq> j \<Longrightarrow> t ! i = None \<Longrightarrow> t ! j = None \<Longrightarrow> fd \<noteq> i \<Longrightarrow> fd \<noteq> j \<Longrightarrow>
   t[i := a, j := b, fd := d, i := None, j := None] = t[fd := d]"
  by (rule nth_equalityI) (auto simp: upd_nth)

text \<open>The child of \<open>fork\<close> in \<open>PIPE\<close> ends with its end of the pipe in place and both others closed.\<close>

lemma pipe_end:
  assumes "ready t" "fd \<in> {0, 1}" "2 \<le> i" "2 \<le> j" "i \<noteq> j" "i < length t" "j < length t" "t ! i = None" "t ! j = None"
    "e \<in> {i, j}" "d = (if e = i then a else b)"
  shows "launch (Close fd (Dup e (Close i (Close j k)))) (t[i := Some a, j := Some b]) n = launch k (t[fd := Some d]) n"
proof -
  let ?t = "t[i := Some a, j := Some b]"
  have n: "fd \<noteq> i" "fd \<noteq> j" "fd \<noteq> e" using assms(2,3,4,10) by auto
  have "?t ! e = Some d" using assms(5-7,10,11) by (auto simp: nth_list_update)
  then have e: "?t[fd := None] ! e = Some d" using n by simp
  have "free_fd (?t[fd := None]) = Some fd"
    using assms(2-4) readyD [OF assms(1)] by (intro free_fd_at) (auto simp: less_Suc_eq upd_nth)
  then show ?thesis using e n assms(5-10) by (auto simp: closed_again)
qed

lemma pipe_waits:
  "i \<noteq> j \<Longrightarrow> t ! i = None \<Longrightarrow> t ! j = None \<Longrightarrow>
   launch (Close i (Close j (Wait (Wait Exit)))) (t[i := a, j := b]) n = ([Waits t, Waits t], n)"
proof -
  assume "i \<noteq> j" "t ! i = None" "t ! j = None"
  then have "t[i := a, j := b, i := None, j := None] = t" by (intro nth_equalityI) (auto simp: upd_nth)
  then show ?thesis by simp
qed

lemma runcmd_plumb:
  assumes "std_fds c" "\<forall>(q, eq)\<in>set (tokens c). cstring m buf q = tok_text q eq" "ready t"
  shows "launch (runcmd m buf c) t n = plumb (texts c) t n"
  using assms
proof (induction c arbitrary: t n)
  case (EXEC argv)
  then have "map (\<lambda>a. cstring m buf (fst a)) argv = map (\<lambda>(q, eq). tok_text q eq) argv" by auto
  then show ?case by (auto split: list.splits)
next
  case (REDIR c q eq mode fd)
  then have fd: "nat fd \<in> {0, 1}" and s: "cstring m buf q = tok_text q eq" by auto
  show ?case using REDIR ready_update [OF REDIR.prems(3) fd] s
    unfolding runcmd.simps launch_redirect [OF REDIR.prems(3) fd] by simp
next
  case (PIPE l r)
  obtain i j where ij: "free_fd t = Some i" "free_fd (t[i := Some (Read_end n)]) = Some j" "2 \<le> i" "2 \<le> j" "i \<noteq> j"
    "i < length t" "j < length t" "t ! i = None" "t ! j = None" using ready_pipe [OF PIPE.prems(3)] by metis
  note e = pipe_end [OF PIPE.prems(3) _ ij(3-9), of _ _ _ "Read_end n" "Write_end n"]
  have l: "launch (runcmd m buf l) (t[1 := Some (Write_end n)]) k = plumb (texts l) (t[1 := Some (Write_end n)]) k" for k
    using PIPE.IH(1) [of "t[1 := Some (Write_end n)]" k] PIPE.prems ready_update [OF PIPE.prems(3), of 1] by simp
  have r: "launch (runcmd m buf r) (t[0 := Some (Read_end n)]) k = plumb (texts r) (t[0 := Some (Read_end n)]) k" for k
    using PIPE.IH(2) [of "t[0 := Some (Read_end n)]" k] PIPE.prems ready_update [OF PIPE.prems(3), of 0] by simp
  have "launch (runcmd m buf (PIPE l r)) t n =
    (let t' = t[i := Some (Read_end n), j := Some (Write_end n)];
         (a, n1) = launch (Close 1 (Dup j (Close i (Close j (runcmd m buf l))))) t' (n + 1);
         (b, n2) = launch (Close 0 (Dup i (Close i (Close j (runcmd m buf r))))) t' n1 in (a @ b @ [Waits t, Waits t], n2))"
    unfolding runcmd.simps launch.simps(6) ij(1,2) option.case Let_def launch_fork1 pipe_waits [OF ij(5,8,9)]
    by (simp add: case_prod_unfold del: launch.simps(3,4))
  then show ?case using e [of 1 j "Write_end n"] e [of 0 i "Read_end n"] ij(5) l r
    by (simp add: case_prod_unfold Let_def del: launch.simps(3,4))
next
  case (LIST l r)
  have "launch (runcmd m buf l) t k = plumb (texts l) t k" "launch (runcmd m buf r) t k = plumb (texts r) t k" for k
    using LIST by simp_all
  then show ?case by (simp add: launch_fork1 case_prod_unfold Let_def)
next
  case (BACK c)
  then show ?case by (simp add: launch_fork1 case_prod_unfold Let_def)
qed

section \<open>A session\<close>

lemma line_plumb:
  assumes "parsecmd s = Ok (c, buf)" "0 \<notin> set s" "ready t"
  shows "launch (runcmd (length s) buf c) t n = plumb (texts c) t n"
proof (rule runcmd_plumb)
  obtain s' where "parseline (4 * length s + 4) s = Ok (c, s')"
    using assms(1) by (auto simp: parsecmd_def res_simps split: if_splits)
  then show "std_fds c" using parse_tokens(1) [of _ s _ s] by force
  show "\<forall>(q, eq)\<in>set (tokens c). cstring (length s) buf q = tok_text q eq" using token_string [OF assms(1,2)] by auto
qed (rule assms(3))

text \<open>What the lines of a session do, all from the same descriptors; the shell waits for each line but for \<open>cd\<close>.\<close>

fun session :: "byte list list \<Rightarrow> fd_table \<Rightarrow> nat \<Rightarrow> started" where
  "session [] t n = ([], n)"
| "session (l # ls) t n =
     (if l = [] then ([], n)
      else if take 3 l = lit ''cd '' then session ls t n
      else
        let (a, n1) = (case parsecmd l of Ok (c, _) \<Rightarrow> plumb (texts c) t n | _ \<Rightarrow> ([], n));
            (b, n2) = session ls t n1 in
        (a @ Waits t # b, n2))"

lemma run_line_plumb:
  assumes "0 \<notin> set l" "ready t"
  shows "launch (run_line l) t n = (case parsecmd l of Ok (c, _) \<Rightarrow> plumb (texts c) t n | _ \<Rightarrow> ([], n))"
  using line_plumb [OF _ assms] by (auto simp: run_line_def panic_act_def split: res.splits)

lemma main_loop_session:
  "\<forall>l\<in>set ls. 0 \<notin> set l \<Longrightarrow> ready t \<Longrightarrow> launch (main_loop ls) t n = session ls t n"
  by (induction ls arbitrary: n) (auto simp: launch_fork1 run_line_plumb Let_def case_prod_unfold)

abbreviation console_desc :: desc where "console_desc \<equiv> Opened (lit ''console'') 2"

definition with_console :: "fd_table \<Rightarrow> fd_table" where
  "with_console t = map (\<lambda>i. if i < 3 \<and> t ! i = None then Some console_desc else t ! i) [0..<length t]"

lemma with_console_nth:
  "x < length t \<Longrightarrow> with_console t ! x = (if x < 3 \<and> t ! x = None then Some console_desc else t ! x)"
  "length (with_console t) = length t"
  by (simp_all add: with_console_def)

definition missing :: "fd_table \<Rightarrow> nat set" where
  "missing t = {i. i < 3 \<and> t ! i = None}"

lemma open_console_fills:
  assumes "card (missing t) < i" "\<exists>j<length t. 3 \<le> j \<and> t ! j = None"
  shows "launch (open_console i k) t n = launch k (with_console t) n"
  using assms
proof (induction i arbitrary: t)
  case (Suc i)
  have "free_fd t \<noteq> None" using Suc.prems(2) by (auto simp: in_set_conv_nth)
  then obtain f where f: "free_fd t = Some f" by blast
  note ff = first_idx_SomeD [OF f]
  show ?case
  proof (cases "f \<ge> 3")
    case True
    then have "with_console t = t" using ff(3) by (intro nth_equalityI) (auto simp: with_console_nth)
    moreover have "t[f := None] = t" using ff(2) by (metis list_update_id)
    ultimately show ?thesis using f True by simp
  next
    case False
    let ?t = "t[f := Some console_desc]"
    have "missing ?t = missing t - {f}" using ff(1) by (auto simp: missing_def upd_nth split: if_splits)
    moreover have "f \<in> missing t" "finite (missing t)" using False ff(2) by (simp_all add: missing_def)
    ultimately have "card (missing ?t) < i" using Suc.prems(1) card_Suc_Diff1 [of "missing t" f] by simp
    moreover have "\<exists>j<length ?t. 3 \<le> j \<and> ?t ! j = None"
    proof -
      obtain j where "j < length t" "3 \<le> j" "t ! j = None" using Suc.prems(2) by blast
      then show ?thesis using False by (intro exI [of _ j]) simp
    qed
    moreover have "with_console ?t = with_console t"
      using False ff(2) by (intro nth_equalityI) (auto simp: with_console_nth upd_nth)
    moreover have "launch (open_console (Suc i) k) t n = launch (open_console i k) ?t n" using f False by simp
    ultimately show ?thesis using Suc.IH [of ?t] by metis
  qed
qed simp

text \<open>C38: the shell, started with whatever descriptors 0 to 2 and two free slots above them, first makes sure that the three are open. Then,
  if \<open>fork\<close>, \<open>exec\<close> and \<open>chdir\<close> succeed and \<open>open\<close> and \<open>pipe\<close> fail only for want of a free slot, every program that
  its command lines (without NUL bytes) start gets the arguments its line names and the descriptors that the line's pipes and redirections
  call for: the left side of a pipe writes into it, the right side reads from it, neither of them nor the process that waits for them keeps another
  end of the pipe open, and the shell waits for each line with the descriptors it began with, so that one line leaves nothing behind for the next.\<close>

theorem shell_session:
  assumes "\<forall>l\<in>set ls. 0 \<notin> set l"
    and "3 \<le> i" "i < j" "j < length t" "t ! i = None" "t ! j = None"
  shows "launch (sh_main ls) t n = session ls (with_console t) n"
proof -
  have "missing t \<subseteq> {..<3}" by (auto simp: missing_def)
  then have "card (missing t) < 4" using card_mono [of "{..<3}" "missing t"] by simp
  moreover have "\<exists>j<length t. 3 \<le> j \<and> t ! j = None" using assms(2-5) by (metis less_trans)
  ultimately have "launch (sh_main ls) t n = launch (main_loop ls) (with_console t) n"
    unfolding sh_main_def by (rule open_console_fills)
  moreover have "ready (with_console t)"
  proof -
    have "0 < length t" "1 < length t" using assms(2-4) by linarith+
    then show ?thesis
      using assms(2-6) with_console_nth(1) [of 0 t] with_console_nth(1) [of 1 t] unfolding ready_def with_console_nth(2)
      by (intro conjI exI [of _ i] exI [of _ j]) (auto simp: with_console_nth(1))
  qed
  ultimately show ?thesis using main_loop_session [OF assms(1)] by simp
qed

text \<open>The line \<open>a < f | b\<close>: \<open>a\<close> reads the file and writes the pipe, \<open>b\<close> reads the pipe and writes the console.\<close>

theorem shell_session_witness:
  "let c = Some console_desc; t = [None, None, None, None, None]; w = Waits [c, c, c, None, None] in
   launch (sh_main [[97, 60, 102, 124, 98, 10]]) t 0 =
     ([Runs [[97]] [Some (Opened [102] 0), Some (Write_end 0), c, None, None], Runs [[98]] [Some (Read_end 0), c, c, None, None], w, w, w], 1)"
proof -
  have "launch (sh_main [[97, 60, 102, 124, 98, 10]]) [None, None, None, None, None] 0 =
      session [[97, 60, 102, 124, 98, 10]] (with_console [None, None, None, None, None]) 0"
    by (rule shell_session [of _ 3 4]) simp_all
  moreover have "session [[97, 60, 102, 124, 98, 10]] (with_console [None, None, None, None, None]) 0 =
     (let c = Some console_desc; w = Waits [c, c, c, None, None] in
      ([Runs [[97]] [Some (Opened [102] 0), Some (Write_end 0), c, None, None], Runs [[98]] [Some (Read_end 0), c, c, None, None], w, w, w], 1))"
    by code_simp
  ultimately show ?thesis by (simp add: Let_def)
qed

end
