(* ===== verification/Umalloc.thy ===== *)
theory Umalloc
  imports Xv6_Prelude
begin

text \<open>
  The allocator of user programs, \<open>umalloc.c\<close>: a circular list of free blocks in the order of their addresses, each with
  a header of one unit. Addresses are natural numbers; the numbers of units and bytes that the code computes with are
  unsigned 32-bit numbers, and their wrap-around is written out. The kernel keeps the memory of
  a process below \<open>KERNBASE\<close>, so that addresses do not wrap. The loops over the circular list may not end on a broken heap and
  are partial functions; it is proved that they end.
\<close>

section \<open>Headers\<close>

record heap =
  hptr :: "nat \<Rightarrow> nat"
  hsize :: "nat \<Rightarrow> nat"
  base :: nat
  freep :: nat
  brk :: nat

definition UNIT :: nat where "UNIT = 8"

definition set_ptr :: "nat \<Rightarrow> nat \<Rightarrow> heap \<Rightarrow> heap" where
  "set_ptr p q s = s\<lparr>hptr := (hptr s)(p := q)\<rparr>"

definition set_size :: "nat \<Rightarrow> nat \<Rightarrow> heap \<Rightarrow> heap" where
  "set_size p n s = s\<lparr>hsize := (hsize s)(p := n)\<rparr>"

lemma heap_simps [simp]:
  "hptr (set_ptr p q s) = (hptr s)(p := q)" "hsize (set_ptr p q s) = hsize s" "base (set_ptr p q s) = base s"
  "freep (set_ptr p q s) = freep s" "brk (set_ptr p q s) = brk s"
  "hptr (set_size p n s) = hptr s" "hsize (set_size p n s) = (hsize s)(p := n)" "base (set_size p n s) = base s"
  "freep (set_size p n s) = freep s" "brk (set_size p n s) = brk s"
  by (simp_all add: set_ptr_def set_size_def)

section \<open>free, morecore and malloc\<close>

partial_function (option) find_prev :: "nat \<Rightarrow> nat \<Rightarrow> heap \<Rightarrow> nat option" where
  "find_prev bp p s =
     (if p < bp \<and> bp < hptr s p then Some p
      else if p \<ge> hptr s p \<and> (bp > p \<or> bp < hptr s p) then Some p
      else find_prev bp (hptr s p) s)"

text \<open>Joining the block with the one above and the one below it, or linking it in.\<close>

definition join_above :: "nat \<Rightarrow> nat \<Rightarrow> heap \<Rightarrow> heap" where
  "join_above bp p s =
     (let q = hptr s p in
      if bp + hsize s bp * UNIT = q
      then set_ptr bp (hptr s q) (set_size bp (hsize s bp + hsize s q) s)
      else set_ptr bp q s)"

definition join_below :: "nat \<Rightarrow> nat \<Rightarrow> heap \<Rightarrow> heap" where
  "join_below bp p s =
     (if p + hsize s p * UNIT = bp
      then set_ptr p (hptr s bp) (set_size p (hsize s p + hsize s bp) s)
      else set_ptr p bp s)"

definition free :: "nat \<Rightarrow> heap \<Rightarrow> heap option" where
  "free ap s =
     (let bp = ap - UNIT in
      Option.bind (find_prev bp (freep s) s) (\<lambda>p.
      Some ((join_below bp p (join_above bp p s))\<lparr>freep := p\<rparr>)))"

text \<open>
  The system call takes its argument, here given as an unsigned number, for a signed one: from \<open>2 ^ 31\<close> on it makes the memory
  smaller, or leaves it alone when the new end would not be below the old one. \<open>can b n\<close>: the kernel lets a process whose memory ends at \<open>b\<close> grow by \<open>n\<close> bytes.
\<close>

definition sbrk :: "(nat \<Rightarrow> nat \<Rightarrow> bool) \<Rightarrow> nat \<Rightarrow> heap \<Rightarrow> nat option \<times> heap" where
  "sbrk can n s =
     (if n = 0 then (Some (brk s), s)
      else if n < 2 ^ 31 then (if can (brk s) n then (Some (brk s), s\<lparr>brk := brk s + n\<rparr>) else (None, s))
      else let newsz = min (brk s) ((brk s + n) mod 2 ^ 32) in
        if newsz = 0 then (None, s) else (Some (brk s), s\<lparr>brk := newsz\<rparr>))"

definition morecore :: "(nat \<Rightarrow> nat \<Rightarrow> bool) \<Rightarrow> nat \<Rightarrow> heap \<Rightarrow> (nat \<times> heap) option" where
  "morecore can nu s =
     (let nu = (if nu < 4096 then 4096 else nu) in
      case sbrk can (nu * UNIT mod 2 ^ 32) s of
        (None, s) \<Rightarrow> Some (0, s)
      | (Some hp, s) \<Rightarrow> Option.bind (free (hp + UNIT) (set_size hp nu s)) (\<lambda>s. Some (freep s, s)))"

partial_function (option) malloc_scan :: "(nat \<Rightarrow> nat \<Rightarrow> bool) \<Rightarrow> nat \<Rightarrow> nat \<Rightarrow> nat \<Rightarrow> heap \<Rightarrow> (nat \<times> heap) option" where
  "malloc_scan can nunits prevp p s =
     (if hsize s p \<ge> nunits then
        (if hsize s p = nunits then Some (p + UNIT, (set_ptr prevp (hptr s p) s)\<lparr>freep := prevp\<rparr>)
         else
           let s = set_size p (hsize s p - nunits) s;
               q = p + hsize s p * UNIT in
           Some (q + UNIT, (set_size q nunits s)\<lparr>freep := prevp\<rparr>))
      else if p = freep s then
        Option.bind (morecore can nunits s) (\<lambda>(p, s).
        if p = 0 then Some (0, s) else malloc_scan can nunits p (hptr s p) s)
      else malloc_scan can nunits p (hptr s p) s)"

definition units_for :: "nat \<Rightarrow> nat" where
  "units_for nbytes = (nbytes + UNIT - 1) mod 2 ^ 32 div UNIT + 1"

definition malloc :: "(nat \<Rightarrow> nat \<Rightarrow> bool) \<Rightarrow> nat \<Rightarrow> heap \<Rightarrow> (nat \<times> heap) option" where
  "malloc can nbytes s =
     (let nunits = units_for nbytes;
          s = (if freep s = 0
               then set_size (base s) 0 ((set_ptr (base s) (base s) s)\<lparr>freep := base s\<rparr>) else s) in
      malloc_scan can nunits (freep s) (hptr s (freep s)) s)"

section \<open>The circular list\<close>

text \<open>The headers \<open>xs\<close> are linked one to the next, the last one to \<open>z\<close>; their blocks follow each other below \<open>hi\<close>.\<close>

fun linked :: "heap \<Rightarrow> nat list \<Rightarrow> nat \<Rightarrow> bool" where
  "linked s [] z = True"
| "linked s (x # xs) z = (hptr s x = hd (xs @ [z]) \<and> linked s xs z)"

definition before :: "heap \<Rightarrow> nat \<Rightarrow> nat \<Rightarrow> bool" where
  "before s x y \<longleftrightarrow> x < y \<and> x + hsize s x * UNIT \<le> y"

definition laid_out :: "heap \<Rightarrow> nat list \<Rightarrow> nat \<Rightarrow> bool" where
  "laid_out s xs hi \<longleftrightarrow> sorted_wrt (before s) xs \<and> (\<forall>x\<in>set xs. before s x hi)"

definition block :: "heap \<Rightarrow> nat \<Rightarrow> nat set" where
  "block s p = {p ..< p + hsize s p * UNIT}"

definition free_bytes :: "heap \<Rightarrow> nat list \<Rightarrow> nat set" where
  "free_bytes s xs = (\<Union>x\<in>set xs. block s x)"

definition free_list :: "heap \<Rightarrow> nat list \<Rightarrow> bool" where
  "free_list s xs \<longleftrightarrow>
     (\<exists>ys. xs = base s # ys \<and> linked s xs (base s) \<and> laid_out s xs (brk s) \<and> freep s \<in> set xs \<and>
       hsize s (base s) = 0 \<and> 0 < base s \<and> (\<forall>y\<in>set ys. 0 < hsize s y \<and> base s + UNIT \<le> y) \<and> base s + UNIT \<le> brk s)"

lemma linked_append: "linked s (xs @ ys) z \<longleftrightarrow> linked s xs (hd (ys @ [z])) \<and> linked s ys z"
  by (induction xs) (auto simp: hd_append)

lemma laid_out_cong: "\<forall>x\<in>set xs. hsize s' x = hsize s x \<Longrightarrow> laid_out s' xs hi = laid_out s xs hi"
  unfolding laid_out_def by (induction xs) (auto simp: before_def)

lemma linked_cong: "\<forall>x\<in>set xs. hptr s' x = hptr s x \<Longrightarrow> linked s' xs z = linked s xs z"
  by (induction xs) auto

text \<open>The place of a block in the list: after \<open>as\<close>, in front of \<open>bs\<close>.\<close>

definition place :: "heap \<Rightarrow> nat list \<Rightarrow> nat list \<Rightarrow> nat \<Rightarrow> bool" where
  "place s as bs bp \<longleftrightarrow> as \<noteq> [] \<and> (\<forall>a\<in>set as. a < bp) \<and> (\<forall>b\<in>set bs. bp < b)"

lemma find_prev_from:
  assumes "linked s (as @ bs) (base s)" "place s as bs bp" "sorted_wrt (<) (as @ bs)" "hd as = base s" "as = as1 @ p # as2"
  shows "find_prev bp p s = Some (last as)"
  using assms(5)
proof (induction as2 arbitrary: as1 p)
  case Nil
  have "base s \<in> set as" using assms(2,4) hd_in_set by (metis place_def)
  then have p: "p < bp" "hptr s p = hd (bs @ [base s])" "base s \<le> p"
    using Nil assms(1-3) by (auto simp: place_def linked_append sorted_wrt_append)
  have "bs \<noteq> [] \<Longrightarrow> bp < hd bs" using assms(2) by (simp add: place_def)
  then show ?case using p Nil by (cases bs) (auto simp: find_prev.simps [of bp p s])
next
  case (Cons q as2)
  have "hptr s p = q" "p < q" "q < bp"
    using Cons.prems assms(1-3) by (auto simp: place_def linked_append sorted_wrt_append)
  then show ?case using Cons.IH [of "as1 @ [p]" q] Cons.prems by (simp add: find_prev.simps [of bp p s])
qed

lemma find_prev_wraps:
  assumes "linked s (as @ bs) (base s)" "place s as bs bp" "sorted_wrt (<) (as @ bs)" "hd as = base s" "bs = bs1 @ p # bs2"
  shows "find_prev bp p s = find_prev bp (base s) s"
  using assms(5)
proof (induction bs2 arbitrary: bs1 p)
  case Nil
  have "base s \<in> set as" using assms(2,4) hd_in_set by (metis place_def)
  then have "hptr s p = base s" "base s < bp" "bp < p"
    using Nil assms(1-3) by (auto simp: place_def linked_append)
  then show ?case by (simp add: find_prev.simps [of bp p s])
next
  case (Cons q bs2)
  have "hptr s p = q" "p < q" "bp < p"
    using Cons.prems assms(1-3) by (auto simp: place_def linked_append sorted_wrt_append)
  then show ?case using Cons.IH [of "bs1 @ [p]" q] Cons.prems by (simp add: find_prev.simps [of bp p s])
qed

lemma find_prev_finds:
  assumes "linked s (as @ bs) (base s)" "place s as bs bp" "sorted_wrt (<) (as @ bs)" "hd as = base s" "p \<in> set (as @ bs)"
  shows "find_prev bp p s = Some (last as)"
proof -
  have "find_prev bp (base s) s = Some (last as)"
    using find_prev_from [OF assms(1-4), of "[]"] assms(2,4) by (cases as) (auto simp: place_def)
  moreover have "\<exists>as1 as2. as = as1 @ p # as2" if "p \<in> set as" using that by (rule split_list)
  moreover have "\<exists>bs1 bs2. bs = bs1 @ p # bs2" if "p \<in> set bs" using that by (rule split_list)
  ultimately show ?thesis using find_prev_from [OF assms(1-4)] find_prev_wraps [OF assms(1-4)] assms(5) by (metis Un_iff set_append)
qed

section \<open>Freeing a block\<close>

text \<open>A block that is handed out: behind the base, below the break and apart from the free blocks.\<close>

definition handed_out :: "heap \<Rightarrow> nat list \<Rightarrow> nat \<Rightarrow> bool" where
  "handed_out s xs bp \<longleftrightarrow> 0 < hsize s bp \<and> base s + UNIT \<le> bp \<and> bp + hsize s bp * UNIT \<le> brk s \<and> block s bp \<inter> free_bytes s xs = {}"

lemma UNIT_pos [simp]: "0 < UNIT" "UNIT \<noteq> 0"
  by (simp_all add: UNIT_def)

lemma own_block: "0 < hsize s x \<Longrightarrow> x \<in> block s x"
  by (simp add: block_def)

lemma free_listD:
  assumes "free_list s xs"
  shows "linked s xs (base s)" "sorted_wrt (before s) xs" "\<forall>x\<in>set xs. before s x (brk s)" "freep s \<in> set xs" "xs \<noteq> []"
    "hd xs = base s" "hsize s (base s) = 0" "0 < base s" "\<forall>x\<in>set xs. x = base s \<or> 0 < hsize s x \<and> base s + UNIT \<le> x" "base s + UNIT \<le> brk s"
    "sorted_wrt (<) xs"
proof -
  show "linked s xs (base s)" "sorted_wrt (before s) xs" "\<forall>x\<in>set xs. before s x (brk s)" "freep s \<in> set xs" "xs \<noteq> []"
    "hd xs = base s" "hsize s (base s) = 0" "0 < base s" "\<forall>x\<in>set xs. x = base s \<or> 0 < hsize s x \<and> base s + UNIT \<le> x" "base s + UNIT \<le> brk s"
    using assms by (auto simp: free_list_def laid_out_def)
  have "sorted_wrt (before s) xs" using assms by (auto simp: free_list_def laid_out_def)
  then show "sorted_wrt (<) xs" by (rule sorted_wrt_mono_rel [rotated]) (simp add: before_def)
qed

lemma free_listI:
  assumes "linked s xs (base s)" "sorted_wrt (before s) xs" "\<forall>x\<in>set xs. before s x (brk s)" "freep s \<in> set xs" "xs \<noteq> []"
    "hd xs = base s" "hsize s (base s) = 0" "0 < base s" "\<forall>x\<in>set xs. x = base s \<or> 0 < hsize s x \<and> base s + UNIT \<le> x" "base s + UNIT \<le> brk s"
  shows "free_list s xs"
proof -
  have "base s \<notin> set (tl xs)" using assms(2,5,6) by (cases xs) (auto simp: before_def)
  then show ?thesis using assms by (cases xs) (auto simp: free_list_def laid_out_def)
qed

lemma place_exists:
  assumes "free_list s xs" "handed_out s xs bp"
  obtains as bs where "xs = as @ bs" "place s as bs bp" "\<forall>a\<in>set as. before s a bp" "\<forall>b\<in>set bs. before s bp b"
proof -
  note f = free_listD [OF assms(1)]
  let ?as = "takeWhile (\<lambda>x. x < bp) xs" and ?bs = "dropWhile (\<lambda>x. x < bp) xs"
  have h: "0 < hsize s bp" "base s < bp" "block s bp \<inter> free_bytes s xs = {}" using assms(2) by (auto simp: handed_out_def UNIT_def)
  have no: "y \<notin> block s bp \<or> y \<notin> block s x" if "x \<in> set xs" for x y using h(3) that by (auto simp: free_bytes_def)
  have as: "?as \<noteq> []" using h(2) f(5,6) by (cases xs) auto
  have b: "bp < b" if "b \<in> set ?bs" for b
  proof -
    have bx: "b \<in> set xs" using that set_dropWhileD by metis
    have "sorted_wrt (\<le>) ?bs" using f(11) by (metis sorted_wrt_dropWhile sorted_wrt_mono_rel less_imp_le)
    then have "bp \<le> b" using that hd_dropWhile [of "\<lambda>x. x < bp" xs] by (cases ?bs) auto
    moreover have "bp \<noteq> b" using no [OF bx, of b] own_block [of s b] own_block [of s bp] h f(9) bx by auto
    ultimately show ?thesis by simp
  qed
  have "before s a bp" if "a \<in> set ?as" for a
    using that no [of a bp] own_block [of s bp] h(1) by (auto simp: before_def block_def dest: set_takeWhileD)
  moreover have "before s bp b" if "b \<in> set ?bs" for b
    using b [OF that] that no [of b b] own_block [of s b] f(9) h(2) by (auto simp: before_def block_def dest!: set_dropWhileD)
  moreover have "place s ?as ?bs bp" using as b by (auto simp: place_def dest: set_takeWhileD)
  ultimately show thesis using that [of ?as ?bs] by simp
qed

lemma block_join: "a + m * UNIT = b \<Longrightarrow> {a ..< a + (m + n) * UNIT} = {a ..< a + m * UNIT} \<union> {b ..< b + n * UNIT}"
  by (auto simp: add_mult_distrib)

lemma join_above_list:
  assumes l: "linked s bs (base s)" "hptr s p = hd (bs @ [base s])" and o: "sorted_wrt (before s) bs" "\<forall>b\<in>set bs. before s bp b"
    "\<forall>b\<in>set bs. before s b hi" "before s bp hi" and b: "base s < bp"
  obtains bs' m where "hptr (join_above bp p s) = (hptr s)(bp := hd (bs' @ [base s]))" "hsize (join_above bp p s) = (hsize s)(bp := m)"
    "hsize s bp \<le> m" "linked s bs' (base s)" "set bs' \<subseteq> set bs" "sorted_wrt (before s) bs'"
    "\<forall>b\<in>set bs'. bp < b \<and> bp + m * UNIT \<le> b" "bp + m * UNIT \<le> hi"
    "{bp ..< bp + m * UNIT} \<union> (\<Union>x\<in>set bs'. block s x) = block s bp \<union> (\<Union>x\<in>set bs. block s x)"
proof (cases "bs \<noteq> [] \<and> bp + hsize s bp * UNIT = hd bs")
  case True
  then obtain q qs where q: "bs = q # qs" "bp + hsize s bp * UNIT = q" by (cases bs) auto
  have j: "hptr (join_above bp p s) = (hptr s)(bp := hd (qs @ [base s]))"
    "hsize (join_above bp p s) = (hsize s)(bp := hsize s bp + hsize s q)"
    using l q by (simp_all add: join_above_def Let_def)
  have e: "bp + (hsize s bp + hsize s q) * UNIT = q + hsize s q * UNIT" using q(2) by (simp add: add_mult_distrib)
  show thesis
  proof (rule that [OF j])
    show "\<forall>b\<in>set qs. bp < b \<and> bp + (hsize s bp + hsize s q) * UNIT \<le> b" "bp + (hsize s bp + hsize s q) * UNIT \<le> hi"
      unfolding e using o q(1) by (auto simp: before_def)
    show "{bp ..< bp + (hsize s bp + hsize s q) * UNIT} \<union> (\<Union>x\<in>set qs. block s x) = block s bp \<union> (\<Union>x\<in>set bs. block s x)"
      unfolding block_join [OF q(2)] using q(1) by (auto simp: block_def)
  qed (use l o q in auto)
next
  case False
  have "bp + hsize s bp * UNIT \<noteq> hd (bs @ [base s])" using False b by (cases bs) auto
  then have j: "hptr (join_above bp p s) = (hptr s)(bp := hd (bs @ [base s]))" "hsize (join_above bp p s) = (hsize s)(bp := hsize s bp)"
    using l by (simp_all add: join_above_def Let_def)
  show thesis by (rule that [OF j]) (use l o in \<open>auto simp: before_def block_def\<close>)
qed

lemma join_frame [simp]:
  "base (join_above bp p s) = base s" "brk (join_above bp p s) = brk s" "base (join_below bp p s) = base s" "brk (join_below bp p s) = brk s"
  by (simp_all add: join_above_def join_below_def Let_def)

lemma before_upd: "hsize s' x = hsize s x \<Longrightarrow> before s' x y = before s x y"
  by (simp add: before_def)

lemma sorted_before_cong: "\<forall>x\<in>set xs. hsize s' x = hsize s x \<Longrightarrow> sorted_wrt (before s') xs = sorted_wrt (before s) xs"
  by (induction xs) (auto simp: before_def)

lemma join_below_list:
  assumes l: "linked s cs p" "linked s (bp # bs) z" and o: "sorted_wrt (before s) (cs @ p # bp # bs)" "\<forall>x\<in>set (cs @ p # bp # bs). before s x hi"
  defines "s' \<equiv> join_below bp p s"
  obtains ds where "linked s' (cs @ p # ds) z" "sorted_wrt (before s') (cs @ p # ds)" "\<forall>x\<in>set (cs @ p # ds). before s' x hi"
    "set ds \<subseteq> set (bp # bs)" "\<forall>x\<in>set ds. hsize s' x = hsize s x" "\<exists>x\<in>set (p # ds). hsize s bp \<le> hsize s' x"
    "(\<Union>x\<in>set (cs @ p # ds). block s' x) = (\<Union>x\<in>set (cs @ p # bp # bs). block s x)"
proof (cases "p + hsize s p * UNIT = bp")
  case True
  have e: "hptr s' = (hptr s)(p := hd (bs @ [z]))" "hsize s' = (hsize s)(p := hsize s p + hsize s bp)"
    using True l(2) by (simp_all add: s'_def join_below_def)
  have n: "p \<notin> set cs" "p \<notin> set bs" using o(1) by (auto simp: sorted_wrt_append before_def)
  have eq: "p + (hsize s p + hsize s bp) * UNIT = bp + hsize s bp * UNIT" using True by (simp add: add_mult_distrib)
  have sz: "hsize s' x = hsize s x" if "x \<in> set (cs @ bs)" for x using that n e by auto
  have pb: "before s' p x = (p < x \<and> bp + hsize s bp * UNIT \<le> x)" for x using e eq by (simp add: before_def)
  have bl: "block s' p = block s p \<union> block s bp" using block_join [OF True] e by (simp add: block_def)
  show thesis
  proof (rule that [of bs])
    show "linked s' (cs @ p # bs) z" using l n e linked_cong [of cs s' s] linked_cong [of bs s' s] by (auto simp: linked_append)
    show "sorted_wrt (before s') (cs @ p # bs)"
      using o(1) sorted_before_cong [of cs s' s] sorted_before_cong [of bs s' s] sz before_upd [of s' _ s]
      by (auto simp: sorted_wrt_append pb) (auto simp: before_def)
    show "\<forall>x\<in>set (cs @ p # bs). before s' x hi" using o(2) sz before_upd [of s' _ s] by (auto simp: pb) (auto simp: before_def)
    show "(\<Union>x\<in>set (cs @ p # bs). block s' x) = (\<Union>x\<in>set (cs @ p # bp # bs). block s x)"
      using sz bl by (auto simp: block_def)
  qed (use e sz in auto)
next
  case False
  have e: "hptr s' = (hptr s)(p := bp)" "hsize s' = hsize s" using False by (simp_all add: s'_def join_below_def)
  have n: "p \<notin> set cs" "p \<notin> set (bp # bs)" using o(1) by (auto simp: sorted_wrt_append before_def)
  have b: "before s' = before s" using e by (simp add: before_def fun_eq_iff)
  show thesis
  proof (rule that [of "bp # bs"])
    show "linked s' (cs @ p # bp # bs) z" using l n e linked_cong [of cs s' s] linked_cong [of bs s' s] by (auto simp: linked_append)
  qed (use e o b in \<open>auto simp: block_def\<close>)
qed

lemma join_below_sizes:
  "hsize (join_below bp p s) = (if p + hsize s p * UNIT = bp then (hsize s)(p := hsize s p + hsize s bp) else hsize s)"
  by (simp add: join_below_def)

lemma freep_irrelevant [simp]:
  "linked (s\<lparr>freep := p\<rparr>) xs z = linked s xs z" "before (s\<lparr>freep := p\<rparr>) = before s" "block (s\<lparr>freep := p\<rparr>) = block s"
  by (induction xs) (simp_all add: before_def block_def fun_eq_iff)

lemma set_ptr_irrelevant [simp]: "before (set_ptr p q s) = before s" "block (set_ptr p q s) = block s"
  by (simp_all add: before_def block_def fun_eq_iff)

text \<open>Every loop of \<open>free\<close> ends, and what it gives back is the block and nothing else.\<close>

definition frees :: "nat \<Rightarrow> heap \<Rightarrow> nat list \<Rightarrow> heap \<Rightarrow> bool" where
  "frees bp s xs s' \<longleftrightarrow>
     (\<exists>ys. free_list s' ys \<and> free_bytes s' ys = free_bytes s xs \<union> block s bp \<and> base s' = base s \<and> brk s' = brk s \<and>
       (\<exists>y\<in>set ys. hsize s bp \<le> hsize s' y) \<and> (\<forall>a. a \<notin> free_bytes s xs \<union> block s bp \<longrightarrow> hsize s' a = hsize s a))"

text \<open>The list when the block has been joined with the one above it, or linked to it.\<close>

lemma insert_above:
  assumes "free_list s xs" "handed_out s xs bp" and ab: "xs = as @ bs" "place s as bs bp" "\<forall>a\<in>set as. before s a bp" "\<forall>b\<in>set bs. before s bp b"
    and as: "as = cs @ [p]"
  obtains bs' m where "hsize (join_above bp p s) = (hsize s)(bp := m)" "hsize s bp \<le> m" "linked (join_above bp p s) cs p"
    "linked (join_above bp p s) (bp # bs') (base s)" "sorted_wrt (before (join_above bp p s)) (cs @ p # bp # bs')"
    "\<forall>x\<in>set (cs @ p # bp # bs'). before (join_above bp p s) x (brk s)" "set bs' \<subseteq> set bs"
    "{bp ..< bp + m * UNIT} \<union> (\<Union>x\<in>set bs'. block s x) = block s bp \<union> (\<Union>x\<in>set bs. block s x)"
proof -
  note f = free_listD [OF assms(1)]
  have h: "base s < bp" "before s bp (brk s)" using assms(2) by (auto simp: handed_out_def before_def UNIT_def)
  have l: "linked s cs p" "hptr s p = hd (bs @ [base s])" "linked s bs (base s)" using f(1) ab(1) as by (auto simp: linked_append)
  have nb: "bp \<notin> set as" "bp \<notin> set bs" using ab(2) by (auto simp: place_def)
  have ob: "sorted_wrt (before s) bs" "sorted_wrt (before s) as" using f(2) ab(1) by (simp_all add: sorted_wrt_append)
  have ohi: "\<forall>b\<in>set bs. before s b (brk s)" "\<forall>b\<in>set as. before s b (brk s)" using f(3) ab(1) by simp_all
  let ?s1 = "join_above bp p s"
  obtain bs' m where j: "hptr ?s1 = (hptr s)(bp := hd (bs' @ [base s]))" "hsize ?s1 = (hsize s)(bp := m)" "hsize s bp \<le> m"
    "linked s bs' (base s)" "set bs' \<subseteq> set bs" "sorted_wrt (before s) bs'" "\<forall>b\<in>set bs'. bp < b \<and> bp + m * UNIT \<le> b" "bp + m * UNIT \<le> brk s"
    "{bp ..< bp + m * UNIT} \<union> (\<Union>x\<in>set bs'. block s x) = block s bp \<union> (\<Union>x\<in>set bs. block s x)"
    using join_above_list [OF l(3,2) ob(1) ab(4) ohi(1) h(2,1)] by blast
  have sz: "hsize ?s1 x = hsize s x" if "x \<in> set (as @ bs)" for x using that nb j(2) by auto
  have lk: "linked ?s1 cs p" "linked ?s1 (bp # bs') (base s)"
  proof -
    have "bp \<notin> set bs'" "bp \<notin> set cs" using j(5) nb as by auto
    then have "\<forall>x\<in>set bs'. hptr ?s1 x = hptr s x" "\<forall>x\<in>set cs. hptr ?s1 x = hptr s x" using j(1) by auto
    then show "linked ?s1 cs p" "linked ?s1 (bp # bs') (base s)"
      using l(1) j(1,4) linked_cong [of cs ?s1 s] linked_cong [of bs' ?s1 s] by simp_all
  qed
  have o1: "sorted_wrt (before ?s1) (cs @ p # bp # bs')" "\<forall>x\<in>set (cs @ p # bp # bs'). before ?s1 x (brk s)"
  proof -
    have b1: "before ?s1 x y = before s x y" if "x \<in> set (as @ bs)" for x y using before_upd sz [OF that] .
    have b2: "before ?s1 bp y = (bp < y \<and> bp + m * UNIT \<le> y)" for y using j(2) by (simp add: before_def)
    have "sorted_wrt (before ?s1) as" "sorted_wrt (before ?s1) bs'"
      using ob(2) j(5,6) sz sorted_before_cong [of as ?s1 s] sorted_before_cong [of bs' ?s1 s] by auto
    moreover have "before ?s1 a x" if "a \<in> set as" "x \<in> set (bp # bs')" for a x
      using b1 [of a x] ab(1,3) f(2) j(5) that by (auto simp: sorted_wrt_append)
    ultimately have "sorted_wrt (before ?s1) (as @ bp # bs')" using j(7) b2 by (auto simp: sorted_wrt_append)
    then show "sorted_wrt (before ?s1) (cs @ p # bp # bs')" using as by simp
    have "\<forall>x\<in>set as \<union> set bs'. before ?s1 x (brk s)" using b1 ohi j(5) by auto
    moreover have "before ?s1 bp (brk s)" using b2 [of "brk s"] j(8) h(2) by (auto simp: before_def [of s])
    ultimately show "\<forall>x\<in>set (cs @ p # bp # bs'). before ?s1 x (brk s)" using as by auto
  qed
  show thesis using that [OF j(2,3) lk o1 j(5,9)] .
qed

lemma free_ok:
  assumes "free_list s xs" "handed_out s xs bp"
  shows "\<exists>s'. free (bp + UNIT) s = Some s' \<and> frees bp s xs s'"
proof -
  note f = free_listD [OF assms(1)]
  obtain as bs where ab: "xs = as @ bs" "place s as bs bp" "\<forall>a\<in>set as. before s a bp" "\<forall>b\<in>set bs. before s bp b"
    using place_exists [OF assms] .
  have h: "base s < bp" "before s bp (brk s)" "0 < hsize s bp" "base s + UNIT \<le> bp" using assms(2) by (auto simp: handed_out_def before_def UNIT_def)
  have asn: "as \<noteq> []" "hd as = base s" using ab(1,2) f(6) by (auto simp: place_def)
  obtain cs p where as: "as = cs @ [p]" using asn(1) by (metis append_butlast_last_id)
  have fp: "find_prev bp (freep s) s = Some p"
    using find_prev_finds [of s as bs bp "freep s"] f(1,4,11) ab(1,2) asn(2) as by simp
  have nb: "bp \<notin> set as" "bp \<notin> set bs" using ab(2) by (auto simp: place_def)
  let ?s1 = "join_above bp p s"
  obtain bs' m where j: "hsize ?s1 = (hsize s)(bp := m)" "hsize s bp \<le> m" "linked ?s1 cs p" "linked ?s1 (bp # bs') (base s)"
    "sorted_wrt (before ?s1) (cs @ p # bp # bs')" "\<forall>x\<in>set (cs @ p # bp # bs'). before ?s1 x (brk s)" "set bs' \<subseteq> set bs"
    "{bp ..< bp + m * UNIT} \<union> (\<Union>x\<in>set bs'. block s x) = block s bp \<union> (\<Union>x\<in>set bs. block s x)"
    using insert_above [OF assms ab as] .
  have sz: "hsize ?s1 x = hsize s x" if "x \<in> set (as @ bs)" for x using that nb j(1) by auto
  let ?s2 = "join_below bp p ?s1"
  obtain ds where d: "linked ?s2 (cs @ p # ds) (base s)" "sorted_wrt (before ?s2) (cs @ p # ds)" "\<forall>x\<in>set (cs @ p # ds). before ?s2 x (brk s)"
    "set ds \<subseteq> set (bp # bs')" "\<forall>x\<in>set ds. hsize ?s2 x = hsize ?s1 x" "\<exists>x\<in>set (p # ds). hsize ?s1 bp \<le> hsize ?s2 x"
    "(\<Union>x\<in>set (cs @ p # ds). block ?s2 x) = (\<Union>x\<in>set (cs @ p # bp # bs'). block ?s1 x)"
    using join_below_list [OF j(3-6)] by blast
  have p0: "p = base s \<or> 0 < hsize s p \<and> base s + UNIT \<le> p" using f(9) ab(1) as by auto
  have sb: "p + hsize ?s1 p * UNIT = bp \<Longrightarrow> p \<noteq> base s" using sz [of p] as f(7) h(1) by auto
  let ?s' = "?s2\<lparr>freep := p\<rparr>" and ?ys = "cs @ p # ds"
  have base0: "hsize ?s2 (base s) = 0" using sb sz [of "base s"] hd_in_set [OF asn(1)] asn(2) f(7) by (auto simp: join_below_sizes)
  have pos: "\<forall>x\<in>set ?ys. x = base s \<or> 0 < hsize ?s2 x \<and> base s + UNIT \<le> x"
  proof
    fix x assume x: "x \<in> set ?ys"
    show "x = base s \<or> 0 < hsize ?s2 x \<and> base s + UNIT \<le> x"
    proof (cases "x = bp")
      case True
      then have "hsize ?s2 x = m" using j(1) nb as by (simp add: join_below_sizes)
      then show ?thesis using h(3,4) j(2) True by simp
    next
      case False
      then have xs: "x \<in> set xs" using x d(4) j(7) as ab(1) by auto
      then have "hsize s x \<le> hsize ?s2 x" using sz [of x] ab(1) by (auto simp: join_below_sizes)
      then show ?thesis using f(9) xs by (metis le_less_trans linorder_not_less)
    qed
  qed
  have fl: "free_list ?s' ?ys"
    by (rule free_listI) (use d(1-3) base0 pos f(8,10) asn as in \<open>auto simp: hd_append\<close>)
  have bts: "free_bytes ?s' ?ys = free_bytes s xs \<union> block s bp"
  proof -
    have "block ?s1 x = block s x" if "x \<in> set (as @ bs)" for x using sz [OF that] by (simp add: block_def)
    then have "(\<Union>x\<in>set (cs @ p # bp # bs'). block ?s1 x) = (\<Union>x\<in>set as. block s x) \<union> ({bp ..< bp + m * UNIT} \<union> (\<Union>x\<in>set bs'. block s x))"
      using as j(1,7) by (auto simp: block_def subset_iff)
    then show ?thesis unfolding free_bytes_def freep_irrelevant d(7) j(8) using ab(1) by auto
  qed
  have fr: "hsize ?s' a = hsize s a" if "a \<notin> free_bytes s xs \<union> block s bp" for a
  proof -
    have "a \<noteq> bp" using that own_block [of s bp] h(3) by auto
    moreover have "a \<noteq> p" if "p \<noteq> base s"
      using that \<open>a \<notin> free_bytes s xs \<union> block s bp\<close> own_block [of s p] p0 ab(1) as by (auto simp: free_bytes_def)
    ultimately show ?thesis using sb j(1) by (auto simp: join_below_sizes)
  qed
  have big: "\<exists>y\<in>set ?ys. hsize s bp \<le> hsize ?s' y"
  proof -
    obtain y where "y \<in> set ?ys" "m \<le> hsize ?s' y" using d(6) j(1) by auto
    then show ?thesis using j(2) order_trans by blast
  qed
  have "frees bp s xs ?s'"
    unfolding frees_def using fl bts big fr by (intro exI [of _ ?ys]) simp
  then show ?thesis using fp by (simp add: free_def)
qed

section \<open>Allocating a block\<close>

lemma scan_skip:
  assumes "linked s (prevp # us) x" "\<forall>u\<in>set us. hsize s u < n \<and> u \<noteq> freep s"
  shows "malloc_scan can n prevp (hptr s prevp) s = malloc_scan can n (last (prevp # us)) x s \<and> hptr s (last (prevp # us)) = x"
  using assms
proof (induction us arbitrary: prevp)
  case (Cons u us)
  have "malloc_scan can n prevp u s = malloc_scan can n u (hptr s u) s"
    using Cons.prems by (simp add: malloc_scan.simps [of can n prevp u s])
  then show ?case using Cons.IH [of u] Cons.prems by simp
qed simp

text \<open>Once around the list, from the block after \<open>freep\<close> to \<open>freep\<close> itself.\<close>

lemma around:
  assumes "free_list s xs"
  obtains zs where "linked s (freep s # zs) (freep s)" "freep s \<notin> set zs" "set xs = insert (freep s) (set zs)"
proof -
  note f = free_listD [OF assms]
  obtain as bs where ab: "xs = as @ freep s # bs" using f(4) by (meson split_list)
  have n: "freep s \<notin> set as" "freep s \<notin> set bs" using f(11) ab by (auto simp: sorted_wrt_append)
  have "hd (as @ [freep s]) = base s" using f(6) ab by (cases as) auto
  then have "linked s (freep s # bs @ as) (freep s)" using f(1) ab linked_append [of s "freep s # bs" as "freep s"]
    by (auto simp: linked_append)
  then show thesis using that [of "bs @ as"] n ab by auto
qed

lemma scan_reaches:
  assumes "free_list s xs" "\<exists>x\<in>set xs. n \<le> hsize s x"
  obtains p x where "malloc_scan can n (freep s) (hptr s (freep s)) s = malloc_scan can n p x s" "hptr s p = x"
    "p \<in> set xs" "x \<in> set xs" "n \<le> hsize s x"
proof -
  obtain zs where z: "linked s (freep s # zs) (freep s)" "freep s \<notin> set zs" "set xs = insert (freep s) (set zs)"
    using around [OF assms(1)] .
  show thesis
  proof (cases "\<exists>x\<in>set zs. n \<le> hsize s x")
    case True
    then obtain us x vs where u: "zs = us @ x # vs" "n \<le> hsize s x" "\<forall>u\<in>set us. \<not> n \<le> hsize s u"
      using split_list_first_prop [OF True] by blast
    have "linked s (freep s # us) x" using z(1) u(1) linked_append [of s "freep s # us" "x # vs" "freep s"] by simp
    moreover have "\<forall>u\<in>set us. hsize s u < n \<and> u \<noteq> freep s" using u(1,3) z(2) by auto
    ultimately have sk: "malloc_scan can n (freep s) (hptr s (freep s)) s = malloc_scan can n (last (freep s # us)) x s \<and>
      hptr s (last (freep s # us)) = x" by (rule scan_skip)
    have "last (freep s # us) \<in> set (freep s # us)" by (rule last_in_set) simp
    then have "last (freep s # us) \<in> set xs" "x \<in> set xs" using z(3) u(1) by auto
    then show thesis using that sk u(2) by blast
  next
    case False
    then have "\<forall>u\<in>set zs. hsize s u < n \<and> u \<noteq> freep s" using z(2) by auto
    then have sk: "malloc_scan can n (freep s) (hptr s (freep s)) s = malloc_scan can n (last (freep s # zs)) (freep s) s \<and>
      hptr s (last (freep s # zs)) = freep s" by (rule scan_skip [OF z(1)])
    have "last (freep s # zs) \<in> set (freep s # zs)" by (rule last_in_set) simp
    moreover have "n \<le> hsize s (freep s)" using assms(2) False z(3) by auto
    moreover have "last (freep s # zs) \<in> set xs" "freep s \<in> set xs" using z(3) calculation(1) by auto
    ultimately show thesis using that sk by blast
  qed
qed

lemma scan_exhausts:
  assumes "free_list s xs" "\<forall>x\<in>set xs. hsize s x < n"
  shows "malloc_scan can n (freep s) (hptr s (freep s)) s =
    Option.bind (morecore can n s) (\<lambda>(p, s). if p = 0 then Some (0, s) else malloc_scan can n p (hptr s p) s)"
proof -
  obtain zs where z: "linked s (freep s # zs) (freep s)" "freep s \<notin> set zs" "set xs = insert (freep s) (set zs)"
    using around [OF assms(1)] .
  then show ?thesis using scan_skip [OF z(1), of n can] assms(2)
    by (auto simp: malloc_scan.simps [of can n _ "freep s" s])
qed

definition takes :: "nat \<Rightarrow> heap \<Rightarrow> nat list \<Rightarrow> nat \<Rightarrow> heap \<Rightarrow> bool" where
  "takes n s xs bp s' \<longleftrightarrow>
     (\<exists>ys. free_list s' ys \<and> hsize s' bp = n \<and> block s' bp \<subseteq> free_bytes s xs \<and> free_bytes s' ys = free_bytes s xs - block s' bp \<and>
       base s' = base s \<and> brk s' = brk s \<and> (\<forall>a. a \<notin> free_bytes s xs \<longrightarrow> hsize s' a = hsize s a))"

lemma linked_pred:
  assumes "linked s xs z" "p \<in> set xs" "hptr s p = x" "x \<in> set xs" "distinct xs" "x \<noteq> z"
  obtains cs ds where "xs = cs @ p # x # ds"
proof -
  obtain cs ds where c: "xs = cs @ p # ds" using assms(2) by (meson split_list)
  have "hptr s p = hd (ds @ [z])" using assms(1) c by (simp add: linked_append)
  then show thesis using that [of cs "tl ds"] assms(3,6) c by (cases ds) auto
qed

lemma take_whole:
  assumes "free_list s xs" "hptr s p = x" "p \<in> set xs" "x \<in> set xs" "n = hsize s x" "0 < n"
  shows "takes n s xs x ((set_ptr p (hptr s x) s)\<lparr>freep := p\<rparr>)"
proof -
  note f = free_listD [OF assms(1)]
  have xb: "x \<noteq> base s" using f(7) assms(5,6) by auto
  have d: "distinct xs" using f(11) by (simp add: strict_sorted_iff)
  obtain cs ds where c: "xs = cs @ p # x # ds" using linked_pred [OF f(1) assms(3,2,4) d xb] .
  let ?s' = "(set_ptr p (hptr s x) s)\<lparr>freep := p\<rparr>" and ?ys = "cs @ p # ds"
  have n: "\<forall>y\<in>set cs. hptr ?s' y = hptr s y" "\<forall>y\<in>set ds. hptr ?s' y = hptr s y" using d c by auto
  have "linked s cs p" "linked s ds (base s)" "hptr s x = hd (ds @ [base s])" using f(1) c by (simp_all add: linked_append)
  then have "linked ?s' cs p" "linked ?s' ds (base s)" "hptr s x = hd (ds @ [base s])"
    using linked_cong [OF n(1)] linked_cong [OF n(2)] by blast+
  then have "linked ?s' ?ys (base s)" by (simp add: linked_append)
  moreover have "sorted_wrt (before s) ?ys" "\<forall>y\<in>set ?ys. before s y (brk s)" "hd ?ys = base s"
    "\<forall>y\<in>set ?ys. y = base s \<or> 0 < hsize s y \<and> base s + UNIT \<le> y"
    using f(2,3,6,9) c by (auto simp: sorted_wrt_append hd_append)
  ultimately have "free_list ?s' ?ys" using f(7,8,10) by (intro free_listI) simp_all
  moreover have "block s x \<inter> block s y = {}" if "y \<in> set ?ys" for y
    using f(2) that c by (auto simp: sorted_wrt_append before_def block_def)
  then have "free_bytes ?s' ?ys = free_bytes s xs - block s x" using c by (auto simp: free_bytes_def)
  ultimately show ?thesis unfolding takes_def using assms(4,5)
    by (intro exI [of _ ?ys]) (auto simp: free_bytes_def)
qed

lemma take_tail:
  assumes "free_list s xs" "p \<in> set xs" "x \<in> set xs" "n < hsize s x" "0 < n"
  defines "q \<equiv> x + (hsize s x - n) * UNIT"
  shows "takes n s xs q ((set_size q n (set_size x (hsize s x - n) s))\<lparr>freep := p\<rparr>)"
proof -
  note f = free_listD [OF assms(1)]
  let ?s' = "(set_size q n (set_size x (hsize s x - n) s))\<lparr>freep := p\<rparr>"
  have xb: "x \<noteq> base s" using f(7) assms(4) by auto
  have e: "x + hsize s x * UNIT = q + n * UNIT"
    using assms(4) add_mult_distrib [of "hsize s x - n" n UNIT] by (simp add: q_def)
  have q: "x < q" "q < x + hsize s x * UNIT" using assms(4,5) e by (simp_all add: q_def)
  have apart: "y = x \<or> y + hsize s y * UNIT \<le> x \<and> y < x \<or> x + hsize s x * UNIT \<le> y" if "y \<in> set xs" for y
  proof -
    obtain as bs where "xs = as @ x # bs" using assms(3) by (meson split_list)
    then show ?thesis using f(2) that by (auto simp: sorted_wrt_append before_def)
  qed
  have nq: "q \<notin> set xs" using q apart [of q] by auto
  have sz: "hsize ?s' y = (if y = x then hsize s x - n else hsize s y)" if "y \<in> set xs" for y
    using that nq q(1) by auto
  have sx: "hsize ?s' q = n" "hsize ?s' x = hsize s x - n" using q(1) by simp_all
  have mono: "before s y z \<Longrightarrow> before ?s' y z" if "y \<in> set xs" for y z
    using sz [OF that] by (cases "y = x") (auto simp: before_def diff_mult_distrib)
  have "sorted_wrt (before ?s') xs" using mono by (rule sorted_wrt_mono_rel [OF _ f(2)])
  moreover have "\<forall>y\<in>set xs. before ?s' y (brk s)" using f(3) mono by blast
  moreover have "\<forall>y\<in>set xs. y = base s \<or> 0 < hsize ?s' y \<and> base s + UNIT \<le> y" using f(9) sz assms(4) by auto
  moreover have "linked ?s' xs (base s)" using f(1) linked_cong [of xs ?s' s] by simp
  moreover have "hsize ?s' (base s) = 0" using sz [of "base s"] f(5-7) xb hd_in_set [of xs] by auto
  ultimately have fl: "free_list ?s' xs" using f(5,6,8,10) assms(2) by (intro free_listI) simp_all
  have bq: "block ?s' q = {q ..< x + hsize s x * UNIT}" "block ?s' x = {x ..< q}"
    unfolding block_def sx e by (simp_all add: q_def)
  have by1: "block ?s' y = (if y = x then {x ..< q} else block s y)" if "y \<in> set xs" for y
  proof (cases "y = x")
    case False
    then show ?thesis unfolding block_def sz [OF that] by simp
  qed (use bq(2) in simp)
  have qx: "block ?s' q \<subseteq> block s x" using q bq(1) by (auto simp: block_def)
  have dis: "block ?s' q \<inter> block s y = {}" if "y \<in> set xs" "y \<noteq> x" for y
    using apart [OF that(1)] that(2) bq(1) q by (auto simp: block_def)
  have "free_bytes ?s' xs = (\<Union>y\<in>set xs - {x}. block s y) \<union> {x ..< q}" using by1 assms(3) by (auto simp: free_bytes_def)
  also have "\<dots> = free_bytes s xs - block ?s' q"
  proof -
    have "block s x - block ?s' q = {x ..< q}" using q bq(1) by (auto simp: block_def)
    then show ?thesis using dis assms(3) by (auto simp: free_bytes_def)
  qed
  finally have fb: "free_bytes ?s' xs = free_bytes s xs - block ?s' q" .
  have fr: "hsize ?s' a = hsize s a" if "a \<notin> free_bytes s xs" for a
    using that assms(3,4) q by (auto simp: free_bytes_def block_def)
  have "block ?s' q \<subseteq> free_bytes s xs" using qx assms(3) by (auto simp: free_bytes_def)
  then show ?thesis unfolding takes_def using fl fb fr sx(1) by (intro exI [of _ xs]) simp
qed

lemma scan_takes:
  assumes "free_list s xs" "\<exists>x\<in>set xs. n \<le> hsize s x" "0 < n"
  shows "\<exists>bp s'. malloc_scan can n (freep s) (hptr s (freep s)) s = Some (bp + UNIT, s') \<and> takes n s xs bp s'"
proof -
  obtain p x where r: "malloc_scan can n (freep s) (hptr s (freep s)) s = malloc_scan can n p x s" "hptr s p = x"
    "p \<in> set xs" "x \<in> set xs" "n \<le> hsize s x" using scan_reaches [OF assms(1,2)] .
  show ?thesis
  proof (cases "n = hsize s x")
    case True
    then have "malloc_scan can n p x s = Some (x + UNIT, (set_ptr p (hptr s x) s)\<lparr>freep := p\<rparr>)"
      by (subst malloc_scan.simps) simp
    then show ?thesis using take_whole [OF assms(1) r(2-4) True assms(3)] r(1) by metis
  next
    case False
    then have "n < hsize s x" using r(5) by simp
    moreover from this have "malloc_scan can n p x s = Some (x + (hsize s x - n) * UNIT + UNIT,
        (set_size (x + (hsize s x - n) * UNIT) n (set_size x (hsize s x - n) s))\<lparr>freep := p\<rparr>)"
      by (subst malloc_scan.simps) (simp add: Let_def)
    ultimately show ?thesis using take_tail [OF assms(1) r(3,4) _ assms(3)] r(1) by metis
  qed
qed

section \<open>More memory\<close>

definition core :: "nat \<Rightarrow> nat" where
  "core n = (if n < 4096 then 4096 else n) * UNIT"

definition grows :: "nat \<Rightarrow> heap \<Rightarrow> nat list \<Rightarrow> heap \<Rightarrow> nat list \<Rightarrow> bool" where
  "grows n s xs s' ys \<longleftrightarrow> free_list s' ys \<and> free_bytes s' ys = free_bytes s xs \<union> {brk s ..< brk s'} \<and> base s' = base s \<and>
     brk s' = brk s + core n \<and> (\<exists>y\<in>set ys. n \<le> hsize s' y) \<and> (\<forall>a. a \<notin> free_bytes s xs \<union> {brk s ..< brk s'} \<longrightarrow> hsize s' a = hsize s a)"

lemma free_bytes_below: "free_list s xs \<Longrightarrow> a \<in> free_bytes s xs \<Longrightarrow> base s + UNIT \<le> a \<and> a < brk s"
  using free_listD(3,7,9) [of s xs] by (force simp: free_bytes_def block_def before_def)

lemma morecore_ok:
  assumes "free_list s xs" "core n < 2 ^ 31" "can (brk s) (core n)"
  shows "\<exists>s' ys. morecore can n s = Some (freep s', s') \<and> grows n s xs s' ys"
proof -
  note f = free_listD [OF assms(1)]
  define nu where "nu = (if n < 4096 then 4096 else n)"
  let ?s = "set_size (brk s) nu (s\<lparr>brk := brk s + core n\<rparr>)"
  have c: "core n = nu * UNIT" "0 < nu" "n \<le> nu" by (auto simp: core_def nu_def)
  have hp: "x \<noteq> brk s" "x < brk s" if "x \<in> set xs" for x using f(3) that by (auto simp: before_def)
  have b: "before ?s x y = before s x y" if "x \<in> set xs" for x y using hp(1) [OF that] by (simp add: before_def)
  have "sorted_wrt (before ?s) xs" by (rule sorted_wrt_mono_rel [OF _ f(2)]) (use b in blast)
  moreover have "\<forall>x\<in>set xs. before ?s x (brk ?s)" using f(3) b by (auto simp: before_def)
  moreover have "\<forall>x\<in>set xs. x = base s \<or> 0 < hsize ?s x \<and> base s + UNIT \<le> x" using f(9) hp by auto
  moreover have "linked ?s xs (base s)" using f(1) linked_cong [of xs ?s s] by simp
  moreover have "hsize ?s (base s) = 0" using f(5-7) hp hd_in_set [of xs] by auto
  ultimately have fl: "free_list ?s xs" using f(4-6,8,10) by (intro free_listI) simp_all
  have fb: "free_bytes ?s xs = free_bytes s xs" using hp(1) by (auto simp: free_bytes_def block_def)
  have bl: "block ?s (brk s) = {brk s ..< brk s + core n}" using c by (simp add: block_def)
  have "{brk s ..< brk s + core n} \<inter> free_bytes s xs = {}" using free_bytes_below [OF assms(1)] by fastforce
  then have "handed_out ?s xs (brk s)" unfolding handed_out_def fb bl using c f(10) by simp
  then obtain s' where s': "free (brk s + UNIT) ?s = Some s'" "frees (brk s) ?s xs s'" using free_ok [OF fl] by blast
  then obtain ys where ys: "free_list s' ys" "free_bytes s' ys = free_bytes s xs \<union> {brk s ..< brk s + core n}" "base s' = base s"
    "brk s' = brk s + core n" "\<exists>y\<in>set ys. nu \<le> hsize s' y"
    "\<And>a. a \<notin> free_bytes s xs \<union> {brk s ..< brk s + core n} \<Longrightarrow> hsize s' a = hsize ?s a"
    unfolding frees_def fb bl by auto
  have "morecore can n s = Some (freep s', s')"
    using assms(2,3) s'(1) c(1,2) by (simp add: morecore_def sbrk_def nu_def [symmetric] Let_def UNIT_def)
  moreover have "hsize s' a = hsize s a" if "a \<notin> free_bytes s xs \<union> {brk s ..< brk s + core n}" for a
    using ys(6) [OF that] that c by auto
  moreover have "\<exists>y\<in>set ys. n \<le> hsize s' y" using ys(5) c(3) order_trans by blast
  ultimately show ?thesis unfolding grows_def using ys(1-4) by (intro exI [of _ s'] exI [of _ ys]) simp
qed

lemma morecore_refused: "\<not> can (brk s) (core n) \<Longrightarrow> core n < 2 ^ 31 \<Longrightarrow> morecore can n s = Some (0, s)"
  by (simp add: morecore_def sbrk_def core_def Let_def UNIT_def)

section \<open>malloc\<close>

definition heap_ok :: "heap \<Rightarrow> nat list \<Rightarrow> bool" where
  "heap_ok s xs \<longleftrightarrow> free_list s xs \<or> freep s = 0 \<and> xs = [] \<and> 0 < base s \<and> base s + UNIT \<le> brk s"

definition start_list :: "heap \<Rightarrow> heap" where
  "start_list s = (if freep s = 0 then set_size (base s) 0 ((set_ptr (base s) (base s) s)\<lparr>freep := base s\<rparr>) else s)"

lemma freep_nonnull: "free_list s xs \<Longrightarrow> freep s \<noteq> 0"
  using free_listD(4,8,9) [of s xs] by auto

lemma start_list_ok:
  assumes "heap_ok s xs"
  obtains ys where "free_list (start_list s) ys" "free_bytes (start_list s) ys = free_bytes s xs" "base (start_list s) = base s"
    "brk (start_list s) = brk s" "\<forall>a. a \<noteq> base s \<longrightarrow> hsize (start_list s) a = hsize s a"
proof (cases "freep s = 0")
  case True
  then have "xs = []" "0 < base s" "base s + UNIT \<le> brk s" using assms freep_nonnull [of s xs] by (auto simp: heap_ok_def)
  then show thesis using True by (intro that [of "[base s]"])
    (auto simp: start_list_def free_bytes_def block_def before_def UNIT_def intro!: free_listI)
next
  case False
  then show thesis using assms that [of xs] by (auto simp: heap_ok_def start_list_def)
qed

lemma units_for_room:
  assumes "nbytes < 2 ^ 31 - 16"
  shows "nbytes + UNIT \<le> units_for nbytes * UNIT" "0 < units_for nbytes" "core (units_for nbytes) < 2 ^ 31"
proof -
  have u: "units_for nbytes = (nbytes + 7) div 8 + 1" using assms by (simp add: units_for_def UNIT_def)
  then show "nbytes + UNIT \<le> units_for nbytes * UNIT" "0 < units_for nbytes" by (simp_all add: UNIT_def)
  show "core (units_for nbytes) < 2 ^ 31" using u assms by (auto simp: core_def UNIT_def)
qed

text \<open>The outcome: no memory, or a block out of the free ones and the new memory.\<close>

definition no_block :: "heap \<Rightarrow> nat list \<Rightarrow> heap \<Rightarrow> nat list \<Rightarrow> bool" where
  "no_block s xs s' ys \<longleftrightarrow> free_bytes s' ys = free_bytes s xs \<and> brk s' = brk s \<and> (\<forall>a. a \<noteq> base s \<longrightarrow> hsize s' a = hsize s a)"

definition new_block :: "heap \<Rightarrow> nat list \<Rightarrow> nat \<Rightarrow> heap \<Rightarrow> nat list \<Rightarrow> bool" where
  "new_block s xs bp s' ys \<longleftrightarrow> brk s \<le> brk s' \<and> block s' bp \<subseteq> free_bytes s xs \<union> {brk s ..< brk s'} \<and>
     free_bytes s' ys = free_bytes s xs \<union> {brk s ..< brk s'} - block s' bp \<and>
     (\<forall>a. a \<notin> free_bytes s xs \<union> {brk s ..< brk s'} \<longrightarrow> a \<noteq> base s \<longrightarrow> hsize s' a = hsize s a)"

lemma scan_ok:
  assumes "free_list s xs" "0 < n" "core n < 2 ^ 31"
  shows "\<exists>r s' ys. malloc_scan can n (freep s) (hptr s (freep s)) s = Some (r, s') \<and> free_list s' ys \<and> base s' = base s \<and>
    (r = 0 \<and> \<not> can (brk s) (core n) \<and> no_block s xs s' ys \<or> (\<exists>bp. r = bp + UNIT \<and> hsize s' bp = n \<and> new_block s xs bp s' ys))"
proof (cases "\<exists>x\<in>set xs. n \<le> hsize s x")
  case True
  then obtain bp s' where "malloc_scan can n (freep s) (hptr s (freep s)) s = Some (bp + UNIT, s')" "takes n s xs bp s'"
    using scan_takes [OF assms(1) True assms(2)] by blast
  then show ?thesis unfolding takes_def new_block_def by auto
next
  case False
  then have ex: "malloc_scan can n (freep s) (hptr s (freep s)) s =
    Option.bind (morecore can n s) (\<lambda>(p, s). if p = 0 then Some (0, s) else malloc_scan can n p (hptr s p) s)"
    by (intro scan_exhausts [OF assms(1)]) auto
  show ?thesis
  proof (cases "can (brk s) (core n)")
    case c: True
    obtain t ts where t: "morecore can n s = Some (freep t, t)" "grows n s xs t ts" using morecore_ok [where can = can, OF assms(1,3) c] by blast
    then have tl: "free_list t ts" "\<exists>y\<in>set ts. n \<le> hsize t y" and tb: "free_bytes t ts = free_bytes s xs \<union> {brk s ..< brk t}"
      and tf: "base t = base s" "brk s \<le> brk t" "\<forall>a. a \<notin> free_bytes s xs \<union> {brk s ..< brk t} \<longrightarrow> hsize t a = hsize s a"
      by (auto simp: grows_def)
    have "malloc_scan can n (freep s) (hptr s (freep s)) s = malloc_scan can n (freep t) (hptr t (freep t)) t"
      using ex t(1) freep_nonnull [OF tl(1)] by simp
    then obtain bp s' where b: "malloc_scan can n (freep s) (hptr s (freep s)) s = Some (bp + UNIT, s')" "takes n t ts bp s'"
      using scan_takes [OF tl assms(2)] by metis
    then obtain ys where ys: "free_list s' ys" "hsize s' bp = n" "block s' bp \<subseteq> free_bytes t ts" "base s' = base t" "brk s' = brk t"
      "free_bytes s' ys = free_bytes t ts - block s' bp" "\<forall>a. a \<notin> free_bytes t ts \<longrightarrow> hsize s' a = hsize t a"
      unfolding takes_def by blast
    then have "new_block s xs bp s' ys" using tf tb by (simp add: new_block_def)
    then show ?thesis using b(1) ys(1,2,4) tf(1) by auto
  next
    case False
    then show ?thesis using ex morecore_refused [where can = can, OF False assms(3)] assms(1) by (auto simp: no_block_def)
  qed
qed

lemma malloc_ok:
  assumes "heap_ok s xs" "nbytes < 2 ^ 31 - 16"
  shows "\<exists>r s' ys. malloc can nbytes s = Some (r, s') \<and> free_list s' ys \<and> base s' = base s \<and>
    (r = 0 \<and> \<not> can (brk s) (core (units_for nbytes)) \<and> no_block s xs s' ys \<or>
     (\<exists>bp. r = bp + UNIT \<and> nbytes + UNIT \<le> hsize s' bp * UNIT \<and> new_block s xs bp s' ys))"
proof -
  note u = units_for_room [OF assms(2)]
  obtain ts where t: "free_list (start_list s) ts" "free_bytes (start_list s) ts = free_bytes s xs" "base (start_list s) = base s"
    "brk (start_list s) = brk s" "\<forall>a. a \<noteq> base s \<longrightarrow> hsize (start_list s) a = hsize s a" using start_list_ok [OF assms(1)] .
  let ?t = "start_list s" and ?n = "units_for nbytes"
  have m: "malloc can nbytes s = malloc_scan can ?n (freep ?t) (hptr ?t (freep ?t)) ?t"
    by (simp add: malloc_def start_list_def Let_def)
  obtain r s' ys where r: "malloc can nbytes s = Some (r, s')" "free_list s' ys" "base s' = base s"
    "r = 0 \<and> \<not> can (brk s) (core ?n) \<and> no_block ?t ts s' ys \<or> (\<exists>bp. r = bp + UNIT \<and> hsize s' bp = ?n \<and> new_block ?t ts bp s' ys)"
    using scan_ok [OF t(1) u(2), of can] u(3) t(3,4) unfolding m by fastforce
  have "no_block ?t ts s' ys = no_block s xs s' ys" "new_block ?t ts bp s' ys = new_block s xs bp s' ys" for bp
    using t by (auto simp: no_block_def new_block_def)
  then show ?thesis using r u(1) by metis
qed

section \<open>Programs\<close>

text \<open>
  A program that calls \<open>malloc\<close> and \<open>free\<close> and writes into the memory it has been given; \<open>L\<close> is the set of
  the blocks it has and not yet freed. A header at \<open>a\<close> may be hit by a write exactly when \<open>a\<close> lies inside a block, behind
  its own header.
\<close>

inductive program :: "(nat \<Rightarrow> nat \<Rightarrow> bool) \<Rightarrow> heap \<Rightarrow> nat set \<Rightarrow> bool" for can where
  start: "freep s = 0 \<Longrightarrow> 0 < base s \<Longrightarrow> base s + UNIT \<le> brk s \<Longrightarrow> program can s {}"
| allocate: "program can s L \<Longrightarrow> nbytes < 2 ^ 31 - 16 \<Longrightarrow> malloc can nbytes s = Some (r, s') \<Longrightarrow>
    program can s' (if r = 0 then L else insert (r - UNIT) L)"
| release: "program can s L \<Longrightarrow> bp \<in> L \<Longrightarrow> free (bp + UNIT) s = Some s' \<Longrightarrow> program can s' (L - {bp})"
| store: "program can s L \<Longrightarrow>
    (\<forall>a. (\<forall>bp\<in>L. a \<notin> {bp <..< bp + hsize s bp * UNIT}) \<longrightarrow> hptr' a = hptr s a \<and> hsize' a = hsize s a) \<Longrightarrow>
    program can (s\<lparr>hptr := hptr', hsize := hsize'\<rparr>) L"

definition heap_inv :: "heap \<Rightarrow> nat set \<Rightarrow> nat list \<Rightarrow> bool" where
  "heap_inv s L xs \<longleftrightarrow> heap_ok s xs \<and> (L \<noteq> {} \<longrightarrow> freep s \<noteq> 0) \<and> (\<forall>p\<in>L. handed_out s xs p) \<and> (\<forall>p\<in>L. \<forall>q\<in>L. p \<noteq> q \<longrightarrow> block s p \<inter> block s q = {})"

lemma live_unchanged:
  assumes "heap_inv s L xs" "p \<in> L" "hsize s' p = hsize s p" "base s' = base s" "brk s \<le> brk s'" "free_bytes s' ys \<inter> block s p = {}"
  shows "handed_out s' ys p" "block s' p = block s p"
  using assms by (auto simp: heap_inv_def handed_out_def block_def)

lemma heap_ok_bounds:
  assumes "heap_ok s xs"
  shows "a \<in> free_bytes s xs \<Longrightarrow> base s + UNIT \<le> a \<and> a < brk s" "base s + UNIT \<le> brk s"
  using assms free_bytes_below [of s xs a] free_listD(10) [of s xs] by (auto simp: heap_ok_def free_bytes_def)

lemma inv_allocate:
  assumes "heap_inv s L xs" "nbytes < 2 ^ 31 - 16" "malloc can nbytes s = Some (r, s')"
  shows "\<exists>ys. heap_inv s' (if r = 0 then L else insert (r - UNIT) L) ys"
proof -
  have ok: "heap_ok s xs" and live: "\<forall>p\<in>L. handed_out s xs p" using assms(1) by (auto simp: heap_inv_def)
  obtain ys where y: "free_list s' ys" "base s' = base s"
    "r = 0 \<and> \<not> can (brk s) (core (units_for nbytes)) \<and> no_block s xs s' ys \<or>
     (\<exists>bp. r = bp + UNIT \<and> nbytes + UNIT \<le> hsize s' bp * UNIT \<and> new_block s xs bp s' ys)"
    using malloc_ok [OF ok assms(2), of can] assms(3) by auto
  have lp: "p \<in> block s p" "block s p \<inter> free_bytes s xs = {}" "block s p \<inter> {brk s ..< x} = {}" "p \<noteq> base s" if "p \<in> L" for p x
    using live that own_block [of s p] by (auto simp: handed_out_def block_def UNIT_def)
  from y(3) show ?thesis
  proof (elim disjE exE conjE)
    assume "r = 0" and n: "no_block s xs s' ys"
    then have "handed_out s' ys p" "block s' p = block s p" if "p \<in> L" for p
      using live_unchanged [OF assms(1) that, of s' ys] lp [OF that] y(2) by (auto simp: no_block_def)
    then show ?thesis using \<open>r = 0\<close> y(1) assms(1) by (auto simp: heap_inv_def heap_ok_def dest: freep_nonnull)
  next
    fix bp assume r: "r = bp + UNIT" "nbytes + UNIT \<le> hsize s' bp * UNIT" and n: "new_block s xs bp s' ys"
    have old: "handed_out s' ys p" "block s' p = block s p" "block s' bp \<inter> block s p = {}" if "p \<in> L" for p
    proof -
      have "p \<notin> free_bytes s xs \<union> {brk s ..< brk s'}" using lp(1,2) [OF that] lp(3) [OF that, of "brk s'"] by blast
      then have "hsize s' p = hsize s p" using n lp(4) [OF that] by (simp add: new_block_def)
      moreover have "free_bytes s' ys \<inter> block s p = {}" "block s' bp \<inter> block s p = {}"
        using n lp(2) [OF that] lp(3) [OF that, of "brk s'"] by (auto simp: new_block_def)
      moreover have "brk s \<le> brk s'" using n by (simp add: new_block_def)
      ultimately show "handed_out s' ys p" "block s' p = block s p" "block s' bp \<inter> block s p = {}"
        using live_unchanged [OF assms(1) that, of s' ys] y(2) by auto
    qed
    have sz: "0 < hsize s' bp" using r(2) by (cases "hsize s' bp") auto
    have in_heap: "base s + UNIT \<le> a \<and> a < brk s'" if "a \<in> block s' bp" for a
    proof -
      have "a \<in> free_bytes s xs \<or> brk s \<le> a \<and> a < brk s'" "brk s \<le> brk s'" using that n unfolding new_block_def by auto
      then show ?thesis using heap_ok_bounds(1) [OF ok, of a] heap_ok_bounds(2) [OF ok] by linarith
    qed
    have "bp + hsize s' bp * UNIT - 1 \<in> block s' bp"
      using sz mult_pos_pos [OF sz UNIT_pos(1)] unfolding block_def atLeastLessThan_iff by linarith
    then have "bp + hsize s' bp * UNIT \<le> brk s'" "base s' + UNIT \<le> bp"
      using in_heap [of "bp + hsize s' bp * UNIT - 1"] in_heap [of bp] own_block [OF sz] y(2) by auto
    moreover have "block s' bp \<inter> free_bytes s' ys = {}" using n by (auto simp: new_block_def)
    ultimately have "handed_out s' ys bp" using sz by (simp add: handed_out_def)
    moreover have "\<forall>p\<in>L. \<forall>q\<in>L. p \<noteq> q \<longrightarrow> block s' p \<inter> block s' q = {}" "\<forall>p\<in>L. block s' bp \<inter> block s' p = {}"
      using assms(1) old(2,3) by (simp_all add: heap_inv_def)
    ultimately show ?thesis
      using old(1) r(1) y(1) unfolding heap_inv_def heap_ok_def by (intro exI [of _ ys]) (auto simp: Int_commute dest: freep_nonnull)
  qed
qed

lemma live_list:
  assumes "heap_inv s L xs" "bp \<in> L"
  shows "free_list s xs"
  using assms by (auto simp: heap_inv_def heap_ok_def)

lemma inv_release:
  assumes "heap_inv s L xs" "bp \<in> L"
  shows "\<exists>s' ys. free (bp + UNIT) s = Some s' \<and> heap_inv s' (L - {bp}) ys"
proof -
  have h: "handed_out s xs bp" using assms(1,2) by (simp add: heap_inv_def)
  obtain s' ys where s': "free (bp + UNIT) s = Some s'" "free_list s' ys" "free_bytes s' ys = free_bytes s xs \<union> block s bp"
    "base s' = base s" "brk s' = brk s" "\<And>a. a \<notin> free_bytes s xs \<union> block s bp \<Longrightarrow> hsize s' a = hsize s a"
    using free_ok [OF live_list [OF assms] h] unfolding frees_def by blast
  have old: "handed_out s' ys p" "block s' p = block s p" if "p \<in> L - {bp}" for p
  proof -
    have "block s p \<inter> free_bytes s xs = {}" "block s p \<inter> block s bp = {}" "p \<in> block s p"
      using assms(1,2) that own_block [of s p] by (auto simp: heap_inv_def handed_out_def)
    moreover from this have "hsize s' p = hsize s p" "free_bytes s' ys \<inter> block s p = {}" using s'(3) s'(6) [of p] by auto
    ultimately show "handed_out s' ys p" "block s' p = block s p"
      using live_unchanged [OF assms(1), of p s' ys] that s'(4,5) by auto
  qed
  have "heap_inv s' (L - {bp}) ys"
    using s'(2) freep_nonnull [OF s'(2)] old assms(1) by (simp add: heap_inv_def heap_ok_def)
  then show ?thesis using s'(1) by blast
qed

lemma inv_store:
  assumes "heap_inv s L xs"
    and "\<forall>a. (\<forall>bp\<in>L. a \<notin> {bp <..< bp + hsize s bp * UNIT}) \<longrightarrow> hptr' a = hptr s a \<and> hsize' a = hsize s a"
  shows "heap_inv (s\<lparr>hptr := hptr', hsize := hsize'\<rparr>) L xs"
proof -
  let ?s = "s\<lparr>hptr := hptr', hsize := hsize'\<rparr>"
  have live: "\<And>p. p \<in> L \<Longrightarrow> handed_out s xs p" and dis: "\<And>p q. p \<in> L \<Longrightarrow> q \<in> L \<Longrightarrow> p \<noteq> q \<Longrightarrow> block s p \<inter> block s q = {}"
    and ok: "heap_ok s xs" using assms(1) by (auto simp: heap_inv_def)
  have out: "x \<notin> {p <..< p + hsize s p * UNIT}" if "p \<in> L" "x \<in> set xs \<union> L \<union> {base s}" for x p
  proof (cases "x \<in> block s p")
    case True
    have nf: "block s p \<inter> free_bytes s xs = {}" "base s < p" using live [OF that(1)] by (auto simp: handed_out_def UNIT_def)
    have "x \<notin> set xs"
    proof
      assume x: "x \<in> set xs"
      then have "free_list s xs" using ok by (auto simp: heap_ok_def)
      then have "x = base s \<or> x \<in> free_bytes s xs" using free_listD(9) [of s xs] x own_block [of s x] by (auto simp: free_bytes_def)
      then show False using nf True by (auto simp: block_def)
    qed
    moreover have "x \<noteq> base s" using nf(2) True by (auto simp: block_def)
    ultimately have "x \<in> L" using that(2) by simp
    then have "x = p" using dis [OF _ that(1)] live own_block [of s x] True by (auto simp: handed_out_def)
    then show ?thesis by simp
  next
    case False
    then show ?thesis by (auto simp: block_def)
  qed
  have same: "hptr' x = hptr s x \<and> hsize' x = hsize s x" if "x \<in> set xs \<union> L \<union> {base s}" for x
    using assms(2) out that by blast
  have b: "block ?s x = block s x" if "x \<in> set xs \<union> L" for x using same [of x] that by (auto simp: block_def)
  have fb: "free_bytes ?s xs = free_bytes s xs" using b by (auto simp: free_bytes_def)
  have "free_list ?s xs" if fl: "free_list s xs"
  proof -
    note f = free_listD [OF fl]
    have "before ?s x y = before s x y" if "x \<in> set xs" for x y using same [of x] that by (simp add: before_def)
    then have "sorted_wrt (before ?s) xs" "\<forall>x\<in>set xs. before ?s x (brk s)"
      using f(2,3) sorted_before_cong [of xs ?s s] same by auto
    moreover have "linked ?s xs (base s)" using f(1) linked_cong [of xs ?s s] same by simp
    ultimately show ?thesis using f(4-10) same by (intro free_listI) auto
  qed
  then have "heap_ok ?s xs" using ok by (auto simp: heap_ok_def)
  moreover have "handed_out ?s xs p" if "p \<in> L" for p
    using live [OF that] same [of p] b [of p] fb that by (auto simp: handed_out_def)
  ultimately show ?thesis using dis b assms(1) by (simp add: heap_inv_def)
qed

lemma program_inv: "program can s L \<Longrightarrow> \<exists>xs. heap_inv s L xs"
proof (induction rule: program.induct)
  case (start s)
  then show ?case by (intro exI [of _ "[]"]) (simp add: heap_inv_def heap_ok_def)
next
  case (allocate s L nbytes r s')
  then show ?case using inv_allocate by blast
next
  case (release s L bp s')
  then show ?case using inv_release by (metis option.inject)
next
  case (store s L hptr' hsize')
  then show ?case using inv_store by blast
qed

text \<open>C35: whatever a program does with \<open>malloc\<close> of fewer than \<open>2^31 - 16\<close> bytes, with \<open>free\<close> of the blocks it holds and by writing into them, the
  blocks it holds never overlap and lie inside its memory, and \<open>free\<close> of one of them and \<open>malloc\<close> of fewer than \<open>2^31 - 16\<close> bytes never run into
  an endless loop.\<close>

theorem umalloc_blocks_apart:
  assumes "program can s L"
  shows "(\<forall>p\<in>L. base s + UNIT \<le> p \<and> p + hsize s p * UNIT \<le> brk s) \<and>
    (\<forall>p\<in>L. \<forall>q\<in>L. p \<noteq> q \<longrightarrow> block s p \<inter> block s q = {}) \<and>
    (\<forall>p\<in>L. free (p + UNIT) s \<noteq> None) \<and> (\<forall>nbytes < 2 ^ 31 - 16. malloc can nbytes s \<noteq> None)"
proof -
  obtain xs where i: "heap_inv s L xs" using program_inv [OF assms] by blast
  have "malloc can nbytes s \<noteq> None" if "nbytes < 2 ^ 31 - 16" for nbytes
    using i malloc_ok [OF _ that, of s xs can] by (auto simp: heap_inv_def)
  moreover have "free (p + UNIT) s \<noteq> None" if "p \<in> L" for p using inv_release [OF i that] by auto
  ultimately show ?thesis using i by (auto simp: heap_inv_def handed_out_def)
qed

definition fresh_heap :: heap where
  "fresh_heap = \<lparr>hptr = \<lambda>_. 0, hsize = \<lambda>_. 0, base = 4096, freep = 0, brk = 8192\<rparr>"

lemmas malloc_run = malloc_def fresh_heap_def units_for_def UNIT_def Let_def malloc_scan.simps morecore_def sbrk_def free_def
  find_prev.simps join_above_def join_below_def set_ptr_def set_size_def

theorem umalloc_blocks_apart_witness:
  "\<exists>s. malloc (\<lambda>_ _. True) 100 fresh_heap = Some (40856, s) \<and> malloc (\<lambda>_ _. True) 100 s \<noteq> None \<and> free 40856 s \<noteq> None"
proof -
  have "\<exists>s. malloc (\<lambda>_ _. True) 100 fresh_heap = Some (40856, s)"
    by (simp add: malloc_run)
  then obtain s where s: "malloc (\<lambda>_ _. True) 100 fresh_heap = Some (40856, s)" by blast
  have "program (\<lambda>_ _. True) fresh_heap {}" by (rule program.start) (simp_all add: fresh_heap_def UNIT_def)
  from program.allocate [OF this _ s] have "program (\<lambda>_ _. True) s {40848}" by (simp add: UNIT_def)
  from umalloc_blocks_apart [OF this] show ?thesis using s by (auto simp: UNIT_def)
qed

text \<open>C36: in such a program, \<open>malloc\<close> of fewer than \<open>2^31 - 16\<close> bytes returns a block that has room for the bytes asked for, taken from the free blocks and
  from memory that the kernel has added, and leaves all other bytes as free as they were; it returns null only when the kernel gives no memory.\<close>

theorem malloc_gives_room:
  assumes "program can s L" "nbytes < 2 ^ 31 - 16"
  shows "\<exists>r s' xs ys. heap_ok s xs \<and> malloc can nbytes s = Some (r, s') \<and> heap_ok s' ys \<and>
    (if r = 0 then \<not> can (brk s) (core (units_for nbytes)) \<and> free_bytes s' ys = free_bytes s xs
     else nbytes + UNIT \<le> hsize s' (r - UNIT) * UNIT \<and> block s' (r - UNIT) \<subseteq> free_bytes s xs \<union> {brk s ..< brk s'} \<and>
       free_bytes s' ys = free_bytes s xs \<union> {brk s ..< brk s'} - block s' (r - UNIT))"
proof -
  obtain xs where i: "heap_ok s xs" using program_inv [OF assms(1)] by (auto simp: heap_inv_def)
  obtain r s' ys where r: "malloc can nbytes s = Some (r, s')" "free_list s' ys"
    "r = 0 \<and> \<not> can (brk s) (core (units_for nbytes)) \<and> no_block s xs s' ys \<or>
     (\<exists>bp. r = bp + UNIT \<and> nbytes + UNIT \<le> hsize s' bp * UNIT \<and> new_block s xs bp s' ys)"
    using malloc_ok [OF i assms(2), of can] by blast
  then show ?thesis using i
    by (intro exI [of _ r] exI [of _ s'] exI [of _ xs] exI [of _ ys]) (auto simp: heap_ok_def no_block_def new_block_def)
qed

theorem malloc_gives_room_witness:
  "\<exists>s' ys. malloc (\<lambda>_ _. True) 100 fresh_heap = Some (40856, s') \<and> heap_ok s' ys \<and> 108 \<le> hsize s' 40848 * 8 \<and>
     block s' 40848 \<subseteq> {8192..<40960} \<and> free_bytes s' ys = {8192..<40960} - block s' 40848"
proof -
  obtain t where m: "malloc (\<lambda>_ _. True) 100 fresh_heap = Some (40856, t)" "brk t = 40960" by (simp add: malloc_run)
  have "program (\<lambda>_ _. True) fresh_heap {}" by (rule program.start) (simp_all add: fresh_heap_def UNIT_def)
  from malloc_gives_room [OF this, of 100] m obtain xs ys where r: "heap_ok fresh_heap xs" "heap_ok t ys" "108 \<le> hsize t 40848 * 8"
    "block t 40848 \<subseteq> free_bytes fresh_heap xs \<union> {8192..<40960}"
    "free_bytes t ys = free_bytes fresh_heap xs \<union> {8192..<40960} - block t 40848"
    by (auto simp: UNIT_def fresh_heap_def)
  have "xs = []" using r(1) freep_nonnull [of fresh_heap xs] by (auto simp: heap_ok_def fresh_heap_def)
  then show ?thesis using m(1) r(2-5) by (auto simp: free_bytes_def)
qed

text \<open>
  The bound on the size is needed. For the greatest sizes the number of units wraps around, and a block without any room is
  returned; at \<open>2 ^ 32 - 8\<close> bytes the argument of \<open>sbrk\<close> wraps around to 0, and at \<open>2 ^ 31\<close> bytes it is negative: in both cases
  a block is returned for which there is no memory.
\<close>

lemma malloc_overflow:
  "units_for (2 ^ 32 - 1) = 1"
  "\<exists>r s'. malloc can (2 ^ 32 - 8) fresh_heap = Some (r, s') \<and> r \<noteq> 0 \<and> brk s' = brk fresh_heap"
  "\<exists>r s'. malloc can (2 ^ 31) fresh_heap = Some (r, s') \<and> r \<noteq> 0 \<and> brk s' = brk fresh_heap"
  by (simp_all add: malloc_run)

end
