(* ===== verification/Spec2Isabelle.thy ===== *)
theory Spec2Isabelle
  imports Stride Boot_Image Ide Tty Pagetable Pipe Trap_Spec Grep Shell_Run Umalloc
begin

text \<open>
  A verification of xv6, a small Unix-like teaching operating system for x86 multiprocessors, in a version
  with a stride scheduler. The sources are the C files directly under \<open>src/src\<close>.

  \<^bold>\<open>The program.\<close> The kernel has an allocator of physical pages (\<open>kalloc.c\<close>) on which the page tables (\<open>vm.c\<close>) are built;
  a process table with its scheduler, sleep and wakeup (\<open>proc.c\<close>); a disk driver (\<open>memide.c\<close> or \<open>ide.c\<close>), a
  buffer cache (\<open>bio.c\<close>), a redo log (\<open>log.c\<close>) and the file system above them (\<open>fs.c\<close>); open files and pipes (\<open>file.c\<close>,
  \<open>pipe.c\<close>); the console (\<open>console.c\<close>, \<open>kbd.c\<close>, \<open>uart.c\<close>); and the system call layer (\<open>trap.c\<close>, \<open>syscall.c\<close>, \<open>sysproc.c\<close>,
  \<open>sysfile.c\<close>, \<open>exec.c\<close>). Spin locks (\<open>spinlock.c\<close>) protect all of it. User programs call a small library (\<open>ulib.c\<close>, \<open>printf.c\<close>).

  \<^bold>\<open>The model.\<close> The state of the kernel is one extensible record that grows along the imports: \<open>lock_st\<close> (the
  locks this CPU holds), \<open>mem_st\<close> (memory and free list), \<open>proc_st\<close>, \<open>disk_st\<close>, \<open>log_st\<close>, \<open>fs_st\<close>, \<open>cons_st\<close>, \<open>file_st\<close>,
  \<open>kernel_st\<close>. Every function works on the record it needs and on all its extensions. Its result is \<open>Ok\<close>, \<open>Panic msg\<close> or
  \<open>Stuck\<close> (waits forever). Code that may sleep (\<open>Kprog\<close>) also takes the list of what the rest of the machine does at
  each of its sleeps, any function on the state; each sleep uses up one entry, so that loops around a sleep terminate and a process
  that is never woken is \<open>Stuck\<close>. Pointers to table entries are indices, pointers into memory are 32-bit addresses; unsigned C integers
  keep their width and wrap. Signed ones are integers: where a result can leave the range of 32 bits the wrap is written out (\<open>nextpid\<close>, the
  arguments of system calls, the arithmetic of \<open>malloc\<close>); counters that stay small (\<open>ncli\<close>, reference counts, \<open>step\<close>, which is at most one stride above 5000000) are left unbounded. Loops are recursive functions with termination proofs; \<open>partial_function\<close> where the C loop may not
  end (\<open>strlen\<close>, \<open>strchr\<close>, polling the disk, \<open>grep\<close>). Fuel is used for \<open>freerange\<close> (the number of pages of memory, which a loop over
  them cannot exceed) and for the parser of the shell (four steps for each character of the line; it is proved that they are enough).

  \<^bold>\<open>Theories, sources, results.\<close>
  \<^item> \<open>Xv6_Prelude\<close>: results and their rules, table scans, little-endian encodings. \<open>Kprog\<close>: sequencing of code that sleeps.
  \<^item> \<open>Spinlock\<close> (\<open>spinlock.c\<close>): any number of CPUs running the instructions of \<open>acquire\<close> and \<open>release\<close>, as a step relation: mutual
    exclusion, and that the list of held locks used elsewhere gives the locks, the nesting depth and the interrupt flag of a CPU.
  \<^item> \<open>C_String\<close> (\<open>string.c\<close>), \<open>Kalloc\<close> (\<open>kalloc.c\<close>): \<open>memmove\<close> and \<open>safestrcpy\<close>; the free list as a set of pages.
  \<^item> \<open>Proc\<close>, \<open>Stride\<close> (the scheduler of \<open>proc.c\<close>): the process with the least pass value runs; processes that use up their quanta share the CPU in proportion to
    their tickets; how long that lasts, and what a newcomer does to it.
  \<^item> \<open>Proc_Life\<close>, \<open>Lifecycle\<close>, \<open>Proc_Spec\<close> (the rest of \<open>proc.c\<close>, \<open>exec.c\<close>): the process table as a state machine; unique ids until the counter wraps, no orphans, no lost
    wakeup between \<open>exit\<close> and \<open>wait\<close>; what \<open>exit\<close> leaves in the table; \<open>fork\<close> and \<open>wait\<close> are sequences of its steps, and \<open>wait\<close> returns the zombie child that it has freed.
  \<^item> \<open>Bio\<close> (\<open>bio.c\<close>, \<open>memide.c\<close>), \<open>Log\<close> (\<open>log.c\<close>): the buffer cache shows the current contents of a sector; a transaction survives a crash
    at any disk write completely or not at all, and recovery may itself be interrupted.
  \<^item> \<open>Ide\<close> (\<open>ide.c\<close>): the interrupt-driven queue does what the memory disk does.
  \<^item> \<open>Fs\<close> (\<open>fs.c\<close>), \<open>Balloc\<close>, \<open>Inode_Content\<close>, \<open>Inode_Write\<close>, \<open>Directory\<close>: block allocation as a set of blocks; a file as a list of bytes that \<open>readi\<close> reads and
    \<open>writei\<close> replaces, with the blocks of all other files left alone; a directory as a map that \<open>dirlookup\<close> reads and \<open>dirlink\<close> extends. The locale \<open>block_reads\<close> states what reading blocks needs; it is
    interpreted for code inside and outside a transaction.
  \<^item> \<open>Mkfs\<close>, \<open>Mkfs_Image\<close> (\<open>mkfs.c\<close>): the program of the build host that makes the disk image. The image holds the given files under their
    names, and its inodes and its bitmap are in the order that the kernel relies on.
  \<^item> \<open>Namei\<close>, \<open>Boot_Image\<close>: the inode cache as reference counts, and path lookup as a walk along the directories on the disk, proved in the
    locale \<open>path_reads\<close>, which extends \<open>block_reads\<close>; a kernel started on an image of \<open>mkfs\<close> finds the files by their names and reads them.
  \<^item> \<open>Ring\<close>, \<open>Console\<close>, \<open>Tty\<close> (\<open>console.c\<close>, \<open>kbd.c\<close>, \<open>uart.c\<close>), \<open>File\<close>, \<open>Pipe\<close> (\<open>file.c\<close>, \<open>pipe.c\<close>): circular buffers as a locale, interpreted for the
    console input and the pipes; the line discipline; pipes as bounded queues.
  \<^item> \<open>Vm\<close>, \<open>Pagetable\<close> (\<open>vm.c\<close>): page table walks in memory, and \<open>allocuvm\<close> as an extension of the address map.
  \<^item> \<open>Syscall\<close>, \<open>Sysfile\<close>, \<open>Trap\<close>, \<open>Trap_Spec\<close> (\<open>syscall.c\<close>, \<open>sysproc.c\<close>, \<open>sysfile.c\<close>, \<open>trap.c\<close>, \<open>mmu.h\<close>): argument checks, dispatch, gates and segments,
    \<open>sleep\<close>, and that a killed process never returns to user mode.
  \<^item> \<open>Ulib\<close> (\<open>ulib.c\<close>, \<open>printf.c\<close>), \<open>Grep\<close> (\<open>grep.c\<close>): printed numbers are read back; the matcher of \<open>grep\<close> decides the language of the
    pattern, and \<open>grep\<close> prints the matching lines of a short file.
  \<^item> \<open>Umalloc\<close> (\<open>umalloc.c\<close>): the circular list of free blocks; blocks in use never overlap, and the loops over the list end, as long as
    the requests are below \<open>2^31 - 16\<close> bytes.
  \<^item> \<open>Shell\<close>, \<open>Shell_Run\<close> (\<open>sh.c\<close>): the parser ends on every line, gives back the command that a line was printed from, and leaves every
    word as a C string; the programs a session starts get the descriptors that pipes and redirections call for, and the
    processes that wait for them hold no end of a pipe.

  \<^bold>\<open>Bounds of the results.\<close> The theorems on files hold inside one transaction that has room for the blocks it touches (the log and the
  buffer cache both have ten entries, so at most eight blocks), for direct blocks and for indirect blocks that already exist. Processes
  interleave at sleeps and at context switches; interleavings inside critical sections are excluded by the result on spin locks, not
  modelled again. The disk controller of \<open>ide.c\<close> and the file descriptors of user programs are arguments; \<open>ata_disk\<close> states what is
  assumed of the former.

  \<^bold>\<open>Not modelled.\<close> The hardware start-up and the interrupt controllers (\<open>main.c\<close>, \<open>bootmain.c\<close>, \<open>mp.c\<close>, \<open>lapic.c\<close>, \<open>ioapic.c\<close>, \<open>picirq.c\<close>, \<open>timer.c\<close>):
  register programming without state of the program's own. Assembly (\<open>swtch.S\<close>, \<open>trapasm.S\<close>, ...): its effect is part of \<open>sched\<close> and \<open>trap\<close>.
  In \<open>switchuvm\<close> the task descriptor of the GDT and the
  \<open>pushcli\<close> around it are left out, and in the trap handler the disk interrupt is the empty one of \<open>memide.c\<close>. The
  other user programs are short sequences of system calls, and \<open>usertests.c\<close> and its like are tests. The directory \<open>fmt\<close> holds stale
  copies for printing.
\<close>

end
